(* ===== verification/Nox_Prelude.thy ===== *)
theory Nox_Prelude
  imports Main "HOL-Library.Word"
begin

text \<open>
  The vocabulary every component theory shares: machine integers at their C width, byte
  strings, the return codes of \<open>noxtls_common.h\<close>, the outcome of an allocation, and the
  generic facts about words and lists that carry the component proofs.

  Conventions of the whole development. A \<open>uint8_t\<close>, \<open>uint16_t\<close>, \<open>uint32_t\<close>, \<open>uint64_t\<close>
  is a word of that width, so that arithmetic wraps where the C code wraps. A byte buffer is
  a list of bytes; a pointer that the code compares with \<open>NULL\<close> is an option. A function that
  writes through a pointer returns what it writes. Every early return of the C code is a
  branch of the model, in the code's order.
\<close>

unbundle bit_operations_syntax

type_synonym u8 = "8 word"
type_synonym u16 = "16 word"
type_synonym u32 = "32 word"
type_synonym u64 = "64 word"
type_synonym bytes = "u8 list"

section \<open>Return codes\<close>

datatype noxtls_return_t =
    NOXTLS_RETURN_SUCCESS
  | NOXTLS_RETURN_FAILED
  | NOXTLS_RETURN_NULL
  | NOXTLS_RETURN_INVALID_PARAM
  | NOXTLS_RETURN_INVALID_BLOCK_SIZE
  | NOXTLS_RETURN_INVALID_KEY_SIZE
  | NOXTLS_RETURN_INVALID_MODE
  | NOXTLS_RETURN_INVALID_ALGORITHM
  | NOXTLS_RETURN_BAD_DATA
  | NOXTLS_RETURN_TIMEOUT
  | NOXTLS_RETURN_NOT_SUPPORTED
  | NOXTLS_RETURN_NOT_INITIALIZED
  | NOXTLS_RETURN_NOT_ENOUGH_MEMORY
  | NOXTLS_RETURN_NOT_ENOUGH_ENTROPY
  | NOXTLS_RETURN_CERT_PARSE_FAILED
  | NOXTLS_RETURN_CERT_VERIFY_FAILED
  | NOXTLS_RETURN_TLS_ERROR
  | NOXTLS_RETURN_CERT_VERIFY_SIGNATURE_FAILED
  | NOXTLS_RETURN_CERT_VERIFY_HOSTNAME_MISMATCH
  | NOXTLS_RETURN_CERT_EXPIRED
  | NOXTLS_RETURN_CERT_NOT_YET_VALID
  | NOXTLS_RETURN_CERT_VERIFY_CHAIN_FAILED
  | NOXTLS_RETURN_CERT_REVOKED
  | NOXTLS_RETURN_CRL_PARSE_FAILED
  | NOXTLS_RETURN_CRL_VERIFY_FAILED
  | NOXTLS_RETURN_CRL_EXPIRED
  | NOXTLS_RETURN_TLS_WEAK_DHE_PARAMS
  | NOXTLS_RETURN_RECORD_OVERFLOW
  | NOXTLS_RETURN_CERT_REQUIRED
  | NOXTLS_RETURN_TLS_ALERT_DECODE_ERROR
  | NOXTLS_RETURN_TLS_ALERT_ILLEGAL_PARAMETER
  | NOXTLS_RETURN_TLS_RECORD_AUTH_FAILED
  | NOXTLS_RETURN_TLS_FINISHED_VERIFY_FAILED
  | NOXTLS_RETURN_NEGOTIATED_TLS12
  | NOXTLS_RETURN_WANT_READ
  | NOXTLS_RETURN_WANT_WRITE
  | NOXTLS_RETURN_ECDH_PRIVATE_KEY_INVALID
  | NOXTLS_RETURN_ECDH_OUTPUT_TOO_SMALL
  | NOXTLS_RETURN_ECDH_PEER_PUBLIC_KEY_INVALID
  | NOXTLS_RETURN_ECDH_SCALAR_MULTIPLY_FAILED
  | NOXTLS_RETURN_ECDH_SHARED_POINT_INFINITY
  | NOXTLS_RETURN_DTLS_RECORD_REPLAYED
  | NOXTLS_RETURN_KEY_EXHAUSTED

section \<open>Allocations\<close>

text \<open>
  \<open>NOXTLS_MALLOC\<close> and \<open>NOXTLS_REALLOC\<close> may fail at any call. The environment's decisions
  for the coming calls are a list the state carries: each call consumes one entry, and a call
  past the end of the list succeeds. Every theorem holds for every such list.
\<close>

fun alloc_next :: "bool list \<Rightarrow> bool \<times> bool list" where
  "alloc_next [] = (True, [])"
| "alloc_next (b # bs) = (b, bs)"

section \<open>Overwriting part of a buffer\<close>

definition put_at :: "nat \<Rightarrow> 'a list \<Rightarrow> 'a list \<Rightarrow> 'a list" where
  "put_at off bs buf = take off buf @ bs @ drop (off + length bs) buf"

lemma length_put_at [simp]:
  "off + length bs \<le> length buf \<Longrightarrow> length (put_at off bs buf) = length buf"
  by (simp add: put_at_def)

lemma put_at_Nil [simp]: "put_at off [] buf = buf"
  by (simp add: put_at_def)

lemma put_at_same_length [simp]: "length bs = length buf \<Longrightarrow> put_at 0 bs buf = bs"
  by (simp add: put_at_def)

lemma Cons_eq_drop:
  "x # xs = drop i ys \<Longrightarrow> i < length ys \<and> ys ! i = x \<and> xs = drop (Suc i) ys"
  by (metis Cons_nth_drop_Suc drop_eq_Nil list.distinct(1) list.inject not_le)

section \<open>Automation\<close>

named_theorems word_nat \<open>values of word operations read as natural numbers\<close>
named_theorems byte_codec \<open>definitions of the byte encoders and decoders\<close>

text \<open>Bits of a single-bit mask, as the code's tables of powers of two use them.\<close>

lemma and_single_bit_eq_0_iff:
  fixes w :: "'a::len word"
  assumes "d < LENGTH('a)"
  shows "w AND 2 ^ d = 0 \<longleftrightarrow> \<not> bit w d"
proof -
  have "bit (w AND 2 ^ d) n \<longleftrightarrow> n = d \<and> bit w d" for n
    using assms by (auto simp: bit_simps)
  then show ?thesis
    by (metis bit_0_eq bot_apply bot_bool_def bit_eqI)
qed

text \<open>A test bit of the byte mask: masking and truncating to a byte is truncating.\<close>

lemma bit_255_int [simp]: "bit (0xFF :: int) n \<longleftrightarrow> n < 8"
proof -
  have *: "(0xFF :: int) = mask 8"
    by (simp add: mask_eq_exp_minus_1)
  show ?thesis
    unfolding * bit_mask_iff by simp
qed

lemma ucast_and_255 [simp]: "(ucast (w AND 0xFF) :: u8) = ucast w"
  by (rule bit_word_eqI) (auto simp: bit_simps dest: bit_imp_le_length)

lemma high_bits_clear:
  fixes v :: "'a::len word"
  assumes "unat v < 2 ^ k" and "k \<le> n"
  shows "\<not> bit v n"
proof -
  have "take_bit k (unat v) = unat v"
    using assms(1) by (simp add: take_bit_nat_eq_self_iff)
  then have "bit (unat v) n = (n < k \<and> bit (unat v) n)"
    by (metis bit_take_bit_iff)
  then show ?thesis
    using assms(2) by (simp add: bit_unsigned_iff)
qed

lemma unat_and_mask: "unat (w AND mask n) = unat w mod 2 ^ n"
  by (simp only: take_bit_eq_mask [symmetric] unsigned_take_bit_eq) (simp add: take_bit_eq_mod)

text \<open>Replacing the low \<open>b\<close> bits of a word, as arithmetic.\<close>

lemma unat_and_not_mask_or:
  fixes x y :: "'a::len word"
  shows "unat ((x AND NOT (mask b)) OR (y AND mask b)) =
         unat x div 2 ^ b * 2 ^ b + unat y mod 2 ^ b"
proof -
  have hi: "uint (x AND NOT (mask b)) = push_bit b (drop_bit b (uint x))"
    by (rule bit_eqI) (auto simp: bit_simps dest: bit_imp_le_length)
  have lo: "uint (y AND mask b) = take_bit b (uint y)"
    by (rule bit_eqI) (auto simp: bit_simps dest: bit_imp_le_length)
  have "uint ((x AND NOT (mask b)) OR (y AND mask b)) =
        push_bit b (drop_bit b (uint x)) OR take_bit b (uint y)"
    by (simp add: unsigned_or_eq hi lo)
  also have "\<dots> = push_bit b (drop_bit b (uint x)) + take_bit b (uint y)"
    by (rule disjunctive_add_eq_or [symmetric], rule bit_eqI) (simp add: bit_simps)
  finally have "uint ((x AND NOT (mask b)) OR (y AND mask b)) =
        uint x div 2 ^ b * 2 ^ b + uint y mod 2 ^ b"
    by (simp add: push_bit_eq_mult drop_bit_eq_div take_bit_eq_mod)
  then have "int (unat ((x AND NOT (mask b)) OR (y AND mask b))) =
        int (unat x div 2 ^ b * 2 ^ b + unat y mod 2 ^ b)"
    by (simp add: of_nat_div of_nat_mod)
  then show ?thesis
    by (simp only: of_nat_eq_iff)
qed

lemma unat_sub_le [word_nat]:
  fixes a b :: "'a::len word"
  shows "b \<le> a \<Longrightarrow> unat (a - b) = unat a - unat b"
  by (rule unat_sub)

lemma unat_add_small [word_nat]:
  fixes a b :: "'a::len word"
  shows "unat a + unat b < 2 ^ LENGTH('a) \<Longrightarrow> unat (a + b) = unat a + unat b"
  by (simp add: unat_word_ariths)

lemma unat_ucast_up:
  fixes x :: "'a::len word"
  assumes "LENGTH('a) \<le> LENGTH('b::len)"
  shows "unat (ucast x :: 'b word) = unat x"
proof -
  have "unat x < 2 ^ LENGTH('b)"
    using assms by (metis order_less_le_trans one_le_numeral power_increasing unsigned_less)
  then show ?thesis
    by (simp add: unsigned_ucast_eq take_bit_nat_eq_self)
qed

lemma unat_Suc_small:
  fixes a :: "'a::len word"
  shows "unat a + 1 < 2 ^ LENGTH('a) \<Longrightarrow> unat (a + 1) = Suc (unat a)"
  by (simp add: unat_word_ariths)

lemma unat_lt_iff: "(a :: 'a::len word) < b \<longleftrightarrow> unat a < unat b"
  by (rule word_less_nat_alt)

lemma unat_le_iff: "(a :: 'a::len word) \<le> b \<longleftrightarrow> unat a \<le> unat b"
  by (rule word_le_nat_alt)

lemma unat_inj_iff: "unat (a :: 'a::len word) = unat b \<longleftrightarrow> a = b"
  by (rule word_unat_eq_iff [symmetric])

section \<open>XOR of byte strings\<close>

definition xor_bytes :: "bytes \<Rightarrow> bytes \<Rightarrow> bytes" where
  "xor_bytes xs ys = map2 (XOR) xs ys"

lemma length_xor_bytes [simp]: "length (xor_bytes xs ys) = min (length xs) (length ys)"
  by (simp add: xor_bytes_def)

lemma xor_bytes_nth [simp]:
  "i < length xs \<Longrightarrow> i < length ys \<Longrightarrow> xor_bytes xs ys ! i = xs ! i XOR ys ! i"
  by (simp add: xor_bytes_def)

lemma xor_bytes_cancel [simp]:
  "length xs \<le> length ys \<Longrightarrow> xor_bytes (xor_bytes xs ys) ys = xs"
  by (rule nth_equalityI) (simp_all add: xor.assoc)

lemma xor_bytes_comm: "xor_bytes xs ys = xor_bytes ys xs"
  by (rule nth_equalityI) (simp_all add: xor.commute)

lemma xor_bytes_Nil [simp]: "xor_bytes [] ys = []" "xor_bytes xs [] = []"
  by (simp_all add: xor_bytes_def)

lemma ucast_nat_small:
  "n < 4294967283 \<Longrightarrow> ucast (13 + of_nat n :: u32) = (13 + of_nat n :: u64)"
  by (rule word_unat_eq_iff [THEN iffD2]) (simp add: unat_ucast_up unat_word_ariths unat_of_nat)

section \<open>Numbers as byte strings\<close>

text \<open>A byte string read as a big-endian number.\<close>

definition be_value :: "bytes \<Rightarrow> nat" where
  "be_value xs = foldl (\<lambda>v b. v * 256 + unat b) 0 xs"

lemma be_value_simps [simp]:
  "be_value [] = 0" "be_value (xs @ [b]) = be_value xs * 256 + unat b"
  by (simp_all add: be_value_def)

lemma be_value_less: "be_value xs < 256 ^ length xs"
proof (induction xs rule: rev_induct)
  case (snoc b xs)
  have "unat b < 256" using unsigned_less [of b] by simp
  moreover have "be_value xs * 256 + 256 \<le> 256 ^ length xs * 256" using snoc by simp
  ultimately show ?case by simp
qed simp

end
