(* ===== verification/Dtls_Context.thy ===== *)
theory Dtls_Context
  imports Nox_Prelude
begin

text \<open>
  The state of a DTLS connection: \<open>dtls_context_t\<close> of \<open>tls/noxtls_dtls_common.h\<close> with the
  part of its base \<open>tls_context_t\<close> that the DTLS layer reads. The fields are grouped by the
  component that uses them, in a chain of record extensions whose last member is the whole
  context. The last group is the environment: the outcomes of the coming allocations and
  sends, and the log of what was handed to the transport.
\<close>

section \<open>Constants\<close>

text \<open>Protocol constants of \<open>noxtls_dtls_common.h\<close> and the default configuration.\<close>

abbreviation (input) "DTLS_VERSION_1_0 \<equiv> (0xFEFF :: u16)"
abbreviation (input) "DTLS_VERSION_1_2 \<equiv> (0xFEFD :: u16)"
abbreviation (input) "DTLS_VERSION_1_3 \<equiv> (0xFEFC :: u16)"
abbreviation (input) "DTLS_1_3_LEGACY_RECORD_VERSION \<equiv> (0xFEFD :: u16)"
abbreviation (input) "DTLS_RECORD_HEADER_SIZE \<equiv> (13 :: u32)"
abbreviation (input) "DTLS_HANDSHAKE_HEADER_SIZE \<equiv> (12 :: u32)"
abbreviation (input) "DTLS13_UNIFIED_HEADER_WITH_LEN \<equiv> (4 :: u32)"
abbreviation (input) "DTLS13_RECORD_NUMBER_ENC_LEN \<equiv> (16 :: u32)"
abbreviation (input) "DTLS_MAX_FRAGMENT_SIZE \<equiv> (1500 :: u32)"
abbreviation (input) "DTLS_MIN_FRAGMENT_SIZE \<equiv> (256 :: u32)"
abbreviation (input) "DTLS_MAX_HANDSHAKE_SIZE \<equiv> (65536 :: u32)"
abbreviation (input) "NOXTLS_DTLS_REASSEMBLY_MAX_BYTES \<equiv> (131072 :: u32)"
abbreviation (input) "DTLS_REPLAY_WINDOW_SIZE \<equiv> (64 :: u64)"
abbreviation (input) "DTLS_MAX_ACK_RANGES \<equiv> (32 :: u8)"
abbreviation (input) "DTLS_SEQ_NUM_MASK \<equiv> (0x0000FFFFFFFFFFFF :: u64)"
abbreviation (input) "DTLS_HANDSHAKE_HELLO_VERIFY_REQUEST \<equiv> (3 :: u8)"
abbreviation (input) "TLS_MAX_RECORD_SIZE \<equiv> (16384 :: u32)"
abbreviation (input) "TLS_RECORD_CHANGE_CIPHER_SPEC \<equiv> (20 :: u8)"
abbreviation (input) "TLS_RECORD_HANDSHAKE \<equiv> (22 :: u8)"
abbreviation (input) "TLS_RECORD_ACK \<equiv> (26 :: u8)"
abbreviation (input) "TLS_HANDSHAKE_ACK \<equiv> (25 :: u8)"
abbreviation (input) "TLS_RECORD_TX_BUFFER_SIZE \<equiv> (16477 :: u32)"
abbreviation (input) "TLS_MAX_PROTECTED_RECORD_FRAGMENT \<equiv> (18432 :: u32)"
abbreviation (input) "DTLS_RETRANSMIT_RECORD_BURST \<equiv> (10 :: u32)"
abbreviation (input) "DTLS12_MAX_RECORDS_PER_READ \<equiv> (64 :: u32)"
abbreviation (input) "DTLS_FLIGHT_ENTRY_PROTECT \<equiv> (1 :: u8)"
abbreviation (input) "DTLS_EPOCH_UNENCRYPTED \<equiv> (0 :: u16)"
abbreviation (input) "DTLS13_UNIFIED_FIXED_BITS \<equiv> (0x20 :: u8)"
abbreviation (input) "DTLS13_UNIFIED_EPOCH_MASK \<equiv> (0x03 :: u8)"
abbreviation (input) "HASH_SHA256_OUT_LEN \<equiv> (32 :: u32)"
abbreviation (input) "DTLS_PEER_IDENTITY_MAX_LEN \<equiv> (32 :: u32)"

datatype tls_role_t = TLS_ROLE_CLIENT | TLS_ROLE_SERVER

datatype tls_state_t =
  TLS_STATE_INIT | TLS_STATE_HANDSHAKING | TLS_STATE_CONNECTED | TLS_STATE_CLOSING
| TLS_STATE_CLOSED | TLS_STATE_ERROR

text \<open>What one call of the transport's receive callback answers.\<close>

datatype recv_answer = Recv_error | Recv_none | Recv_data bytes

section \<open>The context\<close>

record dtls_replay_window_t =
  window_bitmap :: u64
  last_seq :: u64

text \<open>A handshake fragment as received; \<open>frag_data\<close> is \<open>None\<close> when the pointer is \<open>NULL\<close>.\<close>

record dtls_handshake_fragment_t =
  frag_msg_type :: u8
  frag_length :: u32
  frag_message_seq :: u16
  fragment_offset :: u32
  fragment_length :: u32
  frag_data :: "bytes option"

record dtls_reassembly_slot_t =
  slot_active :: u8
  slot_msg_type :: u8
  slot_message_seq :: u16
  slot_length :: u32
  slot_buffer :: "bytes option"
  slot_received :: "bytes option"
  slot_capacity :: u32
  slot_received_count :: u32

record dtls_base =
  role :: tls_role_t
  version :: u16
  epoch :: u16
  read_epoch :: u16
  read_seq_num :: u64
  write_seq_num :: u64
  prev_write_seq_num :: u64
  mtu :: u16
  max_fragment :: u32
  anti_amp_factor :: u8
  bytes_received :: u64
  bytes_sent :: u64
  validated :: u8

record dtls_replay = dtls_base +
  replay_window :: dtls_replay_window_t
  replay_windows :: "dtls_replay_window_t list"
  highest_recv_seq :: "u64 list"
  highest_recv_seq_valid :: "u8 list"

record dtls_reassembly = dtls_replay +
  handshake_buffer :: "bytes option"
  handshake_buffer_len :: u32
  handshake_buffer_capacity :: u32
  expected_message_seq :: u16
  expected_fragment_offset :: u32
  handshake_received :: "bytes option"
  handshake_received_len :: u32
  handshake_received_count :: u32
  reassembly_queue :: "dtls_reassembly_slot_t list"

record dtls_flight = dtls_reassembly +
  flight_final :: u8
  flight_peer_next :: u8
  flight_buffer :: "bytes option"
  flight_buffer_len :: u32
  flight_buffer_capacity :: u32
  flight_buffer_storage :: "bytes option"
  flight_buffer_storage_capacity :: u32
  retransmit_max_attempts :: u32
  retransmit_count :: u32
  retransmit_progress_seq :: u16
  peer_flight_start_seq :: u16
  flight_epoch :: u64
  flight_min_seq :: u64
  flight_max_seq :: u64
  flight_has_range :: u8
  last_flight_sent_ms :: u64

text \<open>
  The arrays \<open>ack_ranges_min\<close> and \<open>ack_ranges_max\<close> with their \<open>ack_range_count\<close> used entries are
  one list of pairs, \<open>None\<close> while they are \<open>NULL\<close>; its length is the count. The same for the
  ranges of the last ACK received.
\<close>

record dtls_acks = dtls_flight +
  ack_epoch :: u64
  ack_seq :: u64
  ack_pending :: u8
  ack_range_min :: u64
  ack_range_max :: u64
  ack_range_valid :: u8
  ack_range_capacity :: u8
  ack_range_limit :: u8
  ack_ranges :: "(u64 \<times> u64) list option"
  last_ack_epoch :: u64
  last_ack_range_min :: u64
  last_ack_range_max :: u64
  last_ack_ranges :: "(u64 \<times> u64) list option"
  last_ack_valid :: u8

record dtls_timer = dtls_acks +
  retransmit_timeout_ms :: u32
  retransmit_base_timeout_ms :: u32
  retransmit_backoff_ms :: u32
  smoothed_rtt_ms :: u32
  rttvar_ms :: u32
  rtt_estimator_valid :: u8

record dtls_context = dtls_timer +
  tls_state :: tls_state_t
  connection_epoch :: u64
  read_connection_epoch :: u64
  send_message_seq :: u16
  last_rx_message_seq :: u16
  own_connection_id_len :: u8
  rx_datagram :: "bytes option"
  cookie_secret :: bytes
  cookie_secret_valid :: u8
  peer_identity :: bytes
  peer_identity_len :: u8
  cookie :: bytes
  cookie_len :: u32
  cookie_identity :: bytes
  cookie_identity_len :: u8
  alloc_results :: "bool list"
  record_send_buf :: bool
  send_callback :: "int list option"
  send_log :: "bytes list"
  recv_callback :: "recv_answer list option"
  time_callback :: "u64 option"

text \<open>One allocation: the environment's answer, and the context with that answer consumed.\<close>

definition ctx_alloc :: "dtls_context \<Rightarrow> bool \<times> dtls_context" where
  "ctx_alloc c = (let (ok, rs) = alloc_next (alloc_results c) in (ok, c\<lparr>alloc_results := rs\<rparr>))"

text \<open>
  One call of the transport's send callback: the datagram is logged (bytes may have left the
  device whatever the callback reports), and the result is the environment's next answer, or
  the full length when no answer is listed.
\<close>

definition ctx_send :: "bytes \<Rightarrow> dtls_context \<Rightarrow> int \<times> dtls_context" where
  "ctx_send d c =
     (let c1 = c\<lparr>send_log := send_log c @ [d]\<rparr> in
      case send_callback c of
        Some (r # rs) \<Rightarrow> (r, c1\<lparr>send_callback := Some rs\<rparr>)
      | _ \<Rightarrow> (int (length d), c1))"

section \<open>Encoders and decoders of the record header\<close>

text \<open>The bytes \<open>dtls_write_uint16/24/48\<close> store, and the readers of the same layout.\<close>

definition dtls_write_uint16 :: "u16 \<Rightarrow> bytes" where [byte_codec]:
  "dtls_write_uint16 v = [ucast (drop_bit 8 (ucast v :: u32) AND 0xFF), ucast (v AND 0xFF)]"

definition dtls_write_uint24 :: "u32 \<Rightarrow> bytes" where [byte_codec]:
  "dtls_write_uint24 v =
     [ucast (drop_bit 16 v AND 0xFF), ucast (drop_bit 8 v AND 0xFF), ucast (v AND 0xFF)]"

definition dtls_write_uint48 :: "u64 \<Rightarrow> bytes" where [byte_codec]:
  "dtls_write_uint48 v =
     [ucast (drop_bit 40 v AND 0xFF), ucast (drop_bit 32 v AND 0xFF),
      ucast (drop_bit 24 v AND 0xFF), ucast (drop_bit 16 v AND 0xFF),
      ucast (drop_bit 8 v AND 0xFF), ucast (v AND 0xFF)]"

definition dtls_read_uint16 :: "bytes \<Rightarrow> u16" where [byte_codec]:
  "dtls_read_uint16 b = push_bit 8 (ucast (b ! 0)) OR ucast (b ! 1)"

definition dtls_read_uint24 :: "bytes \<Rightarrow> u32" where [byte_codec]:
  "dtls_read_uint24 b = push_bit 16 (ucast (b ! 0)) OR push_bit 8 (ucast (b ! 1)) OR ucast (b ! 2)"

definition dtls_read_uint48 :: "bytes \<Rightarrow> u64" where [byte_codec]:
  "dtls_read_uint48 b =
     push_bit 40 (ucast (b ! 0)) OR push_bit 32 (ucast (b ! 1)) OR push_bit 24 (ucast (b ! 2)) OR
     push_bit 16 (ucast (b ! 3)) OR push_bit 8 (ucast (b ! 4)) OR ucast (b ! 5)"

lemma length_dtls_write [simp]:
  "length (dtls_write_uint16 v) = 2" "length (dtls_write_uint24 w) = 3"
  "length (dtls_write_uint48 x) = 6"
  by (simp_all add: byte_codec)

lemma dtls_read_write_uint16 [simp]: "dtls_read_uint16 (dtls_write_uint16 v @ r) = v"
  by (rule bit_word_eqI) (auto simp: byte_codec bit_simps not_less)

lemma dtls_read_write_uint24:
  assumes "unat v < 2 ^ 24"
  shows "dtls_read_uint24 (dtls_write_uint24 v @ r) = v"
proof (rule bit_word_eqI)
  fix n assume n: "n < LENGTH(32)"
  show "bit (dtls_read_uint24 (dtls_write_uint24 v @ r)) n = bit v n"
  proof (cases "n < 24")
    case True
    then show ?thesis
      by (cases "n < 8"; cases "n < 16") (auto simp: byte_codec bit_simps not_less)
  next
    case False
    then show ?thesis
      using n high_bits_clear [OF assms, of n] by (simp add: byte_codec bit_simps)
  qed
qed

lemma dtls_read_write_uint48:
  assumes "unat v < 2 ^ 48"
  shows "dtls_read_uint48 (dtls_write_uint48 v @ r) = v"
proof (rule bit_word_eqI)
  fix n assume n: "n < LENGTH(64)"
  show "bit (dtls_read_uint48 (dtls_write_uint48 v @ r)) n = bit v n"
  proof (cases "n < 48")
    case True
    then consider "n < 8" | "8 \<le> n" "n < 16" | "16 \<le> n" "n < 24" | "24 \<le> n" "n < 32"
      | "32 \<le> n" "n < 40" | "40 \<le> n" "n < 48" by linarith
    then show ?thesis
      by cases (simp_all add: byte_codec bit_simps less_diff_conv2)
  next
    case False
    then show ?thesis
      using n high_bits_clear [OF assms, of n] by (simp add: byte_codec bit_simps)
  qed
qed

end
