(* ===== verification/Dtls_Replay.thy ===== *)
theory Dtls_Replay
  imports Dtls_Context
begin

text \<open>
  Anti-replay and record numbering of \<open>tls/noxtls_dtls_common.c\<close> and
  \<open>tls/noxtls_tls_record.c\<close>: the 64-record sliding window of DTLS 1.2 and the per-epoch
  window of DTLS 1.3, the epoch switch, the 64-bit sequence number fed to the MAC, and the
  reconstruction of a truncated DTLS 1.3 record number.

  The two windows share one contract, the locale \<open>replay_filter\<close>: a state abstracts to the
  set of sequence numbers accepted so far. Inside it the receiver's loop (check, then update
  on acceptance) is shown never to accept a number twice.
\<close>

section \<open>The window\<close>

text \<open>\<open>dtls_s_u64_bit\<close> and \<open>tls_record_s_u64_bit\<close> are the same table of single bits.\<close>

definition dtls_s_u64_bit :: "u64 list" where
  "dtls_s_u64_bit =
    [0x0000000000000001, 0x0000000000000002, 0x0000000000000004, 0x0000000000000008,
     0x0000000000000010, 0x0000000000000020, 0x0000000000000040, 0x0000000000000080,
     0x0000000000000100, 0x0000000000000200, 0x0000000000000400, 0x0000000000000800,
     0x0000000000001000, 0x0000000000002000, 0x0000000000004000, 0x0000000000008000,
     0x0000000000010000, 0x0000000000020000, 0x0000000000040000, 0x0000000000080000,
     0x0000000000100000, 0x0000000000200000, 0x0000000000400000, 0x0000000000800000,
     0x0000000001000000, 0x0000000002000000, 0x0000000004000000, 0x0000000008000000,
     0x0000000010000000, 0x0000000020000000, 0x0000000040000000, 0x0000000080000000,
     0x0000000100000000, 0x0000000200000000, 0x0000000400000000, 0x0000000800000000,
     0x0000001000000000, 0x0000002000000000, 0x0000004000000000, 0x0000008000000000,
     0x0000010000000000, 0x0000020000000000, 0x0000040000000000, 0x0000080000000000,
     0x0000100000000000, 0x0000200000000000, 0x0000400000000000, 0x0000800000000000,
     0x0001000000000000, 0x0002000000000000, 0x0004000000000000, 0x0008000000000000,
     0x0010000000000000, 0x0020000000000000, 0x0040000000000000, 0x0080000000000000,
     0x0100000000000000, 0x0200000000000000, 0x0400000000000000, 0x0800000000000000,
     0x1000000000000000, 0x2000000000000000, 0x4000000000000000, 0x8000000000000000]"

lemma dtls_s_u64_bit_eq: "dtls_s_u64_bit = map (\<lambda>i. push_bit i 1) [0..<64]"
  by (simp add: dtls_s_u64_bit_def upt_rec)

lemma dtls_s_u64_bit_nth: "i < 64 \<Longrightarrow> dtls_s_u64_bit ! i = push_bit i 1"
  by (simp add: dtls_s_u64_bit_eq)

text \<open>\<open>dtls13_replay_check_window\<close>: \<open>None\<close> stands for a \<open>NULL\<close> window.\<close>

definition dtls13_replay_check_window ::
  "dtls_replay_window_t option \<Rightarrow> u64 \<Rightarrow> noxtls_return_t" where
  "dtls13_replay_check_window window sequence_number =
     (case window of
        None \<Rightarrow> NOXTLS_RETURN_NULL
      | Some w \<Rightarrow>
          let last = last_seq w in
          if sequence_number > last then NOXTLS_RETURN_SUCCESS
          else
            let diff = last - sequence_number in
            if diff \<ge> DTLS_REPLAY_WINDOW_SIZE then NOXTLS_RETURN_DTLS_RECORD_REPLAYED
            else if (window_bitmap w AND dtls_s_u64_bit ! unat (diff AND 63)) \<noteq> 0
              then NOXTLS_RETURN_DTLS_RECORD_REPLAYED
            else NOXTLS_RETURN_SUCCESS)"

text \<open>\<open>dtls13_replay_update_window\<close>: the shift amount is masked with 63 as in the code.\<close>

definition dtls13_replay_update_window ::
  "dtls_replay_window_t option \<Rightarrow> u64 \<Rightarrow> dtls_replay_window_t option" where
  "dtls13_replay_update_window window sequence_number =
     (case window of
        None \<Rightarrow> None
      | Some w \<Rightarrow>
          let last = last_seq w in
          if sequence_number > last then
            (let diff = sequence_number - last;
                 bm = (if diff \<ge> DTLS_REPLAY_WINDOW_SIZE then 1
                       else push_bit (unat (diff AND 63)) (window_bitmap w) OR 1)
             in Some (w\<lparr>window_bitmap := bm, last_seq := sequence_number\<rparr>))
          else
            (let diff = last - sequence_number in
             if diff < DTLS_REPLAY_WINDOW_SIZE
             then Some (w\<lparr>window_bitmap :=
                            window_bitmap w OR dtls_s_u64_bit ! unat (diff AND 63)\<rparr>)
             else Some w))"

text \<open>The DTLS 1.2 versions work on the window embedded in the context.\<close>

definition noxtls_dtls_check_replay :: "dtls_context option \<Rightarrow> u64 \<Rightarrow> noxtls_return_t" where
  "noxtls_dtls_check_replay ctx sequence_number =
     (case ctx of
        None \<Rightarrow> NOXTLS_RETURN_NULL
      | Some c \<Rightarrow>
          let last = last_seq (replay_window c) in
          if sequence_number > last then NOXTLS_RETURN_SUCCESS
          else
            let diff = last - sequence_number in
            if diff \<ge> DTLS_REPLAY_WINDOW_SIZE then NOXTLS_RETURN_FAILED
            else if (window_bitmap (replay_window c) AND dtls_s_u64_bit ! unat (diff AND 63)) \<noteq> 0
              then NOXTLS_RETURN_FAILED
            else NOXTLS_RETURN_SUCCESS)"

definition noxtls_dtls_update_replay_window ::
  "dtls_context option \<Rightarrow> u64 \<Rightarrow> noxtls_return_t \<times> dtls_context option" where
  "noxtls_dtls_update_replay_window ctx sequence_number =
     (case ctx of
        None \<Rightarrow> (NOXTLS_RETURN_NULL, None)
      | Some c \<Rightarrow>
          let w = replay_window c; last = last_seq w in
          if sequence_number > last then
            (let diff = sequence_number - last;
                 bm = (if diff \<ge> DTLS_REPLAY_WINDOW_SIZE then 1
                       else push_bit (unat diff) (window_bitmap w) OR 1)
             in (NOXTLS_RETURN_SUCCESS,
                 Some (c\<lparr>replay_window := w\<lparr>window_bitmap := bm, last_seq := sequence_number\<rparr>\<rparr>)))
          else
            (let diff = last - sequence_number in
             if diff < DTLS_REPLAY_WINDOW_SIZE
             then (NOXTLS_RETURN_SUCCESS,
                   Some (c\<lparr>replay_window := w\<lparr>window_bitmap :=
                            window_bitmap w OR dtls_s_u64_bit ! unat (diff AND 63)\<rparr>\<rparr>))
             else (NOXTLS_RETURN_SUCCESS, Some c)))"

section \<open>Epochs and sequence numbers\<close>

definition noxtls_dtls_record_seq64 :: "u16 \<Rightarrow> u64 \<Rightarrow> u64" where
  "noxtls_dtls_record_seq64 ep sequence_number =
     push_bit 48 (ucast ep) OR (sequence_number AND DTLS_SEQ_NUM_MASK)"

definition noxtls_dtls_next_write_epoch :: "dtls_context option \<Rightarrow> dtls_context option" where
  "noxtls_dtls_next_write_epoch ctx =
     (case ctx of
        None \<Rightarrow> None
      | Some c \<Rightarrow> Some (c\<lparr>prev_write_seq_num := write_seq_num c, epoch := epoch c + 1,
                         write_seq_num := 0\<rparr>))"

definition noxtls_dtls_next_read_epoch :: "dtls_context option \<Rightarrow> dtls_context option" where
  "noxtls_dtls_next_read_epoch ctx =
     (case ctx of
        None \<Rightarrow> None
      | Some c \<Rightarrow> Some (c\<lparr>read_epoch := read_epoch c + 1, read_seq_num := 0,
                         replay_window := \<lparr>window_bitmap = 0, last_seq = 0\<rparr>\<rparr>))"

text \<open>
  \<open>dtls13_reconstruct_record_number\<close>: the candidate congruent to the truncated number that
  lies closest to the next expected one.
\<close>

definition dtls13_reconstruct_record_number ::
  "dtls_context option \<Rightarrow> u8 \<Rightarrow> u16 \<Rightarrow> u8 \<Rightarrow> u64" where
  "dtls13_reconstruct_record_number ctx epoch_low truncated truncated_bits =
     (let window = dtls_s_u64_bit ! unat (truncated_bits AND 63);
          half_window = drop_bit 1 window;
          idx = unat (epoch_low AND 3)
      in case ctx of
           None \<Rightarrow> ucast truncated
         | Some c \<Rightarrow>
             if highest_recv_seq_valid c ! idx = 0 then ucast truncated
             else
               let expected = highest_recv_seq c ! idx + 1;
                   candidate = (expected AND NOT (window - 1)) OR ucast truncated
               in if candidate + half_window \<le> expected then candidate + window
                  else if candidate > expected + half_window \<and> candidate \<ge> window
                    then candidate - window
                  else candidate)"

text \<open>\<open>noxtls_dtls13_application_epoch_pending\<close> of \<open>noxtls_dtls13_epoch_policy.h\<close>.\<close>

definition noxtls_dtls13_application_epoch_pending :: "bool \<Rightarrow> u64 \<Rightarrow> u8 \<Rightarrow> bool" where
  "noxtls_dtls13_application_epoch_pending handshaking rd_epoch record_epoch_low \<longleftrightarrow>
     handshaking \<and> rd_epoch < 3 \<and> record_epoch_low = 3"

section \<open>The contract of a replay window\<close>

text \<open>
  The receiver: each arriving, authenticated number is checked, and recorded when it is
  accepted. The result is the list of accepted numbers and the final state.
\<close>

fun replay_run :: "('w \<Rightarrow> u64 \<Rightarrow> bool) \<Rightarrow> ('w \<Rightarrow> u64 \<Rightarrow> 'w) \<Rightarrow> 'w \<Rightarrow> u64 list \<Rightarrow> u64 list \<times> 'w" where
  "replay_run chk upd w [] = ([], w)"
| "replay_run chk upd w (s # ss) =
     (if chk w s then (let (acc, w') = replay_run chk upd (upd w s) ss in (s # acc, w'))
      else replay_run chk upd w ss)"

text \<open>No number lies 64 or more behind one that arrived before it.\<close>

fun never_late :: "u64 set \<Rightarrow> u64 list \<Rightarrow> bool" where
  "never_late S [] = True"
| "never_late S (s # ss) = ((\<forall>t\<in>S. unat t < unat s + 64) \<and> never_late (insert s S) ss)"

text \<open>
  \<open>chk\<close> decides whether a number may be accepted, \<open>upd\<close> records an accepted one and
  \<open>seen\<close> relates a state to the set of numbers recorded since the initial state.
\<close>

locale replay_filter =
  fixes chk :: "'w \<Rightarrow> u64 \<Rightarrow> bool"
    and upd :: "'w \<Rightarrow> u64 \<Rightarrow> 'w"
    and seen :: "'w \<Rightarrow> u64 set \<Rightarrow> bool"
  assumes seen_upd: "seen w S \<Longrightarrow> chk w s \<Longrightarrow> seen (upd w s) (insert s S)"
    and chk_fresh: "seen w S \<Longrightarrow> chk w s \<Longrightarrow> s \<notin> S"
    and chk_complete: "seen w S \<Longrightarrow> s \<notin> S \<Longrightarrow> (\<forall>t\<in>S. unat t < unat s + 64) \<Longrightarrow> chk w s"
begin

lemma run_seen:
  "seen w S \<Longrightarrow> replay_run chk upd w ss = (acc, w') \<Longrightarrow>
   distinct acc \<and> set acc \<inter> S = {} \<and> set acc \<subseteq> set ss \<and> seen w' (S \<union> set acc)"
proof (induction ss arbitrary: w S acc w')
  case Nil
  then show ?case by simp
next
  case (Cons s ss)
  show ?case
  proof (cases "chk w s")
    case True
    obtain acc1 w1 where r: "replay_run chk upd (upd w s) ss = (acc1, w1)" by fastforce
    with Cons.prems True have "acc = s # acc1" "w' = w1" by simp_all
    moreover have "distinct acc1 \<and> set acc1 \<inter> insert s S = {} \<and> set acc1 \<subseteq> set ss \<and>
                   seen w1 (insert s S \<union> set acc1)"
      using Cons.IH [OF seen_upd [OF Cons.prems(1) True] r] .
    ultimately show ?thesis
      using chk_fresh [OF Cons.prems(1) True] by auto
  next
    case False
    with Cons.prems have "replay_run chk upd w ss = (acc, w')" by simp
    from Cons.IH [OF Cons.prems(1) this] show ?thesis by auto
  qed
qed

lemma run_no_replay: "seen w S \<Longrightarrow> distinct (fst (replay_run chk upd w ss))"
  using run_seen by (metis prod.collapse)

lemma run_complete:
  "seen w S \<Longrightarrow> never_late S ss \<Longrightarrow>
   set ss \<subseteq> S \<union> set (fst (replay_run chk upd w ss))"
proof (induction ss arbitrary: w S)
  case Nil
  then show ?case by simp
next
  case (Cons a ss)
  show ?case
  proof (cases "chk w a")
    case True
    from Cons.IH [OF seen_upd [OF Cons.prems(1) True]] Cons.prems(2)
    show ?thesis using True by (auto simp: case_prod_beta)
  next
    case False
    with chk_complete [OF Cons.prems(1), of a] Cons.prems(2) have "a \<in> S" by auto
    with Cons.prems(2) have "never_late S ss" by (simp add: insert_absorb)
    from Cons.IH [OF Cons.prems(1) this] \<open>a \<in> S\<close> False show ?thesis by auto
  qed
qed

end

section \<open>Both windows keep the contract\<close>

text \<open>
  The abstraction: the highest recorded number is \<open>last_seq\<close>, and bit \<open>d\<close> of the bitmap tells
  whether \<open>last_seq - d\<close> was recorded, for every \<open>d < 64\<close>.
\<close>

definition window_seen :: "dtls_replay_window_t \<Rightarrow> u64 set \<Rightarrow> bool" where
  "window_seen w S \<longleftrightarrow>
     (\<forall>t\<in>S. t \<le> last_seq w) \<and> (if S = {} then last_seq w = 0 else last_seq w \<in> S) \<and>
     (\<forall>t. t \<le> last_seq w \<longrightarrow> unat (last_seq w) - unat t < 64 \<longrightarrow>
          (bit (window_bitmap w) (unat (last_seq w) - unat t) \<longleftrightarrow> t \<in> S))"

definition empty_window :: dtls_replay_window_t where
  "empty_window = \<lparr>window_bitmap = 0, last_seq = 0\<rparr>"

lemma window_seen_empty: "window_seen empty_window {}"
  by (simp add: window_seen_def empty_window_def)

lemma unat_and_63: "unat ((d :: u64) AND 63) = unat d mod 64"
  using unat_and_mask [of d 6] by (simp add: mask_eq_exp_minus_1)

lemma dtls13_replay_check_window_iff:
  "dtls13_replay_check_window (Some w) s = NOXTLS_RETURN_SUCCESS \<longleftrightarrow>
     last_seq w < s \<or>
     unat (last_seq w) - unat s < 64 \<and> \<not> bit (window_bitmap w) (unat (last_seq w) - unat s)"
  (is "?l \<longleftrightarrow> ?r")
proof (cases "last_seq w < s")
  case False
  then have le: "s \<le> last_seq w" by simp
  have d: "unat (last_seq w - s) = unat (last_seq w) - unat s"
    by (rule unat_sub_le [OF le])
  have small: "last_seq w - s \<ge> 64 \<longleftrightarrow> \<not> unat (last_seq w) - unat s < 64"
    using d by (simp add: word_le_nat_alt not_less)
  show ?thesis
    using False small d
    by (auto simp: dtls13_replay_check_window_def Let_def unat_and_63 dtls_s_u64_bit_nth
        and_single_bit_eq_0_iff)
qed (simp add: dtls13_replay_check_window_def)

lemma dtls12_check_eq:
  "noxtls_dtls_check_replay (Some c) s = NOXTLS_RETURN_SUCCESS \<longleftrightarrow>
   dtls13_replay_check_window (Some (replay_window c)) s = NOXTLS_RETURN_SUCCESS"
  by (simp add: noxtls_dtls_check_replay_def dtls13_replay_check_window_def Let_def)

lemma dtls12_update_eq:
  "noxtls_dtls_update_replay_window (Some c) s =
     (NOXTLS_RETURN_SUCCESS,
      Some (c\<lparr>replay_window := the (dtls13_replay_update_window (Some (replay_window c)) s)\<rparr>))"
proof -
  have "unat (d :: u64) mod 64 = unat d" if "\<not> d \<ge> 64" for d
    using that by (simp add: word_le_nat_alt)
  then show ?thesis
    by (simp add: noxtls_dtls_update_replay_window_def dtls13_replay_update_window_def Let_def
        unat_and_63)
qed

lemma window_seen_update:
  assumes seen: "window_seen w S"
    and chk: "dtls13_replay_check_window (Some w) s = NOXTLS_RETURN_SUCCESS"
  shows "window_seen (the (dtls13_replay_update_window (Some w) s)) (insert s S)"
proof (cases "last_seq w < s")
  case True
  let ?k = "unat s - unat (last_seq w)"
  have k: "unat (s - last_seq w) = ?k"
    using True by (simp add: unat_sub_le)
  have old: "t \<le> last_seq w" if "t \<in> S" for t
    using seen that by (simp add: window_seen_def)
  have bits: "bit (window_bitmap w) (unat (last_seq w) - unat t) \<longleftrightarrow> t \<in> S"
    if "t \<le> last_seq w" "unat (last_seq w) - unat t < 64" for t
    using seen that by (simp add: window_seen_def)
  have new: "bit (if s - last_seq w \<ge> 64 then 1
                  else push_bit (unat ((s - last_seq w) AND 63)) (window_bitmap w) OR 1)
                 (unat s - unat t) \<longleftrightarrow> t \<in> insert s S"
    if t: "t \<le> s" "unat s - unat t < 64" for t
  proof (cases "t = s")
    case True
    then show ?thesis by (simp add: bit_simps)
  next
    case False
    with t have pos: "0 < unat s - unat t" by (simp add: word_le_nat_alt unat_inj_iff le_neq_implies_less)
    show ?thesis
    proof (cases "t \<le> last_seq w")
      case True
      have "unat s - unat t - ?k = unat (last_seq w) - unat t"
        using True t(1) \<open>last_seq w < s\<close> by (simp add: word_le_nat_alt word_less_nat_alt)
      moreover have "?k \<le> unat s - unat t"
        using True by (simp add: word_le_nat_alt diff_le_mono2)
      ultimately show ?thesis
        using False pos t k bits [OF True]
        by (auto simp: bit_simps unat_and_63 word_le_nat_alt)
    next
      case gt: False
      then have "t \<notin> S" using old by blast
      moreover have "unat s - unat t < ?k"
        using gt t pos by (simp add: word_le_nat_alt)
      ultimately show ?thesis
        using False pos t k by (auto simp: bit_simps unat_and_63 word_le_nat_alt)
    qed
  qed
  show ?thesis
    using True new order_trans [OF old less_imp_le [OF True]]
    by (auto simp: window_seen_def dtls13_replay_update_window_def Let_def)
next
  case False
  then have le: "s \<le> last_seq w" by simp
  have d: "unat (last_seq w - s) = unat (last_seq w) - unat s"
    by (rule unat_sub_le [OF le])
  have lt: "unat (last_seq w) - unat s < 64"
    using chk False by (simp add: dtls13_replay_check_window_iff)
  have upd: "the (dtls13_replay_update_window (Some w) s) =
             w\<lparr>window_bitmap := window_bitmap w OR push_bit (unat (last_seq w) - unat s) 1\<rparr>"
    using False d lt
    by (simp add: dtls13_replay_update_window_def Let_def word_less_nat_alt unat_and_63
        dtls_s_u64_bit_nth)
  have same: "unat (last_seq w) - unat t = unat (last_seq w) - unat s \<longleftrightarrow> t = s"
    if "t \<le> last_seq w" for t
    using le that by (metis diff_diff_cancel unat_inj_iff word_le_nat_alt)
  show ?thesis
    unfolding upd using seen le lt same
    by (auto simp: window_seen_def bit_simps bit_1_iff split: if_splits)
qed

text \<open>The record receiver of DTLS 1.3 and of DTLS 1.2 as instances of the contract.\<close>

abbreviation dtls13_accepts :: "dtls_replay_window_t \<Rightarrow> u64 \<Rightarrow> bool" where
  "dtls13_accepts w s \<equiv> dtls13_replay_check_window (Some w) s = NOXTLS_RETURN_SUCCESS"

abbreviation dtls13_record :: "dtls_replay_window_t \<Rightarrow> u64 \<Rightarrow> dtls_replay_window_t" where
  "dtls13_record w s \<equiv> the (dtls13_replay_update_window (Some w) s)"

abbreviation dtls12_accepts :: "dtls_context \<Rightarrow> u64 \<Rightarrow> bool" where
  "dtls12_accepts c s \<equiv> noxtls_dtls_check_replay (Some c) s = NOXTLS_RETURN_SUCCESS"

abbreviation dtls12_record :: "dtls_context \<Rightarrow> u64 \<Rightarrow> dtls_context" where
  "dtls12_record c s \<equiv> the (snd (noxtls_dtls_update_replay_window (Some c) s))"

interpretation w13: replay_filter dtls13_accepts dtls13_record window_seen
proof unfold_locales
  fix w S s
  assume seen: "window_seen w S" and chk: "dtls13_accepts w s"
  from seen chk show "window_seen (dtls13_record w s) (insert s S)"
    by (rule window_seen_update)
  show "s \<notin> S"
  proof (cases "last_seq w < s")
    case True
    with seen show ?thesis by (auto simp: window_seen_def)
  next
    case False
    with seen chk show ?thesis by (auto simp: window_seen_def dtls13_replay_check_window_iff)
  qed
next
  fix w S s
  assume seen: "window_seen w S" and s: "s \<notin> S" and near: "\<forall>t\<in>S. unat t < unat s + 64"
  have "unat (last_seq w) < unat s + 64"
    using seen near by (auto simp: window_seen_def split: if_splits)
  then show "dtls13_accepts w s"
    using seen s by (auto simp: window_seen_def dtls13_replay_check_window_iff)
qed

interpretation w12: replay_filter dtls12_accepts dtls12_record
  "\<lambda>c. window_seen (replay_window c)"
proof unfold_locales
  show "window_seen (replay_window (dtls12_record w s)) (insert s S)"
    if "window_seen (replay_window w) S" "dtls12_accepts w s" for w S s
    using that by (simp add: dtls12_check_eq dtls12_update_eq w13.seen_upd)
qed (simp_all add: dtls12_check_eq w13.chk_fresh w13.chk_complete)

section \<open>Properties\<close>

text \<open>
  C1: DTLS 1.2 anti-replay. After a read epoch starts, whatever record numbers arrive and in
  whatever order, the check and update pair never accepts one number twice, and accepts only
  numbers that arrived.
\<close>

theorem dtls12_no_replay:
  "distinct (fst (replay_run dtls12_accepts dtls12_record
      (the (noxtls_dtls_next_read_epoch (Some c))) ss)) \<and>
   set (fst (replay_run dtls12_accepts dtls12_record
      (the (noxtls_dtls_next_read_epoch (Some c))) ss)) \<subseteq> set ss"
proof -
  have "window_seen (replay_window (the (noxtls_dtls_next_read_epoch (Some c)))) {}"
    using window_seen_empty by (simp add: noxtls_dtls_next_read_epoch_def empty_window_def)
  from w12.run_seen [OF this prod.collapse [symmetric]] show ?thesis by blast
qed



text \<open>The number congruent to \<open>n\<close> that lies closest to \<open>e\<close>, for a window of \<open>2 * h\<close>.\<close>

lemma nearest_congruent:
  fixes e n h :: nat
  assumes "e < n + h" "n \<le> e + h" "0 < h"
  shows "(let c = e div (2 * h) * (2 * h) + n mod (2 * h) in
          if c + h \<le> e then c + 2 * h else if e + h < c \<and> 2 * h \<le> c then c - 2 * h else c) = n"
proof -
  define p q r s where "p = e div (2 * h)" and "q = n div (2 * h)" and "r = n mod (2 * h)"
    and "s = e mod (2 * h)"
  have e: "e = p * (2 * h) + s" and n: "n = q * (2 * h) + r"
    by (simp_all only: p_def q_def s_def r_def div_mult_mod_eq)
  have rs: "r < 2 * h" "s < 2 * h" using assms(3) by (simp_all add: r_def s_def)
  have "\<not> p + 2 \<le> q"
    using mult_le_mono1 [of "p + 2" q "2 * h"] assms(2) e n rs by (auto simp: add_mult_distrib)
  moreover have "\<not> q + 2 \<le> p"
    using mult_le_mono1 [of "q + 2" p "2 * h"] assms(1) e n rs by (auto simp: add_mult_distrib)
  ultimately consider "q = p" | "q = p + 1" | "p = q + 1" by linarith
  then show ?thesis
  proof cases
    case 1
    then show ?thesis
      unfolding Let_def p_def [symmetric] r_def [symmetric] using assms e n by auto
  next
    case 2
    then show ?thesis
      unfolding Let_def p_def [symmetric] r_def [symmetric] using assms e n rs by auto
  next
    case 3
    then show ?thesis
      unfolding Let_def p_def [symmetric] r_def [symmetric] using assms e n rs by auto
  qed
qed

text \<open>
  C3: record number reconstruction. When the true number \<open>n\<close> of a record lies within half a
  window of the next expected one, the number reconstructed from its low 8 or 16 bits is \<open>n\<close>.
\<close>

theorem reconstruct_record_number_correct:
  assumes "highest_recv_seq_valid c ! unat (ep AND 3) \<noteq> 0"
    and "b = 8 \<or> b = 16"
    and "unat (highest_recv_seq c ! unat (ep AND 3)) < 2 ^ 48"
    and "Suc (unat (highest_recv_seq c ! unat (ep AND 3))) < unat n + 2 ^ (unat b - 1)"
    and "unat n \<le> Suc (unat (highest_recv_seq c ! unat (ep AND 3))) + 2 ^ (unat b - 1)"
  shows "dtls13_reconstruct_record_number (Some c) ep (ucast (n AND mask (unat b))) b = n"
proof -
  define e where "e = highest_recv_seq c ! unat (ep AND 3) + 1"
  define k where "k = unat b"
  define w :: nat where "w = 2 ^ k"
  have k: "k = 8 \<or> k = 16" using assms(2) by (auto simp: k_def)
  have ue: "unat e = Suc (unat (highest_recv_seq c ! unat (ep AND 3)))"
    using assms(3) unat_Suc_small [of "highest_recv_seq c ! unat (ep AND 3)"] by (simp add: e_def)
  have tab: "dtls_s_u64_bit ! unat (b AND 63) = 2 ^ k"
    using assms(2) by (auto simp: k_def dtls_s_u64_bit_def)
  have tr: "ucast (ucast (n AND mask k) :: u16) = n AND mask k"
    using k by (intro bit_word_eqI) (auto simp: bit_simps)
  have cand: "unat ((e AND NOT (2 ^ k - 1)) OR (n AND mask k)) = unat e div w * w + unat n mod w"
    using unat_and_not_mask_or [of e k n] by (simp add: mask_eq_exp_minus_1 w_def)
  have cand_small: "unat e div w * w + unat n mod w < 2 ^ 49"
  proof -
    have "unat e div w * w \<le> unat e" by simp
    moreover have "unat n mod w < w" by (simp add: w_def)
    moreover have "w \<le> 2 ^ 16" using k by (auto simp: w_def)
    moreover have "unat e \<le> 2 ^ 48" using ue assms(3) by simp
    ultimately have "unat e div w * w + unat n mod w < 2 ^ 48 + 2 ^ 16" by linarith
    then show ?thesis by simp
  qed
  define cd where "cd = (e AND NOT (2 ^ k - 1)) OR (n AND mask k)"
  have ucd: "unat cd = unat e div w * w + unat n mod w"
    by (simp add: cd_def cand)
  have half: "drop_bit 1 (2 ^ k :: u64) = of_nat (2 ^ (k - 1))" "unat (2 ^ k :: u64) = w"
    "unat (of_nat (2 ^ (k - 1)) :: u64) = 2 ^ (k - 1)"
    using k by (auto simp: w_def)
  have plus: "unat (x + of_nat (2 ^ (k - 1))) = unat x + 2 ^ (k - 1)"
    "unat (x + 2 ^ k) = unat x + w"
    if "unat x < 2 ^ 49" for x :: u64
    using that k half by (auto simp: w_def unat_word_ariths)
  have "unat (if cd + of_nat (2 ^ (k - 1)) \<le> e then cd + 2 ^ k
              else if e + of_nat (2 ^ (k - 1)) < cd \<and> 2 ^ k \<le> cd then cd - 2 ^ k else cd) =
        (if unat cd + 2 ^ (k - 1) \<le> unat e then unat cd + w
         else if unat e + 2 ^ (k - 1) < unat cd \<and> w \<le> unat cd then unat cd - w else unat cd)"
    using plus [of cd] plus [of e] cand_small ue assms(3) half(2)
    by (simp add: ucd word_le_nat_alt word_less_nat_alt unat_sub_if_size)
  also have "\<dots> = unat n"
    using nearest_congruent [of "unat e" "unat n" "2 ^ (k - 1)"] k assms(4,5) ue
    by (auto simp: ucd w_def Let_def k_def [symmetric])
  finally have "(if cd + of_nat (2 ^ (k - 1)) \<le> e then cd + 2 ^ k
        else if e + of_nat (2 ^ (k - 1)) < cd \<and> 2 ^ k \<le> cd then cd - 2 ^ k else cd) = n"
    by (simp add: unat_inj_iff)
  then show ?thesis
    using assms(1)
    by (simp only: dtls13_reconstruct_record_number_def Let_def option.case if_False tab half(1) tr
        k_def [symmetric] e_def [symmetric] cd_def [symmetric])
qed

theorem reconstruct_record_number_correct_witness:
  "\<exists>c. dtls13_reconstruct_record_number (Some c) 3 (ucast ((1000 :: u64) AND mask (unat (8 :: u8)))) 8
       = 1000"
proof -
  fix c0 :: dtls_context
  let ?c = "c0\<lparr>highest_recv_seq := [0, 0, 0, 1020], highest_recv_seq_valid := [0, 0, 0, 1]\<rparr>"
  have "dtls13_reconstruct_record_number (Some ?c) 3
          (ucast ((1000 :: u64) AND mask (unat (8 :: u8)))) 8 = 1000"
    by (rule reconstruct_record_number_correct) simp_all
  then show ?thesis by blast
qed

end
