(* ===== verification/Dtls_Reassembly.thy ===== *)
theory Dtls_Reassembly
  imports Dtls_Context
begin

text \<open>
  Handshake reassembly of \<open>tls/noxtls_dtls_common.c\<close>: the bitmap of received bytes, the queue of
  future messages, the memory budget, and the delivery of the next expected message. A pointer
  into \<open>reassembly_queue\<close> is the index of the slot, \<open>None\<close> for \<open>NULL\<close>.
\<close>

section \<open>The bitmap of received bytes\<close>

definition DTLS_RX_MAP_BYTES :: "u32 \<Rightarrow> u32" where
  "DTLS_RX_MAP_BYTES len = ((if len = 0 then 1 else len) + 7) div 8"

definition dtls_rx_map_test :: "bytes \<Rightarrow> u32 \<Rightarrow> u32" where
  "dtls_rx_map_test rmap idx =
     drop_bit (unat (idx AND 7)) (ucast (rmap ! unat (drop_bit 3 idx))) AND 1"

definition dtls_rx_map_set :: "bytes \<Rightarrow> u32 \<Rightarrow> bytes" where
  "dtls_rx_map_set rmap idx =
     rmap[unat (drop_bit 3 idx) :=
           rmap ! unat (drop_bit 3 idx) OR ucast (push_bit (unat (idx AND 7)) (1 :: u32))]"

section \<open>The queue of future messages\<close>

definition zero_slot :: dtls_reassembly_slot_t where
  "zero_slot = \<lparr>slot_active = 0, slot_msg_type = 0, slot_message_seq = 0, slot_length = 0,
     slot_buffer = None, slot_received = None, slot_capacity = 0, slot_received_count = 0\<rparr>"

text \<open>The sum over the active slots other than \<open>skip\<close>, then the whole \<open>dtls_reassembly_bytes_held\<close>.\<close>

fun queue_bytes :: "nat option \<Rightarrow> nat \<Rightarrow> dtls_reassembly_slot_t list \<Rightarrow> u32 \<Rightarrow> u32" where
  "queue_bytes skip i [] tot = tot"
| "queue_bytes skip i (s # ss) tot =
     queue_bytes skip (Suc i) ss
       (if Some i \<noteq> skip \<and> slot_active s \<noteq> 0
        then tot + (slot_capacity s + DTLS_RX_MAP_BYTES (slot_capacity s)) else tot)"

definition dtls_reassembly_bytes_held :: "dtls_context \<Rightarrow> nat option \<Rightarrow> u32" where
  "dtls_reassembly_bytes_held c skip =
     queue_bytes skip 0 (reassembly_queue c)
       ((if handshake_buffer c \<noteq> None then handshake_buffer_capacity c else 0) +
        (if handshake_received c \<noteq> None then handshake_received_len c else 0))"

definition dtls_reassembly_slot_clear :: "dtls_context \<Rightarrow> nat option \<Rightarrow> dtls_context" where
  "dtls_reassembly_slot_clear c slot =
     (case slot of None \<Rightarrow> c
      | Some i \<Rightarrow> c\<lparr>reassembly_queue := (reassembly_queue c)[i := zero_slot]\<rparr>)"

definition dtls_reassembly_queue_clear :: "dtls_context option \<Rightarrow> dtls_context option" where
  "dtls_reassembly_queue_clear ctx =
     map_option (\<lambda>c. c\<lparr>reassembly_queue := map (\<lambda>_. zero_slot) (reassembly_queue c)\<rparr>) ctx"

fun slot_find_from :: "u16 \<Rightarrow> nat \<Rightarrow> dtls_reassembly_slot_t list \<Rightarrow> nat option" where
  "slot_find_from sq i [] = None"
| "slot_find_from sq i (s # ss) =
     (if slot_active s \<noteq> 0 \<and> slot_message_seq s = sq then Some i else slot_find_from sq (Suc i) ss)"

definition dtls_reassembly_slot_find :: "dtls_context option \<Rightarrow> u16 \<Rightarrow> nat option" where
  "dtls_reassembly_slot_find ctx sq =
     (case ctx of None \<Rightarrow> None | Some c \<Rightarrow> slot_find_from sq 0 (reassembly_queue c))"

text \<open>
  \<open>dtls_reassembly_slot_alloc\<close>: the first free slot, else the active slot with the lowest
  message sequence number, cleared. \<open>oldest\<close> is the candidate so far.
\<close>

fun slot_alloc_from ::
  "dtls_reassembly_slot_t list \<Rightarrow> nat \<Rightarrow> dtls_reassembly_slot_t list \<Rightarrow> nat option \<Rightarrow> nat option \<times> bool" where
  "slot_alloc_from q i [] oldest = (oldest, True)"
| "slot_alloc_from q i (s # ss) oldest =
     (if slot_active s = 0 then (Some i, False)
      else slot_alloc_from q (Suc i) ss
             (case oldest of
                None \<Rightarrow> Some i
              | Some o' \<Rightarrow> if slot_message_seq s < slot_message_seq (q ! o') then Some i else oldest))"

definition dtls_reassembly_slot_alloc :: "dtls_context option \<Rightarrow> nat option \<times> dtls_context option" where
  "dtls_reassembly_slot_alloc ctx =
     (case ctx of
        None \<Rightarrow> (None, None)
      | Some c \<Rightarrow>
          (let (slot, evict) = slot_alloc_from (reassembly_queue c) 0 (reassembly_queue c) None
           in (slot, Some (if evict then dtls_reassembly_slot_clear c slot else c))))"

text \<open>Both allocations are made even when the first one fails.\<close>

definition dtls_reassembly_slot_reset ::
  "dtls_context \<Rightarrow> nat \<Rightarrow> dtls_handshake_fragment_t \<Rightarrow> noxtls_return_t \<times> dtls_context" where
  "dtls_reassembly_slot_reset c i f =
     (let alloc_len = (if frag_length f = 0 then 1 else frag_length f);
          map_len = DTLS_RX_MAP_BYTES (frag_length f);
          c1 = dtls_reassembly_slot_clear c (Some i);
          (ok1, c2) = ctx_alloc c1;
          (ok2, c3) = ctx_alloc c2
      in if \<not> ok1 \<or> \<not> ok2
         then (NOXTLS_RETURN_NOT_ENOUGH_MEMORY, dtls_reassembly_slot_clear c3 (Some i))
         else (NOXTLS_RETURN_SUCCESS,
               c3\<lparr>reassembly_queue := (reassembly_queue c3)[i :=
                  \<lparr>slot_active = 1, slot_msg_type = frag_msg_type f,
                   slot_message_seq = frag_message_seq f, slot_length = frag_length f,
                   slot_buffer = Some (replicate (unat alloc_len) 0),
                   slot_received = Some (replicate (unat map_len) 0),
                   slot_capacity = frag_length f, slot_received_count = 0\<rparr>]\<rparr>))"

text \<open>
  The copying loop, shared by the queue and the message in progress: a byte already received
  must repeat the same value, a new byte is stored, marked and counted.
\<close>

fun rx_apply ::
  "dtls_handshake_fragment_t \<Rightarrow> nat list \<Rightarrow> bytes \<times> bytes \<times> u32 \<Rightarrow> noxtls_return_t \<times> bytes \<times> bytes \<times> u32" where
  "rx_apply f [] st = (NOXTLS_RETURN_SUCCESS, st)"
| "rx_apply f (i # is) (buf, rmap, cnt) =
     (let idx = fragment_offset f + of_nat i in
      if dtls_rx_map_test rmap idx \<noteq> 0
      then (if buf ! unat idx \<noteq> the (frag_data f) ! i
            then (NOXTLS_RETURN_TLS_ALERT_ILLEGAL_PARAMETER, buf, rmap, cnt)
            else rx_apply f is (buf, rmap, cnt))
      else rx_apply f is
             (buf[unat idx := the (frag_data f) ! i], dtls_rx_map_set rmap idx, cnt + 1))"

definition dtls_reassembly_slot_apply_bytes ::
  "dtls_context \<Rightarrow> nat \<Rightarrow> dtls_handshake_fragment_t \<Rightarrow> noxtls_return_t \<times> dtls_context" where
  "dtls_reassembly_slot_apply_bytes c i f =
     (let s = reassembly_queue c ! i;
          (rc, buf, rmap, cnt) = rx_apply f [0..<unat (fragment_length f)]
             (the (slot_buffer s), the (slot_received s), slot_received_count s)
      in (rc, c\<lparr>reassembly_queue := (reassembly_queue c)[i :=
                 s\<lparr>slot_buffer := Some buf, slot_received := Some rmap,
                   slot_received_count := cnt\<rparr>]\<rparr>))"

text \<open>
  \<open>dtls_reassembly_slot_store\<close>. The caller passes the context itself as the budget's context
  (\<open>cap_ctx\<close> is not \<open>NULL\<close>); \<open>slot\<close> is \<open>None\<close> when no slot was found.
\<close>

definition dtls_reassembly_slot_store ::
  "dtls_context \<Rightarrow> nat option \<Rightarrow> dtls_handshake_fragment_t option \<Rightarrow> noxtls_return_t \<times> dtls_context" where
  "dtls_reassembly_slot_store c slot fragment =
     (case (slot, fragment) of
        (Some i, Some f) \<Rightarrow>
          if frag_length f > DTLS_MAX_HANDSHAKE_SIZE \<or>
             fragment_offset f + fragment_length f > frag_length f
          then (NOXTLS_RETURN_INVALID_PARAM, c)
          else if fragment_length f > 0 \<and> frag_data f = None then (NOXTLS_RETURN_NULL, c)
          else
            let s = reassembly_queue c ! i;
                fresh = (slot_active s = 0 \<or> slot_message_seq s \<noteq> frag_message_seq f \<or>
                         slot_length s \<noteq> frag_length f);
                held = dtls_reassembly_bytes_held c (Some i);
                want = frag_length f + DTLS_RX_MAP_BYTES (frag_length f)
            in if fresh \<and> (held > NOXTLS_DTLS_REASSEMBLY_MAX_BYTES \<or>
                           want > NOXTLS_DTLS_REASSEMBLY_MAX_BYTES - held)
               then (NOXTLS_RETURN_SUCCESS, dtls_reassembly_slot_clear c (Some i))
               else
                 let (rc, c1) = (if fresh then dtls_reassembly_slot_reset c i f
                                 else (NOXTLS_RETURN_SUCCESS, c))
                 in if rc \<noteq> NOXTLS_RETURN_SUCCESS then (rc, c1)
                    else if slot_msg_type (reassembly_queue c1 ! i) \<noteq> frag_msg_type f \<or>
                            slot_length (reassembly_queue c1 ! i) \<noteq> frag_length f
                    then (NOXTLS_RETURN_TLS_ALERT_ILLEGAL_PARAMETER, c1)
                    else dtls_reassembly_slot_apply_bytes c1 i f
      | _ \<Rightarrow> (NOXTLS_RETURN_NULL, c))"

section \<open>Delivery\<close>

text \<open>
  \<open>dtls_reassembly_slot_take_complete\<close>: the result is the return code, the context, and what was
  written through \<open>msg_type\<close> and \<open>complete_msg\<close> (with its length \<open>complete_len\<close>).
\<close>

definition dtls_reassembly_slot_take_complete ::
  "dtls_context \<Rightarrow> noxtls_return_t \<times> dtls_context \<times> (u8 option \<times> bytes option \<times> u32)" where
  "dtls_reassembly_slot_take_complete c =
     (case dtls_reassembly_slot_find (Some c) (expected_message_seq c) of
        None \<Rightarrow> (NOXTLS_RETURN_TIMEOUT, c, None, None, 0)
      | Some i \<Rightarrow>
          let s = reassembly_queue c ! i in
          if slot_received_count s \<noteq> slot_length s then (NOXTLS_RETURN_TIMEOUT, c, None, None, 0)
          else
            let (ok, c1) = ctx_alloc c in
            if \<not> ok then (NOXTLS_RETURN_NOT_ENOUGH_MEMORY, c1, Some (slot_msg_type s), None, 0)
            else (NOXTLS_RETURN_SUCCESS,
                  dtls_reassembly_slot_clear
                    (c1\<lparr>expected_message_seq := expected_message_seq c1 + 1\<rparr>) (Some i),
                  Some (slot_msg_type s),
                  Some (take (unat (slot_length s)) (the (slot_buffer s))), slot_length s))"

definition noxtls_dtls_take_queued_handshake ::
  "dtls_context option \<Rightarrow> noxtls_return_t \<times> dtls_context option \<times> (u8 option \<times> bytes option \<times> u32)" where
  "noxtls_dtls_take_queued_handshake ctx =
     (case ctx of
        None \<Rightarrow> (NOXTLS_RETURN_NULL, None, None, None, 0)
      | Some c \<Rightarrow> (let (rc, c1, out) = dtls_reassembly_slot_take_complete c in (rc, Some c1, out)))"

definition noxtls_dtls_reassembly_discard :: "dtls_context option \<Rightarrow> dtls_context option" where
  "noxtls_dtls_reassembly_discard ctx =
     map_option (\<lambda>c. c\<lparr>handshake_buffer := map_option (\<lambda>b. replicate (length b) 0) (handshake_buffer c),
                       handshake_buffer_len := 0, handshake_received_count := 0,
                       expected_fragment_offset := 0\<rparr>)
                (dtls_reassembly_queue_clear ctx)"

text \<open>One pass of \<open>dtls_reassembly_make_room\<close> over the queue: the bytes queued and the victim.\<close>

fun room_scan ::
  "dtls_reassembly_slot_t list \<Rightarrow> nat \<Rightarrow> dtls_reassembly_slot_t list \<Rightarrow> u32 \<Rightarrow> nat option \<Rightarrow> u32 \<times> nat option" where
  "room_scan q i [] queued victim = (queued, victim)"
| "room_scan q i (s # ss) queued victim =
     (if slot_active s \<noteq> 0
      then room_scan q (Suc i) ss
             (queued + (slot_capacity s + DTLS_RX_MAP_BYTES (slot_capacity s)))
             (case victim of
                None \<Rightarrow> Some i
              | Some v \<Rightarrow> if slot_message_seq s > slot_message_seq (q ! v) then Some i else victim)
      else room_scan q (Suc i) ss queued victim)"

lemma room_scan_victim:
  "room_scan q i ss queued victim = (n, Some v) \<Longrightarrow> ss = drop i q \<Longrightarrow>
   (case victim of None \<Rightarrow> True | Some u \<Rightarrow> u < length q \<and> slot_active (q ! u) \<noteq> 0) \<Longrightarrow>
   v < length q \<and> slot_active (q ! v) \<noteq> 0"
proof (induction q i ss queued victim rule: room_scan.induct)
  case (1 q i queued victim)
  then show ?case by simp
next
  case (2 q i s ss queued victim)
  from Cons_eq_drop [OF 2(4)] have i: "i < length q" "q ! i = s" "ss = drop (Suc i) q"
    by simp_all
  show ?case
    using 2(1,2) [OF _ _ i(3)] 2(3,5) i(1,2) by (auto split: if_splits option.splits)
qed

function dtls_reassembly_make_room ::
  "dtls_context \<Rightarrow> u32 \<Rightarrow> u32 \<Rightarrow> noxtls_return_t \<times> dtls_context" where
  "dtls_reassembly_make_room c alloc_len map_len =
     (let buf_cap = max (handshake_buffer_capacity c) alloc_len;
          map_cap = max (handshake_received_len c) map_len;
          (queued, victim) = room_scan (reassembly_queue c) 0 (reassembly_queue c) 0 None
      in if ucast buf_cap + ucast map_cap + ucast queued
              \<le> (ucast NOXTLS_DTLS_REASSEMBLY_MAX_BYTES :: u64)
         then (NOXTLS_RETURN_SUCCESS, c)
         else (case victim of
                 None \<Rightarrow> (NOXTLS_RETURN_NOT_ENOUGH_MEMORY, c)
               | Some v \<Rightarrow>
                   dtls_reassembly_make_room (dtls_reassembly_slot_clear c (Some v)) alloc_len map_len))"
  by pat_completeness auto

lemma active_slots_decrease:
  "v < length q \<Longrightarrow> slot_active (q ! v) \<noteq> 0 \<Longrightarrow>
   length (filter (\<lambda>s. slot_active s \<noteq> 0) (q[v := zero_slot])) <
   length (filter (\<lambda>s. slot_active s \<noteq> 0) q)"
  by (simp add: upd_conv_take_nth_drop) (subst (4) id_take_nth_drop, assumption, simp add: zero_slot_def)

termination dtls_reassembly_make_room
  by (relation "measure (\<lambda>(c, _). length (filter (\<lambda>s. slot_active s \<noteq> 0) (reassembly_queue c)))")
     (auto simp: dtls_reassembly_slot_clear_def
       intro!: active_slots_decrease dest!: room_scan_victim [OF sym])

declare dtls_reassembly_make_room.simps [simp del]

section \<open>Reassembling the next message\<close>

text \<open>
  The buffers of the message in progress: when no message of this length is in progress, the old
  state is invalidated, room is made, the buffer and the bitmap grow where they are too small,
  and both are cleared. Growing keeps the old bytes past the cleared part; only the first
  \<open>alloc_len\<close> bytes are read again.
\<close>

definition grow_handshake_buffer :: "dtls_context \<Rightarrow> u32 \<Rightarrow> bool \<times> dtls_context" where
  "grow_handshake_buffer c alloc_len =
     (if handshake_buffer c = None \<or> handshake_buffer_capacity c < alloc_len
      then (let (ok, c1) = ctx_alloc c in
            if ok then (True, c1\<lparr>handshake_buffer := Some (replicate (unat alloc_len) 0),
                                  handshake_buffer_capacity := alloc_len\<rparr>)
            else (False, c1))
      else (True, c))"

definition grow_handshake_received :: "dtls_context \<Rightarrow> u32 \<Rightarrow> bool \<times> dtls_context" where
  "grow_handshake_received c map_len =
     (if handshake_received c = None \<or> handshake_received_len c < map_len
      then (let (ok, c1) = ctx_alloc c in
            if ok then (True, c1\<lparr>handshake_received := Some (replicate (unat map_len) 0),
                                  handshake_received_len := map_len\<rparr>)
            else (False, c1))
      else (True, c))"

definition reassembly_begin :: "dtls_context \<Rightarrow> u32 \<Rightarrow> noxtls_return_t \<times> dtls_context" where
  "reassembly_begin c total_len =
     (let alloc_len = (if total_len = 0 then 1 else total_len);
          map_len = DTLS_RX_MAP_BYTES total_len;
          (rc, c1) = dtls_reassembly_make_room
             (c\<lparr>handshake_buffer_len := 0, handshake_received_count := 0,
                expected_fragment_offset := 0\<rparr>) alloc_len map_len
      in if rc \<noteq> NOXTLS_RETURN_SUCCESS then (rc, c1)
         else
           let (ok1, c2) = grow_handshake_buffer c1 alloc_len
           in if \<not> ok1 then (NOXTLS_RETURN_NOT_ENOUGH_MEMORY, c2)
              else
                let (ok2, c3) = grow_handshake_received c2 map_len
                in if \<not> ok2 then (NOXTLS_RETURN_NOT_ENOUGH_MEMORY, c3)
                   else (NOXTLS_RETURN_SUCCESS,
                         c3\<lparr>handshake_buffer :=
                              map_option (put_at 0 (replicate (unat alloc_len) 0)) (handshake_buffer c3),
                            handshake_received :=
                              map_option (put_at 0 (replicate (unat map_len) 0)) (handshake_received c3),
                            handshake_buffer_len := total_len\<rparr>))"

text \<open>The message in progress is complete: it is copied out and its state retired.\<close>

definition reassembly_deliver ::
  "dtls_context \<Rightarrow> bytes \<Rightarrow> u32 \<Rightarrow> noxtls_return_t \<times> dtls_context \<times> bytes option \<times> u32" where
  "reassembly_deliver c msg tot =
     (let (ok, c1) = ctx_alloc c in
      if \<not> ok then (NOXTLS_RETURN_NOT_ENOUGH_MEMORY, c1, None, 0)
      else (NOXTLS_RETURN_SUCCESS,
            c1\<lparr>handshake_received_count := 0, handshake_buffer_len := 0,
               expected_message_seq := expected_message_seq c1 + 1\<rparr>,
            Some msg, tot))"

definition reassembly_collect ::
  "dtls_context \<Rightarrow> dtls_handshake_fragment_t \<Rightarrow> noxtls_return_t \<times> dtls_context \<times> bytes option \<times> u32" where
  "reassembly_collect c f =
     (let (rc, buf, rmap, cnt) = rx_apply f [0..<unat (fragment_length f)]
            (the (handshake_buffer c), the (handshake_received c), handshake_received_count c);
          c1 = c\<lparr>handshake_buffer := Some buf, handshake_received := Some rmap,
                 handshake_received_count := cnt\<rparr>
      in if rc \<noteq> NOXTLS_RETURN_SUCCESS then (rc, c1, None, 0)
         else if cnt = frag_length f
         then reassembly_deliver c1 (take (unat (frag_length f)) buf) (frag_length f)
         else (NOXTLS_RETURN_SUCCESS, c1, None, 0))"

definition noxtls_dtls_reassemble_handshake ::
  "dtls_context option \<Rightarrow> dtls_handshake_fragment_t option \<Rightarrow>
   noxtls_return_t \<times> dtls_context option \<times> bytes option \<times> u32" where
  "noxtls_dtls_reassemble_handshake ctx fragment =
     (case (ctx, fragment) of
        (Some c0, Some f) \<Rightarrow>
          let (rc, c, out) = dtls_reassembly_slot_take_complete c0;
              tot = frag_length f
          in if rc = NOXTLS_RETURN_SUCCESS then (rc, Some c, fst (snd out), snd (snd out))
             else if tot > DTLS_MAX_HANDSHAKE_SIZE then (NOXTLS_RETURN_INVALID_PARAM, Some c, None, 0)
             else if fragment_offset f + fragment_length f > tot
               then (NOXTLS_RETURN_INVALID_PARAM, Some c, None, 0)
             else if fragment_length f > 0 \<and> frag_data f = None
               then (NOXTLS_RETURN_NULL, Some c, None, 0)
             else if frag_message_seq f < expected_message_seq c
               then (NOXTLS_RETURN_TIMEOUT, Some c, None, 0)
             else if frag_message_seq f > expected_message_seq c
             then (let (slot, c1) =
                         (case dtls_reassembly_slot_find (Some c) (frag_message_seq f) of
                            Some i \<Rightarrow> (Some i, Some c)
                          | None \<Rightarrow> dtls_reassembly_slot_alloc (Some c));
                       (rc1, c2) = dtls_reassembly_slot_store (the c1) slot (Some f)
                   in (rc1, Some c2, None, 0))
             else if fragment_offset f = 0 \<and> fragment_length f = tot
             then (let (rc1, c1, m, n) =
                         reassembly_deliver c (take (unat tot) (case frag_data f of None \<Rightarrow> [] | Some d \<Rightarrow> d)) tot
                   in (rc1, Some c1, m, n))
             else
               let (rc1, c1) =
                     (if handshake_buffer c = None \<or> handshake_received c = None \<or>
                         handshake_buffer_len c \<noteq> tot
                      then reassembly_begin c tot else (NOXTLS_RETURN_SUCCESS, c))
               in if rc1 \<noteq> NOXTLS_RETURN_SUCCESS then (rc1, Some c1, None, 0)
                  else (let (rc2, c2, m, n) = reassembly_collect c1 f in (rc2, Some c2, m, n))
      | _ \<Rightarrow> (NOXTLS_RETURN_NULL, ctx, None, 0))"

end
