(* ===== verification/Dtls_Reassembly_Correct.thy ===== *)
theory Dtls_Reassembly_Correct
  imports Dtls_Reassembly
begin

text \<open>
  Correctness of handshake reassembly: the bitmap against the set of received offsets, the
  copying loop, and the delivery of a message from its fragments in any order.
\<close>

section \<open>The bitmap\<close>

definition rx_marked :: "bytes \<Rightarrow> nat \<Rightarrow> bool" where
  "rx_marked m j \<longleftrightarrow> bit (m ! (j div 8)) (j mod 8)"

lemma unat_drop_bit_3: "unat (drop_bit 3 (idx :: u32)) = unat idx div 8"
  by (simp add: drop_bit_eq_div unat_div)

lemma unat_and_7: "unat ((idx :: u32) AND 7) = unat idx mod 8"
  using unat_and_mask [of idx 3] by (simp add: mask_eq_exp_minus_1)

lemma dtls_rx_map_test_iff: "dtls_rx_map_test m idx \<noteq> 0 \<longleftrightarrow> rx_marked m (unat idx)"
proof -
  have "dtls_rx_map_test m idx = of_bool (rx_marked m (unat idx))"
    by (rule bit_word_eqI)
       (auto simp: dtls_rx_map_test_def rx_marked_def bit_simps unat_drop_bit_3 unat_and_7)
  then show ?thesis by simp
qed

lemma length_dtls_rx_map_set [simp]: "length (dtls_rx_map_set m idx) = length m"
  by (simp add: dtls_rx_map_set_def)

lemma rx_marked_set:
  assumes "unat idx < 8 * length m"
  shows "rx_marked (dtls_rx_map_set m idx) j \<longleftrightarrow> j = unat idx \<or> rx_marked m j"
proof -
  have b: "bit (ucast (push_bit k (1 :: u32)) :: u8) i \<longleftrightarrow> i = k \<and> i < 8" for i k
    by (auto simp: bit_simps)
  have k: "unat idx div 8 < length m" using assms by (simp add: less_mult_imp_div_less mult.commute)
  have same: "j = unat idx \<longleftrightarrow> j div 8 = unat idx div 8 \<and> j mod 8 = unat idx mod 8"
    by (metis div_mult_mod_eq)
  show ?thesis
  proof (cases "j div 8 = unat idx div 8")
    case True
    then show ?thesis
      using k b same
      by (auto simp: dtls_rx_map_set_def rx_marked_def unat_drop_bit_3 unat_and_7 bit_or_iff
          simp del: push_bit_of_1)
  next
    case False
    then have "dtls_rx_map_set m idx ! (j div 8) = m ! (j div 8)"
      unfolding dtls_rx_map_set_def unat_drop_bit_3 by (intro nth_list_update_neq) simp
    then show ?thesis
      using False same by (auto simp: rx_marked_def)
  qed
qed

lemma rx_marked_zeros: "j < 8 * n \<Longrightarrow> \<not> rx_marked (replicate n 0 @ r) j"
  by (simp add: rx_marked_def nth_append less_mult_imp_div_less mult.commute)

lemma rx_map_bytes_enough:
  "unat len \<le> 65536 \<Longrightarrow> unat len \<le> 8 * unat (DTLS_RX_MAP_BYTES len) \<and>
   unat (DTLS_RX_MAP_BYTES len) \<le> 8192 \<and> 0 < unat (DTLS_RX_MAP_BYTES len)"
proof -
  assume a: "unat len \<le> 65536"
  have "unat (DTLS_RX_MAP_BYTES len) = ((if unat len = 0 then 1 else unat len) + 7) div 8"
    using a by (auto simp: DTLS_RX_MAP_BYTES_def unat_div unat_word_ariths unat_eq_0)
  then show ?thesis using a by auto
qed

section \<open>The copying loop\<close>

definition rx_inv :: "bytes \<Rightarrow> nat set \<Rightarrow> bytes \<times> bytes \<times> u32 \<Rightarrow> bool" where
  "rx_inv msg R = (\<lambda>(buf, m, cnt).
     length msg \<le> length buf \<and> length msg \<le> 8 * length m \<and> R \<subseteq> {..<length msg} \<and>
     (\<forall>j<length msg. rx_marked m j \<longleftrightarrow> j \<in> R) \<and> (\<forall>j\<in>R. buf ! j = msg ! j) \<and>
     unat cnt = card R)"

text \<open>\<open>f\<close> is a fragment of \<open>msg\<close> sent with sequence number \<open>sq\<close>.\<close>

definition fragment_of :: "bytes \<Rightarrow> u16 \<Rightarrow> dtls_handshake_fragment_t \<Rightarrow> bool" where
  "fragment_of msg sq f \<longleftrightarrow>
     frag_length f = of_nat (length msg) \<and> frag_message_seq f = sq \<and>
     unat (fragment_offset f) + unat (fragment_length f) \<le> length msg \<and>
     frag_data f = Some (take (unat (fragment_length f)) (drop (unat (fragment_offset f)) msg))"

definition frag_range :: "dtls_handshake_fragment_t \<Rightarrow> nat set" where
  "frag_range f = {unat (fragment_offset f)..<unat (fragment_offset f) + unat (fragment_length f)}"

lemma rx_apply_inv:
  assumes f: "fragment_of msg sq f" and n: "length msg \<le> 65536"
  shows "rx_inv msg R st \<Longrightarrow> \<forall>i\<in>set is. i < unat (fragment_length f) \<Longrightarrow>
         fst (rx_apply f is st) = NOXTLS_RETURN_SUCCESS \<and>
         rx_inv msg (R \<union> (\<lambda>i. unat (fragment_offset f) + i) ` set is) (snd (rx_apply f is st)) \<and>
         length (fst (snd (rx_apply f is st))) = length (fst st) \<and>
         length (fst (snd (snd (rx_apply f is st)))) = length (fst (snd st))"
proof (induction "is" arbitrary: R st)
  case Nil
  then show ?case by simp
next
  case (Cons i "is")
  obtain buf m cnt where st: "st = (buf, m, cnt)" by (cases st)
  let ?j = "unat (fragment_offset f) + i"
  have i: "i < unat (fragment_length f)" using Cons.prems(2) by simp
  have j: "?j < length msg" and d: "the (frag_data f) ! i = msg ! ?j"
    using f i by (auto simp: fragment_of_def)
  have idx: "unat (fragment_offset f + of_nat i) = ?j"
    using j n i by (simp add: unat_word_ariths unat_of_nat)
  have inv: "length msg \<le> length buf" "length msg \<le> 8 * length m" "R \<subseteq> {..<length msg}"
    "\<And>k. k < length msg \<Longrightarrow> rx_marked m k \<longleftrightarrow> k \<in> R" "\<And>k. k \<in> R \<Longrightarrow> buf ! k = msg ! k"
    "unat cnt = card R"
    using Cons.prems(1) by (auto simp: rx_inv_def st)
  show ?case
  proof (cases "?j \<in> R")
    case True
    then have "rx_apply f (i # is) st = rx_apply f is st"
      using inv(4) [OF j] inv(5) d by (simp add: st Let_def dtls_rx_map_test_iff idx)
    moreover have "R \<union> (\<lambda>i. unat (fragment_offset f) + i) ` set (i # is) =
                   R \<union> (\<lambda>i. unat (fragment_offset f) + i) ` set is"
      using True by auto
    ultimately show ?thesis
      using Cons.IH [OF Cons.prems(1)] Cons.prems(2) by simp
  next
    case False
    let ?st = "(buf[?j := msg ! ?j], dtls_rx_map_set m (fragment_offset f + of_nat i), cnt + 1)"
    have fin: "finite R" using inv(3) finite_subset by blast
    have "card (insert ?j R) \<le> length msg"
      using inv(3) j by (metis card_lessThan card_mono finite_lessThan insert_subset lessThan_iff)
    then have cnt: "unat (cnt + 1) = card (insert ?j R)"
      using n inv(6) False fin by (simp add: unat_word_ariths)
    have "rx_inv msg (insert ?j R) ?st"
      using inv(1-5) j cnt idx False
      by (auto simp: rx_inv_def rx_marked_set nth_list_update)
    moreover have "rx_apply f (i # is) st = rx_apply f is ?st"
      using inv(4) [OF j] False d by (simp add: st Let_def dtls_rx_map_test_iff idx)
    ultimately show ?thesis
      using Cons.IH [of "insert ?j R" ?st] Cons.prems(2) by (simp add: st)
  qed
qed

lemma rx_apply_fragment:
  assumes "fragment_of msg sq f" "length msg \<le> 65536" "rx_inv msg R (buf, m, cnt)"
  obtains buf' m' cnt' where
    "rx_apply f [0..<unat (fragment_length f)] (buf, m, cnt) = (NOXTLS_RETURN_SUCCESS, buf', m', cnt')"
    "rx_inv msg (R \<union> frag_range f) (buf', m', cnt')"
    "length buf' = length buf" "length m' = length m"
proof -
  have "(\<lambda>i. unat (fragment_offset f) + i) ` set [0..<unat (fragment_length f)] = frag_range f"
    unfolding frag_range_def
    by (simp add: atLeast0LessThan [symmetric] image_add_atLeastLessThan add.commute)
  then show thesis
    using rx_apply_inv [OF assms(1,2,3), of "[0..<unat (fragment_length f)]"] that
    by (metis atLeastLessThan_iff fst_conv prod.collapse set_upt snd_conv)
qed

section \<open>The context\<close>

text \<open>
  \<open>ready c\<close>: nothing is queued, allocations succeed, and the buffers have the sizes the context
  records. \<open>progress c msg R\<close>: the bytes of \<open>msg\<close> at the offsets \<open>R\<close> have been collected.
\<close>

definition ready :: "dtls_context \<Rightarrow> bool" where
  "ready c \<longleftrightarrow>
     alloc_results c = [] \<and> (\<forall>s\<in>set (reassembly_queue c). slot_active s = 0) \<and>
     (\<forall>b. handshake_buffer c = Some b \<longrightarrow> length b = unat (handshake_buffer_capacity c)) \<and>
     (\<forall>m. handshake_received c = Some m \<longrightarrow> length m = unat (handshake_received_len c)) \<and>
     unat (handshake_buffer_capacity c) \<le> 65536 \<and> unat (handshake_received_len c) \<le> 8192"

definition progress :: "dtls_context \<Rightarrow> bytes \<Rightarrow> nat set \<Rightarrow> bool" where
  "progress c msg R \<longleftrightarrow>
     (if handshake_buffer_len c = of_nat (length msg) \<and> handshake_buffer c \<noteq> None \<and>
         handshake_received c \<noteq> None
      then rx_inv msg R (the (handshake_buffer c), the (handshake_received c),
                         handshake_received_count c)
      else R = {})"

lemma slot_find_inactive:
  "\<forall>s\<in>set ss. slot_active s = 0 \<Longrightarrow> slot_find_from sq i ss = None"
  by (induction sq i ss rule: slot_find_from.induct) auto

lemma take_complete_idle:
  "\<forall>s\<in>set (reassembly_queue c). slot_active s = 0 \<Longrightarrow>
   dtls_reassembly_slot_take_complete c = (NOXTLS_RETURN_TIMEOUT, c, None, None, 0)"
  by (simp add: dtls_reassembly_slot_take_complete_def dtls_reassembly_slot_find_def
      slot_find_inactive)

lemma room_scan_inactive:
  "\<forall>s\<in>set ss. slot_active s = 0 \<Longrightarrow> room_scan q i ss n v = (n, v)"
  by (induction q i ss n v rule: room_scan.induct) auto

lemma make_room_idle:
  assumes "\<forall>s\<in>set (reassembly_queue c). slot_active s = 0"
    and "unat (handshake_buffer_capacity c) \<le> 65536" "unat a \<le> 65536"
    and "unat (handshake_received_len c) \<le> 8192" "unat m \<le> 8192"
  shows "dtls_reassembly_make_room c a m = (NOXTLS_RETURN_SUCCESS, c)"
proof -
  have mx: "unat (max (handshake_buffer_capacity c) a) \<le> 65536"
    "unat (max (handshake_received_len c) m) \<le> 8192"
    using assms(2-5) by (simp_all add: max_def)
  have "unat (ucast (x :: u32) :: u64) = unat x" for x
    by (rule unat_ucast_up) simp
  then have "(ucast (max (handshake_buffer_capacity c) a) + ucast (max (handshake_received_len c) m)
        :: u64) \<le> 131072"
    using mx by (simp add: word_le_nat_alt unat_word_ariths)
  then show ?thesis
    by (subst dtls_reassembly_make_room.simps) (simp add: room_scan_inactive [OF assms(1)] Let_def)
qed

text \<open>The frame of the two growing steps: sizes agree with the recorded ones, nothing else changes.\<close>

lemma grow_buffer_ready:
  assumes "ready c" "unat al \<le> 65536"
  obtains c' b where "grow_handshake_buffer c al = (True, c')" "ready c'"
    "handshake_buffer c' = Some b" "unat al \<le> length b"
    "handshake_received_count c' = handshake_received_count c"
    "expected_message_seq c' = expected_message_seq c"
proof (cases "handshake_buffer c = None \<or> handshake_buffer_capacity c < al")
  case True
  with assms show thesis
    by (intro that [of "c\<lparr>handshake_buffer := Some (replicate (unat al) 0),
                          handshake_buffer_capacity := al\<rparr>"])
       (auto simp: grow_handshake_buffer_def ready_def ctx_alloc_def)
next
  case False
  then obtain b where "handshake_buffer c = Some b" "al \<le> handshake_buffer_capacity c" by auto
  with False assms show thesis
    by (intro that [of c b])
       (auto simp: grow_handshake_buffer_def ready_def word_le_nat_alt)
qed

lemma grow_received_ready:
  assumes "ready c" "unat ml \<le> 8192"
  obtains c' m where "grow_handshake_received c ml = (True, c')" "ready c'"
    "handshake_received c' = Some m" "unat ml \<le> length m"
    "handshake_buffer c' = handshake_buffer c"
    "handshake_received_count c' = handshake_received_count c"
    "expected_message_seq c' = expected_message_seq c"
proof (cases "handshake_received c = None \<or> handshake_received_len c < ml")
  case True
  with assms show thesis
    by (intro that [of "c\<lparr>handshake_received := Some (replicate (unat ml) 0),
                          handshake_received_len := ml\<rparr>"])
       (auto simp: grow_handshake_received_def ready_def ctx_alloc_def)
next
  case False
  then obtain m where "handshake_received c = Some m" "ml \<le> handshake_received_len c" by auto
  with False assms show thesis
    by (intro that [of c m])
       (auto simp: grow_handshake_received_def ready_def word_le_nat_alt)
qed

lemma reassembly_begin_ready:
  assumes c: "ready c" and n: "length msg \<le> 65536"
  obtains c' where "reassembly_begin c (of_nat (length msg)) = (NOXTLS_RETURN_SUCCESS, c')"
    "ready c'" "progress c' msg {}" "handshake_buffer c' \<noteq> None" "handshake_received c' \<noteq> None"
    "handshake_buffer_len c' = of_nat (length msg)"
    "expected_message_seq c' = expected_message_seq c"
proof -
  define L :: u32 where "L = of_nat (length msg)"
  have L: "unat L = length msg" using n by (simp add: L_def unat_of_nat)
  define al where "al = (if L = 0 then 1 else L)"
  define ml where "ml = DTLS_RX_MAP_BYTES L"
  have al: "unat al \<le> 65536" "length msg \<le> unat al"
    using L n by (auto simp: al_def unat_eq_0)
  have ml: "length msg \<le> 8 * unat ml" "unat ml \<le> 8192"
    using rx_map_bytes_enough [of L] L n by (simp_all add: ml_def)
  define c0 where "c0 = c\<lparr>handshake_buffer_len := 0, handshake_received_count := 0,
                 expected_fragment_offset := 0\<rparr>"
  have c0: "ready c0" "handshake_received_count c0 = 0"
    "expected_message_seq c0 = expected_message_seq c"
    using c by (simp_all add: ready_def c0_def)
  have room: "dtls_reassembly_make_room c0 al ml = (NOXTLS_RETURN_SUCCESS, c0)"
    using c0(1) al ml by (intro make_room_idle) (auto simp: ready_def)
  obtain c1 b where c1: "grow_handshake_buffer c0 al = (True, c1)" "ready c1"
    "handshake_buffer c1 = Some b" "unat al \<le> length b" "handshake_received_count c1 = 0"
    "expected_message_seq c1 = expected_message_seq c"
    using grow_buffer_ready [OF c0(1) al(1)] c0(2,3) by metis
  obtain c2 m where c2: "grow_handshake_received c1 ml = (True, c2)" "ready c2"
    "handshake_received c2 = Some m" "unat ml \<le> length m" "handshake_buffer c2 = Some b"
    "handshake_received_count c2 = 0" "expected_message_seq c2 = expected_message_seq c"
    using grow_received_ready [OF c1(2) ml(2)] c1(3,5,6) by metis
  define c' where "c' = c2\<lparr>handshake_buffer := Some (put_at 0 (replicate (unat al) 0) b),
     handshake_received := Some (put_at 0 (replicate (unat ml) 0) m), handshake_buffer_len := L\<rparr>"
  have "reassembly_begin c L = (NOXTLS_RETURN_SUCCESS, c')"
    using room c1(1) c2(1,3,5)
    by (simp add: reassembly_begin_def Let_def al_def [symmetric] ml_def [symmetric]
        c0_def [symmetric] c'_def)
  moreover have "ready c'"
    using c2(2-5) c1(4) by (simp add: ready_def c'_def)
  moreover have "progress c' msg {}"
    using c1(4) c2(4,6) al(2) ml(1) rx_marked_zeros [of _ "unat ml"]
    by (auto simp: progress_def c'_def rx_inv_def L_def put_at_def)
  ultimately show thesis
    using c2(7) by (intro that [of c']) (simp_all add: c'_def L_def)
qed

lemma reassembly_collect_step:
  assumes c: "ready c" "progress c msg R" "handshake_buffer_len c = of_nat (length msg)"
    "handshake_buffer c \<noteq> None" "handshake_received c \<noteq> None"
    and f: "fragment_of msg sq f" and n: "length msg \<le> 65536"
  obtains c' where
    "reassembly_collect c f =
       (if R \<union> frag_range f = {..<length msg}
        then (NOXTLS_RETURN_SUCCESS, c', Some msg, of_nat (length msg))
        else (NOXTLS_RETURN_SUCCESS, c', None, 0))"
    "ready c'"
    "if R \<union> frag_range f = {..<length msg}
     then handshake_buffer_len c' = 0 \<and> expected_message_seq c' = expected_message_seq c + 1
     else progress c' msg (R \<union> frag_range f) \<and> expected_message_seq c' = expected_message_seq c"
proof -
  obtain buf m where bm: "handshake_buffer c = Some buf" "handshake_received c = Some m"
    using c(4,5) by auto
  have inv: "rx_inv msg R (buf, m, handshake_received_count c)"
    using c(2,3) bm by (simp add: progress_def)
  obtain buf' m' cnt' where ap:
    "rx_apply f [0..<unat (fragment_length f)] (buf, m, handshake_received_count c) =
       (NOXTLS_RETURN_SUCCESS, buf', m', cnt')"
    "rx_inv msg (R \<union> frag_range f) (buf', m', cnt')" "length buf' = length buf" "length m' = length m"
    by (rule rx_apply_fragment [OF f n inv])
  have L: "frag_length f = of_nat (length msg)" "unat (of_nat (length msg) :: u32) = length msg"
    using f n by (simp_all add: fragment_of_def unat_of_nat)
  have sub: "R \<union> frag_range f \<subseteq> {..<length msg}" and ucnt: "unat cnt' = card (R \<union> frag_range f)"
    and len: "length msg \<le> length buf'" and val: "\<forall>j\<in>R \<union> frag_range f. buf' ! j = msg ! j"
    using ap(2) by (auto simp: rx_inv_def)
  have full: "cnt' = of_nat (length msg) \<longleftrightarrow> R \<union> frag_range f = {..<length msg}"
    using sub ucnt L(2) card_subset_eq [OF finite_lessThan sub]
    by (metis card_lessThan unat_inj_iff)
  let ?c1 = "c\<lparr>handshake_buffer := Some buf', handshake_received := Some m',
               handshake_received_count := cnt'\<rparr>"
  have r1: "ready ?c1" using c(1) bm ap(3,4) by (auto simp: ready_def)
  have alloc: "ctx_alloc ?c1 = (True, ?c1)" using r1 by (simp add: ctx_alloc_def ready_def)
  show thesis
  proof (cases "R \<union> frag_range f = {..<length msg}")
    case True
    then have "take (length msg) buf' = msg"
      using val len by (intro nth_equalityI) auto
    then show thesis
      using True full ap(1) bm alloc r1 L
      by (intro that [of "?c1\<lparr>handshake_received_count := 0, handshake_buffer_len := 0,
                            expected_message_seq := expected_message_seq ?c1 + 1\<rparr>"])
         (auto simp: reassembly_collect_def reassembly_deliver_def ready_def)
  next
    case False
    then show thesis
      using full ap(1,2) bm r1 L c(3)
      by (intro that [of ?c1]) (auto simp: reassembly_collect_def progress_def)
  qed
qed

lemma reassemble_step:
  assumes c: "ready c" "progress c msg R" and n: "length msg \<le> 65536"
    and f: "fragment_of msg (expected_message_seq c) f"
  obtains c' where
    "noxtls_dtls_reassemble_handshake (Some c) (Some f) =
       (if R \<union> frag_range f = {..<length msg}
        then (NOXTLS_RETURN_SUCCESS, Some c', Some msg, of_nat (length msg))
        else (NOXTLS_RETURN_SUCCESS, Some c', None, 0))"
    "ready c'"
    "if R \<union> frag_range f = {..<length msg}
     then handshake_buffer_len c' = 0 \<and> expected_message_seq c' = expected_message_seq c + 1
     else progress c' msg (R \<union> frag_range f) \<and> expected_message_seq c' = expected_message_seq c"
proof -
  have idle: "dtls_reassembly_slot_take_complete c = (NOXTLS_RETURN_TIMEOUT, c, None, None, 0)"
    using c(1) by (intro take_complete_idle) (simp add: ready_def)
  have L: "frag_length f = of_nat (length msg)" "unat (of_nat (length msg) :: u32) = length msg"
    "frag_message_seq f = expected_message_seq c"
    using f n by (simp_all add: fragment_of_def unat_of_nat)
  have data: "frag_data f = Some (take (unat (fragment_length f)) (drop (unat (fragment_offset f)) msg))"
    and le: "unat (fragment_offset f) + unat (fragment_length f) \<le> length msg"
    using f by (simp_all add: fragment_of_def)
  have g1: "\<not> frag_length f > DTLS_MAX_HANDSHAKE_SIZE"
    using L(1,2) n by (simp add: word_less_nat_alt)
  have g2: "\<not> fragment_offset f + fragment_length f > frag_length f"
    using L(1,2) le n by (simp add: word_less_nat_alt unat_word_ariths)
  have Rsub: "R \<subseteq> {..<length msg}"
    using c(2) by (auto simp: progress_def rx_inv_def split: if_splits)
  show thesis
  proof (cases "fragment_offset f = 0 \<and> fragment_length f = frag_length f")
    case True
    then have all: "R \<union> frag_range f = {..<length msg}"
      using Rsub L by (auto simp: frag_range_def)
    have alloc: "ctx_alloc c = (True, c)" using c(1) by (simp add: ctx_alloc_def ready_def)
    show thesis
      using all True idle g1 g2 L data alloc c(1)
      by (intro that [of "c\<lparr>handshake_received_count := 0, handshake_buffer_len := 0,
                            expected_message_seq := expected_message_seq c + 1\<rparr>"])
         (auto simp: noxtls_dtls_reassemble_handshake_def Let_def reassembly_deliver_def ready_def)
  next
    case False
    obtain c1 where c1:
      "(if handshake_buffer c = None \<or> handshake_received c = None \<or>
           handshake_buffer_len c \<noteq> frag_length f
        then reassembly_begin c (frag_length f) else (NOXTLS_RETURN_SUCCESS, c)) =
       (NOXTLS_RETURN_SUCCESS, c1)"
      "ready c1" "progress c1 msg R" "handshake_buffer_len c1 = of_nat (length msg)"
      "handshake_buffer c1 \<noteq> None" "handshake_received c1 \<noteq> None"
      "expected_message_seq c1 = expected_message_seq c"
    proof (cases "handshake_buffer c = None \<or> handshake_received c = None \<or>
                  handshake_buffer_len c \<noteq> frag_length f")
      case True
      then have "R = {}" using c(2) L(1) by (auto simp: progress_def split: if_splits)
      with True show thesis
        using reassembly_begin_ready [OF c(1) n] L(1) that by (metis (no_types, lifting))
    next
      case False
      with c L(1) that [of c] show thesis by simp
    qed
    obtain c' where c': "reassembly_collect c1 f =
       (if R \<union> frag_range f = {..<length msg}
        then (NOXTLS_RETURN_SUCCESS, c', Some msg, of_nat (length msg))
        else (NOXTLS_RETURN_SUCCESS, c', None, 0))" "ready c'"
      "if R \<union> frag_range f = {..<length msg}
       then handshake_buffer_len c' = 0 \<and> expected_message_seq c' = expected_message_seq c1 + 1
       else progress c' msg (R \<union> frag_range f) \<and> expected_message_seq c' = expected_message_seq c1"
      by (rule reassembly_collect_step [OF c1(2-6) f n])
    show thesis
      using False idle g1 g2 L(3) data c1(1,7) c'
      by (intro that [of c'])
         (auto simp: noxtls_dtls_reassemble_handshake_def Let_def split: if_splits)
  qed
qed

section \<open>Any order, any repetition\<close>

fun feed_fragments :: "dtls_context \<Rightarrow> dtls_handshake_fragment_t list \<Rightarrow> bytes list \<times> dtls_context" where
  "feed_fragments c [] = ([], c)"
| "feed_fragments c (f # fs) =
     (let (_, c1, out, _) = noxtls_dtls_reassemble_handshake (Some c) (Some f);
          (ms, c2) = feed_fragments (the c1) fs
      in ((case out of None \<Rightarrow> ms | Some m \<Rightarrow> m # ms), c2))"

lemma reassemble_stale:
  assumes "ready c" "length msg \<le> 65536" "fragment_of msg sq f" "sq < expected_message_seq c"
  shows "noxtls_dtls_reassemble_handshake (Some c) (Some f) = (NOXTLS_RETURN_TIMEOUT, Some c, None, 0)"
proof -
  have "dtls_reassembly_slot_take_complete c = (NOXTLS_RETURN_TIMEOUT, c, None, None, 0)"
    using assms(1) by (intro take_complete_idle) (simp add: ready_def)
  moreover have "unat (of_nat (length msg) :: u32) = length msg"
    using assms(2) by (simp add: unat_of_nat)
  ultimately show ?thesis
    using assms(2-4)
    by (simp add: noxtls_dtls_reassemble_handshake_def Let_def fragment_of_def word_less_nat_alt
        unat_word_ariths)
qed

lemma feed_stale:
  "ready c \<Longrightarrow> length msg \<le> 65536 \<Longrightarrow> sq < expected_message_seq c \<Longrightarrow>
   \<forall>f\<in>set fs. fragment_of msg sq f \<Longrightarrow> feed_fragments c fs = ([], c)"
  by (induction fs) (simp_all add: reassemble_stale [of c msg sq])

lemma feed_progress:
  "ready c \<Longrightarrow> progress c msg R \<Longrightarrow> length msg \<le> 65536 \<Longrightarrow>
   expected_message_seq c = sq \<Longrightarrow> sq \<noteq> 0xFFFF \<Longrightarrow> R \<noteq> {..<length msg} \<or> R = {} \<Longrightarrow>
   \<forall>f\<in>set fs. fragment_of msg sq f \<Longrightarrow>
   fst (feed_fragments c fs) =
     (if fs \<noteq> [] \<and> R \<union> (\<Union>f\<in>set fs. frag_range f) = {..<length msg} then [msg] else [])"
proof (induction fs arbitrary: c R)
  case Nil
  then show ?case by simp
next
  case (Cons f fs)
  let ?R = "R \<union> frag_range f"
  obtain c' where step: "noxtls_dtls_reassemble_handshake (Some c) (Some f) =
       (if ?R = {..<length msg} then (NOXTLS_RETURN_SUCCESS, Some c', Some msg, of_nat (length msg))
        else (NOXTLS_RETURN_SUCCESS, Some c', None, 0))" "ready c'"
    "if ?R = {..<length msg}
     then handshake_buffer_len c' = 0 \<and> expected_message_seq c' = expected_message_seq c + 1
     else progress c' msg ?R \<and> expected_message_seq c' = expected_message_seq c"
    using reassemble_step [of c msg R f] Cons.prems by (metis list.set_intros(1))
  have sub: "\<Union>(frag_range ` set fs) \<subseteq> {..<length msg}"
    using Cons.prems(7) by (fastforce simp: fragment_of_def frag_range_def)
  show ?case
  proof (cases "?R = {..<length msg}")
    case True
    have "unat sq \<noteq> 65535"
      using Cons.prems(5) unat_inj_iff [of sq 65535] by simp
    then have "sq < sq + 1"
      using unsigned_less [of sq, where ?'a = nat] by (simp add: word_less_nat_alt unat_word_ariths)
    then have "feed_fragments c' fs = ([], c')"
      using True step Cons.prems by (intro feed_stale [of c' msg sq]) auto
    moreover have "R \<union> (frag_range f \<union> \<Union>(frag_range ` set fs)) = {..<length msg}"
      using True sub by auto
    ultimately show ?thesis
      using True step(1) by simp
  next
    case False
    have "fst (feed_fragments c' fs) =
      (if fs \<noteq> [] \<and> ?R \<union> (\<Union>f\<in>set fs. frag_range f) = {..<length msg} then [msg] else [])"
      using False step Cons.prems by (intro Cons.IH) auto
    then show ?thesis
      using False step(1) by (cases "fs = []") (auto simp: Un_assoc case_prod_beta)
  qed
qed

section \<open>Properties\<close>

lemma feed_any_order:
  assumes "ready c" and "handshake_buffer_len c = 0" and "0 < length msg" and "length msg \<le> 65536"
    and "expected_message_seq c \<noteq> 0xFFFF"
    and "\<forall>f\<in>set fs. fragment_of msg (expected_message_seq c) f"
  shows "fst (feed_fragments c fs) =
           (if (\<Union>f\<in>set fs. frag_range f) = {..<length msg} then [msg] else [])"
proof -
  have "(0 :: u32) \<noteq> of_nat (length msg)"
    using assms(3,4) unat_of_nat [of "length msg", where ?'a = 32] by auto
  then have "progress c msg {}" using assms(2) by (simp add: progress_def)
  moreover have "fs \<noteq> []" if "(\<Union>f\<in>set fs. frag_range f) = {..<length msg}"
    using that assms(3) by auto
  ultimately show ?thesis
    using feed_progress [of c msg "{}" "expected_message_seq c" fs] assms by auto
qed

text \<open>
  C4: reassembly in any order. Whatever fragments of the next expected message arrive, in any
  order, overlapping and repeated, the message is delivered, exactly once and with its exact
  bytes, if and only if the fragments cover it; fragments that arrive after it are ignored.
\<close>

theorem dtls_reassembly_any_order:
  assumes "ready c" and "handshake_buffer_len c = 0" and "0 < length msg" and "length msg \<le> 65536"
    and "expected_message_seq c \<noteq> 0xFFFF"
    and "\<forall>f\<in>set fs. fragment_of msg (expected_message_seq c) f"
  shows "fst (feed_fragments c fs) =
           (if (\<Union>f\<in>set fs. frag_range f) = {..<length msg} then [msg] else [])"
  using assms by (rule feed_any_order)

theorem dtls_reassembly_any_order_witness:
  "\<exists>c. fst (feed_fragments c
     [\<lparr>frag_msg_type = 1, frag_length = 4, frag_message_seq = 7, fragment_offset = 2,
        fragment_length = 2, frag_data = Some [30, 40]\<rparr>,
      \<lparr>frag_msg_type = 1, frag_length = 4, frag_message_seq = 7, fragment_offset = 0,
        fragment_length = 3, frag_data = Some [10, 20, 30]\<rparr>]) = [[10, 20, 30, 40]]"
proof -
  fix c0 :: dtls_context
  let ?c = "c0\<lparr>handshake_buffer := None, handshake_buffer_len := 0, handshake_buffer_capacity := 0,
     handshake_received := None, handshake_received_len := 0, expected_message_seq := 7,
     reassembly_queue := replicate 4 zero_slot, alloc_results := []\<rparr>"
  let ?f1 = "\<lparr>frag_msg_type = 1, frag_length = 4, frag_message_seq = 7, fragment_offset = 2,
        fragment_length = 2, frag_data = Some [30, 40]\<rparr>"
  let ?f2 = "\<lparr>frag_msg_type = 1, frag_length = 4, frag_message_seq = 7, fragment_offset = 0,
        fragment_length = 3, frag_data = Some [10, 20, 30]\<rparr>"
  have cover: "(\<Union>f\<in>set [?f1, ?f2]. frag_range f) = {..<length [10, 20, 30, 40 :: u8]}"
    by (auto simp: frag_range_def)
  have "fst (feed_fragments ?c [?f1, ?f2]) =
     (if (\<Union>f\<in>set [?f1, ?f2]. frag_range f) = {..<length [10, 20, 30, 40 :: u8]}
      then [[10, 20, 30, 40]] else [])"
    by (rule dtls_reassembly_any_order) (auto simp: ready_def zero_slot_def fragment_of_def)
  then show ?thesis using cover by auto
qed

end
