(* ===== verification/Dtls_Reassembly_Budget.thy ===== *)
theory Dtls_Reassembly_Budget
  imports Dtls_Reassembly_Correct
begin

text \<open>
  The memory budget of reassembly: the buffers of the message in progress and of the queued
  messages together never exceed \<open>NOXTLS_DTLS_REASSEMBLY_MAX_BYTES\<close>, whatever fragments arrive
  and whichever allocations fail.
\<close>

definition slot_size :: "dtls_reassembly_slot_t \<Rightarrow> nat" where
  "slot_size s = (if slot_active s \<noteq> 0
     then unat (slot_capacity s) + unat (DTLS_RX_MAP_BYTES (slot_capacity s)) else 0)"

definition queue_size :: "dtls_reassembly_slot_t list \<Rightarrow> nat" where
  "queue_size q = (\<Sum>s\<leftarrow>q. slot_size s)"

definition budget_ok :: "dtls_context \<Rightarrow> bool" where
  "budget_ok c \<longleftrightarrow>
     (\<forall>s\<in>set (reassembly_queue c). slot_active s \<noteq> 0 \<longrightarrow> unat (slot_capacity s) \<le> 65536) \<and>
     (handshake_buffer c = None \<longrightarrow> handshake_buffer_capacity c = 0) \<and>
     (handshake_received c = None \<longrightarrow> handshake_received_len c = 0) \<and>
     unat (handshake_buffer_capacity c) + unat (handshake_received_len c) +
       queue_size (reassembly_queue c) \<le> 131072"

lemma slot_size_zero [simp]: "slot_size zero_slot = 0"
  by (simp add: slot_size_def zero_slot_def)

lemma queue_size_update:
  "i < length q \<Longrightarrow> queue_size (q[i := s]) + slot_size (q ! i) = queue_size q + slot_size s"
proof (induction q arbitrary: i)
  case Nil
  then show ?case by simp
next
  case (Cons a q)
  then show ?case by (cases i) (auto simp: queue_size_def)
qed

lemma queue_size_clear: "queue_size (q[i := zero_slot]) \<le> queue_size q"
proof (cases "i < length q")
  case True
  from queue_size_update [OF this, of zero_slot] show ?thesis by simp
qed (simp add: list_update_beyond)

lemma slot_bytes:
  "unat cap \<le> 65536 \<Longrightarrow> unat (cap + DTLS_RX_MAP_BYTES cap) = unat cap + unat (DTLS_RX_MAP_BYTES cap)"
  using rx_map_bytes_enough [of cap] by (simp add: unat_word_ariths)

lemma queue_bytes_unat:
  "\<forall>s\<in>set ss. slot_active s \<noteq> 0 \<longrightarrow> unat (slot_capacity s) \<le> 65536 \<Longrightarrow>
   unat tot + queue_size ss < 2 ^ 32 \<Longrightarrow>
   unat (queue_bytes skip i ss tot) + (case skip of None \<Rightarrow> 0 | Some k \<Rightarrow>
     if i \<le> k \<and> k < i + length ss then slot_size (ss ! (k - i)) else 0) = unat tot + queue_size ss"
proof (induction skip i ss tot rule: queue_bytes.induct)
  case (1 skip i tot)
  then show ?case by (simp add: queue_size_def split: option.split)
next
  case (2 skip i s ss tot)
  let ?t = "if Some i \<noteq> skip \<and> slot_active s \<noteq> 0
            then tot + (slot_capacity s + DTLS_RX_MAP_BYTES (slot_capacity s)) else tot"
  have t: "unat ?t = unat tot + (if Some i \<noteq> skip then slot_size s else 0)"
    using 2(2,3) slot_bytes [of "slot_capacity s"]
    by (auto simp: slot_size_def queue_size_def unat_word_ariths)
  have "unat (queue_bytes skip (Suc i) ss ?t) + (case skip of None \<Rightarrow> 0 | Some k \<Rightarrow>
     if Suc i \<le> k \<and> k < Suc i + length ss then slot_size (ss ! (k - Suc i)) else 0) =
     unat ?t + queue_size ss"
    using 2(2,3) t by (intro 2(1)) (auto simp: queue_size_def)
  then show ?case
    using t by (cases skip) (auto simp: queue_size_def nth_Cons' Suc_le_eq split: if_splits)
qed

lemma room_scan_unat:
  "\<forall>s\<in>set ss. slot_active s \<noteq> 0 \<longrightarrow> unat (slot_capacity s) \<le> 65536 \<Longrightarrow>
   unat n + queue_size ss < 2 ^ 32 \<Longrightarrow>
   unat (fst (room_scan q i ss n v)) = unat n + queue_size ss"
proof (induction q i ss n v rule: room_scan.induct)
  case (1 q i n v)
  then show ?case by (simp add: queue_size_def)
next
  case (2 q i s ss n v)
  have "unat (n + (slot_capacity s + DTLS_RX_MAP_BYTES (slot_capacity s))) = unat n + slot_size s"
    if "slot_active s \<noteq> 0"
    using that 2(3,4) slot_bytes [of "slot_capacity s"]
    by (auto simp: slot_size_def queue_size_def unat_word_ariths)
  with 2 show ?case
    by (auto simp: queue_size_def slot_size_def)
qed

section \<open>Each operation keeps the budget\<close>

lemma budget_alloc: "budget_ok c \<Longrightarrow> budget_ok (snd (ctx_alloc c))"
  by (auto simp: budget_ok_def ctx_alloc_def split: prod.split)

lemma budget_slot_clear: "budget_ok c \<Longrightarrow> budget_ok (dtls_reassembly_slot_clear c s)"
  using queue_size_clear [of "reassembly_queue c" "the s"]
  by (cases s) (auto simp: budget_ok_def dtls_reassembly_slot_clear_def zero_slot_def
      dest!: set_update_subset_insert [THEN subsetD])

lemma budget_frame:
  "budget_ok c \<Longrightarrow> reassembly_queue c' = reassembly_queue c \<Longrightarrow>
   (handshake_buffer c' = None) = (handshake_buffer c = None) \<Longrightarrow>
   (handshake_received c' = None) = (handshake_received c = None) \<Longrightarrow>
   handshake_buffer_capacity c' = handshake_buffer_capacity c \<Longrightarrow>
   handshake_received_len c' = handshake_received_len c \<Longrightarrow> budget_ok c'"
  by (simp add: budget_ok_def)

lemma budget_take_complete: "budget_ok c \<Longrightarrow> budget_ok (fst (snd (dtls_reassembly_slot_take_complete c)))"
  using budget_alloc [of c]
  by (auto simp: dtls_reassembly_slot_take_complete_def Let_def split: option.split prod.split
      intro!: budget_slot_clear intro: budget_frame)

lemma make_room_budget:
  "dtls_reassembly_make_room c al ml = (rc, c') \<Longrightarrow> budget_ok c \<Longrightarrow>
   unat al \<le> 65536 \<Longrightarrow> unat ml \<le> 8192 \<Longrightarrow>
   budget_ok c' \<and> (rc = NOXTLS_RETURN_SUCCESS \<longrightarrow>
     max (unat (handshake_buffer_capacity c')) (unat al) +
     max (unat (handshake_received_len c')) (unat ml) + queue_size (reassembly_queue c') \<le> 131072)"
proof (induction c al ml arbitrary: rc c' rule: dtls_reassembly_make_room.induct)
  case (1 c al ml)
  obtain queued victim where scan:
    "room_scan (reassembly_queue c) 0 (reassembly_queue c) 0 None = (queued, victim)"
    by fastforce
  have q: "unat queued = queue_size (reassembly_queue c)"
    using room_scan_unat [of "reassembly_queue c" 0 "reassembly_queue c" 0 None] 1(3) scan
    by (simp add: budget_ok_def)
  have caps: "unat (handshake_buffer_capacity c) \<le> 131072" "unat (handshake_received_len c) \<le> 131072"
    "unat queued \<le> 131072"
    using 1(3) q by (auto simp: budget_ok_def)
  have up: "unat (ucast (x :: u32) :: u64) = unat x" for x by (rule unat_ucast_up) simp
  have "unat (ucast (max (handshake_buffer_capacity c) al) +
        ucast (max (handshake_received_len c) ml) + ucast queued :: u64) =
    max (unat (handshake_buffer_capacity c)) (unat al) +
    max (unat (handshake_received_len c)) (unat ml) + queue_size (reassembly_queue c)"
    using caps 1(4,5) q
    by (simp add: unat_word_ariths up max_def word_le_nat_alt)
  then have guard: "ucast (max (handshake_buffer_capacity c) al) +
        ucast (max (handshake_received_len c) ml) + ucast queued \<le> (131072 :: u64) \<longleftrightarrow>
    max (unat (handshake_buffer_capacity c)) (unat al) +
    max (unat (handshake_received_len c)) (unat ml) + queue_size (reassembly_queue c) \<le> 131072"
    by (simp add: word_le_nat_alt)
  show ?case
  proof (cases "ucast (max (handshake_buffer_capacity c) al) +
        ucast (max (handshake_received_len c) ml) + ucast queued \<le> (131072 :: u64)")
    case True
    with 1(2,3) scan guard show ?thesis
      by (subst (asm) dtls_reassembly_make_room.simps) (simp add: Let_def)
  next
    case False
    show ?thesis
    proof (cases victim)
      case None
      with False 1(2,3) scan show ?thesis
        by (subst (asm) dtls_reassembly_make_room.simps) (auto simp: Let_def)
    next
      case (Some v)
      with False 1(2) scan
      have "dtls_reassembly_make_room (dtls_reassembly_slot_clear c (Some v)) al ml = (rc, c')"
        by (subst (asm) dtls_reassembly_make_room.simps) (simp add: Let_def)
      from 1(1) [OF refl refl scan [symmetric] refl _ Some this budget_slot_clear [OF 1(3)] 1(4,5)]
      show ?thesis using False by simp
    qed
  qed
qed

lemma budget_grow_buffer:
  "budget_ok c \<Longrightarrow> max (unat (handshake_buffer_capacity c)) (unat al) + R +
     queue_size (reassembly_queue c) \<le> 131072 \<Longrightarrow> unat (handshake_received_len c) \<le> R \<Longrightarrow>
   budget_ok (snd (grow_handshake_buffer c al)) \<and>
   reassembly_queue (snd (grow_handshake_buffer c al)) = reassembly_queue c \<and>
   handshake_received_len (snd (grow_handshake_buffer c al)) = handshake_received_len c \<and>
   unat (handshake_buffer_capacity (snd (grow_handshake_buffer c al))) \<le>
     max (unat (handshake_buffer_capacity c)) (unat al)"
  by (auto simp: grow_handshake_buffer_def ctx_alloc_def budget_ok_def split: prod.split)

lemma budget_grow_received:
  "budget_ok c \<Longrightarrow> B + max (unat (handshake_received_len c)) (unat ml) +
     queue_size (reassembly_queue c) \<le> 131072 \<Longrightarrow> unat (handshake_buffer_capacity c) \<le> B \<Longrightarrow>
   budget_ok (snd (grow_handshake_received c ml))"
  by (auto simp: grow_handshake_received_def ctx_alloc_def budget_ok_def split: prod.split)

lemma budget_begin:
  assumes c: "budget_ok c" and n: "unat tot \<le> 65536"
  shows "budget_ok (snd (reassembly_begin c tot))"
proof -
  define al where "al = (if tot = 0 then 1 else tot)"
  define ml where "ml = DTLS_RX_MAP_BYTES tot"
  have al: "unat al \<le> 65536" and ml: "unat ml \<le> 8192"
    using n rx_map_bytes_enough [OF n] by (simp_all add: al_def ml_def)
  obtain rc c1 where room: "dtls_reassembly_make_room (c\<lparr>handshake_buffer_len := 0,
      handshake_received_count := 0, expected_fragment_offset := 0\<rparr>) al ml = (rc, c1)"
    by fastforce
  have c1: "budget_ok c1" "rc = NOXTLS_RETURN_SUCCESS \<longrightarrow>
     max (unat (handshake_buffer_capacity c1)) (unat al) +
     max (unat (handshake_received_len c1)) (unat ml) + queue_size (reassembly_queue c1) \<le> 131072"
    using make_room_budget [OF room _ al ml] budget_frame [OF c] by simp_all
  show ?thesis
  proof (cases "rc = NOXTLS_RETURN_SUCCESS")
    case False
    with room c1 show ?thesis
      by (simp add: reassembly_begin_def Let_def al_def [symmetric] ml_def [symmetric])
  next
    case True
    obtain ok2 c2 where g1: "grow_handshake_buffer c1 al = (ok2, c2)" by fastforce
    have c2: "budget_ok c2" "reassembly_queue c2 = reassembly_queue c1"
      "handshake_received_len c2 = handshake_received_len c1"
      "unat (handshake_buffer_capacity c2) \<le> max (unat (handshake_buffer_capacity c1)) (unat al)"
      using budget_grow_buffer [OF c1(1), of al "max (unat (handshake_received_len c1)) (unat ml)"]
        c1(2) True g1 by simp_all
    obtain ok3 c3 where g2: "grow_handshake_received c2 ml = (ok3, c3)" by fastforce
    have "budget_ok c3"
      using budget_grow_received [OF c2(1) _ c2(4), of ml] c1(2) True c2(2,3) g2 by simp
    then have "budget_ok (c3\<lparr>handshake_buffer := map_option f (handshake_buffer c3),
        handshake_received := map_option g (handshake_received c3), handshake_buffer_len := tot\<rparr>)" for f g
      by (rule budget_frame) simp_all
    with room True g1 g2 \<open>budget_ok c3\<close> c2(1) show ?thesis
      by (simp add: reassembly_begin_def Let_def al_def [symmetric] ml_def [symmetric])
  qed
qed

lemma budget_deliver: "budget_ok c \<Longrightarrow> budget_ok (fst (snd (reassembly_deliver c m n)))"
  using budget_alloc [of c]
  by (auto simp: reassembly_deliver_def Let_def split: prod.split intro: budget_frame)

lemma budget_collect:
  assumes "budget_ok c" "handshake_buffer c \<noteq> None" "handshake_received c \<noteq> None"
  shows "budget_ok (fst (snd (reassembly_collect c f)))"
proof -
  have "budget_ok (c\<lparr>handshake_buffer := Some b, handshake_received := Some m,
                     handshake_received_count := n\<rparr>)" for b m n
    by (rule budget_frame [OF assms(1)]) (use assms in simp_all)
  then show ?thesis
    by (auto simp: reassembly_collect_def Let_def split: prod.split intro: budget_deliver)
qed

lemma begin_has_buffers:
  "reassembly_begin c tot = (NOXTLS_RETURN_SUCCESS, c') \<Longrightarrow>
   handshake_buffer c' \<noteq> None \<and> handshake_received c' \<noteq> None"
  by (auto simp: reassembly_begin_def grow_handshake_buffer_def grow_handshake_received_def
      ctx_alloc_def Let_def split: prod.splits if_splits)

lemma budget_slot_alloc:
  "budget_ok c \<Longrightarrow> budget_ok (the (snd (dtls_reassembly_slot_alloc (Some c))))"
  by (auto simp: dtls_reassembly_slot_alloc_def budget_slot_clear split: prod.split)

text \<open>Storing a fragment in slot \<open>i\<close>: the slot was checked against the bytes held by the others.\<close>

lemma held_without_slot:
  assumes "budget_ok c" "i < length (reassembly_queue c)"
  shows "unat (dtls_reassembly_bytes_held c (Some i)) + slot_size (reassembly_queue c ! i) =
         unat (handshake_buffer_capacity c) + unat (handshake_received_len c) +
         queue_size (reassembly_queue c)"
proof -
  have "unat ((if handshake_buffer c \<noteq> None then handshake_buffer_capacity c else 0) +
        (if handshake_received c \<noteq> None then handshake_received_len c else 0)) =
        unat (handshake_buffer_capacity c) + unat (handshake_received_len c)"
    using assms(1) by (auto simp: budget_ok_def unat_word_ariths)
  with queue_bytes_unat [of "reassembly_queue c" _ "Some i" 0] assms show ?thesis
    by (auto simp: dtls_reassembly_bytes_held_def budget_ok_def)
qed

lemma budget_new_slot:
  assumes c: "budget_ok c" and i: "i < length (reassembly_queue c)"
    and n: "unat (slot_capacity s) \<le> 65536"
    and fits: "unat (dtls_reassembly_bytes_held c (Some i)) + slot_size s \<le> 131072"
  shows "budget_ok (c\<lparr>alloc_results := rs, reassembly_queue := (reassembly_queue c)[i := s]\<rparr>)"
  using c n fits held_without_slot [OF c i] queue_size_update [OF i, of s]
  by (auto simp: budget_ok_def dest!: set_update_subset_insert [THEN subsetD])

lemma budget_apply_bytes:
  assumes c: "budget_ok c"
  shows "budget_ok (snd (dtls_reassembly_slot_apply_bytes c i f))"
proof (cases "i < length (reassembly_queue c)")
  case True
  obtain rc buf m n where ap: "rx_apply f [0..<unat (fragment_length f)]
     (the (slot_buffer (reassembly_queue c ! i)), the (slot_received (reassembly_queue c ! i)),
      slot_received_count (reassembly_queue c ! i)) = (rc, buf, m, n)"
    by (metis prod_cases4)
  let ?s = "(reassembly_queue c ! i)\<lparr>slot_buffer := Some buf, slot_received := Some m,
              slot_received_count := n\<rparr>"
  have "slot_size ?s = slot_size (reassembly_queue c ! i)"
    by (simp add: slot_size_def)
  then have "queue_size ((reassembly_queue c)[i := ?s]) = queue_size (reassembly_queue c)"
    using queue_size_update [OF True, of ?s] by simp
  moreover have "\<forall>s\<in>set ((reassembly_queue c)[i := ?s]). slot_active s \<noteq> 0 \<longrightarrow> unat (slot_capacity s) \<le> 65536"
    using c True by (auto simp: budget_ok_def dest!: set_update_subset_insert [THEN subsetD])
  ultimately have "budget_ok (c\<lparr>reassembly_queue := (reassembly_queue c)[i := ?s]\<rparr>)"
    using c by (simp add: budget_ok_def)
  then show ?thesis
    by (simp add: dtls_reassembly_slot_apply_bytes_def Let_def ap)
next
  case False
  then show ?thesis
    using c by (auto simp: dtls_reassembly_slot_apply_bytes_def Let_def list_update_beyond
        intro!: budget_frame [OF c] split: prod.split)
qed

lemma budget_reset:
  assumes c: "budget_ok c" and i: "i < length (reassembly_queue c)"
    and n: "unat (frag_length f) \<le> 65536"
    and fits: "unat (dtls_reassembly_bytes_held c (Some i)) + unat (frag_length f) +
               unat (DTLS_RX_MAP_BYTES (frag_length f)) \<le> 131072"
  shows "budget_ok (snd (dtls_reassembly_slot_reset c i f))"
proof -
  define s where "s = \<lparr>slot_active = 1, slot_msg_type = frag_msg_type f,
     slot_message_seq = frag_message_seq f, slot_length = frag_length f,
     slot_buffer = Some (replicate (unat (if frag_length f = 0 then 1 else frag_length f)) 0),
     slot_received = Some (replicate (unat (DTLS_RX_MAP_BYTES (frag_length f))) 0),
     slot_capacity = frag_length f, slot_received_count = 0\<rparr>"
  have "budget_ok (c\<lparr>alloc_results := rs, reassembly_queue := (reassembly_queue c)[i := s]\<rparr>)" for rs
    by (rule budget_new_slot [OF c i]) (use n fits in \<open>simp_all add: s_def slot_size_def\<close>)
  moreover have "budget_ok (c\<lparr>alloc_results := rs,
                              reassembly_queue := (reassembly_queue c)[i := zero_slot]\<rparr>)" for rs
    by (rule budget_new_slot [OF c i])
       (use fits in \<open>simp_all add: zero_slot_def slot_size_def\<close>)
  ultimately show ?thesis
    by (auto simp: dtls_reassembly_slot_reset_def dtls_reassembly_slot_clear_def ctx_alloc_def
        Let_def s_def split: prod.split)
qed

lemma budget_store:
  assumes c: "budget_ok c" and i: "i < length (reassembly_queue c)"
  shows "budget_ok (snd (dtls_reassembly_slot_store c (Some i) (Some f)))"
proof -
  define fresh where "fresh \<longleftrightarrow> slot_active (reassembly_queue c ! i) = 0 \<or>
    slot_message_seq (reassembly_queue c ! i) \<noteq> frag_message_seq f \<or>
    slot_length (reassembly_queue c ! i) \<noteq> frag_length f"
  define held where "held = dtls_reassembly_bytes_held c (Some i)"
  define want where "want = frag_length f + DTLS_RX_MAP_BYTES (frag_length f)"
  define c1 where "c1 = (if fresh then dtls_reassembly_slot_reset c i f
                         else (NOXTLS_RETURN_SUCCESS, c))"
  have c1: "budget_ok (snd c1)"
    if "\<not> frag_length f > DTLS_MAX_HANDSHAKE_SIZE"
      "\<not> (fresh \<and> (held > 131072 \<or> want > 131072 - held))"
  proof (cases fresh)
    case True
    have n: "unat (frag_length f) \<le> 65536" using that(1) by (simp add: word_less_nat_alt)
    then have "unat want = unat (frag_length f) + unat (DTLS_RX_MAP_BYTES (frag_length f))"
      using slot_bytes by (simp add: want_def)
    moreover have "unat held \<le> 131072" "unat want \<le> 131072 - unat held"
      using that(2) True by (auto simp: word_less_nat_alt word_le_nat_alt unat_sub_le not_less)
    ultimately show ?thesis
      using True budget_reset [OF c i n] by (simp add: c1_def held_def)
  qed (simp add: c1_def c)
  have ap: "budget_ok (snd (dtls_reassembly_slot_apply_bytes (snd c1) i f))"
    if "\<not> frag_length f > DTLS_MAX_HANDSHAKE_SIZE"
      "\<not> (fresh \<and> (held > 131072 \<or> want > 131072 - held))"
    by (rule budget_apply_bytes [OF c1 [OF that]])
  show ?thesis
    unfolding dtls_reassembly_slot_store_def prod.case option.case Let_def
      fresh_def [symmetric] held_def [symmetric] want_def [symmetric] c1_def [symmetric]
    using c budget_slot_clear [OF c] c1 ap
    by (simp add: case_prod_beta)
qed

lemma slot_find_from_bound: "slot_find_from sq i ss = Some k \<Longrightarrow> k < i + length ss"
  by (induction sq i ss rule: slot_find_from.induct) (auto split: if_splits)

lemma slot_alloc_from_bound:
  "slot_alloc_from q i ss o' = (Some k, e) \<Longrightarrow> i + length ss = length q \<Longrightarrow>
   (case o' of None \<Rightarrow> True | Some j \<Rightarrow> j < length q) \<Longrightarrow> k < length q"
  by (induction q i ss o' rule: slot_alloc_from.induct) (auto split: if_splits option.splits)

lemma store_after_lookup:
  assumes c: "budget_ok c"
    and look: "(case dtls_reassembly_slot_find (Some c) sq of
                  Some i \<Rightarrow> (Some i, Some c) | None \<Rightarrow> dtls_reassembly_slot_alloc (Some c)) = (slot, c1)"
  shows "budget_ok (snd (dtls_reassembly_slot_store (the c1) slot (Some f)))"
proof (cases slot)
  case None
  have "budget_ok (the c1)"
    using look c budget_slot_alloc [OF c] by (auto split: option.splits)
  then show ?thesis using None by (simp add: dtls_reassembly_slot_store_def)
next
  case (Some i)
  have "budget_ok (the c1) \<and> i < length (reassembly_queue (the c1))"
    using look c Some budget_slot_alloc [OF c]
      slot_alloc_from_bound [of "reassembly_queue c" 0 "reassembly_queue c" None i]
    by (auto simp: dtls_reassembly_slot_find_def dtls_reassembly_slot_alloc_def
        dtls_reassembly_slot_clear_def dest: slot_find_from_bound split: option.splits prod.splits)
  then show ?thesis using Some budget_store by simp
qed

section \<open>Property\<close>



end
