(* ===== verification/Dtls_Acks.thy ===== *)
theory Dtls_Acks
  imports Dtls_Context
begin

text \<open>
  The ACK ranges of DTLS 1.3 (\<open>dtls_ack_range_add\<close>, \<open>dtls_shrink_ack_ranges\<close>,
  \<open>noxtls_dtls_set_ack_range_limit\<close>, \<open>dtls_record_acked_by_last_ack\<close> of
  \<open>tls/noxtls_dtls_common.c\<close>): which received record numbers the next ACK acknowledges.
\<close>

section \<open>The range list\<close>

type_synonym ranges = "(u64 \<times> u64) list"

text \<open>The first range that contains \<open>seq\<close> or is adjacent to it is extended; \<open>None\<close> when none is.\<close>

fun ack_merge_first :: "u64 \<Rightarrow> ranges \<Rightarrow> ranges option" where
  "ack_merge_first sq [] = None"
| "ack_merge_first sq ((minv, maxv) # rs) =
     (if sq + 1 \<ge> minv \<and> sq \<le> maxv + 1
      then Some ((if sq < minv then sq else minv, if sq > maxv then sq else maxv) # rs)
      else map_option (Cons (minv, maxv)) (ack_merge_first sq rs))"

text \<open>The inner loop: every later range that touches range \<open>i\<close> is merged into it and removed.\<close>

fun ack_absorb :: "u64 \<times> u64 \<Rightarrow> ranges \<Rightarrow> (u64 \<times> u64) \<times> ranges" where
  "ack_absorb r [] = (r, [])"
| "ack_absorb (imin, imax) ((jmin, jmax) # rs) =
     (if jmin \<le> imax + 1 \<and> jmax + 1 \<ge> imin
      then ack_absorb (if jmin < imin then jmin else imin, if jmax > imax then jmax else imax) rs
      else (let (r, rs') = ack_absorb (imin, imax) rs in (r, (jmin, jmax) # rs')))"

lemma length_ack_absorb: "length (snd (ack_absorb r rs)) \<le> length rs"
  by (induction r rs rule: ack_absorb.induct) (auto simp: case_prod_beta)

text \<open>The outer loop over \<open>i\<close>.\<close>

function ack_normalise :: "ranges \<Rightarrow> ranges" where
  "ack_normalise [] = []"
| "ack_normalise (r # rs) = (let (r', rs') = ack_absorb r rs in r' # ack_normalise rs')"
  by pat_completeness auto
termination
  by (relation "measure length") (auto, metis le_imp_less_Suc length_ack_absorb snd_conv)

section \<open>Adding a record number\<close>

definition ack_limit :: "dtls_context \<Rightarrow> u8" where
  "ack_limit c = (if ack_range_limit c = 0 then DTLS_MAX_ACK_RANGES else ack_range_limit c)"

text \<open>The summary written after the list has changed.\<close>

definition ack_summary :: "dtls_context \<Rightarrow> dtls_context" where
  "ack_summary c =
     (let rs = the (ack_ranges c);
          mn = foldl (\<lambda>m r. if fst r < m then fst r else m) (fst (hd rs)) (tl rs);
          mx = foldl (\<lambda>m r. if snd r > m then snd r else m) (snd (hd rs)) (tl rs)
      in c\<lparr>ack_range_min := mn, ack_range_max := mx, ack_seq := mx\<rparr>)"

text \<open>Allocating the arrays at the first use: at most four entries, both or none.\<close>

definition ack_allocate :: "dtls_context \<Rightarrow> bool \<times> dtls_context" where
  "ack_allocate c =
     (if ack_ranges c = None \<or> ack_range_capacity c = 0
      then (let limit = ack_limit c;
                cap = (if limit < 4 then limit else 4);
                (ok1, c1) = ctx_alloc c;
                (ok2, c2) = ctx_alloc c1
            in if ok1 \<and> ok2 then (True, c2\<lparr>ack_ranges := Some [], ack_range_capacity := cap\<rparr>)
               else (False, c2\<lparr>ack_ranges := None, ack_range_capacity := 0, ack_range_valid := 0\<rparr>))
      else (True, c))"

text \<open>
  Room for one more range: at the limit the oldest range is dropped, below it the arrays are
  doubled; \<open>False\<close> when growing failed.
\<close>

definition ack_make_room :: "dtls_context \<Rightarrow> bool \<times> dtls_context" where
  "ack_make_room c =
     (let rs = the (ack_ranges c); cap = ack_range_capacity c; limit = ack_limit c in
      if of_nat (length rs) \<ge> cap
      then (if cap \<ge> limit then (True, c\<lparr>ack_ranges := Some (tl rs)\<rparr>)
            else
              let cap2 = (if push_bit 1 cap > limit then limit else push_bit 1 cap);
                  (ok1, c1) = ctx_alloc c;
                  (ok2, c2) = ctx_alloc c1
              in if ok1 \<and> ok2 then (True, c2\<lparr>ack_range_capacity := cap2\<rparr>) else (False, c2))
      else (True, c))"

definition dtls_ack_range_add :: "dtls_context option \<Rightarrow> u16 \<Rightarrow> u64 \<Rightarrow> dtls_context option" where
  "dtls_ack_range_add ctx ep sq =
     (case ctx of
        None \<Rightarrow> None
      | Some c \<Rightarrow>
          let (ok, c1) = ack_allocate c in
          if \<not> ok then Some c1
          else if ack_pending c1 = 0 \<or> ack_range_valid c1 = 0 \<or> ucast (ack_epoch c1) \<noteq> ep \<or>
                  the (ack_ranges c1) = []
          then Some (ack_summary
                 (c1\<lparr>ack_epoch := ucast ep, ack_ranges := Some [(sq, sq)], ack_range_valid := 1\<rparr>))
          else
            (case ack_merge_first sq (the (ack_ranges c1)) of
               Some rs \<Rightarrow> Some (ack_summary (c1\<lparr>ack_ranges := Some (ack_normalise rs)\<rparr>))
             | None \<Rightarrow>
                 let (ok2, c2) = ack_make_room c1 in
                 if \<not> ok2 \<or> \<not> of_nat (length (the (ack_ranges c2))) < ack_range_capacity c2 then Some c2
                 else Some (ack_summary
                        (c2\<lparr>ack_ranges := Some (ack_normalise (the (ack_ranges c2) @ [(sq, sq)]))\<rparr>))))"

definition dtls_shrink_ack_ranges :: "dtls_context \<Rightarrow> u8 \<Rightarrow> dtls_context" where
  "dtls_shrink_ack_ranges c max_ranges =
     (case ack_ranges c of
        None \<Rightarrow> c
      | Some rs \<Rightarrow>
          if ack_range_capacity c \<le> max_ranges then c
          else
            let (ok1, c1) = ctx_alloc c; (ok2, c2) = ctx_alloc c1
            in if ok1 \<and> ok2
               then c2\<lparr>ack_ranges := Some (take (unat max_ranges) rs), ack_range_capacity := max_ranges\<rparr>
               else c2)"

definition noxtls_dtls_set_ack_range_limit ::
  "dtls_context option \<Rightarrow> u8 \<Rightarrow> noxtls_return_t \<times> dtls_context option" where
  "noxtls_dtls_set_ack_range_limit ctx max_ranges =
     (case ctx of
        None \<Rightarrow> (NOXTLS_RETURN_NULL, None)
      | Some c \<Rightarrow>
          if max_ranges = 0 then (NOXTLS_RETURN_NULL, Some c)
          else
            let limit = (if max_ranges > DTLS_MAX_ACK_RANGES then DTLS_MAX_ACK_RANGES else max_ranges)
            in (NOXTLS_RETURN_SUCCESS, Some (dtls_shrink_ack_ranges (c\<lparr>ack_range_limit := limit\<rparr>) limit)))"

definition dtls_record_acked_by_last_ack :: "dtls_context option \<Rightarrow> u16 \<Rightarrow> u64 \<Rightarrow> bool" where
  "dtls_record_acked_by_last_ack ctx ep sq =
     (case ctx of
        None \<Rightarrow> False
      | Some c \<Rightarrow>
          if last_ack_valid c = 0 \<or> last_ack_epoch c \<noteq> ucast ep then False
          else (case last_ack_ranges c of
                  Some (r # rs) \<Rightarrow> list_ex (\<lambda>(lo, hi). lo \<le> sq \<and> sq \<le> hi) (r # rs)
                | _ \<Rightarrow> last_ack_range_min c \<le> sq \<and> sq \<le> last_ack_range_max c))"

section \<open>What the ranges acknowledge\<close>

definition covered :: "ranges \<Rightarrow> u64 set" where
  "covered rs = (\<Union>r\<in>set rs. {fst r..snd r})"

definition ranges_ok :: "ranges \<Rightarrow> bool" where
  "ranges_ok rs \<longleftrightarrow> (\<forall>r\<in>set rs. fst r \<le> snd r)"

lemma covered_simps [simp]:
  "covered [] = {}" "covered (r # rs) = {fst r..snd r} \<union> covered rs"
  "covered (rs @ ss) = covered rs \<union> covered ss"
  by (auto simp: covered_def)

lemma ranges_ok_simps [simp]:
  "ranges_ok []" "ranges_ok (r # rs) \<longleftrightarrow> fst r \<le> snd r \<and> ranges_ok rs"
  "ranges_ok (rs @ ss) \<longleftrightarrow> ranges_ok rs \<and> ranges_ok ss"
  by (auto simp: ranges_ok_def)

text \<open>
  Two ranges the code regards as touching have a union that is one range; this holds at the top
  of the number space too, where the comparisons wrap.
\<close>

lemma touching_union:
  fixes a b c d :: u64
  assumes "a \<le> b" "c \<le> d" "c \<le> b + 1" "a \<le> d + 1"
  shows "{a..b} \<union> {c..d} = {(if c < a then c else a)..(if d > b then d else b)}"
proof -
  have s: "x \<le> y + 1 \<Longrightarrow> unat x \<le> unat y + 1" for x y :: u64
    by (simp add: word_le_nat_alt unat_word_ariths)
  have "unat c \<le> unat b + 1" "unat a \<le> unat d + 1" "unat a \<le> unat b" "unat c \<le> unat d"
    using assms s by (simp_all add: word_le_nat_alt)
  then show ?thesis
    by (auto simp: word_le_nat_alt word_less_nat_alt)
qed

lemma ack_absorb_correct:
  "fst r \<le> snd r \<Longrightarrow> ranges_ok rs \<Longrightarrow> ack_absorb r rs = (r', rs') \<Longrightarrow>
   fst r' \<le> snd r' \<and> ranges_ok rs' \<and> {fst r'..snd r'} \<union> covered rs' = {fst r..snd r} \<union> covered rs"
proof (induction r rs arbitrary: r' rs' rule: ack_absorb.induct)
  case (2 imin imax jmin jmax rs)
  show ?case
  proof (cases "jmin \<le> imax + 1 \<and> jmax + 1 \<ge> imin")
    case True
    have u: "{imin..imax} \<union> {jmin..jmax} =
        {(if jmin < imin then jmin else imin)..(if jmax > imax then jmax else imax)}"
      using 2 True by (intro touching_union) auto
    have o: "(if jmin < imin then jmin else imin) \<le> (if jmax > imax then jmax else imax)"
      using 2(3,4) by auto
    have "fst r' \<le> snd r' \<and> ranges_ok rs' \<and> {fst r'..snd r'} \<union> covered rs' =
        {(if jmin < imin then jmin else imin)..(if jmax > imax then jmax else imax)} \<union> covered rs"
      using 2(1)[of r' rs'] 2(3-5) True o by simp
    then show ?thesis unfolding u [symmetric] by (simp add: Un_assoc)
  next
    case False
    obtain r1 rs1 where a: "ack_absorb (imin, imax) rs = (r1, rs1)" by fastforce
    then have "ack_absorb (imin, imax) rs = (r', rs1)" "rs' = (jmin, jmax) # rs1"
      using 2(5) False by (auto split: if_splits)
    with 2(2)[of r' rs1] 2(3,4) False show ?thesis by (simp add: Un_left_commute)
  qed
qed auto

lemma ack_normalise_correct:
  "ranges_ok rs \<Longrightarrow> ranges_ok (ack_normalise rs) \<and> covered (ack_normalise rs) = covered rs \<and>
   length (ack_normalise rs) \<le> length rs \<and> (rs \<noteq> [] \<longrightarrow> ack_normalise rs \<noteq> [])"
proof (induction rs rule: ack_normalise.induct)
  case (2 r rs)
  obtain r' rs' where a: "ack_absorb r rs = (r', rs')" by fastforce
  then have "fst r' \<le> snd r' \<and> ranges_ok rs' \<and>
      {fst r'..snd r'} \<union> covered rs' = {fst r..snd r} \<union> covered rs"
    using 2(2) ack_absorb_correct [of r rs r' rs'] by simp
  moreover have "length rs' \<le> length rs" using length_ack_absorb [of r rs] a by simp
  ultimately show ?case using 2(1)[OF a [symmetric] refl] a by simp
qed simp

lemma ack_merge_first_correct:
  "ranges_ok rs \<Longrightarrow> ack_merge_first sq rs = Some rs' \<Longrightarrow>
   ranges_ok rs' \<and> covered rs' = insert sq (covered rs) \<and> length rs' = length rs \<and> rs' \<noteq> []"
proof (induction rs arbitrary: rs')
  case (Cons r rs)
  obtain minv maxv where r: "r = (minv, maxv)" by fastforce
  show ?case
  proof (cases "sq + 1 \<ge> minv \<and> sq \<le> maxv + 1")
    case True
    have "{minv..maxv} \<union> {sq..sq} =
        {(if sq < minv then sq else minv)..(if sq > maxv then sq else maxv)}"
      using Cons r True by (intro touching_union) auto
    then have u: "{(if sq < minv then sq else minv)..(if sq > maxv then sq else maxv)} =
        insert sq {minv..maxv}" by simp
    have "rs' = ((if sq < minv then sq else minv), (if sq > maxv then sq else maxv)) # rs"
      using Cons(3) r True by simp
    moreover have "(if sq < minv then sq else minv) \<le> (if sq > maxv then sq else maxv)"
      using Cons(2) r by auto
    ultimately show ?thesis using Cons(2) r u
      by (simp only: covered_simps fst_conv snd_conv ranges_ok_simps) simp
  next
    case False
    then show ?thesis using Cons r by auto
  qed
qed simp

section \<open>One received record\<close>

text \<open>
  The range arrays are in order: the limit and the capacity are within the maximum, an allocated
  array has entries, the used entries fit, and every one is a non-empty range.
\<close>

definition ack_inv :: "dtls_context \<Rightarrow> bool" where
  "ack_inv c \<longleftrightarrow>
     ack_range_limit c \<le> DTLS_MAX_ACK_RANGES \<and> ack_range_capacity c \<le> DTLS_MAX_ACK_RANGES \<and>
     (\<forall>rs. ack_ranges c = Some rs \<longrightarrow>
        ranges_ok rs \<and> length rs \<le> unat (ack_range_capacity c)) "

text \<open>The ranges in use, and the record numbers they acknowledge.\<close>

definition range_list :: "dtls_context \<Rightarrow> ranges" where
  "range_list c = (if ack_range_valid c = 0 then [] else
     (case ack_ranges c of None \<Rightarrow> [] | Some rs \<Rightarrow> rs))"

definition ack_set :: "dtls_context \<Rightarrow> (u16 \<times> u64) set" where
  "ack_set c = Pair (ucast (ack_epoch c)) ` covered (range_list c)"

lemma ctx_alloc_cases:
  assumes "ctx_alloc c = (ok, c')"
  obtains as where "c' = c\<lparr>alloc_results := as\<rparr>" "set as \<subseteq> set (alloc_results c)"
    "ok \<or> False \<in> set (alloc_results c)"
  using assms by (cases "alloc_results c") (auto simp: ctx_alloc_def)

text \<open>Both range arrays are always allocated together.\<close>

lemma ctx_alloc_pair:
  assumes "ctx_alloc c = (o1, d1)" "ctx_alloc d1 = (o2, d2)"
  obtains as where "d2 = c\<lparr>alloc_results := as\<rparr>" "set as \<subseteq> set (alloc_results c)"
    "(o1 \<and> o2) \<or> False \<in> set (alloc_results c)"
proof -
  obtain as where as: "d1 = c\<lparr>alloc_results := as\<rparr>" "set as \<subseteq> set (alloc_results c)"
    "o1 \<or> False \<in> set (alloc_results c)" using assms(1) by (rule ctx_alloc_cases)
  obtain bs where "d2 = d1\<lparr>alloc_results := bs\<rparr>" "set bs \<subseteq> set (alloc_results d1)"
    "o2 \<or> False \<in> set (alloc_results d1)" using assms(2) by (rule ctx_alloc_cases)
  then show thesis using as by (intro that [of bs]) auto
qed

lemma ack_summary_frame [simp]:
  "ack_ranges (ack_summary c) = ack_ranges c" "ack_epoch (ack_summary c) = ack_epoch c"
  "ack_range_valid (ack_summary c) = ack_range_valid c"
  "ack_range_capacity (ack_summary c) = ack_range_capacity c"
  "ack_range_limit (ack_summary c) = ack_range_limit c" "ack_pending (ack_summary c) = ack_pending c"
  "alloc_results (ack_summary c) = alloc_results c"
  by (simp_all add: ack_summary_def Let_def)

lemma ack_limit_bounds:
  "ack_inv c \<Longrightarrow> 0 < ack_limit c \<and> ack_limit c \<le> DTLS_MAX_ACK_RANGES"
  by (auto simp: ack_inv_def ack_limit_def word_gt_0)

lemma ack_allocate_correct:
  assumes "ack_inv c" "ack_allocate c = (ok, c1)"
  shows "ack_inv c1 \<and> set (alloc_results c1) \<subseteq> set (alloc_results c) \<and>
         ack_range_limit c1 = ack_range_limit c \<and> ack_pending c1 = ack_pending c \<and>
         ack_epoch c1 = ack_epoch c \<and> (ok \<or> False \<in> set (alloc_results c)) \<and>
         (ok \<longrightarrow> 0 < ack_range_capacity c1 \<and> ack_ranges c1 \<noteq> None \<and>
                 ack_range_valid c1 = ack_range_valid c \<and> range_list c1 = range_list c) \<and>
         (\<not> ok \<longrightarrow> ack_set c1 = {})"
proof (cases "ack_ranges c = None \<or> ack_range_capacity c = 0")
  case True
  obtain o1 d1 o2 d2 where a: "ctx_alloc c = (o1, d1)" "ctx_alloc d1 = (o2, d2)"
    by fastforce
  obtain as where f: "d2 = c\<lparr>alloc_results := as\<rparr>" "set as \<subseteq> set (alloc_results c)"
    "(o1 \<and> o2) \<or> False \<in> set (alloc_results c)" using a by (rule ctx_alloc_pair)
  have r: "range_list c = []"
    using True assms(1) by (auto simp: range_list_def ack_inv_def split: option.splits)
  have lim: "0 < (if ack_limit c < 4 then ack_limit c else 4)"
    "(if ack_limit c < 4 then ack_limit c else 4) \<le> DTLS_MAX_ACK_RANGES"
    using ack_limit_bounds [OF assms(1)] by auto
  have e: "ack_allocate c = (if o1 \<and> o2
      then (True, c\<lparr>alloc_results := as, ack_ranges := Some [],
                     ack_range_capacity := (if ack_limit c < 4 then ack_limit c else 4)\<rparr>)
      else (False, c\<lparr>alloc_results := as, ack_ranges := None, ack_range_capacity := 0,
                      ack_range_valid := 0\<rparr>))"
    using True by (simp only: ack_allocate_def Let_def a prod.case f(1) if_True)
  show ?thesis
    using assms f(2,3) lim r unfolding e
    by (auto simp: ack_inv_def range_list_def ack_set_def simp del: set_append split: if_splits)
next
  case False
  then show ?thesis
    using assms by (auto simp: ack_allocate_def word_gt_0 ack_inv_def range_list_def)
qed

text \<open>
  Making room keeps the invariant and forgets at most the oldest range; below the limit it
  forgets nothing and a slot is free.
\<close>

definition ack_frame :: "dtls_context \<Rightarrow> dtls_context \<Rightarrow> bool" where
  "ack_frame c d \<longleftrightarrow> ack_epoch d = ack_epoch c \<and> ack_range_valid d = ack_range_valid c \<and>
     ack_pending d = ack_pending c \<and> ack_range_limit d = ack_range_limit c"

lemma ack_make_room_correct:
  assumes inv: "ack_inv c" and rs: "ack_ranges c = Some rs" and cap: "0 < ack_range_capacity c"
    and e: "ack_make_room c = (ok, c2)"
  obtains rs2 where "ack_ranges c2 = Some rs2" "ack_frame c c2"
    "ack_inv c2" "set (alloc_results c2) \<subseteq> set (alloc_results c)" "rs2 = rs \<or> rs2 = tl rs"
    "ok \<or> False \<in> set (alloc_results c)" "ok \<longrightarrow> length rs2 < unat (ack_range_capacity c2)"
    "length rs < unat (ack_limit c) \<longrightarrow> rs2 = rs"
proof -
  have len: "length rs \<le> unat (ack_range_capacity c)" and ok: "ranges_ok rs" "ranges_ok (tl rs)"
    using inv rs by (cases rs; simp add: ack_inv_def)+
  have c32: "unat (ack_range_capacity c) \<le> 32" "unat (ack_limit c) \<le> 32" "0 < unat (ack_range_capacity c)"
    using inv ack_limit_bounds [OF inv] cap
    by (simp_all add: ack_inv_def word_le_nat_alt word_less_nat_alt)
  have full: "(of_nat (length rs) :: u8) \<ge> ack_range_capacity c \<longleftrightarrow> length rs = unat (ack_range_capacity c)"
    using len c32 by (auto simp: word_le_nat_alt unat_of_nat take_bit_nat_eq_self)
  show thesis
  proof (cases "length rs = unat (ack_range_capacity c)")
    case False
    then have "ok" "c2 = c" using e rs full by (simp_all add: ack_make_room_def Let_def)
    then show thesis using that [of rs] inv False len rs
      by (simp add: ack_frame_def)
  next
    case f: True
    show thesis
    proof (cases "ack_range_capacity c \<ge> ack_limit c")
      case True
      then have "ok" "c2 = c\<lparr>ack_ranges := Some (tl rs)\<rparr>"
        using e rs full f by (simp_all add: ack_make_room_def Let_def)
      moreover have "\<not> length rs < unat (ack_limit c)" using True f by (simp add: word_le_nat_alt)
      ultimately show thesis
        using that [of "tl rs"] inv ok f c32(3)
        by (simp add: ack_inv_def ack_frame_def)
    next
      case False
      define cap2 where "cap2 = (if push_bit 1 (ack_range_capacity c) > ack_limit c then ack_limit c
        else push_bit 1 (ack_range_capacity c))"
      have pb: "unat (push_bit 1 (ack_range_capacity c)) = 2 * unat (ack_range_capacity c)"
        using c32 by (simp add: push_bit_eq_mult unat_word_ariths)
      then have c2b: "unat (ack_range_capacity c) < unat cap2" "cap2 \<le> 32"
        using False c32 by (auto simp: cap2_def word_le_nat_alt word_less_nat_alt)
      obtain o1 d1 o2 d2 where a: "ctx_alloc c = (o1, d1)" "ctx_alloc d1 = (o2, d2)" by fastforce
      obtain as where g: "d2 = c\<lparr>alloc_results := as\<rparr>" "set as \<subseteq> set (alloc_results c)"
        "(o1 \<and> o2) \<or> False \<in> set (alloc_results c)" using a by (rule ctx_alloc_pair)
      have e2: "(ok, c2) = (if o1 \<and> o2 then (True, c\<lparr>alloc_results := as, ack_range_capacity := cap2\<rparr>)
          else (False, c\<lparr>alloc_results := as\<rparr>))"
        using e rs full f False a
        by (simp only: ack_make_room_def Let_def prod.case option.sel if_True if_False g(1) cap2_def [symmetric]
              simp_thms)
      show thesis
      proof (cases "o1 \<and> o2")
        case True
        then show thesis using that [of rs] e2 g rs inv f c2b
          by (simp add: ack_inv_def ack_frame_def)
      next
        case False
        have "\<not> ok" "c2 = c\<lparr>alloc_results := as\<rparr>" using False e2 by (auto split: if_splits)
        moreover have "False \<in> set (alloc_results c)" using False g(3) by blast
        ultimately show thesis using that [of rs] g(2) rs inv
          by (simp add: ack_inv_def ack_frame_def)
      qed
    qed
  qed
qed

lemma ucast_epoch [simp]: "ucast (ucast (ep :: u16) :: u64) = ep"
  by (rule bit_word_eqI) (auto simp: bit_simps)

text \<open>Everything one call does to the acknowledged set.\<close>

lemma ack_add_correct:
  assumes inv: "ack_inv c" and e: "dtls_ack_range_add (Some c) ep sq = Some c'"
  shows "ack_inv c' \<and> ack_set c' \<subseteq> insert (ep, sq) (ack_set c) \<and>
         set (alloc_results c') \<subseteq> set (alloc_results c) \<and>
         ack_pending c' = ack_pending c \<and> ack_range_limit c' = ack_range_limit c \<and>
         (False \<notin> set (alloc_results c) \<longrightarrow> (ep, sq) \<in> ack_set c') \<and>
         (False \<notin> set (alloc_results c) \<and> length (range_list c) < unat (ack_limit c) \<and>
          (range_list c = [] \<or> ack_pending c \<noteq> 0 \<and> ucast (ack_epoch c) = ep) \<longrightarrow>
          ack_set c' = insert (ep, sq) (ack_set c) \<and>
          length (range_list c') \<le> Suc (length (range_list c)))"
proof -
  obtain ok c1 where a: "ack_allocate c = (ok, c1)" by fastforce
  note A = ack_allocate_correct [OF inv a]
  show ?thesis
  proof (cases ok)
    case False
    then have "c' = c1" using e a by (simp add: dtls_ack_range_add_def)
    then show ?thesis using A False by auto
  next
    case True
    then obtain rs where rs: "ack_ranges c1 = Some rs" using A by auto
    have lim: "ack_limit c1 = ack_limit c" using A by (simp add: ack_limit_def)
    have F: "set (alloc_results c1) \<subseteq> set (alloc_results c)" "ack_range_limit c1 = ack_range_limit c"
      "ack_pending c1 = ack_pending c" "ack_epoch c1 = ack_epoch c" using A by simp_all
    have set1: "ack_set c1 = ack_set c" "range_list c1 = range_list c"
      using A True by (simp_all add: ack_set_def)
    show ?thesis
    proof (cases "ack_pending c1 = 0 \<or> ack_range_valid c1 = 0 \<or> ucast (ack_epoch c1) \<noteq> ep \<or> rs = []")
      case fresh: True
      then have c': "c' = ack_summary
          (c1\<lparr>ack_epoch := ucast ep, ack_ranges := Some [(sq, sq)], ack_range_valid := 1\<rparr>)"
        using e a True rs by (simp add: dtls_ack_range_add_def)
      have "range_list c = [] \<or> ack_pending c \<noteq> 0 \<and> ucast (ack_epoch c) = ep \<Longrightarrow> range_list c = []"
        using fresh A True rs by (auto simp: range_list_def split: if_splits)
      then show ?thesis using A True c'
        by (auto simp: ack_inv_def range_list_def ack_set_def word_gt_0 word_less_nat_alt)
    next
      case cont: False
      have inv1: "ack_inv c1" using A by simp
      then have okr: "ranges_ok rs" using rs by (simp add: ack_inv_def)
      have rl: "range_list c1 = rs" using cont rs by (simp add: range_list_def)
      have as1: "ack_set c1 = Pair ep ` covered rs" using cont rl by (simp add: ack_set_def)
      show ?thesis
      proof (cases "ack_merge_first sq rs")
        case (Some rs1)
        have c': "c' = ack_summary (c1\<lparr>ack_ranges := Some (ack_normalise rs1)\<rparr>)"
          using e a True rs cont Some by (simp add: dtls_ack_range_add_def)
        note M = ack_merge_first_correct [OF okr Some]
        have N: "ranges_ok (ack_normalise rs1)" "covered (ack_normalise rs1) = insert sq (covered rs)"
          "length (ack_normalise rs1) \<le> length rs" using ack_normalise_correct [of rs1] M by auto
        then have rl': "range_list c' = ack_normalise rs1" "ack_set c' = insert (ep, sq) (ack_set c1)"
          using cont c' as1 by (simp_all add: range_list_def ack_set_def)
        have "ack_inv c'" using inv1 N rs c' by (auto simp: ack_inv_def)
        then show ?thesis using rl' N(3) M F c' set1 rl by simp
      next
        case None
        obtain ok2 c2 where m: "ack_make_room c1 = (ok2, c2)" by fastforce
        obtain rs2 where R: "ack_ranges c2 = Some rs2" "ack_frame c1 c2"
          "ack_inv c2" "set (alloc_results c2) \<subseteq> set (alloc_results c1)" "rs2 = rs \<or> rs2 = tl rs"
          "ok2 \<or> False \<in> set (alloc_results c1)" "ok2 \<longrightarrow> length rs2 < unat (ack_range_capacity c2)"
          "length rs < unat (ack_limit c1) \<longrightarrow> rs2 = rs"
          using inv1 rs _ m by (rule ack_make_room_correct) (use A True in auto)
        have ok2s: "ranges_ok rs2" using R(1,3) by (simp add: ack_inv_def)
        have cov: "covered rs2 \<subseteq> covered rs" using R(5) by (cases rs) auto
        note fr = R(2) [unfolded ack_frame_def]
        have c2s: "range_list c2 = rs2" "ack_set c2 = Pair ep ` covered rs2"
          using cont R(1) fr by (auto simp: range_list_def ack_set_def)
        have sub: "ack_set c2 \<subseteq> ack_set c" using c2s cov as1 set1 by auto
        have room: "length rs < unat (ack_limit c) \<longrightarrow> rs2 = rs" using R(8) lim by simp
        show ?thesis
        proof (cases "\<not> ok2 \<or> \<not> (of_nat (length rs2) :: u8) < ack_range_capacity c2")
          case full: True
          then have c': "c' = c2" using e a True rs cont None m R(1)
            by (simp add: dtls_ack_range_add_def)
          have "\<not> ok2" using full R(7)
            by (auto simp: word_less_nat_alt unat_of_nat intro: le_less_trans [OF mod_less_eq_dividend])
          then have "False \<in> set (alloc_results c)" using R(6) F(1) by auto
          then show ?thesis using R(3,4) F c' sub fr by auto
        next
          case False
          then have c': "c' = ack_summary (c2\<lparr>ack_ranges := Some (ack_normalise (rs2 @ [(sq, sq)]))\<rparr>)"
            using e a True rs cont None m R(1) by (simp add: dtls_ack_range_add_def)
          have N: "ranges_ok (ack_normalise (rs2 @ [(sq, sq)]))"
            "covered (ack_normalise (rs2 @ [(sq, sq)])) = insert sq (covered rs2)"
            "length (ack_normalise (rs2 @ [(sq, sq)])) \<le> Suc (length rs2)"
            using ack_normalise_correct [of "rs2 @ [(sq, sq)]"] ok2s by auto
          have rl': "range_list c' = ack_normalise (rs2 @ [(sq, sq)])"
            "ack_set c' = insert (ep, sq) (ack_set c2)"
            using cont c' R(1) fr c2s N by (auto simp: range_list_def ack_set_def)
          have "ack_inv c'" using R(3,7) N False c' by (auto simp: ack_inv_def R(1))
          moreover have "length rs < unat (ack_limit c) \<longrightarrow> ack_set c2 = ack_set c"
            using room c2s as1 set1 by simp
          ultimately show ?thesis using rl' N(3) F c' set1 rl R(4) fr sub room by auto
        qed
      qed
    qed
  qed
qed

section \<open>Runs of received records\<close>

text \<open>
  What the receiver does with a handshake record that is not an ACK: note its number, then mark
  an ACK as pending (the end of \<open>noxtls_dtls_recv_record\<close>).
\<close>

definition note_handshake_record :: "dtls_context \<Rightarrow> u16 \<times> u64 \<Rightarrow> dtls_context" where
  "note_handshake_record c r =
     (case dtls_ack_range_add (Some c) (fst r) (snd r) of
        Some c' \<Rightarrow> c'\<lparr>ack_pending := 1\<rparr>
      | None \<Rightarrow> c)"

lemma add_returns: "\<exists>d. dtls_ack_range_add (Some c) ep sq = Some d"
  by (auto simp: dtls_ack_range_add_def case_prod_beta Let_def split: option.split)

lemma note_handshake_record_correct:
  assumes inv: "ack_inv c" and c': "c' = note_handshake_record c r"
  shows "ack_inv c' \<and> ack_set c' \<subseteq> insert r (ack_set c) \<and>
         set (alloc_results c') \<subseteq> set (alloc_results c) \<and>
         ack_pending c' = 1 \<and> ack_limit c' = ack_limit c \<and>
         (False \<notin> set (alloc_results c) \<longrightarrow> r \<in> ack_set c') \<and>
         (False \<notin> set (alloc_results c) \<and> length (range_list c) < unat (ack_limit c) \<and>
          (range_list c = [] \<or> ack_pending c \<noteq> 0 \<and> ucast (ack_epoch c) = fst r) \<longrightarrow>
          ack_set c' = insert r (ack_set c) \<and>
          length (range_list c') \<le> Suc (length (range_list c)))"
proof -
  obtain d where d: "dtls_ack_range_add (Some c) (fst r) (snd r) = Some d"
    using add_returns by blast
  have "c' = d\<lparr>ack_pending := 1\<rparr>" using c' d by (simp add: note_handshake_record_def)
  then have "ack_inv c' = ack_inv d" "ack_set c' = ack_set d" "alloc_results c' = alloc_results d"
    "ack_pending c' = 1" "ack_range_limit c' = ack_range_limit d" "range_list c' = range_list d"
    by (simp_all add: ack_inv_def ack_set_def range_list_def)
  then show ?thesis using ack_add_correct [OF inv d] by (simp add: ack_limit_def)
qed

lemma ack_set_epoch:
  "(ep, sq) \<in> ack_set c \<Longrightarrow> ucast (ack_epoch c) = ep"
  by (auto simp: ack_set_def)

lemma ack_run_correct:
  assumes "ack_inv c" "range_list c = []"
  shows "ack_inv (foldl note_handshake_record c rs) \<and>
     ack_set (foldl note_handshake_record c rs) \<subseteq> set rs \<and>
     set (alloc_results (foldl note_handshake_record c rs)) \<subseteq> set (alloc_results c) \<and>
     ack_limit (foldl note_handshake_record c rs) = ack_limit c \<and>
     (rs \<noteq> [] \<longrightarrow> ack_pending (foldl note_handshake_record c rs) = 1) \<and>
     (False \<notin> set (alloc_results c) \<and> length rs \<le> unat (ack_limit c) \<and> (\<forall>r\<in>set rs. fst r = ep) \<longrightarrow>
      ack_set (foldl note_handshake_record c rs) = set rs \<and>
      length (range_list (foldl note_handshake_record c rs)) \<le> length rs)"
proof (induction rs rule: rev_induct)
  case Nil
  then show ?case using assms by (simp add: ack_set_def)
next
  case (snoc r rs)
  let ?c = "foldl note_handshake_record c rs"
  have inv: "ack_inv ?c" using snoc by simp
  note S = note_handshake_record_correct [OF inv refl, of r]
  have ep: "range_list ?c = [] \<or> ack_pending ?c \<noteq> 0 \<and> ucast (ack_epoch ?c) = fst r"
    if "ack_set ?c = set rs" "\<forall>q\<in>set (rs @ [r]). fst q = ep"
  proof (cases rs)
    case Nil
    then show ?thesis using assms by simp
  next
    case (Cons q qs)
    then have "(fst q, snd q) \<in> ack_set ?c" "fst q = fst r" using that by auto
    then have "ucast (ack_epoch ?c) = fst r" using ack_set_epoch by metis
    then show ?thesis using snoc Cons by simp
  qed
  have sub: "set (alloc_results ?c) \<subseteq> set (alloc_results c)" "ack_set ?c \<subseteq> set rs"
    "ack_limit ?c = ack_limit c" using snoc by simp_all
  have "ack_set (note_handshake_record ?c r) = set (rs @ [r]) \<and>
      length (range_list (note_handshake_record ?c r)) \<le> length (rs @ [r])"
    if h: "False \<notin> set (alloc_results c)" "length (rs @ [r]) \<le> unat (ack_limit c)"
      "\<forall>q\<in>set (rs @ [r]). fst q = ep"
  proof -
    have 1: "ack_set ?c = set rs" "length (range_list ?c) \<le> length rs" using snoc h by simp_all
    have 2: "False \<notin> set (alloc_results ?c)" using sub(1) h(1) by blast
    have 3: "length (range_list ?c) < unat (ack_limit ?c)" using 1 h(2) sub(3) by simp
    have "ack_set (note_handshake_record ?c r) = insert r (ack_set ?c) \<and>
        length (range_list (note_handshake_record ?c r)) \<le> Suc (length (range_list ?c))"
      using S 2 3 ep [OF 1(1) h(3)] by blast
    then show ?thesis using 1 by simp
  qed
  moreover have "set (alloc_results (note_handshake_record ?c r)) \<subseteq> set (alloc_results c)"
    using S sub(1) by blast
  moreover have "ack_set (note_handshake_record ?c r) \<subseteq> set (rs @ [r])"
    using S sub(2) by (simp add: subset_insertI2 subset_iff) blast
  ultimately show ?case using S sub(3) by simp
qed

text \<open>
  Claim C6. What the next ACK acknowledges. Whatever order handshake records arrive in, the
  record numbers the ACK ranges cover are received numbers only (nothing is acknowledged that
  did not arrive, through all the merging of ranges and at the wrap-around of the comparisons);
  the range arrays stay within their capacity; and when memory is available, as many records as
  the range limit, all of one epoch, are acknowledged exactly.
\<close>

theorem dtls_ack_ranges_sound_and_exact:
  assumes "ack_inv c" and "range_list c = []"
  shows "ack_inv (foldl note_handshake_record c rs) \<and>
    ack_set (foldl note_handshake_record c rs) \<subseteq> set rs \<and>
    (False \<notin> set (alloc_results c) \<and> length rs \<le> unat (ack_limit c) \<and> (\<forall>r\<in>set rs. fst r = ep) \<longrightarrow>
     ack_set (foldl note_handshake_record c rs) = set rs)"
  using ack_run_correct [OF assms] by blast

theorem dtls_ack_ranges_sound_and_exact_witness:
  "\<exists>c. ack_set (foldl note_handshake_record c [(1, 5), (1, 8), (1, 6)]) = {(1, 5), (1, 6), (1, 8)}"
proof -
  fix c0 :: dtls_context
  let ?c = "c0\<lparr>ack_range_valid := 0, ack_range_capacity := 0, ack_range_limit := 0, ack_ranges := None,
              alloc_results := []\<rparr>"
  have c: "ack_inv ?c" "range_list ?c = []" by (simp_all add: ack_inv_def range_list_def)
  have "False \<notin> set (alloc_results ?c) \<and> length [(1, 5), (1, 8), (1 :: u16, 6 :: u64)] \<le> unat (ack_limit ?c) \<and>
      (\<forall>r\<in>set [(1, 5), (1, 8), (1, 6 :: u64)]. fst r = (1 :: u16))"
    by (simp add: ack_limit_def)
  then have "ack_set (foldl note_handshake_record ?c [(1, 5), (1, 8), (1, 6)]) = set [(1, 5), (1, 8), (1, 6)]"
    using dtls_ack_ranges_sound_and_exact [OF c, of "[(1, 5), (1, 8), (1, 6)]" 1] by blast
  then show ?thesis by (intro exI [of _ ?c]) auto
qed

end
