(* ===== verification/Dtls_Flight.thy ===== *)
theory Dtls_Flight
  imports Dtls_Replay Dtls_Acks
begin

text \<open>
  The sending side of \<open>tls/noxtls_dtls_common.c\<close>: the anti-amplification limit, the flight
  buffer that keeps the records of the current flight, sending plain and protected records,
  retransmission, and the configuration calls. A record goes out with the number
  (\<open>epoch\<close>, \<open>write_seq_num\<close>); the flight buffer holds the entries
  \<open>[flag bit and 15-bit length][record]\<close>.

  Two function pointers of the context are parameters: \<open>protect\<close> stands for
  \<open>protect_record\<close> (it seals a plaintext under the current write state and does not change the
  fields of the context) and \<open>rehandshake\<close> for \<open>retransmit_handshake\<close> of DTLS 1.3 (it sends a
  saved plaintext again under a fresh number, and returns that number). \<open>None\<close> is \<open>NULL\<close>.
\<close>

type_synonym protect_record_fn =
  "(dtls_context \<Rightarrow> u8 \<Rightarrow> bytes \<Rightarrow> noxtls_return_t \<times> bytes) option"
type_synonym retransmit_handshake_fn =
  "(dtls_context \<Rightarrow> u16 \<Rightarrow> bytes \<Rightarrow> noxtls_return_t \<times> u64 \<times> dtls_context) option"

section \<open>Limits and configuration\<close>

definition dtls_anti_amp_allows :: "dtls_context \<Rightarrow> u32 \<Rightarrow> bool" where
  "dtls_anti_amp_allows c len =
     (if role c \<noteq> TLS_ROLE_SERVER \<or> validated c \<noteq> 0 \<or> anti_amp_factor c = 0 then True
      else if bytes_received c = 0 then False
      else bytes_sent c + ucast len \<le> bytes_received c * ucast (anti_amp_factor c))"

definition noxtls_dtls_mark_validated :: "dtls_context \<Rightarrow> dtls_context" where
  "noxtls_dtls_mark_validated c = c\<lparr>validated := 1\<rparr>"

definition noxtls_dtls_set_anti_amplification_limit ::
  "dtls_context option \<Rightarrow> u8 \<Rightarrow> noxtls_return_t \<times> dtls_context option" where
  "noxtls_dtls_set_anti_amplification_limit ctx factor =
     (case ctx of
        None \<Rightarrow> (NOXTLS_RETURN_NULL, None)
      | Some c \<Rightarrow> (NOXTLS_RETURN_SUCCESS, Some (c\<lparr>anti_amp_factor := factor\<rparr>)))"

definition dtls_is_v12_record_layer :: "u16 \<Rightarrow> bool" where
  "dtls_is_v12_record_layer v \<longleftrightarrow> v = DTLS_VERSION_1_2 \<or> v = DTLS_VERSION_1_0"

definition dtls_compute_max_fragment_for_version :: "u16 \<Rightarrow> u16 \<Rightarrow> u32" where
  "dtls_compute_max_fragment_for_version m v =
     (let record_overhead =
            (if v = DTLS_VERSION_1_3 then DTLS13_UNIFIED_HEADER_WITH_LEN + DTLS13_RECORD_NUMBER_ENC_LEN
             else DTLS_RECORD_HEADER_SIZE)
      in if ucast m \<le> record_overhead + DTLS_HANDSHAKE_HEADER_SIZE then DTLS_MIN_FRAGMENT_SIZE
         else
           let usable = ucast m - record_overhead - DTLS_HANDSHAKE_HEADER_SIZE;
               usable = (if usable > DTLS_MAX_FRAGMENT_SIZE then DTLS_MAX_FRAGMENT_SIZE else usable)
           in if usable < DTLS_MIN_FRAGMENT_SIZE then DTLS_MIN_FRAGMENT_SIZE else usable)"

definition noxtls_dtls_set_mtu ::
  "dtls_context option \<Rightarrow> u16 \<Rightarrow> noxtls_return_t \<times> dtls_context option" where
  "noxtls_dtls_set_mtu ctx m =
     (case ctx of
        None \<Rightarrow> (NOXTLS_RETURN_NULL, None)
      | Some c \<Rightarrow>
          if m = 0 then (NOXTLS_RETURN_NULL, Some c)
          else (NOXTLS_RETURN_SUCCESS,
                Some (c\<lparr>mtu := m, max_fragment := dtls_compute_max_fragment_for_version m (version c)\<rparr>)))"

definition dtls_set_retransmit ::
  "dtls_context option \<Rightarrow> u32 \<Rightarrow> u32 \<Rightarrow> u32 \<Rightarrow> noxtls_return_t \<times> dtls_context option" where
  "dtls_set_retransmit ctx timeout_ms backoff_ms max_attempts =
     (case ctx of
        None \<Rightarrow> (NOXTLS_RETURN_NULL, None)
      | Some c \<Rightarrow>
          if timeout_ms = 0 \<or> backoff_ms = 0 \<or> max_attempts = 0
          then (NOXTLS_RETURN_INVALID_PARAM, Some c)
          else (NOXTLS_RETURN_SUCCESS,
                Some (c\<lparr>retransmit_timeout_ms := timeout_ms, retransmit_base_timeout_ms := timeout_ms,
                        smoothed_rtt_ms := 0, rttvar_ms := 0, rtt_estimator_valid := 0,
                        retransmit_backoff_ms := backoff_ms, retransmit_max_attempts := max_attempts\<rparr>)))"

text \<open>
  The caller's buffer becomes the flight buffer; in the model \<open>flight_buffer\<close> is that memory as
  it is written, \<open>flight_buffer_storage\<close> remembers that it is the caller's.
\<close>

definition noxtls_dtls_set_flight_buffer ::
  "dtls_context option \<Rightarrow> bytes option \<Rightarrow> u32 \<Rightarrow> noxtls_return_t \<times> dtls_context option" where
  "noxtls_dtls_set_flight_buffer ctx buf capacity =
     (case ctx of
        None \<Rightarrow> (NOXTLS_RETURN_NULL, None)
      | Some c \<Rightarrow>
          if buf = None \<and> capacity \<noteq> 0 \<or> buf \<noteq> None \<and> capacity = 0
          then (NOXTLS_RETURN_INVALID_PARAM, Some c)
          else (NOXTLS_RETURN_SUCCESS,
                Some (c\<lparr>flight_buffer_storage := buf, flight_buffer_storage_capacity := capacity,
                        flight_buffer := buf, flight_buffer_capacity := capacity,
                        flight_buffer_len := 0\<rparr>)))"

section \<open>The flight buffer\<close>

definition dtls_flight_clear :: "dtls_context \<Rightarrow> dtls_context" where
  "dtls_flight_clear c = c\<lparr>flight_buffer_len := 0\<rparr>"

definition noxtls_dtls_flight_reset :: "dtls_context \<Rightarrow> dtls_context" where
  "noxtls_dtls_flight_reset c =
     (dtls_flight_clear c)\<lparr>flight_has_range := 0, flight_final := 0, flight_peer_next := 0\<rparr>"

definition noxtls_dtls_flight_peer_progress :: "dtls_context \<Rightarrow> dtls_context" where
  "noxtls_dtls_flight_peer_progress c = c\<lparr>flight_peer_next := 1\<rparr>"

definition dtls_flight_begin_if_answered :: "dtls_context \<Rightarrow> dtls_context" where
  "dtls_flight_begin_if_answered c =
     (if flight_peer_next c \<noteq> 0 then noxtls_dtls_flight_reset c else c)"

definition dtls_retransmit_note_progress :: "dtls_context \<Rightarrow> dtls_context" where
  "dtls_retransmit_note_progress c =
     (if expected_message_seq c \<noteq> retransmit_progress_seq c
      then c\<lparr>retransmit_progress_seq := expected_message_seq c, retransmit_count := 0\<rparr>
      else c)"

text \<open>
  \<open>realloc\<close> keeps the old bytes; the new ones are unspecified in C and 0 here (no code reads
  past \<open>flight_buffer_len\<close>).
\<close>

definition dtls_flight_reserve :: "dtls_context \<Rightarrow> u32 \<Rightarrow> noxtls_return_t \<times> dtls_context" where
  "dtls_flight_reserve c needed =
     (if flight_buffer c \<noteq> None \<and> needed \<le> flight_buffer_capacity c then (NOXTLS_RETURN_SUCCESS, c)
      else if flight_buffer_storage c \<noteq> None
      then (if needed > flight_buffer_storage_capacity c then (NOXTLS_RETURN_NOT_ENOUGH_MEMORY, c)
            else (NOXTLS_RETURN_SUCCESS,
                  c\<lparr>flight_buffer := flight_buffer_storage c,
                    flight_buffer_capacity := flight_buffer_storage_capacity c\<rparr>))
      else if needed > 0xFFFFFFFF - 256 then (NOXTLS_RETURN_NOT_ENOUGH_MEMORY, c)
      else
        let new_capacity = (needed + (256 - 1)) AND NOT (256 - 1);
            new_capacity = (if new_capacity < 1024 then 1024 else new_capacity);
            old = (case flight_buffer c of None \<Rightarrow> [] | Some b \<Rightarrow> b);
            (ok, c1) = ctx_alloc c
        in if \<not> ok then (NOXTLS_RETURN_NOT_ENOUGH_MEMORY, c1)
           else (NOXTLS_RETURN_SUCCESS,
                 c1\<lparr>flight_buffer := Some (take (unat new_capacity)
                                         (old @ replicate (unat new_capacity - length old) 0)),
                    flight_buffer_capacity := new_capacity\<rparr>))"

text \<open>The two bytes in front of an entry.\<close>

definition flight_word :: "u8 \<Rightarrow> u32 \<Rightarrow> bytes" where
  "flight_word flags record_len =
     (let w = (if flags AND DTLS_FLIGHT_ENTRY_PROTECT \<noteq> 0 then record_len OR 0x8000 else record_len)
      in [ucast (drop_bit 8 w AND 0xFF), ucast (w AND 0xFF)])"

definition dtls_flight_append ::
  "dtls_context \<Rightarrow> u8 \<Rightarrow> bytes \<Rightarrow> bytes \<Rightarrow> noxtls_return_t \<times> dtls_context" where
  "dtls_flight_append c flags header body =
     (if header = [] then (NOXTLS_RETURN_NULL, c)
      else if length header > 0x7FFF \<or> length body > 0x7FFF - length header
      then (NOXTLS_RETURN_INVALID_PARAM, c)
      else
        let record_len = of_nat (length header + length body) :: u32
        in if record_len > 0xFFFFFFFF - flight_buffer_len c - 2 then (NOXTLS_RETURN_INVALID_PARAM, c)
           else
             let needed = flight_buffer_len c + 2 + record_len;
                 (rc, c1) = dtls_flight_reserve c needed
             in if rc \<noteq> NOXTLS_RETURN_SUCCESS then (rc, c1)
                else
                  let c2 = (if flight_buffer_len c1 = 0
                            then c1\<lparr>retransmit_count := 0,
                                    retransmit_progress_seq := expected_message_seq c1\<rparr>
                            else c1)
                  in (NOXTLS_RETURN_SUCCESS,
                      c2\<lparr>peer_flight_start_seq := expected_message_seq c2,
                         flight_buffer := map_option (put_at (unat (flight_buffer_len c2))
                             (flight_word flags record_len @ header @ body)) (flight_buffer c2),
                         flight_buffer_len := flight_buffer_len c2 + (2 + record_len)\<rparr>))"

definition dtls_flight_note_handshake_seq :: "dtls_context \<Rightarrow> u64 \<Rightarrow> dtls_context" where
  "dtls_flight_note_handshake_seq c sq =
     (if flight_has_range c = 0
      then c\<lparr>flight_epoch := ucast (epoch c), flight_min_seq := sq, flight_max_seq := sq,
             flight_has_range := 1\<rparr>
      else
        let c1 = (if sq < flight_min_seq c then c\<lparr>flight_min_seq := sq\<rparr> else c)
        in if sq > flight_max_seq c1 then c1\<lparr>flight_max_seq := sq\<rparr> else c1)"

section \<open>Sending\<close>

definition noxtls_tls_record_tx_buffer :: "dtls_context \<Rightarrow> bool \<times> dtls_context" where
  "noxtls_tls_record_tx_buffer c =
     (if record_send_buf c then (True, c)
      else (let (ok, c1) = ctx_alloc c in (ok, c1\<lparr>record_send_buf := ok\<rparr>)))"

text \<open>The header of a record: type, version, epoch, sequence number, length.\<close>

definition record_header :: "u8 \<Rightarrow> u16 \<Rightarrow> u16 \<Rightarrow> u64 \<Rightarrow> u16 \<Rightarrow> bytes" where
  "record_header t v ep sq len =
     [t] @ dtls_write_uint16 v @ dtls_write_uint16 ep @ dtls_write_uint48 sq @ dtls_write_uint16 len"

definition stamp_flight_time :: "dtls_context \<Rightarrow> dtls_context" where
  "stamp_flight_time c =
     (case time_callback c of None \<Rightarrow> c | Some t \<Rightarrow> c\<lparr>last_flight_sent_ms := t\<rparr>)"

text \<open>Keeping the record for retransmission, before it is sent.\<close>

definition send_record_keep :: "dtls_context \<Rightarrow> u8 \<Rightarrow> bytes \<Rightarrow> bytes \<Rightarrow> noxtls_return_t \<times> dtls_context" where
  "send_record_keep c t rec dat =
     (let v12 = dtls_is_v12_record_layer (version c) in
      if t = TLS_RECORD_HANDSHAKE \<or> t = TLS_RECORD_CHANGE_CIPHER_SPEC \<and> v12
      then
        let (rc, c1) = dtls_flight_append (dtls_flight_begin_if_answered c) 0 rec []
        in if rc \<noteq> NOXTLS_RETURN_SUCCESS then (rc, c1)
           else
             let c2 = (if t = TLS_RECORD_HANDSHAKE
                       then dtls_flight_note_handshake_seq c1 (write_seq_num c1) else c1)
             in (NOXTLS_RETURN_SUCCESS,
                 if t = TLS_RECORD_HANDSHAKE \<and> role c2 = TLS_ROLE_SERVER \<and> v12 \<and> dat \<noteq> [] \<and>
                    dat ! 0 = DTLS_HANDSHAKE_HELLO_VERIFY_REQUEST
                 then c2\<lparr>flight_final := 1\<rparr> else c2)
      else (NOXTLS_RETURN_SUCCESS, c))"

text \<open>
  The transport gets the record; its number is used up whatever the transport reports. The
  configured transport is \<open>send_callback c \<noteq> None\<close>.
\<close>

definition noxtls_dtls_send_record ::
  "dtls_context option \<Rightarrow> u8 \<Rightarrow> bytes \<Rightarrow> noxtls_return_t \<times> dtls_context option" where
  "noxtls_dtls_send_record ctx t dat =
     (case ctx of
        None \<Rightarrow> (NOXTLS_RETURN_NULL, None)
      | Some c \<Rightarrow>
          if length dat > unat DTLS_MAX_HANDSHAKE_SIZE then (NOXTLS_RETURN_INVALID_PARAM, Some c)
          else if send_callback c = None then (NOXTLS_RETURN_FAILED, Some c)
          else if length dat > unat TLS_MAX_RECORD_SIZE then (NOXTLS_RETURN_INVALID_PARAM, Some c)
          else if dtls_is_v12_record_layer (version c) \<and> write_seq_num c \<ge> DTLS_SEQ_NUM_MASK
          then (NOXTLS_RETURN_FAILED, Some c)
          else
            let record_len = DTLS_RECORD_HEADER_SIZE + of_nat (length dat)
            in if \<not> dtls_anti_amp_allows c record_len then (NOXTLS_RETURN_TIMEOUT, Some c)
               else
                 let (tx, c1) = noxtls_tls_record_tx_buffer c;
                     (ok, c2) = (if tx then (True, c1) else ctx_alloc c1)
                 in if \<not> ok then (NOXTLS_RETURN_NOT_ENOUGH_MEMORY, Some c2)
                    else
                      let v = (if version c2 = DTLS_VERSION_1_3 then DTLS_1_3_LEGACY_RECORD_VERSION
                               else version c2);
                          rec = record_header t v (epoch c2) (write_seq_num c2) (of_nat (length dat)) @ dat;
                          (rc, c3) = send_record_keep c2 t rec dat
                      in if rc \<noteq> NOXTLS_RETURN_SUCCESS then (rc, Some c3)
                         else
                           let (sent, c4) = ctx_send rec c3;
                               c5 = c4\<lparr>write_seq_num := write_seq_num c4 + 1,
                                       bytes_sent := bytes_sent c4 + ucast record_len\<rparr>
                           in if sent < 0 \<or> (word_of_int sent :: u32) \<noteq> record_len
                              then (NOXTLS_RETURN_FAILED, Some c5)
                              else (NOXTLS_RETURN_SUCCESS,
                                    Some (if t = TLS_RECORD_HANDSHAKE then stamp_flight_time c5 else c5)))"

definition noxtls_dtls_send_protected_record ::
  "protect_record_fn \<Rightarrow> dtls_context option \<Rightarrow> u8 \<Rightarrow> bytes \<Rightarrow> noxtls_return_t \<times> dtls_context option" where
  "noxtls_dtls_send_protected_record protect ctx t dat =
     (case (ctx, protect) of
        (None, _) \<Rightarrow> (NOXTLS_RETURN_NULL, None)
      | (Some c, None) \<Rightarrow> (NOXTLS_RETURN_FAILED, Some c)
      | (Some c, Some seal) \<Rightarrow>
          if send_callback c = None then (NOXTLS_RETURN_FAILED, Some c)
          else
            let (tx, c1) = noxtls_tls_record_tx_buffer c
            in if \<not> tx then (NOXTLS_RETURN_NOT_ENOUGH_MEMORY, Some c1)
               else if length dat > unat TLS_MAX_RECORD_SIZE then (NOXTLS_RETURN_INVALID_PARAM, Some c1)
               else if write_seq_num c1 \<ge> DTLS_SEQ_NUM_MASK then (NOXTLS_RETURN_FAILED, Some c1)
               else
                 let (rc, out) = seal c1 t dat
                 in if rc \<noteq> NOXTLS_RETURN_SUCCESS then (rc, Some c1)
                    else if length out > unat TLS_MAX_PROTECTED_RECORD_FRAGMENT
                    then (NOXTLS_RETURN_FAILED, Some c1)
                    else
                      let record_len = DTLS_RECORD_HEADER_SIZE + of_nat (length out)
                      in if \<not> dtls_anti_amp_allows c1 record_len then (NOXTLS_RETURN_TIMEOUT, Some c1)
                         else
                           let rec = record_header t (version c1) (epoch c1) (write_seq_num c1)
                                       (of_nat (length out)) @ out;
                               plain = record_header t (version c1) (epoch c1) (write_seq_num c1)
                                         (of_nat (length dat));
                               (rc2, c2) =
                                 (if t = TLS_RECORD_HANDSHAKE \<or> t = TLS_RECORD_CHANGE_CIPHER_SPEC
                                  then dtls_flight_append (dtls_flight_begin_if_answered c1)
                                         DTLS_FLIGHT_ENTRY_PROTECT plain dat
                                  else (NOXTLS_RETURN_SUCCESS, c1))
                           in if rc2 \<noteq> NOXTLS_RETURN_SUCCESS then (rc2, Some c2)
                              else
                                let (sent, c3) = ctx_send rec c2;
                                    c4 = c3\<lparr>write_seq_num := write_seq_num c3 + 1,
                                            bytes_sent := bytes_sent c3 + ucast record_len\<rparr>
                                in if sent < 0 \<or> (word_of_int sent :: u32) \<noteq> record_len
                                   then (NOXTLS_RETURN_FAILED, Some c4)
                                   else (NOXTLS_RETURN_SUCCESS, Some (stamp_flight_time c4)))"

text \<open>DTLS 1.3: a handshake plaintext is kept for retransmission under its number.\<close>

definition noxtls_dtls_buffer_handshake ::
  "retransmit_handshake_fn \<Rightarrow> dtls_context option \<Rightarrow> bytes option \<Rightarrow> noxtls_return_t \<times> dtls_context option" where
  "noxtls_dtls_buffer_handshake rehandshake ctx inner =
     (case (ctx, inner) of
        (Some c, Some dat) \<Rightarrow>
          if version c \<noteq> DTLS_VERSION_1_3 \<or> rehandshake = None \<or> length dat = 0 \<or>
             length dat > 0x7FFF - 13
          then (NOXTLS_RETURN_INVALID_PARAM, Some c)
          else
            let c1 = dtls_flight_begin_if_answered c;
                header = [TLS_RECORD_HANDSHAKE, 0, 0] @ dtls_write_uint16 (epoch c1) @
                         dtls_write_uint48 (write_seq_num c1) @ [0, 0];
                (rc, c2) = dtls_flight_append c1 DTLS_FLIGHT_ENTRY_PROTECT header dat
            in if rc \<noteq> NOXTLS_RETURN_SUCCESS then (rc, Some c2)
               else
                 let c3 = (if flight_epoch c2 \<noteq> ucast (epoch c2) then c2\<lparr>flight_has_range := 0\<rparr> else c2)
                 in (rc, Some (dtls_flight_note_handshake_seq c3 (write_seq_num c3)))
      | _ \<Rightarrow> (NOXTLS_RETURN_NULL, ctx))"

end
