(* ===== verification/Dtls_Retransmit.thy ===== *)
theory Dtls_Retransmit
  imports Dtls_Flight
begin

text \<open>
  Retransmission of the buffered flight (\<open>dtls12_flight_resend_record\<close>,
  \<open>dtls_flight_retransmit\<close>, \<open>noxtls_dtls_retransmit_flight\<close> of
  \<open>tls/noxtls_dtls_common.c\<close>): the entries are walked in order; under DTLS 1.2 each record gets
  a fresh number of its epoch, under DTLS 1.3 what the last ACK covers is skipped.
\<close>

text \<open>
  Resending one entry. The result holds the buffered record after the call, whose number field
  may have been rewritten.
\<close>

definition count_sent :: "dtls_context \<Rightarrow> int \<Rightarrow> noxtls_return_t \<times> dtls_context" where
  "count_sent c sent =
     (if sent < 0 then (NOXTLS_RETURN_FAILED, c)
      else (NOXTLS_RETURN_SUCCESS, c\<lparr>bytes_sent := bytes_sent c + ucast (word_of_int sent :: u32)\<rparr>))"

text \<open>The sequence counter of a record's epoch, and its successor.\<close>

definition seq_counter :: "dtls_context \<Rightarrow> u16 \<Rightarrow> u64 option" where
  "seq_counter c ep =
     (if ep = epoch c then Some (write_seq_num c)
      else if (ucast ep :: u32) + 1 = ucast (epoch c) then Some (prev_write_seq_num c)
      else None)"

definition bump_counter :: "dtls_context \<Rightarrow> u16 \<Rightarrow> dtls_context" where
  "bump_counter c ep =
     (if ep = epoch c then c\<lparr>write_seq_num := write_seq_num c + 1\<rparr>
      else c\<lparr>prev_write_seq_num := prev_write_seq_num c + 1\<rparr>)"

definition resend_sealed ::
  "protect_record_fn \<Rightarrow> dtls_context \<Rightarrow> u64 \<Rightarrow> bytes \<Rightarrow> noxtls_return_t \<times> dtls_context \<times> bytes" where
  "resend_sealed protect c sq rec =
     (let rec_epoch = dtls_read_uint16 (drop 3 rec);
          (tx, c1) = noxtls_tls_record_tx_buffer c
      in if rec_epoch \<noteq> epoch c1 then (NOXTLS_RETURN_NOT_SUPPORTED, c1, rec)
         else
           (case protect of
              None \<Rightarrow> (NOXTLS_RETURN_NOT_SUPPORTED, c1, rec)
            | Some seal \<Rightarrow>
                if \<not> tx then (NOXTLS_RETURN_NOT_SUPPORTED, c1, rec)
                else
                  let (rc, out) = seal c1 (rec ! 0) (drop 13 rec)
                  in if rc \<noteq> NOXTLS_RETURN_SUCCESS \<or> length out > 0xFFFF
                     then (NOXTLS_RETURN_FAILED, c1, rec)
                     else
                       let wire = put_at 11 (dtls_write_uint16 (of_nat (length out)))
                                    (put_at 5 (dtls_write_uint48 sq) (take 13 rec)) @ out;
                           (sent, c2) = ctx_send wire (bump_counter c1 rec_epoch);
                           (rc2, c3) = count_sent c2 sent
                       in (rc2, c3, rec)))"

definition dtls12_flight_resend_record ::
  "protect_record_fn \<Rightarrow> dtls_context \<Rightarrow> u8 \<Rightarrow> bytes \<Rightarrow> noxtls_return_t \<times> dtls_context \<times> bytes" where
  "dtls12_flight_resend_record protect c flags rec =
     (if length rec < unat DTLS_RECORD_HEADER_SIZE then (NOXTLS_RETURN_NOT_SUPPORTED, c, rec)
      else if \<not> dtls_anti_amp_allows c (of_nat (length rec)) then (NOXTLS_RETURN_TIMEOUT, c, rec)
      else
        let rec_epoch = dtls_read_uint16 (drop 3 rec)
        in if flags AND DTLS_FLIGHT_ENTRY_PROTECT = 0 \<and> rec_epoch \<noteq> DTLS_EPOCH_UNENCRYPTED
           then (let (sent, c1) = ctx_send rec c; (rc, c2) = count_sent c1 sent in (rc, c2, rec))
           else
             (case seq_counter c rec_epoch of
                None \<Rightarrow> (NOXTLS_RETURN_NOT_SUPPORTED, c, rec)
              | Some sq \<Rightarrow>
                  if sq \<ge> DTLS_SEQ_NUM_MASK then (NOXTLS_RETURN_FAILED, c, rec)
                  else if flags AND DTLS_FLIGHT_ENTRY_PROTECT \<noteq> 0
                  then resend_sealed protect c sq rec
                  else
                    let rec' = put_at 5 (dtls_write_uint48 sq) rec;
                        (sent, c1) = ctx_send rec' (bump_counter c rec_epoch);
                        (rc, c2) = count_sent c1 sent
                    in (rc, c2, rec')))"

text \<open>The number of a buffered DTLS 1.3 record; \<open>None\<close> for a ciphertext (its number is encrypted).\<close>

definition dtls_parse_record_epoch_seq :: "bytes \<Rightarrow> (u16 \<times> u64) option" where
  "dtls_parse_record_epoch_seq rec =
     (if length rec < unat DTLS_RECORD_HEADER_SIZE then None
      else if rec ! 0 AND 0xE0 = DTLS13_UNIFIED_FIXED_BITS then None
      else Some (dtls_read_uint16 (drop 3 rec), dtls_read_uint48 (drop 5 rec)))"

text \<open>DTLS 1.3: a buffered plaintext goes out again through \<open>rehandshake\<close>.\<close>

definition flight_range_note :: "dtls_context \<Rightarrow> u16 \<Rightarrow> u64 \<Rightarrow> bool \<Rightarrow> dtls_context" where
  "flight_range_note c ep sq started =
     (let c1 = (if flight_epoch c \<noteq> ucast ep \<or> \<not> started
                then c\<lparr>flight_epoch := ucast ep, flight_min_seq := sq, flight_max_seq := sq\<rparr>
                else
                  let c2 = (if sq < flight_min_seq c then c\<lparr>flight_min_seq := sq\<rparr> else c)
                  in if sq > flight_max_seq c2 then c2\<lparr>flight_max_seq := sq\<rparr> else c2)
      in c1\<lparr>flight_has_range := 1\<rparr>)"

text \<open>
  One entry of the walk: the outcome, the context, and whether it was sent and whether it
  started the protected range.
\<close>

definition retransmit_entry ::
  "protect_record_fn \<Rightarrow> retransmit_handshake_fn \<Rightarrow> bool \<Rightarrow> dtls_context \<Rightarrow> nat \<Rightarrow> nat \<Rightarrow> u8 \<Rightarrow> bool \<Rightarrow>
   noxtls_return_t \<times> dtls_context \<times> bool \<times> bool" where
  "retransmit_entry protect rehandshake v12 c rec_offset rec_len flags started =
     (let rec = take rec_len (drop rec_offset (the (flight_buffer c))) in
      if v12
      then
        let (rc, c1, rec') = dtls12_flight_resend_record protect c flags rec;
            c2 = c1\<lparr>flight_buffer := map_option (put_at rec_offset rec') (flight_buffer c1)\<rparr>
        in if rc = NOXTLS_RETURN_SUCCESS then (NOXTLS_RETURN_SUCCESS, c2, True, started)
           else if rc \<noteq> NOXTLS_RETURN_NOT_SUPPORTED then (rc, c2, False, started)
           else (NOXTLS_RETURN_SUCCESS, c2, False, started)
      else if \<not> dtls_anti_amp_allows c (of_nat rec_len) then (NOXTLS_RETURN_TIMEOUT, c, False, started)
      else if flags AND DTLS_FLIGHT_ENTRY_PROTECT \<noteq> 0
      then
        (case rehandshake of
           None \<Rightarrow> (NOXTLS_RETURN_FAILED, c, False, started)
         | Some resend \<Rightarrow>
             if rec_len < unat DTLS_RECORD_HEADER_SIZE then (NOXTLS_RETURN_FAILED, c, False, started)
             else
               let rec_epoch = dtls_read_uint16 (drop 3 rec);
                   (rc, sq, c1) = resend c rec_epoch (drop 13 rec)
               in if rc \<noteq> NOXTLS_RETURN_SUCCESS then (rc, c1, False, started)
                  else
                    let c2 = c1\<lparr>flight_buffer :=
                          map_option (put_at (rec_offset + 5) (dtls_write_uint48 sq)) (flight_buffer c1)\<rparr>
                    in (NOXTLS_RETURN_SUCCESS, flight_range_note c2 rec_epoch sq started, True, True))
      else
        let unacked = (case dtls_parse_record_epoch_seq rec of
                         None \<Rightarrow> True
                       | Some (ep, sq) \<Rightarrow> \<not> dtls_record_acked_by_last_ack (Some c) ep sq)
        in if unacked
           then
             let (sent, c1) = ctx_send rec c
             in if sent < 0 then (NOXTLS_RETURN_FAILED, c1, False, started)
                else (NOXTLS_RETURN_SUCCESS, c1\<lparr>bytes_sent := bytes_sent c1 + of_nat rec_len\<rparr>, True, started)
           else (NOXTLS_RETURN_SUCCESS, c, False, started))"

lemma walk_measure:
  "\<not> unat (n :: u32) < Suc (Suc (offset + l)) \<Longrightarrow> 4294967294 - (offset + l) < 4294967296 - offset"
  using unsigned_less [of n, where ?'a = nat] by simp

text \<open>
  The walk over the buffer. The offset is a natural number: it never passes
  \<open>flight_buffer_len\<close>, a \<open>u32\<close>.
\<close>

function flight_walk ::
  "protect_record_fn \<Rightarrow> retransmit_handshake_fn \<Rightarrow> bool \<Rightarrow> nat \<Rightarrow> u32 \<Rightarrow> bool \<Rightarrow> dtls_context \<Rightarrow>
   noxtls_return_t \<times> dtls_context \<times> u32" where
  "flight_walk protect rehandshake v12 offset sent_records started c =
     (if offset + 2 \<le> unat (flight_buffer_len c) \<and> (v12 \<or> sent_records < DTLS_RETRANSMIT_RECORD_BURST)
      then
        let w = dtls_read_uint16 (drop offset (the (flight_buffer c)));
            rec_len = unat (w AND 0x7FFF);
            flags = (if w AND 0x8000 \<noteq> 0 then DTLS_FLIGHT_ENTRY_PROTECT else 0);
            rec_offset = offset + 2
        in if rec_offset + rec_len > unat (flight_buffer_len c)
           then (NOXTLS_RETURN_FAILED, c, sent_records)
           else
             (case retransmit_entry protect rehandshake v12 c rec_offset rec_len flags started of
                (rc, c1, sent, started1) \<Rightarrow>
                  if rc \<noteq> NOXTLS_RETURN_SUCCESS then (rc, c1, sent_records)
                  else flight_walk protect rehandshake v12 (rec_offset + rec_len)
                         (if sent then sent_records + 1 else sent_records) started1 c1)
      else (NOXTLS_RETURN_SUCCESS, c, sent_records))"
  by pat_completeness auto

termination flight_walk
  by (relation "measure (\<lambda>(_, _, _, offset, _). 4294967296 - offset)") (auto dest: walk_measure)

declare flight_walk.simps [simp del]

definition dtls_flight_retransmit ::
  "protect_record_fn \<Rightarrow> retransmit_handshake_fn \<Rightarrow> dtls_context option \<Rightarrow> noxtls_return_t \<times> dtls_context option" where
  "dtls_flight_retransmit protect rehandshake ctx =
     (case ctx of
        None \<Rightarrow> (NOXTLS_RETURN_NULL, None)
      | Some c \<Rightarrow>
          if flight_buffer_len c = 0 \<or> send_callback c = None then (NOXTLS_RETURN_FAILED, Some c)
          else
            let v12 = dtls_is_v12_record_layer (version c)
            in if \<not> v12 \<and> flight_has_range c \<noteq> 0 \<and> last_ack_valid c \<noteq> 0 \<and>
                  last_ack_epoch c = flight_epoch c \<and> last_ack_range_min c \<le> flight_min_seq c \<and>
                  last_ack_range_max c \<ge> flight_max_seq c
               then (NOXTLS_RETURN_SUCCESS, Some c)
               else
                 (case flight_walk protect rehandshake v12 0 0 False c of
                    (rc, c1, sent_records) \<Rightarrow>
                      if rc \<noteq> NOXTLS_RETURN_SUCCESS then (rc, Some c1)
                      else (NOXTLS_RETURN_SUCCESS,
                            Some (if sent_records > 0 then stamp_flight_time c1 else c1))))"

definition noxtls_dtls_retransmit_flight ::
  "protect_record_fn \<Rightarrow> retransmit_handshake_fn \<Rightarrow> dtls_context option \<Rightarrow> noxtls_return_t \<times> dtls_context option" where
  "noxtls_dtls_retransmit_flight protect rehandshake ctx =
     (case ctx of
        None \<Rightarrow> (NOXTLS_RETURN_NULL, None)
      | Some c \<Rightarrow>
          if flight_buffer_len c = 0 then (NOXTLS_RETURN_SUCCESS, Some c)
          else
            let c1 = dtls_retransmit_note_progress c
            in if retransmit_count c1 \<ge> retransmit_max_attempts c1 then (NOXTLS_RETURN_TIMEOUT, Some c1)
               else
                 (case dtls_flight_retransmit protect rehandshake
                         (Some (c1\<lparr>retransmit_count := retransmit_count c1 + 1\<rparr>)) of
                    (rc, ctx2) \<Rightarrow>
                      (rc, if rc = NOXTLS_RETURN_SUCCESS then map_option stamp_flight_time ctx2 else ctx2)))"

end
