(* ===== verification/Dtls_Wire.thy ===== *)
theory Dtls_Wire
  imports Dtls_Retransmit
begin

text \<open>
  What the sending operations do to the wire: which datagrams go out, under which numbers, and
  how they are counted. Every operation is an \<open>emission\<close> of at most one datagram as far as these
  fields are concerned; the properties below are proved over emissions.
\<close>

section \<open>The fields of the wire\<close>

definition same_wire :: "dtls_context \<Rightarrow> dtls_context \<Rightarrow> bool" where
  "same_wire c d \<longleftrightarrow>
     role d = role c \<and> version d = version c \<and> epoch d = epoch c \<and>
     write_seq_num d = write_seq_num c \<and> prev_write_seq_num d = prev_write_seq_num c \<and>
     validated d = validated c \<and> anti_amp_factor d = anti_amp_factor c \<and>
     bytes_received d = bytes_received c \<and> bytes_sent d = bytes_sent c \<and> send_log d = send_log c \<and>
     send_callback d = send_callback c"

lemma same_wire_refl [simp]: "same_wire c c"
  by (simp add: same_wire_def)

lemma same_wire_trans [trans]: "same_wire a b \<Longrightarrow> same_wire b c \<Longrightarrow> same_wire a c"
  by (simp add: same_wire_def)

lemma same_wire_ctx_alloc: "ctx_alloc c = (ok, c') \<Longrightarrow> same_wire c c'"
  by (auto simp: ctx_alloc_def same_wire_def case_prod_beta Let_def)

lemma same_wire_tx_buffer: "noxtls_tls_record_tx_buffer c = (ok, c') \<Longrightarrow> same_wire c c'"
  by (auto simp: noxtls_tls_record_tx_buffer_def same_wire_def ctx_alloc_def case_prod_beta Let_def
      split: if_splits)

lemma same_wire_begin [simp]: "same_wire c (dtls_flight_begin_if_answered d) = same_wire c d"
  by (simp add: same_wire_def dtls_flight_begin_if_answered_def noxtls_dtls_flight_reset_def
      dtls_flight_clear_def)

lemma same_wire_note_seq [simp]: "same_wire c (dtls_flight_note_handshake_seq d sq) = same_wire c d"
  by (simp add: same_wire_def dtls_flight_note_handshake_seq_def Let_def)

lemma same_wire_final [simp]: "same_wire c (d\<lparr>flight_final := x\<rparr>) = same_wire c d"
  by (simp add: same_wire_def)

lemma same_wire_stamp [simp]: "same_wire c (stamp_flight_time d) = same_wire c d"
  by (cases "time_callback d") (simp_all add: same_wire_def stamp_flight_time_def)

lemma same_wire_reserve: "dtls_flight_reserve c n = (rc, c') \<Longrightarrow> same_wire c c'"
  by (auto simp: dtls_flight_reserve_def ctx_alloc_def same_wire_def Let_def case_prod_beta
      split: if_splits)

lemma same_wire_append: "dtls_flight_append c fl h b = (rc, c') \<Longrightarrow> same_wire c c'"
proof -
  assume a: "dtls_flight_append c fl h b = (rc, c')"
  obtain rc1 c1 where r: "dtls_flight_reserve c
      (flight_buffer_len c + 2 + of_nat (length h + length b)) = (rc1, c1)" by fastforce
  have "c' = c \<or> c' = c1 \<or> same_wire c1 c'"
    using a unfolding dtls_flight_append_def Let_def r prod.case
    by (auto simp: same_wire_def split: if_splits)
  then show ?thesis using same_wire_reserve [OF r] same_wire_trans by auto
qed

lemma same_wire_keep: "send_record_keep c t rec dat = (rc, c') \<Longrightarrow> same_wire c c'"
proof -
  assume a: "send_record_keep c t rec dat = (rc, c')"
  obtain rc1 c1 where r: "dtls_flight_append (dtls_flight_begin_if_answered c) 0 rec [] = (rc1, c1)"
    by fastforce
  have w: "same_wire c c1"
    using same_wire_trans [OF _ same_wire_append [OF r], of c] by simp
  have "same_wire c (snd (send_record_keep c t rec dat))"
    unfolding send_record_keep_def Let_def r prod.case by (simp add: w)
  then show ?thesis by (simp add: a)
qed

section \<open>The flight buffer as a list of entries\<close>

text \<open>
  The buffer's used part is the encoding of a list of entries, each a flag byte and a record of
  at most 15 bits of length.
\<close>

type_synonym flight_entry = "u8 \<times> bytes"

definition entry_bytes :: "flight_entry \<Rightarrow> bytes" where
  "entry_bytes e = flight_word (fst e) (of_nat (length (snd e))) @ snd e"

definition entry_ok :: "flight_entry \<Rightarrow> bool" where
  "entry_ok e \<longleftrightarrow> fst e \<in> {0, DTLS_FLIGHT_ENTRY_PROTECT} \<and> 0 < length (snd e) \<and> length (snd e) \<le> 0x7FFF"

definition flight_entries :: "dtls_context \<Rightarrow> flight_entry list \<Rightarrow> bool" where
  "flight_entries c es \<longleftrightarrow>
     list_all entry_ok es \<and> flight_buffer_capacity c \<le> 0xFFFFFF00 \<and>
     length (concat (map entry_bytes es)) = unat (flight_buffer_len c) \<and>
     (flight_buffer c = None \<longrightarrow> es = []) \<and>
     (\<forall>b. flight_buffer c = Some b \<longrightarrow> length b = unat (flight_buffer_capacity c) \<and>
        unat (flight_buffer_len c) \<le> length b \<and>
        take (unat (flight_buffer_len c)) b = concat (map entry_bytes es)) \<and>
     (\<forall>s. flight_buffer_storage c = Some s \<longrightarrow> flight_buffer c \<noteq> None \<and>
        flight_buffer_storage_capacity c = flight_buffer_capacity c)"

lemma length_flight_word [simp]: "length (flight_word fl n) = 2"
  by (simp add: flight_word_def Let_def)

lemma length_entry_bytes [simp]: "length (entry_bytes e) = 2 + length (snd e)"
  by (simp add: entry_bytes_def)

text \<open>The word in front of an entry gives back its length and its flag.\<close>

lemma flight_word_read:
  assumes "n \<le> 0x7FFF" "fl \<in> {0, DTLS_FLIGHT_ENTRY_PROTECT}"
  shows "unat (dtls_read_uint16 (flight_word fl (of_nat n) @ r) AND 0x7FFF) = n"
    "(dtls_read_uint16 (flight_word fl (of_nat n) @ r) AND 0x8000 \<noteq> 0) = (fl \<noteq> 0)"
proof -
  have h: "(0x8000 :: u16) = 2 ^ 15" "(0x7FFF :: u16) = mask 15"
    by (simp_all add: mask_eq_exp_minus_1)
  have n: "unat (of_nat n :: u16) = n" "unat (of_nat n :: u32) = n"
    using assms(1) by (simp_all add: unat_of_nat)
  have b: "\<not> bit (of_nat n :: u16) 15"
    using assms(1) n by (intro high_bits_clear [where k = 15]) simp_all
  define w :: u32 where "w = (if fl AND DTLS_FLIGHT_ENTRY_PROTECT \<noteq> 0 then of_nat n OR 0x8000 else of_nat n)"
  have u: "(ucast (of_nat n :: u32) :: u16) = of_nat n"
    using n assms(1) by (simp add: word_unat_eq_iff unsigned_ucast_eq take_bit_eq_mod)
  have "dtls_read_uint16 (flight_word fl (of_nat n) @ r) = ucast w"
    by (simp add: dtls_read_uint16_def flight_word_def Let_def w_def [symmetric])
      (rule bit_word_eqI, auto simp: bit_simps)
  also have "\<dots> = (if fl \<noteq> 0 then of_nat n OR 0x8000 else of_nat n)"
    using assms(2) by (auto simp: w_def u unsigned_or_eq)
  finally have rd: "dtls_read_uint16 (flight_word fl (of_nat n) @ r) =
      (if fl \<noteq> 0 then of_nat n OR 0x8000 else of_nat n)" .
  have "(if fl \<noteq> 0 then of_nat n OR 0x8000 else of_nat n :: u16) AND 0x7FFF = of_nat n AND 0x7FFF"
    by (simp add: bit.conj_disj_distrib2)
  moreover have "unat ((of_nat n :: u16) AND 0x7FFF) = n"
    using n assms(1) by (simp only: h(2) unat_and_mask) simp
  ultimately show "unat (dtls_read_uint16 (flight_word fl (of_nat n) @ r) AND 0x7FFF) = n"
    by (simp only: rd)
  have "(of_nat n OR 0x8000 :: u16) AND 0x8000 \<noteq> 0" by (simp add: bit.conj_disj_distrib2)
  moreover have "(of_nat n :: u16) AND 0x8000 = 0"
    using b and_single_bit_eq_0_iff [of 15 "of_nat n :: u16"] by simp
  ultimately show "(dtls_read_uint16 (flight_word fl (of_nat n) @ r) AND 0x8000 \<noteq> 0) = (fl \<noteq> 0)"
    unfolding rd by simp
qed

lemma take_put_at:
  "off \<le> length b \<Longrightarrow> take (off + length xs) (put_at off xs b) = take off b @ xs"
  by (simp add: put_at_def)

lemma reserve_entries:
  assumes e: "flight_entries c es" and r: "dtls_flight_reserve c n = (rc, c')"
    and n: "unat (flight_buffer_len c) \<le> unat n"
  shows "flight_entries c' es \<and> flight_buffer_len c' = flight_buffer_len c \<and>
    (rc = NOXTLS_RETURN_SUCCESS \<longrightarrow> (\<exists>b. flight_buffer c' = Some b \<and> unat n \<le> length b))"
proof -
  consider (fits) b where "flight_buffer c = Some b" "n \<le> flight_buffer_capacity c"
    | (full) s where "flight_buffer_storage c = Some s" "\<not> (flight_buffer c \<noteq> None \<and> n \<le> flight_buffer_capacity c)"
    | (grow) "flight_buffer_storage c = None" "\<not> (flight_buffer c \<noteq> None \<and> n \<le> flight_buffer_capacity c)"
    by (cases "flight_buffer_storage c"; cases "flight_buffer c") auto
  then show ?thesis
  proof cases
    case fits
    then have "c' = c" using r by (simp add: dtls_flight_reserve_def)
    then show ?thesis using e fits by (auto simp: flight_entries_def word_le_nat_alt)
  next
    case full
    then have "flight_buffer c \<noteq> None" "flight_buffer_storage_capacity c = flight_buffer_capacity c"
      using e by (simp_all add: flight_entries_def)
    then have F: "(flight_buffer c \<noteq> None \<and> n \<le> flight_buffer_capacity c) = False"
      "(flight_buffer_storage c \<noteq> None) = True" "(flight_buffer_storage_capacity c < n) = True"
      using full by (auto simp: not_le)
    have "c' = c \<and> rc = NOXTLS_RETURN_NOT_ENOUGH_MEMORY"
      using r unfolding dtls_flight_reserve_def F by simp
    then show ?thesis using e by simp
  next
    case grow
    have G: "(flight_buffer c \<noteq> None \<and> n \<le> flight_buffer_capacity c) = False"
      "(flight_buffer_storage c \<noteq> None) = False"
      using grow by auto
    show ?thesis
    proof (cases "n > 0xFFFFFFFF - 256")
      case True
      then have "(n > 0xFFFFFFFF - 256) = True" by simp
      then have "c' = c \<and> rc = NOXTLS_RETURN_NOT_ENOUGH_MEMORY"
        using r unfolding dtls_flight_reserve_def G by simp
      then show ?thesis using e by simp
    next
      case False
      define nc0 where "nc0 = (n + (256 - 1)) AND NOT (256 - 1)"
      define nc where "nc = (if nc0 < 1024 then 1024 else nc0)"
      define old where "old = (case flight_buffer c of None \<Rightarrow> [] | Some b \<Rightarrow> b)"
      obtain ok c1 where a: "ctx_alloc c = (ok, c1)" by fastforce
      have n32: "unat n \<le> 4294967039" using False by (simp add: word_less_nat_alt)
      have "nc0 = ((n + 255) AND NOT (mask 8)) OR (0 AND mask 8)"
        by (simp add: nc0_def mask_eq_exp_minus_1)
      then have "unat nc0 = unat (n + 255) div 256 * 256" by (simp only: unat_and_not_mask_or) simp
      moreover have "unat (n + 255) = unat n + 255" using n32 by (simp add: unat_word_ariths)
      ultimately have nc: "unat n \<le> unat nc" "nc \<le> 0xFFFFFF00"
        using n32 by (auto simp: nc_def word_less_nat_alt word_le_nat_alt)
      have lo: "length old \<le> unat nc"
        using e grow nc by (auto simp: old_def flight_entries_def word_le_nat_alt split: option.splits)
      have t: "take (unat (flight_buffer_len c)) old = concat (map entry_bytes es)"
        "unat (flight_buffer_len c) \<le> length old"
        using e by (auto simp: old_def flight_entries_def split: option.splits)
      obtain as where c1: "c1 = c\<lparr>alloc_results := as\<rparr>" using ctx_alloc_cases [OF a] by blast
      have "(rc, c') = (if \<not> ok then (NOXTLS_RETURN_NOT_ENOUGH_MEMORY, c1)
          else (NOXTLS_RETURN_SUCCESS,
                c1\<lparr>flight_buffer := Some (take (unat nc) (old @ replicate (unat nc - length old) 0)),
                   flight_buffer_capacity := nc\<rparr>))"
        using r False unfolding dtls_flight_reserve_def G Let_def nc0_def [symmetric]
          nc_def [symmetric] old_def [symmetric] a prod.case by simp
      then show ?thesis using e lo nc t grow(1) c1
        by (cases ok) (auto simp: flight_entries_def)
    qed
  qed
qed

lemma append_entries:
  assumes e: "flight_entries c es" and a: "dtls_flight_append c fl h b = (rc, c')"
    and fl: "fl \<in> {0, DTLS_FLIGHT_ENTRY_PROTECT}"
  shows "flight_entries c' (if rc = NOXTLS_RETURN_SUCCESS then es @ [(fl, h @ b)] else es)"
proof -
  define rl :: u32 where "rl = of_nat (length h + length b)"
  show ?thesis
  proof (cases "h = [] \<or> length h > 0x7FFF \<or> length b > 0x7FFF - length h \<or>
      rl > 0xFFFFFFFF - flight_buffer_len c - 2")
    case True
    then have "c' = c" "rc \<noteq> NOXTLS_RETURN_SUCCESS"
      using a by (auto simp: dtls_flight_append_def rl_def Let_def split: if_splits)
    then show ?thesis using e by simp
  next
    case False
    then have len: "length h + length b \<le> 0x7FFF" "h \<noteq> []" by linarith+
    then have url: "unat rl = length h + length b" by (simp add: rl_def unat_of_nat del: of_nat_add)
    obtain rc1 c1 where r: "dtls_flight_reserve c (flight_buffer_len c + 2 + rl) = (rc1, c1)"
      by fastforce
    have small: "unat (flight_buffer_len c) \<le> 0xFFFFFF00"
      using e by (cases "flight_buffer c") (auto simp: flight_entries_def word_le_nat_alt)
    have "rl \<le> 0xFFFFFFFF - flight_buffer_len c - 2" using False by (simp add: not_less)
    moreover have "unat (0xFFFFFFFF - flight_buffer_len c - 2) = 0xFFFFFFFF - unat (flight_buffer_len c) - 2"
      using small by (simp add: unat_sub_le word_le_nat_alt)
    ultimately have "unat rl \<le> 0xFFFFFFFF - unat (flight_buffer_len c) - 2"
      by (simp add: word_le_nat_alt)
    then have fit: "unat (flight_buffer_len c + 2 + rl) = unat (flight_buffer_len c) + 2 + unat rl"
      "unat (2 + rl) = 2 + unat rl"
      using small by (simp_all add: unat_word_ariths)
    have G: "(h = []) = False" "(length h > 0x7FFF \<or> length b > 0x7FFF - length h) = False"
      "(rl > 0xFFFFFFFF - flight_buffer_len c - 2) = False" using False by blast+
    note eq = a [unfolded dtls_flight_append_def Let_def rl_def [symmetric] G if_False r prod.case]
    have R: "flight_entries c1 es" "flight_buffer_len c1 = flight_buffer_len c"
      "rc1 = NOXTLS_RETURN_SUCCESS \<longrightarrow> (\<exists>b. flight_buffer c1 = Some b \<and>
         unat (flight_buffer_len c) + 2 + unat rl \<le> length b)"
      using reserve_entries [OF e r] fit by auto
    show ?thesis
    proof (cases "rc1 = NOXTLS_RETURN_SUCCESS")
      case False
      then have "c' = c1" "rc \<noteq> NOXTLS_RETURN_SUCCESS"
        using eq by auto
      then show ?thesis using R by simp
    next
      case True
      obtain buf where buf: "flight_buffer c1 = Some buf"
        "unat (flight_buffer_len c) + 2 + unat rl \<le> length buf" using R(3) True by auto
      let ?new = "put_at (unat (flight_buffer_len c)) (entry_bytes (fl, h @ b)) buf"
      have "rc = NOXTLS_RETURN_SUCCESS" "flight_buffer c' = Some ?new"
        "flight_buffer_len c' = flight_buffer_len c + 2 + rl"
        "flight_buffer_capacity c' = flight_buffer_capacity c1"
        "flight_buffer_storage c' = flight_buffer_storage c1"
        "flight_buffer_storage_capacity c' = flight_buffer_storage_capacity c1"
        using eq True buf R(2)
        by (auto simp: entry_bytes_def rl_def simp del: of_nat_add split: if_splits)
      moreover have "length ?new = length buf"
        using buf url by (intro length_put_at) simp
      moreover have "take (unat (flight_buffer_len c) + (2 + unat rl)) ?new =
          concat (map entry_bytes (es @ [(fl, h @ b)]))"
        using take_put_at [of "unat (flight_buffer_len c)" buf "entry_bytes (fl, h @ b)"] buf R(1,2) url
        by (simp add: flight_entries_def)
      moreover have "entry_ok (fl, h @ b)" using len fl by (auto simp: entry_ok_def)
      ultimately show ?thesis using R(1,2) fit buf url
        by (auto simp: flight_entries_def add.assoc)
    qed
  qed
qed

definition same_flight :: "dtls_context \<Rightarrow> dtls_context \<Rightarrow> bool" where
  "same_flight c d \<longleftrightarrow>
     flight_buffer d = flight_buffer c \<and> flight_buffer_len d = flight_buffer_len c \<and>
     flight_buffer_capacity d = flight_buffer_capacity c \<and>
     flight_buffer_storage d = flight_buffer_storage c \<and>
     flight_buffer_storage_capacity d = flight_buffer_storage_capacity c"

lemma same_flight_refl [simp]: "same_flight c c"
  by (simp add: same_flight_def)

lemma flight_entries_cong: "same_flight c d \<Longrightarrow> flight_entries d es = flight_entries c es"
  by (simp add: same_flight_def flight_entries_def)

lemma same_flight_tx: "noxtls_tls_record_tx_buffer c = (ok, c') \<Longrightarrow> same_flight c c'"
  by (auto simp: noxtls_tls_record_tx_buffer_def ctx_alloc_def same_flight_def Let_def case_prod_beta
      split: if_splits)

lemma same_flight_trans [trans]: "same_flight a b \<Longrightarrow> same_flight b c \<Longrightarrow> same_flight a c"
  by (simp add: same_flight_def)

lemma flight_entries_reset [simp]:
  "flight_entries c es \<Longrightarrow> flight_entries (noxtls_dtls_flight_reset c) []"
  by (auto simp: flight_entries_def noxtls_dtls_flight_reset_def dtls_flight_clear_def)

lemma flight_entries_begin:
  "flight_entries c es \<Longrightarrow> \<exists>es'. set es' \<subseteq> set es \<and> flight_entries (dtls_flight_begin_if_answered c) es'"
  by (cases "flight_peer_next c = 0")
    (auto simp: dtls_flight_begin_if_answered_def intro: exI [of _ es] exI [of _ "[]"])

lemma same_flight_note_seq [simp]: "same_flight c (dtls_flight_note_handshake_seq d sq) = same_flight c d"
  by (simp add: same_flight_def dtls_flight_note_handshake_seq_def Let_def)

lemma same_flight_final [simp]: "same_flight c (d\<lparr>flight_final := x\<rparr>) = same_flight c d"
  by (simp add: same_flight_def)

lemma same_flight_stamp [simp]: "same_flight c (stamp_flight_time d) = same_flight c d"
  by (cases "time_callback d") (simp_all add: same_flight_def stamp_flight_time_def)

lemma same_flight_send: "ctx_send d c = (sent, c') \<Longrightarrow> same_flight c c'"
  by (auto simp: ctx_send_def same_flight_def Let_def split: option.splits list.splits)

lemma same_flight_alloc: "ctx_alloc c = (ok, c') \<Longrightarrow> same_flight c c'"
  by (auto simp: ctx_alloc_def same_flight_def Let_def case_prod_beta)

text \<open>Keeping a record adds at most that record to the buffer.\<close>

lemma keep_entries:
  assumes e: "flight_entries c es" and k: "send_record_keep c t rec dat = (rc, c')"
  shows "\<exists>es'. flight_entries c' es' \<and> set es' \<subseteq> insert (0, rec) (set es) \<and>
    (rc \<noteq> NOXTLS_RETURN_SUCCESS \<longrightarrow> set es' \<subseteq> set es)"
proof -
  obtain es1 where e1: "flight_entries (dtls_flight_begin_if_answered c) es1" "set es1 \<subseteq> set es"
    using flight_entries_begin [OF e] by auto
  obtain rc1 c1 where a: "dtls_flight_append (dtls_flight_begin_if_answered c) 0 rec [] = (rc1, c1)" by fastforce
  have e2: "flight_entries c1 (if rc1 = NOXTLS_RETURN_SUCCESS then es1 @ [(0, rec)] else es1)"
    by (rule append_entries [OF e1(1) a, unfolded append_Nil2]) simp
  have "c' = c \<and> rc = NOXTLS_RETURN_SUCCESS \<or> same_flight c1 c' \<and> rc = rc1"
  proof (cases "t = TLS_RECORD_HANDSHAKE \<or> t = TLS_RECORD_CHANGE_CIPHER_SPEC \<and> dtls_is_v12_record_layer (version c)")
    case False
    then show ?thesis using k unfolding send_record_keep_def Let_def by auto
  next
    case True
    have "same_flight c1 (snd (send_record_keep c t rec dat)) \<and> fst (send_record_keep c t rec dat) = rc1"
      unfolding send_record_keep_def Let_def a prod.case using True by simp
    then show ?thesis using k by simp
  qed
  then show ?thesis using e e1 e2 flight_entries_cong [of c1 c'] by (fastforce split: if_splits)
qed

text \<open>The buffer stays a list of entries, with entries of \<open>new\<close> added at most.\<close>

definition keeps_entries :: "flight_entry set \<Rightarrow> dtls_context \<Rightarrow> dtls_context \<Rightarrow> bool" where
  "keeps_entries new c c' \<longleftrightarrow>
     (\<forall>es. flight_entries c es \<longrightarrow> (\<exists>es'. flight_entries c' es' \<and> set es' \<subseteq> new \<union> set es))"

lemma keeps_entries_flight: "same_flight c c' \<Longrightarrow> keeps_entries {} c c'"
  using flight_entries_cong unfolding keeps_entries_def by fastforce

lemma keeps_entries_trans:
  assumes "keeps_entries A a b" "keeps_entries B b c"
  shows "keeps_entries (A \<union> B) a c"
  unfolding keeps_entries_def
proof (intro allI impI)
  fix es assume "flight_entries a es"
  then obtain es1 where 1: "flight_entries b es1" "set es1 \<subseteq> A \<union> set es"
    using assms(1) unfolding keeps_entries_def by blast
  obtain es2 where 2: "flight_entries c es2" "set es2 \<subseteq> B \<union> set es1"
    using assms(2) 1(1) unfolding keeps_entries_def by blast
  have "set es2 \<subseteq> A \<union> B \<union> set es" using 1(2) 2(2) by blast
  then show "\<exists>es'. flight_entries c es' \<and> set es' \<subseteq> A \<union> B \<union> set es" using 2(1) by blast
qed

lemma keeps_entries_mono:
  assumes "keeps_entries A a b" "A \<subseteq> B"
  shows "keeps_entries B a b"
  unfolding keeps_entries_def
proof (intro allI impI)
  fix es assume "flight_entries a es"
  then obtain es1 where "flight_entries b es1" "set es1 \<subseteq> A \<union> set es"
    using assms(1) unfolding keeps_entries_def by blast
  moreover from this have "set es1 \<subseteq> B \<union> set es" using assms(2) by blast
  ultimately show "\<exists>es'. flight_entries b es' \<and> set es' \<subseteq> B \<union> set es" by blast
qed

lemma send_record_keep_entries:
  "send_record_keep c t rec dat = (rc, c') \<Longrightarrow>
   keeps_entries (if rc = NOXTLS_RETURN_SUCCESS then {(0, rec)} else {}) c c'"
  using keep_entries unfolding keeps_entries_def by fastforce

lemma append_keeps_entries:
  assumes "dtls_flight_append (dtls_flight_begin_if_answered c) fl h b = (rc, c')" "fl \<in> {0, DTLS_FLIGHT_ENTRY_PROTECT}"
  shows "keeps_entries {(fl, h @ b)} c c'"
  unfolding keeps_entries_def
proof (intro allI impI)
  fix es assume "flight_entries c es"
  then obtain es1 where e1: "flight_entries (dtls_flight_begin_if_answered c) es1" "set es1 \<subseteq> set es"
    using flight_entries_begin by blast
  show "\<exists>es'. flight_entries c' es' \<and> set es' \<subseteq> {(fl, h @ b)} \<union> set es"
    using append_entries [OF e1(1) assms] e1(2) by (intro exI conjI) (auto split: if_splits)
qed

section \<open>Emissions\<close>

text \<open>
  The transport is called once, with \<open>d\<close>; the number counter advances and the bytes are counted
  whatever the answer.
\<close>

definition emits :: "dtls_context \<Rightarrow> bytes \<Rightarrow> dtls_context \<Rightarrow> bool" where
  "emits c d c' \<longleftrightarrow>
     role c' = role c \<and> version c' = version c \<and> epoch c' = epoch c \<and>
     write_seq_num c' = write_seq_num c + 1 \<and> prev_write_seq_num c' = prev_write_seq_num c \<and>
     validated c' = validated c \<and> anti_amp_factor c' = anti_amp_factor c \<and>
     bytes_received c' = bytes_received c \<and> bytes_sent c' = bytes_sent c + of_nat (length d) \<and>
     send_log c' = send_log c @ [d]"

lemma same_wire_emits: "same_wire a b \<Longrightarrow> emits b d c \<Longrightarrow> emits a d c"
  by (simp add: same_wire_def emits_def)

lemma emits_same_wire: "emits a d b \<Longrightarrow> same_wire b c \<Longrightarrow> emits a d c"
  by (simp add: same_wire_def emits_def)

lemma ctx_send_emits:
  "ctx_send d c = (sent, c1) \<Longrightarrow>
   emits c d (c1\<lparr>write_seq_num := write_seq_num c1 + 1,
                bytes_sent := bytes_sent c1 + of_nat (length d)\<rparr>)"
  by (auto simp: ctx_send_def emits_def Let_def split: option.splits list.splits)

text \<open>What goes out is a record under the current number, within the limits.\<close>

lemma send_record_effect:
  assumes "noxtls_dtls_send_record (Some c) t dat = (rc, ctx')"
  obtains (quiet) c' where "ctx' = Some c'" "same_wire c c'" "rc \<noteq> NOXTLS_RETURN_SUCCESS"
      "keeps_entries {} c c'"
  | (emitted) c' v where "ctx' = Some c'"
      "emits c (record_header t v (epoch c) (write_seq_num c) (of_nat (length dat)) @ dat) c'"
      "keeps_entries {(0, record_header t v (epoch c) (write_seq_num c) (of_nat (length dat)) @ dat)} c c'"
      "length dat \<le> 16384" "dtls_anti_amp_allows c (13 + of_nat (length dat))"
      "dtls_is_v12_record_layer (version c) \<Longrightarrow> write_seq_num c < DTLS_SEQ_NUM_MASK"
proof -
  obtain tx c1 where tx: "noxtls_tls_record_tx_buffer c = (tx, c1)" by fastforce
  obtain ok c2 where al: "(if tx then (True, c1) else ctx_alloc c1) = (ok, c2)" by fastforce
  define v where "v = (if version c2 = DTLS_VERSION_1_3 then DTLS_1_3_LEGACY_RECORD_VERSION else version c2)"
  define rec where "rec = record_header t v (epoch c2) (write_seq_num c2) (of_nat (length dat)) @ dat"
  obtain rc3 c3 where k: "send_record_keep c2 t rec dat = (rc3, c3)" by fastforce
  obtain sent c4 where s: "ctx_send rec c3 = (sent, c4)" by fastforce
  have w2: "same_wire c c2"
    using same_wire_tx_buffer [OF tx] al same_wire_trans [OF _ same_wire_ctx_alloc, of c c1 ok c2]
    by (auto split: if_splits)
  have w3: "same_wire c c3" using w2 same_wire_keep [OF k] by (rule same_wire_trans)
  have f2: "same_flight c c2"
    using same_flight_tx [OF tx] al same_flight_trans [OF _ same_flight_alloc, of c c1 ok c2]
    by (auto split: if_splits)
  have k3: "keeps_entries (if rc3 = NOXTLS_RETURN_SUCCESS then {(0, rec)} else {}) c c3"
    using keeps_entries_trans [OF keeps_entries_flight [OF f2] send_record_keep_entries [OF k]] by simp
  have rec: "rec = record_header t v (epoch c) (write_seq_num c) (of_nat (length dat)) @ dat"
    using w2 by (simp add: rec_def same_wire_def)
  have len: "length rec = 13 + length dat" by (simp add: rec_def record_header_def)
  note unf = noxtls_dtls_send_record_def option.case Let_def tx al prod.case v_def [symmetric]
    rec_def [symmetric] k s
  show thesis
  proof (cases "length dat \<le> 16384 \<and> send_callback c \<noteq> None \<and>
      \<not> (dtls_is_v12_record_layer (version c) \<and> write_seq_num c \<ge> DTLS_SEQ_NUM_MASK) \<and>
      dtls_anti_amp_allows c (13 + of_nat (length dat))")
    case False
    then have "ctx' = Some c" "rc \<noteq> NOXTLS_RETURN_SUCCESS"
      using assms unfolding noxtls_dtls_send_record_def option.case by (auto split: if_splits)
    then show thesis by - (rule that(1) [of c], simp_all add: keeps_entries_flight)
  next
    case True
    show thesis
    proof (cases "ok \<and> rc3 = NOXTLS_RETURN_SUCCESS")
      case False
      then have "ctx' = Some c2 \<or> ctx' = Some c3 \<and> rc3 \<noteq> NOXTLS_RETURN_SUCCESS" "rc \<noteq> NOXTLS_RETURN_SUCCESS"
        using assms True unfolding unf by (auto split: if_splits)
      then show thesis using that(1) w2 w3 f2 k3 keeps_entries_flight by auto
    next
      case k2: True
      define c5 where "c5 = c4\<lparr>write_seq_num := write_seq_num c4 + 1,
        bytes_sent := bytes_sent c4 + of_nat (length rec)\<rparr>"
      have e5: "emits c rec c5"
        using same_wire_emits [OF w3 ctx_send_emits [OF s]] by (simp add: c5_def)
      have rl: "(ucast (13 + of_nat (length dat) :: u32) :: u64) = of_nat (length rec)"
        using True len by (simp add: ucast_nat_small)
      have "ctx' = Some c5 \<or> ctx' = Some (stamp_flight_time c5)"
        using assms True k2 unfolding unf c5_def rl [symmetric] by (auto split: if_splits)
      moreover have "emits c rec (stamp_flight_time c5)"
        using e5 by (rule emits_same_wire) simp
      moreover have f5: "same_flight c3 c5"
        using same_flight_send [OF s] by (simp add: c5_def same_flight_def)
      ultimately obtain c' where "ctx' = Some c'" "emits c rec c'" "same_flight c3 c'"
        using e5 by auto
      moreover from this have "keeps_entries {(0, rec)} c c'"
        using keeps_entries_trans [OF k3 keeps_entries_flight] k2 by simp
      ultimately show thesis using that(2) [of c' v] True rec by auto
    qed
  qed
qed

lemma send_protected_effect:
  assumes "noxtls_dtls_send_protected_record protect (Some c) t dat = (rc, ctx')"
  obtains (quiet) c' where "ctx' = Some c'" "same_wire c c'" "rc \<noteq> NOXTLS_RETURN_SUCCESS"
      "keeps_entries {(DTLS_FLIGHT_ENTRY_PROTECT, plain) |plain. True} c c'"
  | (emitted) c' c1 seal out where "ctx' = Some c'" "protect = Some seal" "same_wire c c1"
      "seal c1 t dat = (NOXTLS_RETURN_SUCCESS, out)"
      "emits c (record_header t (version c) (epoch c) (write_seq_num c) (of_nat (length out)) @ out) c'"
      "length out \<le> 18432" "dtls_anti_amp_allows c (13 + of_nat (length out))"
      "write_seq_num c < DTLS_SEQ_NUM_MASK"
      "keeps_entries {(DTLS_FLIGHT_ENTRY_PROTECT, plain) |plain. True} c c'"
proof (cases protect)
  case None
  have "keeps_entries {(DTLS_FLIGHT_ENTRY_PROTECT, plain) |plain. True} c c"
    by (rule keeps_entries_mono [OF keeps_entries_flight]) auto
  then show thesis using assms that(1) [of c] None by (simp add: noxtls_dtls_send_protected_record_def)
next
  case (Some seal)
  obtain tx c1 where tx: "noxtls_tls_record_tx_buffer c = (tx, c1)" by fastforce
  obtain rc2 out where sl: "seal c1 t dat = (rc2, out)" by fastforce
  define rec where "rec = record_header t (version c1) (epoch c1) (write_seq_num c1) (of_nat (length out)) @ out"
  define plain where "plain = record_header t (version c1) (epoch c1) (write_seq_num c1) (of_nat (length dat))"
  obtain rc3 c3 where k: "(if t = TLS_RECORD_HANDSHAKE \<or> t = TLS_RECORD_CHANGE_CIPHER_SPEC
      then dtls_flight_append (dtls_flight_begin_if_answered c1) DTLS_FLIGHT_ENTRY_PROTECT plain dat
      else (NOXTLS_RETURN_SUCCESS, c1)) = (rc3, c3)" by fastforce
  obtain sent c4 where s: "ctx_send rec c3 = (sent, c4)" by fastforce
  have w1: "same_wire c c1" by (rule same_wire_tx_buffer [OF tx])
  have w3: "same_wire c c3"
    using k w1 same_wire_append [of "dtls_flight_begin_if_answered c1"]
      same_wire_trans [of c "dtls_flight_begin_if_answered c1" c3] by (auto split: if_splits)
  have rec: "rec = record_header t (version c) (epoch c) (write_seq_num c) (of_nat (length out)) @ out"
    using w1 by (simp add: rec_def same_wire_def)
  have len: "length rec = 13 + length out" by (simp add: rec_def record_header_def)
  let ?E = "{(DTLS_FLIGHT_ENTRY_PROTECT, plain) |plain. True} :: flight_entry set"
  have k1: "keeps_entries ?E c c" "keeps_entries ?E c c1"
    using same_flight_tx [OF tx] by (auto intro: keeps_entries_mono [OF keeps_entries_flight])
  have "keeps_entries ?E c1 c3"
  proof (cases "t = TLS_RECORD_HANDSHAKE \<or> t = TLS_RECORD_CHANGE_CIPHER_SPEC")
    case True
    then have "dtls_flight_append (dtls_flight_begin_if_answered c1) DTLS_FLIGHT_ENTRY_PROTECT plain dat = (rc3, c3)"
      using k by simp
    then show ?thesis by (rule keeps_entries_mono [OF append_keeps_entries]) auto
  next
    case False
    then have "c3 = c1" using k by simp
    then show ?thesis by (auto intro: keeps_entries_mono [OF keeps_entries_flight])
  qed
  then have k3: "keeps_entries ?E c c3"
    by (rule keeps_entries_mono [OF keeps_entries_trans [OF k1(2)]]) simp
  have am: "dtls_anti_amp_allows c1 = dtls_anti_amp_allows c"
    using w1 by (simp add: fun_eq_iff dtls_anti_amp_allows_def same_wire_def)
  note unf = noxtls_dtls_send_protected_record_def option.case Let_def tx prod.case sl rec_def [symmetric]
    plain_def [symmetric] k s Some am
  show thesis
  proof (cases "send_callback c \<noteq> None \<and> tx \<and> length dat \<le> 16384 \<and> write_seq_num c1 < DTLS_SEQ_NUM_MASK \<and>
      rc2 = NOXTLS_RETURN_SUCCESS \<and> length out \<le> 18432 \<and> dtls_anti_amp_allows c (13 + of_nat (length out))")
    case False
    then have "(ctx' = Some c \<or> ctx' = Some c1) \<and> rc \<noteq> NOXTLS_RETURN_SUCCESS"
      using assms unfolding unf by (auto split: if_splits)
    then show thesis
      using that(1) [OF _ same_wire_refl _ k1(1)] that(1) [OF _ w1 _ k1(2)] by blast
  next
    case True
    show thesis
    proof (cases "rc3 = NOXTLS_RETURN_SUCCESS")
      case False
      then have "ctx' = Some c3" "rc \<noteq> NOXTLS_RETURN_SUCCESS"
        using assms True unfolding unf by (auto simp: linorder_not_le [symmetric])
      then show thesis using that(1) w3 k3 by blast
    next
      case k2: True
      define c5 where "c5 = c4\<lparr>write_seq_num := write_seq_num c4 + 1,
        bytes_sent := bytes_sent c4 + of_nat (length rec)\<rparr>"
      have e5: "emits c rec c5"
        using same_wire_emits [OF w3 ctx_send_emits [OF s]] by (simp add: c5_def)
      have rl: "(ucast (13 + of_nat (length out) :: u32) :: u64) = of_nat (length rec)"
        using True len by (simp add: ucast_nat_small)
      have "ctx' = Some c5 \<or> ctx' = Some (stamp_flight_time c5)"
        using assms True k2 unfolding unf c5_def rl [symmetric]
        by (auto simp: linorder_not_le [symmetric] split: if_splits)
      moreover have "emits c rec (stamp_flight_time c5)"
        using e5 by (rule emits_same_wire) simp
      moreover have f5: "same_flight c3 c5"
        using same_flight_send [OF s] by (simp add: c5_def same_flight_def)
      ultimately obtain c' where "ctx' = Some c'" "emits c rec c'" "same_flight c3 c'"
        using e5 by auto
      moreover from this have "keeps_entries ?E c c'"
        using keeps_entries_trans [OF k3 keeps_entries_flight] by auto
      moreover have "write_seq_num c < DTLS_SEQ_NUM_MASK" using True w1 by (simp add: same_wire_def)
      ultimately show thesis using that(2) [of c' seal c1 out] True rec w1 sl Some by auto
    qed
  qed
qed

end
