(* ===== verification/Dtls_Init.thy ===== *)
theory Dtls_Init
  imports Dtls_Flight Dtls_Reassembly
begin

text \<open>
  Setting a context up (\<open>noxtls_dtls_context_init\<close> of \<open>tls/noxtls_dtls_common.c\<close> with
  \<open>noxtls_tls_context_init\<close>).
\<close>

text \<open>
  The zeroed structure. The environment of the model (the coming allocations, the transport's
  log) is not part of it and is kept.
\<close>

definition zero_context :: "bool list \<Rightarrow> bytes list \<Rightarrow> dtls_context" where
  "zero_context allocs log =
     \<lparr>role = TLS_ROLE_CLIENT, version = 0, epoch = 0, read_epoch = 0, read_seq_num = 0,
      write_seq_num = 0, prev_write_seq_num = 0, mtu = 0, max_fragment = 0, anti_amp_factor = 0,
      bytes_received = 0, bytes_sent = 0, validated = 0,
      replay_window = \<lparr>window_bitmap = 0, last_seq = 0\<rparr>,
      replay_windows = replicate 4 \<lparr>window_bitmap = 0, last_seq = 0\<rparr>,
      highest_recv_seq = replicate 4 0, highest_recv_seq_valid = replicate 4 0,
      handshake_buffer = None, handshake_buffer_len = 0, handshake_buffer_capacity = 0,
      expected_message_seq = 0, expected_fragment_offset = 0, handshake_received = None,
      handshake_received_len = 0, handshake_received_count = 0,
      reassembly_queue = replicate 4 zero_slot,
      flight_final = 0, flight_peer_next = 0, flight_buffer = None, flight_buffer_len = 0,
      flight_buffer_capacity = 0, flight_buffer_storage = None, flight_buffer_storage_capacity = 0,
      retransmit_max_attempts = 0, retransmit_count = 0, retransmit_progress_seq = 0,
      peer_flight_start_seq = 0, flight_epoch = 0, flight_min_seq = 0, flight_max_seq = 0,
      flight_has_range = 0, last_flight_sent_ms = 0,
      ack_epoch = 0, ack_seq = 0, ack_pending = 0, ack_range_min = 0, ack_range_max = 0,
      ack_range_valid = 0, ack_range_capacity = 0, ack_range_limit = 0, ack_ranges = None,
      last_ack_epoch = 0, last_ack_range_min = 0, last_ack_range_max = 0, last_ack_ranges = None,
      last_ack_valid = 0,
      retransmit_timeout_ms = 0, retransmit_base_timeout_ms = 0, retransmit_backoff_ms = 0,
      smoothed_rtt_ms = 0, rttvar_ms = 0, rtt_estimator_valid = 0,
      tls_state = TLS_STATE_INIT, connection_epoch = 0, read_connection_epoch = 0,
      send_message_seq = 0, last_rx_message_seq = 0, own_connection_id_len = 0, rx_datagram = None,
      cookie_secret = replicate 32 0, cookie_secret_valid = 0, peer_identity = replicate 32 0,
      peer_identity_len = 0, cookie = replicate 32 0, cookie_len = 0,
      cookie_identity = replicate 32 0, cookie_identity_len = 0,
      alloc_results = allocs, record_send_buf = False, send_callback = None,
      send_log = log, recv_callback = None, time_callback = None\<rparr>"

text \<open>
  The role may be compiled out (\<open>role_built\<close>); \<open>entropy\<close> is what
  \<open>noxtls_drbg_get_entropy\<close> fills the cookie secret with, \<open>None\<close> when it fails.
\<close>

definition noxtls_dtls_context_init ::
  "bool \<Rightarrow> bytes option \<Rightarrow> dtls_context option \<Rightarrow> tls_role_t \<Rightarrow> u16 \<Rightarrow> noxtls_return_t \<times> dtls_context option" where
  "noxtls_dtls_context_init role_built entropy ctx r v =
     (case ctx of
        None \<Rightarrow> (NOXTLS_RETURN_NULL, None)
      | Some env \<Rightarrow>
          if \<not> role_built then (NOXTLS_RETURN_NOT_SUPPORTED, Some (zero_context (alloc_results env) (send_log env)))
          else
            let c = (zero_context (alloc_results env) (send_log env))
                  \<lparr>role := r, version := v, mtu := 1500,
                   max_fragment := dtls_compute_max_fragment_for_version 1500 v,
                   anti_amp_factor := 3, retransmit_max_attempts := 4,
                   ack_range_limit := DTLS_MAX_ACK_RANGES,
                   retransmit_timeout_ms := 1000, retransmit_base_timeout_ms := 1000,
                   retransmit_backoff_ms := 2000\<rparr>
            in (case entropy of
                  None \<Rightarrow> (NOXTLS_RETURN_FAILED, Some (c\<lparr>role := TLS_ROLE_CLIENT, version := 0\<rparr>))
                | Some secret \<Rightarrow>
                    (NOXTLS_RETURN_SUCCESS, Some (c\<lparr>cookie_secret := secret, cookie_secret_valid := 1\<rparr>))))"

text \<open>A fresh endpoint whose transport takes everything, used by the examples.\<close>

definition fresh_endpoint :: "tls_role_t \<Rightarrow> u16 \<Rightarrow> dtls_context" where
  "fresh_endpoint r v =
     (the (snd (noxtls_dtls_context_init True (Some (replicate 32 7)) (Some (zero_context [] [])) r v)))
       \<lparr>send_callback := Some []\<rparr>"

lemma length_record_header [simp]: "length (record_header t v ep sq len) = 13"
  by (simp add: record_header_def)

lemmas endpoint_defs =
  fresh_endpoint_def noxtls_dtls_context_init_def zero_context_def noxtls_tls_record_tx_buffer_def
  ctx_alloc_def alloc_next.simps ctx_send_def dtls_anti_amp_allows_def dtls_is_v12_record_layer_def
  dtls_compute_max_fragment_for_version_def

end
