(* ===== verification/Dtls_Numbers.thy ===== *)
theory Dtls_Numbers
  imports Dtls_Wire Dtls_Init
begin

text \<open>
  Record numbers under the DTLS 1.2 record layer, over arbitrary runs of sends, epoch switches
  and retransmissions: a number that went out once is never put on a different record, so a
  protected record's nonce is never used for two plaintexts; and the bytes sent to an
  unvalidated peer stay within the amplification limit.
\<close>

section \<open>Resending one record\<close>

text \<open>
  The transport was called with \<open>d\<close>; the counters became those of \<open>b\<close>, and the bytes counted are
  what the transport reported.
\<close>

definition transmits :: "dtls_context \<Rightarrow> bytes \<Rightarrow> dtls_context \<Rightarrow> dtls_context \<Rightarrow> bool" where
  "transmits c d b c' \<longleftrightarrow>
     role c' = role c \<and> version c' = version c \<and> epoch c' = epoch c \<and>
     write_seq_num c' = write_seq_num b \<and> prev_write_seq_num c' = prev_write_seq_num b \<and>
     validated c' = validated c \<and> anti_amp_factor c' = anti_amp_factor c \<and>
     bytes_received c' = bytes_received c \<and> send_log c' = send_log c @ [d] \<and>
     bytes_sent c' = bytes_sent c + (if fst (ctx_send d c) < 0 then 0
                                     else ucast (word_of_int (fst (ctx_send d c)) :: u32))"

lemma bump_frame [simp]:
  "role (bump_counter c ep) = role c" "version (bump_counter c ep) = version c"
  "epoch (bump_counter c ep) = epoch c" "validated (bump_counter c ep) = validated c"
  "anti_amp_factor (bump_counter c ep) = anti_amp_factor c"
  "bytes_received (bump_counter c ep) = bytes_received c"
  "bytes_sent (bump_counter c ep) = bytes_sent c" "send_log (bump_counter c ep) = send_log c"
  "send_callback (bump_counter c ep) = send_callback c" "same_flight c (bump_counter c ep)"
  "flight_buffer (bump_counter c ep) = flight_buffer c"
  "flight_buffer_len (bump_counter c ep) = flight_buffer_len c"
  "flight_buffer_capacity (bump_counter c ep) = flight_buffer_capacity c"
  "flight_buffer_storage (bump_counter c ep) = flight_buffer_storage c"
  "flight_buffer_storage_capacity (bump_counter c ep) = flight_buffer_storage_capacity c"
  by (simp_all add: bump_counter_def same_flight_def)

lemma send_count:
  assumes "ctx_send d b = (sent, c1)" "count_sent c1 sent = (rc, c')" "same_wire c b'"
    "b = bump_counter b' ep \<or> b = b'"
  shows "transmits c d b c'" "same_flight b c'" "rc \<noteq> NOXTLS_RETURN_NOT_SUPPORTED"
proof -
  have cb: "send_callback b = send_callback c" "send_log b = send_log c" "bytes_sent b = bytes_sent c"
    "role b = role c" "version b = version c" "epoch b = epoch c" "validated b = validated c"
    "anti_amp_factor b = anti_amp_factor c" "bytes_received b = bytes_received c"
    using assms(3,4) by (auto simp: same_wire_def)
  have f: "fst (ctx_send d b) = fst (ctx_send d c)"
    by (simp add: ctx_send_def Let_def cb split: option.split list.split)
  then have s: "fst (ctx_send d c) = sent" using assms(1) by simp
  have c1: "c1 = (let e = b\<lparr>send_log := send_log b @ [d]\<rparr> in
      case send_callback b of Some (r # rs) \<Rightarrow> e\<lparr>send_callback := Some rs\<rparr> | _ \<Rightarrow> e)"
    using assms(1) by (auto simp: ctx_send_def Let_def split: option.splits list.splits)
  show "transmits c d b c'"
    using assms(2) s cb unfolding c1 count_sent_def Let_def transmits_def
    by (auto split: option.splits list.splits if_splits)
  show "same_flight b c'" "rc \<noteq> NOXTLS_RETURN_NOT_SUPPORTED"
    using assms(2) unfolding c1 count_sent_def Let_def same_flight_def
    by (auto split: option.splits list.splits if_splits)
qed

lemma resend_sealed_effect:
  assumes "resend_sealed protect c sq rec = (rc, c', rec')"
  obtains (quiet) "same_wire c c'" "same_flight c c'" "rec' = rec" "rc \<noteq> NOXTLS_RETURN_SUCCESS"
  | (sealed) c1 out where "same_wire c c1" "rec' = rec" "same_flight c c'"
      "dtls_read_uint16 (drop 3 rec) = epoch c" "length out \<le> 0xFFFF"
      "transmits c (put_at 11 (dtls_write_uint16 (of_nat (length out)))
                     (put_at 5 (dtls_write_uint48 sq) (take 13 rec)) @ out)
         (bump_counter c1 (epoch c)) c'"
proof -
  obtain tx c1 where tx: "noxtls_tls_record_tx_buffer c = (tx, c1)" by fastforce
  have w1: "same_wire c c1" "same_flight c c1" by (rule same_wire_tx_buffer [OF tx], rule same_flight_tx [OF tx])
  show thesis
  proof (cases "dtls_read_uint16 (drop 3 rec) = epoch c1 \<and> tx")
    case False
    then have "c' = c1 \<and> rec' = rec \<and> rc \<noteq> NOXTLS_RETURN_SUCCESS"
      using assms unfolding resend_sealed_def Let_def tx prod.case
      by (auto split: if_splits option.splits)
    then show thesis using that(1) w1 by simp
  next
    case True
    show thesis
    proof (cases protect)
      case None
      then have "c' = c1 \<and> rec' = rec \<and> rc \<noteq> NOXTLS_RETURN_SUCCESS"
        using assms True unfolding resend_sealed_def Let_def tx prod.case by auto
      then show thesis using that(1) w1 by simp
    next
      case (Some seal)
      obtain rc2 out where sl: "seal c1 (rec ! 0) (drop 13 rec) = (rc2, out)" by fastforce
      define wire where "wire = put_at 11 (dtls_write_uint16 (of_nat (length out)))
                     (put_at 5 (dtls_write_uint48 sq) (take 13 rec)) @ out"
      obtain sent c2 where s: "ctx_send wire (bump_counter c1 (epoch c1)) = (sent, c2)" by fastforce
      obtain rc3 c3 where k: "count_sent c2 sent = (rc3, c3)" by fastforce
      have ep: "dtls_read_uint16 (drop 3 rec) = epoch c" using True w1 by (simp add: same_wire_def)
      have ep1: "dtls_read_uint16 (drop 3 rec) = epoch c1" using True by simp
      have eq: "(rc, c', rec') =
          (if rc2 \<noteq> NOXTLS_RETURN_SUCCESS \<or> length out > 0xFFFF then (NOXTLS_RETURN_FAILED, c1, rec)
           else (rc3, c3, rec))"
        using assms [unfolded resend_sealed_def Let_def tx prod.case Some option.case sl ep1
            wire_def [symmetric] s k] True by (auto split: if_splits)
      show thesis
      proof (cases "rc2 \<noteq> NOXTLS_RETURN_SUCCESS \<or> length out > 0xFFFF")
        case True
        then show thesis using eq that(1) w1 by auto
      next
        case False
        have "transmits c wire (bump_counter c1 (epoch c1)) c3"
          "same_flight (bump_counter c1 (epoch c1)) c3"
          using send_count [OF s k w1(1)] by blast+
        moreover have "epoch c1 = epoch c" using w1 by (simp add: same_wire_def)
        ultimately show thesis using that(2) [of c1 out] eq False w1 ep
          by (auto simp: wire_def same_flight_def)
      qed
    qed
  qed
qed

text \<open>What a resend puts on the wire: nothing, or the record unchanged, renumbered or sealed again.\<close>

lemma resend_effect:
  assumes "dtls12_flight_resend_record protect c fl rec = (rc, c', rec')"
  obtains (quiet) "same_wire c c'" "same_flight c c'" "rec' = rec" "rc \<noteq> NOXTLS_RETURN_SUCCESS"
  | (verbatim) "fl AND DTLS_FLIGHT_ENTRY_PROTECT = 0" "dtls_read_uint16 (drop 3 rec) \<noteq> 0"
      "13 \<le> length rec" "rec' = rec" "same_flight c c'" "transmits c rec c c'"
      "dtls_anti_amp_allows c (of_nat (length rec))"
  | (renumbered) sq where "fl AND DTLS_FLIGHT_ENTRY_PROTECT = 0" "dtls_read_uint16 (drop 3 rec) = 0"
      "13 \<le> length rec" "seq_counter c 0 = Some sq" "sq < DTLS_SEQ_NUM_MASK"
      "rec' = put_at 5 (dtls_write_uint48 sq) rec" "same_flight c c'"
      "transmits c rec' (bump_counter c 0) c'" "dtls_anti_amp_allows c (of_nat (length rec))"
  | (sealed) c1 out where "fl AND DTLS_FLIGHT_ENTRY_PROTECT \<noteq> 0" "13 \<le> length rec" "same_wire c c1"
      "rec' = rec" "same_flight c c'" "dtls_read_uint16 (drop 3 rec) = epoch c" "length out \<le> 0xFFFF"
      "write_seq_num c < DTLS_SEQ_NUM_MASK"
      "transmits c (put_at 11 (dtls_write_uint16 (of_nat (length out)))
                     (put_at 5 (dtls_write_uint48 (write_seq_num c)) (take 13 rec)) @ out)
         (bump_counter c1 (epoch c)) c'" "dtls_anti_amp_allows c (of_nat (length rec))"
proof (cases "length rec < 13 \<or> \<not> dtls_anti_amp_allows c (of_nat (length rec))")
  case True
  then have "c' = c \<and> rec' = rec \<and> rc \<noteq> NOXTLS_RETURN_SUCCESS"
    using assms by (auto simp: dtls12_flight_resend_record_def split: if_splits)
  then show thesis using that(1) by simp
next
  case False
  let ?ep = "dtls_read_uint16 (drop 3 rec)"
  have F: "(length rec < unat DTLS_RECORD_HEADER_SIZE) = False"
    "dtls_anti_amp_allows c (of_nat (length rec)) = True" using False by simp_all
  note eq = assms [unfolded dtls12_flight_resend_record_def Let_def F if_False not_True_eq_False]
  show thesis
  proof (cases "fl AND DTLS_FLIGHT_ENTRY_PROTECT = 0 \<and> ?ep \<noteq> DTLS_EPOCH_UNENCRYPTED")
    case True
    obtain sent c1 where s: "ctx_send rec c = (sent, c1)" by fastforce
    obtain rc2 c2 where k: "count_sent c1 sent = (rc2, c2)" by fastforce
    have "rc = rc2 \<and> c' = c2 \<and> rec' = rec" using eq True s k by simp
    then show thesis using that(2) send_count [OF s k, of c c] True F by auto
  next
    case np: False
    show thesis
    proof (cases "seq_counter c ?ep")
      case None
      then have "c' = c \<and> rec' = rec \<and> rc \<noteq> NOXTLS_RETURN_SUCCESS" using eq np by auto
      then show thesis using that(1) by simp
    next
      case (Some sq)
      note eq2 = eq [unfolded Some option.case]
      show thesis
      proof (cases "sq \<ge> DTLS_SEQ_NUM_MASK")
        case True
        then have "c' = c \<and> rec' = rec \<and> rc \<noteq> NOXTLS_RETURN_SUCCESS" using eq2 np by auto
        then show thesis using that(1) by simp
      next
        case sq: False
        show thesis
        proof (cases "fl AND DTLS_FLIGHT_ENTRY_PROTECT = 0")
          case True
          define r2 where "r2 = put_at 5 (dtls_write_uint48 sq) rec"
          have ep0: "?ep = 0" using np True by simp
          obtain sent c1 where s: "ctx_send r2 (bump_counter c ?ep) = (sent, c1)" by fastforce
          obtain rc2 c2 where k: "count_sent c1 sent = (rc2, c2)" by fastforce
          have "rc = rc2 \<and> c' = c2 \<and> rec' = r2"
            using eq2 np sq True s k unfolding r2_def [symmetric] by auto
          moreover have "transmits c r2 (bump_counter c 0) c2" "same_flight (bump_counter c 0) c2"
            using send_count [OF s k, of c c ?ep] ep0 by auto
          ultimately show thesis using that(3) [of sq] True ep0 F Some sq r2_def
            by (auto simp: same_flight_def not_le)
        next
          case fl: False
          then have "resend_sealed protect c sq rec = (rc, c', rec')" using eq2 np sq by simp
          then show thesis
          proof (cases rule: resend_sealed_effect)
            case quiet
            then show thesis by (rule that(1))
          next
            case (sealed c1 out)
            then have "sq = write_seq_num c" using Some by (simp add: seq_counter_def)
            then show thesis using that(4) [of c1 out] sealed fl F sq by (auto simp: not_le)
          qed
        qed
      qed
    qed
  qed
qed

section \<open>Numbers and the log\<close>

definition number :: "bytes \<Rightarrow> u16 \<times> u64" where
  "number d = (dtls_read_uint16 (drop 3 d), dtls_read_uint48 (drop 5 d))"

lemma put_at_before: "i < off \<Longrightarrow> off \<le> length b \<Longrightarrow> (put_at off xs b @ r) ! i = b ! i"
  by (simp add: put_at_def nth_append)

lemma drop_record_header:
  "drop 3 (record_header t v ep sq len @ r) = dtls_write_uint16 ep @ dtls_write_uint48 sq @ dtls_write_uint16 len @ r"
  "drop 5 (record_header t v ep sq len @ r) = dtls_write_uint48 sq @ dtls_write_uint16 len @ r"
  by (simp_all add: record_header_def numeral_eq_Suc dtls_write_uint16_def)

lemma seq_mask: "sq \<le> DTLS_SEQ_NUM_MASK \<Longrightarrow> unat sq < 2 ^ 48"
  by (simp add: word_le_nat_alt)

lemma number_header [simp]:
  "sq \<le> DTLS_SEQ_NUM_MASK \<Longrightarrow> number (record_header t v ep sq len @ r) = (ep, sq)"
  unfolding number_def drop_record_header
  by (simp add: dtls_read_write_uint48 [OF seq_mask])

lemma number_nth:
  "11 \<le> length d \<Longrightarrow> number d =
     (push_bit 8 (ucast (d ! 3)) OR ucast (d ! 4),
      push_bit 40 (ucast (d ! 5)) OR push_bit 32 (ucast (d ! 6)) OR push_bit 24 (ucast (d ! 7)) OR
      push_bit 16 (ucast (d ! 8)) OR push_bit 8 (ucast (d ! 9)) OR ucast (d ! 10))"
  by (simp add: number_def dtls_read_uint16_def dtls_read_uint48_def)

lemma number_cong:
  "11 \<le> length d \<Longrightarrow> 11 \<le> length d' \<Longrightarrow> (\<And>i. 3 \<le> i \<Longrightarrow> i < 11 \<Longrightarrow> d ! i = d' ! i) \<Longrightarrow>
   number d = number d'"
  by (simp add: number_nth)

lemma number_renumbered:
  assumes "13 \<le> length rec" "sq \<le> DTLS_SEQ_NUM_MASK"
  shows "number (put_at 5 (dtls_write_uint48 sq) rec) = (dtls_read_uint16 (drop 3 rec), sq)"
proof -
  have "drop 5 (put_at 5 (dtls_write_uint48 sq) rec) = dtls_write_uint48 sq @ drop 11 rec"
    using assms by (simp add: put_at_def)
  then have "dtls_read_uint48 (drop 5 (put_at 5 (dtls_write_uint48 sq) rec)) = sq"
    by (simp add: dtls_read_write_uint48 [OF seq_mask [OF assms(2)]])
  moreover have "dtls_read_uint16 (drop 3 (put_at 5 (dtls_write_uint48 sq) rec)) =
      dtls_read_uint16 (drop 3 rec)"
    using assms by (simp add: dtls_read_uint16_def put_at_def nth_append)
  ultimately show ?thesis by (simp add: number_def)
qed

lemma number_sealed:
  assumes "13 \<le> length rec" "sq \<le> DTLS_SEQ_NUM_MASK"
  shows "number (put_at 11 (dtls_write_uint16 n) (put_at 5 (dtls_write_uint48 sq) (take 13 rec)) @ out) =
     (dtls_read_uint16 (drop 3 rec), sq)"
proof -
  have len: "length (put_at 5 (dtls_write_uint48 sq) (take 13 rec)) = 13"
    using assms(1) by (subst length_put_at) simp_all
  then have "number (put_at 11 (dtls_write_uint16 n) (put_at 5 (dtls_write_uint48 sq) (take 13 rec)) @ out) =
      number (put_at 5 (dtls_write_uint48 sq) (take 13 rec))"
    by (intro number_cong put_at_before) simp_all
  also have "\<dots> = (dtls_read_uint16 (drop 3 (take 13 rec)), sq)"
    using assms by (intro number_renumbered) simp_all
  also have "dtls_read_uint16 (drop 3 (take 13 rec)) = dtls_read_uint16 (drop 3 rec)"
    using assms(1) by (simp add: dtls_read_uint16_def)
  finally show ?thesis .
qed

text \<open>The numbers the counters have passed.\<close>

definition below :: "dtls_context \<Rightarrow> u16 \<times> u64 \<Rightarrow> bool" where
  "below c n \<longleftrightarrow>
     unat (fst n) + 1 < unat (epoch c) \<or>
     unat (fst n) + 1 = unat (epoch c) \<and> snd n < prev_write_seq_num c \<or>
     fst n = epoch c \<and> snd n < write_seq_num c"

definition log_ok :: "dtls_context \<Rightarrow> bool" where
  "log_ok c \<longleftrightarrow>
     write_seq_num c \<le> DTLS_SEQ_NUM_MASK \<and> prev_write_seq_num c \<le> DTLS_SEQ_NUM_MASK \<and>
     (\<forall>d\<in>set (send_log c). below c (number d)) \<and>
     (\<forall>d\<in>set (send_log c). \<forall>d'\<in>set (send_log c). number d = number d' \<longrightarrow> d = d')"

lemma epoch_succ:
  "(ucast (ep :: u16) :: u32) + 1 = ucast (ep' :: u16) \<longleftrightarrow> unat ep + 1 = unat ep'"
  using unsigned_less [of ep, where ?'a = nat]
  by (simp add: word_unat_eq_iff unat_ucast_up unat_word_ariths)

lemma seq_counter_fresh: "seq_counter c ep = Some sq \<Longrightarrow> \<not> below c (ep, sq)"
  by (auto simp: seq_counter_def below_def epoch_succ split: if_splits)

lemma log_ok_fresh:
  assumes ok: "log_ok c" and l: "send_log c' = send_log c @ [d]" and n: "number d = (ep, sq)"
    and sq: "seq_counter c ep = Some sq" "sq < DTLS_SEQ_NUM_MASK" and e: "epoch c' = epoch c"
    and w: "write_seq_num c' = write_seq_num (bump_counter c ep)"
      "prev_write_seq_num c' = prev_write_seq_num (bump_counter c ep)"
  shows "log_ok c'"
proof -
  have lt: "x < DTLS_SEQ_NUM_MASK \<Longrightarrow> y < x + 1 \<longleftrightarrow> y \<le> x" "x < DTLS_SEQ_NUM_MASK \<Longrightarrow> x + 1 \<le> DTLS_SEQ_NUM_MASK"
    for x y :: u64
    by (simp_all add: word_less_nat_alt word_le_nat_alt unat_word_ariths) linarith
  have b: "below c' m" if "below c m" for m
    using that sq e w by (auto simp: below_def bump_counter_def seq_counter_def lt epoch_succ
        split: if_splits)
  have d: "below c' (number d)"
    using sq e w n by (auto simp: below_def bump_counter_def seq_counter_def lt epoch_succ
        split: if_splits)
  have "number d' \<noteq> number d" if "d' \<in> set (send_log c)" for d'
    using ok seq_counter_fresh [OF sq(1)] that n by (auto simp: log_ok_def)
  moreover have "write_seq_num c' \<le> DTLS_SEQ_NUM_MASK \<and> prev_write_seq_num c' \<le> DTLS_SEQ_NUM_MASK"
    using ok sq w by (auto simp: log_ok_def bump_counter_def seq_counter_def lt split: if_splits)
  ultimately show ?thesis
    using ok l b d unfolding log_ok_def by auto metis+
qed

section \<open>The walk over the flight\<close>

text \<open>
  The invariant of a run: the log is consistent, the buffer is a list of entries, and a record
  that would be resent unchanged is one that was already sent.
\<close>

definition sent_before :: "dtls_context \<Rightarrow> flight_entry \<Rightarrow> bool" where
  "sent_before c e \<longleftrightarrow>
     (fst e = 0 \<and> 13 \<le> length (snd e) \<and> dtls_read_uint16 (drop 3 (snd e)) \<noteq> 0 \<longrightarrow> snd e \<in> set (send_log c))"

definition run_inv :: "dtls_context \<Rightarrow> flight_entry list \<Rightarrow> bool" where
  "run_inv c es \<longleftrightarrow> dtls_is_v12_record_layer (version c) \<and> log_ok c \<and> flight_entries c es \<and>
     (\<forall>e\<in>set es. sent_before c e)"

lemma log_ok_same_wire: "same_wire c c' \<Longrightarrow> log_ok c' = log_ok c"
  by (simp add: same_wire_def log_ok_def below_def)

lemma resend_keeps:
  assumes ok: "log_ok c" and fl: "fl \<in> {0, DTLS_FLIGHT_ENTRY_PROTECT}" and sb: "sent_before c (fl, rec)"
    and r: "dtls12_flight_resend_record protect c fl rec = (rc, c', rec')"
  shows "log_ok c' \<and> version c' = version c \<and> same_flight c c' \<and> length rec' = length rec \<and>
    set (send_log c) \<subseteq> set (send_log c') \<and> sent_before c' (fl, rec')"
  using r
proof (cases rule: resend_effect)
  case quiet
  then have "version c' = version c" "send_log c' = send_log c" by (simp_all add: same_wire_def)
  then show ?thesis using quiet(2,3) sb ok log_ok_same_wire [OF quiet(1)]
    by (simp add: sent_before_def)
next
  case verbatim
  have mem: "rec \<in> set (send_log c)" using sb verbatim fl by (auto simp: sent_before_def)
  then have "log_ok c'" using ok verbatim(6) by (simp add: transmits_def log_ok_def below_def)
  then show ?thesis using verbatim by (auto simp: transmits_def sent_before_def)
next
  case (renumbered sq)
  have "log_ok c'"
  proof (rule log_ok_fresh [OF ok _ _ renumbered(4,5)])
    show "number rec' = (0, sq)" using number_renumbered [of rec sq] renumbered by simp
  qed (use renumbered(8) in \<open>auto simp: transmits_def\<close>)
  moreover have "dtls_read_uint16 (drop 3 rec') = 0"
    using number_renumbered [of rec sq] renumbered by (simp add: number_def)
  moreover have "length rec' = length rec" using renumbered by simp
  ultimately show ?thesis using renumbered by (auto simp: transmits_def sent_before_def)
next
  case (sealed c1 out)
  have "write_seq_num (bump_counter c1 (epoch c)) = write_seq_num (bump_counter c (epoch c))"
    "prev_write_seq_num (bump_counter c1 (epoch c)) = prev_write_seq_num (bump_counter c (epoch c))"
    using sealed(3) by (simp_all add: same_wire_def bump_counter_def)
  then have "log_ok c'"
    using sealed number_sealed [of rec "write_seq_num c" "of_nat (length out)" out]
    by (intro log_ok_fresh [OF ok _ _ _ sealed(8), where ep = "epoch c"])
      (auto simp: transmits_def seq_counter_def)
  moreover have "fl \<noteq> 0" using sealed(1) by auto
  moreover have "version c' = version c" "set (send_log c) \<subseteq> set (send_log c')"
    using sealed(9) by (simp_all add: transmits_def subset_insertI)
  ultimately show ?thesis using sealed(4,5) by (simp add: sent_before_def)
qed

text \<open>Rewriting one entry of the buffer in place.\<close>

lemma entries_update:
  assumes e: "flight_entries c (ds @ (fl, rec) # es)" and l: "length rec' = length rec"
    and c': "c' = c\<lparr>flight_buffer := map_option (put_at (length (concat (map entry_bytes ds)) + 2) rec') (flight_buffer c)\<rparr>"
  shows "flight_entries c' (ds @ (fl, rec') # es)"
proof -
  obtain b where b: "flight_buffer c = Some b" "length b = unat (flight_buffer_capacity c)"
    "unat (flight_buffer_len c) \<le> length b"
    "take (unat (flight_buffer_len c)) b = concat (map entry_bytes (ds @ (fl, rec) # es))"
    using e by (cases "flight_buffer c") (simp_all add: flight_entries_def)
  define pre where "pre = concat (map entry_bytes ds)"
  define post where "post = concat (map entry_bytes es)"
  define n where "n = unat (flight_buffer_len c)"
  have n: "n = length pre + 2 + length rec + length post"
    using e by (simp add: flight_entries_def n_def pre_def post_def)
  have "b = take n b @ drop n b" by simp
  then have bs: "b = pre @ flight_word fl (of_nat (length rec)) @ rec @ post @ drop n b"
    using b(4) by (simp add: n_def pre_def post_def entry_bytes_def)
  have pb: "put_at (length pre + 2) rec' b = pre @ flight_word fl (of_nat (length rec)) @ rec' @ post @ drop n b"
    by (subst bs) (simp add: put_at_def l)
  have "take n (put_at (length pre + 2) rec' b) = pre @ flight_word fl (of_nat (length rec)) @ rec' @ post"
    unfolding pb by (simp add: n l)
  moreover have "length (put_at (length pre + 2) rec' b) = length b"
    using n b(3) l by (intro length_put_at) (simp add: n_def)
  moreover have "entry_ok (fl, rec')" using e l by (simp add: flight_entries_def entry_ok_def)
  ultimately show ?thesis
    using e b l by (simp add: flight_entries_def c' pre_def post_def n_def entry_bytes_def)
qed

lemma walk_keeps:
  assumes "run_inv c (ds @ es)"
    and "flight_walk protect rehandshake True (length (concat (map entry_bytes ds))) k st c = (rc, c', k')"
  shows "\<exists>es'. run_inv c' es' \<and> epoch c' = epoch c"
  using assms
proof (induction es arbitrary: ds c k)
  case Nil
  then have "length (concat (map entry_bytes ds)) = unat (flight_buffer_len c)"
    by (simp add: run_inv_def flight_entries_def)
  then have "c' = c" using Nil(2) by (subst (asm) flight_walk.simps) (simp split: if_splits)
  then show ?case using Nil(1) by auto
next
  case (Cons e es)
  obtain fl rec where e: "e = (fl, rec)" by fastforce
  have fe: "flight_entries c (ds @ (fl, rec) # es)" using Cons(2) e by (simp add: run_inv_def)
  obtain b where b: "flight_buffer c = Some b"
    "unat (flight_buffer_len c) \<le> length b"
    "take (unat (flight_buffer_len c)) b = concat (map entry_bytes (ds @ (fl, rec) # es))"
    using fe by (cases "flight_buffer c") (simp_all add: flight_entries_def)
  let ?off = "length (concat (map entry_bytes ds))"
  have eok: "fl \<in> {0, DTLS_FLIGHT_ENTRY_PROTECT}" "0 < length rec" "length rec \<le> 0x7FFF"
    using fe by (simp_all add: flight_entries_def entry_ok_def)
  have n: "unat (flight_buffer_len c) = ?off + 2 + length rec + length (concat (map entry_bytes es))"
    using fe by (simp add: flight_entries_def)
  have "b = take (unat (flight_buffer_len c)) b @ drop (unat (flight_buffer_len c)) b" by simp
  then obtain rest where bs: "b = concat (map entry_bytes ds) @ flight_word fl (of_nat (length rec)) @ rec @ rest"
    using b(3) by (simp add: entry_bytes_def)
  have d1: "drop ?off b = flight_word fl (of_nat (length rec)) @ rec @ rest" by (subst bs) simp
  have d2: "take (length rec) (drop (?off + 2) b) = rec" by (subst bs) simp
  note fw = flight_word_read [OF eok(3,1), of "rec @ rest"]
  obtain rc1 c1 rec' where r: "dtls12_flight_resend_record protect c fl rec = (rc1, c1, rec')"
    by (metis prod_cases3)
  define c2 where "c2 = c1\<lparr>flight_buffer := map_option (put_at (?off + 2) rec') (flight_buffer c1)\<rparr>"
  have flb: "(if dtls_read_uint16 (drop ?off b) AND 0x8000 \<noteq> 0 then DTLS_FLIGHT_ENTRY_PROTECT else 0) = fl"
    using fw(2) eok(1) unfolding d1 by auto
  have re: "retransmit_entry protect rehandshake True c (?off + 2) (length rec) fl st =
      (if rc1 = NOXTLS_RETURN_SUCCESS then (NOXTLS_RETURN_SUCCESS, c2, True, st)
       else if rc1 \<noteq> NOXTLS_RETURN_NOT_SUPPORTED then (rc1, c2, False, st)
       else (NOXTLS_RETURN_SUCCESS, c2, False, st))"
    unfolding retransmit_entry_def Let_def b(1) option.sel d2 r prod.case if_True c2_def ..
  have "sent_before c (fl, rec)" using Cons(2) e by (simp add: run_inv_def)
  then have K: "log_ok c1" "version c1 = version c" "same_flight c c1" "length rec' = length rec"
    "set (send_log c) \<subseteq> set (send_log c1)" "sent_before c1 (fl, rec')"
    using resend_keeps [OF _ eok(1) _ r] Cons(2) by (simp_all add: run_inv_def)
  have ep: "epoch c1 = epoch c" using r
    by (cases rule: resend_effect) (simp_all add: same_wire_def transmits_def)
  have fe2: "flight_entries c2 (ds @ (fl, rec') # es)"
    using fe flight_entries_cong [OF K(3)] K(4) by (intro entries_update [OF _ _ c2_def]) auto
  have "log_ok c2" "version c2 = version c1" "send_log c2 = send_log c1"
    using K(1) by (simp_all add: c2_def log_ok_def below_def)
  moreover have "sent_before c2 x" if "x \<in> set (ds @ (fl, rec') # es)" for x
    using that K(5,6) Cons(2) e calculation(3) by (auto simp: sent_before_def run_inv_def)
  ultimately have inv2: "run_inv c2 ((ds @ [(fl, rec')]) @ es)"
    using Cons(2) K(2) fe2 by (simp add: run_inv_def)
  have ep2: "epoch c2 = epoch c" using ep by (simp add: c2_def)
  have off2: "?off + 2 + length rec = length (concat (map entry_bytes (ds @ [(fl, rec')])))"
    using K(4) by simp
  have C: "(?off + 2 \<le> unat (flight_buffer_len c) \<and> (True \<or> k < DTLS_RETRANSMIT_RECORD_BURST)) = True"
    "(?off + 2 + length rec > unat (flight_buffer_len c)) = False" using n by simp_all
  have ul: "unat (dtls_read_uint16 (drop ?off b) AND 0x7FFF) = length rec"
    using fw(1) unfolding d1 .
  show ?case
  proof (cases "rc1 = NOXTLS_RETURN_SUCCESS \<or> rc1 = NOXTLS_RETURN_NOT_SUPPORTED")
    case False
    then have "c' = c2" using Cons(3) unfolding flight_walk.simps [of _ _ _ ?off] C if_True Let_def b(1)
        option.sel ul flb if_False re by auto
    then show ?thesis using inv2 ep2 by auto
  next
    case True
    then obtain k2 where "flight_walk protect rehandshake True (?off + 2 + length rec) k2 st c2 = (rc, c', k')"
      using Cons(3) unfolding flight_walk.simps [of _ _ _ ?off] C if_True Let_def b(1)
        option.sel ul flb if_False re by (auto split: if_splits)
    then show ?thesis using Cons(1) [OF inv2] ep2 unfolding off2 by auto
  qed
qed

section \<open>Runs\<close>

text \<open>What an endpoint does with its sending side; \<open>Received n\<close> is a datagram that arrived.\<close>

datatype wire_op =
  Send u8 bytes | Send_protected u8 bytes | Next_write_epoch | Retransmit | Peer_progress
| Flight_reset | Mark_validated | Received u64

fun wire_step :: "protect_record_fn \<Rightarrow> retransmit_handshake_fn \<Rightarrow> dtls_context \<Rightarrow> wire_op \<Rightarrow> dtls_context" where
  "wire_step protect rehandshake c (Send t d) = the (snd (noxtls_dtls_send_record (Some c) t d))"
| "wire_step protect rehandshake c (Send_protected t d) =
     the (snd (noxtls_dtls_send_protected_record protect (Some c) t d))"
| "wire_step protect rehandshake c Next_write_epoch = the (noxtls_dtls_next_write_epoch (Some c))"
| "wire_step protect rehandshake c Retransmit =
     the (snd (noxtls_dtls_retransmit_flight protect rehandshake (Some c)))"
| "wire_step protect rehandshake c Peer_progress = noxtls_dtls_flight_peer_progress c"
| "wire_step protect rehandshake c Flight_reset = noxtls_dtls_flight_reset c"
| "wire_step protect rehandshake c Mark_validated = noxtls_dtls_mark_validated c"
| "wire_step protect rehandshake c (Received n) = c\<lparr>bytes_received := bytes_received c + n\<rparr>"

abbreviation wire_run ::
  "protect_record_fn \<Rightarrow> retransmit_handshake_fn \<Rightarrow> dtls_context \<Rightarrow> wire_op list \<Rightarrow> dtls_context" where
  "wire_run protect rehandshake \<equiv> foldl (wire_step protect rehandshake)"

lemma below_fresh: "\<not> below c (epoch c, write_seq_num c)"
  by (simp add: below_def)

text \<open>A new record under the current number.\<close>

lemma log_ok_emits:
  assumes "log_ok c" "emits c d c'" "number d = (epoch c, write_seq_num c)" "write_seq_num c < DTLS_SEQ_NUM_MASK"
  shows "log_ok c'"
  using assms by (intro log_ok_fresh [OF assms(1) _ assms(3) _ assms(4)])
    (simp_all add: emits_def seq_counter_def bump_counter_def)

lemma run_inv_quiet:
  assumes inv: "run_inv c es" and w: "same_wire c c'" and k: "keeps_entries new c c'"
    and new: "\<forall>e\<in>new. fst e \<noteq> 0"
  shows "\<exists>es'. run_inv c' es'"
proof -
  obtain es' where e: "flight_entries c' es'" "set es' \<subseteq> new \<union> set es"
    using inv k unfolding run_inv_def keeps_entries_def by blast
  have "send_log c' = send_log c" "version c' = version c" using w by (simp_all add: same_wire_def)
  then have "run_inv c' es'" using inv e new log_ok_same_wire [OF w]
    by (auto simp: run_inv_def sent_before_def)
  then show ?thesis by blast
qed

lemma run_inv_emitted:
  assumes inv: "run_inv c es" and m: "emits c d c'" and n: "number d = (epoch c, write_seq_num c)"
    and w: "write_seq_num c < DTLS_SEQ_NUM_MASK" and k: "keeps_entries new c c'"
    and new: "\<forall>e\<in>new. fst e = 0 \<longrightarrow> snd e = d"
  shows "\<exists>es'. run_inv c' es'"
proof -
  obtain es' where e: "flight_entries c' es'" "set es' \<subseteq> new \<union> set es"
    using inv k unfolding run_inv_def keeps_entries_def by blast
  have l: "send_log c' = send_log c @ [d]" "version c' = version c" using m by (simp_all add: emits_def)
  have "sent_before c' x" if "x \<in> set es'" for x
    using that e(2) new inv l by (auto simp: run_inv_def sent_before_def)
  then have "run_inv c' es'" using inv e(1) l log_ok_emits [OF _ m n w] by (simp add: run_inv_def)
  then show ?thesis by blast
qed

text \<open>The number of epoch switches a run still makes.\<close>

abbreviation switches :: "wire_op list \<Rightarrow> nat" where
  "switches ops \<equiv> length (filter (\<lambda>a. a = Next_write_epoch) ops)"

lemma next_epoch_keeps:
  assumes inv: "run_inv c es" and e: "unat (epoch c) + 1 < 65536"
  shows "run_inv (the (noxtls_dtls_next_write_epoch (Some c))) es \<and>
    unat (epoch (the (noxtls_dtls_next_write_epoch (Some c)))) = unat (epoch c) + 1"
proof -
  define c' where "c' = the (noxtls_dtls_next_write_epoch (Some c))"
  have c': "c' = c\<lparr>prev_write_seq_num := write_seq_num c, epoch := epoch c + 1, write_seq_num := 0\<rparr>"
    by (simp add: c'_def noxtls_dtls_next_write_epoch_def)
  have ep: "unat (epoch c') = unat (epoch c) + 1" using e by (simp add: c' unat_word_ariths)
  have b: "below c' n" if "below c n" for n
    using that ep by (auto simp: below_def c' word_unat_eq_iff)
  have "log_ok c" using inv by (simp add: run_inv_def)
  then have "log_ok c'" using b unfolding log_ok_def by (simp add: c')
  moreover have "flight_entries c' es"
    using inv flight_entries_cong [of c c' es] by (simp add: run_inv_def c' same_flight_def)
  ultimately have "run_inv c' es" using inv by (auto simp: run_inv_def sent_before_def c')
  then show ?thesis using ep by (simp add: c'_def)
qed

lemma run_inv_cong:
  assumes "run_inv c es" "same_flight c c'" "send_log c' = send_log c" "version c' = version c"
    "epoch c' = epoch c" "write_seq_num c' = write_seq_num c" "prev_write_seq_num c' = prev_write_seq_num c"
  shows "run_inv c' es"
  using assms(1) flight_entries_cong [OF assms(2)] assms(3-)
  by (simp add: run_inv_def log_ok_def below_def sent_before_def)

lemma run_inv_stamp: "run_inv c es \<Longrightarrow> run_inv (stamp_flight_time c) es"
  by (cases "time_callback c") (simp_all add: stamp_flight_time_def run_inv_cong same_flight_def)

lemma epoch_stamp [simp]: "epoch (stamp_flight_time c) = epoch c"
  by (cases "time_callback c") (simp_all add: stamp_flight_time_def)

lemma flight_retransmit_run:
  assumes inv: "run_inv c es"
    and r: "dtls_flight_retransmit protect rehandshake (Some c) = (rc, ctx')"
  shows "\<exists>c' es'. ctx' = Some c' \<and> run_inv c' es' \<and> epoch c' = epoch c"
proof (cases "flight_buffer_len c = 0 \<or> send_callback c = None")
  case True
  then have "ctx' = Some c" using r by (auto simp: dtls_flight_retransmit_def)
  then show ?thesis using inv by auto
next
  case False
  have v: "dtls_is_v12_record_layer (version c)" using inv by (simp add: run_inv_def)
  obtain rc1 c1 k where w: "flight_walk protect rehandshake True 0 0 False c = (rc1, c1, k)"
    by (metis prod_cases3)
  have "\<exists>es'. run_inv c1 es' \<and> epoch c1 = epoch c"
    using walk_keeps [of c "[]" es protect rehandshake 0 False rc1 c1 k] inv w by simp
  then obtain es' where es': "run_inv c1 es'" "epoch c1 = epoch c" by blast
  moreover have "ctx' = Some c1 \<or> ctx' = Some (stamp_flight_time c1)"
    using r False v w by (auto simp: dtls_flight_retransmit_def split: if_splits)
  ultimately show ?thesis using run_inv_stamp [OF es'(1)] by auto
qed

lemma retransmit_flight_run:
  assumes inv: "run_inv c es"
    and r: "noxtls_dtls_retransmit_flight protect rehandshake (Some c) = (rc, ctx')"
  shows "\<exists>c' es'. ctx' = Some c' \<and> run_inv c' es' \<and> epoch c' = epoch c"
proof (cases "flight_buffer_len c = 0")
  case True
  then have "ctx' = Some c" using r by (simp add: noxtls_dtls_retransmit_flight_def)
  then show ?thesis using inv by auto
next
  case False
  define c1 where "c1 = dtls_retransmit_note_progress c"
  have inv1: "run_inv c1 es" "epoch c1 = epoch c"
    unfolding c1_def dtls_retransmit_note_progress_def
    by (auto intro!: run_inv_cong [OF inv] simp: same_flight_def)
  define c2 where "c2 = c1\<lparr>retransmit_count := retransmit_count c1 + 1\<rparr>"
  have inv2: "run_inv c2 es" "epoch c2 = epoch c"
    unfolding c2_def using inv1 by (auto intro!: run_inv_cong [OF inv1(1)] simp: same_flight_def)
  obtain rc3 ctx3 where f: "dtls_flight_retransmit protect rehandshake (Some c2) = (rc3, ctx3)" by fastforce
  obtain c3 es3 where c3: "ctx3 = Some c3" "run_inv c3 es3" "epoch c3 = epoch c"
    using flight_retransmit_run [OF inv2(1) f] inv2(2) by auto
  have "ctx' = Some c1 \<or> ctx' = Some c3 \<or> ctx' = Some (stamp_flight_time c3)"
    using r False f c3(1) unfolding noxtls_dtls_retransmit_flight_def Let_def option.case
      c1_def [symmetric] c2_def [symmetric] by (auto split: if_splits)
  then show ?thesis using inv1 c3 run_inv_stamp [OF c3(2)] by auto
qed

lemma step_keeps:
  assumes inv: "run_inv c es" and e: "unat (epoch c) + switches [a] < 65536"
  shows "\<exists>es'. run_inv (wire_step protect rehandshake c a) es' \<and>
    unat (epoch (wire_step protect rehandshake c a)) = unat (epoch c) + switches [a]"
proof (cases a)
  case (Send t d)
  obtain rc ctx' where s: "noxtls_dtls_send_record (Some c) t d = (rc, ctx')" by fastforce
  then show ?thesis
  proof (cases rule: send_record_effect)
    case (quiet c')
    then show ?thesis using run_inv_quiet [OF inv quiet(2,4)] s Send by (auto simp: same_wire_def)
  next
    case (emitted c' v)
    then have lt: "write_seq_num c < DTLS_SEQ_NUM_MASK" using inv by (simp add: run_inv_def)
    then have "\<exists>es'. run_inv c' es'"
      by (intro run_inv_emitted [OF inv emitted(2) _ _ emitted(3)] number_header) simp_all
    then show ?thesis using emitted(1,2) s Send by (auto simp: emits_def)
  qed
next
  case (Send_protected t d)
  obtain rc ctx' where s: "noxtls_dtls_send_protected_record protect (Some c) t d = (rc, ctx')" by fastforce
  then show ?thesis
  proof (cases rule: send_protected_effect)
    case (quiet c')
    then have "\<exists>es'. run_inv c' es'" by (intro run_inv_quiet [OF inv quiet(2,4)]) auto
    then show ?thesis using quiet s Send_protected by (auto simp: same_wire_def)
  next
    case (emitted c' c1 seal out)
    then have "\<exists>es'. run_inv c' es'"
      by (intro run_inv_emitted [OF inv emitted(5) number_header emitted(8,9)]) auto
    then show ?thesis using emitted(1,5) s Send_protected by (auto simp: emits_def)
  qed
next
  case Next_write_epoch
  then show ?thesis using next_epoch_keeps [OF inv] e by auto
next
  case Retransmit
  obtain rc ctx' where s: "noxtls_dtls_retransmit_flight protect rehandshake (Some c) = (rc, ctx')" by fastforce
  then show ?thesis using retransmit_flight_run [OF inv s] Retransmit by auto
next
  case Peer_progress
  have "same_flight c (noxtls_dtls_flight_peer_progress c)" "same_wire c (noxtls_dtls_flight_peer_progress c)"
    by (simp_all add: same_flight_def same_wire_def noxtls_dtls_flight_peer_progress_def)
  then show ?thesis using run_inv_quiet [OF inv _ keeps_entries_flight] Peer_progress
    by (fastforce simp: same_wire_def)
next
  case Flight_reset
  have "flight_entries (noxtls_dtls_flight_reset c) []" using inv by (auto simp: run_inv_def)
  moreover have w: "same_wire c (noxtls_dtls_flight_reset c)"
    by (simp add: same_wire_def noxtls_dtls_flight_reset_def dtls_flight_clear_def)
  ultimately have "run_inv (noxtls_dtls_flight_reset c) []"
    using inv log_ok_same_wire [OF w] by (simp add: run_inv_def) (simp add: same_wire_def)
  then show ?thesis using Flight_reset w by (auto simp: same_wire_def)
next
  case Mark_validated
  then have "run_inv (wire_step protect rehandshake c a) es"
    by (auto intro!: run_inv_cong [OF inv] simp: same_flight_def noxtls_dtls_mark_validated_def)
  then show ?thesis using Mark_validated by (auto simp: noxtls_dtls_mark_validated_def)
next
  case (Received n)
  then have "run_inv (wire_step protect rehandshake c a) es"
    by (auto intro!: run_inv_cong [OF inv] simp: same_flight_def)
  then show ?thesis using Received by auto
qed

lemma run_keeps:
  "run_inv c es \<Longrightarrow> unat (epoch c) + switches ops < 65536 \<Longrightarrow>
   \<exists>es'. run_inv (wire_run protect rehandshake c ops) es'"
proof (induction ops arbitrary: c es)
  case (Cons a ops)
  obtain es' where "run_inv (wire_step protect rehandshake c a) es'"
    "unat (epoch (wire_step protect rehandshake c a)) = unat (epoch c) + switches [a]"
    using step_keeps [OF Cons(2), of a protect rehandshake] Cons(3) by (auto split: if_splits)
  then show ?case using Cons(1) [of "wire_step protect rehandshake c a" es'] Cons(3)
    by (auto split: if_splits)
qed auto

text \<open>
  Claim C7. DTLS 1.2 record numbers are never reused. Start any endpoint of the DTLS 1.2 record
  layer with an empty flight and nothing sent, and let it do any sequence of plain sends,
  protected sends, switches of the write epoch (fewer than 65536 in all), retransmissions of
  the flight and flight resets, with any sealing function and any behaviour of the transport
  (failures and short sends included). Two datagrams that went out with the same epoch and
  sequence number are the same bytes; so a sequence number, hence an AEAD nonce, is never used
  for two different records.
\<close>

theorem dtls12_number_never_reused:
  assumes "dtls_is_v12_record_layer (version c)" and "send_log c = []"
    and "write_seq_num c \<le> DTLS_SEQ_NUM_MASK" and "prev_write_seq_num c \<le> DTLS_SEQ_NUM_MASK"
    and "flight_buffer c = None" and "flight_buffer_len c = 0" and "flight_buffer_capacity c = 0"
    and "flight_buffer_storage c = None"
    and "unat (epoch c) + switches ops < 65536"
    and "d \<in> set (send_log (wire_run protect rehandshake c ops))"
    and "d' \<in> set (send_log (wire_run protect rehandshake c ops))"
    and "number d = number d'"
  shows "d = d'"
proof -
  have "run_inv c []"
    using assms by (simp add: run_inv_def log_ok_def flight_entries_def)
  then obtain es' where "run_inv (wire_run protect rehandshake c ops) es'"
    using run_keeps assms(9) by blast
  then show ?thesis using assms(10-12) by (auto simp: run_inv_def log_ok_def)
qed

theorem dtls12_number_never_reused_witness:
  "\<exists>d. d \<in> set (send_log (wire_run None None (fresh_endpoint TLS_ROLE_CLIENT DTLS_VERSION_1_2)
     [Send 23 [1, 2], Next_write_epoch, Send 23 [1]])) \<and> number d = (1, 0) \<and> d = d"
proof -
  let ?c = "fresh_endpoint TLS_ROLE_CLIENT DTLS_VERSION_1_2"
  let ?ops = "[Send 23 [1, 2], Next_write_epoch, Send 23 [1]]"
  let ?d = "record_header 23 DTLS_VERSION_1_2 1 0 1 @ [1]"
  have c: "dtls_is_v12_record_layer (version ?c)" "send_log ?c = []" "write_seq_num ?c \<le> DTLS_SEQ_NUM_MASK"
    "prev_write_seq_num ?c \<le> DTLS_SEQ_NUM_MASK" "flight_buffer ?c = None" "flight_buffer_len ?c = 0"
    "flight_buffer_capacity ?c = 0" "flight_buffer_storage ?c = None" "unat (epoch ?c) + switches ?ops < 65536"
    by (simp_all add: endpoint_defs)
  have d: "?d \<in> set (send_log (wire_run None None ?c ?ops))"
    by (simp add: endpoint_defs noxtls_dtls_send_record_def send_record_keep_def
        noxtls_dtls_next_write_epoch_def Let_def)
  have "?d = ?d" by (rule dtls12_number_never_reused [OF c d d refl])
  then show ?thesis using d number_header [of 0 23 DTLS_VERSION_1_2 1 1 "[1]"] by auto
qed

end
