(* ===== verification/Dtls_Amplification.thy ===== *)
theory Dtls_Amplification
  imports Dtls_Numbers
begin

text \<open>
  The anti-amplification limit over runs of sends: what a server has handed to the transport
  before the peer's address is validated is at most \<open>anti_amp_factor\<close> times what it received.
\<close>

section \<open>The limit\<close>

definition wire_bytes :: "dtls_context \<Rightarrow> nat" where
  "wire_bytes c = sum_list (map length (send_log c))"

definition amp_inv :: "dtls_context \<Rightarrow> bool" where
  "amp_inv c \<longleftrightarrow>
     role c = TLS_ROLE_SERVER \<and> validated c = 0 \<and> anti_amp_factor c \<noteq> 0 \<and>
     unat (bytes_sent c) = wire_bytes c \<and> wire_bytes c \<le> unat (bytes_received c) * unat (anti_amp_factor c)"

fun received_by :: "wire_op list \<Rightarrow> nat" where
  "received_by [] = 0"
| "received_by (Received n # ops) = unat n + received_by ops"
| "received_by (a # ops) = received_by ops"

lemma amp_inv_emits:
  assumes inv: "amp_inv c" and m: "emits c d c'" and a: "dtls_anti_amp_allows c (13 + of_nat n)"
    and d: "length d = 13 + n" "n \<le> 18432" and r: "unat (bytes_received c) < 2 ^ 55"
  shows "amp_inv c'"
proof -
  have f: "unat (anti_amp_factor c) < 256" using unsigned_less [of "anti_amp_factor c", where ?'a = nat] by simp
  have le: "unat (bytes_received c) * unat (anti_amp_factor c) \<le> 2 ^ 55 * 255"
    using r f by (intro mult_le_mono) simp_all
  have fu: "unat (ucast (anti_amp_factor c) :: u64) = unat (anti_amp_factor c)"
    by (rule unat_ucast_up) simp
  have ul: "unat (ucast (13 + of_nat n :: u32) :: u64) = 13 + n"
    using d(2) by (simp add: ucast_nat_small unat_word_ariths unat_of_nat)
  have s: "unat (bytes_sent c + ucast (13 + of_nat n :: u32)) = unat (bytes_sent c) + (13 + n)"
    using inv le d(2) ul by (subst unat_add_small) (simp_all add: amp_inv_def)
  have p: "unat (bytes_received c * ucast (anti_amp_factor c)) = unat (bytes_received c) * unat (anti_amp_factor c)"
    using le by (simp add: unat_word_ariths fu)
  have "bytes_sent c + ucast (13 + of_nat n :: u32) \<le> bytes_received c * ucast (anti_amp_factor c)"
    using a inv by (simp add: dtls_anti_amp_allows_def amp_inv_def split: if_splits)
  then have bound: "unat (bytes_sent c) + (13 + n) \<le> unat (bytes_received c) * unat (anti_amp_factor c)"
    by (simp only: word_le_nat_alt s p)
  have "(of_nat (length d) :: u64) = ucast (13 + of_nat n :: u32)"
    using d by (simp add: ucast_nat_small)
  then have "unat (bytes_sent c') = unat (bytes_sent c) + (13 + n)" using m s by (simp add: emits_def)
  moreover have "wire_bytes c' = wire_bytes c + (13 + n)" using m d by (simp add: wire_bytes_def emits_def)
  ultimately show ?thesis using inv m bound by (simp add: amp_inv_def emits_def)
qed

lemma amp_inv_same_wire: "amp_inv c \<Longrightarrow> same_wire c c' \<Longrightarrow> amp_inv c'"
  by (simp add: amp_inv_def same_wire_def wire_bytes_def)

lemma amp_step:
  assumes inv: "amp_inv c" and a: "a \<noteq> Retransmit" "a \<noteq> Mark_validated"
    and r: "unat (bytes_received c) + received_by [a] < 2 ^ 55"
  shows "amp_inv (wire_step protect rehandshake c a) \<and>
    anti_amp_factor (wire_step protect rehandshake c a) = anti_amp_factor c \<and>
    unat (bytes_received (wire_step protect rehandshake c a)) = unat (bytes_received c) + received_by [a]"
proof (cases a)
  case (Send t d)
  obtain rc ctx' where s: "noxtls_dtls_send_record (Some c) t d = (rc, ctx')" by fastforce
  then show ?thesis
  proof (cases rule: send_record_effect)
    case (quiet c')
    then show ?thesis using amp_inv_same_wire [OF inv] s Send by (auto simp: same_wire_def)
  next
    case (emitted c' v)
    then have "amp_inv c'" using r Send by (intro amp_inv_emits [OF inv emitted(2,5)]) simp_all
    then show ?thesis using emitted(1,2) s Send by (simp add: emits_def)
  qed
next
  case (Send_protected t d)
  obtain rc ctx' where s: "noxtls_dtls_send_protected_record protect (Some c) t d = (rc, ctx')" by fastforce
  then show ?thesis
  proof (cases rule: send_protected_effect)
    case (quiet c')
    then show ?thesis using amp_inv_same_wire [OF inv] s Send_protected by (auto simp: same_wire_def)
  next
    case (emitted c' c1 seal out)
    then have "amp_inv c'" using r Send_protected by (intro amp_inv_emits [OF inv emitted(5,7)]) simp_all
    then show ?thesis using emitted(1,5) s Send_protected by (simp add: emits_def)
  qed
next
  case (Received n)
  have u: "unat (bytes_received c + n) = unat (bytes_received c) + unat n"
    using r Received by (intro unat_add_small) simp
  have "unat (bytes_received c) * unat (anti_amp_factor c) \<le>
      (unat (bytes_received c) + unat n) * unat (anti_amp_factor c)" by (rule mult_le_mono1) simp
  then show ?thesis using inv Received u by (auto simp: amp_inv_def wire_bytes_def intro: le_trans)
qed (use inv a in \<open>auto simp: amp_inv_def wire_bytes_def noxtls_dtls_next_write_epoch_def
      noxtls_dtls_flight_peer_progress_def noxtls_dtls_flight_reset_def dtls_flight_clear_def\<close>)

lemma received_by_Cons: "received_by (a # ops) = received_by [a] + received_by ops"
  by (cases a) simp_all



text \<open>
  Claim C9. Retransmission is where the limit can be passed: a protected record is checked with the length
  of its plaintext, and the sealed record that goes out is longer. Here 14 plaintext bytes pass
  the check with a budget of 30 and 32 bytes go out.
\<close>

theorem dtls_resend_exceeds_limit:
  "\<exists>c seal rc c' rec'. role c = TLS_ROLE_SERVER \<and> validated c = 0 \<and> anti_amp_factor c = 3 \<and>
     bytes_received c = 10 \<and> send_log c = [] \<and>
     dtls12_flight_resend_record (Some seal) c DTLS_FLIGHT_ENTRY_PROTECT
       (record_header 22 DTLS_VERSION_1_2 0 0 1 @ [5]) = (rc, c', rec') \<and>
     wire_bytes c' = 32"
proof -
  let ?c = "(fresh_endpoint TLS_ROLE_SERVER DTLS_VERSION_1_2)\<lparr>bytes_received := 10\<rparr>"
  let ?seal = "\<lambda>_ _ d :: bytes. (NOXTLS_RETURN_SUCCESS, d @ replicate 18 0)"
  let ?rec = "record_header 22 DTLS_VERSION_1_2 0 0 1 @ [5]"
  have ep: "dtls_read_uint16 (drop 3 ?rec) = 0" by (simp add: drop_record_header del: drop_append)
  let ?w = "put_at 11 (dtls_write_uint16 19) (put_at 5 (dtls_write_uint48 0) (take 13 ?rec))"
  have p: "length ?w = 13" by (simp add: put_at_def)
  have "wire_bytes (fst (snd (dtls12_flight_resend_record (Some ?seal) ?c DTLS_FLIGHT_ENTRY_PROTECT ?rec))) = 32"
    using p by (simp add: dtls12_flight_resend_record_def Let_def ep seq_counter_def resend_sealed_def
        endpoint_defs bump_counter_def count_sent_def wire_bytes_def del: take_append drop_append)
  then show ?thesis
    by (intro exI [of _ ?c] exI [of _ ?seal]) (simp add: endpoint_defs prod_eq_iff)
qed

end
