(* ===== verification/Dtls_Receive.thy ===== *)
theory Dtls_Receive
  imports Dtls_Retransmit Dtls_Reassembly
begin

text \<open>
  The receiving side of \<open>tls/noxtls_dtls_common.c\<close>: reading a datagram (with the
  retransmission timer that runs while there is none), splitting it into records, and the
  checks that accept or discard a record; then the handshake fragments, sent and received, and
  the cookie exchange.

  The transport's receive callback is a script of answers, consumed one per call; a call past
  its end reports an error. A \<open>continue\<close> of the receive loop is \<open>Discarded\<close>. On failure the
  caller's record is not used, and no record is returned.
\<close>

record dtls_record_t =
  rec_type :: u8
  rec_version :: u16
  rec_epoch :: u16
  rec_sequence_number :: u64
  rec_length :: u16
  rec_data :: "bytes option"

section \<open>Datagrams\<close>

definition noxtls_tls13_dtls13_record_size :: "bytes \<Rightarrow> u8 \<Rightarrow> u32" where
  "noxtls_tls13_dtls13_record_size raw own_cid_len =
     (if length raw < 2 then 0
      else if raw ! 0 AND 0xE0 \<noteq> DTLS13_UNIFIED_FIXED_BITS then 0
      else if raw ! 0 AND 0x10 \<noteq> 0 \<and> own_cid_len = 0 then 0
      else
        let cid_len = (if raw ! 0 AND 0x10 \<noteq> 0 then unat own_cid_len else 0);
            seq_len = (if raw ! 0 AND 0x08 \<noteq> 0 then 2 else 1);
            len_offset = 1 + cid_len + seq_len
        in if raw ! 0 AND 0x04 \<noteq> 0
           then
             (if length raw < len_offset + 2 + 16 then 0
              else
                let ciphertext_len = push_bit 8 (ucast (raw ! len_offset)) OR ucast (raw ! (len_offset + 1)) :: u32;
                    record_len = of_nat (len_offset + 2) + ciphertext_len
                in if ciphertext_len < 16 then 0
                   else if record_len > of_nat (length raw) then 0
                   else record_len)
           else if length raw < len_offset + 16 then 0
           else of_nat (length raw))"

definition dtls_rx_stash_remainder :: "dtls_context \<Rightarrow> bytes \<Rightarrow> dtls_context" where
  "dtls_rx_stash_remainder c rest =
     (let c1 = c\<lparr>rx_datagram := None\<rparr> in
      if length rest < unat DTLS_RECORD_HEADER_SIZE then c1
      else (let (ok, c2) = ctx_alloc c1 in if ok then c2\<lparr>rx_datagram := Some rest\<rparr> else c2))"

text \<open>The retransmission timer, run when the transport has no data; \<open>True\<close> asks for another read.\<close>

definition next_timeout :: "u32 \<Rightarrow> u32 \<Rightarrow> u32" where
  "next_timeout timeout backoff =
     (let t = ucast ((ucast timeout * ucast backoff :: u64) div 1000) :: u32;
          t = (if t = 0 then 1 else t)
      in if t > 60000 then 60000 else t)"

definition timer_step ::
  "protect_record_fn \<Rightarrow> retransmit_handshake_fn \<Rightarrow> dtls_context \<Rightarrow> bool \<times> dtls_context" where
  "timer_step protect rehandshake c =
     (let c1 = dtls_retransmit_note_progress c in
      if flight_buffer_len c1 > 0 \<and> flight_final c1 = 0 \<and> retransmit_count c1 < retransmit_max_attempts c1
      then
        let (early, c2) =
              (case time_callback c1 of
                 None \<Rightarrow> (False, c1)
               | Some now \<Rightarrow>
                   let c2 = (if last_flight_sent_ms c1 = 0 then c1\<lparr>last_flight_sent_ms := now\<rparr> else c1)
                   in (now - last_flight_sent_ms c2 < ucast (retransmit_timeout_ms c2), c2))
        in if early then (False, c2)
           else
             let ctx3 = snd (dtls_flight_retransmit protect rehandshake
                               (Some (c2\<lparr>retransmit_count := retransmit_count c2 + 1\<rparr>)));
                 c3 = the ctx3
             in (True, c3\<lparr>retransmit_timeout_ms :=
                            next_timeout (retransmit_timeout_ms c3) (retransmit_backoff_ms c3)\<rparr>)
      else (False, c1))"

fun read_loop ::
  "protect_record_fn \<Rightarrow> retransmit_handshake_fn \<Rightarrow> nat \<Rightarrow> u32 \<Rightarrow> recv_answer list \<Rightarrow> dtls_context \<Rightarrow>
   noxtls_return_t \<times> dtls_context \<times> bytes" where
  "read_loop protect rehandshake capacity short_discards [] c =
     (NOXTLS_RETURN_FAILED, c\<lparr>recv_callback := Some []\<rparr>, [])"
| "read_loop protect rehandshake capacity short_discards (a # as) c =
     (let c0 = c\<lparr>recv_callback := Some as\<rparr> in
      case a of
        Recv_error \<Rightarrow> (NOXTLS_RETURN_FAILED, c0, [])
      | Recv_none \<Rightarrow>
          let (again, c1) = timer_step protect rehandshake c0
          in if again then read_loop protect rehandshake capacity short_discards as c1
             else (NOXTLS_RETURN_TIMEOUT, c1, [])
      | Recv_data d \<Rightarrow>
          if length (take capacity d) < unat DTLS_RECORD_HEADER_SIZE
          then (if short_discards + 1 \<ge> DTLS12_MAX_RECORDS_PER_READ then (NOXTLS_RETURN_TIMEOUT, c0, [])
                else read_loop protect rehandshake capacity (short_discards + 1) as c0)
          else (NOXTLS_RETURN_SUCCESS,
                c0\<lparr>retransmit_timeout_ms :=
                     (if retransmit_base_timeout_ms c0 = 0 then 1000 else retransmit_base_timeout_ms c0),
                   bytes_received := bytes_received c0 + of_nat (length (take capacity d))\<rparr>,
                take capacity d))"

definition dtls_read_datagram ::
  "protect_record_fn \<Rightarrow> retransmit_handshake_fn \<Rightarrow> nat \<Rightarrow> dtls_context \<Rightarrow>
   noxtls_return_t \<times> dtls_context \<times> bytes" where
  "dtls_read_datagram protect rehandshake capacity c =
     (case rx_datagram c of
        Some d \<Rightarrow> (NOXTLS_RETURN_SUCCESS, c\<lparr>rx_datagram := None\<rparr>, take capacity d)
      | None \<Rightarrow> read_loop protect rehandshake capacity 0
                  (case recv_callback c of None \<Rightarrow> [] | Some as \<Rightarrow> as) c)"

section \<open>One packet\<close>

datatype packet_outcome = Discarded dtls_context | Returned noxtls_return_t dtls_context "dtls_record_t option"

definition recv_unified :: "dtls_context \<Rightarrow> bytes \<Rightarrow> packet_outcome" where
  "recv_unified c p =
     (let consumed = unat (noxtls_tls13_dtls13_record_size p (own_connection_id_len c));
          more = (consumed \<noteq> 0 \<and> length p > consumed);
          c1 = (if more then dtls_rx_stash_remainder c (drop consumed p) else c)
      in if read_connection_epoch c = 0 then Discarded c1
         else
           let p1 = (if more then take consumed p else p);
               (ok, c2) = ctx_alloc c1
           in if \<not> ok then Returned NOXTLS_RETURN_NOT_ENOUGH_MEMORY c2 None
              else Returned NOXTLS_RETURN_SUCCESS c2
                (Some \<lparr>rec_type = p ! 0, rec_version = DTLS_VERSION_1_3, rec_epoch = ucast (p ! 0 AND 0x03),
                       rec_sequence_number = 0, rec_length = of_nat (length p1), rec_data = Some p1\<rparr>))"

text \<open>The record's data are copied out, unless it is empty.\<close>

definition take_data :: "dtls_context \<Rightarrow> dtls_record_t \<Rightarrow> bytes \<Rightarrow> (dtls_context + dtls_context \<times> dtls_record_t)" where
  "take_data c r p =
     (if rec_length r > 0
      then (let (ok, c1) = ctx_alloc c in
            if ok then Inr (c1, r\<lparr>rec_data := Some (take (unat (rec_length r)) (drop 13 p))\<rparr>) else Inl c1)
      else Inr (c, r))"

definition recv_v12 :: "dtls_context \<Rightarrow> bytes \<Rightarrow> dtls_record_t \<Rightarrow> packet_outcome" where
  "recv_v12 c p r =
     (let need = 13 + unat (rec_length r) in
      if (ucast (rec_length r) :: u32) > TLS_MAX_PROTECTED_RECORD_FRAGMENT \<or> need > length p then Discarded c
      else
        let c1 = (if length p > need then dtls_rx_stash_remainder c (drop need p) else c)
        in if rec_epoch r \<noteq> read_epoch c1 then Discarded c1
           else if noxtls_dtls_check_replay (Some c1) (rec_sequence_number r) \<noteq> NOXTLS_RETURN_SUCCESS
           then Discarded c1
           else if (ucast (rec_length r) :: u32) > TLS_MAX_RECORD_SIZE
           then Returned NOXTLS_RETURN_INVALID_PARAM c1 None
           else
             (case take_data (c1\<lparr>read_seq_num := rec_sequence_number r\<rparr>) r p of
                Inl c2 \<Rightarrow> Returned NOXTLS_RETURN_NOT_ENOUGH_MEMORY c2 None
              | Inr (c2, r2) \<Rightarrow>
                  Returned NOXTLS_RETURN_SUCCESS
                    (if rec_epoch r2 = DTLS_EPOCH_UNENCRYPTED
                     then the (snd (noxtls_dtls_update_replay_window (Some c2) (rec_sequence_number r2)))
                     else c2)
                    (Some r2)))"

text \<open>The effects of an accepted DTLS 1.3 plaintext record on the replay and ACK state.\<close>

definition accept_v13 :: "dtls_context \<Rightarrow> dtls_record_t \<Rightarrow> dtls_context" where
  "accept_v13 c r =
     (let c1 = (if version c \<noteq> DTLS_VERSION_1_3 \<or> rec_type r \<noteq> TLS_RECORD_ACK
                then the (snd (noxtls_dtls_update_replay_window (Some c) (rec_sequence_number r))) else c)
      in if rec_type r = TLS_RECORD_HANDSHAKE
         then
           let c2 = (dtls_flight_clear c1)\<lparr>flight_has_range := 0\<rparr>
           in if rec_length r > 0 \<and> the (rec_data r) ! 0 = TLS_HANDSHAKE_ACK
              then c2\<lparr>ack_pending := 0, ack_range_valid := 0,
                      ack_ranges := map_option (\<lambda>_. []) (ack_ranges c2)\<rparr>
              else note_handshake_record c2 (rec_epoch r, rec_sequence_number r)
         else c1)"

definition recv_v13_plain :: "dtls_context \<Rightarrow> bytes \<Rightarrow> dtls_record_t \<Rightarrow> packet_outcome" where
  "recv_v13_plain c p r =
     (let need = 13 + unat (rec_length r);
          v13 = (version c = DTLS_VERSION_1_3)
      in if v13 \<and> read_connection_epoch c \<noteq> 0 \<and>
            (tls_state c \<noteq> TLS_STATE_HANDSHAKING \<or> rec_type r = TLS_RECORD_ACK \<or>
             rec_type r = TLS_RECORD_HANDSHAKE)
         then Discarded (if length p > need then dtls_rx_stash_remainder c (drop need p) else c)
         else
           let c1 = c\<lparr>read_seq_num := rec_sequence_number r\<rparr>
           in if rec_epoch r \<noteq> epoch c1 \<and>
                 (v13 \<and> rec_type r = TLS_RECORD_HANDSHAKE \<and> ucast (rec_epoch r) < read_connection_epoch c1 \<or>
                  \<not> (v13 \<and> rec_type r = TLS_RECORD_CHANGE_CIPHER_SPEC \<and> rec_epoch r = DTLS_EPOCH_UNENCRYPTED) \<and>
                  \<not> (v13 \<and> rec_type r = TLS_RECORD_ACK))
              then Discarded c1
              else if (ucast (rec_length r) :: u32) > TLS_MAX_RECORD_SIZE
              then Returned NOXTLS_RETURN_INVALID_PARAM c1 None
              else if length p < need then Discarded c1
              else
                let rc = (if v13 \<and> rec_type r = TLS_RECORD_ACK then NOXTLS_RETURN_SUCCESS
                          else noxtls_dtls_check_replay (Some c1) (rec_sequence_number r))
                in if rc \<noteq> NOXTLS_RETURN_SUCCESS
                   then Returned (if rc = NOXTLS_RETURN_FAILED then NOXTLS_RETURN_TIMEOUT else rc) c1 None
                   else
                     (case take_data c1 r p of
                        Inl c2 \<Rightarrow> Returned NOXTLS_RETURN_NOT_ENOUGH_MEMORY c2 None
                      | Inr (c2, r2) \<Rightarrow> Returned NOXTLS_RETURN_SUCCESS (accept_v13 c2 r2) (Some r2)))"

text \<open>The 13 header bytes; under DTLS 1.3 the legacy versions are reported as DTLS 1.3.\<close>

definition parse_header :: "dtls_context \<Rightarrow> bytes \<Rightarrow> dtls_record_t" where
  "parse_header c p =
     (let v = dtls_read_uint16 (drop 1 p) in
      \<lparr>rec_type = p ! 0,
       rec_version = (if version c = DTLS_VERSION_1_3 \<and> (v = DTLS_1_3_LEGACY_RECORD_VERSION \<or> v = 0xFEFF)
                      then DTLS_VERSION_1_3 else v),
       rec_epoch = dtls_read_uint16 (drop 3 p), rec_sequence_number = dtls_read_uint48 (drop 5 p),
       rec_length = dtls_read_uint16 (drop 11 p), rec_data = None\<rparr>)"

definition recv_packet :: "dtls_context \<Rightarrow> bytes \<Rightarrow> packet_outcome" where
  "recv_packet c p =
     (if version c = DTLS_VERSION_1_3 \<and> length p \<ge> 4 \<and> p ! 0 AND 0xE0 = 0x20 then recv_unified c p
      else if length p < unat DTLS_RECORD_HEADER_SIZE then Discarded c
      else if dtls_is_v12_record_layer (version c) then recv_v12 c p (parse_header c p)
      else recv_v13_plain c p (parse_header c p))"

fun recv_record_loop ::
  "protect_record_fn \<Rightarrow> retransmit_handshake_fn \<Rightarrow> nat \<Rightarrow> dtls_context \<Rightarrow>
   noxtls_return_t \<times> dtls_context \<times> dtls_record_t option" where
  "recv_record_loop protect rehandshake 0 c = (NOXTLS_RETURN_TIMEOUT, c, None)"
| "recv_record_loop protect rehandshake (Suc n) c =
     (case dtls_read_datagram protect rehandshake (13 + 16384) c of
        (rc, c1, p) \<Rightarrow>
          if rc \<noteq> NOXTLS_RETURN_SUCCESS then (rc, c1, None)
          else (case recv_packet c1 p of
                  Discarded c2 \<Rightarrow> recv_record_loop protect rehandshake n c2
                | Returned rc2 c2 r \<Rightarrow> (rc2, c2, r)))"

definition noxtls_dtls_recv_record ::
  "protect_record_fn \<Rightarrow> retransmit_handshake_fn \<Rightarrow> dtls_context option \<Rightarrow>
   noxtls_return_t \<times> dtls_context option \<times> dtls_record_t option" where
  "noxtls_dtls_recv_record protect rehandshake ctx =
     (case ctx of
        None \<Rightarrow> (NOXTLS_RETURN_NULL, None, None)
      | Some c \<Rightarrow>
          if recv_callback c = None then (NOXTLS_RETURN_FAILED, Some c, None)
          else
            let (ok, c1) = ctx_alloc c
            in if \<not> ok then (NOXTLS_RETURN_NOT_ENOUGH_MEMORY, Some c1, None)
               else (case recv_record_loop protect rehandshake (unat DTLS12_MAX_RECORDS_PER_READ) c1 of
                       (rc, c2, r) \<Rightarrow> (rc, Some c2, r)))"

end
