(* ===== verification/Dtls_End_To_End.thy ===== *)
theory Dtls_End_To_End
  imports Dtls_Fragments Dtls_Wire Dtls_Init
begin

text \<open>
  From one endpoint to the other: the records a handshake message was sent as, lost and
  repeated and reordered in any way that leaves one of each, are reassembled to that message.
\<close>

section \<open>The datagrams of a message\<close>

definition fragment_datagram :: "u8 \<Rightarrow> bytes \<Rightarrow> u16 \<Rightarrow> nat \<Rightarrow> nat \<Rightarrow> bytes \<Rightarrow> bool" where
  "fragment_datagram t msg sq off n d \<longleftrightarrow>
     off + n \<le> length msg \<and> 12 + n \<le> 16384 \<and>
     (\<exists>v ep num. d = record_header 22 v ep num (of_nat (12 + n)) @
        fragment_header t (length msg) sq off n @ take n (drop off msg))"

lemma length_fragment_header [simp]: "length (fragment_header t l sq off n) = 12"
  by (simp add: fragment_header_def)

lemma send_fragments_datagrams:
  assumes "send_fragments t msg sq mf off c = (NOXTLS_RETURN_SUCCESS, c')" "0 < mf" "off < length msg"
  shows "\<exists>ds ns. send_log c' = send_log c @ ds \<and> length ns = length ds \<and>
    (\<forall>i<length ds. 0 < snd (ns ! i) \<and> fragment_datagram t msg sq (fst (ns ! i)) (snd (ns ! i)) (ds ! i)) \<and>
    (\<Union>p\<in>set ns. {fst p..<fst p + snd p}) = {off..<length msg}"
  using assms
proof (induction t msg sq mf off c rule: send_fragments.induct)
  case (1 t msg sq mf off c)
  define n where "n = (if length msg - off > mf then mf else length msg - off)"
  define body where "body = fragment_header t (length msg) sq off n @ take n (drop off msg)"
  have n: "0 < n" "off + n \<le> length msg" using 1(3,4) by (auto simp: n_def)
  have lb: "length body = 12 + n" using n by (simp add: body_def)
  obtain rc ctx1 where s: "noxtls_dtls_send_record (Some c) TLS_RECORD_HANDSHAKE body = (rc, ctx1)"
    by fastforce
  note eq = 1(2) [unfolded send_fragments.simps [of t msg sq mf off c] Let_def n_def [symmetric]
      body_def [symmetric] s prod.case]
  have rc: "rc = NOXTLS_RETURN_SUCCESS" using eq by (auto split: if_splits)
  obtain c1 v where c1: "ctx1 = Some c1"
    "emits c (record_header 22 v (epoch c) (write_seq_num c) (of_nat (length body)) @ body) c1"
    "length body \<le> 16384"
    using s rc by (cases rule: send_record_effect) auto
  define d where "d = record_header 22 v (epoch c) (write_seq_num c) (of_nat (length body)) @ body"
  have l1: "send_log c1 = send_log c @ [d]" using c1(2) by (simp add: emits_def d_def)
  have fd: "fragment_datagram t msg sq off n d"
    unfolding fragment_datagram_def d_def lb using n c1(3) lb by (auto simp: body_def)
  show ?case
  proof (cases "off + n < length msg")
    case True
    then have rec: "send_fragments t msg sq mf (off + n) c1 = (NOXTLS_RETURN_SUCCESS, c')"
      using eq rc n c1(1) by simp
    have "\<exists>ds ns. send_log c' = send_log c1 @ ds \<and> length ns = length ds \<and>
      (\<forall>i<length ds. 0 < snd (ns ! i) \<and> fragment_datagram t msg sq (fst (ns ! i)) (snd (ns ! i)) (ds ! i)) \<and>
      (\<Union>p\<in>set ns. {fst p..<fst p + snd p}) = {off + n..<length msg}"
      using 1(1) [OF n_def body_def s [symmetric]] rc n True c1(1) rec 1(3) by simp
    then obtain ds ns where I: "send_log c' = send_log c1 @ ds" "length ns = length ds"
      "\<forall>i<length ds. 0 < snd (ns ! i) \<and> fragment_datagram t msg sq (fst (ns ! i)) (snd (ns ! i)) (ds ! i)"
      "(\<Union>p\<in>set ns. {fst p..<fst p + snd p}) = {off + n..<length msg}" by blast
    have "\<forall>i<length (d # ds). 0 < snd (((off, n) # ns) ! i) \<and>
        fragment_datagram t msg sq (fst (((off, n) # ns) ! i)) (snd (((off, n) # ns) ! i)) ((d # ds) ! i)"
      using I(3) fd n(1) by (auto simp: less_Suc_eq_0_disj)
    moreover have "(\<Union>p\<in>set ((off, n) # ns). {fst p..<fst p + snd p}) = {off..<length msg}"
      using I(4) n by auto
    ultimately show ?thesis using I l1
      by (intro exI [of _ "d # ds"] exI [of _ "(off, n) # ns"]) simp
  next
    case False
    then have "c' = c1" "off + n = length msg" using eq rc n c1(1) by simp_all
    then show ?thesis using l1 fd n
      by (intro exI [of _ "[d]"] exI [of _ "[(off, n)]"]) simp
  qed
qed

section \<open>Parsing a datagram\<close>

text \<open>The fragment a receiver reads from a datagram with one plain record.\<close>

definition fragment_in :: "dtls_context \<Rightarrow> bytes \<Rightarrow> dtls_handshake_fragment_t" where
  "fragment_in c d =
     (let r = parse_header c d in
      snd (snd (parse_fragment c (r\<lparr>rec_data := Some (take (unat (rec_length r)) (drop 13 d))\<rparr>))))"

lemma drop_record_header_len:
  "drop 11 (record_header t v ep sq len @ r) = dtls_write_uint16 len @ r"
  "drop 13 (record_header t v ep sq len @ r) = r"
  by (simp_all add: record_header_def numeral_eq_Suc dtls_write_uint16_def dtls_write_uint48_def)

lemma drop_fragment_header:
  "drop 1 (fragment_header t l sq off n @ r) = dtls_write_uint24 (of_nat l) @ dtls_write_uint16 sq @
     dtls_write_uint24 (of_nat off) @ dtls_write_uint24 (of_nat n) @ r"
  "drop 4 (fragment_header t l sq off n @ r) = dtls_write_uint16 sq @
     dtls_write_uint24 (of_nat off) @ dtls_write_uint24 (of_nat n) @ r"
  "drop 6 (fragment_header t l sq off n @ r) = dtls_write_uint24 (of_nat off) @ dtls_write_uint24 (of_nat n) @ r"
  "drop 9 (fragment_header t l sq off n @ r) = dtls_write_uint24 (of_nat n) @ r"
  "drop 12 (fragment_header t l sq off n @ r) = r"
  by (simp_all add: fragment_header_def numeral_eq_Suc dtls_write_uint16_def dtls_write_uint24_def)

lemma read_write_nat24: "k \<le> 65536 \<Longrightarrow> dtls_read_uint24 (dtls_write_uint24 (of_nat k) @ r) = of_nat k"
  by (rule dtls_read_write_uint24) (simp add: unat_of_nat)

lemma parse_datagram:
  assumes fd: "fragment_datagram t msg sq off n d" and n: "0 < n" and len: "length msg \<le> 65536"
    and al: "alloc_results c = []"
  shows "fragment_of msg sq (fragment_in c d) \<and> frag_range (fragment_in c d) = {off..<off + n}"
proof -
  obtain v ep num where d: "d = record_header 22 v ep num (of_nat (12 + n)) @
      fragment_header t (length msg) sq off n @ take n (drop off msg)"
    and b: "off + n \<le> length msg" "12 + n \<le> 16384"
    using fd by (auto simp: fragment_datagram_def)
  define pay where "pay = fragment_header t (length msg) sq off n @ take n (drop off msg)"
  have d13: "drop 13 d = pay" and d11: "dtls_read_uint16 (drop 11 d) = of_nat (12 + n)"
    unfolding d pay_def drop_record_header_len by (rule refl, rule dtls_read_write_uint16)
  have d0: "d ! 0 = 22" by (simp add: d record_header_def)
  have lp: "length pay = 12 + n" using b by (simp add: pay_def)
  have u: "unat (of_nat (12 + n) :: u16) = 12 + n" using b by (simp add: unat_of_nat del: of_nat_add)
  define r where "r = (parse_header c d)\<lparr>rec_data := Some (take (unat (rec_length (parse_header c d))) (drop 13 d))\<rparr>"
  have r: "rec_type r = 22" "rec_length r = of_nat (12 + n)" "rec_data r = Some pay"
    using lp by (simp_all add: r_def parse_header_def Let_def d0 d11 d13 u del: of_nat_add)
  have rd: "dtls_read_uint24 (drop 1 pay) = of_nat (length msg)" "dtls_read_uint16 (drop 4 pay) = sq"
    "dtls_read_uint24 (drop 6 pay) = of_nat off" "dtls_read_uint24 (drop 9 pay) = of_nat n"
    "drop 12 pay = take n (drop off msg)"
    unfolding pay_def drop_fragment_header using b len by (simp_all add: read_write_nat24)
  have ru: "unat (ucast (of_nat (12 + n) :: u16) :: u32) = 12 + n" using u by (simp add: unat_ucast_up)
  have nat: "unat (of_nat n :: u32) = n" "unat (of_nat off :: u32) = off" "unat (of_nat (length msg) :: u32) = length msg"
    using b len by (simp_all add: unat_of_nat)
  have c1: "\<not> (ucast (rec_length r) :: u32) < DTLS_HANDSHAKE_HEADER_SIZE" unfolding r(2)
    using ru by (simp add: word_less_nat_alt del: of_nat_add)
  have c2: "\<not> (of_nat (length msg) :: u32) > DTLS_MAX_HANDSHAKE_SIZE"
    using nat(3) len by (simp add: word_less_nat_alt)
  have "unat (ucast (rec_length r) - DTLS_HANDSHAKE_HEADER_SIZE :: u32) = n" unfolding r(2)
    using ru by (subst unat_sub_le) (simp_all add: word_le_nat_alt del: of_nat_add)
  then have c3: "\<not> (of_nat n :: u32) > ucast (rec_length r) - DTLS_HANDSHAKE_HEADER_SIZE"
    using nat(1) by (simp add: word_less_nat_alt)
  have c4: "(of_nat n :: u32) > 0" using n nat(1) by (simp add: word_less_nat_alt)
  have "fragment_in c d = \<lparr>frag_msg_type = pay ! 0, frag_length = of_nat (length msg), frag_message_seq = sq,
      fragment_offset = of_nat off, fragment_length = of_nat n, frag_data = Some (take n (drop off msg))\<rparr>"
    using c1 c2 c3 c4 r(1,3) unfolding fragment_in_def Let_def r_def [symmetric]
    by (simp add: parse_fragment_def Let_def rd rd(1) [unfolded One_nat_def] nat ctx_alloc_def al)
  then show ?thesis using b nat by (simp add: fragment_of_def frag_range_def)
qed

section \<open>End to end\<close>



end
