(* ===== verification/Ct_Memory.thy ===== *)
theory Ct_Memory
  imports Nox_Prelude
begin

text \<open>
  The memory helpers of \<open>common/noxtls_ct.c\<close>: constant-time comparison, wiping, bounded copy,
  fill and move, and the string comparisons. A pointer is an optional buffer; the lengths that
  callers pass are within the buffers. \<open>noxtls_move_u8\<close>, whose source and destination may
  overlap, works on one memory with two addresses.
\<close>

section \<open>Comparison\<close>

definition noxtls_ct_memcmp :: "bytes option \<Rightarrow> bytes option \<Rightarrow> nat \<Rightarrow> int" where
  "noxtls_ct_memcmp a b len =
     (case (a, b) of
        (Some pa, Some pb) \<Rightarrow>
          uint (foldl (\<lambda>diff i. diff OR (pa ! i XOR pb ! i)) (0 :: u8) [0..<len])
      | _ \<Rightarrow> 1)"

definition noxtls_ct_equal :: "bytes option \<Rightarrow> bytes option \<Rightarrow> nat \<Rightarrow> int" where
  "noxtls_ct_equal a b len = (if noxtls_ct_memcmp a b len = 0 then 1 else 0)"

definition noxtls_secret_memcmp :: "bytes option \<Rightarrow> bytes option \<Rightarrow> nat \<Rightarrow> int" where
  "noxtls_secret_memcmp a b len = noxtls_ct_memcmp a b len"

section \<open>Wiping, copying, filling\<close>

fun secure_zero_from :: "bytes \<Rightarrow> nat \<Rightarrow> nat \<Rightarrow> bytes" where
  "secure_zero_from p i 0 = p"
| "secure_zero_from p i (Suc remaining) = secure_zero_from (p[i := 0]) (i + 1) remaining"

definition noxtls_secure_zero :: "bytes option \<Rightarrow> nat \<Rightarrow> bytes option" where
  "noxtls_secure_zero ptr len =
     (case ptr of None \<Rightarrow> None | Some p \<Rightarrow> if len = 0 then Some p else Some (secure_zero_from p 0 len))"

definition noxtls_copy_u8 :: "bytes option \<Rightarrow> nat \<Rightarrow> bytes option \<Rightarrow> nat \<Rightarrow> bytes option" where
  "noxtls_copy_u8 dst dst_cap src n =
     (case (dst, src) of
        (Some d, Some s) \<Rightarrow>
          if dst_cap = 0 \<or> n = 0 then dst
          else (let lim = (if n > dst_cap then dst_cap else n)
                in Some (foldl (\<lambda>m i. m[i := s ! i]) d [0..<lim]))
      | _ \<Rightarrow> dst)"

definition noxtls_fill_u8 :: "bytes option \<Rightarrow> nat \<Rightarrow> u8 \<Rightarrow> nat \<Rightarrow> bytes option" where
  "noxtls_fill_u8 dst dst_cap fill_byte n =
     (case dst of
        None \<Rightarrow> None
      | Some d \<Rightarrow>
          if dst_cap = 0 \<or> n = 0 then dst
          else (let lim = (if n > dst_cap then dst_cap else n)
                in Some (foldl (\<lambda>m i. m[i := fill_byte]) d [0..<lim])))"

text \<open>Ascending when the destination is below the source, descending otherwise.\<close>

definition noxtls_move_u8 :: "bytes \<Rightarrow> nat \<Rightarrow> nat \<Rightarrow> nat \<Rightarrow> nat \<Rightarrow> bytes" where
  "noxtls_move_u8 mem dst dst_cap src n =
     (if dst_cap = 0 \<or> n = 0 \<or> dst = src then mem
      else
        let lim = (if n > dst_cap then dst_cap else n);
            step = (\<lambda>m i. m[dst + i := m ! (src + i)])
        in if dst < src then foldl step mem [0..<lim] else foldl step mem (rev [0..<lim]))"

section \<open>Strings\<close>

text \<open>
  A string is the buffer its pointer points into; a buffer without a terminator has no
  meaning (\<open>None\<close>).
\<close>

fun noxtls_u8_strlen :: "bytes \<Rightarrow> nat option" where
  "noxtls_u8_strlen [] = None"
| "noxtls_u8_strlen (c # s) = (if c \<noteq> 0 then map_option Suc (noxtls_u8_strlen s) else Some 0)"

fun strcmp_loop :: "bytes \<Rightarrow> bytes \<Rightarrow> int option" where
  "strcmp_loop (x # a) (y # b) = (if x \<noteq> 0 \<and> x = y then strcmp_loop a b else Some (uint x - uint y))"
| "strcmp_loop _ _ = None"

definition noxtls_u8_strcmp :: "bytes option \<Rightarrow> bytes option \<Rightarrow> int option" where
  "noxtls_u8_strcmp a b =
     (case (a, b) of
        (None, None) \<Rightarrow> Some 0
      | (None, _) \<Rightarrow> Some (- 1)
      | (_, None) \<Rightarrow> Some 1
      | (Some x, Some y) \<Rightarrow> strcmp_loop x y)"

fun strncmp_loop :: "bytes \<Rightarrow> bytes \<Rightarrow> nat \<Rightarrow> int option" where
  "strncmp_loop a b 0 = Some 0"
| "strncmp_loop (x # a) (y # b) (Suc n) =
     (if x \<noteq> 0 \<and> x = y then strncmp_loop a b n else Some (uint x - uint y))"
| "strncmp_loop _ _ _ = None"

definition noxtls_u8_strncmp :: "bytes option \<Rightarrow> bytes option \<Rightarrow> nat \<Rightarrow> int option" where
  "noxtls_u8_strncmp a b n =
     (if n = 0 then Some 0
      else case (a, b) of
        (None, None) \<Rightarrow> Some 0
      | (None, _) \<Rightarrow> Some (- 1)
      | (_, None) \<Rightarrow> Some 1
      | (Some x, Some y) \<Rightarrow> strncmp_loop x y n)"

section \<open>Correctness\<close>

lemma secure_zero_from_nth:
  "length (secure_zero_from p i n) = length p \<and>
   (\<forall>j<length p. secure_zero_from p i n ! j = (if i \<le> j \<and> j < i + n then 0 else p ! j))"
  by (induction p i n rule: secure_zero_from.induct) (auto simp: nth_list_update)

lemma secure_zero_all: "n = length p \<Longrightarrow> noxtls_secure_zero (Some p) n = Some (replicate n 0)"
  using secure_zero_from_nth [of p 0 n]
  by (auto simp: noxtls_secure_zero_def intro!: nth_equalityI)

lemma fold_or_zero:
  "(foldl (\<lambda>diff i. diff OR f i) (d :: 'a::len word) is = 0) \<longleftrightarrow> d = 0 \<and> (\<forall>i\<in>set is. f i = 0)"
  by (induction "is" arbitrary: d) (auto simp: or_eq_0_iff)

lemma ct_memcmp_zero:
  assumes "len \<le> length a" "len \<le> length b"
  shows "noxtls_ct_memcmp (Some a) (Some b) len = 0 \<longleftrightarrow> take len a = take len b"
proof -
  have "noxtls_ct_memcmp (Some a) (Some b) len = 0 \<longleftrightarrow> (\<forall>i<len. a ! i XOR b ! i = 0)"
    by (simp add: noxtls_ct_memcmp_def unsigned_eq_0_iff fold_or_zero Ball_def)
  also have "\<dots> \<longleftrightarrow> (\<forall>i<len. a ! i = b ! i)"
    by (metis xor.left_neutral xor.right_neutral xor_self_eq bit.xor_left_self)
  finally show ?thesis using assms by (auto simp: list_eq_iff_nth_eq)
qed

lemma move_ascending:
  assumes "dst < src" "src + k \<le> length mem"
  shows "length (foldl (\<lambda>m i. m[dst + i := m ! (src + i)]) mem [0..<k]) = length mem \<and>
    (\<forall>j<length mem. foldl (\<lambda>m i. m[dst + i := m ! (src + i)]) mem [0..<k] ! j =
       (if dst \<le> j \<and> j < dst + k then mem ! (src + (j - dst)) else mem ! j))"
  using assms by (induction k) (auto simp: nth_list_update)

lemma move_descending:
  assumes "src < dst" "dst + k \<le> length mem"
  shows "length (foldl (\<lambda>m i. m[dst + i := m ! (src + i)]) mem (rev [lo..<k])) = length mem \<and>
    (\<forall>j<length mem. foldl (\<lambda>m i. m[dst + i := m ! (src + i)]) mem (rev [lo..<k]) ! j =
       (if dst + lo \<le> j \<and> j < dst + k then mem ! (src + (j - dst)) else mem ! j))"
proof (induction "k - lo" arbitrary: lo)
  case (Suc x)
  then have lo: "lo < k" by simp
  then have "rev [lo..<k] = rev [Suc lo..<k] @ [lo]" by (simp add: upt_conv_Cons)
  then show ?case using Suc(1) [of "Suc lo"] Suc(2) lo assms by (auto simp: nth_list_update)
qed auto

text \<open>
  Claim C11. The constant-time comparison of two buffers returns 0 exactly when their first
  \<open>len\<close> bytes are equal, and never for a null pointer; so the MAC, tag and cookie checks built
  on it accept equal values only.
\<close>

theorem ct_memcmp_correct:
  assumes "\<And>x. a = Some x \<Longrightarrow> len \<le> length x" and "\<And>x. b = Some x \<Longrightarrow> len \<le> length x"
  shows "noxtls_secret_memcmp a b len = 0 \<longleftrightarrow>
    (\<exists>x y. a = Some x \<and> b = Some y \<and> take len x = take len y)"
proof (cases a; cases b)
  fix x y assume "a = Some x" "b = Some y"
  then show ?thesis using assms ct_memcmp_zero [of len x y] by (simp add: noxtls_secret_memcmp_def)
qed (simp_all add: noxtls_secret_memcmp_def noxtls_ct_memcmp_def)

theorem ct_memcmp_correct_witness:
  "noxtls_secret_memcmp (Some [1, 2, 3]) (Some [1, 2, 4]) 2 = 0 \<and>
   noxtls_secret_memcmp (Some [1, 2, 3]) (Some [1, 2, 4]) 3 \<noteq> 0"
  using ct_memcmp_correct [of "Some [1, 2, 3]" 2 "Some [1, 2, 4]"]
    ct_memcmp_correct [of "Some [1, 2, 3]" 3 "Some [1, 2, 4]"] by simp

text \<open>
  Claim \<open>noxtls_move_u8\<close> copies the source as it was before the call, however the two
  ranges overlap: no byte is read after it was overwritten.
\<close>

theorem move_u8_correct:
  assumes "dst + min n dst_cap \<le> length mem" and "src + min n dst_cap \<le> length mem"
  shows "noxtls_move_u8 mem dst dst_cap src n =
    put_at dst (take (min n dst_cap) (drop src mem)) mem"
proof -
  define k where "k = min n dst_cap"
  have put: "length (put_at dst (take k (drop src mem)) mem) = length mem \<and>
      (\<forall>j<length mem. put_at dst (take k (drop src mem)) mem ! j =
         (if dst \<le> j \<and> j < dst + k then mem ! (src + (j - dst)) else mem ! j))"
    using assms by (auto simp: put_at_def nth_append k_def [symmetric])
  have lim: "(if n > dst_cap then dst_cap else n) = k" by (simp add: k_def)
  show ?thesis
  proof (cases "k = 0 \<or> dst = src")
    case True
    then have "put_at dst (take k (drop src mem)) mem = mem"
      using put by (intro nth_equalityI) auto
    then show ?thesis using True by (auto simp: noxtls_move_u8_def lim [symmetric] k_def)
  next
    case False
    then have "noxtls_move_u8 mem dst dst_cap src n =
        (if dst < src then foldl (\<lambda>m i. m[dst + i := m ! (src + i)]) mem [0..<k]
         else foldl (\<lambda>m i. m[dst + i := m ! (src + i)]) mem (rev [0..<k]))"
      by (simp add: noxtls_move_u8_def lim) (auto simp: k_def)
    then show ?thesis
      using False put assms move_ascending [of dst src k mem] move_descending [of src dst k mem 0]
      by (intro nth_equalityI) (auto simp: k_def [symmetric])
  qed
qed

theorem move_u8_correct_witness:
  "noxtls_move_u8 [1, 2, 3, 4, 5] 1 4 0 3 = [1, 1, 2, 3, 5]"
  using move_u8_correct [of 1 3 4 "[1, 2, 3, 4, 5]" 0] by (simp add: put_at_def)

end
