(* ===== verification/Aes_Sbox.thy ===== *)
theory Aes_Sbox
  imports Nox_Prelude
begin

text \<open>
  The AES S-box of \<open>encryption/aes/noxtls_aes.c\<close>. The default build computes it with a bitsliced
  circuit on eight words whose bit planes hold up to 32 bytes; the table build looks it up. The
  circuit is one definition over its gates, used on 32-bit words as the code does and on single
  bits in the proofs. The theorems: the bit transpose is what it says, the circuit is the table,
  and the inverse form of the circuit is the inverse table.
\<close>

section \<open>The bitsliced circuit\<close>

definition aes_ct_swapn :: "u32 \<Rightarrow> u32 \<Rightarrow> u32 \<Rightarrow> u32 \<Rightarrow> nat \<Rightarrow> u32 \<times> u32" where
  "aes_ct_swapn x y cl ch s =
     ((x AND cl) OR push_bit s (y AND cl), drop_bit s (x AND ch) OR (y AND ch))"

definition aes_ct_ortho :: "u32 list \<Rightarrow> u32 list" where
  "aes_ct_ortho q =
     (let (a0, a1) = aes_ct_swapn (q ! 0) (q ! 1) 0x55555555 0xAAAAAAAA 1;
          (a2, a3) = aes_ct_swapn (q ! 2) (q ! 3) 0x55555555 0xAAAAAAAA 1;
          (a4, a5) = aes_ct_swapn (q ! 4) (q ! 5) 0x55555555 0xAAAAAAAA 1;
          (a6, a7) = aes_ct_swapn (q ! 6) (q ! 7) 0x55555555 0xAAAAAAAA 1;
          (b0, b2) = aes_ct_swapn a0 a2 0x33333333 0xCCCCCCCC 2;
          (b1, b3) = aes_ct_swapn a1 a3 0x33333333 0xCCCCCCCC 2;
          (b4, b6) = aes_ct_swapn a4 a6 0x33333333 0xCCCCCCCC 2;
          (b5, b7) = aes_ct_swapn a5 a7 0x33333333 0xCCCCCCCC 2;
          (c0, c4) = aes_ct_swapn b0 b4 0x0F0F0F0F 0xF0F0F0F0 4;
          (c1, c5) = aes_ct_swapn b1 b5 0x0F0F0F0F 0xF0F0F0F0 4;
          (c2, c6) = aes_ct_swapn b2 b6 0x0F0F0F0F 0xF0F0F0F0 4;
          (c3, c7) = aes_ct_swapn b3 b7 0x0F0F0F0F 0xF0F0F0F0 4
      in [c0, c1, c2, c3, c4, c5, c6, c7])"

text \<open>The gates, with the inputs numbered from the most significant bit as in the code.\<close>

definition sbox_gates ::
    "('a \<Rightarrow> 'a \<Rightarrow> 'a) \<Rightarrow> ('a \<Rightarrow> 'a \<Rightarrow> 'a) \<Rightarrow> ('a \<Rightarrow> 'a) \<Rightarrow>
     'a \<Rightarrow> 'a \<Rightarrow> 'a \<Rightarrow> 'a \<Rightarrow> 'a \<Rightarrow> 'a \<Rightarrow> 'a \<Rightarrow> 'a \<Rightarrow> 'a list" where
  "sbox_gates gxor gand gnot x0 x1 x2 x3 x4 x5 x6 x7 =
      (let y14 = gxor x3 x5; y13 = gxor x0 x6; y9 = gxor x0 x3; y8 = gxor x0 x5;
           t0 = gxor x1 x2; y1 = gxor t0 x7; y4 = gxor y1 x3; y12 = gxor y13 y14; y2 = gxor y1 x0;
           y5 = gxor y1 x6; y3 = gxor y5 y8; t1 = gxor x4 y12; y15 = gxor t1 x5; y20 = gxor t1 x1;
           y6 = gxor y15 x7; y10 = gxor y15 t0; y11 = gxor y20 y9; y7 = gxor x7 y11;
           y17 = gxor y10 y11; y19 = gxor y10 y8; y16 = gxor t0 y11; y21 = gxor y13 y16;
           y18 = gxor x0 y16; t2 = gand y12 y15; t3 = gand y3 y6; t4 = gxor t3 t2;
           t5 = gand y4 x7; t6 = gxor t5 t2; t7 = gand y13 y16; t8 = gand y5 y1; t9 = gxor t8 t7;
           t10 = gand y2 y7; t11 = gxor t10 t7; t12 = gand y9 y11; t13 = gand y14 y17;
           t14 = gxor t13 t12; t15 = gand y8 y10; t16 = gxor t15 t12; t17 = gxor t4 t14;
           t18 = gxor t6 t16; t19 = gxor t9 t14; t20 = gxor t11 t16; t21 = gxor t17 y20;
           t22 = gxor t18 y19; t23 = gxor t19 y21; t24 = gxor t20 y18; t25 = gxor t21 t22;
           t26 = gand t21 t23; t27 = gxor t24 t26; t28 = gand t25 t27; t29 = gxor t28 t22;
           t30 = gxor t23 t24; t31 = gxor t22 t26; t32 = gand t31 t30; t33 = gxor t32 t24;
           t34 = gxor t23 t33; t35 = gxor t27 t33; t36 = gand t24 t35; t37 = gxor t36 t34;
           t38 = gxor t27 t36; t39 = gand t29 t38; t40 = gxor t25 t39; t41 = gxor t40 t37;
           t42 = gxor t29 t33; t43 = gxor t29 t40; t44 = gxor t33 t37; t45 = gxor t42 t41;
           z0 = gand t44 y15; z1 = gand t37 y6; z2 = gand t33 x7; z3 = gand t43 y16;
           z4 = gand t40 y1; z5 = gand t29 y7; z6 = gand t42 y11; z7 = gand t45 y17;
           z8 = gand t41 y10; z9 = gand t44 y12; z10 = gand t37 y3; z11 = gand t33 y4;
           z12 = gand t43 y13; z13 = gand t40 y5; z14 = gand t29 y2; z15 = gand t42 y9;
           z16 = gand t45 y14; z17 = gand t41 y8; t46 = gxor z15 z16; t47 = gxor z10 z11;
           t48 = gxor z5 z13; t49 = gxor z9 z10; t50 = gxor z2 z12; t51 = gxor z2 z5;
           t52 = gxor z7 z8; t53 = gxor z0 z3; t54 = gxor z6 z7; t55 = gxor z16 z17;
           t56 = gxor z12 t48; t57 = gxor t50 t53; t58 = gxor z4 t46; t59 = gxor z3 t54;
           t60 = gxor t46 t57; t61 = gxor z14 t57; t62 = gxor t52 t58; t63 = gxor t49 t58;
           t64 = gxor z4 t59; t65 = gxor t61 t62; t66 = gxor z1 t63; s0 = gxor t59 t63;
           s6 = gxor t56 (gnot t62); s7 = gxor t48 (gnot t60); t67 = gxor t64 t65; s3 = gxor t53 t66;
           s4 = gxor t51 t66; s5 = gxor t47 t65; s1 = gxor t64 (gnot s3); s2 = gxor t55 (gnot t67)
      in [s7, s6, s5, s4, s3, s2, s1, s0])"

definition aes_ct_sbox :: "u32 list \<Rightarrow> u32 list" where
  "aes_ct_sbox q =
     sbox_gates (XOR) (AND) NOT (q ! 7) (q ! 6) (q ! 5) (q ! 4) (q ! 3) (q ! 2) (q ! 1) (q ! 0)"

definition inv_affine_gates ::
    "('a \<Rightarrow> 'a \<Rightarrow> 'a) \<Rightarrow> ('a \<Rightarrow> 'a) \<Rightarrow>
     'a \<Rightarrow> 'a \<Rightarrow> 'a \<Rightarrow> 'a \<Rightarrow> 'a \<Rightarrow> 'a \<Rightarrow> 'a \<Rightarrow> 'a \<Rightarrow> 'a list" where
  "inv_affine_gates gxor gnot q0 q1 q2 q3 q4 q5 q6 q7 =
     [gnot (gxor (gxor q7 q5) q2), gxor (gxor q0 q6) q3, gnot (gxor (gxor q1 q7) q4), gxor (gxor q2 q0) q5,
      gxor (gxor q3 q1) q6, gxor (gxor q4 q2) q7, gxor (gxor q5 q3) q0, gxor (gxor q6 q4) q1]"

definition aes_ct_inv_affine :: "u32 list \<Rightarrow> u32 list" where
  "aes_ct_inv_affine q =
     inv_affine_gates (XOR) NOT (q ! 0) (q ! 1) (q ! 2) (q ! 3) (q ! 4) (q ! 5) (q ! 6) (q ! 7)"

definition aes_ct_sub_bytes :: "u32 list \<Rightarrow> u32 \<Rightarrow> u32 list" where
  "aes_ct_sub_bytes s inverted =
     (let q = aes_ct_ortho [s ! 0, s ! 1, s ! 2, s ! 3, 0, 0, 0, 0];
          q = (if inverted \<noteq> 0 then aes_ct_inv_affine q else q);
          q = aes_ct_sbox q;
          q = (if inverted \<noteq> 0 then aes_ct_inv_affine q else q);
          q = aes_ct_ortho q
      in [q ! 0, q ! 1, q ! 2, q ! 3])"

section \<open>The tables\<close>

definition aes_sub_box :: "u8 list list" where
  "aes_sub_box =
    [[0x63, 0x7c, 0x77, 0x7b, 0xf2, 0x6b, 0x6f, 0xc5, 0x30, 0x01, 0x67, 0x2b, 0xfe, 0xd7, 0xab, 0x76],
     [0xca, 0x82, 0xc9, 0x7d, 0xfa, 0x59, 0x47, 0xf0, 0xad, 0xd4, 0xa2, 0xaf, 0x9c, 0xa4, 0x72, 0xc0],
     [0xb7, 0xfd, 0x93, 0x26, 0x36, 0x3f, 0xf7, 0xcc, 0x34, 0xa5, 0xe5, 0xf1, 0x71, 0xd8, 0x31, 0x15],
     [0x04, 0xc7, 0x23, 0xc3, 0x18, 0x96, 0x05, 0x9a, 0x07, 0x12, 0x80, 0xe2, 0xeb, 0x27, 0xb2, 0x75],
     [0x09, 0x83, 0x2c, 0x1a, 0x1b, 0x6e, 0x5a, 0xa0, 0x52, 0x3b, 0xd6, 0xb3, 0x29, 0xe3, 0x2f, 0x84],
     [0x53, 0xd1, 0x00, 0xed, 0x20, 0xfc, 0xb1, 0x5b, 0x6a, 0xcb, 0xbe, 0x39, 0x4a, 0x4c, 0x58, 0xcf],
     [0xd0, 0xef, 0xaa, 0xfb, 0x43, 0x4d, 0x33, 0x85, 0x45, 0xf9, 0x02, 0x7f, 0x50, 0x3c, 0x9f, 0xa8],
     [0x51, 0xa3, 0x40, 0x8f, 0x92, 0x9d, 0x38, 0xf5, 0xbc, 0xb6, 0xda, 0x21, 0x10, 0xff, 0xf3, 0xd2],
     [0xcd, 0x0c, 0x13, 0xec, 0x5f, 0x97, 0x44, 0x17, 0xc4, 0xa7, 0x7e, 0x3d, 0x64, 0x5d, 0x19, 0x73],
     [0x60, 0x81, 0x4f, 0xdc, 0x22, 0x2a, 0x90, 0x88, 0x46, 0xee, 0xb8, 0x14, 0xde, 0x5e, 0x0b, 0xdb],
     [0xe0, 0x32, 0x3a, 0x0a, 0x49, 0x06, 0x24, 0x5c, 0xc2, 0xd3, 0xac, 0x62, 0x91, 0x95, 0xe4, 0x79],
     [0xe7, 0xc8, 0x37, 0x6d, 0x8d, 0xd5, 0x4e, 0xa9, 0x6c, 0x56, 0xf4, 0xea, 0x65, 0x7a, 0xae, 0x08],
     [0xba, 0x78, 0x25, 0x2e, 0x1c, 0xa6, 0xb4, 0xc6, 0xe8, 0xdd, 0x74, 0x1f, 0x4b, 0xbd, 0x8b, 0x8a],
     [0x70, 0x3e, 0xb5, 0x66, 0x48, 0x03, 0xf6, 0x0e, 0x61, 0x35, 0x57, 0xb9, 0x86, 0xc1, 0x1d, 0x9e],
     [0xe1, 0xf8, 0x98, 0x11, 0x69, 0xd9, 0x8e, 0x94, 0x9b, 0x1e, 0x87, 0xe9, 0xce, 0x55, 0x28, 0xdf],
     [0x8c, 0xa1, 0x89, 0x0d, 0xbf, 0xe6, 0x42, 0x68, 0x41, 0x99, 0x2d, 0x0f, 0xb0, 0x54, 0xbb, 0x16]]"

definition aes_sbox_lookup :: "u8 \<Rightarrow> u8" where
  "aes_sbox_lookup x = aes_sub_box ! unat (drop_bit 4 x AND 0x0F) ! unat (x AND 0x0F)"

definition aes_inv_sub_box :: "u8 list list" where
  "aes_inv_sub_box =
    [[0x52, 0x09, 0x6a, 0xd5, 0x30, 0x36, 0xa5, 0x38, 0xbf, 0x40, 0xa3, 0x9e, 0x81, 0xf3, 0xd7, 0xfb],
     [0x7c, 0xe3, 0x39, 0x82, 0x9b, 0x2f, 0xff, 0x87, 0x34, 0x8e, 0x43, 0x44, 0xc4, 0xde, 0xe9, 0xcb],
     [0x54, 0x7b, 0x94, 0x32, 0xa6, 0xc2, 0x23, 0x3d, 0xee, 0x4c, 0x95, 0x0b, 0x42, 0xfa, 0xc3, 0x4e],
     [0x08, 0x2e, 0xa1, 0x66, 0x28, 0xd9, 0x24, 0xb2, 0x76, 0x5b, 0xa2, 0x49, 0x6d, 0x8b, 0xd1, 0x25],
     [0x72, 0xf8, 0xf6, 0x64, 0x86, 0x68, 0x98, 0x16, 0xd4, 0xa4, 0x5c, 0xcc, 0x5d, 0x65, 0xb6, 0x92],
     [0x6c, 0x70, 0x48, 0x50, 0xfd, 0xed, 0xb9, 0xda, 0x5e, 0x15, 0x46, 0x57, 0xa7, 0x8d, 0x9d, 0x84],
     [0x90, 0xd8, 0xab, 0x00, 0x8c, 0xbc, 0xd3, 0x0a, 0xf7, 0xe4, 0x58, 0x05, 0xb8, 0xb3, 0x45, 0x06],
     [0xd0, 0x2c, 0x1e, 0x8f, 0xca, 0x3f, 0x0f, 0x02, 0xc1, 0xaf, 0xbd, 0x03, 0x01, 0x13, 0x8a, 0x6b],
     [0x3a, 0x91, 0x11, 0x41, 0x4f, 0x67, 0xdc, 0xea, 0x97, 0xf2, 0xcf, 0xce, 0xf0, 0xb4, 0xe6, 0x73],
     [0x96, 0xac, 0x74, 0x22, 0xe7, 0xad, 0x35, 0x85, 0xe2, 0xf9, 0x37, 0xe8, 0x1c, 0x75, 0xdf, 0x6e],
     [0x47, 0xf1, 0x1a, 0x71, 0x1d, 0x29, 0xc5, 0x89, 0x6f, 0xb7, 0x62, 0x0e, 0xaa, 0x18, 0xbe, 0x1b],
     [0xfc, 0x56, 0x3e, 0x4b, 0xc6, 0xd2, 0x79, 0x20, 0x9a, 0xdb, 0xc0, 0xfe, 0x78, 0xcd, 0x5a, 0xf4],
     [0x1f, 0xdd, 0xa8, 0x33, 0x88, 0x07, 0xc7, 0x31, 0xb1, 0x12, 0x10, 0x59, 0x27, 0x80, 0xec, 0x5f],
     [0x60, 0x51, 0x7f, 0xa9, 0x19, 0xb5, 0x4a, 0x0d, 0x2d, 0xe5, 0x7a, 0x9f, 0x93, 0xc9, 0x9c, 0xef],
     [0xa0, 0xe0, 0x3b, 0x4d, 0xae, 0x2a, 0xf5, 0xb0, 0xc8, 0xeb, 0xbb, 0x3c, 0x83, 0x53, 0x99, 0x61],
     [0x17, 0x2b, 0x04, 0x7e, 0xba, 0x77, 0xd6, 0x26, 0xe1, 0x69, 0x14, 0x63, 0x55, 0x21, 0x0c, 0x7d]]"

definition aes_inv_sbox_lookup :: "u8 \<Rightarrow> u8" where
  "aes_inv_sbox_lookup x = aes_inv_sub_box ! unat (drop_bit 4 (x AND 0xF0)) ! unat (x AND 0x0F)"


section \<open>Transpose\<close>

lemma nth8:
  "[a0, a1, a2, a3, a4, a5, a6, a7] ! 0 = a0" "[a0, a1, a2, a3, a4, a5, a6, a7] ! 1 = a1"
  "[a0, a1, a2, a3, a4, a5, a6, a7] ! 2 = a2" "[a0, a1, a2, a3, a4, a5, a6, a7] ! 3 = a3"
  "[a0, a1, a2, a3, a4, a5, a6, a7] ! 4 = a4" "[a0, a1, a2, a3, a4, a5, a6, a7] ! 5 = a5"
  "[a0, a1, a2, a3, a4, a5, a6, a7] ! 6 = a6" "[a0, a1, a2, a3, a4, a5, a6, a7] ! 7 = a7"
  by simp_all

lemma all_less_8: "(\<forall>i<8. P i) \<longleftrightarrow> P 0 \<and> P 1 \<and> P 2 \<and> P 3 \<and> P 4 \<and> P 5 \<and> P 6 \<and> P (7::nat)"
  by (simp add: numeral_eq_Suc less_Suc_eq all_conj_distrib conj_ac)  

lemma upt_32:
  "[0..<32] = [0, 1, 2, 3, 4, 5, 6, 7, 8, 9, 10, 11, 12, 13, 14, 15,
     16, 17, 18, 19, 20, 21, 22, 23, 24, 25, 26, 27, 28, 29, 30, 31::nat]"
  by (simp add: upt_rec)

lemma ortho_bits:
  "\<forall>i<8. \<forall>n\<in>set [0..<32]. bit (aes_ct_ortho q ! i) n = bit (q ! (n mod 8)) (8 * (n div 8) + i)"
  apply (simp only: all_less_8 aes_ct_ortho_def aes_ct_swapn_def Let_def prod.case nth8)
  apply (intro conjI)
  apply (simp_all only: upt_32 list.set ball_simps bit_or_iff bit_and_iff bit_push_bit_iff bit_drop_bit_eq comp_apply)
  apply (simp_all add: possible_bit_word del: One_nat_def)
  apply (simp_all add: numeral_2_eq_2)
  done

lemma ortho_bit:
  "i < 8 \<Longrightarrow> j < 8 \<Longrightarrow> k < 4 \<Longrightarrow>
   bit (aes_ct_ortho q ! i) (8 * k + j) = bit (q ! j) (8 * k + i)"
  using ortho_bits [of q] by (simp add: div_add1_eq)

lemma length_ortho [simp]: "length (aes_ct_ortho q) = 8"
  by (simp add: aes_ct_ortho_def aes_ct_swapn_def Let_def)

section \<open>The circuit on one bit of each plane\<close>

abbreviation bit_sbox :: "(nat \<Rightarrow> bool) \<Rightarrow> bool list" where
  "bit_sbox b \<equiv> sbox_gates (\<noteq>) (\<and>) Not (b 7) (b 6) (b 5) (b 4) (b 3) (b 2) (b 1) (b 0)"

abbreviation bit_inv_affine :: "(nat \<Rightarrow> bool) \<Rightarrow> bool list" where
  "bit_inv_affine b \<equiv> inv_affine_gates (\<noteq>) Not (b 0) (b 1) (b 2) (b 3) (b 4) (b 5) (b 6) (b 7)"

lemma sbox_gates_bits:
  assumes "n < 32"
  shows "list_all2 (\<lambda>w b. bit w n = b) (aes_ct_sbox q) (bit_sbox (\<lambda>i. bit (q ! i) n))"
proof -
  define A :: "u32 \<Rightarrow> bool \<Rightarrow> bool" where "A = (\<lambda>w b. bit w n = b)"
  have [transfer_rule]: "rel_fun A (rel_fun A A) (XOR) (\<noteq>)" "rel_fun A (rel_fun A A) (AND) (\<and>)"
      "rel_fun A A NOT Not"
    using assms by (auto simp: A_def rel_fun_def bit_simps)
  have "rel_fun (rel_fun A (rel_fun A A)) (rel_fun (rel_fun A (rel_fun A A)) (rel_fun (rel_fun A A)
      (rel_fun A (rel_fun A (rel_fun A (rel_fun A (rel_fun A (rel_fun A (rel_fun A (rel_fun A (list_all2 A)))))))))))
      sbox_gates sbox_gates"
    unfolding sbox_gates_def by transfer_prover
  from this [THEN rel_funD, THEN rel_funD, THEN rel_funD, of "(XOR)" "(\<noteq>)" "(AND)" "(\<and>)" NOT Not]
  show ?thesis
    unfolding aes_ct_sbox_def A_def [symmetric]
    by (auto dest!: rel_funD simp: rel_fun_def A_def assms bit_simps)
qed


lemma upt_8: "[0..<8] = [0, 1, 2, 3, 4, 5, 6, 7::nat]"
  by (simp add: upt_rec)


definition sbox_at :: "nat \<Rightarrow> bool list" where
  "sbox_at x = bit_sbox (bit x)"

definition inv_at :: "nat \<Rightarrow> bool list" where
  "inv_at x = (let p = bit_inv_affine (bit x); q = bit_sbox (nth p) in bit_inv_affine (nth q))"

lemma upt_256:
  "[0..<256] =
    [0, 1, 2, 3, 4, 5, 6, 7, 8, 9, 10, 11, 12, 13, 14, 15,
     16, 17, 18, 19, 20, 21, 22, 23, 24, 25, 26, 27, 28, 29, 30, 31,
     32, 33, 34, 35, 36, 37, 38, 39, 40, 41, 42, 43, 44, 45, 46, 47,
     48, 49, 50, 51, 52, 53, 54, 55, 56, 57, 58, 59, 60, 61, 62, 63,
     64, 65, 66, 67, 68, 69, 70, 71, 72, 73, 74, 75, 76, 77, 78, 79,
     80, 81, 82, 83, 84, 85, 86, 87, 88, 89, 90, 91, 92, 93, 94, 95,
     96, 97, 98, 99, 100, 101, 102, 103, 104, 105, 106, 107, 108, 109, 110, 111,
     112, 113, 114, 115, 116, 117, 118, 119, 120, 121, 122, 123, 124, 125, 126, 127,
     128, 129, 130, 131, 132, 133, 134, 135, 136, 137, 138, 139, 140, 141, 142, 143,
     144, 145, 146, 147, 148, 149, 150, 151, 152, 153, 154, 155, 156, 157, 158, 159,
     160, 161, 162, 163, 164, 165, 166, 167, 168, 169, 170, 171, 172, 173, 174, 175,
     176, 177, 178, 179, 180, 181, 182, 183, 184, 185, 186, 187, 188, 189, 190, 191,
     192, 193, 194, 195, 196, 197, 198, 199, 200, 201, 202, 203, 204, 205, 206, 207,
     208, 209, 210, 211, 212, 213, 214, 215, 216, 217, 218, 219, 220, 221, 222, 223,
     224, 225, 226, 227, 228, 229, 230, 231, 232, 233, 234, 235, 236, 237, 238, 239,
     240, 241, 242, 243, 244, 245, 246, 247, 248, 249, 250, 251, 252, 253, 254, 255::nat]"
  by (simp add: upt_rec)

lemma sbox_at_table: "map sbox_at [0..<256] = map (\<lambda>y. map (bit y) [0..<8]) (concat aes_sub_box)"
  by (simp only: upt_256 list.map upt_8 aes_sub_box_def concat.simps append.simps)
    (simp add: sbox_at_def sbox_gates_def Let_def bit_Suc_0_iff cong: let_weak_cong)

lemma inv_at_table:
  "map inv_at [0..<256] = map (\<lambda>y. map (bit y) [0..<8]) (concat aes_inv_sub_box)"
  by (simp only: upt_256 list.map upt_8 aes_inv_sub_box_def concat.simps append.simps)
    (simp add: inv_at_def nth8 sbox_gates_def inv_affine_gates_def Let_def bit_Suc_0_iff cong: let_weak_cong)

lemma inv_affine_bits:
  assumes "n < 32" "i < 8"
  shows "bit (aes_ct_inv_affine q ! i) n = bit_inv_affine (\<lambda>i. bit (q ! i) n) ! i"
proof -
  have "\<forall>i<8. bit (aes_ct_inv_affine q ! i) n = bit_inv_affine (\<lambda>i. bit (q ! i) n) ! i"
    unfolding all_less_8 aes_ct_inv_affine_def inv_affine_gates_def nth8
    using assms(1) by (simp add: bit_simps)
  then show ?thesis using assms(2) by blast
qed

lemma length_LetI: "(\<And>x. length (f x) = n) \<Longrightarrow> length (Let e f) = n"
  by (simp add: Let_def)

lemma sbox_bits:
  assumes "n < 32" "i < 8"
  shows "bit (aes_ct_sbox q ! i) n = bit_sbox (\<lambda>i. bit (q ! i) n) ! i"
proof -
  have "length (aes_ct_sbox q) = 8"
    unfolding aes_ct_sbox_def sbox_gates_def by (intro length_LetI) simp
  then show ?thesis using list_all2_nthD [OF sbox_gates_bits [OF assms(1)], of i q] assms(2) by simp
qed

section \<open>The circuit is the table\<close>

text \<open>Byte \<open>k\<close> of a packed word, lowest first.\<close>

definition lane :: "u32 \<Rightarrow> nat \<Rightarrow> u8" where
  "lane w k = ucast (drop_bit (8 * k) w)"

lemma bit_lane: "bit (lane w k) i \<longleftrightarrow> i < 8 \<and> bit w (8 * k + i)"
  by (auto simp: lane_def bit_simps)

lemma nth_concat_rows:
  "(\<forall>r\<in>set rows. length r = c) \<Longrightarrow> n < c * length rows \<Longrightarrow>
   concat rows ! n = rows ! (n div c) ! (n mod c)"
proof (induction rows arbitrary: n)
  case (Cons r rows)
  show ?case
  proof (cases "n < c")
    case False
    then have "0 < c" "n div c = Suc ((n - c) div c)" "n mod c = (n - c) mod c"
      using Cons.prems by (auto simp: div_if mod_if)
    then show ?thesis using Cons False by (simp add: nth_append)
  qed (use Cons in \<open>simp add: nth_append\<close>)
qed simp

lemma nibbles: "unat (drop_bit 4 (x :: u8)) = unat x div 16" "unat (x AND 0x0F) = unat x mod 16"
  using unat_and_mask [of x 4] unat_drop_bit_eq [of 4 x]
  by (simp_all only: mask_eq_exp_minus_1 drop_bit_eq_div) simp_all

lemma sbox_lookup_concat: "aes_sbox_lookup x = concat aes_sub_box ! unat x"
  "aes_inv_sbox_lookup x = concat aes_inv_sub_box ! unat x"
proof -
  have x: "unat x < 256" using unsigned_less [of x] by simp
  have rows: "\<forall>r\<in>set aes_sub_box. length r = 16" "length aes_sub_box = 16"
      "\<forall>r\<in>set aes_inv_sub_box. length r = 16" "length aes_inv_sub_box = 16"
    unfolding aes_sub_box_def aes_inv_sub_box_def list.set ball_simps list.size by simp_all
  have hi: "drop_bit 4 x AND 0x0F = drop_bit 4 x" "drop_bit 4 (x AND 0xF0) = drop_bit 4 x"
  proof -
    have m: "0x0F = (mask 4 :: u8)" "0xF0 = (push_bit 4 (mask 4) :: u8)"
      by (simp_all add: mask_eq_exp_minus_1)
    show "drop_bit 4 x AND 0x0F = drop_bit 4 x" "drop_bit 4 (x AND 0xF0) = drop_bit 4 x"
      unfolding m by (rule bit_word_eqI, auto simp: bit_simps simp del: mask_numeral dest: bit_imp_le_length)+
  qed
  show "aes_sbox_lookup x = concat aes_sub_box ! unat x"
    "aes_inv_sbox_lookup x = concat aes_inv_sub_box ! unat x"
    using x rows nth_concat_rows [of aes_sub_box 16 "unat x"] nth_concat_rows [of aes_inv_sub_box 16 "unat x"]
    unfolding aes_sbox_lookup_def aes_inv_sbox_lookup_def hi nibbles by simp_all
qed

lemma lookup_bits:
  assumes "i < 8"
  shows "bit (aes_sbox_lookup x) i = bit_sbox (bit x) ! i"
    and "bit (aes_inv_sbox_lookup x) i = inv_at (unat x) ! i"
proof -
  have x: "unat x < 256" using unsigned_less [of x] by simp
  have b: "bit (unat x) = bit x" by (rule ext) (auto simp: bit_simps dest: bit_imp_le_length)
  have len: "length (concat aes_sub_box) = 256" "length (concat aes_inv_sub_box) = 256"
    using arg_cong [OF sbox_at_table, of length] arg_cong [OF inv_at_table, of length] by simp_all
  have "sbox_at (unat x) = map (bit (concat aes_sub_box ! unat x)) [0..<8]"
    "inv_at (unat x) = map (bit (concat aes_inv_sub_box ! unat x)) [0..<8]"
    using arg_cong [OF sbox_at_table, of "\<lambda>l. l ! unat x"] arg_cong [OF inv_at_table, of "\<lambda>l. l ! unat x"]
      x len by simp_all
  then show "bit (aes_sbox_lookup x) i = bit_sbox (bit x) ! i"
    "bit (aes_inv_sbox_lookup x) i = inv_at (unat x) ! i"
    using assms by (simp_all add: sbox_lookup_concat sbox_at_def b)
qed

lemma nth4:
  "j < 4 \<Longrightarrow> [a ! 0, a ! 1, a ! 2, a ! 3] ! j = a ! j"
  "j < 4 \<Longrightarrow> [a ! 0, a ! 1, a ! 2, a ! 3, 0, 0, 0, 0] ! j = a ! j"
  by (auto simp: less_Suc_eq numeral_eq_Suc)

text \<open>Every byte of the four words goes through the table.\<close>

lemma sub_bytes_lane:
  assumes "j < 4" "k < 4"
  shows "lane (aes_ct_sub_bytes s 0 ! j) k = aes_sbox_lookup (lane (s ! j) k)"
proof (rule bit_word_eqI)
  fix i assume "i < LENGTH(8)" then have i: "i < 8" by simp
  let ?q = "aes_ct_ortho [s ! 0, s ! 1, s ! 2, s ! 3, 0, 0, 0, 0]"
  have n: "8 * k + j < 32" using assms by simp
  have "bit (lane (aes_ct_sub_bytes s 0 ! j) k) i = bit (aes_ct_ortho (aes_ct_sbox ?q) ! j) (8 * k + i)"
    using assms(1) i by (simp add: bit_lane aes_ct_sub_bytes_def Let_def nth4 del: One_nat_def)
  also have "\<dots> = bit_sbox (\<lambda>m. bit (?q ! m) (8 * k + j)) ! i"
    using assms i n by (simp add: ortho_bit sbox_bits)
  also have "\<dots> = bit (aes_sbox_lookup (lane (s ! j) k)) i"
    using assms i by (simp add: lookup_bits bit_lane ortho_bit nth4 del: One_nat_def)
  finally show "bit (lane (aes_ct_sub_bytes s 0 ! j) k) i = bit (aes_sbox_lookup (lane (s ! j) k)) i" .
qed

lemma inv_sub_bytes_lane:
  assumes "j < 4" "k < 4"
  shows "lane (aes_ct_sub_bytes s 1 ! j) k = aes_inv_sbox_lookup (lane (s ! j) k)"
proof (rule bit_word_eqI)
  fix i assume "i < LENGTH(8)" then have i: "i < 8" by simp
  let ?q = "aes_ct_ortho [s ! 0, s ! 1, s ! 2, s ! 3, 0, 0, 0, 0]"
  have n: "8 * k + j < 32" using assms by simp
  have "bit (lane (aes_ct_sub_bytes s 1 ! j) k) i =
      bit (aes_ct_ortho (aes_ct_inv_affine (aes_ct_sbox (aes_ct_inv_affine ?q))) ! j) (8 * k + i)"
    using assms(1) i by (simp add: bit_lane aes_ct_sub_bytes_def Let_def nth4 del: One_nat_def)
  also have "\<dots> = bit_inv_affine (nth (bit_sbox (nth (bit_inv_affine (\<lambda>m. bit (?q ! m) (8 * k + j)))))) ! i"
    using assms i n by (simp add: ortho_bit sbox_bits inv_affine_bits)
  also have "\<dots> = bit (aes_inv_sbox_lookup (lane (s ! j) k)) i"
  proof -
    have "bit (unat (lane (s ! j) k)) = bit (lane (s ! j) k)" 
      by (rule ext) (auto simp: bit_simps dest: bit_imp_le_length)
    then show ?thesis using assms i by (simp add: lookup_bits inv_at_def Let_def bit_lane ortho_bit nth4 del: One_nat_def)
  qed
  finally show "bit (lane (aes_ct_sub_bytes s 1 ! j) k) i = bit (aes_inv_sbox_lookup (lane (s ! j) k)) i" .
qed

lemma lookup_inverse: "aes_inv_sbox_lookup (aes_sbox_lookup x) = x"
proof -
  have "map (\<lambda>n. concat aes_inv_sub_box ! unat (concat aes_sub_box ! n)) [0..<256] = map of_nat [0..<256]"
    by (simp only: upt_256 list.map aes_sub_box_def aes_inv_sub_box_def concat.simps append.simps) simp
  moreover have "unat x < 256" using unsigned_less [of x] by simp
  ultimately show ?thesis
    using arg_cong [of _ _ "\<lambda>l. l ! unat x"] by (fastforce simp add: sbox_lookup_concat)
qed

lemma sub_bytes_length [simp]: "length (aes_ct_sub_bytes s v) = 4"
  by (simp add: aes_ct_sub_bytes_def Let_def)

text \<open>
  Claim C15. The constant-time substitution of a whole state is the S-box table on each of its
  sixteen bytes, the inverse form is the inverse table, and the two tables are inverse to each other.
\<close>

theorem aes_sub_bytes_is_table:
  assumes "j < 4" "k < 4"
  shows "lane (aes_ct_sub_bytes s v ! j) k =
      (if v = 0 then aes_sbox_lookup (lane (s ! j) k) else aes_inv_sbox_lookup (lane (s ! j) k))
    \<and> aes_inv_sbox_lookup (aes_sbox_lookup (lane (s ! j) k)) = lane (s ! j) k"
proof -
  have "v \<noteq> 0 \<Longrightarrow> aes_ct_sub_bytes s v = aes_ct_sub_bytes s 1"
    by (simp add: aes_ct_sub_bytes_def)
  then show ?thesis
    using sub_bytes_lane [OF assms] inv_sub_bytes_lane [OF assms] lookup_inverse by simp
qed

theorem aes_sub_bytes_is_table_witness:
  "lane (aes_ct_sub_bytes [0x00000053, 0, 0, 0] 0 ! 0) 0 = 0xed"
proof -
  have "lane 0x53 0 = 0x53" by (simp add: lane_def)
  then show ?thesis
    using aes_sub_bytes_is_table [of 0 0 "[0x53, 0, 0, 0]" 0]
    by (simp add: aes_sbox_lookup_def aes_sub_box_def)
qed

end
