(* ===== verification/Gf2_Linear.thy ===== *)
theory Gf2_Linear
  imports Nox_Prelude
begin

text \<open>
  Functions on words that are linear over the two-element field, that is, distribute over
  exclusive or. Two of them that agree on the powers of two agree everywhere, so identities
  between the packed field operations of AES are checked on a few dozen concrete words.
\<close>

definition gf2_linear :: "('a::len word \<Rightarrow> 'b::len word) \<Rightarrow> bool" where
  "gf2_linear f \<longleftrightarrow> (\<forall>a b. f (a XOR b) = f a XOR f b)"

named_theorems gf2_intros \<open>introduction rules for linearity\<close>

lemma gf2_linear_XOR: "gf2_linear f \<Longrightarrow> f (a XOR b) = f a XOR f b"
  by (simp add: gf2_linear_def)

lemma gf2_linear_zero:
  assumes "gf2_linear f" shows "f 0 = 0"
  using gf2_linear_XOR [OF assms, of 0 0] by simp

lemma gf2_linear_ident [gf2_intros]: "gf2_linear (\<lambda>x. x)"
  by (simp add: gf2_linear_def)

lemma gf2_linear_xor [gf2_intros]:
  "gf2_linear f \<Longrightarrow> gf2_linear g \<Longrightarrow> gf2_linear (\<lambda>x. f x XOR g x)"
  by (simp add: gf2_linear_def ac_simps)

lemma gf2_linear_comp: "gf2_linear g \<Longrightarrow> gf2_linear f \<Longrightarrow> gf2_linear (\<lambda>x. g (f x))"
  by (simp add: gf2_linear_def)

lemma gf2_linear_and [gf2_intros]: "gf2_linear f \<Longrightarrow> gf2_linear (\<lambda>x. f x AND m)"
  unfolding gf2_linear_def by (auto intro!: bit_word_eqI simp: bit_simps)

lemma gf2_linear_push [gf2_intros]: "gf2_linear f \<Longrightarrow> gf2_linear (\<lambda>x. push_bit n (f x))"
  unfolding gf2_linear_def by (simp add: push_bit_xor)

lemma gf2_linear_drop [gf2_intros]: "gf2_linear f \<Longrightarrow> gf2_linear (\<lambda>x. drop_bit n (f x))"
  unfolding gf2_linear_def by (simp add: drop_bit_xor)

lemma gf2_linear_ucast [gf2_intros]: "gf2_linear f \<Longrightarrow> gf2_linear (\<lambda>x. ucast (f x))"
  unfolding gf2_linear_def by (auto intro!: bit_word_eqI simp: bit_simps)

lemma take_bit_Suc_xor:
  "take_bit (Suc n) (x :: 'a::len word) = take_bit n x XOR (if bit x n then push_bit n 1 else 0)"
  by (rule bit_word_eqI) (auto simp: bit_simps less_Suc_eq)

theorem gf2_linear_eqI:
  fixes f g :: "'a::len word \<Rightarrow> 'b::len word"
  assumes f: "gf2_linear f" and g: "gf2_linear g"
    and basis: "\<And>n. n < LENGTH('a) \<Longrightarrow> f (push_bit n 1) = g (push_bit n 1)"
  shows "f x = g x"
proof -
  have "n \<le> LENGTH('a) \<Longrightarrow> f (take_bit n x) = g (take_bit n x)" for n
  proof (induction n)
    case (Suc n)
    then show ?case
      using basis [of n]
      by (simp add: take_bit_Suc_xor gf2_linear_XOR [OF f] gf2_linear_XOR [OF g]
          gf2_linear_zero [OF f] gf2_linear_zero [OF g] del: push_bit_of_1)
  qed (simp add: gf2_linear_zero [OF f] gf2_linear_zero [OF g])
  from this [of "LENGTH('a)"] show ?thesis by (simp add: take_bit_word_eq_self)
qed

end
