(* ===== verification/Aes_Core.thy ===== *)
theory Aes_Core
  imports Aes_Sbox Gf2_Linear
begin

text \<open>
  The constant-time block core of \<open>encryption/aes/noxtls_aes.c\<close> (the default,
  \<open>NOXTLS_AES_CONSTANT_TIME = 1\<close>): packed columns, SubBytes by the bitsliced circuit, MixColumns by
  masked packed arithmetic. A state is the list of its four columns; a schedule is the list of its
  words. The theorem: decryption inverts encryption under every schedule and number of rounds.
\<close>

section \<open>Packed columns\<close>

definition aes_xtime_byte :: "u8 \<Rightarrow> u8" where
  "aes_xtime_byte x =
     (let hi_mask = (ucast (0 - drop_bit 7 (ucast x :: u32)) :: u8)
      in push_bit 1 x XOR (hi_mask AND 0x1B))"

definition aes_load_le32 :: "bytes \<Rightarrow> u32" where
  "aes_load_le32 src =
     ucast (src ! 0) OR push_bit 8 (ucast (src ! 1)) OR push_bit 16 (ucast (src ! 2)) OR
     push_bit 24 (ucast (src ! 3))"

definition aes_store_le32 :: "u32 \<Rightarrow> bytes" where
  "aes_store_le32 word =
     [ucast word, ucast (drop_bit 8 word), ucast (drop_bit 16 word), ucast (drop_bit 24 word)]"

definition aes_bswap32 :: "u32 \<Rightarrow> u32" where
  "aes_bswap32 w =
     drop_bit 24 w OR (drop_bit 8 w AND 0x0000FF00) OR (push_bit 8 w AND 0x00FF0000) OR push_bit 24 w"

definition aes_ct_xtime32 :: "u32 \<Rightarrow> u32" where
  "aes_ct_xtime32 x =
     (let m = drop_bit 7 x AND 0x01010101
      in push_bit 1 (x AND 0x7F7F7F7F) XOR push_bit 4 m XOR push_bit 3 m XOR push_bit 1 m XOR m)"

definition aes_ct_mix_column :: "u32 \<Rightarrow> u32" where
  "aes_ct_mix_column w =
     (let r1 = drop_bit 8 w OR push_bit 24 w;
          a = w XOR r1
      in aes_ct_xtime32 a XOR r1 XOR (drop_bit 16 a OR push_bit 16 a))"

definition aes_ct_inv_mix_column :: "u32 \<Rightarrow> u32" where
  "aes_ct_inv_mix_column w =
     (let u = aes_ct_xtime32 (aes_ct_xtime32 (w XOR (drop_bit 16 w OR push_bit 16 w)))
      in aes_ct_mix_column (w XOR u))"

section \<open>The block core\<close>

definition ct_shift_rows :: "u32 list \<Rightarrow> u32 list" where
  "ct_shift_rows s =
     map (\<lambda>c. (s ! c AND 0x000000FF) OR (s ! ((c + 1) mod 4) AND 0x0000FF00) OR
              (s ! ((c + 2) mod 4) AND 0x00FF0000) OR (s ! ((c + 3) mod 4) AND 0xFF000000)) [0..<4]"

definition ct_inv_shift_rows :: "u32 list \<Rightarrow> u32 list" where
  "ct_inv_shift_rows s =
     map (\<lambda>c. (s ! c AND 0x000000FF) OR (s ! ((c + 3) mod 4) AND 0x0000FF00) OR
              (s ! ((c + 2) mod 4) AND 0x00FF0000) OR (s ! ((c + 1) mod 4) AND 0xFF000000)) [0..<4]"

definition ct_encrypt_round :: "u32 list \<Rightarrow> nat \<Rightarrow> u32 list \<Rightarrow> nat \<Rightarrow> u32 list" where
  "ct_encrypt_round round_keys rounds s r =
     (let t = ct_shift_rows (aes_ct_sub_bytes s 0)
      in map (\<lambda>c. (if r < rounds then aes_ct_mix_column (t ! c) else t ! c)
                  XOR aes_bswap32 (round_keys ! (r * 4 + c))) [0..<4])"

definition ct_decrypt_round :: "u32 list \<Rightarrow> u32 list \<Rightarrow> nat \<Rightarrow> u32 list" where
  "ct_decrypt_round round_keys s r =
     (let t = aes_ct_sub_bytes (ct_inv_shift_rows s) 1
      in map (\<lambda>c. let col = t ! c XOR aes_bswap32 (round_keys ! ((r - 1) * 4 + c))
                  in if r > 1 then aes_ct_inv_mix_column col else col) [0..<4])"

definition aes_block_encrypt_core :: "u32 list \<Rightarrow> u8 \<Rightarrow> bytes \<Rightarrow> bytes" where
  "aes_block_encrypt_core round_keys rounds input =
     (let s = map (\<lambda>c. aes_load_le32 (drop (c * 4) input) XOR aes_bswap32 (round_keys ! c)) [0..<4];
          s = foldl (ct_encrypt_round round_keys (unat rounds)) s [1..<unat rounds + 1]
      in concat (map aes_store_le32 s))"

definition aes_block_decrypt_core :: "u32 list \<Rightarrow> u8 \<Rightarrow> bytes \<Rightarrow> bytes" where
  "aes_block_decrypt_core round_keys rounds input =
     (let s = map (\<lambda>c. aes_load_le32 (drop (c * 4) input)
                       XOR aes_bswap32 (round_keys ! (unat rounds * 4 + c))) [0..<4];
          s = foldl (ct_decrypt_round round_keys) s (rev [1..<unat rounds + 1])
      in concat (map aes_store_le32 s))"

section \<open>Lanes\<close>

lemma less_4_cases: "k < 4 \<Longrightarrow> k = 0 \<or> k = 1 \<or> k = 2 \<or> k = (3::nat)"
  by auto

lemma lane_eqI:
  assumes "\<And>k. k < 4 \<Longrightarrow> lane v k = lane w k"
  shows "v = w"
proof (rule bit_word_eqI)
  fix n assume "n < LENGTH(32)"
  then have "n div 8 < 4" by simp
  from assms [OF this] have "bit (lane v (n div 8)) (n mod 8) = bit (lane w (n div 8)) (n mod 8)" by simp
  then show "bit v n = bit w n" by (simp add: bit_lane)
qed

lemma lane_xor: "lane (v XOR w) k = lane v k XOR lane w k"
  by (simp add: lane_def drop_bit_xor) (rule bit_word_eqI, simp add: bit_simps)

lemma lane_zero [simp]: "lane 0 k = 0"
  by (simp add: lane_def)

lemma byte_bit_high: "8 \<le> n \<Longrightarrow> \<not> bit (x :: u8) n"
  by (auto dest: bit_imp_le_length)

lemma lane_load: "k < 4 \<Longrightarrow> lane (aes_load_le32 src) k = src ! k"
  unfolding aes_load_le32_def
  by (drule less_4_cases, elim disjE; simp; intro bit_word_eqI)
    (simp_all add: bit_lane bit_simps byte_bit_high)

lemma lane_masks:
  "(0x000000FF :: u32) = mask 8" "(0x0000FF00 :: u32) = push_bit 8 (mask 8)"
  "(0x00FF0000 :: u32) = push_bit 16 (mask 8)" "(0xFF000000 :: u32) = push_bit 24 (mask 8)"
  by (simp_all add: mask_eq_exp_minus_1)

lemma lane_select:
  assumes "k < 4"
  shows "lane ((a AND 0x000000FF) OR (b AND 0x0000FF00) OR (c AND 0x00FF0000) OR (d AND 0xFF000000)) k =
    [lane a 0, lane b 1, lane c 2, lane d 3] ! k"
  using less_4_cases [OF assms]
  by (elim disjE; simp; intro bit_word_eqI)
    (simp_all add: lane_masks bit_lane bit_simps del: mask_numeral)

lemma lane_bswap: "k < 4 \<Longrightarrow> lane (aes_bswap32 w) k = lane w (3 - k)"
  unfolding aes_bswap32_def lane_masks
  by (drule less_4_cases, elim disjE; simp; intro bit_word_eqI)
    (auto simp: bit_lane bit_simps simp del: mask_numeral dest: bit_imp_le_length)

lemma store_lanes: "aes_store_le32 w = map (lane w) [0..<4]"
  by (simp add: aes_store_le32_def lane_def upt_rec)

lemma load_store: "aes_load_le32 (aes_store_le32 w @ rest) = w"
  by (rule lane_eqI) (simp add: lane_load store_lanes nth_append)

lemma store_load:
  "4 \<le> length src \<Longrightarrow> aes_store_le32 (aes_load_le32 src) = take 4 src"
  by (rule nth_equalityI) (simp_all add: store_lanes lane_load)

section \<open>Shifting rows\<close>

lemma upt_4: "[0..<4] = [0, 1, 2, 3::nat]"
  by (simp add: upt_rec)

lemma lane_shift_rows:
  "c < 4 \<Longrightarrow> k < 4 \<Longrightarrow> lane (ct_shift_rows s ! c) k = lane (s ! ((c + k) mod 4)) k"
  by (drule less_4_cases [of k]) (auto simp: ct_shift_rows_def lane_select add.commute)

lemma lane_inv_shift_rows:
  "c < 4 \<Longrightarrow> k < 4 \<Longrightarrow> lane (ct_inv_shift_rows s ! c) k = lane (s ! ((c + 4 - k) mod 4)) k"
  by (drule less_4_cases [of k]) (auto simp: ct_inv_shift_rows_def lane_select add.commute)

lemma shift_lengths [simp]: "length (ct_shift_rows s) = 4" "length (ct_inv_shift_rows s) = 4"
  by (simp_all add: ct_shift_rows_def ct_inv_shift_rows_def)

text \<open>Lists of four columns are equal when their lanes are.\<close>

lemma columns_eqI:
  assumes "length s = 4" "length t = 4"
    and "\<And>c k. c < 4 \<Longrightarrow> k < 4 \<Longrightarrow> lane (s ! c) k = lane (t ! c) k"
  shows "s = t"
  using assms by (intro nth_equalityI lane_eqI) auto

lemma inv_sub_shift:
  assumes "length s = 4"
  shows "aes_ct_sub_bytes (ct_inv_shift_rows (ct_shift_rows (aes_ct_sub_bytes s 0))) 1 = s"
proof (rule columns_eqI)
  fix c k :: nat assume ck: "c < 4" "k < 4"
  have "(((c + 4 - k) mod 4) + k) mod 4 = c"
    using less_4_cases [OF ck(1)] less_4_cases [OF ck(2)] by auto
  then show "lane (aes_ct_sub_bytes (ct_inv_shift_rows (ct_shift_rows (aes_ct_sub_bytes s 0))) 1 ! c) k =
      lane (s ! c) k"
    using ck by (simp add: inv_sub_bytes_lane sub_bytes_lane lane_shift_rows lane_inv_shift_rows lookup_inverse)
qed (use assms in simp_all)

section \<open>Mixing columns\<close>

lemma rotate_xor:
  fixes w :: u32
  assumes "m + n = 32"
  shows "drop_bit m w OR push_bit n w = drop_bit m w XOR push_bit n w"
  using assms by (intro bit_word_eqI) (auto simp: bit_simps dest: bit_imp_le_length)

lemma linear_xtime32 [gf2_intros]: "gf2_linear f \<Longrightarrow> gf2_linear (\<lambda>w. aes_ct_xtime32 (f w))"
  unfolding aes_ct_xtime32_def Let_def by (intro gf2_intros)

lemma linear_mix_column [gf2_intros]: "gf2_linear f \<Longrightarrow> gf2_linear (\<lambda>w. aes_ct_mix_column (f w))"
  unfolding aes_ct_mix_column_def Let_def rotate_xor [of 8 24, simplified] rotate_xor [of 16 16, simplified]
  by (intro gf2_intros)

lemma linear_inv_mix_column [gf2_intros]:
  "gf2_linear f \<Longrightarrow> gf2_linear (\<lambda>w. aes_ct_inv_mix_column (f w))"
  unfolding aes_ct_inv_mix_column_def Let_def rotate_xor [of 16 16, simplified]
  by (intro gf2_intros)

text \<open>Two linear maps on packed words agree when they agree on the 32 single-bit words.\<close>

lemma gf2_word32_eqI:
  fixes f g :: "u32 \<Rightarrow> 'b::len word"
  assumes "gf2_linear f" "gf2_linear g"
    and "\<forall>n\<in>set [0..<32]. f (push_bit n 1) = g (push_bit n 1)"
  shows "f w = g w"
proof (rule gf2_linear_eqI [OF assms(1,2)])
  fix n assume "n < LENGTH(32)"
  then have "n \<in> set [0..<32]" by simp
  with assms(3) show "f (push_bit n 1) = g (push_bit n 1)" by (rule bspec)
qed

lemma inv_mix_mix: "aes_ct_inv_mix_column (aes_ct_mix_column w) = w"
proof (rule gf2_word32_eqI [where f = "\<lambda>w. aes_ct_inv_mix_column (aes_ct_mix_column w)" and g = "\<lambda>w. w"])
  show "\<forall>n\<in>set [0..<32]. aes_ct_inv_mix_column (aes_ct_mix_column (push_bit n 1)) = push_bit n 1"
    unfolding upt_32 list.set ball_simps
    by (simp add: aes_ct_inv_mix_column_def aes_ct_mix_column_def aes_ct_xtime32_def Let_def cong: let_weak_cong)
qed (intro gf2_intros)+

section \<open>Multiplication by x on one byte\<close>

lemma xtime_byte_if: "aes_xtime_byte x = push_bit 1 x XOR (if bit x 7 then 0x1B else 0)"
proof -
  have "drop_bit 7 (ucast x :: u32) = (if bit x 7 then 1 else 0)"
  proof (rule bit_word_eqI)
    fix n
    have "n = 0 \<or> \<not> bit x (7 + n)" using byte_bit_high [of "7 + n" x] by (cases n) auto
    then show "bit (drop_bit 7 (ucast x :: u32)) n = bit (if bit x 7 then 1 else 0 :: u32) n"
      by (auto simp: bit_simps bit_1_iff)
  qed
  moreover have "(ucast (- 1 :: u32) :: u8) = - 1"
    by (rule bit_word_eqI) (simp add: bit_simps)
  ultimately show ?thesis by (simp add: aes_xtime_byte_def)
qed

section \<open>Decryption inverts encryption\<close>

text \<open>
  The state after \<open>r\<close> rounds of encryption, and the state that decryption must reach before its
  round \<open>r\<close>: the rows shifted and substituted, without the column mixing and the round key.
\<close>

definition enc_state :: "u32 list \<Rightarrow> nat \<Rightarrow> u32 list \<Rightarrow> nat \<Rightarrow> u32 list" where
  "enc_state rk rounds s r = foldl (ct_encrypt_round rk rounds) s [1..<r + 1]"

abbreviation unmixed :: "u32 list \<Rightarrow> nat \<Rightarrow> u32 list \<Rightarrow> nat \<Rightarrow> u32 list" where
  "unmixed rk rounds s r \<equiv> ct_shift_rows (aes_ct_sub_bytes (enc_state rk rounds s (r - 1)) 0)"

lemma enc_state_Suc: "enc_state rk rounds s (Suc r) = ct_encrypt_round rk rounds (enc_state rk rounds s r) (Suc r)"
  by (simp add: enc_state_def)

lemma enc_state_0 [simp]: "enc_state rk rounds s 0 = s"
  by (simp add: enc_state_def)

lemma length_enc_round [simp]: "length (ct_encrypt_round rk rounds s r) = 4"
  by (simp add: ct_encrypt_round_def Let_def)

lemma length_enc_state: "length s = 4 \<Longrightarrow> length (enc_state rk rounds s r) = 4"
  by (cases r) (simp_all add: enc_state_Suc)

lemma xor_cancel: "(a XOR b) XOR b = (a :: 'a::len word)"
  by (simp add: xor.assoc)

lemma decrypt_round_step:
  assumes len: "length s = 4" and r: "1 < r" "r - 1 < rounds"
  shows "ct_decrypt_round rk (unmixed rk rounds s r) r = unmixed rk rounds s (r - 1)"
proof -
  obtain q where q: "r = Suc (Suc q)" using r(1) by (cases r; cases "r - 1") auto
  let ?e = "enc_state rk rounds s q"
  have e: "aes_ct_sub_bytes (ct_inv_shift_rows (unmixed rk rounds s r)) 1 = ct_encrypt_round rk rounds ?e (Suc q)"
    using inv_sub_shift [OF length_enc_state [OF len, of rk rounds "Suc q"]] q by (simp add: enc_state_Suc)
  show ?thesis
  proof (rule nth_equalityI)
    fix c assume "c < length (ct_decrypt_round rk (unmixed rk rounds s r) r)"
    then have c: "c < 4" by (simp add: ct_decrypt_round_def Let_def)
    show "ct_decrypt_round rk (unmixed rk rounds s r) r ! c = unmixed rk rounds s (r - 1) ! c"
      unfolding ct_decrypt_round_def e Let_def using c r q
      by (simp add: ct_encrypt_round_def Let_def xor_cancel inv_mix_mix)
  qed (simp add: ct_decrypt_round_def Let_def)
qed

lemma decrypt_round_first:
  assumes len: "length s = 4"
  shows "ct_decrypt_round rk (unmixed rk rounds s 1) 1 = map (\<lambda>c. s ! c XOR aes_bswap32 (rk ! c)) [0..<4]"
  using inv_sub_shift [OF len] by (simp add: ct_decrypt_round_def Let_def)

lemma decrypt_rounds:
  assumes "length s = 4" "0 < r" "r \<le> rounds"
  shows "foldl (ct_decrypt_round rk) (unmixed rk rounds s r) (rev [1..<r + 1]) =
    map (\<lambda>c. s ! c XOR aes_bswap32 (rk ! c)) [0..<4]"
  using assms(2,3)
proof (induction r)
  case (Suc r)
  show ?case
  proof (cases "r = 0")
    case True
    then show ?thesis using decrypt_round_first [OF assms(1), of rk rounds] by simp
  next
    case False
    then have "ct_decrypt_round rk (unmixed rk rounds s (Suc r)) (Suc r) = unmixed rk rounds s r"
      using decrypt_round_step [OF assms(1), of "Suc r" rounds rk] Suc.prems by simp
    then show ?thesis using Suc False by simp
  qed
qed simp

lemma load_output:
  assumes "length s = 4" "c < 4"
  shows "aes_load_le32 (drop (c * 4) (concat (map aes_store_le32 s))) = s ! c"
proof -
  obtain a b d e where s: "s = [a, b, d, e]"
    using assms(1) by (auto simp: numeral_eq_Suc length_Suc_conv)
  have len: "length (aes_store_le32 w) = 4" for w by (simp add: store_lanes)
  show ?thesis
    using less_4_cases [OF assms(2)] load_store [of _ "[]"]
    by (elim disjE) (simp_all add: s len load_store)
qed

lemma store_input:
  assumes "length input = 16"
  shows "concat (map aes_store_le32 (map (\<lambda>c. aes_load_le32 (drop (c * 4) input)) [0..<4])) = input"
proof -
  have "input = take 4 input @ take 4 (drop 4 input) @ take 4 (drop 8 input) @ drop 12 input"
    using append_take_drop_id [of 4 input] append_take_drop_id [of 4 "drop 4 input"]
      append_take_drop_id [of 4 "drop 8 input"] by simp
  then show ?thesis using assms by (simp add: upt_4 store_load)
qed

lemma core_inverse:
  assumes "length input = 16"
  shows "aes_block_decrypt_core rk rounds (aes_block_encrypt_core rk rounds input) = input"
proof -
  let ?R = "unat rounds"
  define s where "s = map (\<lambda>c. aes_load_le32 (drop (c * 4) input) XOR aes_bswap32 (rk ! c)) [0..<4]"
  have len: "length s = 4" by (simp add: s_def)
  have out: "aes_block_encrypt_core rk rounds input = concat (map aes_store_le32 (enc_state rk ?R s ?R))"
    by (simp add: aes_block_encrypt_core_def s_def enc_state_def Let_def)
  have load: "aes_load_le32 (drop (c * 4) (aes_block_encrypt_core rk rounds input)) = enc_state rk ?R s ?R ! c"
    if "c < 4" for c
    by (simp only: out load_output [OF length_enc_state [OF len] that])
  have start: "map (\<lambda>c. aes_load_le32 (drop (c * 4) (aes_block_encrypt_core rk rounds input))
      XOR aes_bswap32 (rk ! (?R * 4 + c))) [0..<4] =
      (if ?R = 0 then map (\<lambda>c. s ! c XOR aes_bswap32 (rk ! c)) [0..<4] else unmixed rk ?R s ?R)"
  proof (cases ?R)
    case (Suc q)
    show ?thesis
      by (rule nth_equalityI)
        (simp_all add: load Suc enc_state_Suc ct_encrypt_round_def Let_def xor_cancel)
  qed (simp add: load)
  have "foldl (ct_decrypt_round rk) (if ?R = 0 then map (\<lambda>c. s ! c XOR aes_bswap32 (rk ! c)) [0..<4]
        else unmixed rk ?R s ?R) (rev [1..<?R + 1]) = map (\<lambda>c. s ! c XOR aes_bswap32 (rk ! c)) [0..<4]"
    using decrypt_rounds [OF len, of ?R ?R rk] by simp
  moreover have "map (\<lambda>c. s ! c XOR aes_bswap32 (rk ! c)) [0..<4] =
      map (\<lambda>c. aes_load_le32 (drop (c * 4) input)) [0..<4]"
    by (rule nth_equalityI) (simp_all add: s_def xor_cancel)
  ultimately show ?thesis
    using store_input [OF assms] unfolding aes_block_decrypt_core_def start Let_def by simp
qed

end
