(* ===== verification/Aes_Table.thy ===== *)
theory Aes_Table
  imports Aes_Rom_Tables
begin

text \<open>
  The table block core of \<open>encryption/aes/noxtls_aes.c\<close> (\<open>NOXTLS_AES_CONSTANT_TIME = 0\<close>): encryption
  with the four round tables on big-endian columns, decryption on the byte matrix of the standard,
  and the public round helpers that both builds export. A matrix is the list of its four rows. The
  theorems: both cores compute the same function, and a round of the constant-time core is the
  composition of the public helpers.
\<close>

section \<open>Big-endian columns and the round tables\<close>

definition aes_load_be32 :: "bytes \<Rightarrow> u32" where
  "aes_load_be32 src =
     push_bit 24 (ucast (src ! 0)) OR push_bit 16 (ucast (src ! 1)) OR push_bit 8 (ucast (src ! 2)) OR
     ucast (src ! 3)"

definition aes_store_be32 :: "u32 \<Rightarrow> bytes" where
  "aes_store_be32 word =
     [ucast (drop_bit 24 word), ucast (drop_bit 16 word), ucast (drop_bit 8 word), ucast word]"

definition AES_TE0 :: "u32 \<Rightarrow> u32" where "AES_TE0 i = aes_enc_te0 ! unat i"
definition AES_TE1 :: "u32 \<Rightarrow> u32" where "AES_TE1 i = aes_enc_te1 ! unat i"
definition AES_TE2 :: "u32 \<Rightarrow> u32" where "AES_TE2 i = aes_enc_te2 ! unat i"
definition AES_TE3 :: "u32 \<Rightarrow> u32" where "AES_TE3 i = aes_enc_te3 ! unat i"

definition table_encrypt_round :: "u32 list \<Rightarrow> u32 list \<Rightarrow> nat \<Rightarrow> u32 list" where
  "table_encrypt_round round_keys s cur_round =
     map (\<lambda>c. AES_TE0 (drop_bit 24 (s ! c) AND 0xFF) XOR
              AES_TE1 (drop_bit 16 (s ! ((c + 1) mod 4)) AND 0xFF) XOR
              AES_TE2 (drop_bit 8 (s ! ((c + 2) mod 4)) AND 0xFF) XOR
              AES_TE3 (s ! ((c + 3) mod 4) AND 0xFF) XOR
              round_keys ! (cur_round * 4 + c)) [0..<4]"

definition table_final_round :: "u32 list \<Rightarrow> nat \<Rightarrow> u32 list \<Rightarrow> u32 list" where
  "table_final_round round_keys rounds s =
     map (\<lambda>c. push_bit 24 (ucast (aes_sbox_lookup (ucast (drop_bit 24 (s ! c))))) XOR
              push_bit 16 (ucast (aes_sbox_lookup (ucast (drop_bit 16 (s ! ((c + 1) mod 4)))))) XOR
              push_bit 8 (ucast (aes_sbox_lookup (ucast (drop_bit 8 (s ! ((c + 2) mod 4)))))) XOR
              ucast (aes_sbox_lookup (ucast (s ! ((c + 3) mod 4)))) XOR
              round_keys ! (rounds * 4 + c)) [0..<4]"

text \<open>The loop bound is \<open>(uint8_t)(rounds - 1)\<close>; with no rounds the loop of the code does not end.\<close>

definition table_block_encrypt_core :: "u32 list \<Rightarrow> u8 \<Rightarrow> bytes \<Rightarrow> bytes" where
  "table_block_encrypt_core round_keys rounds input =
     (let s = map (\<lambda>c. aes_load_be32 (drop (c * 4) input) XOR round_keys ! c) [0..<4];
          s = foldl (table_encrypt_round round_keys) s [1..<unat (rounds - 1) + 1];
          t = table_final_round round_keys (unat rounds) s
      in concat (map aes_store_be32 t))"

section \<open>The byte matrix\<close>

type_synonym aes_matrix = "u8 list list"

definition init_block_matrix :: "bytes \<Rightarrow> aes_matrix" where
  "init_block_matrix input = map (\<lambda>row. map (\<lambda>col. input ! (row + col * 4)) [0..<4]) [0..<4]"

definition noxtls_aes_init_block :: "aes_matrix option \<Rightarrow> bytes option \<Rightarrow> noxtls_return_t \<times> aes_matrix option" where
  "noxtls_aes_init_block state input =
     (case (state, input) of
        (Some _, Some d) \<Rightarrow> (NOXTLS_RETURN_SUCCESS, Some (init_block_matrix d))
      | _ \<Rightarrow> (NOXTLS_RETURN_NULL, state))"

definition copy_state_to_buffer :: "aes_matrix \<Rightarrow> bytes" where
  "copy_state_to_buffer state = concat (map (\<lambda>col. map (\<lambda>row. state ! row ! col) [0..<4]) [0..<4])"

text \<open>A row or a column as a big-endian word, and back.\<close>

definition pack_word :: "u8 \<Rightarrow> u8 \<Rightarrow> u8 \<Rightarrow> u8 \<Rightarrow> u32" where
  "pack_word a b c d = push_bit 24 (ucast a) OR push_bit 16 (ucast b) OR push_bit 8 (ucast c) OR ucast d"

definition unpack_word :: "u32 \<Rightarrow> bytes" where
  "unpack_word temp =
     [ucast (drop_bit 24 (temp AND 0xFF000000)), ucast (drop_bit 16 (temp AND 0x00FF0000)),
      ucast (drop_bit 8 (temp AND 0x0000FF00)), ucast (temp AND 0x000000FF)]"

definition add_round_key_matrix :: "aes_matrix \<Rightarrow> u32 list \<Rightarrow> aes_matrix" where
  "add_round_key_matrix state w =
     (let cols = map (\<lambda>col. unpack_word (pack_word (state ! 0 ! col) (state ! 1 ! col) (state ! 2 ! col)
                                          (state ! 3 ! col) XOR w ! col)) [0..<4]
      in map (\<lambda>row. map (\<lambda>col. cols ! col ! row) [0..<4]) [0..<4])"

definition noxtls_aes_add_round_key ::
    "aes_matrix option \<Rightarrow> u32 list option \<Rightarrow> noxtls_return_t \<times> aes_matrix option" where
  "noxtls_aes_add_round_key state w =
     (case (state, w) of
        (Some s, Some k) \<Rightarrow> (NOXTLS_RETURN_SUCCESS, Some (add_round_key_matrix s k))
      | _ \<Rightarrow> (NOXTLS_RETURN_NULL, state))"

definition sub_bytes_matrix :: "aes_matrix \<Rightarrow> aes_matrix" where
  "sub_bytes_matrix state =
     (let s = map (\<lambda>i. ucast (state ! i ! 0) OR push_bit 8 (ucast (state ! i ! 1)) OR
                       push_bit 16 (ucast (state ! i ! 2)) OR push_bit 24 (ucast (state ! i ! 3))) [0..<4];
          s = aes_ct_sub_bytes s 0
      in map (\<lambda>i. map (\<lambda>j. ucast (drop_bit (j * 8) (s ! i))) [0..<4]) [0..<4])"

definition noxtls_aes_sub_bytes :: "aes_matrix option \<Rightarrow> aes_matrix option" where
  "noxtls_aes_sub_bytes state = (case state of None \<Rightarrow> None | Some s \<Rightarrow> Some (sub_bytes_matrix s))"

definition NOXTLS_AES_ROTL :: "u32 \<Rightarrow> nat \<Rightarrow> u32" where
  "NOXTLS_AES_ROTL x n = push_bit (n mod 32) x OR drop_bit ((32 - n) mod 32) x"

definition NOXTLS_AES_ROTR :: "u32 \<Rightarrow> nat \<Rightarrow> u32" where
  "NOXTLS_AES_ROTR x n = drop_bit n x OR push_bit (32 - n) x"

definition noxtls_aes_shift_rows :: "aes_matrix \<Rightarrow> aes_matrix" where
  "noxtls_aes_shift_rows state =
     map (\<lambda>row. if row = 0 then state ! 0
                else unpack_word (NOXTLS_AES_ROTL (pack_word (state ! row ! 0) (state ! row ! 1)
                       (state ! row ! 2) (state ! row ! 3)) (8 * row))) [0..<4]"

definition mix_columns_column :: "(nat \<Rightarrow> u8) \<Rightarrow> bytes" where
  "mix_columns_column a =
     (let b = (\<lambda>i. aes_xtime_byte (a i))
      in [b 0 XOR a 3 XOR a 2 XOR b 1 XOR a 1, b 1 XOR a 0 XOR a 3 XOR b 2 XOR a 2,
          b 2 XOR a 1 XOR a 0 XOR b 3 XOR a 3, b 3 XOR a 2 XOR a 1 XOR b 0 XOR a 0])"

definition noxtls_aes_mix_columns :: "aes_matrix \<Rightarrow> aes_matrix" where
  "noxtls_aes_mix_columns state =
     (let cols = map (\<lambda>j. mix_columns_column (\<lambda>i. state ! i ! j)) [0..<4]
      in map (\<lambda>row. map (\<lambda>col. cols ! col ! row) [0..<4]) [0..<4])"

definition aes_inv_sub_bytes :: "aes_matrix \<Rightarrow> aes_matrix" where
  "aes_inv_sub_bytes state = map (\<lambda>i. map (\<lambda>j. aes_inv_sbox_lookup (state ! i ! j)) [0..<4]) [0..<4]"

definition aes_inv_shift_rows :: "aes_matrix \<Rightarrow> aes_matrix" where
  "aes_inv_shift_rows state =
     map (\<lambda>row. if row = 0 then state ! 0
                else unpack_word (NOXTLS_AES_ROTR (pack_word (state ! row ! 0) (state ! row ! 1)
                       (state ! row ! 2) (state ! row ! 3)) (8 * row))) [0..<4]"

definition aes_gf_mul :: "u8 \<Rightarrow> u8 \<Rightarrow> u8" where
  "aes_gf_mul a b =
     snd (snd (foldl (\<lambda>(aa, bb, p) i.
        let take = (ucast (0 - ucast (bb AND 1) :: u32) :: u8)
        in (aes_xtime_byte aa, drop_bit 1 bb, p XOR (aa AND take))) (a, b, 0) [0..<8]))"

definition inv_mix_column :: "u8 \<Rightarrow> u8 \<Rightarrow> u8 \<Rightarrow> u8 \<Rightarrow> bytes" where
  "inv_mix_column a0 a1 a2 a3 =
     [aes_gf_mul a0 0x0E XOR aes_gf_mul a1 0x0B XOR aes_gf_mul a2 0x0D XOR aes_gf_mul a3 0x09,
      aes_gf_mul a0 0x09 XOR aes_gf_mul a1 0x0E XOR aes_gf_mul a2 0x0B XOR aes_gf_mul a3 0x0D,
      aes_gf_mul a0 0x0D XOR aes_gf_mul a1 0x09 XOR aes_gf_mul a2 0x0E XOR aes_gf_mul a3 0x0B,
      aes_gf_mul a0 0x0B XOR aes_gf_mul a1 0x0D XOR aes_gf_mul a2 0x09 XOR aes_gf_mul a3 0x0E]"

definition aes_inv_mix_columns :: "aes_matrix \<Rightarrow> aes_matrix" where
  "aes_inv_mix_columns state =
     (let cols = map (\<lambda>j. inv_mix_column (state ! 0 ! j) (state ! 1 ! j) (state ! 2 ! j) (state ! 3 ! j)) [0..<4]
      in map (\<lambda>row. map (\<lambda>col. cols ! col ! row) [0..<4]) [0..<4])"

definition table_decrypt_round :: "u32 list \<Rightarrow> aes_matrix \<Rightarrow> nat \<Rightarrow> aes_matrix" where
  "table_decrypt_round round_keys state cur_round =
     aes_inv_mix_columns (add_round_key_matrix (aes_inv_sub_bytes (aes_inv_shift_rows state))
       (drop (cur_round * 4) round_keys))"

definition table_block_decrypt_core :: "u32 list \<Rightarrow> u8 \<Rightarrow> bytes \<Rightarrow> bytes" where
  "table_block_decrypt_core round_keys rounds input =
     (let state = add_round_key_matrix (init_block_matrix input) (drop (unat rounds * 4) round_keys);
          state = foldl (table_decrypt_round round_keys) state (rev [1..<unat rounds]);
          state = add_round_key_matrix (aes_inv_sub_bytes (aes_inv_shift_rows state)) round_keys
      in copy_state_to_buffer state)"

section \<open>Lanes of the table round\<close>

lemma four_lanes:
  fixes P :: "nat \<Rightarrow> bool"
  assumes "P 0" "P 1" "P 2" "P 3" "k < 4"
  shows "P k"
  using assms less_4_cases [of k] by auto

lemma lane_pack: "k < 4 \<Longrightarrow> lane (pack_word a b c d) k = [d, c, b, a] ! k"
  unfolding pack_word_def
  by (drule less_4_cases, elim disjE; simp; intro bit_word_eqI)
    (simp_all add: bit_lane bit_simps byte_bit_high)

lemma load_be_pack: "aes_load_be32 src = pack_word (src ! 0) (src ! 1) (src ! 2) (src ! 3)"
  by (simp add: aes_load_be32_def pack_word_def)

lemma lane_rotr8: "k < 4 \<Longrightarrow> lane (drop_bit 8 t OR push_bit 24 t) k = lane t ((k + 1) mod 4)"
  "k < 4 \<Longrightarrow> lane (drop_bit 16 t OR push_bit 16 t) k = lane t ((k + 2) mod 4)"
  "k < 4 \<Longrightarrow> lane (drop_bit 24 t OR push_bit 8 t) k = lane t ((k + 3) mod 4)"
  by (drule less_4_cases, elim disjE; simp; intro bit_word_eqI;
      auto simp: bit_lane bit_simps dest: bit_imp_le_length)+

lemma unpack_lanes: "unpack_word w = [lane w 3, lane w 2, lane w 1, lane w 0]"
  by (auto simp: unpack_word_def lane_def lane_masks simp del: mask_numeral intro!: bit_word_eqI simp: bit_simps)

lemma unat_low_byte: "unat (v AND 0xFF :: u32) = unat (ucast v :: u8)"
proof -
  have m: "(0xFF :: u32) = mask 8" by (simp add: mask_eq_exp_minus_1)
  show ?thesis unfolding m unat_and_mask by (simp add: unsigned_ucast_eq take_bit_eq_mod)
qed

lemma lane_te0: "k < 4 \<Longrightarrow> lane (te0_of s) k = [aes_xtime_byte s XOR s, s, s, aes_xtime_byte s] ! k"
  using lane_pack [of k "aes_xtime_byte s" s s "aes_xtime_byte s XOR s"]
  by (simp add: te0_of_def pack_word_def Let_def)

lemma te0_entry: "aes_enc_te0 ! unat x = te0_of (aes_sbox_lookup x)"
proof -
  have "length (concat aes_sub_box) = 256" using arg_cong [OF sbox_at_table, of length] by simp
  moreover have "unat x < 256" using unsigned_less [of x] by simp
  ultimately show ?thesis by (simp add: te0_table [symmetric] sbox_lookup_concat)
qed

lemma te_length: "unat (x :: u8) < length aes_enc_te0"
proof -
  have "length (concat aes_sub_box) = 256" using arg_cong [OF sbox_at_table, of length] by simp
  then have "length aes_enc_te0 = 256" by (simp add: te0_table [symmetric])
  moreover have "unat x < 256" using unsigned_less [of x] by simp
  ultimately show ?thesis by simp
qed

lemma te_entries:
  "AES_TE0 (w AND 0xFF) = te0_of (aes_sbox_lookup (ucast w))"
  "AES_TE1 (w AND 0xFF) = drop_bit 8 (te0_of (aes_sbox_lookup (ucast w))) OR push_bit 24 (te0_of (aes_sbox_lookup (ucast w)))"
  "AES_TE2 (w AND 0xFF) = drop_bit 16 (te0_of (aes_sbox_lookup (ucast w))) OR push_bit 16 (te0_of (aes_sbox_lookup (ucast w)))"
  "AES_TE3 (w AND 0xFF) = drop_bit 24 (te0_of (aes_sbox_lookup (ucast w))) OR push_bit 8 (te0_of (aes_sbox_lookup (ucast w)))"
  by (simp_all only: AES_TE0_def AES_TE1_def AES_TE2_def AES_TE3_def unat_low_byte te0_entry
      te1_table [symmetric] te2_table [symmetric] te3_table [symmetric] nth_map [OF te_length])

section \<open>Lanes of the constant-time round\<close>

lemma linear_lane [gf2_intros]: "gf2_linear f \<Longrightarrow> gf2_linear (\<lambda>w. lane (f w) k)"
  by (simp add: gf2_linear_def lane_xor)

lemma linear_xtime [gf2_intros]: "gf2_linear f \<Longrightarrow> gf2_linear (\<lambda>w. aes_xtime_byte (f w))"
  by (simp only: gf2_linear_def xtime_byte_if bit_xor_iff push_bit_xor) (auto simp: ac_simps)

lemma mix_lanes:
  assumes "k < 4"
  shows "lane (aes_ct_mix_column w) k =
    aes_xtime_byte (lane w k) XOR aes_xtime_byte (lane w ((k + 1) mod 4)) XOR lane w ((k + 1) mod 4) XOR
    lane w ((k + 2) mod 4) XOR lane w ((k + 3) mod 4)"
proof (rule gf2_word32_eqI [where f = "\<lambda>w. lane (aes_ct_mix_column w) k" and g = "\<lambda>w.
    aes_xtime_byte (lane w k) XOR aes_xtime_byte (lane w ((k + 1) mod 4)) XOR lane w ((k + 1) mod 4) XOR
    lane w ((k + 2) mod 4) XOR lane w ((k + 3) mod 4)"])
  have "\<forall>n\<in>set [0..<32]. mix_columns_column (lane (push_bit n 1)) =
      map (lane (aes_ct_mix_column (push_bit n 1))) [0, 1, 2, 3]"
    unfolding upt_32 list.set ball_simps
    by (simp add: mix_columns_column_def lane_def xtime_byte_if aes_ct_mix_column_def aes_ct_xtime32_def Let_def
        cong: let_weak_cong)
  then have "\<forall>n\<in>set [0..<32]. lane (aes_ct_mix_column (push_bit n 1)) k = mix_columns_column (lane (push_bit n 1)) ! k"
    using less_4_cases [OF assms] by auto
  moreover have "mix_columns_column a ! k = aes_xtime_byte (a k) XOR aes_xtime_byte (a ((k + 1) mod 4)) XOR
      a ((k + 1) mod 4) XOR a ((k + 2) mod 4) XOR a ((k + 3) mod 4)" for a
    using less_4_cases [OF assms]
    by (elim disjE; simp add: mix_columns_column_def Let_def del: One_nat_def add_2_eq_Suc'; simp only: ac_simps)
  ultimately show "\<forall>n\<in>set [0..<32]. lane (aes_ct_mix_column (push_bit n 1)) k =
      aes_xtime_byte (lane (push_bit n 1) k) XOR aes_xtime_byte (lane (push_bit n 1) ((k + 1) mod 4)) XOR
      lane (push_bit n 1) ((k + 1) mod 4) XOR lane (push_bit n 1) ((k + 2) mod 4) XOR
      lane (push_bit n 1) ((k + 3) mod 4)"
    by simp
qed (intro gf2_intros)+

section \<open>Both cores encrypt alike\<close>

text \<open>The table core holds the columns in the opposite byte order.\<close>

definition swapped :: "u32 list \<Rightarrow> u32 list \<Rightarrow> bool" where
  "swapped S s \<longleftrightarrow> length S = 4 \<and> length s = 4 \<and> (\<forall>c<4. \<forall>k<4. lane (S ! c) k = lane (s ! c) (3 - k))"

lemma swappedI:
  assumes "length S = 4" "length s = 4"
    and "\<And>c. c < 4 \<Longrightarrow> lane (S ! c) 0 = lane (s ! c) 3" "\<And>c. c < 4 \<Longrightarrow> lane (S ! c) 1 = lane (s ! c) 2"
    and "\<And>c. c < 4 \<Longrightarrow> lane (S ! c) 2 = lane (s ! c) 1" "\<And>c. c < 4 \<Longrightarrow> lane (S ! c) 3 = lane (s ! c) 0"
  shows "swapped S s"
  unfolding swapped_def using assms by (auto intro: four_lanes)

lemma swappedD:
  assumes "swapped S s" "c < 4"
  shows "lane (S ! c) 0 = lane (s ! c) 3" "lane (S ! c) 1 = lane (s ! c) 2"
    "lane (S ! c) 2 = lane (s ! c) 1" "lane (S ! c) 3 = lane (s ! c) 0"
proof -
  have "lane (S ! c) k = lane (s ! c) (3 - k)" if "k < 4" for k
    using assms that by (simp add: swapped_def)
  from this [of 0] this [of 1] this [of 2] this [of 3]
  show "lane (S ! c) 0 = lane (s ! c) 3" "lane (S ! c) 1 = lane (s ! c) 2"
    "lane (S ! c) 2 = lane (s ! c) 1" "lane (S ! c) 3 = lane (s ! c) 0" by simp_all
qed

lemma ucast_lane: "ucast w = lane w 0" "lane (drop_bit 24 w) 0 = lane w 3"
  "lane (drop_bit 16 w) 0 = lane w 2" "lane (drop_bit 8 w) 0 = lane w 1"
  by (simp_all add: lane_def)

lemma table_round_swapped:
  assumes S: "swapped S s" and r: "r < rounds"
  shows "swapped (table_encrypt_round rk S r) (ct_encrypt_round rk rounds s r)"
proof (rule swappedI)
  fix c :: nat assume c: "c < 4"
  have m: "(c + 1) mod 4 < 4" "(c + 2) mod 4 < 4" "(c + 3) mod 4 < 4" by simp_all
  note lanes = table_encrypt_round_def ct_encrypt_round_def Let_def te_entries ucast_lane lane_xor
    lane_rotr8 lane_te0 lane_bswap mix_lanes lane_shift_rows sub_bytes_lane swappedD [OF S c]
    swappedD [OF S m(1)] swappedD [OF S m(2)] swappedD [OF S m(3)]
  show "lane (table_encrypt_round rk S r ! c) 0 = lane (ct_encrypt_round rk rounds s r ! c) 3"
    using c r by (simp add: lanes del: One_nat_def add_2_eq_Suc') (simp only: ac_simps One_nat_def)
  show "lane (table_encrypt_round rk S r ! c) 1 = lane (ct_encrypt_round rk rounds s r ! c) 2"
    using c r by (simp add: lanes del: One_nat_def add_2_eq_Suc') (simp only: ac_simps One_nat_def)
  show "lane (table_encrypt_round rk S r ! c) 2 = lane (ct_encrypt_round rk rounds s r ! c) 1"
    using c r by (simp add: lanes del: One_nat_def add_2_eq_Suc') (simp only: ac_simps One_nat_def)
  show "lane (table_encrypt_round rk S r ! c) 3 = lane (ct_encrypt_round rk rounds s r ! c) 0"
    using c r by (simp add: lanes del: One_nat_def add_2_eq_Suc') (simp only: ac_simps One_nat_def)
qed (simp_all add: table_encrypt_round_def)

lemma table_final_swapped:
  assumes S: "swapped S s"
  shows "swapped (table_final_round rk rounds S) (ct_encrypt_round rk rounds s rounds)"
proof (rule swappedI)
  fix c :: nat assume c: "c < 4"
  have m: "(c + 1) mod 4 < 4" "(c + 2) mod 4 < 4" "(c + 3) mod 4 < 4" by simp_all
  have word: "push_bit 24 (ucast w) XOR push_bit 16 (ucast x) XOR push_bit 8 (ucast y) XOR ucast z =
      pack_word w x y z" for w x y z :: u8
    unfolding pack_word_def
    by (rule bit_word_eqI) (auto simp: bit_simps dest: byte_bit_high bit_imp_le_length)
  have col: "table_final_round rk rounds S ! c =
      pack_word (aes_sbox_lookup (lane (s ! c) 0)) (aes_sbox_lookup (lane (s ! ((c + 1) mod 4)) 1))
        (aes_sbox_lookup (lane (s ! ((c + 2) mod 4)) 2)) (aes_sbox_lookup (lane (s ! ((c + 3) mod 4)) 3))
      XOR rk ! (rounds * 4 + c)"
    using c by (simp add: table_final_round_def word [symmetric] ucast_lane swappedD [OF S c]
        swappedD [OF S m(1)] swappedD [OF S m(2)] swappedD [OF S m(3)] xor.assoc
        del: One_nat_def add_2_eq_Suc')
  note lanes = col ct_encrypt_round_def Let_def lane_xor lane_pack lane_bswap lane_shift_rows sub_bytes_lane
  show "lane (table_final_round rk rounds S ! c) 0 = lane (ct_encrypt_round rk rounds s rounds ! c) 3"
    "lane (table_final_round rk rounds S ! c) 1 = lane (ct_encrypt_round rk rounds s rounds ! c) 2"
    "lane (table_final_round rk rounds S ! c) 2 = lane (ct_encrypt_round rk rounds s rounds ! c) 1"
    "lane (table_final_round rk rounds S ! c) 3 = lane (ct_encrypt_round rk rounds s rounds ! c) 0"
    using c by (simp_all add: lanes)
qed (simp_all add: table_final_round_def)

lemma store_be_lanes: "aes_store_be32 w = [lane w 3, lane w 2, lane w 1, lane w 0]"
  by (simp add: aes_store_be32_def lane_def)

lemma store_swapped:
  assumes S: "swapped S s"
  shows "concat (map aes_store_be32 S) = concat (map aes_store_le32 s)"
proof -
  have "map aes_store_be32 S = map aes_store_le32 s"
  proof (rule nth_equalityI)
    fix i assume "i < length (map aes_store_be32 S)"
    then have "i < 4" using S by (simp add: swapped_def)
    then show "map aes_store_be32 S ! i = map aes_store_le32 s ! i"
      using S swappedD [OF S \<open>i < 4\<close>]
      by (simp add: swapped_def store_be_lanes store_lanes upt_4)
  qed (use S in \<open>simp add: swapped_def\<close>)
  then show ?thesis by simp
qed

lemma table_encrypt_eq:
  assumes rounds: "0 < rounds"
  shows "table_block_encrypt_core rk rounds input = aes_block_encrypt_core rk rounds input"
proof -
  define S where "S = map (\<lambda>c. aes_load_be32 (drop (c * 4) input) XOR rk ! c) [0..<4]"
  define s where "s = map (\<lambda>c. aes_load_le32 (drop (c * 4) input) XOR aes_bswap32 (rk ! c)) [0..<4]"
  obtain q where q: "unat rounds = Suc q"
    using rounds by (cases "unat rounds") (auto simp: word_less_nat_alt)
  have q': "unat (rounds - 1) = q"
    using q rounds by (simp add: unat_minus_one word_neq_0_conv)
  have "swapped S s"
    by (rule swappedI) (simp_all add: S_def s_def lane_xor lane_bswap lane_load load_be_pack lane_pack)
  moreover have "swapped S s \<Longrightarrow> m \<le> q \<Longrightarrow> swapped (foldl (table_encrypt_round rk) S [1..<m + 1])
      (foldl (ct_encrypt_round rk (Suc q)) s [1..<m + 1])" for m
    by (induction m) (simp_all add: table_round_swapped)
  ultimately have "swapped (foldl (table_encrypt_round rk) S [1..<q + 1])
      (foldl (ct_encrypt_round rk (Suc q)) s [1..<q + 1])" by simp
  from store_swapped [OF table_final_swapped [OF this, of rk "Suc q"]] show ?thesis
    by (simp add: table_block_encrypt_core_def aes_block_encrypt_core_def q q' S_def s_def Let_def)
qed

section \<open>Both cores decrypt alike\<close>

definition matrix_of :: "aes_matrix \<Rightarrow> u32 list \<Rightarrow> bool" where
  "matrix_of A s \<longleftrightarrow> (\<forall>r<4. \<forall>c<4. A ! r ! c = lane (s ! c) r)"

lemma matrix_ofD: "matrix_of A s \<Longrightarrow> r < 4 \<Longrightarrow> c < 4 \<Longrightarrow> A ! r ! c = lane (s ! c) r"
  by (simp add: matrix_of_def)

lemma matrix_init: "matrix_of (init_block_matrix input) (map (\<lambda>c. aes_load_le32 (drop (c * 4) input)) [0..<4])"
  if "length input = 16"
  using that by (simp add: matrix_of_def init_block_matrix_def lane_load add.commute)

lemma matrix_add_key:
  assumes "matrix_of A s"
  shows "matrix_of (add_round_key_matrix A w) (map (\<lambda>c. s ! c XOR aes_bswap32 (w ! c)) [0..<4])"
  unfolding matrix_of_def
proof (intro allI impI)
  fix r c :: nat assume r: "r < 4" and c: "c < 4"
  show "add_round_key_matrix A w ! r ! c = lane (map (\<lambda>c. s ! c XOR aes_bswap32 (w ! c)) [0..<4] ! c) r"
    by (rule four_lanes [OF _ _ _ _ r])
      (simp_all add: c add_round_key_matrix_def Let_def unpack_lanes lane_xor lane_pack lane_bswap
        matrix_ofD [OF assms])
qed

lemma matrix_inv_shift:
  assumes "matrix_of A s"
  shows "matrix_of (aes_inv_shift_rows A) (ct_inv_shift_rows s)"
  unfolding matrix_of_def
proof (intro allI impI)
  fix r c :: nat assume r: "r < 4" and c: "c < 4"
  show "aes_inv_shift_rows A ! r ! c = lane (ct_inv_shift_rows s ! c) r"
    using less_4_cases [OF r] less_4_cases [OF c]
    by (elim disjE; simp add: aes_inv_shift_rows_def NOXTLS_AES_ROTR_def unpack_lanes lane_rotr8 lane_pack
        lane_inv_shift_rows matrix_ofD [OF assms]; simp add: numeral_2_eq_2)
qed

lemma matrix_inv_sub:
  assumes "matrix_of A s"
  shows "matrix_of (aes_inv_sub_bytes A) (aes_ct_sub_bytes s 1)"
  using assms by (simp add: matrix_of_def aes_inv_sub_bytes_def inv_sub_bytes_lane)

lemma gf_mul_values:
  "aes_gf_mul a 0x09 = a XOR aes_xtime_byte (aes_xtime_byte (aes_xtime_byte a))"
  "aes_gf_mul a 0x0B = a XOR aes_xtime_byte a XOR aes_xtime_byte (aes_xtime_byte (aes_xtime_byte a))"
  "aes_gf_mul a 0x0D = a XOR aes_xtime_byte (aes_xtime_byte a) XOR aes_xtime_byte (aes_xtime_byte (aes_xtime_byte a))"
  "aes_gf_mul a 0x0E = aes_xtime_byte a XOR aes_xtime_byte (aes_xtime_byte a) XOR aes_xtime_byte (aes_xtime_byte (aes_xtime_byte a))"
proof -
  have m: "(ucast (- 1 :: u32) :: u8) = - 1" by (rule bit_word_eqI) (simp add: bit_simps)
  show "aes_gf_mul a 0x09 = a XOR aes_xtime_byte (aes_xtime_byte (aes_xtime_byte a))"
    "aes_gf_mul a 0x0B = a XOR aes_xtime_byte a XOR aes_xtime_byte (aes_xtime_byte (aes_xtime_byte a))"
    "aes_gf_mul a 0x0D = a XOR aes_xtime_byte (aes_xtime_byte a) XOR aes_xtime_byte (aes_xtime_byte (aes_xtime_byte a))"
    "aes_gf_mul a 0x0E = aes_xtime_byte a XOR aes_xtime_byte (aes_xtime_byte a) XOR aes_xtime_byte (aes_xtime_byte (aes_xtime_byte a))"
    by (simp_all add: aes_gf_mul_def upt_8 m xor.assoc)
qed

lemma inv_mix_lanes:
  assumes "k < 4"
  shows "inv_mix_column (lane w 0) (lane w 1) (lane w 2) (lane w 3) ! k = lane (aes_ct_inv_mix_column w) k"
proof (rule gf2_word32_eqI [where g = "\<lambda>w. lane (aes_ct_inv_mix_column w) k" and
    f = "\<lambda>w. inv_mix_column (lane w 0) (lane w 1) (lane w 2) (lane w 3) ! k"])
  show "gf2_linear (\<lambda>w. inv_mix_column (lane w 0) (lane w 1) (lane w 2) (lane w 3) ! k)"
    by (rule four_lanes [OF _ _ _ _ assms])
      (simp_all add: inv_mix_column_def gf_mul_values gf2_intros)
  show "\<forall>n\<in>set [0..<32]. inv_mix_column (lane (push_bit n 1) 0) (lane (push_bit n 1) 1) (lane (push_bit n 1) 2)
      (lane (push_bit n 1) 3) ! k = lane (aes_ct_inv_mix_column (push_bit n 1)) k"
  proof -
    have "\<forall>n\<in>set [0..<32]. inv_mix_column (lane (push_bit n 1) 0) (lane (push_bit n 1) 1) (lane (push_bit n 1) 2)
        (lane (push_bit n 1) 3) = map (lane (aes_ct_inv_mix_column (push_bit n 1))) [0, 1, 2, 3]"
      unfolding upt_32 list.set ball_simps
      by (simp add: inv_mix_column_def gf_mul_values lane_def xtime_byte_if aes_ct_inv_mix_column_def
          aes_ct_mix_column_def aes_ct_xtime32_def Let_def cong: let_weak_cong)
    then show ?thesis using less_4_cases [OF assms] by auto
  qed
qed (intro gf2_intros)

lemma matrix_inv_mix:
  assumes "matrix_of A s"
  shows "matrix_of (aes_inv_mix_columns A) (map (\<lambda>c. aes_ct_inv_mix_column (s ! c)) [0..<4])"
  using inv_mix_lanes assms by (simp add: matrix_of_def aes_inv_mix_columns_def Let_def)

lemma nth_drop_key:
  "r < rounds \<Longrightarrow> 4 * (rounds + 1) \<le> length rk \<Longrightarrow> c < 4 \<Longrightarrow> drop (r * 4) rk ! c = rk ! (r * 4 + c)"
  "4 * (rounds + 1) \<le> length rk \<Longrightarrow> c < 4 \<Longrightarrow> drop (rounds * 4) rk ! c = rk ! (rounds * 4 + c)"
  by simp_all

lemma matrix_round:
  assumes A: "matrix_of A s" and r: "r < rounds" "0 < r" and rk: "4 * (rounds + 1) \<le> length rk"
  shows "matrix_of (table_decrypt_round rk A r) (ct_decrypt_round rk s (Suc r))"
proof -
  let ?t = "aes_ct_sub_bytes (ct_inv_shift_rows s) 1"
  have "matrix_of (table_decrypt_round rk A r)
      (map (\<lambda>c. aes_ct_inv_mix_column (map (\<lambda>c. ?t ! c XOR aes_bswap32 (drop (r * 4) rk ! c)) [0..<4] ! c)) [0..<4])"
    unfolding table_decrypt_round_def
    by (rule matrix_inv_mix [OF matrix_add_key [OF matrix_inv_sub [OF matrix_inv_shift [OF A]]]])
  moreover have "map (\<lambda>c. aes_ct_inv_mix_column (map (\<lambda>c. ?t ! c XOR aes_bswap32 (drop (r * 4) rk ! c)) [0..<4] ! c)) [0..<4]
      = ct_decrypt_round rk s (Suc r)"
    unfolding ct_decrypt_round_def Let_def
    by (rule nth_equalityI) (use r rk in \<open>simp_all add: nth_drop_key\<close>)
  ultimately show ?thesis by simp
qed

lemma matrix_output:
  assumes "matrix_of A s" "length s = 4"
  shows "copy_state_to_buffer A = concat (map aes_store_le32 s)"
proof -
  have "map (\<lambda>col. map (\<lambda>row. A ! row ! col) [0..<4]) [0..<4] = map aes_store_le32 s"
    using assms by (intro nth_equalityI) (simp_all add: store_lanes matrix_ofD)
  then show ?thesis by (simp add: copy_state_to_buffer_def)
qed

lemma table_decrypt_eq:
  assumes rounds: "0 < rounds" and rk: "4 * (unat rounds + 1) \<le> length rk" and len: "length input = 16"
  shows "table_block_decrypt_core rk rounds input = aes_block_decrypt_core rk rounds input"
proof -
  let ?R = "unat rounds"
  define A where "A = add_round_key_matrix (init_block_matrix input) (drop (?R * 4) rk)"
  define s where "s = map (\<lambda>c. aes_load_le32 (drop (c * 4) input) XOR aes_bswap32 (rk ! (?R * 4 + c))) [0..<4]"
  obtain q where q: "?R = Suc q"
    using rounds by (cases ?R) (auto simp: word_less_nat_alt)
  have start: "matrix_of A s"
  proof -
    have "map (\<lambda>c. map (\<lambda>c. aes_load_le32 (drop (c * 4) input)) [0..<4] ! c XOR aes_bswap32 (drop (?R * 4) rk ! c)) [0..<4] = s"
      unfolding s_def by (rule nth_equalityI) (use rk in \<open>simp_all add: nth_drop_key\<close>)
    then show ?thesis using matrix_add_key [OF matrix_init [OF len], of "drop (?R * 4) rk"] by (simp add: A_def)
  qed
  have rounds_eq: "matrix_of B t \<Longrightarrow> m < ?R \<Longrightarrow>
      matrix_of (foldl (table_decrypt_round rk) B (rev [1..<m + 1])) (foldl (ct_decrypt_round rk) t (rev [2..<m + 2]))"
    for m B t
  proof (induction m arbitrary: B t)
    case (Suc m)
    then show ?case using matrix_round [OF Suc.prems(1), of "Suc m" ?R rk] rk by simp
  qed simp
  let ?B = "foldl (table_decrypt_round rk) A (rev [1..<q + 1])"
  let ?t = "foldl (ct_decrypt_round rk) s (rev [2..<q + 2])"
  have "matrix_of ?B ?t" using rounds_eq [OF start, of q] q by simp
  from matrix_add_key [OF matrix_inv_sub [OF matrix_inv_shift [OF this]], of rk]
  have last: "matrix_of (add_round_key_matrix (aes_inv_sub_bytes (aes_inv_shift_rows ?B)) rk) (ct_decrypt_round rk ?t 1)"
    by (simp add: ct_decrypt_round_def Let_def)
  have "[1..<?R + 1] = 1 # [2..<q + 2]" unfolding q using upt_conv_Cons [of 1 "q + 2"] by (simp add: numeral_2_eq_2 del: upt_Suc)
  then have "aes_block_decrypt_core rk rounds input = concat (map aes_store_le32 (ct_decrypt_round rk ?t 1))"
    by (simp add: aes_block_decrypt_core_def s_def Let_def)
  moreover have "table_block_decrypt_core rk rounds input =
      copy_state_to_buffer (add_round_key_matrix (aes_inv_sub_bytes (aes_inv_shift_rows ?B)) rk)"
    by (simp add: table_block_decrypt_core_def A_def Let_def q)
  ultimately show ?thesis
    using matrix_output [OF last] by (simp add: ct_decrypt_round_def Let_def)
qed

section \<open>The public round helpers\<close>

lemma matrix_sub:
  assumes "matrix_of A s"
  shows "matrix_of (sub_bytes_matrix A) (aes_ct_sub_bytes s 0)"
  unfolding matrix_of_def
proof (intro allI impI)
  fix r c :: nat assume r: "r < 4" and c: "c < 4"
  have row: "lane (ucast a OR push_bit 8 (ucast b) OR push_bit 16 (ucast d) OR push_bit 24 (ucast e)) k =
      [a, b, d, e] ! k" if "k < 4" for a b d e k
    using lane_load [OF that, of "[a, b, d, e]"] by (simp add: aes_load_le32_def numeral_2_eq_2 numeral_3_eq_3)
  have "[A ! r ! 0, A ! r ! 1, A ! r ! 2, A ! r ! 3] ! c = lane (s ! c) r"
    using less_4_cases [OF c] r by (elim disjE) (simp_all add: matrix_ofD [OF assms])
  then show "sub_bytes_matrix A ! r ! c = lane (aes_ct_sub_bytes s 0 ! c) r"
    using r c by (simp add: sub_bytes_matrix_def Let_def lane_def [symmetric] mult.commute [of _ 8]
        sub_bytes_lane row)
qed

lemma matrix_shift:
  assumes "matrix_of A s"
  shows "matrix_of (noxtls_aes_shift_rows A) (ct_shift_rows s)"
  unfolding matrix_of_def
proof (intro allI impI)
  fix r c :: nat assume r: "r < 4" and c: "c < 4"
  have rot: "NOXTLS_AES_ROTL w 8 = drop_bit 24 w OR push_bit 8 w" "NOXTLS_AES_ROTL w 16 = drop_bit 16 w OR push_bit 16 w"
    "NOXTLS_AES_ROTL w 24 = drop_bit 8 w OR push_bit 24 w" for w
    by (simp_all add: NOXTLS_AES_ROTL_def or.commute)
  show "noxtls_aes_shift_rows A ! r ! c = lane (ct_shift_rows s ! c) r"
    using less_4_cases [OF r] less_4_cases [OF c]
    by (elim disjE; simp add: noxtls_aes_shift_rows_def rot unpack_lanes lane_rotr8 lane_pack
        lane_shift_rows matrix_ofD [OF assms]; simp add: numeral_2_eq_2)
qed

lemma matrix_mix:
  assumes "matrix_of A s"
  shows "matrix_of (noxtls_aes_mix_columns A) (map (\<lambda>c. aes_ct_mix_column (s ! c)) [0..<4])"
  unfolding matrix_of_def
proof (intro allI impI)
  fix r c :: nat assume r: "r < 4" and c: "c < 4"
  have "mix_columns_column (\<lambda>i. A ! i ! c) ! r = lane (aes_ct_mix_column (s ! c)) r"
    using less_4_cases [OF r]
    by (elim disjE; simp add: mix_lanes mix_columns_column_def Let_def matrix_ofD [OF assms _ c]
        del: One_nat_def add_2_eq_Suc'; simp only: ac_simps)
  then show "noxtls_aes_mix_columns A ! r ! c = lane (map (\<lambda>c. aes_ct_mix_column (s ! c)) [0..<4] ! c) r"
    using r c by (simp add: noxtls_aes_mix_columns_def Let_def)
qed

lemma matrix_encrypt_round:
  assumes A: "matrix_of A s" and r: "r < rounds" and rk: "4 * (rounds + 1) \<le> length rk"
  shows "matrix_of (add_round_key_matrix (noxtls_aes_mix_columns (noxtls_aes_shift_rows (sub_bytes_matrix A)))
    (drop (r * 4) rk)) (ct_encrypt_round rk rounds s r)"
proof -
  have "map (\<lambda>c. map (\<lambda>c. aes_ct_mix_column (ct_shift_rows (aes_ct_sub_bytes s 0) ! c)) [0..<4] ! c
      XOR aes_bswap32 (drop (r * 4) rk ! c)) [0..<4] = ct_encrypt_round rk rounds s r"
    unfolding ct_encrypt_round_def Let_def
    by (rule nth_equalityI) (use r rk in \<open>simp_all add: nth_drop_key\<close>)
  note round = this
  from matrix_add_key [OF matrix_mix [OF matrix_shift [OF matrix_sub [OF A]]], of "drop (r * 4) rk"]
  show ?thesis unfolding round .
qed

text \<open>
  Claim C16. The table core and the constant-time core are the same cipher: for every schedule, every
  positive number of rounds the schedule covers and every block, they encrypt and decrypt alike.
\<close>

theorem aes_cores_agree:
  assumes "0 < rounds" "4 * (unat rounds + 1) \<le> length rk" "length input = 16"
  shows "table_block_encrypt_core rk rounds input = aes_block_encrypt_core rk rounds input \<and>
    table_block_decrypt_core rk rounds input = aes_block_decrypt_core rk rounds input"
  using table_encrypt_eq [OF assms(1)] table_decrypt_eq [OF assms] by simp_all

theorem aes_cores_agree_witness:
  "table_block_decrypt_core (replicate 44 5) 10 (replicate 16 3) =
   aes_block_decrypt_core (replicate 44 5) 10 (replicate 16 3)"
  using aes_cores_agree [of 10 "replicate 44 5" "replicate 16 3"] by simp

text \<open>
  Claim C17. A round of the constant-time core is AddRoundKey after MixColumns after ShiftRows after
  SubBytes, as the public helpers of the same file compute them on the byte matrix.
\<close>

theorem aes_round_is_composition:
  assumes "matrix_of A s" "r < rounds" "4 * (rounds + 1) \<le> length rk"
    and "noxtls_aes_sub_bytes (Some A) = Some B"
    and "noxtls_aes_add_round_key (Some (noxtls_aes_mix_columns (noxtls_aes_shift_rows B)))
           (Some (drop (r * 4) rk)) = (NOXTLS_RETURN_SUCCESS, Some C)"
  shows "matrix_of C (ct_encrypt_round rk rounds s r)"
  using matrix_encrypt_round [OF assms(1,2,3)] assms(4,5)
  by (auto simp: noxtls_aes_sub_bytes_def noxtls_aes_add_round_key_def)

theorem aes_round_is_composition_witness:
  "\<exists>C. noxtls_aes_add_round_key (Some (noxtls_aes_mix_columns (noxtls_aes_shift_rows
       (sub_bytes_matrix (init_block_matrix (replicate 16 7)))))) (Some (drop 4 (replicate 44 1))) =
     (NOXTLS_RETURN_SUCCESS, Some C) \<and>
   matrix_of C (ct_encrypt_round (replicate 44 1) 10
     (map (\<lambda>c. aes_load_le32 (drop (c * 4) (replicate 16 7))) [0..<4]) 1)"
  using aes_round_is_composition [OF matrix_init [of "replicate 16 7"], of 1 10 "replicate 44 1"]
  by (simp add: noxtls_aes_sub_bytes_def noxtls_aes_add_round_key_def)

end
