(* ===== verification/Aes_Key.thy ===== *)
theory Aes_Key
  imports Aes_Core Ct_Memory
begin

text \<open>
  Key schedules, contexts and single-block entry points of \<open>encryption/aes/noxtls_aes.c\<close>. The
  platform hook \<open>noxtls_aes_accel_port_encrypt_block\<close> is hardware and a parameter: given the key, the
  block, the old contents of the output buffer and the key size it returns a code and the new
  contents. \<open>NOXTLS_RETURN_NOT_SUPPORTED\<close> sends the call to the software core. The AES-NI and Apple
  backends, which the default configuration leaves out, are not modelled.
\<close>

section \<open>Key schedule\<close>

definition NOXTLS_AES_128_BIT :: u32 where "NOXTLS_AES_128_BIT = 0"
definition NOXTLS_AES_192_BIT :: u32 where "NOXTLS_AES_192_BIT = 1"
definition NOXTLS_AES_256_BIT :: u32 where "NOXTLS_AES_256_BIT = 2"

definition aes_type_params :: "u32 \<Rightarrow> noxtls_return_t \<times> u8 \<times> u8 \<times> u8" where
  "aes_type_params type =
     (if type = NOXTLS_AES_128_BIT then (NOXTLS_RETURN_SUCCESS, 10, 4, 16)
      else if type = NOXTLS_AES_192_BIT then (NOXTLS_RETURN_SUCCESS, 12, 6, 24)
      else if type = NOXTLS_AES_256_BIT then (NOXTLS_RETURN_SUCCESS, 14, 8, 32)
      else (NOXTLS_RETURN_INVALID_KEY_SIZE, 0, 0, 0))"

fun rcon_loop :: "nat \<Rightarrow> u8 \<Rightarrow> u8" where
  "rcon_loop 0 c = c"
| "rcon_loop (Suc n) c =
     (let b = c AND 0x80; c = push_bit 1 c
      in rcon_loop n (if b = 0x80 then c XOR 0x1b else c))"

definition rcon :: "u8 \<Rightarrow> u32" where
  "rcon r = (if r = 0 then 0 else push_bit 24 (ucast (rcon_loop (unat r - 1) 1)))"

definition aes_rotword :: "u32 \<Rightarrow> u32" where
  "aes_rotword w = push_bit 8 w OR drop_bit 24 (w AND 0xFF000000)"

definition aes_subword :: "u32 \<Rightarrow> u32" where
  "aes_subword w = aes_ct_sub_bytes [w, 0, 0, 0] 0 ! 0"

definition key_word :: "bytes \<Rightarrow> nat \<Rightarrow> u32" where
  "key_word key i =
     (let off = i * 4
      in push_bit 24 (ucast (key ! off)) OR push_bit 16 (ucast (key ! (off + 1))) OR
         push_bit 8 (ucast (key ! (off + 2))) OR ucast (key ! (off + 3)))"

definition schedule_step :: "nat \<Rightarrow> u32 list \<Rightarrow> nat \<Rightarrow> u32 list" where
  "schedule_step nk w i =
     (let temp = w ! (i - 1);
          temp = (if i mod nk = 0 then aes_subword (aes_rotword temp) XOR rcon (of_nat (i div nk))
                  else if nk > 6 \<and> i mod nk = 4 then aes_subword temp
                  else temp)
      in w[i := w ! (i - nk) XOR temp])"

definition noxtls_aes_key_expansion ::
    "bytes option \<Rightarrow> u32 list option \<Rightarrow> int \<Rightarrow> int \<Rightarrow> noxtls_return_t \<times> u32 list option" where
  "noxtls_aes_key_expansion key w nk rounds =
     (case (key, w) of
        (Some k, Some w0) \<Rightarrow>
          if nk \<le> 0 \<or> rounds \<le> 0 then (NOXTLS_RETURN_INVALID_PARAM, w)
          else (let nk_u = nat nk; rounds_u = nat rounds;
                    w1 = foldl (\<lambda>w i. w[i := key_word k i]) w0 [0..<nk_u];
                    w2 = foldl (schedule_step nk_u) w1 [nk_u..<4 * (rounds_u + 1)]
                in (NOXTLS_RETURN_SUCCESS, Some w2))
      | _ \<Rightarrow> (NOXTLS_RETURN_INVALID_PARAM, w))"

section \<open>Contexts\<close>

record aes_context =
  ctx_round_keys :: "u32 list"
  ctx_key :: bytes
  ctx_feedback :: bytes
  ctx_partial :: bytes
  ctx_partial_len :: u8
  ctx_rounds :: u8
  ctx_round_keys_ready :: u8
  ctx_type :: u8
  ctx_mode :: u8
  ctx_op :: u8
  ctx_initialized :: u8

definition NOXTLS_AES_MAX_KEY_SCHEDULE_WORDS :: nat where "NOXTLS_AES_MAX_KEY_SCHEDULE_WORDS = 60"
definition NOXTLS_AES_BLOCK_LENGTH :: nat where "NOXTLS_AES_BLOCK_LENGTH = 16"

text \<open>\<open>noxtls_secure_zero(ctx, sizeof(*ctx))\<close>.\<close>

definition zero_aes_context :: aes_context where
  "zero_aes_context =
     \<lparr>ctx_round_keys = replicate NOXTLS_AES_MAX_KEY_SCHEDULE_WORDS 0, ctx_key = replicate 32 0,
      ctx_feedback = replicate 16 0, ctx_partial = replicate 16 0, ctx_partial_len = 0, ctx_rounds = 0,
      ctx_round_keys_ready = 0, ctx_type = 0, ctx_mode = 0, ctx_op = 0, ctx_initialized = 0\<rparr>"

definition noxtls_aes_prepare_context ::
    "aes_context option \<Rightarrow> bytes option \<Rightarrow> u32 \<Rightarrow> noxtls_return_t \<times> aes_context option" where
  "noxtls_aes_prepare_context ctx key type =
     (case (ctx, key) of
        (Some c, Some k) \<Rightarrow>
          (case aes_type_params type of (rc, rounds, key_words, key_len) \<Rightarrow>
             if rc \<noteq> NOXTLS_RETURN_SUCCESS then (rc, ctx)
             else
               let c = c\<lparr>ctx_rounds := rounds, ctx_type := ucast type,
                         ctx_key := the (noxtls_copy_u8 (Some (ctx_key c)) 32 key (unat key_len))\<rparr>
               in case noxtls_aes_key_expansion key (Some (ctx_round_keys c)) (uint key_words) (uint rounds) of
                    (rc, w) \<Rightarrow>
                      if rc \<noteq> NOXTLS_RETURN_SUCCESS then (rc, Some zero_aes_context)
                      else (NOXTLS_RETURN_SUCCESS,
                            Some (c\<lparr>ctx_round_keys := the w, ctx_round_keys_ready := 1\<rparr>)))
      | _ \<Rightarrow> (NOXTLS_RETURN_NULL, ctx))"

section \<open>One block\<close>

type_synonym aes_port = "bytes \<Rightarrow> bytes \<Rightarrow> bytes \<Rightarrow> u32 \<Rightarrow> noxtls_return_t \<times> bytes"

definition noxtls_aes_encrypt_block_software_expanded ::
    "u32 list option \<Rightarrow> u8 \<Rightarrow> bytes option \<Rightarrow> bytes option \<Rightarrow> noxtls_return_t \<times> bytes option" where
  "noxtls_aes_encrypt_block_software_expanded round_keys rounds input output =
     (case (round_keys, input, output) of
        (Some rk, Some d, Some out) \<Rightarrow>
          (NOXTLS_RETURN_SUCCESS, Some (put_at 0 (aes_block_encrypt_core rk rounds d) out))
      | _ \<Rightarrow> (NOXTLS_RETURN_NULL, output))"

definition noxtls_aes_decrypt_block_software_expanded ::
    "u32 list option \<Rightarrow> u8 \<Rightarrow> bytes option \<Rightarrow> bytes option \<Rightarrow> noxtls_return_t \<times> bytes option" where
  "noxtls_aes_decrypt_block_software_expanded round_keys rounds input output =
     (case (round_keys, input, output) of
        (Some rk, Some d, Some out) \<Rightarrow>
          (NOXTLS_RETURN_SUCCESS, Some (put_at 0 (aes_block_decrypt_core rk rounds d) out))
      | _ \<Rightarrow> (NOXTLS_RETURN_NULL, output))"

definition noxtls_aes_encrypt_block_software ::
    "bytes option \<Rightarrow> bytes option \<Rightarrow> bytes option \<Rightarrow> u32 \<Rightarrow> noxtls_return_t \<times> bytes option" where
  "noxtls_aes_encrypt_block_software key input output type =
     (if key = None \<or> input = None \<or> output = None then (NOXTLS_RETURN_NULL, output)
      else case aes_type_params type of (rc, rounds, key_words, key_length) \<Rightarrow>
        if rc \<noteq> NOXTLS_RETURN_SUCCESS then (rc, output)
        else case noxtls_aes_key_expansion key (Some (replicate NOXTLS_AES_MAX_KEY_SCHEDULE_WORDS 0))
                    (uint key_words) (uint rounds) of (rc, w) \<Rightarrow>
          if rc = NOXTLS_RETURN_SUCCESS then noxtls_aes_encrypt_block_software_expanded w rounds input output
          else (rc, output))"

definition noxtls_aes_decrypt_block_software ::
    "bytes option \<Rightarrow> bytes option \<Rightarrow> bytes option \<Rightarrow> u32 \<Rightarrow> noxtls_return_t \<times> bytes option" where
  "noxtls_aes_decrypt_block_software key input output type =
     (case aes_type_params type of (rc, rounds, key_words, key_len) \<Rightarrow>
        if rc \<noteq> NOXTLS_RETURN_SUCCESS then (rc, output)
        else case noxtls_aes_key_expansion key (Some (replicate NOXTLS_AES_MAX_KEY_SCHEDULE_WORDS 0))
                    (uint key_words) (uint rounds) of (rc, w) \<Rightarrow>
          if rc = NOXTLS_RETURN_SUCCESS then noxtls_aes_decrypt_block_software_expanded w rounds input output
          else (rc, output))"

definition noxtls_aes_encrypt_block_internal ::
    "aes_port \<Rightarrow> bytes \<Rightarrow> bytes \<Rightarrow> bytes \<Rightarrow> u32 \<Rightarrow> noxtls_return_t \<times> bytes option" where
  "noxtls_aes_encrypt_block_internal port key input output type =
     (case port key input output type of (rc, out) \<Rightarrow>
        if rc = NOXTLS_RETURN_SUCCESS then (rc, Some out)
        else if rc \<noteq> NOXTLS_RETURN_NOT_SUPPORTED then (rc, noxtls_secure_zero (Some out) NOXTLS_AES_BLOCK_LENGTH)
        else noxtls_aes_encrypt_block_software (Some key) (Some input) (Some out) type)"

definition noxtls_aes_decrypt_block_internal ::
    "aes_port \<Rightarrow> bytes \<Rightarrow> bytes \<Rightarrow> bytes \<Rightarrow> u32 \<Rightarrow> noxtls_return_t \<times> bytes option" where
  "noxtls_aes_decrypt_block_internal port key input output type =
     (case port key input output type of (rc, out) \<Rightarrow>
        if rc = NOXTLS_RETURN_SUCCESS then (rc, Some out)
        else if rc \<noteq> NOXTLS_RETURN_NOT_SUPPORTED then (rc, noxtls_secure_zero (Some out) NOXTLS_AES_BLOCK_LENGTH)
        else noxtls_aes_decrypt_block_software (Some key) (Some input) (Some out) type)"

definition noxtls_aes_encrypt_block_ctx_internal ::
    "aes_port \<Rightarrow> aes_context option \<Rightarrow> bytes option \<Rightarrow> bytes option \<Rightarrow> noxtls_return_t \<times> bytes option" where
  "noxtls_aes_encrypt_block_ctx_internal port ctx input output =
     (case (ctx, input, output) of
        (Some c, Some d, Some out0) \<Rightarrow>
          (case port (ctx_key c) d out0 (ucast (ctx_type c)) of (rc, out) \<Rightarrow>
             if rc = NOXTLS_RETURN_SUCCESS then (rc, Some out)
             else if rc \<noteq> NOXTLS_RETURN_NOT_SUPPORTED then (rc, noxtls_secure_zero (Some out) NOXTLS_AES_BLOCK_LENGTH)
             else if ctx_round_keys_ready c = 0 then (NOXTLS_RETURN_NOT_INITIALIZED, Some out)
             else noxtls_aes_encrypt_block_software_expanded (Some (ctx_round_keys c)) (ctx_rounds c) input (Some out))
      | _ \<Rightarrow> (NOXTLS_RETURN_NULL, output))"

definition noxtls_aes_decrypt_block_ctx_internal ::
    "aes_port \<Rightarrow> aes_context option \<Rightarrow> bytes option \<Rightarrow> bytes option \<Rightarrow> noxtls_return_t \<times> bytes option" where
  "noxtls_aes_decrypt_block_ctx_internal port ctx input output =
     (case (ctx, input, output) of
        (Some c, Some d, Some out0) \<Rightarrow>
          (case port (ctx_key c) d out0 (ucast (ctx_type c)) of (rc, out) \<Rightarrow>
             if rc = NOXTLS_RETURN_SUCCESS then (rc, Some out)
             else if rc \<noteq> NOXTLS_RETURN_NOT_SUPPORTED then (rc, noxtls_secure_zero (Some out) NOXTLS_AES_BLOCK_LENGTH)
             else if ctx_round_keys_ready c = 0 then (NOXTLS_RETURN_NOT_INITIALIZED, Some out)
             else noxtls_aes_decrypt_block_software_expanded (Some (ctx_round_keys c)) (ctx_rounds c) input (Some out))
      | _ \<Rightarrow> (NOXTLS_RETURN_NULL, output))"

definition noxtls_aes_encrypt_block_ctx_software_internal ::
    "aes_context option \<Rightarrow> bytes option \<Rightarrow> bytes option \<Rightarrow> noxtls_return_t \<times> bytes option" where
  "noxtls_aes_encrypt_block_ctx_software_internal ctx input output =
     (case (ctx, input, output) of
        (Some c, Some d, Some out) \<Rightarrow>
          if ctx_round_keys_ready c = 0 then (NOXTLS_RETURN_NOT_INITIALIZED, output)
          else noxtls_aes_encrypt_block_software_expanded (Some (ctx_round_keys c)) (ctx_rounds c) input output
      | _ \<Rightarrow> (NOXTLS_RETURN_NULL, output))"

section \<open>The key schedule is the recurrence of the standard\<close>

lemma lane_subword: "k < 4 \<Longrightarrow> lane (aes_subword w) k = aes_sbox_lookup (lane w k)"
  using sub_bytes_lane [of 0 k "[w, 0, 0, 0]"] by (simp add: aes_subword_def)

lemma lane_rotword: "k < 4 \<Longrightarrow> lane (aes_rotword w) k = lane w ((k + 3) mod 4)"
  unfolding aes_rotword_def lane_masks
  by (drule less_4_cases, elim disjE; simp; intro bit_word_eqI)
    (auto simp: bit_lane bit_simps simp del: mask_numeral dest: bit_imp_le_length)

lemma lane_rcon: "k < 4 \<Longrightarrow> r \<noteq> 0 \<Longrightarrow> lane (rcon r) k = (if k = 3 then rcon_loop (unat r - 1) 1 else 0)"
  unfolding rcon_def
  by (drule less_4_cases, elim disjE; simp; intro bit_word_eqI) (simp_all add: bit_lane bit_simps)

text \<open>Byte \<open>k\<close> (lowest first) of what the standard adds to word \<open>i - nk\<close>, from word \<open>i - 1\<close>.\<close>

definition fips_temp_lane :: "nat \<Rightarrow> nat \<Rightarrow> u32 \<Rightarrow> nat \<Rightarrow> u8" where
  "fips_temp_lane nk i prev k =
     (if i mod nk = 0
      then aes_sbox_lookup (lane prev ((k + 3) mod 4)) XOR (if k = 3 then rcon_loop (i div nk - 1) 1 else 0)
      else if nk > 6 \<and> i mod nk = 4 then aes_sbox_lookup (lane prev k)
      else lane prev k)"

lemma length_schedule_step [simp]: "length (schedule_step nk w i) = length w"
  by (simp add: schedule_step_def Let_def)

lemma schedule_step_lane:
  assumes "0 < nk" "nk \<le> i" "i div nk < 256" "i < length w" "k < 4"
  shows "lane (schedule_step nk w i ! i) k = lane (w ! (i - nk)) k XOR fips_temp_lane nk i (w ! (i - 1)) k"
proof -
  have "0 < i div nk" using assms by (simp add: div_greater_zero_iff)
  then have "(of_nat (i div nk) :: u8) \<noteq> 0" "unat (of_nat (i div nk) :: u8) = i div nk"
    using assms(3) by (simp_all add: unat_of_nat word_unat_eq_iff)
  then show ?thesis
    using assms by (simp add: schedule_step_def fips_temp_lane_def Let_def lane_xor lane_subword lane_rotword lane_rcon)
qed

lemma schedule_fold:
  assumes nk: "0 < nk" "nk \<le> n" and n: "n \<le> length w" "n div nk < 256"
  shows "length (foldl (schedule_step nk) w [nk..<n]) = length w \<and>
    (\<forall>i. i < nk \<or> n \<le> i \<longrightarrow> foldl (schedule_step nk) w [nk..<n] ! i = w ! i) \<and>
    (\<forall>i k. nk \<le> i \<longrightarrow> i < n \<longrightarrow> k < 4 \<longrightarrow> lane (foldl (schedule_step nk) w [nk..<n] ! i) k =
      lane (foldl (schedule_step nk) w [nk..<n] ! (i - nk)) k XOR
      fips_temp_lane nk i (foldl (schedule_step nk) w [nk..<n] ! (i - 1)) k)"
  using nk(2) n
proof (induction n rule: dec_induct)
  case (step n)
  let ?w = "foldl (schedule_step nk) w [nk..<n]"
  have q: "n div nk < 256" using step.prems(2) div_le_mono [of n "Suc n" nk] by linarith
  note ih = step.IH [OF _ q]
  have s: "foldl (schedule_step nk) w [nk..<Suc n] = schedule_step nk ?w n" using step.hyps by simp
  have keep: "j \<noteq> n \<Longrightarrow> schedule_step nk ?w n ! j = ?w ! j" for j
    by (simp add: schedule_step_def Let_def)
  have len: "length ?w = length w" using ih step.prems by simp
  have "lane (schedule_step nk ?w n ! i) k = lane (schedule_step nk ?w n ! (i - nk)) k XOR
      fips_temp_lane nk i (schedule_step nk ?w n ! (i - 1)) k" if i: "nk \<le> i" "i < Suc n" "k < 4" for i k
  proof (cases "i = n")
    case True
    then show ?thesis
      using schedule_step_lane [of nk n ?w k] nk(1) i q len step.prems by (simp add: keep)
  next
    case False
    then show ?thesis using ih step.prems i nk(1) by (simp add: keep)
  qed
  then show ?case unfolding s using ih step.prems step.hyps len keep by auto
qed simp

lemma load_fold:
  "n \<le> length w \<Longrightarrow> length (foldl (\<lambda>w i. w[i := f i]) w [0..<n]) = length w \<and>
    (\<forall>i. foldl (\<lambda>w i. w[i := f i]) w [0..<n] ! i = (if i < n then f i else w ! i))"
  by (induction n) (auto simp: nth_list_update less_Suc_eq)



section \<open>Prepared contexts\<close>

text \<open>A platform without an AES accelerator.\<close>

definition no_port :: aes_port where
  "no_port key input output type = (NOXTLS_RETURN_NOT_SUPPORTED, output)"

lemma length_encrypt_core [simp]: "length (aes_block_encrypt_core rk rounds input) = 16"
  "length (aes_block_decrypt_core rk rounds input) = 16"
proof -
  have out: "length (concat (map aes_store_le32 s)) = 16" if "length s = 4" for s
  proof -
    have "map (length \<circ> aes_store_le32) s = replicate 4 4"
      using that by (intro nth_equalityI) (simp_all add: store_lanes)
    then show ?thesis by (simp add: length_concat sum_list_replicate)
  qed
  have enc: "length s = 4 \<Longrightarrow> length (foldl (ct_encrypt_round rk n) s l) = 4"
    and dec: "length s = 4 \<Longrightarrow> length (foldl (ct_decrypt_round rk) s l) = 4" for s n l
    by (induction l arbitrary: s) (simp_all add: ct_decrypt_round_def Let_def)
  show "length (aes_block_encrypt_core rk rounds input) = 16" "length (aes_block_decrypt_core rk rounds input) = 16"
    by (simp_all add: aes_block_encrypt_core_def aes_block_decrypt_core_def Let_def out enc dec)
qed

lemma prepared_ready:
  assumes "noxtls_aes_prepare_context (Some c0) (Some key) type = (NOXTLS_RETURN_SUCCESS, Some c)"
  shows "ctx_round_keys_ready c = 1" "ctx_feedback c = ctx_feedback c0" "ctx_partial c = ctx_partial c0"
    "ctx_partial_len c = ctx_partial_len c0" "ctx_mode c = ctx_mode c0" "ctx_op c = ctx_op c0"
    "ctx_initialized c = ctx_initialized c0"
  using assms by (auto simp: noxtls_aes_prepare_context_def Let_def split: prod.splits if_splits)

lemma prepare_success:
  assumes "type = NOXTLS_AES_128_BIT \<or> type = NOXTLS_AES_192_BIT \<or> type = NOXTLS_AES_256_BIT"
  obtains c where "noxtls_aes_prepare_context (Some c0) (Some key) type = (NOXTLS_RETURN_SUCCESS, Some c)"
  using assms
  by (auto simp: noxtls_aes_prepare_context_def aes_type_params_def noxtls_aes_key_expansion_def Let_def
      NOXTLS_AES_128_BIT_def NOXTLS_AES_192_BIT_def NOXTLS_AES_256_BIT_def)

lemma encrypt_block_ctx:
  assumes "ctx_round_keys_ready c \<noteq> 0" "length out = 16"
  shows "noxtls_aes_encrypt_block_ctx_internal no_port (Some c) (Some input) (Some out) =
    (NOXTLS_RETURN_SUCCESS, Some (aes_block_encrypt_core (ctx_round_keys c) (ctx_rounds c) input))"
  using assms by (simp add: noxtls_aes_encrypt_block_ctx_internal_def no_port_def
      noxtls_aes_encrypt_block_software_expanded_def)

lemma decrypt_block_ctx:
  assumes "ctx_round_keys_ready c \<noteq> 0" "length out = 16"
  shows "noxtls_aes_decrypt_block_ctx_internal no_port (Some c) (Some input) (Some out) =
    (NOXTLS_RETURN_SUCCESS, Some (aes_block_decrypt_core (ctx_round_keys c) (ctx_rounds c) input))"
  using assms by (simp add: noxtls_aes_decrypt_block_ctx_internal_def no_port_def
      noxtls_aes_decrypt_block_software_expanded_def)

text \<open>
  Claim C13. On a platform without an accelerator, decrypting with a prepared context what was
  encrypted with it gives back the block, for every key of every supported size; both calls succeed.
\<close>

theorem aes_block_round_trip:
  assumes "noxtls_aes_prepare_context (Some c0) (Some key) type = (NOXTLS_RETURN_SUCCESS, Some c)"
    and "length input = 16" "length out1 = 16" "length out2 = 16"
  shows "\<exists>ct. noxtls_aes_encrypt_block_ctx_internal no_port (Some c) (Some input) (Some out1) =
      (NOXTLS_RETURN_SUCCESS, Some ct) \<and> length ct = 16 \<and>
    noxtls_aes_decrypt_block_ctx_internal no_port (Some c) (Some ct) (Some out2) =
      (NOXTLS_RETURN_SUCCESS, Some input)"
  using assms prepared_ready [OF assms(1)] by (simp add: encrypt_block_ctx decrypt_block_ctx core_inverse)

theorem aes_block_round_trip_witness:
  "\<exists>c ct. noxtls_aes_prepare_context (Some zero_aes_context) (Some (replicate 32 7)) NOXTLS_AES_256_BIT =
      (NOXTLS_RETURN_SUCCESS, Some c) \<and>
    noxtls_aes_decrypt_block_ctx_internal no_port (Some c) (Some ct) (Some (replicate 16 0)) =
      (NOXTLS_RETURN_SUCCESS, Some (replicate 16 9))"
proof -
  obtain c where c: "noxtls_aes_prepare_context (Some zero_aes_context) (Some (replicate 32 7)) NOXTLS_AES_256_BIT =
      (NOXTLS_RETURN_SUCCESS, Some c)"
    by (rule prepare_success [of NOXTLS_AES_256_BIT zero_aes_context "replicate 32 7"]) simp
  with aes_block_round_trip [OF c, of "replicate 16 9" "replicate 16 0" "replicate 16 0"]
  show ?thesis by auto
qed

end
