(* ===== verification/Block_Modes.thy ===== *)
theory Block_Modes
  imports Nox_Prelude
begin

text \<open>
  The modes of operation as a contract, independent of how a loop walks the buffer. A mode is a step
  that takes the chaining state and the next block (16 bytes, or fewer at the end of the data) to the
  output block and the next chaining state. \<open>mode_pair\<close> says when one mode undoes another;
  \<open>block_cipher\<close> is what the modes need of the cipher. The code's loops are proved to compute
  \<open>block_stream\<close> of these steps.
\<close>

section \<open>Walking a buffer block by block\<close>

function block_stream :: "('s \<Rightarrow> bytes \<Rightarrow> bytes \<times> 's) \<Rightarrow> 's \<Rightarrow> bytes \<Rightarrow> bytes" where
  "block_stream step st x =
     (if x = [] then []
      else case step st (take 16 x) of (y, st') \<Rightarrow> y @ block_stream step st' (drop 16 x))"
  by pat_completeness auto
termination block_stream
  by (relation "measure (\<lambda>(step, st, x). length x)") auto

declare block_stream.simps [simp del]

lemma block_stream_Nil [simp]: "block_stream step st [] = []"
  by (simp add: block_stream.simps)

lemma block_stream_block:
  "0 < length b \<Longrightarrow> length b = 16 \<or> x = [] \<and> length b < 16 \<Longrightarrow>
   block_stream step st (b @ x) = fst (step st b) @ block_stream step (snd (step st b)) x"
  by (subst block_stream.simps) (auto split: prod.splits)

text \<open>Induction over the blocks of a buffer.\<close>

lemma block_induct [case_names Nil short block]:
  assumes "P []" and "\<And>b. b \<noteq> [] \<Longrightarrow> length b < 16 \<Longrightarrow> P b"
    and "\<And>b x. length b = 16 \<Longrightarrow> P x \<Longrightarrow> P (b @ x)"
  shows "P (x :: bytes)"
proof (induction x rule: length_induct)
  case (1 x)
  show ?case
  proof (cases "length x < 16")
    case True
    then show ?thesis using assms(1,2) by (cases "x = []") auto
  next
    case False
    then have "P (drop 16 x)" using 1 by simp
    then have "P (take 16 x @ drop 16 x)" using False by (intro assms(3)) auto
    then show ?thesis by simp
  qed
qed

section \<open>Contracts\<close>

locale block_cipher =
  fixes E D :: "bytes \<Rightarrow> bytes"
  assumes length_E: "length b = 16 \<Longrightarrow> length (E b) = 16"
    and D_E: "length b = 16 \<Longrightarrow> D (E b) = b"

text \<open>\<open>fits\<close> says which block lengths the mode takes, \<open>ok\<close> which chaining states.\<close>

locale mode_pair =
  fixes enc dec :: "'s \<Rightarrow> bytes \<Rightarrow> bytes \<times> 's" and fits :: "nat \<Rightarrow> bool" and ok :: "'s \<Rightarrow> bool"
  assumes fits_full: "fits 16"
    and enc_length: "ok st \<Longrightarrow> 0 < length b \<Longrightarrow> length b \<le> 16 \<Longrightarrow> fits (length b) \<Longrightarrow>
      length (fst (enc st b)) = length b"
    and enc_ok: "ok st \<Longrightarrow> length b = 16 \<Longrightarrow> ok (snd (enc st b))"
    and dec_enc: "ok st \<Longrightarrow> 0 < length b \<Longrightarrow> length b \<le> 16 \<Longrightarrow> fits (length b) \<Longrightarrow>
      fst (dec st (fst (enc st b))) = b"
    and dec_state: "ok st \<Longrightarrow> length b = 16 \<Longrightarrow>
      snd (dec st (fst (enc st b))) = snd (enc st b)"
begin

lemma stream_length:
  "ok st \<Longrightarrow> length x mod 16 = 0 \<or> fits (length x mod 16) \<Longrightarrow> length (block_stream enc st x) = length x"
proof (induction x arbitrary: st rule: block_induct)
  case (short b)
  then show ?case using block_stream_block [of b "[]" enc st] by (auto simp: enc_length)
next
  case (block b x)
  then show ?case using block_stream_block [of b x enc st] by (auto simp: enc_length enc_ok fits_full)
qed simp

lemma round_trip:
  "ok st \<Longrightarrow> length x mod 16 = 0 \<or> fits (length x mod 16) \<Longrightarrow>
   block_stream dec st (block_stream enc st x) = x"
proof (induction x arbitrary: st rule: block_induct)
  case (short b)
  then have "length (fst (enc st b)) = length b" by (auto simp: enc_length)
  then show ?case
    using short block_stream_block [of b "[]" enc st] block_stream_block [of "fst (enc st b)" "[]" dec st]
    by (auto simp: dec_enc)
next
  case (block b x)
  then have "length (fst (enc st b)) = 16" by (auto simp: enc_length fits_full)
  then show ?case
    using block block_stream_block [of b x enc st]
      block_stream_block [of "fst (enc st b)" "block_stream enc (snd (enc st b)) x" dec st]
    by (auto simp: dec_enc dec_state enc_ok fits_full)
qed simp

end

section \<open>The steps of the modes\<close>

definition ecb_step :: "(bytes \<Rightarrow> bytes) \<Rightarrow> unit \<Rightarrow> bytes \<Rightarrow> bytes \<times> unit" where
  "ecb_step E st b = (E b, ())"

text \<open>CBC encryption pads the last block with zero bytes.\<close>

definition cbc_step :: "(bytes \<Rightarrow> bytes) \<Rightarrow> bytes \<Rightarrow> bytes \<Rightarrow> bytes \<times> bytes" where
  "cbc_step E iv b =
     (let c = E (xor_bytes (b @ replicate (16 - length b) 0) iv) in (c, c))"

definition cbc_inv_step :: "(bytes \<Rightarrow> bytes) \<Rightarrow> bytes \<Rightarrow> bytes \<Rightarrow> bytes \<times> bytes" where
  "cbc_inv_step D iv c = (xor_bytes (D c) iv, c)"

definition ctr_step :: "(bytes \<Rightarrow> bytes) \<Rightarrow> (bytes \<Rightarrow> bytes) \<Rightarrow> bytes \<Rightarrow> bytes \<Rightarrow> bytes \<times> bytes" where
  "ctr_step E inc ctr b = (xor_bytes b (E ctr), inc ctr)"

definition ofb_step :: "(bytes \<Rightarrow> bytes) \<Rightarrow> bytes \<Rightarrow> bytes \<Rightarrow> bytes \<times> bytes" where
  "ofb_step E f b = (xor_bytes b (E f), E f)"

definition cfb_step :: "(bytes \<Rightarrow> bytes) \<Rightarrow> bytes \<Rightarrow> bytes \<Rightarrow> bytes \<times> bytes" where
  "cfb_step E f b = (let c = xor_bytes b (E f) in (c, c))"

definition cfb_inv_step :: "(bytes \<Rightarrow> bytes) \<Rightarrow> bytes \<Rightarrow> bytes \<Rightarrow> bytes \<times> bytes" where
  "cfb_inv_step E f c = (xor_bytes c (E f), c)"

text \<open>
  Every mode of a block cipher is a mode pair. Counter mode also needs that the counter keeps its
  length, and is interpreted where the counter is.
\<close>

sublocale block_cipher \<subseteq> ecb: mode_pair "ecb_step E" "ecb_step D" "\<lambda>n. n = 16" "\<lambda>_. True"
  by unfold_locales (auto simp: ecb_step_def length_E D_E)

sublocale block_cipher \<subseteq> cbc: mode_pair "cbc_step E" "cbc_inv_step D" "\<lambda>n. n = 16" "\<lambda>iv. length iv = 16"
  by unfold_locales (auto simp: cbc_step_def cbc_inv_step_def Let_def length_E D_E)

sublocale block_cipher \<subseteq> ofb: mode_pair "ofb_step E" "ofb_step E" "\<lambda>_. True" "\<lambda>f. length f = 16"
  by unfold_locales (auto simp: ofb_step_def length_E)

sublocale block_cipher \<subseteq> cfb: mode_pair "cfb_step E" "cfb_inv_step E" "\<lambda>_. True" "\<lambda>f. length f = 16"
  by unfold_locales (auto simp: cfb_step_def cfb_inv_step_def Let_def length_E)

section \<open>Loops over a buffer\<close>

text \<open>
  \<open>for (cur = 0; cur < len; cur += 16)\<close> with the 32-bit index of the code, which wraps: the walk
  has no value when the loop does not end. The body returns a code that ends the loop unless it is
  success.
\<close>

partial_function (option) block_walk ::
    "(nat \<Rightarrow> 's \<Rightarrow> noxtls_return_t \<times> 's) \<Rightarrow> u32 \<Rightarrow> u32 \<Rightarrow> 's \<Rightarrow> (noxtls_return_t \<times> 's) option" where
  "block_walk body len cur s =
     (if cur < len
      then (case body (unat cur) s of (rc, s') \<Rightarrow>
              if rc = NOXTLS_RETURN_SUCCESS then block_walk body len (cur + 16) s' else Some (rc, s'))
      else Some (NOXTLS_RETURN_SUCCESS, s))"

lemma put_at_append:
  "n + length a + length b \<le> length buf \<Longrightarrow>
   put_at (n + length a) b (put_at n a buf) = put_at n (a @ b) buf"
  by (cases a) (auto simp: put_at_def min_def ac_simps)

lemma block_walk_from:
  fixes step :: "'a \<Rightarrow> bytes \<Rightarrow> bytes \<times> 'a"
  assumes len: "length x = unat len" "unat len \<le> 4294967280"
    and body: "\<And>k st s. 16 * k < unat len \<Longrightarrow> rel st k s \<Longrightarrow> \<exists>s'. body (16 * k) s = (NOXTLS_RETURN_SUCCESS, s') \<and>
      rel (snd (step st (take 16 (drop (16 * k) x)))) (Suc k) s' \<and>
      out s' = put_at (16 * k) (fst (step st (take 16 (drop (16 * k) x)))) (out s)"
    and step: "\<And>st k s b. rel st k s \<Longrightarrow> length b = 16 \<Longrightarrow> length (fst (step st b)) = 16"
    and fit: "\<And>st k s. rel st k s \<Longrightarrow> 16 * k < unat len \<Longrightarrow> 16 * k + length (block_stream step st (drop (16 * k) x)) \<le> length (out s)"
  shows "rel st k s \<Longrightarrow> 16 * k < unat len + 16 \<Longrightarrow>
    \<exists>s'. block_walk body len (of_nat (16 * k)) s = Some (NOXTLS_RETURN_SUCCESS, s') \<and>
      out s' = put_at (16 * k) (block_stream step st (drop (16 * k) x)) (out s)"
proof (induction "unat len - 16 * k" arbitrary: k st s rule: less_induct)
  case less
  have cur: "unat (of_nat (16 * k) :: u32) = 16 * k"
    using less.prems len(2) by (simp only: unat_of_nat) (simp add: take_bit_nat_eq_self_iff)
  show ?case
  proof (cases "16 * k < unat len")
    case False
    then show ?thesis
      by (subst block_walk.simps) (use len(1) in \<open>simp add: word_less_nat_alt cur del: of_nat_mult\<close>)
  next
    case True
    let ?b = "take 16 (drop (16 * k) x)"
    obtain s' where s': "body (16 * k) s = (NOXTLS_RETURN_SUCCESS, s')" "rel (snd (step st ?b)) (Suc k) s'"
        "out s' = put_at (16 * k) (fst (step st ?b)) (out s)"
      using body [OF True less.prems(1)] by blast
    have next': "(of_nat (16 * k) :: u32) + 16 = of_nat (16 * Suc k)" by simp
    have walk: "block_walk body len (of_nat (16 * k)) s = block_walk body len (of_nat (16 * Suc k)) s'"
      by (subst block_walk.simps) (use True s'(1) in \<open>simp add: word_less_nat_alt cur next' del: of_nat_mult mult_Suc_right\<close>)
    have split: "drop (16 * k) x = ?b @ drop (16 * Suc k) x"
      by (metis append_take_drop_id drop_drop mult_Suc_right)
    have stream: "block_stream step st (drop (16 * k) x) =
        fst (step st ?b) @ block_stream step (snd (step st ?b)) (drop (16 * Suc k) x)"
      by (subst split, rule block_stream_block) (use True len(1) in auto)
    obtain s2 where s2: "block_walk body len (of_nat (16 * Suc k)) s' = Some (NOXTLS_RETURN_SUCCESS, s2)"
        "out s2 = put_at (16 * Suc k) (block_stream step (snd (step st ?b)) (drop (16 * Suc k) x)) (out s')"
    proof -
      have "unat len - 16 * Suc k < unat len - 16 * k" "16 * Suc k < unat len + 16" using True by simp_all
      from less.hyps [OF this(1) s'(2) this(2)] show ?thesis using that by blast
    qed
    have "put_at (16 * Suc k) (block_stream step (snd (step st ?b)) (drop (16 * Suc k) x)) (out s') =
        put_at (16 * k) (block_stream step st (drop (16 * k) x)) (out s)"
    proof (cases "16 * Suc k < unat len")
      case inner: True
      then have l: "length (fst (step st ?b)) = 16"
        using len(1) by (intro step [OF less.prems(1)]) simp
      then have off: "16 * Suc k = 16 * k + length (fst (step st ?b))" by simp
      have "16 * k + length (fst (step st ?b)) + length (block_stream step (snd (step st ?b)) (drop (16 * Suc k) x))
          \<le> length (out s)"
        using fit [OF less.prems(1) True] unfolding stream by simp
      from put_at_append [OF this] show ?thesis unfolding s'(3) stream unfolding off .
    next
      case False
      then have "drop (16 * Suc k) x = []" using len(1) by simp
      then show ?thesis by (simp add: s'(3) stream)
    qed
    then show ?thesis using s2 walk by auto
  qed
qed

text \<open>An index that stays below the length and wraps never leaves the loop.\<close>

lemma block_walk_diverges:
  assumes body: "\<And>i s. fst (body i s) = NOXTLS_RETURN_SUCCESS"
    and len: "4294967280 < unat len"
  shows "block_walk body len (of_nat (16 * k)) s = None"
proof -
  have inside: "(of_nat (16 * k) :: u32) < len" for k
  proof -
    have "unat (of_nat (16 * k) :: u32) = 16 * k mod 2 ^ 32"
      by (simp only: unat_of_nat) (simp add: take_bit_eq_mod)
    also have "\<dots> = 16 * (k mod 268435456)" using mult_mod_right [of 16 k 268435456] by simp
    also have "\<dots> \<le> 4294967280" using mod_less_divisor [of 268435456 k] by linarith
    finally show ?thesis using len by (simp add: word_less_nat_alt)
  qed
  have "b = body \<longrightarrow> l = len \<longrightarrow> (\<exists>k. cur = of_nat (16 * k)) \<longrightarrow> False"
    if "block_walk b l cur s = Some y" for b l cur s y
  proof (rule block_walk.raw_induct [OF _ that])
    fix walk b l cur s y
    assume ih: "\<And>b l cur s y. walk b l cur s = Some y \<Longrightarrow>
        b = body \<longrightarrow> l = len \<longrightarrow> (\<exists>k. cur = of_nat (16 * k)) \<longrightarrow> False"
      and step: "(if cur < l then case b (unat cur) s of (rc, s') \<Rightarrow>
          if rc = NOXTLS_RETURN_SUCCESS then walk b l (cur + 16) s' else Some (rc, s')
        else Some (NOXTLS_RETURN_SUCCESS, s)) = Some y"
    show "b = body \<longrightarrow> l = len \<longrightarrow> (\<exists>k. cur = of_nat (16 * k)) \<longrightarrow> False"
    proof (intro impI, elim exE)
      fix k assume b: "b = body" "l = len" and k: "cur = of_nat (16 * k)"
      obtain s' where s': "body (unat cur) s = (NOXTLS_RETURN_SUCCESS, s')"
        using body [of "unat cur" s] by (cases "body (unat cur) s") auto
      have "walk body len (cur + 16) s' = Some y"
        using step inside [of k] by (simp add: b k [symmetric] s' del: of_nat_mult)
      moreover have "cur + 16 = of_nat (16 * Suc k)" by (simp add: k)
      ultimately show False using ih by blast
    qed
  qed
  then show ?thesis by (cases "block_walk body len (of_nat (16 * k)) s") blast+
qed

text \<open>A loop that fails ends in a state that its body left when it failed.\<close>

lemma block_walk_fails:
  assumes body: "\<And>i s rc s'. I s \<Longrightarrow> body i s = (rc, s') \<Longrightarrow>
      if rc = NOXTLS_RETURN_SUCCESS then I s' else Q s'"
    and walk: "block_walk body len cur s = Some (rc, s')" "rc \<noteq> NOXTLS_RETURN_SUCCESS" "I s"
  shows "Q s'"
proof -
  have "b = body \<longrightarrow> I s \<longrightarrow> fst y \<noteq> NOXTLS_RETURN_SUCCESS \<longrightarrow> Q (snd y)"
    if "block_walk b l cur s = Some y" for b l cur s y
  proof (rule block_walk.raw_induct [OF _ that])
    fix walk b l cur s y
    assume ih: "\<And>b l cur s y. walk b l cur s = Some y \<Longrightarrow>
        b = body \<longrightarrow> I s \<longrightarrow> fst y \<noteq> NOXTLS_RETURN_SUCCESS \<longrightarrow> Q (snd y)"
      and step: "(if cur < l then case b (unat cur) s of (rc, s') \<Rightarrow>
          if rc = NOXTLS_RETURN_SUCCESS then walk b l (cur + 16) s' else Some (rc, s')
        else Some (NOXTLS_RETURN_SUCCESS, s)) = Some y"
    show "b = body \<longrightarrow> I s \<longrightarrow> fst y \<noteq> NOXTLS_RETURN_SUCCESS \<longrightarrow> Q (snd y)"
    proof (intro impI)
      assume b: "b = body" "I s" and fail: "fst y \<noteq> NOXTLS_RETURN_SUCCESS"
      obtain rc s' where s': "body (unat cur) s = (rc, s')" by (cases "body (unat cur) s")
      have "cur < l" using step fail by (auto split: if_splits)
      then have step': "(if rc = NOXTLS_RETURN_SUCCESS then walk body l (cur + 16) s' else Some (rc, s')) = Some y"
        using step unfolding b(1) by (simp add: s')
      show "Q (snd y)"
      proof (cases "rc = NOXTLS_RETURN_SUCCESS")
        case True
        then have "walk body l (cur + 16) s' = Some y" "I s'"
          using step' body [OF b(2) s'] by simp_all
        then show ?thesis using ih fail by blast
      next
        case False
        then show ?thesis using step' body [OF b(2) s'] by auto
      qed
    qed
  qed
  then show ?thesis using walk by fastforce
qed

end
