(* ===== verification/Aes_Modes.thy ===== *)
theory Aes_Modes
  imports Aes_Key Block_Modes
begin

text \<open>
  The one-shot modes of \<open>encryption/aes/noxtls_aes_{ecb,cbc,ctr,cfb,ofb}.c\<close> and the dispatcher
  \<open>noxtls_aes_encrypt_data\<close>, in the default configuration (the whole-request hardware hook
  \<open>NOXTLS_PORT_AES_MODE_ACCEL\<close> and XTS are off). Input and output are separate buffers. A call has no
  value when its loop does not end, which the 32-bit block index makes possible for CTR, CFB and OFB.
\<close>

section \<open>Shared prologue\<close>

text \<open>
  Every mode returns at once on empty data, expands the key into a context on its stack (whose first
  contents do not matter) and wipes the output when that fails.
\<close>

definition wipe :: "bytes \<Rightarrow> u32 \<Rightarrow> bytes" where
  "wipe output len = the (noxtls_secure_zero (Some output) (unat len))"

definition with_schedule ::
    "bytes option \<Rightarrow> u32 \<Rightarrow> u32 \<Rightarrow> bytes \<Rightarrow> (aes_context \<Rightarrow> (noxtls_return_t \<times> bytes) option) \<Rightarrow>
     (noxtls_return_t \<times> bytes option) option" where
  "with_schedule key type data_len output run =
     (if data_len = 0 then Some (NOXTLS_RETURN_SUCCESS, Some output)
      else case noxtls_aes_prepare_context (Some zero_aes_context) key type of (prep_rc, actx) \<Rightarrow>
        if prep_rc \<noteq> NOXTLS_RETURN_SUCCESS then Some (prep_rc, Some (wipe output data_len))
        else map_option (\<lambda>(rc, out). (rc, Some out)) (run (the actx)))"

text \<open>\<open>NOXTLS_AES_CHECK_CTX\<close>: a failed block wipes the whole output.\<close>

definition aes_check_ctx :: "noxtls_return_t \<Rightarrow> bytes \<Rightarrow> u32 \<Rightarrow> noxtls_return_t \<times> bytes" where
  "aes_check_ctx rc output len =
     (if rc \<noteq> NOXTLS_RETURN_SUCCESS then (rc, wipe output len) else (rc, output))"

section \<open>ECB\<close>

definition ecb_encrypt_body ::
    "aes_port \<Rightarrow> aes_context \<Rightarrow> bytes \<Rightarrow> u32 \<Rightarrow> nat \<Rightarrow> bytes \<Rightarrow> noxtls_return_t \<times> bytes" where
  "ecb_encrypt_body port actx input data_len cur output =
     (case noxtls_aes_encrypt_block_ctx_internal port (Some actx) (Some (take 16 (drop cur input)))
             (Some (take 16 (drop cur output))) of
        (rc, block) \<Rightarrow> aes_check_ctx rc (put_at cur (the block) output) data_len)"

definition ecb_decrypt_body ::
    "aes_port \<Rightarrow> aes_context \<Rightarrow> bytes \<Rightarrow> u32 \<Rightarrow> nat \<Rightarrow> bytes \<Rightarrow> noxtls_return_t \<times> bytes" where
  "ecb_decrypt_body port actx input data_len cur output =
     (case noxtls_aes_decrypt_block_ctx_internal port (Some actx) (Some (take 16 (drop cur input)))
             (Some (take 16 (drop cur output))) of
        (rc, block) \<Rightarrow> aes_check_ctx rc (put_at cur (the block) output) data_len)"

definition noxtls_aes_encrypt_ecb ::
    "aes_port \<Rightarrow> bytes option \<Rightarrow> bytes option \<Rightarrow> u32 \<Rightarrow> bytes option \<Rightarrow> bytes option \<Rightarrow> u32 \<Rightarrow>
     (noxtls_return_t \<times> bytes option) option" where
  "noxtls_aes_encrypt_ecb port key input data_len iv output type =
     (if key = None \<or> input = None \<or> output = None then Some (NOXTLS_RETURN_NULL, output)
      else if data_len mod 16 \<noteq> 0 then Some (NOXTLS_RETURN_INVALID_BLOCK_SIZE, output)
      else with_schedule key type data_len (the output)
             (\<lambda>actx. block_walk (ecb_encrypt_body port actx (the input) data_len) data_len 0 (the output)))"

definition noxtls_aes_decrypt_ecb ::
    "aes_port \<Rightarrow> bytes option \<Rightarrow> bytes option \<Rightarrow> u32 \<Rightarrow> bytes option \<Rightarrow> bytes option \<Rightarrow> u32 \<Rightarrow>
     (noxtls_return_t \<times> bytes option) option" where
  "noxtls_aes_decrypt_ecb port key input data_len iv output type =
     (if key = None \<or> input = None \<or> output = None then Some (NOXTLS_RETURN_NULL, output)
      else if data_len mod 16 \<noteq> 0 then Some (NOXTLS_RETURN_INVALID_BLOCK_SIZE, output)
      else with_schedule key type data_len (the output)
             (\<lambda>actx. block_walk (ecb_decrypt_body port actx (the input) data_len) data_len 0 (the output)))"

section \<open>CBC\<close>

definition iv_or_zero :: "bytes option \<Rightarrow> bytes" where
  "iv_or_zero iv = (case iv of None \<Rightarrow> replicate 16 0 | Some v \<Rightarrow> take 16 v)"

definition block_length :: "u32 \<Rightarrow> nat \<Rightarrow> nat" where
  "block_length data_len cur = (let remain = unat data_len - cur in if remain < 16 then remain else 16)"

definition cbc_encrypt_body ::
    "aes_port \<Rightarrow> aes_context \<Rightarrow> bytes option \<Rightarrow> bytes \<Rightarrow> u32 \<Rightarrow> u32 \<Rightarrow> nat \<Rightarrow> bytes \<Rightarrow> noxtls_return_t \<times> bytes" where
  "cbc_encrypt_body port actx iv input data_len output_span cur output =
     (let block_len = block_length data_len cur;
          iv_src = (if cur = 0 then iv_or_zero iv else take 16 (drop (cur - 16) output));
          temp_block = take block_len (drop cur input) @ replicate (16 - block_len) 0;
          temp_block = xor_bytes temp_block iv_src
      in case noxtls_aes_encrypt_block_ctx_internal port (Some actx) (Some temp_block)
                (Some (take 16 (drop cur output))) of
           (rc, block) \<Rightarrow> aes_check_ctx rc (put_at cur (the block) output) output_span)"

definition noxtls_aes_encrypt_cbc ::
    "aes_port \<Rightarrow> bytes option \<Rightarrow> bytes option \<Rightarrow> u32 \<Rightarrow> bytes option \<Rightarrow> bytes option \<Rightarrow> u32 \<Rightarrow>
     (noxtls_return_t \<times> bytes option) option" where
  "noxtls_aes_encrypt_cbc port key input data_len iv output type =
     (if key = None \<or> input = None \<or> output = None then Some (NOXTLS_RETURN_NULL, output)
      else if data_len > 0xFFFFFFFF - (16 - 1) then Some (NOXTLS_RETURN_INVALID_BLOCK_SIZE, output)
      else
        let output_span = (data_len + 16 - 1) div 16 * 16
        in with_schedule key type data_len (the output)
             (\<lambda>actx. block_walk (cbc_encrypt_body port actx iv (the input) data_len output_span) data_len 0
                (the output)))"

definition cbc_decrypt_body ::
    "aes_port \<Rightarrow> aes_context \<Rightarrow> bytes option \<Rightarrow> bytes \<Rightarrow> u32 \<Rightarrow> nat \<Rightarrow> bytes \<times> bytes \<Rightarrow>
     noxtls_return_t \<times> bytes \<times> bytes" where
  "cbc_decrypt_body port actx iv input data_len cur =
     (\<lambda>(chain, output).
        case noxtls_aes_decrypt_block_ctx_internal port (Some actx) (Some (take 16 (drop cur input)))
               (Some (replicate 16 0)) of
          (rc, temp_block) \<Rightarrow>
            if rc \<noteq> NOXTLS_RETURN_SUCCESS then (rc, chain, wipe output data_len)
            else (let chain = (if cur = 0 then iv_or_zero iv else chain)
                  in (rc, take 16 (drop cur input), put_at cur (xor_bytes (the temp_block) chain) output)))"

definition noxtls_aes_decrypt_cbc ::
    "aes_port \<Rightarrow> bytes option \<Rightarrow> bytes option \<Rightarrow> u32 \<Rightarrow> bytes option \<Rightarrow> bytes option \<Rightarrow> u32 \<Rightarrow>
     (noxtls_return_t \<times> bytes option) option" where
  "noxtls_aes_decrypt_cbc port key input data_len iv output type =
     (if key = None \<or> input = None \<or> output = None then Some (NOXTLS_RETURN_NULL, output)
      else if data_len mod 16 \<noteq> 0 then Some (NOXTLS_RETURN_INVALID_BLOCK_SIZE, output)
      else with_schedule key type data_len (the output)
             (\<lambda>actx. map_option (apsnd snd)
                (block_walk (cbc_decrypt_body port actx iv (the input) data_len) data_len 0
                  (replicate 16 0, the output))))"

section \<open>CTR, CFB, OFB\<close>

fun counter_inc_from :: "nat \<Rightarrow> bytes \<Rightarrow> bytes" where
  "counter_inc_from 0 counter = counter"
| "counter_inc_from (Suc i) counter =
     (let counter = counter[i := counter ! i + 1]
      in if counter ! i \<noteq> 0 then counter else counter_inc_from i counter)"

definition aes_counter_inc :: "bytes \<Rightarrow> bytes" where
  "aes_counter_inc counter = counter_inc_from 16 counter"

definition ctr_body ::
    "aes_port \<Rightarrow> aes_context \<Rightarrow> bytes \<Rightarrow> u32 \<Rightarrow> nat \<Rightarrow> bytes \<times> bytes \<Rightarrow> noxtls_return_t \<times> bytes \<times> bytes" where
  "ctr_body port actx input data_len cur =
     (\<lambda>(counter_block, output).
        let block_len = block_length data_len cur
        in case noxtls_aes_encrypt_block_ctx_internal port (Some actx) (Some counter_block) (Some (replicate 16 0)) of
             (rc, keystream) \<Rightarrow>
               if rc \<noteq> NOXTLS_RETURN_SUCCESS then (rc, counter_block, wipe output data_len)
               else (rc, aes_counter_inc counter_block,
                     put_at cur (xor_bytes (take block_len (drop cur input)) (the keystream)) output))"

definition noxtls_aes_encrypt_ctr ::
    "aes_port \<Rightarrow> bytes option \<Rightarrow> bytes option \<Rightarrow> u32 \<Rightarrow> bytes option \<Rightarrow> bytes option \<Rightarrow> u32 \<Rightarrow>
     (noxtls_return_t \<times> bytes option) option" where
  "noxtls_aes_encrypt_ctr port key input data_len iv output type =
     (if key = None \<or> input = None \<or> output = None then Some (NOXTLS_RETURN_NULL, output)
      else case iv of
        None \<Rightarrow> Some (NOXTLS_RETURN_NULL, output)
      | Some v \<Rightarrow>
          with_schedule key type data_len (the output)
            (\<lambda>actx. map_option (apsnd snd)
               (block_walk (ctr_body port actx (the input) data_len) data_len 0 (take 16 v, the output))))"

definition cfb_body ::
    "aes_port \<Rightarrow> aes_context \<Rightarrow> bytes \<Rightarrow> bytes \<Rightarrow> u32 \<Rightarrow> nat \<Rightarrow> bytes \<Rightarrow> noxtls_return_t \<times> bytes" where
  "cfb_body port actx iv input data_len cur output =
     (let block_len = block_length data_len cur;
          source = (if cur = 0 then take 16 iv else take 16 (drop (cur - 16) output))
      in case noxtls_aes_encrypt_block_ctx_internal port (Some actx) (Some source) (Some (replicate 16 0)) of
           (rc, keystream) \<Rightarrow>
             if rc \<noteq> NOXTLS_RETURN_SUCCESS then (rc, wipe output data_len)
             else (rc, put_at cur (xor_bytes (take block_len (drop cur input)) (the keystream)) output))"

definition noxtls_aes_encrypt_cfb ::
    "aes_port \<Rightarrow> bytes option \<Rightarrow> bytes option \<Rightarrow> u32 \<Rightarrow> bytes option \<Rightarrow> bytes option \<Rightarrow> u32 \<Rightarrow>
     (noxtls_return_t \<times> bytes option) option" where
  "noxtls_aes_encrypt_cfb port key input data_len iv output type =
     (if key = None \<or> input = None \<or> output = None then Some (NOXTLS_RETURN_NULL, output)
      else case iv of
        None \<Rightarrow> Some (NOXTLS_RETURN_INVALID_PARAM, output)
      | Some v \<Rightarrow>
          with_schedule key type data_len (the output)
            (\<lambda>actx. block_walk (cfb_body port actx v (the input) data_len) data_len 0 (the output)))"

definition ofb_body ::
    "aes_port \<Rightarrow> aes_context \<Rightarrow> bytes \<Rightarrow> bytes \<Rightarrow> u32 \<Rightarrow> nat \<Rightarrow> bytes \<times> bytes \<Rightarrow> noxtls_return_t \<times> bytes \<times> bytes" where
  "ofb_body port actx iv input data_len cur =
     (\<lambda>(feedback_block, output).
        let block_len = block_length data_len cur;
            source = (if cur = 0 then take 16 iv else feedback_block)
        in case noxtls_aes_encrypt_block_ctx_internal port (Some actx) (Some source) (Some (replicate 16 0)) of
             (rc, keystream) \<Rightarrow>
               if rc \<noteq> NOXTLS_RETURN_SUCCESS then (rc, feedback_block, wipe output data_len)
               else (rc, the keystream,
                     put_at cur (xor_bytes (take block_len (drop cur input)) (the keystream)) output))"

definition noxtls_aes_encrypt_ofb ::
    "aes_port \<Rightarrow> bytes option \<Rightarrow> bytes option \<Rightarrow> u32 \<Rightarrow> bytes option \<Rightarrow> bytes option \<Rightarrow> u32 \<Rightarrow>
     (noxtls_return_t \<times> bytes option) option" where
  "noxtls_aes_encrypt_ofb port key input data_len iv output type =
     (if key = None \<or> input = None \<or> output = None then Some (NOXTLS_RETURN_NULL, output)
      else case iv of
        None \<Rightarrow> Some (NOXTLS_RETURN_INVALID_PARAM, output)
      | Some v \<Rightarrow>
          with_schedule key type data_len (the output)
            (\<lambda>actx. map_option (apsnd snd)
               (block_walk (ofb_body port actx v (the input) data_len) data_len 0 (replicate 16 0, the output))))"

section \<open>Dispatch\<close>

definition NOXTLS_AES_ECB :: u32 where "NOXTLS_AES_ECB = 0"
definition NOXTLS_AES_CBC :: u32 where "NOXTLS_AES_CBC = 1"
definition NOXTLS_AES_CTR :: u32 where "NOXTLS_AES_CTR = 2"
definition NOXTLS_AES_CFB :: u32 where "NOXTLS_AES_CFB = 3"
definition NOXTLS_AES_OFB :: u32 where "NOXTLS_AES_OFB = 4"
definition NOXTLS_AES_XTS :: u32 where "NOXTLS_AES_XTS = 5"
definition NOXTLS_AES_GCM :: u32 where "NOXTLS_AES_GCM = 6"

definition noxtls_aes_encrypt_data ::
    "aes_port \<Rightarrow> bytes option \<Rightarrow> bytes option \<Rightarrow> u32 \<Rightarrow> bytes option \<Rightarrow> bytes option \<Rightarrow> u32 \<Rightarrow> u32 \<Rightarrow>
     (noxtls_return_t \<times> bytes option) option" where
  "noxtls_aes_encrypt_data port key input data_len iv output type mode =
     (if mode = NOXTLS_AES_ECB then noxtls_aes_encrypt_ecb port key input data_len iv output type
      else if mode = NOXTLS_AES_CBC then noxtls_aes_encrypt_cbc port key input data_len iv output type
      else if mode = NOXTLS_AES_CTR then noxtls_aes_encrypt_ctr port key input data_len iv output type
      else if mode = NOXTLS_AES_CFB then noxtls_aes_encrypt_cfb port key input data_len iv output type
      else if mode = NOXTLS_AES_OFB then noxtls_aes_encrypt_ofb port key input data_len iv output type
      else if mode = NOXTLS_AES_XTS then Some (NOXTLS_RETURN_NOT_SUPPORTED, output)
      else if mode = NOXTLS_AES_GCM then Some (NOXTLS_RETURN_NOT_SUPPORTED, output)
      else Some (NOXTLS_RETURN_INVALID_MODE, output))"

section \<open>The cipher and its modes\<close>

abbreviation aes_E :: "aes_context \<Rightarrow> bytes \<Rightarrow> bytes" where
  "aes_E c \<equiv> aes_block_encrypt_core (ctx_round_keys c) (ctx_rounds c)"

abbreviation aes_D :: "aes_context \<Rightarrow> bytes \<Rightarrow> bytes" where
  "aes_D c \<equiv> aes_block_decrypt_core (ctx_round_keys c) (ctx_rounds c)"

interpretation aes: block_cipher "aes_E c" "aes_D c" for c
  by unfold_locales (simp_all add: core_inverse)

lemma length_counter_inc_from [simp]: "length (counter_inc_from n c) = length c"
  by (induction n c rule: counter_inc_from.induct) (simp_all add: Let_def)

lemma length_counter_inc [simp]: "length (aes_counter_inc c) = length c"
  by (simp add: aes_counter_inc_def)

interpretation aes_ctr: mode_pair "ctr_step (aes_E c) aes_counter_inc" "ctr_step (aes_E c) aes_counter_inc"
    "\<lambda>_. True" "\<lambda>b. length b = 16" for c
  by unfold_locales (simp_all add: ctr_step_def)

section \<open>The loops compute the modes\<close>

lemma put_at_twice: "off + length a \<le> length buf \<Longrightarrow> length a = 16 \<Longrightarrow>
    take 16 (drop off (put_at off a buf)) = a"
  by (simp add: put_at_def)

lemma length_take_drop: "off + 16 \<le> length (x :: bytes) \<Longrightarrow> length (take 16 (drop off x)) = 16"
  by simp

lemma take_block: "16 * k < unat len \<Longrightarrow> length x = unat len \<Longrightarrow>
    take (block_length len (16 * k)) (drop (16 * k) x) = take 16 (drop (16 * k) x)"
  by (simp add: block_length_def Let_def)

lemma whole_block:
  assumes "16 dvd unat len" "16 * k < unat len" shows "16 * k + 16 \<le> unat len"
proof -
  obtain m where "unat len = 16 * m" using assms(1) by (elim dvdE)
  then show ?thesis using assms(2) by simp
qed

lemma aligned_bound:
  assumes "16 dvd unat (len :: u32)" shows "unat len \<le> 4294967280"
proof -
  obtain m where m: "unat len = 16 * m" using assms by (elim dvdE)
  have "unat len < 4294967296" using unsigned_less [of len] by simp
  then show ?thesis using m by presburger
qed

lemma ecb_walk:
  assumes c: "ctx_round_keys_ready c \<noteq> 0" and len: "length input = unat len" "16 dvd unat len" "unat len \<le> length out"
  shows "block_walk (ecb_encrypt_body no_port c input len) len 0 out =
      Some (NOXTLS_RETURN_SUCCESS, put_at 0 (block_stream (ecb_step (aes_E c)) () input) out)"
    and "block_walk (ecb_decrypt_body no_port c input len) len 0 out =
      Some (NOXTLS_RETURN_SUCCESS, put_at 0 (block_stream (ecb_step (aes_D c)) () input) out)"
proof -
  have bound: "unat len \<le> 4294967280"
    using len(2) by (rule aligned_bound)
  have slen: "length (block_stream (ecb_step f) () x) = length x"
    if "16 dvd length x" "\<And>b. length b = 16 \<Longrightarrow> length (f b) = 16" for f x
    using that by (induction x rule: block_induct)
      (auto simp: block_stream_block ecb_step_def dest: dvd_imp_le)
  have rest: "16 dvd length (drop (16 * k) input)" for k using len by (simp add: dvd_diff_nat)
  have block: "length (take 16 (drop (16 * k) input)) = 16 \<and> length (take 16 (drop (16 * k) s)) = 16 \<and>
      16 * k + 16 \<le> length s" if "16 * k < unat len" "length s = length out" for k and s :: bytes
    using whole_block [OF len(2) that(1)] that(2) len by simp
  have enc: "ecb_encrypt_body no_port c input len (16 * k) s =
      (NOXTLS_RETURN_SUCCESS, put_at (16 * k) (aes_E c (take 16 (drop (16 * k) input))) s)"
    and dec: "ecb_decrypt_body no_port c input len (16 * k) s =
      (NOXTLS_RETURN_SUCCESS, put_at (16 * k) (aes_D c (take 16 (drop (16 * k) input))) s)"
    if "16 * k < unat len" "length s = length out" for k s
    using block [OF that] c
    by (simp_all add: ecb_encrypt_body_def ecb_decrypt_body_def encrypt_block_ctx decrypt_block_ctx aes_check_ctx_def)
  show "block_walk (ecb_encrypt_body no_port c input len) len 0 out =
      Some (NOXTLS_RETURN_SUCCESS, put_at 0 (block_stream (ecb_step (aes_E c)) () input) out)"
    using block_walk_from [where out = "\<lambda>s. s" and rel = "\<lambda>_ _ s. length s = length out" and k = 0 and s = out
        and body = "ecb_encrypt_body no_port c input len" and step = "ecb_step (aes_E c)" and st = "()",
        OF len(1) bound] block len
    by (simp add: enc ecb_step_def slen rest)
  show "block_walk (ecb_decrypt_body no_port c input len) len 0 out =
      Some (NOXTLS_RETURN_SUCCESS, put_at 0 (block_stream (ecb_step (aes_D c)) () input) out)"
    using block_walk_from [where out = "\<lambda>s. s" and rel = "\<lambda>_ _ s. length s = length out" and k = 0 and s = out
        and body = "ecb_decrypt_body no_port c input len" and step = "ecb_step (aes_D c)" and st = "()",
        OF len(1) bound] block len
    by (simp add: dec ecb_step_def slen rest)
qed

lemma ceil16:
  assumes "16 * k < (n :: nat)"
  shows "16 * k + (n - 16 * k + 15) div 16 * 16 = (n + 15) div 16 * 16" "16 * k + 16 \<le> (n + 15) div 16 * 16"
proof -
  have eq: "n + 15 = n - 16 * k + 15 + k * 16" using assms by simp
  have "(n - 16 * k + 15 + k * 16) div 16 = (n - 16 * k + 15) div 16 + k" by simp
  from this [folded eq] show "16 * k + (n - 16 * k + 15) div 16 * 16 = (n + 15) div 16 * 16" by simp
  have "(16 * k + 16) div 16 \<le> (n + 15) div 16" by (rule div_le_mono) (use assms in simp)
  then show "16 * k + 16 \<le> (n + 15) div 16 * 16" by simp
qed

lemma cbc_step_simps:
  "fst (cbc_step E iv b) = E (xor_bytes (b @ replicate (16 - length b) 0) iv)"
  "snd (cbc_step E iv b) = E (xor_bytes (b @ replicate (16 - length b) 0) iv)"
  "fst (cbc_inv_step D iv b) = xor_bytes (D b) iv" "snd (cbc_inv_step D iv b) = b"
  by (simp_all add: cbc_step_def cbc_inv_step_def Let_def)

lemma stream_length_cbc:
  "length iv = 16 \<Longrightarrow> length (block_stream (cbc_step (aes_E c)) iv x) = (length x + 15) div 16 * 16"
proof (induction x arbitrary: iv rule: block_induct)
  case (block b x)
  have "(31 + length x) div 16 = Suc ((length x + 15) div 16)"
    using div_add_self2 [of 16 "length x + 15"] by (simp add: add.commute)
  then show ?case using block block_stream_block [of b x "cbc_step (aes_E c)" iv] by (simp add: cbc_step_simps)
next
  case (short b)
  have "(length b + 15) div 16 = 1" using short by (cases "length b") auto
  then show ?case using short block_stream_block [of b "[]" "cbc_step (aes_E c)" iv] by (simp add: cbc_step_simps)
qed simp

lemma length_iv_or_zero: "(\<And>v. iv = Some v \<Longrightarrow> 16 \<le> length v) \<Longrightarrow> length (iv_or_zero iv) = 16"
  by (cases iv) (simp_all add: iv_or_zero_def)

lemma block_length_take: "16 * k < unat len \<Longrightarrow> length x = unat len \<Longrightarrow>
    length (take 16 (drop (16 * k) x)) = block_length len (16 * k)"
  by (simp add: block_length_def Let_def)

lemma cbc_encrypt_walk:
  assumes c: "ctx_round_keys_ready c \<noteq> 0" and len: "length input = unat len" "unat len \<le> 4294967280"
    and out: "(unat len + 15) div 16 * 16 \<le> length out" and iv: "\<And>v. iv = Some v \<Longrightarrow> 16 \<le> length v"
  shows "block_walk (cbc_encrypt_body no_port c iv input len span) len 0 out =
      Some (NOXTLS_RETURN_SUCCESS, put_at 0 (block_stream (cbc_step (aes_E c)) (iv_or_zero iv) input) out)"
proof -
  define rel where "rel st k s \<longleftrightarrow> length s = length out \<and> length st = 16 \<and>
    st = (if k = 0 then iv_or_zero iv else take 16 (drop (16 * k - 16) s))" for st :: bytes and k :: nat and s :: bytes
  have room: "16 * k + 16 \<le> length out" if "16 * k < unat len" for k
    using ceil16(2) [OF that] out by simp
  have body: "\<exists>s'. cbc_encrypt_body no_port c iv input len span (16 * k) s = (NOXTLS_RETURN_SUCCESS, s') \<and>
      rel (snd (cbc_step (aes_E c) st (take 16 (drop (16 * k) input)))) (Suc k) s' \<and>
      s' = put_at (16 * k) (fst (cbc_step (aes_E c) st (take 16 (drop (16 * k) input)))) s"
    if k: "16 * k < unat len" and r: "rel st k s" for st k s
  proof -
    define b where "b = take 16 (drop (16 * k) input)"
    have b: "block_length len (16 * k) = length b" "take (length b) (drop (16 * k) input) = b"
      using take_block [OF k len(1)] block_length_take [OF k len(1)] by (simp_all only: b_def)
    have st: "(if 16 * k = 0 then iv_or_zero iv else take 16 (drop (16 * k - 16) s)) = st"
      and l: "length s = length out" using r by (simp_all add: rel_def)
    let ?y = "aes_E c (xor_bytes (b @ replicate (16 - length b) 0) st)"
    have "cbc_encrypt_body no_port c iv input len span (16 * k) s = (NOXTLS_RETURN_SUCCESS, put_at (16 * k) ?y s)"
      unfolding cbc_encrypt_body_def Let_def st b
      using room [OF k] l c by (simp add: encrypt_block_ctx aes_check_ctx_def)
    then show ?thesis
      using room [OF k] l by (simp add: cbc_step_simps rel_def put_at_twice b_def [symmetric])
  qed
  have "rel (iv_or_zero iv) 0 out" using iv by (simp add: rel_def length_iv_or_zero)
  moreover have "16 * k + length (block_stream (cbc_step (aes_E c)) st (drop (16 * k) input)) \<le> length s"
    if "rel st k s" "16 * k < unat len" for st k s
  proof -
    have "16 * k + (unat len - 16 * k + 15) div 16 * 16 \<le> length out" using ceil16(1) [OF that(2)] out by simp
    moreover have "length st = 16" "length s = length out" using that(1) unfolding rel_def by blast+
    ultimately show ?thesis using that(2) by (simp add: stream_length_cbc len)
  qed
  moreover have "rel st k s \<Longrightarrow> length b = 16 \<Longrightarrow> length (fst (cbc_step (aes_E c) st b)) = 16" for st k s b
    by (simp add: cbc_step_simps)
  ultimately show ?thesis
    using block_walk_from [where out = "\<lambda>s. s" and rel = rel and k = 0, OF len body] by fastforce
qed

lemma cbc_decrypt_walk:
  assumes c: "ctx_round_keys_ready c \<noteq> 0" and len: "length input = unat len" "16 dvd unat len" "unat len \<le> length out"
    and iv: "\<And>v. iv = Some v \<Longrightarrow> 16 \<le> length v"
  shows "\<exists>ch. block_walk (cbc_decrypt_body no_port c iv input len) len 0 (replicate 16 0, out) =
      Some (NOXTLS_RETURN_SUCCESS, ch, put_at 0 (block_stream (cbc_inv_step (aes_D c)) (iv_or_zero iv) input) out)"
proof -
  define rel where "rel st k s \<longleftrightarrow> length (snd s) = length out \<and> length st = 16 \<and>
    st = (if k = 0 then iv_or_zero iv else fst s)" for st :: bytes and k :: nat and s :: "bytes \<times> bytes"
  have room: "16 * k + 16 \<le> length out" "length (take 16 (drop (16 * k) input)) = 16" if "16 * k < unat len" for k
    using whole_block [OF len(2) that] len by simp_all
  have body: "\<exists>s'. cbc_decrypt_body no_port c iv input len (16 * k) s = (NOXTLS_RETURN_SUCCESS, s') \<and>
      rel (snd (cbc_inv_step (aes_D c) st (take 16 (drop (16 * k) input)))) (Suc k) s' \<and>
      snd s' = put_at (16 * k) (fst (cbc_inv_step (aes_D c) st (take 16 (drop (16 * k) input)))) (snd s)"
    if k: "16 * k < unat len" and r: "rel st k s" for st k s
    using room [OF k] r c
    by (cases s) (auto simp: cbc_decrypt_body_def decrypt_block_ctx rel_def cbc_step_simps Let_def)
  have slen: "length st = 16 \<Longrightarrow> 16 dvd length x \<Longrightarrow> length (block_stream (cbc_inv_step (aes_D c)) st x) = length x" for st x
    by (induction x arbitrary: st rule: block_induct)
      (auto simp: block_stream_block cbc_step_simps dest: dvd_imp_le)
  have "rel (iv_or_zero iv) 0 (replicate 16 0, out)" using iv by (simp add: rel_def length_iv_or_zero)
  moreover have "16 * k + length (block_stream (cbc_inv_step (aes_D c)) st (drop (16 * k) input)) \<le> length (snd s)"
    if "rel st k s" "16 * k < unat len" for st k s
  proof -
    have "length st = 16" "length (snd s) = length out" using that(1) unfolding rel_def by blast+
    then show ?thesis using that(2) len by (simp add: slen dvd_diff_nat)
  qed
  moreover have "length (fst (cbc_inv_step (aes_D c) st b)) = 16" if "rel st k s" "length b = 16" for st k s b
  proof -
    from that(1) have "length st = 16" unfolding rel_def by blast
    then show ?thesis using that(2) by (simp add: cbc_step_simps)
  qed
  ultimately show ?thesis
    using block_walk_from [where out = snd and rel = rel and k = 0, OF len(1) aligned_bound [OF len(2)] body] by fastforce
qed

text \<open>A keystream mode: the block is the input plus a keystream block of the chaining state.\<close>

lemma keystream_length:
  assumes "\<And>st b. ok st \<Longrightarrow> length (fst (step st b)) = min (length b) 16"
    and "\<And>st b. ok st \<Longrightarrow> length b = 16 \<Longrightarrow> ok (snd (step st b))"
  shows "ok st \<Longrightarrow> length (block_stream step st x) = length (x :: bytes)"
proof (induction x arbitrary: st rule: block_induct)
  case (block b x)
  then show ?case using block_stream_block [of b x step st] assms by simp
next
  case (short b)
  then show ?case using block_stream_block [of b "[]" step st] assms by simp
qed simp

lemma ctr_walk:
  assumes c: "ctx_round_keys_ready c \<noteq> 0" and len: "length input = unat len" "unat len \<le> 4294967280"
    and out: "unat len \<le> length out" and iv: "length iv = 16"
  shows "\<exists>ch. block_walk (ctr_body no_port c input len) len 0 (iv, out) =
      Some (NOXTLS_RETURN_SUCCESS, ch, put_at 0 (block_stream (ctr_step (aes_E c) aes_counter_inc) iv input) out)"
proof -
  define rel where "rel st k s \<longleftrightarrow> length (snd s) = length out \<and> length st = 16 \<and> st = fst s"
    for st :: bytes and k :: nat and s :: "bytes \<times> bytes"
  let ?step = "ctr_step (aes_E c) aes_counter_inc"
  have body: "\<exists>s'. ctr_body no_port c input len (16 * k) s = (NOXTLS_RETURN_SUCCESS, s') \<and>
      rel (snd (?step st (take 16 (drop (16 * k) input)))) (Suc k) s' \<and>
      snd s' = put_at (16 * k) (fst (?step st (take 16 (drop (16 * k) input)))) (snd s)"
    if k: "16 * k < unat len" and r: "rel st k s" for st k s
    using r c take_block [OF k len(1)] k len(1) out
    by (cases s) (auto simp: ctr_body_def encrypt_block_ctx rel_def ctr_step_def Let_def)
  have slen: "length st = 16 \<Longrightarrow> length (block_stream ?step st x) = length x" for st x
    by (rule keystream_length [where ok = "\<lambda>st. length st = 16"]) (simp_all add: ctr_step_def)
  have "rel iv 0 (iv, out)" using iv by (simp add: rel_def)
  moreover have "16 * k + length (block_stream ?step st (drop (16 * k) input)) \<le> length (snd s)"
    if "rel st k s" "16 * k < unat len" for st k s
  proof -
    have "length st = 16" "length (snd s) = length out" using that(1) unfolding rel_def by blast+
    then show ?thesis using that(2) len out by (simp add: slen)
  qed
  moreover have "length b = 16 \<Longrightarrow> length (fst (?step st b)) = 16" for st b
    by (simp add: ctr_step_def)
  ultimately show ?thesis
    using block_walk_from [where out = snd and rel = rel and k = 0 and step = ?step, OF len body] by fastforce
qed

lemma cfb_walk:
  assumes c: "ctx_round_keys_ready c \<noteq> 0" and len: "length input = unat len" "unat len \<le> 4294967280"
    and out: "unat len \<le> length out" and iv: "16 \<le> length iv"
  shows "block_walk (cfb_body no_port c iv input len) len 0 out =
      Some (NOXTLS_RETURN_SUCCESS, put_at 0 (block_stream (cfb_step (aes_E c)) (take 16 iv) input) out)"
proof -
  define rel where "rel st k s \<longleftrightarrow> length s = length out \<and>
    (16 * k < unat len \<longrightarrow> st = (if k = 0 then take 16 iv else take 16 (drop (16 * k - 16) s)))"
    for st :: bytes and k :: nat and s :: bytes
  have body: "\<exists>s'. cfb_body no_port c iv input len (16 * k) s = (NOXTLS_RETURN_SUCCESS, s') \<and>
      rel (snd (cfb_step (aes_E c) st (take 16 (drop (16 * k) input)))) (Suc k) s' \<and>
      s' = put_at (16 * k) (fst (cfb_step (aes_E c) st (take 16 (drop (16 * k) input)))) s"
    if k: "16 * k < unat len" and r: "rel st k s" for st k s
  proof -
    define b where "b = take 16 (drop (16 * k) input)"
    have b: "take (block_length len (16 * k)) (drop (16 * k) input) = b" "length b \<le> 16" "16 * k + length b \<le> length out"
      "16 + 16 * k < unat len \<Longrightarrow> length b = 16 \<and> 16 * k + 16 \<le> length out"
      using take_block [OF k len(1)] len(1) k out by (simp_all add: b_def)
    have st: "(if 16 * k = 0 then take 16 iv else take 16 (drop (16 * k - 16) s)) = st"
      and l: "length s = length out" using r k by (simp_all add: rel_def)
    have "cfb_body no_port c iv input len (16 * k) s = (NOXTLS_RETURN_SUCCESS, put_at (16 * k) (xor_bytes b (aes_E c st)) s)"
      unfolding cfb_body_def Let_def st b(1) using c by (simp add: encrypt_block_ctx)
    then show ?thesis
      using b l by (simp add: cfb_step_def Let_def rel_def put_at_twice b_def [symmetric])
  qed
  have slen: "length (block_stream (cfb_step (aes_E c)) st x) = length x" for st x
    by (rule keystream_length [where ok = "\<lambda>st. True"]) (simp_all add: cfb_step_def Let_def)
  have "rel (take 16 iv) 0 out" by (simp add: rel_def)
  moreover have "16 * k + length (block_stream (cfb_step (aes_E c)) st (drop (16 * k) input)) \<le> length s"
    if "rel st k s" "16 * k < unat len" for st k s
    using that len out by (simp add: rel_def slen)
  moreover have "length b = 16 \<Longrightarrow> length (fst (cfb_step (aes_E c) st b)) = 16" for st b
    by (simp add: cfb_step_def Let_def)
  ultimately show ?thesis
    using block_walk_from [where out = "\<lambda>s. s" and rel = rel and k = 0, OF len body] by fastforce
qed

lemma ofb_walk:
  assumes c: "ctx_round_keys_ready c \<noteq> 0" and len: "length input = unat len" "unat len \<le> 4294967280"
    and out: "unat len \<le> length out" and iv: "16 \<le> length iv"
  shows "\<exists>ch. block_walk (ofb_body no_port c iv input len) len 0 (replicate 16 0, out) =
      Some (NOXTLS_RETURN_SUCCESS, ch, put_at 0 (block_stream (ofb_step (aes_E c)) (take 16 iv) input) out)"
proof -
  define rel where "rel st k s \<longleftrightarrow> length (snd s) = length out \<and> st = (if k = 0 then take 16 iv else fst s)"
    for st :: bytes and k :: nat and s :: "bytes \<times> bytes"
  have body: "\<exists>s'. ofb_body no_port c iv input len (16 * k) s = (NOXTLS_RETURN_SUCCESS, s') \<and>
      rel (snd (ofb_step (aes_E c) st (take 16 (drop (16 * k) input)))) (Suc k) s' \<and>
      snd s' = put_at (16 * k) (fst (ofb_step (aes_E c) st (take 16 (drop (16 * k) input)))) (snd s)"
    if k: "16 * k < unat len" and r: "rel st k s" for st k s
    using r c take_block [OF k len(1)] k len(1) out
    by (cases s) (auto simp: ofb_body_def encrypt_block_ctx rel_def ofb_step_def Let_def)
  have slen: "length (block_stream (ofb_step (aes_E c)) st x) = length x" for st x
    by (rule keystream_length [where ok = "\<lambda>st. True"]) (simp_all add: ofb_step_def)
  have "rel (take 16 iv) 0 (replicate 16 0, out)" by (simp add: rel_def)
  moreover have "16 * k + length (block_stream (ofb_step (aes_E c)) st (drop (16 * k) input)) \<le> length (snd s)"
    if "rel st k s" "16 * k < unat len" for st k s
    using that len out by (simp add: rel_def slen)
  moreover have "length b = 16 \<Longrightarrow> length (fst (ofb_step (aes_E c) st b)) = 16" for st b
    by (simp add: ofb_step_def)
  ultimately show ?thesis
    using block_walk_from [where out = snd and rel = rel and k = 0, OF len body] by fastforce
qed

section \<open>The calls\<close>

lemma with_schedule_run:
  assumes "noxtls_aes_prepare_context (Some zero_aes_context) (Some key) type = (NOXTLS_RETURN_SUCCESS, Some c)"
    and "len \<noteq> 0" "run c = Some (NOXTLS_RETURN_SUCCESS, out')"
  shows "with_schedule (Some key) type len out run = Some (NOXTLS_RETURN_SUCCESS, Some out')"
  using assms by (simp add: with_schedule_def)

lemma put_at_whole: "length bs = length buf \<Longrightarrow> put_at 0 bs buf = bs"
  by (simp add: put_at_def)

abbreviation aes_key_size :: "u32 \<Rightarrow> bool" where
  "aes_key_size type \<equiv> type = NOXTLS_AES_128_BIT \<or> type = NOXTLS_AES_192_BIT \<or> type = NOXTLS_AES_256_BIT"

lemma aligned_mod: "(len :: u32) mod 16 = 0 \<longleftrightarrow> 16 dvd unat len"
proof -
  have "len mod 16 = 0 \<longleftrightarrow> unat (len mod 16) = 0" by (simp add: unat_eq_zero)
  then show ?thesis by (simp add: unat_mod_distrib dvd_eq_mod_eq_0)
qed

lemma ecb_calls:
  assumes c: "noxtls_aes_prepare_context (Some zero_aes_context) (Some key) type = (NOXTLS_RETURN_SUCCESS, Some c)"
    and len: "length x = unat len" "16 dvd unat len" "length out = unat len"
  shows "noxtls_aes_encrypt_ecb no_port (Some key) (Some x) len iv (Some out) type =
      Some (NOXTLS_RETURN_SUCCESS, Some (block_stream (ecb_step (aes_E c)) () x))"
    and "noxtls_aes_decrypt_ecb no_port (Some key) (Some x) len iv (Some out) type =
      Some (NOXTLS_RETURN_SUCCESS, Some (block_stream (ecb_step (aes_D c)) () x))"
proof -
  have slen: "length (block_stream (ecb_step f) () x) = unat len" if "\<And>b. length b = 16 \<Longrightarrow> length (f b) = 16" for f
    using len(1,2) unfolding len(1) [symmetric]
    by (induction x rule: block_induct)
      (use that in \<open>auto simp: block_stream_block ecb_step_def dest: dvd_imp_le\<close>)
  have ready: "ctx_round_keys_ready c \<noteq> 0" using prepared_ready [OF c] by simp
  show "noxtls_aes_encrypt_ecb no_port (Some key) (Some x) len iv (Some out) type =
      Some (NOXTLS_RETURN_SUCCESS, Some (block_stream (ecb_step (aes_E c)) () x))"
    using with_schedule_run [OF c] ecb_walk(1) [OF ready len(1,2), of out] len slen
    by (cases "len = 0") (simp_all add: noxtls_aes_encrypt_ecb_def aligned_mod put_at_whole with_schedule_def)
  show "noxtls_aes_decrypt_ecb no_port (Some key) (Some x) len iv (Some out) type =
      Some (NOXTLS_RETURN_SUCCESS, Some (block_stream (ecb_step (aes_D c)) () x))"
    using with_schedule_run [OF c] ecb_walk(2) [OF ready len(1,2), of out] len slen
    by (cases "len = 0") (simp_all add: noxtls_aes_decrypt_ecb_def aligned_mod put_at_whole with_schedule_def)
qed

lemma cbc_calls:
  assumes c: "noxtls_aes_prepare_context (Some zero_aes_context) (Some key) type = (NOXTLS_RETURN_SUCCESS, Some c)"
    and len: "length x = unat len" "16 dvd unat len" "length out = unat len"
    and iv: "\<And>v. iv = Some v \<Longrightarrow> 16 \<le> length v"
  shows "noxtls_aes_encrypt_cbc no_port (Some key) (Some x) len iv (Some out) type =
      Some (NOXTLS_RETURN_SUCCESS, Some (block_stream (cbc_step (aes_E c)) (iv_or_zero iv) x))"
    and "noxtls_aes_decrypt_cbc no_port (Some key) (Some x) len iv (Some out) type =
      Some (NOXTLS_RETURN_SUCCESS, Some (block_stream (cbc_inv_step (aes_D c)) (iv_or_zero iv) x))"
proof -
  have ready: "ctx_round_keys_ready c \<noteq> 0" using prepared_ready [OF c] by simp
  obtain m where m: "unat len = 16 * m" using len(2) by (elim dvdE)
  have ceil: "(unat len + 15) div 16 * 16 = unat len" by (simp add: m)
  have small: "\<not> len > 0xFFFFFFFF - (16 - 1)"
    using aligned_bound [OF len(2)] by (simp add: word_less_nat_alt)
  have slen: "length (block_stream (cbc_step (aes_E c)) (iv_or_zero iv) x) = unat len"
    using iv len ceil by (simp add: stream_length_cbc length_iv_or_zero)
  have dlen: "length st = 16 \<Longrightarrow> 16 dvd length y \<Longrightarrow> length (block_stream (cbc_inv_step (aes_D c)) st y) = length y" for st y
    by (induction y arbitrary: st rule: block_induct)
      (auto simp: block_stream_block cbc_step_simps dest: dvd_imp_le)
  have dlen': "length (block_stream (cbc_inv_step (aes_D c)) (iv_or_zero iv) x) = unat len"
    using dlen [of "iv_or_zero iv" x] iv len by (simp add: length_iv_or_zero)
  show "noxtls_aes_encrypt_cbc no_port (Some key) (Some x) len iv (Some out) type =
      Some (NOXTLS_RETURN_SUCCESS, Some (block_stream (cbc_step (aes_E c)) (iv_or_zero iv) x))"
  proof (cases "len = 0")
    case False
    have "block_walk (cbc_encrypt_body no_port c iv x len span) len 0 out =
      Some (NOXTLS_RETURN_SUCCESS, block_stream (cbc_step (aes_E c)) (iv_or_zero iv) x)" for span
      using cbc_encrypt_walk [where iv = iv, OF ready len(1) aligned_bound [OF len(2)] _ iv, where out = out and span = span] ceil len(3) slen
      by (simp add: put_at_whole)
    then show ?thesis
      using with_schedule_run [OF c False] small by (simp add: noxtls_aes_encrypt_cbc_def Let_def)
  qed (use len slen in \<open>simp add: noxtls_aes_encrypt_cbc_def with_schedule_def\<close>)
  show "noxtls_aes_decrypt_cbc no_port (Some key) (Some x) len iv (Some out) type =
      Some (NOXTLS_RETURN_SUCCESS, Some (block_stream (cbc_inv_step (aes_D c)) (iv_or_zero iv) x))"
  proof (cases "len = 0")
    case False
    obtain ch where "block_walk (cbc_decrypt_body no_port c iv x len) len 0 (replicate 16 0, out) =
      Some (NOXTLS_RETURN_SUCCESS, ch, block_stream (cbc_inv_step (aes_D c)) (iv_or_zero iv) x)"
      using cbc_decrypt_walk [where iv = iv, OF ready len(1,2) _ iv, where out = out] len(3) dlen' by (auto simp: put_at_whole)
    then show ?thesis
      using with_schedule_run [OF c False] len by (simp add: noxtls_aes_decrypt_cbc_def aligned_mod)
  qed (use len dlen' in \<open>simp add: noxtls_aes_decrypt_cbc_def with_schedule_def\<close>)
qed

lemma keystream_calls:
  assumes c: "noxtls_aes_prepare_context (Some zero_aes_context) (Some key) type = (NOXTLS_RETURN_SUCCESS, Some c)"
    and len: "length x = unat len" "unat len \<le> 4294967280" "length out = unat len" and iv: "16 \<le> length iv"
  shows "noxtls_aes_encrypt_ctr no_port (Some key) (Some x) len (Some iv) (Some out) type =
      Some (NOXTLS_RETURN_SUCCESS, Some (block_stream (ctr_step (aes_E c) aes_counter_inc) (take 16 iv) x))"
    and "noxtls_aes_encrypt_cfb no_port (Some key) (Some x) len (Some iv) (Some out) type =
      Some (NOXTLS_RETURN_SUCCESS, Some (block_stream (cfb_step (aes_E c)) (take 16 iv) x))"
    and "noxtls_aes_encrypt_ofb no_port (Some key) (Some x) len (Some iv) (Some out) type =
      Some (NOXTLS_RETURN_SUCCESS, Some (block_stream (ofb_step (aes_E c)) (take 16 iv) x))"
proof -
  have ready: "ctx_round_keys_ready c \<noteq> 0" using prepared_ready [OF c] by simp
  have iv': "length (take 16 iv) = 16" using iv by simp
  have slen: "length (block_stream (ctr_step (aes_E c) aes_counter_inc) (take 16 iv) x) = unat len"
    "length (block_stream (cfb_step (aes_E c)) (take 16 iv) x) = unat len"
    "length (block_stream (ofb_step (aes_E c)) (take 16 iv) x) = unat len"
    using aes_ctr.stream_length [OF iv', of x] aes.cfb.stream_length [OF iv', of x]
      aes.ofb.stream_length [OF iv', of x] len(1) by simp_all
  show "noxtls_aes_encrypt_ctr no_port (Some key) (Some x) len (Some iv) (Some out) type =
      Some (NOXTLS_RETURN_SUCCESS, Some (block_stream (ctr_step (aes_E c) aes_counter_inc) (take 16 iv) x))"
  proof (cases "len = 0")
    case False
    then show ?thesis
      using with_schedule_run [OF c False] ctr_walk [OF ready len(1,2) _ iv', where out = out] len slen
      by (auto simp: noxtls_aes_encrypt_ctr_def put_at_whole)
  qed (use len slen in \<open>simp add: noxtls_aes_encrypt_ctr_def with_schedule_def\<close>)
  show "noxtls_aes_encrypt_cfb no_port (Some key) (Some x) len (Some iv) (Some out) type =
      Some (NOXTLS_RETURN_SUCCESS, Some (block_stream (cfb_step (aes_E c)) (take 16 iv) x))"
  proof (cases "len = 0")
    case False
    then show ?thesis
      using with_schedule_run [OF c False] cfb_walk [OF ready len(1,2) _ iv, where out = out] len slen
      by (auto simp: noxtls_aes_encrypt_cfb_def put_at_whole)
  qed (use len slen in \<open>simp add: noxtls_aes_encrypt_cfb_def with_schedule_def\<close>)
  show "noxtls_aes_encrypt_ofb no_port (Some key) (Some x) len (Some iv) (Some out) type =
      Some (NOXTLS_RETURN_SUCCESS, Some (block_stream (ofb_step (aes_E c)) (take 16 iv) x))"
  proof (cases "len = 0")
    case False
    then show ?thesis
      using with_schedule_run [OF c False] ofb_walk [OF ready len(1,2) _ iv, where out = out] len slen
      by (auto simp: noxtls_aes_encrypt_ofb_def put_at_whole)
  qed (use len slen in \<open>simp add: noxtls_aes_encrypt_ofb_def with_schedule_def\<close>)
qed

end
