(* ===== verification/Aes_Stream.thy ===== *)
theory Aes_Stream
  imports Aes_Modes
begin

text \<open>
  The streaming interface of \<open>noxtls_aes.c\<close>: \<open>noxtls_aes_init\<close>, \<open>noxtls_aes_update\<close>,
  \<open>noxtls_aes_final\<close> and \<open>noxtls_aes_free\<close> on a caller's context. Input and output are separate buffers.
  In an update the remaining input \<open>in_ptr[0 .. in_left]\<close> is the list \<open>data\<close>.
\<close>

definition NOXTLS_AES_OP_ENCRYPT :: u32 where "NOXTLS_AES_OP_ENCRYPT = 0"
definition NOXTLS_AES_OP_DECRYPT :: u32 where "NOXTLS_AES_OP_DECRYPT = 1"

abbreviation ctx_mode32 :: "aes_context \<Rightarrow> u32" where "ctx_mode32 c \<equiv> ucast (ctx_mode c)"
abbreviation ctx_op32 :: "aes_context \<Rightarrow> u32" where "ctx_op32 c \<equiv> ucast (ctx_op c)"

section \<open>Starting\<close>

definition aes_init_iv_required :: "bytes option \<Rightarrow> aes_context \<Rightarrow> noxtls_return_t \<times> aes_context" where
  "aes_init_iv_required iv c =
     (if iv = None then (NOXTLS_RETURN_INVALID_PARAM, c)
      else (NOXTLS_RETURN_SUCCESS,
            c\<lparr>ctx_feedback := the (noxtls_copy_u8 (Some (ctx_feedback c)) 16 iv NOXTLS_AES_BLOCK_LENGTH),
              ctx_partial_len := 16\<rparr>))"

definition noxtls_aes_init ::
    "aes_context option \<Rightarrow> bytes option \<Rightarrow> bytes option \<Rightarrow> u32 \<Rightarrow> u32 \<Rightarrow> u32 \<Rightarrow> noxtls_return_t \<times> aes_context option" where
  "noxtls_aes_init ctx key iv type mode op =
     (if ctx = None \<or> key = None then (NOXTLS_RETURN_NULL, ctx)
      else case noxtls_aes_prepare_context
              (Some (zero_aes_context\<lparr>ctx_mode := ucast mode, ctx_op := ucast op\<rparr>)) key type of
        (rc, prepared) \<Rightarrow>
          if rc \<noteq> NOXTLS_RETURN_SUCCESS then (rc, Some zero_aes_context)
          else (let c = the prepared in
            if mode = NOXTLS_AES_ECB then (NOXTLS_RETURN_SUCCESS, Some (c\<lparr>ctx_initialized := 1\<rparr>))
            else if mode = NOXTLS_AES_CBC then
              (let f = (if iv \<noteq> None then the (noxtls_copy_u8 (Some (ctx_feedback c)) 16 iv NOXTLS_AES_BLOCK_LENGTH)
                        else the (noxtls_secure_zero (Some (ctx_feedback c)) NOXTLS_AES_BLOCK_LENGTH))
               in (NOXTLS_RETURN_SUCCESS, Some (c\<lparr>ctx_feedback := f, ctx_initialized := 1\<rparr>)))
            else if mode = NOXTLS_AES_CTR \<or> mode = NOXTLS_AES_CFB \<or> mode = NOXTLS_AES_OFB then
              (case aes_init_iv_required iv c of (ir, c) \<Rightarrow>
                 if ir \<noteq> NOXTLS_RETURN_SUCCESS then (ir, Some zero_aes_context)
                 else (NOXTLS_RETURN_SUCCESS, Some (c\<lparr>ctx_initialized := 1\<rparr>)))
            else (NOXTLS_RETURN_INVALID_MODE, Some zero_aes_context)))"

section \<open>Updating, block modes\<close>

text \<open>A full partial block is ciphered to \<open>output[produced]\<close>; the feedback follows in CBC.\<close>

definition stream_block ::
    "aes_port \<Rightarrow> aes_context \<Rightarrow> bytes \<Rightarrow> u32 \<Rightarrow> noxtls_return_t \<times> aes_context \<times> bytes" where
  "stream_block port c output produced =
     (let off = unat produced; at = Some (take 16 (drop off output)) in
      if ctx_mode32 c = NOXTLS_AES_ECB then
        (case (if ctx_op32 c = NOXTLS_AES_OP_ENCRYPT
               then noxtls_aes_encrypt_block_ctx_internal port (Some c) (Some (ctx_partial c)) at
               else noxtls_aes_decrypt_block_ctx_internal port (Some c) (Some (ctx_partial c)) at) of
           (r, block) \<Rightarrow> (r, c, put_at off (the block) output))
      else if ctx_op32 c = NOXTLS_AES_OP_ENCRYPT then
        (case noxtls_aes_encrypt_block_ctx_internal port (Some c)
                (Some (xor_bytes (ctx_partial c) (ctx_feedback c))) at of
           (r, block) \<Rightarrow>
             if r \<noteq> NOXTLS_RETURN_SUCCESS then (r, c, put_at off (the block) output)
             else (r, c\<lparr>ctx_feedback := the block\<rparr>, put_at off (the block) output))
      else
        (case noxtls_aes_decrypt_block_ctx_internal port (Some c) (Some (ctx_partial c)) (Some (replicate 16 0)) of
           (r, block) \<Rightarrow>
             if r \<noteq> NOXTLS_RETURN_SUCCESS then (r, c, output)
             else (r, c\<lparr>ctx_feedback := ctx_partial c\<rparr>,
                   put_at off (xor_bytes (the block) (ctx_feedback c)) output)))"

definition stream_take :: "aes_context \<Rightarrow> bytes \<Rightarrow> nat" where
  "stream_take c data = min (length data) (unat (16 - ucast (ctx_partial_len c) :: u32))"

definition stream_fill :: "aes_context \<Rightarrow> bytes \<Rightarrow> aes_context" where
  "stream_fill c data =
     c\<lparr>ctx_partial := put_at (unat (ctx_partial_len c)) (take (stream_take c data) data) (ctx_partial c),
       ctx_partial_len := ctx_partial_len c + of_nat (stream_take c data)\<rparr>"

function block_mode_loop ::
    "aes_port \<Rightarrow> u32 \<Rightarrow> aes_context \<Rightarrow> bytes \<Rightarrow> bytes \<Rightarrow> u32 \<Rightarrow> noxtls_return_t \<times> aes_context \<times> bytes \<times> u32" where
  "block_mode_loop port span c data output produced =
     (if data = [] then (NOXTLS_RETURN_SUCCESS, c, output, produced)
      else
        let c1 = stream_fill c data; rest = drop (stream_take c data) data in
        if ctx_partial_len c1 = 16 then
          (case stream_block port c1 output produced of (r, c2, output) \<Rightarrow>
             if r \<noteq> NOXTLS_RETURN_SUCCESS then (r, zero_aes_context, wipe output span, 0)
             else block_mode_loop port span (c2\<lparr>ctx_partial_len := 0\<rparr>) rest output (produced + 16))
        else block_mode_loop port span c1 rest output produced)"
  by pat_completeness auto

lemma stream_take_0:
  assumes "data \<noteq> []" "stream_take c data = 0" shows "ctx_partial_len c = 16"
proof -
  have "(16 :: u32) - ucast (ctx_partial_len c) = 0"
    using assms by (simp add: stream_take_def min_def unat_eq_0 split: if_splits)
  then have "unat (ucast (ctx_partial_len c) :: u32) = 16" by simp
  then show ?thesis by (simp add: unat_ucast_up word_unat_eq_iff)
qed

termination block_mode_loop
proof (relation "measure (\<lambda>(port, span, c, data, output, produced). 2 * length data + (if ctx_partial_len c = 16 then 1 else 0))",
    goal_cases)
  case (2 port span c data buf produced c1 rest r x c2 out)
  have "data \<noteq> []" "rest = drop (stream_take c data) data" using 2(1,3) by simp_all
  then show ?case using stream_take_0 [of data c] by (cases "stream_take c data = 0") (simp_all add: le_imp_less_Suc)
next
  case (3 port span c data buf produced c1 rest)
  have "stream_take c data \<noteq> 0" using 3(1,2,4) stream_take_0 [of data c]
    by (cases "stream_take c data = 0") (auto simp: stream_fill_def)
  then show ?case using 3(1,3,4) by (cases "data") simp_all
qed simp

declare block_mode_loop.simps [simp del]

section \<open>Updating, stream modes\<close>

text \<open>A new keystream block into \<open>partial\<close>; the counter and output feedback move on.\<close>

definition stream_refill :: "aes_port \<Rightarrow> aes_context \<Rightarrow> noxtls_return_t \<times> aes_context" where
  "stream_refill port c =
     (case noxtls_aes_encrypt_block_ctx_internal port (Some c) (Some (ctx_feedback c)) (Some (ctx_partial c)) of
        (r, block) \<Rightarrow>
          let c1 = c\<lparr>ctx_partial := the block\<rparr> in
          if r \<noteq> NOXTLS_RETURN_SUCCESS then (r, c1)
          else if ctx_mode32 c = NOXTLS_AES_CTR then
            (r, c1\<lparr>ctx_feedback := aes_counter_inc (ctx_feedback c), ctx_partial_len := 0\<rparr>)
          else if ctx_mode32 c = NOXTLS_AES_CFB then (r, c1\<lparr>ctx_partial_len := 0\<rparr>)
          else (r, c1\<lparr>ctx_feedback := the block, ctx_partial_len := 0\<rparr>))"

text \<open>One pass of the byte loop; in CFB the ciphertext byte is shifted into the feedback.\<close>

definition stream_byte :: "aes_context \<Rightarrow> bytes \<Rightarrow> nat \<Rightarrow> bytes \<times> bytes \<Rightarrow> nat \<Rightarrow> bytes \<times> bytes" where
  "stream_byte c data off = (\<lambda>(feedback, output) i.
     let in_byte = data ! i;
         out_byte = in_byte XOR ctx_partial c ! (unat (ctx_partial_len c) + i);
         output = output[off + i := out_byte]
     in if ctx_mode32 c = NOXTLS_AES_CFB
        then ((noxtls_move_u8 feedback 0 16 1 (16 - 1))
                [16 - 1 := if ctx_op32 c = NOXTLS_AES_OP_ENCRYPT then out_byte else in_byte], output)
        else (feedback, output))"

definition stream_consume :: "aes_context \<Rightarrow> bytes \<Rightarrow> bytes \<Rightarrow> u32 \<Rightarrow> aes_context \<times> bytes" where
  "stream_consume c data output produced =
     (case foldl (stream_byte c data (unat produced)) (ctx_feedback c, output) [0..<stream_take c data] of
        (feedback, output) \<Rightarrow>
          (c\<lparr>ctx_feedback := feedback, ctx_partial_len := ctx_partial_len c + of_nat (stream_take c data)\<rparr>, output))"

function stream_mode_loop ::
    "aes_port \<Rightarrow> u32 \<Rightarrow> aes_context \<Rightarrow> bytes \<Rightarrow> bytes \<Rightarrow> u32 \<Rightarrow> noxtls_return_t \<times> aes_context \<times> bytes \<times> u32" where
  "stream_mode_loop port span c data output produced =
     (if data = [] then (NOXTLS_RETURN_SUCCESS, c, output, produced)
      else
        case (if ctx_partial_len c = 16 then stream_refill port c else (NOXTLS_RETURN_SUCCESS, c)) of (r, c1) \<Rightarrow>
          if r \<noteq> NOXTLS_RETURN_SUCCESS then (r, zero_aes_context, wipe output span, 0)
          else
            let tk = stream_take c1 data in
            case stream_consume c1 data output produced of (c2, output) \<Rightarrow>
              stream_mode_loop port span c2 (drop tk data) output (produced + of_nat tk))"
  by pat_completeness auto

lemma stream_refill_resets:
  "stream_refill port c = (NOXTLS_RETURN_SUCCESS, c1) \<Longrightarrow> ctx_partial_len c1 = 0"
  by (auto simp: stream_refill_def Let_def split: prod.splits if_splits)

termination stream_mode_loop
proof (relation "measure (\<lambda>(port, span, c, data, output, produced). length data)", goal_cases)
  case (2 port span c data buf produced r c1 tk c2 out)
  have "ctx_partial_len c1 \<noteq> 16"
    using 2(2,3) stream_refill_resets [of port c c1] by (auto split: if_splits)
  then have "stream_take c1 data \<noteq> 0" using stream_take_0 [of data c1] 2(1) by auto
  then show ?case using 2 by auto
qed simp

declare stream_mode_loop.simps [simp del]

section \<open>Updating, finishing, freeing\<close>

definition noxtls_aes_update ::
    "aes_port \<Rightarrow> aes_context option \<Rightarrow> bytes option \<Rightarrow> u32 \<Rightarrow> bytes option \<Rightarrow> u32 option \<Rightarrow>
     noxtls_return_t \<times> aes_context option \<times> bytes option \<times> u32 option" where
  "noxtls_aes_update port ctx input input_len output output_len =
     (if ctx = None \<or> output_len = None then (NOXTLS_RETURN_NULL, ctx, output, output_len)
      else let c = the ctx in
        if ctx_initialized c = 0 then (NOXTLS_RETURN_NOT_INITIALIZED, ctx, output, Some 0)
        else if input_len > 0 \<and> (input = None \<or> output = None) then (NOXTLS_RETURN_NULL, ctx, output, Some 0)
        else if input_len = 0 then (NOXTLS_RETURN_SUCCESS, ctx, output, Some 0)
        else if unat (ctx_partial_len c) > NOXTLS_AES_BLOCK_LENGTH \<or> input_len > 0xFFFFFFFF - ucast (ctx_partial_len c)
          then (NOXTLS_RETURN_INVALID_BLOCK_SIZE, ctx, output, Some 0)
        else
          let data = take (unat input_len) (the input) in
          if ctx_mode32 c = NOXTLS_AES_ECB \<or> ctx_mode32 c = NOXTLS_AES_CBC then
            (let output_span = (input_len + ucast (ctx_partial_len c)) div 16 * 16 in
             case block_mode_loop port output_span c data (the output) 0 of
               (rc, c', out, produced) \<Rightarrow> (rc, Some c', Some out, Some produced))
          else if ctx_mode32 c = NOXTLS_AES_CTR \<or> ctx_mode32 c = NOXTLS_AES_CFB \<or> ctx_mode32 c = NOXTLS_AES_OFB then
            (case stream_mode_loop port input_len c data (the output) 0 of
               (rc, c', out, produced) \<Rightarrow> (rc, Some c', Some out, Some produced))
          else (NOXTLS_RETURN_INVALID_MODE, ctx, output, Some 0))"

definition noxtls_aes_final ::
    "aes_port \<Rightarrow> aes_context option \<Rightarrow> bytes option \<Rightarrow> u32 option \<Rightarrow>
     noxtls_return_t \<times> aes_context option \<times> bytes option \<times> u32 option" where
  "noxtls_aes_final port ctx output output_len =
     (if ctx = None \<or> output_len = None then (NOXTLS_RETURN_NULL, ctx, output, output_len)
      else let c = the ctx; wiped = Some zero_aes_context in
        if ctx_initialized c = 0 then (NOXTLS_RETURN_NOT_INITIALIZED, wiped, output, Some 0)
        else if ctx_mode32 c = NOXTLS_AES_CTR \<or> ctx_mode32 c = NOXTLS_AES_CFB \<or> ctx_mode32 c = NOXTLS_AES_OFB
          then (NOXTLS_RETURN_SUCCESS, wiped, output, Some 0)
        else if ctx_op32 c = NOXTLS_AES_OP_DECRYPT then
          (if ctx_partial_len c \<noteq> 0 then (NOXTLS_RETURN_INVALID_BLOCK_SIZE, wiped, output, Some 0)
           else (NOXTLS_RETURN_SUCCESS, wiped, output, Some 0))
        else if ctx_partial_len c > 0 then
          (if output = None then (NOXTLS_RETURN_NULL, wiped, output, Some 0)
           else
             let block = the (noxtls_copy_u8 (Some (replicate 16 0)) 16 (Some (ctx_partial c)) (unat (ctx_partial_len c)));
                 finish = (\<lambda>block.
                   case noxtls_aes_encrypt_block_ctx_internal port (Some c) (Some block) (Some (take 16 (the output))) of
                     (r, y) \<Rightarrow>
                       let out = put_at 0 (the y) (the output) in
                       if r \<noteq> NOXTLS_RETURN_SUCCESS then (r, wiped, Some (wipe out 16), Some 0)
                       else (NOXTLS_RETURN_SUCCESS, wiped, Some out, Some 16))
             in if ctx_mode32 c = NOXTLS_AES_ECB then finish block
                else if ctx_mode32 c = NOXTLS_AES_CBC then finish (xor_bytes block (ctx_feedback c))
                else (NOXTLS_RETURN_INVALID_MODE, wiped, output, Some 0))
        else (NOXTLS_RETURN_SUCCESS, wiped, output, Some 0))"

definition noxtls_aes_free :: "aes_context option \<Rightarrow> aes_context option" where
  "noxtls_aes_free ctx = map_option (\<lambda>_. zero_aes_context) ctx"

section \<open>A session\<close>

text \<open>A client that initialises, updates with each chunk, collecting what comes out, and finishes.\<close>

fun stream_updates :: "aes_port \<Rightarrow> aes_context \<Rightarrow> bytes list \<Rightarrow> (aes_context \<times> bytes) option" where
  "stream_updates port c [] = Some (c, [])"
| "stream_updates port c (x # xs) =
     (case noxtls_aes_update port (Some c) (Some x) (of_nat (length x)) (Some (replicate (length x + 16) 0)) (Some 0) of
        (rc, Some c', Some out, Some n) \<Rightarrow>
          if rc \<noteq> NOXTLS_RETURN_SUCCESS then None
          else map_option (apsnd (append (take (unat n) out))) (stream_updates port c' xs)
      | _ \<Rightarrow> None)"

definition stream_session ::
    "aes_port \<Rightarrow> bytes \<Rightarrow> bytes option \<Rightarrow> u32 \<Rightarrow> u32 \<Rightarrow> u32 \<Rightarrow> bytes list \<Rightarrow> bytes option" where
  "stream_session port key iv type mode op chunks =
     (case noxtls_aes_init (Some zero_aes_context) (Some key) iv type mode op of
        (rc, ctx) \<Rightarrow>
          if rc \<noteq> NOXTLS_RETURN_SUCCESS then None
          else case stream_updates port (the ctx) chunks of
            None \<Rightarrow> None
          | Some (c, out) \<Rightarrow>
              (case noxtls_aes_final port (Some c) (Some (replicate 16 0)) (Some 0) of
                 (rc, _, tail, n) \<Rightarrow>
                   if rc \<noteq> NOXTLS_RETURN_SUCCESS then None else Some (out @ take (unat (the n)) (the tail))))"

end
