(* ===== verification/Aes_Modes_Correct.thy ===== *)
theory Aes_Modes_Correct
  imports Aes_Modes
begin

text \<open>
  What the one-shot modes promise: round trips, when a call returns at all, what a failing call leaves
  behind, and that counter mode does not repeat a counter block.
\<close>

section \<open>Round trips\<close>

lemma prepared:
  assumes "aes_key_size type"
  obtains c where "noxtls_aes_prepare_context (Some zero_aes_context) (Some key) type = (NOXTLS_RETURN_SUCCESS, Some c)"
  using prepare_success [OF assms, of zero_aes_context key] by blast

text \<open>
  Claim C19. CBC: for every supported key size, with or without an IV, decrypting what was encrypted from
  whole blocks gives back the data; both calls succeed.
\<close>

theorem aes_cbc_round_trip:
  assumes "aes_key_size type" and "length pt = unat len" "16 dvd unat len"
    and "length out1 = unat len" "length out2 = unat len" and "\<And>v. iv = Some v \<Longrightarrow> 16 \<le> length v"
  shows "\<exists>ct. noxtls_aes_encrypt_cbc no_port (Some key) (Some pt) len iv (Some out1) type =
      Some (NOXTLS_RETURN_SUCCESS, Some ct) \<and> length ct = length pt \<and>
    noxtls_aes_decrypt_cbc no_port (Some key) (Some ct) len iv (Some out2) type =
      Some (NOXTLS_RETURN_SUCCESS, Some pt)"
proof -
  obtain c where c: "noxtls_aes_prepare_context (Some zero_aes_context) (Some key) type = (NOXTLS_RETURN_SUCCESS, Some c)"
    by (rule prepared [OF assms(1)])
  let ?iv = "iv_or_zero iv"
  have iv: "length ?iv = 16" using assms(6) by (rule length_iv_or_zero)
  have m: "length pt mod 16 = 0 \<or> length pt mod 16 = 16" using assms(2,3) by simp
  let ?ct = "block_stream (cbc_step (aes_E c)) ?iv pt"
  have len: "length ?ct = unat len" using aes.cbc.stream_length [OF iv m] assms(2) by simp
  show ?thesis
    using cbc_calls(1) [where iv = iv, OF c assms(2,3,4,6)] cbc_calls(2) [where iv = iv, OF c len assms(3,5,6)]
      aes.cbc.round_trip [OF iv m, where c = c] len assms(2) by auto
qed

theorem aes_cbc_round_trip_witness:
  "\<exists>ct. noxtls_aes_encrypt_cbc no_port (Some (replicate 16 1)) (Some (replicate 32 7)) 32 None
      (Some (replicate 32 0)) NOXTLS_AES_128_BIT = Some (NOXTLS_RETURN_SUCCESS, Some ct) \<and>
    noxtls_aes_decrypt_cbc no_port (Some (replicate 16 1)) (Some ct) 32 None (Some (replicate 32 0)) NOXTLS_AES_128_BIT =
      Some (NOXTLS_RETURN_SUCCESS, Some (replicate 32 7))"
  using aes_cbc_round_trip [of NOXTLS_AES_128_BIT "replicate 32 7" 32 "replicate 32 0" "replicate 32 0" None
      "replicate 16 1"] by auto

text \<open>
  Claim C20. CTR and OFB are their own inverse on data of any length up to the last length the
  32-bit index can walk: encrypting twice with the same key and IV gives back the data. ECB
  decryption undoes ECB encryption on whole blocks.
\<close>

theorem aes_keystream_round_trip:
  assumes "aes_key_size type" and "length pt = unat len" "unat len \<le> 4294967280"
    and "length out1 = unat len" "length out2 = unat len" and "16 \<le> length iv"
  shows "(\<exists>ct. noxtls_aes_encrypt_ctr no_port (Some key) (Some pt) len (Some iv) (Some out1) type =
        Some (NOXTLS_RETURN_SUCCESS, Some ct) \<and>
      noxtls_aes_encrypt_ctr no_port (Some key) (Some ct) len (Some iv) (Some out2) type =
        Some (NOXTLS_RETURN_SUCCESS, Some pt)) \<and>
    (\<exists>ct. noxtls_aes_encrypt_ofb no_port (Some key) (Some pt) len (Some iv) (Some out1) type =
        Some (NOXTLS_RETURN_SUCCESS, Some ct) \<and>
      noxtls_aes_encrypt_ofb no_port (Some key) (Some ct) len (Some iv) (Some out2) type =
        Some (NOXTLS_RETURN_SUCCESS, Some pt)) \<and>
    (16 dvd unat len \<longrightarrow> (\<exists>ct. noxtls_aes_encrypt_ecb no_port (Some key) (Some pt) len None (Some out1) type =
        Some (NOXTLS_RETURN_SUCCESS, Some ct) \<and>
      noxtls_aes_decrypt_ecb no_port (Some key) (Some ct) len None (Some out2) type =
        Some (NOXTLS_RETURN_SUCCESS, Some pt)))"
proof -
  obtain c where c: "noxtls_aes_prepare_context (Some zero_aes_context) (Some key) type = (NOXTLS_RETURN_SUCCESS, Some c)"
    by (rule prepared [OF assms(1)])
  have iv: "length (take 16 iv) = 16" using assms(6) by simp
  have len: "length (block_stream (ctr_step (aes_E c) aes_counter_inc) (take 16 iv) pt) = unat len"
    "length (block_stream (ofb_step (aes_E c)) (take 16 iv) pt) = unat len"
    using aes_ctr.stream_length [OF iv, where x = pt and c = c] aes.ofb.stream_length [OF iv, where x = pt and c = c] assms(2) by simp_all
  have elen: "16 dvd unat len \<Longrightarrow> length (block_stream (ecb_step (aes_E c)) () pt) = unat len"
    using aes.ecb.stream_length [where st = "()" and x = pt and c = c] assms(2) by simp
  have rt: "block_stream (ctr_step (aes_E c) aes_counter_inc) (take 16 iv)
      (block_stream (ctr_step (aes_E c) aes_counter_inc) (take 16 iv) pt) = pt"
    "block_stream (ofb_step (aes_E c)) (take 16 iv) (block_stream (ofb_step (aes_E c)) (take 16 iv) pt) = pt"
    using aes_ctr.round_trip [OF iv, where x = pt and c = c] aes.ofb.round_trip [OF iv, where x = pt and c = c] by simp_all
  have ecb: "16 dvd unat len \<Longrightarrow> block_stream (ecb_step (aes_D c)) () (block_stream (ecb_step (aes_E c)) () pt) = pt"
    using aes.ecb.round_trip [where st = "()" and x = pt and c = c] assms(2) by simp
  show ?thesis
    using keystream_calls(1,3) [OF c assms(2,3,4,6)] keystream_calls(1) [OF c len(1) assms(3,5,6)]
      keystream_calls(3) [OF c len(2) assms(3,5,6)] rt ecb elen
      ecb_calls(1) [OF c assms(2) _ assms(4)] ecb_calls(2) [OF c elen _ assms(5)] by auto
qed

theorem aes_keystream_round_trip_witness:
  "\<exists>ct. noxtls_aes_encrypt_ctr no_port (Some (replicate 24 1)) (Some (replicate 21 7)) 21 (Some (replicate 16 255))
      (Some (replicate 21 0)) NOXTLS_AES_192_BIT = Some (NOXTLS_RETURN_SUCCESS, Some ct) \<and>
    noxtls_aes_encrypt_ctr no_port (Some (replicate 24 1)) (Some ct) 21 (Some (replicate 16 255))
      (Some (replicate 21 0)) NOXTLS_AES_192_BIT = Some (NOXTLS_RETURN_SUCCESS, Some (replicate 21 7))"
  using aes_keystream_round_trip [of NOXTLS_AES_192_BIT "replicate 21 7" 21 "replicate 21 0" "replicate 21 0"
      "replicate 16 255" "replicate 24 1"] by auto

section \<open>When a call returns\<close>

lemma keystream_bodies_succeed:
  assumes "ctx_round_keys_ready c \<noteq> 0"
  shows "fst (ctr_body no_port c x len i s) = NOXTLS_RETURN_SUCCESS"
    "fst (ofb_body no_port c v x len i s) = NOXTLS_RETURN_SUCCESS"
    "fst (cfb_body no_port c v x len i out) = NOXTLS_RETURN_SUCCESS"
  using assms by (cases s; simp add: ctr_body_def ofb_body_def cfb_body_def encrypt_block_ctx Let_def)+

text \<open>
  Claim C21. CTR, CFB and OFB return exactly when the data is at most \<open>0xFFFFFFF0\<close> bytes: past that
  the 32-bit block index wraps below the length and the loop never ends. CBC, with the same index,
  refuses those lengths.
\<close>

theorem aes_keystream_returns_iff:
  assumes "aes_key_size type" and "length x = unat len" "length out = unat len" "16 \<le> length iv"
  shows "(noxtls_aes_encrypt_ctr no_port (Some key) (Some x) len (Some iv) (Some out) type \<noteq> None \<longleftrightarrow> len \<le> 0xFFFFFFF0) \<and>
    (noxtls_aes_encrypt_cfb no_port (Some key) (Some x) len (Some iv) (Some out) type \<noteq> None \<longleftrightarrow> len \<le> 0xFFFFFFF0) \<and>
    (noxtls_aes_encrypt_ofb no_port (Some key) (Some x) len (Some iv) (Some out) type \<noteq> None \<longleftrightarrow> len \<le> 0xFFFFFFF0) \<and>
    (len > 0xFFFFFFF0 \<longrightarrow> noxtls_aes_encrypt_cbc no_port (Some key) (Some x) len (Some iv) (Some out) type =
       Some (NOXTLS_RETURN_INVALID_BLOCK_SIZE, Some out))"
proof (cases "unat len \<le> 4294967280")
  case True
  obtain c where c: "noxtls_aes_prepare_context (Some zero_aes_context) (Some key) type = (NOXTLS_RETURN_SUCCESS, Some c)"
    by (rule prepared [OF assms(1)])
  have "len \<le> 0xFFFFFFF0" using True by (simp add: word_le_nat_alt)
  then show ?thesis using keystream_calls [OF c assms(2) True assms(3,4)] by auto
next
  case False
  obtain c where c: "noxtls_aes_prepare_context (Some zero_aes_context) (Some key) type = (NOXTLS_RETURN_SUCCESS, Some c)"
    by (rule prepared [OF assms(1)])
  then have ready: "ctx_round_keys_ready c \<noteq> 0" using prepared_ready [OF c] by simp
  have big: "4294967280 < unat len" and wide: "\<not> len \<le> 0xFFFFFFF0" "len > 0xFFFFFFFF - (16 - 1)" "len \<noteq> 0"
    using False by (auto simp: word_le_nat_alt word_less_nat_alt)
  have never: "block_walk (ctr_body no_port c x len) len 0 s = None"
      "block_walk (ofb_body no_port c iv x len) len 0 s = None"
      "block_walk (cfb_body no_port c iv x len) len 0 t = None" for s t
    using block_walk_diverges [OF keystream_bodies_succeed(1) [OF ready] big, where k = 0]
      block_walk_diverges [OF keystream_bodies_succeed(2) [OF ready] big, where k = 0]
      block_walk_diverges [OF keystream_bodies_succeed(3) [OF ready] big, where k = 0] by simp_all
  show ?thesis
    using wide c assms(4) by (simp add: noxtls_aes_encrypt_ctr_def noxtls_aes_encrypt_cfb_def
        noxtls_aes_encrypt_ofb_def noxtls_aes_encrypt_cbc_def with_schedule_def never)
qed

theorem aes_keystream_returns_iff_witness:
  "noxtls_aes_encrypt_ctr no_port (Some (replicate 16 1)) (Some (replicate 4294967281 0)) 4294967281
     (Some (replicate 16 0)) (Some (replicate 4294967281 0)) NOXTLS_AES_128_BIT = None"
  using aes_keystream_returns_iff [of NOXTLS_AES_128_BIT "replicate 4294967281 0" 4294967281
      "replicate 4294967281 0" "replicate 16 0" "replicate 16 1"]
  by (simp del: not_None_eq not_Some_eq)

section \<open>What a failing call leaves\<close>

lemma take_wipe:
  assumes "n \<le> unat span" "n \<le> length out"
  shows "take n (wipe out span) = replicate n 0"
proof (cases "unat span = 0")
  case False
  then have w: "wipe out span = secure_zero_from out 0 (unat span)" by (simp add: wipe_def noxtls_secure_zero_def)
  show ?thesis unfolding w
    using secure_zero_from_nth [of out 0 "unat span"] assms by (intro nth_equalityI) auto
qed (use assms in simp)

lemma put_at_grows: "length buf \<le> length (put_at off b buf)"
  by (simp add: put_at_def)

lemma check_ctx_cases:
  assumes "aes_check_ctx rc out span = (rc', out')" "n \<le> length out" "n \<le> unat span"
  shows "if rc' = NOXTLS_RETURN_SUCCESS then n \<le> length out' else take n out' = replicate n 0"
  using assms take_wipe [OF assms(3,2)] by (auto simp: aes_check_ctx_def split: if_splits)

lemma put_at_room: "n \<le> length buf \<Longrightarrow> n \<le> length (put_at off b buf)"
  using put_at_grows order_trans by blast

lemma walk_wiped:
  assumes walk: "block_walk body len 0 s = Some (rc, s')" "rc \<noteq> NOXTLS_RETURN_SUCCESS" "unat len \<le> length (view s)"
    and body: "\<And>i s rc s'. unat len \<le> length (view s) \<Longrightarrow> body i s = (rc, s') \<Longrightarrow>
      if rc = NOXTLS_RETURN_SUCCESS then unat len \<le> length (view s')
      else take (unat len) (view s') = replicate (unat len) 0"
  shows "take (unat len) (view s') = replicate (unat len) 0"
  by (rule block_walk_fails [where I = "\<lambda>s. unat len \<le> length (view s)" and
      Q = "\<lambda>s. take (unat len) (view s) = replicate (unat len) 0", OF body walk])

lemma schedule_wiped:
  assumes res: "with_schedule key type len out run = Some (rc, Some out')" "rc \<noteq> NOXTLS_RETURN_SUCCESS"
    and len: "unat len \<le> length out"
    and run: "\<And>c rc r. run c = Some (rc, r) \<Longrightarrow> rc \<noteq> NOXTLS_RETURN_SUCCESS \<Longrightarrow> take (unat len) r = replicate (unat len) 0"
  shows "take (unat len) out' = replicate (unat len) 0"
proof (cases "noxtls_aes_prepare_context (Some zero_aes_context) key type")
  case (Pair prep_rc actx)
  then show ?thesis
    using res run take_wipe [OF order_refl len]
    by (auto simp: with_schedule_def split: if_splits)
qed

lemma bodies_wipe:
  assumes "unat len \<le> length out"
  shows "ecb_encrypt_body port c x len i out = (rc, out') \<Longrightarrow> if rc = NOXTLS_RETURN_SUCCESS then unat len \<le> length out'
      else take (unat len) out' = replicate (unat len) 0"
    and "unat len \<le> unat span \<Longrightarrow> cbc_encrypt_body port c iv x len span i out = (rc, out') \<Longrightarrow>
      if rc = NOXTLS_RETURN_SUCCESS then unat len \<le> length out' else take (unat len) out' = replicate (unat len) 0"
    and "ctr_body port c x len i (ch, out) = (rc, ch', out') \<Longrightarrow> if rc = NOXTLS_RETURN_SUCCESS then unat len \<le> length out'
      else take (unat len) out' = replicate (unat len) 0"
    and "cfb_body port c v x len i out = (rc, out') \<Longrightarrow> if rc = NOXTLS_RETURN_SUCCESS then unat len \<le> length out'
      else take (unat len) out' = replicate (unat len) 0"
    and "ofb_body port c v x len i (ch, out) = (rc, ch', out') \<Longrightarrow> if rc = NOXTLS_RETURN_SUCCESS then unat len \<le> length out'
      else take (unat len) out' = replicate (unat len) 0"
proof -
  note room = put_at_room [OF assms]
  show "ecb_encrypt_body port c x len i out = (rc, out') \<Longrightarrow> if rc = NOXTLS_RETURN_SUCCESS then unat len \<le> length out'
      else take (unat len) out' = replicate (unat len) 0"
    by (simp only: ecb_encrypt_body_def split: prod.splits) (blast intro: check_ctx_cases [OF _ room order_refl])
  show "unat len \<le> unat span \<Longrightarrow> cbc_encrypt_body port c iv x len span i out = (rc, out') \<Longrightarrow>
      if rc = NOXTLS_RETURN_SUCCESS then unat len \<le> length out' else take (unat len) out' = replicate (unat len) 0"
    by (simp only: cbc_encrypt_body_def Let_def split: prod.splits) (blast intro: check_ctx_cases [OF _ room])
  show "ctr_body port c x len i (ch, out) = (rc, ch', out') \<Longrightarrow> if rc = NOXTLS_RETURN_SUCCESS then unat len \<le> length out'
      else take (unat len) out' = replicate (unat len) 0"
    "cfb_body port c v x len i out = (rc, out') \<Longrightarrow> if rc = NOXTLS_RETURN_SUCCESS then unat len \<le> length out'
      else take (unat len) out' = replicate (unat len) 0"
    "ofb_body port c v x len i (ch, out) = (rc, ch', out') \<Longrightarrow> if rc = NOXTLS_RETURN_SUCCESS then unat len \<le> length out'
      else take (unat len) out' = replicate (unat len) 0"
    using room take_wipe [OF order_refl assms]
    by (auto simp: ctr_body_def cfb_body_def ofb_body_def Let_def split: prod.splits if_splits)
qed

lemma walks_wiped:
  assumes len: "unat len \<le> length out"
  shows "block_walk (ecb_encrypt_body port c x len) len 0 out = Some (rc, r) \<Longrightarrow> rc \<noteq> NOXTLS_RETURN_SUCCESS \<Longrightarrow>
      take (unat len) r = replicate (unat len) 0"
    and "unat len \<le> unat span \<Longrightarrow> block_walk (cbc_encrypt_body port c iv x len span) len 0 out = Some (rc, r) \<Longrightarrow>
      rc \<noteq> NOXTLS_RETURN_SUCCESS \<Longrightarrow> take (unat len) r = replicate (unat len) 0"
    and "block_walk (cfb_body port c v x len) len 0 out = Some (rc, r) \<Longrightarrow> rc \<noteq> NOXTLS_RETURN_SUCCESS \<Longrightarrow>
      take (unat len) r = replicate (unat len) 0"
    and "map_option (apsnd snd) (block_walk (ctr_body port c x len) len 0 (ch, out)) = Some (rc, r) \<Longrightarrow>
      rc \<noteq> NOXTLS_RETURN_SUCCESS \<Longrightarrow> take (unat len) r = replicate (unat len) 0"
    and "map_option (apsnd snd) (block_walk (ofb_body port c v x len) len 0 (ch, out)) = Some (rc, r) \<Longrightarrow>
      rc \<noteq> NOXTLS_RETURN_SUCCESS \<Longrightarrow> take (unat len) r = replicate (unat len) 0"
proof -
  show "block_walk (ecb_encrypt_body port c x len) len 0 out = Some (rc, r) \<Longrightarrow> rc \<noteq> NOXTLS_RETURN_SUCCESS \<Longrightarrow>
      take (unat len) r = replicate (unat len) 0"
    by (rule walk_wiped [where view = "\<lambda>s. s", OF _ _ len]) (assumption | rule bodies_wipe(1))+
  show "unat len \<le> unat span \<Longrightarrow> block_walk (cbc_encrypt_body port c iv x len span) len 0 out = Some (rc, r) \<Longrightarrow>
      rc \<noteq> NOXTLS_RETURN_SUCCESS \<Longrightarrow> take (unat len) r = replicate (unat len) 0"
    by (rule walk_wiped [where view = "\<lambda>s. s", OF _ _ len]) (assumption | rule bodies_wipe(2))+
  show "block_walk (cfb_body port c v x len) len 0 out = Some (rc, r) \<Longrightarrow> rc \<noteq> NOXTLS_RETURN_SUCCESS \<Longrightarrow>
      take (unat len) r = replicate (unat len) 0"
    by (rule walk_wiped [where view = "\<lambda>s. s", OF _ _ len]) (assumption | rule bodies_wipe(4))+
  show "map_option (apsnd snd) (block_walk (ctr_body port c x len) len 0 (ch, out)) = Some (rc, r) \<Longrightarrow>
      rc \<noteq> NOXTLS_RETURN_SUCCESS \<Longrightarrow> take (unat len) r = replicate (unat len) 0"
    by (elim map_option_eq_Some [THEN iffD1, THEN exE] conjE)
      (auto dest!: walk_wiped [where view = snd] bodies_wipe(3) [rotated] simp: len split: prod.splits)
  show "map_option (apsnd snd) (block_walk (ofb_body port c v x len) len 0 (ch, out)) = Some (rc, r) \<Longrightarrow>
      rc \<noteq> NOXTLS_RETURN_SUCCESS \<Longrightarrow> take (unat len) r = replicate (unat len) 0"
    by (elim map_option_eq_Some [THEN iffD1, THEN exE] conjE)
      (auto dest!: walk_wiped [where view = snd] bodies_wipe(5) [rotated] simp: len split: prod.splits)
qed

lemma cbc_span: "\<not> len > 0xFFFFFFFF - (16 - 1) \<Longrightarrow> unat len \<le> unat ((len + 16 - 1) div 16 * 16 :: u32)"
proof -
  assume "\<not> len > 0xFFFFFFFF - (16 - 1)"
  then have b: "unat len \<le> 4294967280" by (simp add: word_less_nat_alt not_less word_le_nat_alt)
  have s: "unat (len + 16 - 1 :: u32) = unat len + 15"
  proof -
    have "len + 16 - 1 = len + 15" by simp
    moreover have "unat (len + 15) = unat len + 15"
      by (rule unat_add_lem [THEN iffD1, of len 15, simplified]) (use b in simp)
    ultimately show ?thesis by (simp only:)
  qed
  have "(unat len + 15) div 16 * 16 < 2 ^ 32" by (rule order.strict_trans1 [OF div_times_less_eq_dividend]) (use b in simp)
  moreover have q: "unat ((len + 16 - 1) div 16 :: u32) = (unat len + 15) div 16"
    by (simp only: unat_div s) simp
  ultimately have "unat ((len + 16 - 1) div 16 * 16 :: u32) = (unat len + 15) div 16 * 16"
    using unat_mult_lem [of "(len + 16 - 1) div 16 :: u32" 16] unfolding q by simp
  then show ?thesis by linarith
qed




section \<open>Counter blocks\<close>

lemma be_value_split:
  assumes "i < length xs"
  shows "be_value (take (Suc i) xs) = be_value (take i xs) * 256 + unat (xs ! i)"
  using assms by (simp add: take_Suc_conv_app_nth)

lemma counter_inc_from_keeps: "i \<le> j \<Longrightarrow> counter_inc_from i c ! j = c ! j"
  by (induction i c rule: counter_inc_from.induct) (simp_all add: Let_def)

lemma counter_inc_from_value:
  "n \<le> length c \<Longrightarrow> be_value (take n (counter_inc_from n c)) = (be_value (take n c) + 1) mod 256 ^ n"
proof (induction n c rule: counter_inc_from.induct)
  case (2 i c)
  let ?c = "c[i := c ! i + 1]"
  have i: "i < length c" using 2 by simp
  have bound: "be_value (take i c) < 256 ^ i" using be_value_less [of "take i c"] i by simp
  show ?case
  proof (cases "c ! i + 1 = 0")
    case True
    then have "c ! i = -1" by (simp add: eq_neg_iff_add_eq_0)
    then moreover have "(-1 :: u8) = 255" by simp
    ultimately have last: "unat (c ! i) = 255" by (simp only:) simp
    have "be_value (take (Suc i) (counter_inc_from (Suc i) c)) = (be_value (take i c) + 1) mod 256 ^ i * 256"
      using 2 True i by (simp add: Let_def be_value_split counter_inc_from_keeps del: be_value_simps(2))
    also have "\<dots> = ((be_value (take i c) + 1) * 256) mod 256 ^ Suc i"
      by (simp only: mult_mod_left power_Suc2)
    also have "(be_value (take i c) + 1) * 256 = be_value (take (Suc i) c) + 1"
      using i by (simp add: be_value_split last)
    finally show ?thesis .
  next
    case False
    then have inc: "unat (c ! i + 1) = unat (c ! i) + 1" using unatSuc [of "c ! i"] by (simp add: add.commute)
    have "be_value (take (Suc i) (counter_inc_from (Suc i) c)) = be_value (take (Suc i) c) + 1"
      using False i by (simp add: Let_def be_value_split inc)
    moreover have "be_value (take (Suc i) (counter_inc_from (Suc i) c)) < 256 ^ Suc i"
      using be_value_less [of "take (Suc i) (counter_inc_from (Suc i) c)"] i
      by (simp del: counter_inc_from.simps)
    ultimately show ?thesis by simp
  qed
qed simp

lemma counter_value:
  assumes "length c = 16"
  shows "be_value ((aes_counter_inc ^^ n) c) = (be_value c + n) mod 2 ^ 128"
proof (induction n)
  case (Suc n)
  have "length ((aes_counter_inc ^^ n) c) = 16" using assms by (induction n) simp_all
  then have "be_value (aes_counter_inc ((aes_counter_inc ^^ n) c)) =
      (be_value ((aes_counter_inc ^^ n) c) + 1) mod 2 ^ 128"
    using counter_inc_from_value [of 16 "(aes_counter_inc ^^ n) c"] by (simp add: aes_counter_inc_def)
  then show ?case by (simp add: Suc mod_simps)
qed (use be_value_less [of c] assms in simp)

lemma mod_add_cancel_small:
  assumes "(a + i) mod m = (a + j) mod (m :: nat)" "i < m" "j < m"
  shows "i = j"
proof -
  have "k = l" if "k \<le> l" "l < m" "(a + k) mod m = (a + l) mod m" for k l
  proof -
    have "m dvd (a + l) - (a + k)" using that using that mod_eq_dvd_iff_nat [of "a + k" "a + l" m] by simp
    then have "m dvd l - k" by simp
    then show ?thesis using that dvd_imp_le [of m "l - k"] by linarith
  qed
  then show ?thesis using assms by (metis nat_le_linear)
qed

lemma ctr_step_simps:
  "fst (ctr_step E inc ctr b) = xor_bytes b (E ctr)" "snd (ctr_step E inc ctr b) = inc ctr"
  by (simp_all add: ctr_step_def)

lemma ctr_stream_block:
  assumes "length iv = 16" "16 * i < length x"
  shows "take 16 (drop (16 * i) (block_stream (ctr_step (aes_E c) aes_counter_inc) iv x)) =
    xor_bytes (take 16 (drop (16 * i) x)) (aes_E c ((aes_counter_inc ^^ i) iv))"
  using assms
proof (induction x arbitrary: iv i rule: block_induct)
  case (short b)
  then show ?case using block_stream_block [of b "[]" "ctr_step (aes_E c) aes_counter_inc" iv]
    by (cases i) (simp_all add: ctr_step_simps)
next
  case (block b x)
  then show ?case using block_stream_block [of b x "ctr_step (aes_E c) aes_counter_inc" iv]
    by (cases i) (simp_all add: ctr_step_simps funpow_swap1)
qed simp

text \<open>
  Claim C23. CTR: the 16 output bytes of block \<open>i\<close> are the data XORed with the cipher of a counter block
  whose big-endian value is that of the IV plus \<open>i\<close>, modulo \<open>2 ^ 128\<close>; no call uses a counter block twice.
\<close>

theorem aes_ctr_counter_blocks:
  assumes "noxtls_aes_prepare_context (Some zero_aes_context) (Some key) type = (NOXTLS_RETURN_SUCCESS, Some c)"
    and "length x = unat len" "unat len \<le> 4294967280" "length out = unat len" and "16 \<le> length iv"
  shows "\<exists>ct counter. noxtls_aes_encrypt_ctr no_port (Some key) (Some x) len (Some iv) (Some out) type =
      Some (NOXTLS_RETURN_SUCCESS, Some ct) \<and>
    (\<forall>i. 16 * i < unat len \<longrightarrow>
      take 16 (drop (16 * i) ct) = xor_bytes (take 16 (drop (16 * i) x)) (aes_E c (counter i)) \<and>
      be_value (counter i) = (be_value (take 16 iv) + i) mod 2 ^ 128) \<and>
    inj_on counter {i. 16 * i < unat len}"
proof -
  let ?counter = "\<lambda>i. (aes_counter_inc ^^ i) (take 16 iv)"
  have iv: "length (take 16 iv) = 16" using assms(5) by simp
  have "inj_on ?counter {i. 16 * i < unat len}"
  proof (rule inj_onI)
    fix i j assume ij: "i \<in> {i. 16 * i < unat len}" "j \<in> {i. 16 * i < unat len}" and eq: "?counter i = ?counter j"
    have small: "i < 2 ^ 128" "j < 2 ^ 128" using ij assms(3) by simp_all
    have "(be_value (take 16 iv) + i) mod 2 ^ 128 = (be_value (take 16 iv) + j) mod 2 ^ 128"
      using counter_value [OF iv, of i] counter_value [OF iv, of j] unfolding eq by simp
    then show "i = j" using small mod_add_cancel_small by blast
  qed
  then show ?thesis
    using keystream_calls(1) [OF assms] ctr_stream_block [OF iv] counter_value [OF iv] assms(2)
    by (intro exI [of _ "block_stream (ctr_step (aes_E c) aes_counter_inc) (take 16 iv) x"] exI [of _ ?counter]) auto
qed

theorem aes_ctr_counter_blocks_witness:
  "\<exists>ct. noxtls_aes_encrypt_ctr no_port (Some (replicate 16 1)) (Some (replicate 40 7)) 40 (Some (replicate 16 255))
      (Some (replicate 40 0)) NOXTLS_AES_128_BIT = Some (NOXTLS_RETURN_SUCCESS, Some ct)"
proof -
  obtain c where c: "noxtls_aes_prepare_context (Some zero_aes_context) (Some (replicate 16 1)) NOXTLS_AES_128_BIT =
      (NOXTLS_RETURN_SUCCESS, Some c)"
    by (rule prepared [of NOXTLS_AES_128_BIT]) simp
  show ?thesis
    using aes_ctr_counter_blocks [OF c, of "replicate 40 7" 40 "replicate 40 0" "replicate 16 255"] by auto
qed

end
