(* ===== verification/Aes_Stream_Modes.thy ===== *)
theory Aes_Stream_Modes
  imports Aes_Stream Aes_Modes_Correct
begin

text \<open>
  What the loops of the streaming interface compute, and that every mode keeps their contract. The two
  loops of \<open>noxtls_aes_update\<close> rely on their mode through a contract each: \<open>block_mode\<close> for ECB and CBC,
  \<open>stream_mode\<close> for CTR, CFB and OFB.
\<close>

section \<open>State after a stretch of data\<close>

function stream_state :: "('s \<Rightarrow> bytes \<Rightarrow> bytes \<times> 's) \<Rightarrow> 's \<Rightarrow> bytes \<Rightarrow> 's" where
  "stream_state step st x =
     (if length x < 16 then st else stream_state step (snd (step st (take 16 x))) (drop 16 x))"
  by pat_completeness auto
termination stream_state
  by (relation "measure (\<lambda>(step, st, x). length x)") auto

declare stream_state.simps [simp del]

lemma stream_state_short [simp]: "length x < 16 \<Longrightarrow> stream_state step st x = st"
  by (simp add: stream_state.simps)

lemma stream_state_block:
  "length b = 16 \<Longrightarrow> stream_state step st (b @ x) = stream_state step (snd (step st b)) x"
  by (subst stream_state.simps) simp

definition wholes :: "bytes \<Rightarrow> nat" where
  "wholes x = length x div 16 * 16"

lemma wholes_simps [simp]:
  "length b = 16 \<Longrightarrow> wholes (b @ x) = 16 + wholes x" "length x < 16 \<Longrightarrow> wholes x = 0"
  "16 dvd wholes x"
  using div_add_self1 [of 16 "length x"] by (simp_all add: wholes_def)

lemma wholes_le: "wholes x \<le> length x" "length (drop (wholes x) x) < 16"
  by (simp_all add: wholes_def minus_div_mult_eq_mod)

lemma stream_split:
  "block_stream step st (x @ y) =
   block_stream step st (take (wholes x) x) @ block_stream step (stream_state step st x) (drop (wholes x) x @ y)"
proof (induction x arbitrary: st rule: block_induct)
  case (block b x)
  then show ?case
    using block_stream_block [of b "x @ y" step st] block_stream_block [of b "take (wholes x) x" step st]
    by (simp add: stream_state_block)
qed simp_all

lemma stream_state_append:
  "stream_state step st (x @ y) = stream_state step (stream_state step st x) (drop (wholes x) x @ y)"
proof (induction x arbitrary: st rule: block_induct)
  case (block b x)
  then show ?case by (simp add: stream_state_block)
qed simp_all

lemma take_wholes_stream:
  "block_stream step st (take (wholes (u @ y)) (u @ y)) = block_stream step st (take (wholes u) u) @
     block_stream step (stream_state step st u) (take (wholes (drop (wholes u) u @ y)) (drop (wholes u) u @ y))"
  "drop (wholes (u @ y)) (u @ y) = drop (wholes (drop (wholes u) u @ y)) (drop (wholes u) u @ y)"
proof (induction u arbitrary: st rule: block_induct)
  case (block b x)
  { case 1
    then show ?case
      using block(2) block_stream_block [of b "take (wholes (x @ y)) (x @ y)" step st]
        block_stream_block [of b "take (wholes x) x" step st] block(1)
      by (simp add: stream_state_block) }
  { case 2
    then show ?case using block by simp }
qed simp_all

section \<open>Block modes\<close>

text \<open>\<open>pends c r\<close>: the bytes \<open>r\<close> wait in the partial block.\<close>

definition pends :: "aes_context \<Rightarrow> bytes \<Rightarrow> bool" where
  "pends c r \<longleftrightarrow> length (ctx_partial c) = 16 \<and> length (ctx_feedback c) = 16 \<and> length r < 16 \<and>
     ctx_partial_len c = of_nat (length r) \<and> take (length r) (ctx_partial c) = r"

lemma stream_take_pending:
  assumes "length r < 16" "ctx_partial_len c = of_nat (length r)"
  shows "stream_take c data = min (length data) (16 - length r)"
proof -
  have l: "unat (ucast (ctx_partial_len c) :: u32) = length r"
    using assms by (simp add: unat_ucast_up unat_of_nat)
  have "unat (16 - ucast (ctx_partial_len c) :: u32) = 16 - length r"
    using assms(1) unat_sub [of "ucast (ctx_partial_len c)" "16 :: u32"] l by (simp add: word_le_nat_alt)
  then show ?thesis by (simp add: stream_take_def)
qed

lemma stream_fill_pending:
  assumes "length r < 16" "ctx_partial_len c = of_nat (length r)" "take (length r) (ctx_partial c) = r"
    "length (ctx_partial c) = 16"
  shows "ctx_partial_len (stream_fill c data) = of_nat (length (r @ take (stream_take c data) data))"
    "length (ctx_partial (stream_fill c data)) = 16"
    "take (length (r @ take (stream_take c data) data)) (ctx_partial (stream_fill c data)) = r @ take (stream_take c data) data"
proof -
  have l: "unat (of_nat (length r) :: u8) = length r" using assms by (simp add: unat_of_nat)
  note tk = stream_take_pending [OF assms(1,2), of data]
  show "ctx_partial_len (stream_fill c data) = of_nat (length (r @ take (stream_take c data) data))"
    using assms tk by (simp add: stream_fill_def)
  show "length (ctx_partial (stream_fill c data)) = 16"
    using assms tk by (simp add: stream_fill_def l put_at_def)
  show "take (length (r @ take (stream_take c data) data)) (ctx_partial (stream_fill c data)) = r @ take (stream_take c data) data"
    using assms tk by (simp add: stream_fill_def l put_at_def)
qed

locale block_mode =
  fixes step :: "bytes \<Rightarrow> bytes \<Rightarrow> bytes \<times> bytes" and holds :: "aes_context \<Rightarrow> bool"
  assumes modes: "holds c \<Longrightarrow> ctx_mode32 c = NOXTLS_AES_ECB \<or> ctx_mode32 c = NOXTLS_AES_CBC"
    and holds_keep: "holds (c\<lparr>ctx_partial := p, ctx_partial_len := l\<rparr>) = holds c"
      "holds (c\<lparr>ctx_feedback := f, ctx_partial_len := l\<rparr>) = holds c"
    and length_step: "length st = 16 \<Longrightarrow> length b = 16 \<Longrightarrow> length (fst (step st b)) = 16 \<and> length (snd (step st b)) = 16"
    and block: "holds c \<Longrightarrow> length (ctx_feedback c) = 16 \<Longrightarrow> length (ctx_partial c) = 16 \<Longrightarrow>
      unat off + 16 \<le> length out \<Longrightarrow> stream_block no_port c out off =
        (NOXTLS_RETURN_SUCCESS, c\<lparr>ctx_feedback := snd (step (ctx_feedback c) (ctx_partial c))\<rparr>,
         put_at (unat off) (fst (step (ctx_feedback c) (ctx_partial c))) out)"
begin

lemma length_whole_stream:
  "length st = 16 \<Longrightarrow> 16 dvd length x \<Longrightarrow> length (block_stream step st x) = length x"
proof (induction x arbitrary: st rule: block_induct)
  case (short b)
  then show ?case by (auto dest: dvd_imp_le)
next
  case (block b x)
  then show ?case using block_stream_block [of b x step st] length_step [of st b] by simp
qed simp

lemma length_take_wholes: "length st = 16 \<Longrightarrow> length (block_stream step st (take (wholes x) x)) = wholes x"
  using length_whole_stream [of st "take (wholes x) x"] wholes_le(1) [of x] by (simp add: min_absorb2)

lemma loop:
  assumes "holds c" "pends c r" "unat off + wholes (r @ data) \<le> length out"
    and "unat off + wholes (r @ data) < 2 ^ 32"
  shows "\<exists>c'. block_mode_loop no_port span c data out off =
      (NOXTLS_RETURN_SUCCESS, c',
       put_at (unat off) (block_stream step (ctx_feedback c) (take (wholes (r @ data)) (r @ data))) out,
       off + of_nat (wholes (r @ data))) \<and>
    holds c' \<and> pends c' (drop (wholes (r @ data)) (r @ data)) \<and>
    ctx_feedback c' = stream_state step (ctx_feedback c) (r @ data) \<and>
    ctx_initialized c' = ctx_initialized c"
  using assms
proof (induction "length data" arbitrary: c r data out off rule: less_induct)
  case less
  show ?case
  proof (cases "data = []")
    case True
    then show ?thesis using less.prems by (auto simp: block_mode_loop.simps pends_def)
  next
    case False
    have r: "length r < 16" "ctx_partial_len c = of_nat (length r)" "take (length r) (ctx_partial c) = r"
        "length (ctx_partial c) = 16" "length (ctx_feedback c) = 16"
      using less.prems(2) by (auto simp: pends_def)
    define tk where "tk = stream_take c data"
    have tk: "tk = min (length data) (16 - length r)" using stream_take_pending [OF r(1,2)] by (simp add: tk_def)
    define c1 where "c1 = stream_fill c data"
    have fill: "ctx_partial_len c1 = of_nat (length (r @ take tk data))" "length (ctx_partial c1) = 16"
        "take (length (r @ take tk data)) (ctx_partial c1) = r @ take tk data" "ctx_feedback c1 = ctx_feedback c"
        "holds c1" "ctx_initialized c1 = ctx_initialized c"
      using stream_fill_pending [OF r(1-4), of data, folded c1_def tk_def] less.prems(1)
      by (simp_all add: holds_keep c1_def stream_fill_def)
    show ?thesis
    proof (cases "length (r @ take tk data) = 16")
      case False
      then have all: "take tk data = data" "drop tk data = []" "length (r @ data) < 16" using tk r(1) by auto
      have "ctx_partial_len c1 \<noteq> 16"
        using all fill(1) by (simp add: word_unat_eq_iff unat_of_nat flip: of_nat_add)
      then have "block_mode_loop no_port span c data out off = (NOXTLS_RETURN_SUCCESS, c1, out, off)"
        using False \<open>data \<noteq> []\<close> all(2)
        by (simp add: block_mode_loop.simps [of _ _ c] block_mode_loop.simps [of _ _ c1] c1_def [symmetric]
            tk_def [symmetric])
      then show ?thesis
        using all fill r by (simp add: pends_def)
    next
      case True
      define b where "b = r @ take tk data"
      define rest where "rest = drop tk data"
      have b: "length b = 16" "ctx_partial c1 = b" "r @ data = b @ rest" "ctx_partial_len c1 = 16"
        using True fill(1,2,3) by (simp_all add: b_def rest_def)
      define c2 where "c2 = c1\<lparr>ctx_feedback := snd (step (ctx_feedback c) b), ctx_partial_len := 0\<rparr>"
      have lens: "length (fst (step (ctx_feedback c) b)) = 16" "length (snd (step (ctx_feedback c) b)) = 16"
        using length_step [OF r(5) b(1)] by simp_all
      have off: "unat (off + 16) = unat off + 16" using less.prems(4) b(1,3) by (simp add: unat_add_small)
      let ?out = "put_at (unat off) (fst (step (ctx_feedback c) b)) out"
      have step: "block_mode_loop no_port span c data out off = block_mode_loop no_port span c2 rest ?out (off + 16)"
        using \<open>data \<noteq> []\<close> b block [OF fill(5) _ fill(2), of off out] r(5) fill(4) less.prems(3)
        by (simp add: block_mode_loop.simps [of _ _ c] c1_def [symmetric] tk_def [symmetric] rest_def c2_def)
      have "length rest < length data" using True r(1) tk by (simp add: rest_def)
      moreover have "holds c2" "pends c2 []" "ctx_feedback c2 = snd (step (ctx_feedback c) b)"
          "ctx_initialized c2 = ctx_initialized c"
        using fill lens by (simp_all add: c2_def pends_def holds_keep)
      moreover have "unat (off + 16) + wholes ([] @ rest) \<le> length ?out" "unat (off + 16) + wholes ([] @ rest) < 2 ^ 32"
        using less.prems(3,4) b(1,3) lens off by simp_all
      ultimately obtain c' where c': "block_mode_loop no_port span c2 rest ?out (off + 16) = (NOXTLS_RETURN_SUCCESS, c',
          put_at (unat (off + 16)) (block_stream step (snd (step (ctx_feedback c) b)) (take (wholes rest) rest)) ?out,
          off + 16 + of_nat (wholes rest))" "holds c'" "pends c' (drop (wholes rest) rest)"
          "ctx_feedback c' = stream_state step (snd (step (ctx_feedback c) b)) rest" "ctx_initialized c' = ctx_initialized c"
        using less.hyps [of rest c2 "[]" "off + 16" ?out] by auto
      have "put_at (unat (off + 16)) (block_stream step (snd (step (ctx_feedback c) b)) (take (wholes rest) rest)) ?out =
          put_at (unat off) (block_stream step (ctx_feedback c) (b @ take (wholes rest) rest)) out"
        using put_at_append [of "unat off" "fst (step (ctx_feedback c) b)"] lens b(1) off less.prems(3) b(3)
          block_stream_block [of b "take (wholes rest) rest" step "ctx_feedback c"]
          length_whole_stream [of "snd (step (ctx_feedback c) b)" "take (wholes rest) rest"] wholes_le(1) [of rest]
        by (simp add: min_absorb2)
      then show ?thesis using c' b(1,3) step by (simp add: stream_state_block add.assoc)
    qed
  qed
qed

lemma update:
  assumes "holds c" "pends c r" "ctx_initialized c \<noteq> 0" "length x + 16 < 2 ^ 32"
  shows "\<exists>c' out n. noxtls_aes_update no_port (Some c) (Some x) (of_nat (length x)) (Some (replicate (length x + 16) 0))
      (Some 0) = (NOXTLS_RETURN_SUCCESS, Some c', Some out, Some n) \<and>
    take (unat n) out = block_stream step (ctx_feedback c) (take (wholes (r @ x)) (r @ x)) \<and>
    holds c' \<and> pends c' (drop (wholes (r @ x)) (r @ x)) \<and>
    ctx_feedback c' = stream_state step (ctx_feedback c) (r @ x) \<and> ctx_initialized c' \<noteq> 0"
proof (cases "x = []")
  case True
  then show ?thesis using assms by (simp add: noxtls_aes_update_def pends_def)
next
  case False
  have len: "unat (of_nat (length x) :: u32) = length x" using assms(4) by (simp add: unat_of_nat)
  then have nz: "(of_nat (length x) :: u32) \<noteq> 0" using False by (metis length_0_conv unsigned_0)
  have pl: "unat (ctx_partial_len c) = length r" "length r < 16" "length (ctx_feedback c) = 16"
    using assms(2) by (auto simp: pends_def unat_of_nat)
  then have fits: "\<not> NOXTLS_AES_BLOCK_LENGTH < unat (ctx_partial_len c)"
      "\<not> (of_nat (length x) :: u32) > 0xFFFFFFFF - ucast (ctx_partial_len c)"
    using assms(4) len unat_sub [of "ucast (ctx_partial_len c)" "0xFFFFFFFF :: u32"]
    by (simp_all add: NOXTLS_AES_BLOCK_LENGTH_def word_less_nat_alt word_le_nat_alt unat_ucast_up)
  have w: "wholes (r @ x) \<le> length x + 16" "wholes (r @ x) < 2 ^ 32"
    using wholes_le(1) [of "r @ x"] pl(2) assms(4) by simp_all
  let ?span = "(of_nat (length x) + ucast (ctx_partial_len c)) div 16 * 16"
  obtain c' where c': "block_mode_loop no_port ?span c x (replicate (length x + 16) 0) 0 = (NOXTLS_RETURN_SUCCESS, c',
      put_at 0 (block_stream step (ctx_feedback c) (take (wholes (r @ x)) (r @ x))) (replicate (length x + 16) 0),
      of_nat (wholes (r @ x)))" "holds c'" "pends c' (drop (wholes (r @ x)) (r @ x))"
      "ctx_feedback c' = stream_state step (ctx_feedback c) (r @ x)" "ctx_initialized c' = ctx_initialized c"
    using loop [OF assms(1,2), of 0 x "replicate (length x + 16) 0" ?span] w by auto
  have "length (block_stream step (ctx_feedback c) (take (wholes (r @ x)) (r @ x))) = wholes (r @ x)"
    by (rule length_take_wholes [OF pl(3)])
  moreover have "unat (of_nat (wholes (r @ x)) :: u32) = wholes (r @ x)"
    using w(2) by (simp add: unat_of_nat)
  ultimately show ?thesis
    using c' assms(3) nz fits modes [OF assms(1)] len
    by (simp add: noxtls_aes_update_def put_at_def Let_def)
qed

lemma updates:
  assumes "holds c" "pends c r" "ctx_initialized c \<noteq> 0" "\<forall>x\<in>set xs. length x + 16 < 2 ^ 32"
  shows "\<exists>c'. stream_updates no_port c xs =
      Some (c', block_stream step (ctx_feedback c) (take (wholes (r @ concat xs)) (r @ concat xs))) \<and>
    holds c' \<and> pends c' (drop (wholes (r @ concat xs)) (r @ concat xs)) \<and>
    ctx_feedback c' = stream_state step (ctx_feedback c) (r @ concat xs) \<and> ctx_initialized c' \<noteq> 0"
  using assms
proof (induction xs arbitrary: c r)
  case Nil
  then show ?case by (simp add: pends_def)
next
  case (Cons x xs)
  have "length x + 16 < 2 ^ 32" using Cons.prems(4) by simp
  from update [OF Cons.prems(1-3) this] obtain c1 out n where c1:
    "noxtls_aes_update no_port (Some c) (Some x) (of_nat (length x)) (Some (replicate (length x + 16) 0)) (Some 0) =
      (NOXTLS_RETURN_SUCCESS, Some c1, Some out, Some n)"
    "take (unat n) out = block_stream step (ctx_feedback c) (take (wholes (r @ x)) (r @ x))"
    "holds c1" "pends c1 (drop (wholes (r @ x)) (r @ x))"
    "ctx_feedback c1 = stream_state step (ctx_feedback c) (r @ x)" "ctx_initialized c1 \<noteq> 0" by blast
  have "\<forall>x\<in>set xs. length x + 16 < 2 ^ 32" using Cons.prems(4) by simp
  from Cons.IH [OF c1(3,4,6) this] obtain c2 where
    "stream_updates no_port c1 xs = Some (c2, block_stream step (stream_state step (ctx_feedback c) (r @ x))
       (take (wholes (drop (wholes (r @ x)) (r @ x) @ concat xs)) (drop (wholes (r @ x)) (r @ x) @ concat xs)))"
    "holds c2" "pends c2 (drop (wholes (r @ x @ concat xs)) (r @ x @ concat xs))"
    "ctx_feedback c2 = stream_state step (ctx_feedback c) (r @ x @ concat xs)" "ctx_initialized c2 \<noteq> 0"
    using take_wholes_stream(2) [of "r @ x" "concat xs"] stream_state_append [of step "ctx_feedback c" "r @ x" "concat xs"]
    unfolding c1(5) by auto
  then show ?case using c1(1,2) take_wholes_stream(1) [of step "ctx_feedback c" "r @ x" "concat xs"] by simp
qed

end

section \<open>Stream modes\<close>

lemmas aes_mode_values = NOXTLS_AES_ECB_def NOXTLS_AES_CBC_def NOXTLS_AES_CTR_def NOXTLS_AES_CFB_def NOXTLS_AES_OFB_def

lemma drop_xor_bytes:
  "length r + length d \<le> length k \<Longrightarrow> drop (length r) (xor_bytes (r @ d) k) = xor_bytes d (drop (length r) k)"
  by (intro nth_equalityI) (auto simp: nth_append)

definition ks_step :: "(bytes \<Rightarrow> bytes) \<Rightarrow> (bytes \<Rightarrow> bytes \<Rightarrow> bytes) \<Rightarrow> bytes \<Rightarrow> bytes \<Rightarrow> bytes \<times> bytes" where
  "ks_step ks fb st b = (xor_bytes b (ks st), fb st b)"

lemma ks_step_simps [simp]: "fst (ks_step ks fb st b) = xor_bytes b (ks st)" "snd (ks_step ks fb st b) = fb st b"
  by (simp_all add: ks_step_def)

text \<open>
  \<open>sync ks fb c st r\<close>: the current block began in state \<open>st\<close> and \<open>r\<close> of it is consumed. At a block
  boundary the keystream is not generated yet.
\<close>

definition sync :: "(bytes \<Rightarrow> bytes) \<Rightarrow> (bytes \<Rightarrow> bytes \<Rightarrow> bytes) \<Rightarrow> aes_context \<Rightarrow> bytes \<Rightarrow> bytes \<Rightarrow> bool" where
  "sync ks fb c st r \<longleftrightarrow> length r < 16 \<and> length st = 16 \<and> length (ctx_partial c) = 16 \<and>
     (if r = [] then ctx_partial_len c = 16 \<and> ctx_feedback c = st
      else ctx_partial_len c = of_nat (length r) \<and> ctx_partial c = ks st \<and> ctx_feedback c = fb st r)"

locale stream_mode =
  fixes ks :: "bytes \<Rightarrow> bytes" and fb :: "bytes \<Rightarrow> bytes \<Rightarrow> bytes" and holds :: "aes_context \<Rightarrow> bool"
  assumes modes: "holds c \<Longrightarrow>
      ctx_mode32 c = NOXTLS_AES_CTR \<or> ctx_mode32 c = NOXTLS_AES_CFB \<or> ctx_mode32 c = NOXTLS_AES_OFB"
    and holds_keep: "holds (c\<lparr>ctx_feedback := f, ctx_partial_len := l\<rparr>) = holds c"
      "holds (c\<lparr>ctx_feedback := f, ctx_partial := p, ctx_partial_len := l\<rparr>) = holds c"
    and length_ks: "length st = 16 \<Longrightarrow> length (ks st) = 16"
    and length_fb: "length st = 16 \<Longrightarrow> length b \<le> 16 \<Longrightarrow> length (fb st b) = 16"
    and refill: "holds c \<Longrightarrow> length (ctx_feedback c) = 16 \<Longrightarrow> length (ctx_partial c) = 16 \<Longrightarrow>
      stream_refill no_port c = (NOXTLS_RETURN_SUCCESS,
        c\<lparr>ctx_feedback := fb (ctx_feedback c) [], ctx_partial := ks (ctx_feedback c), ctx_partial_len := 0\<rparr>)"
    and consume: "holds c \<Longrightarrow> length st = 16 \<Longrightarrow> ctx_feedback c = fb st r \<Longrightarrow> ctx_partial c = ks st \<Longrightarrow>
      length r < 16 \<Longrightarrow> ctx_partial_len c = of_nat (length r) \<Longrightarrow> d = take (16 - length r) data \<Longrightarrow>
      unat off + length d \<le> length out \<Longrightarrow> stream_consume c data out off =
        (c\<lparr>ctx_feedback := fb st (r @ d), ctx_partial_len := of_nat (length r + length d)\<rparr>,
         put_at (unat off) (xor_bytes d (drop (length r) (ks st))) out)"
begin

lemma stream_len: "length st = 16 \<Longrightarrow> length (block_stream (ks_step ks fb) st x) = length x"
proof (induction x arbitrary: st rule: block_induct)
  case (short b)
  then show ?case using block_stream_block [of b "[]" "ks_step ks fb" st] by (simp add: length_ks)
next
  case (block b x)
  then show ?case using block_stream_block [of b x "ks_step ks fb" st] by (simp add: length_ks length_fb)
qed simp

lemma stream_prefix: "length st = 16 \<Longrightarrow> take (length x) (block_stream (ks_step ks fb) st (x @ y)) = block_stream (ks_step ks fb) st x"
proof (induction x arbitrary: st rule: block_induct)
  case (short b)
  define t where "t = take (16 - length b) y"
  have split: "b @ y = (b @ t) @ drop (16 - length b) y" by (simp add: t_def)
  have l: "length (b @ t) = 16 \<or> drop (16 - length b) y = [] \<and> length (b @ t) < 16"
    using short by (auto simp: t_def)
  have "block_stream (ks_step ks fb) st (b @ y) = xor_bytes (b @ t) (ks st) @
      block_stream (ks_step ks fb) (fb st (b @ t)) (drop (16 - length b) y)"
    unfolding split using block_stream_block [OF _ l, of "ks_step ks fb" st] short(1) by simp
  moreover have "block_stream (ks_step ks fb) st b = xor_bytes b (ks st)"
    using block_stream_block [of b "[]" "ks_step ks fb" st] short by simp
  ultimately show ?case using short l by (intro nth_equalityI) (auto simp: length_ks nth_append)
next
  case (block b x)
  then show ?case using block_stream_block [of b "x @ y" "ks_step ks fb" st] block_stream_block [of b x "ks_step ks fb" st]
    by (simp add: length_ks length_fb)
qed simp

lemma loop:
  assumes "holds c" "sync ks fb c st r" "unat off + length data \<le> length out" "unat off + length data < 2 ^ 32"
  shows "\<exists>c'. stream_mode_loop no_port span c data out off =
      (NOXTLS_RETURN_SUCCESS, c',
       put_at (unat off) (drop (length r) (block_stream (ks_step ks fb) st (r @ data))) out, off + of_nat (length data)) \<and>
    holds c' \<and> sync ks fb c' (stream_state (ks_step ks fb) st (r @ data)) (drop (wholes (r @ data)) (r @ data)) \<and>
    ctx_initialized c' = ctx_initialized c"
  using assms
proof (induction "length data" arbitrary: c st r data out off rule: less_induct)
  case less
  have r: "length r < 16" "length st = 16" "length (ctx_partial c) = 16" using less.prems(2) by (simp_all add: sync_def)
  show ?case
  proof (cases "data = []")
    case True
    then show ?thesis using less.prems r by (simp add: stream_mode_loop.simps stream_len)
  next
    case False
    define c1 where "c1 = (if r = [] then c\<lparr>ctx_feedback := fb st [], ctx_partial := ks st, ctx_partial_len := 0\<rparr> else c)"
    have refilled: "(if ctx_partial_len c = 16 then stream_refill no_port c else (NOXTLS_RETURN_SUCCESS, c)) =
        (NOXTLS_RETURN_SUCCESS, c1)"
    proof (cases "r = []")
      case True
      then show ?thesis using refill [OF less.prems(1)] less.prems(2) by (simp add: sync_def c1_def)
    next
      case False
      then have "ctx_partial_len c \<noteq> 16"
        using less.prems(2) by (simp add: sync_def word_unat_eq_iff unat_of_nat)
      then show ?thesis using False by (simp add: c1_def)
    qed
    have c1: "holds c1" "ctx_feedback c1 = fb st r" "ctx_partial c1 = ks st" "ctx_partial_len c1 = of_nat (length r)"
        "ctx_initialized c1 = ctx_initialized c"
      using less.prems(1,2) by (auto simp: c1_def sync_def holds_keep)
    define d where "d = take (16 - length r) data"
    have tk: "stream_take c1 data = length d"
      using stream_take_pending [OF r(1) c1(4), of data] by (simp add: d_def)
    define rest where "rest = drop (length d) data"
    have data: "data = d @ rest" "d \<noteq> []" "length d \<le> 16 - length r"
        "length (r @ d) = 16 \<or> rest = [] \<and> length (r @ d) < 16"
      using \<open>data \<noteq> []\<close> r(1) by (auto simp: d_def rest_def min_def)
    define c2 where "c2 = c1\<lparr>ctx_feedback := fb st (r @ d), ctx_partial_len := of_nat (length r + length d)\<rparr>"
    let ?y = "xor_bytes d (drop (length r) (ks st))"
    let ?out = "put_at (unat off) ?y out"
    have y: "length ?y = length d" "length ?out = length out"
      using data(1,3) r(1,2) less.prems(3) by (simp_all add: length_ks min_def)
    have off: "unat (off + of_nat (length d)) = unat off + length d"
      using less.prems(4) data(1) by (simp add: unat_add_small unat_of_nat)
    have "unat off + length d \<le> length out" using less.prems(3) data(1) by simp
    from consume [OF c1(1) r(2) c1(2,3) r(1) c1(4) d_def this]
    have cons: "stream_consume c1 data out off = (c2, ?out)" by (simp only: c2_def)
    have walk: "stream_mode_loop no_port span c data out off = stream_mode_loop no_port span c2 rest ?out (off + of_nat (length d))"
      using \<open>data \<noteq> []\<close> cons
      by (simp add: stream_mode_loop.simps [of _ _ c] refilled tk rest_def [symmetric])
    have head: "drop (length r) (block_stream (ks_step ks fb) st (r @ data)) = ?y @ block_stream (ks_step ks fb) (fb st (r @ d)) rest"
    proof -
      have "block_stream (ks_step ks fb) st (r @ data) = xor_bytes (r @ d) (ks st) @ block_stream (ks_step ks fb) (fb st (r @ d)) rest"
        using block_stream_block [of "r @ d" rest "ks_step ks fb" st] data by simp
      then show ?thesis using r data(3) by (simp add: drop_xor_bytes length_ks)
    qed
    have c2: "holds c2" "ctx_initialized c2 = ctx_initialized c" using c1 by (simp_all add: c2_def holds_keep)
    have partial: "ctx_partial c2 = ks st" using c1(3) by (simp add: c2_def)
    show ?thesis
    proof (cases "length (r @ d) = 16")
      case True
      have "length rest < length data" using data(1,2) by simp
      moreover have "sync ks fb c2 (fb st (r @ d)) []"
        using True r partial by (simp add: sync_def c2_def length_ks length_fb)
      moreover have "unat (off + of_nat (length d)) + length rest \<le> length ?out"
          "unat (off + of_nat (length d)) + length rest < 2 ^ 32"
        using less.prems(3,4) data(1) off y by simp_all
      ultimately obtain c' where c': "stream_mode_loop no_port span c2 rest ?out (off + of_nat (length d)) =
          (NOXTLS_RETURN_SUCCESS, c',
           put_at (unat off + length d) (block_stream (ks_step ks fb) (fb st (r @ d)) rest) ?out,
           off + of_nat (length d) + of_nat (length rest))"
          "holds c'" "sync ks fb c' (stream_state (ks_step ks fb) (fb st (r @ d)) rest) (drop (wholes rest) rest)"
          "ctx_initialized c' = ctx_initialized c"
        using less.hyps [OF _ c2(1), of rest "fb st (r @ d)" "[]" "off + of_nat (length d)" ?out] off c2(2) by auto
      have "put_at (unat off + length d) (block_stream (ks_step ks fb) (fb st (r @ d)) rest) ?out =
          put_at (unat off) (drop (length r) (block_stream (ks_step ks fb) st (r @ data))) out"
        using put_at_append [of "unat off" ?y "block_stream (ks_step ks fb) (fb st (r @ d)) rest" out] y(1)
          less.prems(3) data(1) stream_len [of "fb st (r @ d)" rest] True r(2) unfolding head
        by (simp add: length_fb)
      moreover have "r @ data = (r @ d) @ rest" using data(1) by simp
      ultimately show ?thesis
        using walk c' stream_state_block [OF True, of "ks_step ks fb" st rest] wholes_simps(1) [OF True, of rest] True data(1)
        by (simp add: add.assoc)
    next
      case False
      then have e: "rest = []" "length (r @ d) < 16" "data = d" using data by auto
      have "sync ks fb c2 st (r @ d)"
        using e data(2) r partial by (simp add: sync_def c2_def length_ks)
      moreover have "stream_mode_loop no_port span c2 rest ?out (off + of_nat (length d)) =
          (NOXTLS_RETURN_SUCCESS, c2, ?out, off + of_nat (length d))"
        by (simp add: stream_mode_loop.simps [of _ _ c2] e)
      ultimately show ?thesis using walk c2 e head by simp
    qed
  qed
qed

lemma update:
  assumes "holds c" "sync ks fb c st r" "ctx_initialized c \<noteq> 0" "length x + 16 < 2 ^ 32"
  shows "\<exists>c' out n. noxtls_aes_update no_port (Some c) (Some x) (of_nat (length x)) (Some (replicate (length x + 16) 0))
      (Some 0) = (NOXTLS_RETURN_SUCCESS, Some c', Some out, Some n) \<and>
    take (unat n) out = drop (length r) (block_stream (ks_step ks fb) st (r @ x)) \<and>
    holds c' \<and> sync ks fb c' (stream_state (ks_step ks fb) st (r @ x)) (drop (wholes (r @ x)) (r @ x)) \<and>
    ctx_initialized c' \<noteq> 0"
proof (cases "x = []")
  case True
  then show ?thesis using assms by (simp add: noxtls_aes_update_def sync_def stream_len)
next
  case False
  have len: "unat (of_nat (length x) :: u32) = length x" using assms(4) by (simp add: unat_of_nat)
  then have nz: "(of_nat (length x) :: u32) \<noteq> 0" using False by (metis length_0_conv unsigned_0)
  have st: "length st = 16" "unat (ctx_partial_len c) \<le> 16"
    using assms(2) by (auto simp: sync_def unat_of_nat split: if_splits)
  then have fits: "\<not> NOXTLS_AES_BLOCK_LENGTH < unat (ctx_partial_len c)"
      "\<not> (of_nat (length x) :: u32) > 0xFFFFFFFF - ucast (ctx_partial_len c)"
    using assms(4) len unat_sub [of "ucast (ctx_partial_len c)" "0xFFFFFFFF :: u32"]
    by (simp_all add: NOXTLS_AES_BLOCK_LENGTH_def word_less_nat_alt word_le_nat_alt unat_ucast_up)
  have mode: "\<not> (ctx_mode32 c = NOXTLS_AES_ECB \<or> ctx_mode32 c = NOXTLS_AES_CBC)"
    using modes [OF assms(1)] by (auto simp: aes_mode_values)
  let ?y = "drop (length r) (block_stream (ks_step ks fb) st (r @ x))"
  obtain c' where c': "stream_mode_loop no_port (of_nat (length x)) c x (replicate (length x + 16) 0) 0 =
      (NOXTLS_RETURN_SUCCESS, c', put_at 0 ?y (replicate (length x + 16) 0), of_nat (length x))"
      "holds c'" "sync ks fb c' (stream_state (ks_step ks fb) st (r @ x)) (drop (wholes (r @ x)) (r @ x))"
      "ctx_initialized c' = ctx_initialized c"
    using loop [OF assms(1,2), of 0 x "replicate (length x + 16) 0" "of_nat (length x)"] assms(4) by auto
  have "length ?y = length x" using stream_len [OF st(1), of "r @ x"] by simp
  then show ?thesis
    using c' assms(3) nz fits mode modes [OF assms(1)] len
    by (simp add: noxtls_aes_update_def put_at_def Let_def)
qed

lemma updates:
  assumes "holds c" "sync ks fb c st r" "ctx_initialized c \<noteq> 0" "\<forall>x\<in>set xs. length x + 16 < 2 ^ 32"
  shows "\<exists>c'. stream_updates no_port c xs =
      Some (c', drop (length r) (block_stream (ks_step ks fb) st (r @ concat xs))) \<and>
    holds c' \<and> ctx_initialized c' \<noteq> 0"
  using assms
proof (induction xs arbitrary: c st r)
  case Nil
  then show ?case by (simp add: sync_def stream_len)
next
  case (Cons x xs)
  have "length x + 16 < 2 ^ 32" using Cons.prems(4) by simp
  from update [OF Cons.prems(1-3) this] obtain c1 out n where c1:
    "noxtls_aes_update no_port (Some c) (Some x) (of_nat (length x)) (Some (replicate (length x + 16) 0)) (Some 0) =
      (NOXTLS_RETURN_SUCCESS, Some c1, Some out, Some n)"
    "take (unat n) out = drop (length r) (block_stream (ks_step ks fb) st (r @ x))"
    "holds c1" "sync ks fb c1 (stream_state (ks_step ks fb) st (r @ x)) (drop (wholes (r @ x)) (r @ x))"
    "ctx_initialized c1 \<noteq> 0" by blast
  let ?u = "r @ x" and ?s = "block_stream (ks_step ks fb)"
  let ?st = "stream_state (ks_step ks fb) st ?u" and ?t = "drop (wholes ?u) ?u"
  have "\<forall>x\<in>set xs. length x + 16 < 2 ^ 32" using Cons.prems(4) by simp
  from Cons.IH [OF c1(3-5) this] obtain c2 where c2:
    "stream_updates no_port c1 xs = Some (c2, drop (length ?t) (?s ?st (?t @ concat xs)))" "holds c2" "ctx_initialized c2 \<noteq> 0"
    by blast
  have st: "length st = 16" using Cons.prems(2) by (simp add: sync_def)
  have "drop (length ?u) (?s st (?u @ concat xs)) = drop (length ?t) (?s ?st (?t @ concat xs))"
  proof -
    have "length (?s st (take (wholes ?u) ?u)) = wholes ?u"
      using stream_len [OF st, of "take (wholes ?u) ?u"] wholes_le(1) [of ?u] by (simp only: length_take min_absorb2)
    moreover have "length ?u - wholes ?u = length ?t" by (simp only: length_drop)
    ultimately show ?thesis
      unfolding stream_split [of _ st ?u "concat xs"] using wholes_le(1) [of ?u] by (simp only: drop_append) simp
  qed
  with stream_prefix [OF st, of ?u "concat xs"] append_take_drop_id [of "length ?u" "?s st (?u @ concat xs)"]
  have whole: "?s st (?u @ concat xs) = ?s st ?u @ drop (length ?t) (?s ?st (?t @ concat xs))" by metis
  have "length r \<le> length (?s st ?u)" using stream_len [OF st, of ?u] by simp
  then have "drop (length r) (?s st (r @ concat (x # xs))) =
      drop (length r) (?s st ?u) @ drop (length ?t) (?s ?st (?t @ concat xs))"
    using whole by (simp only: concat.simps append_assoc drop_append) simp
  then show ?case using c1(1,2) c2 by simp
qed

end

section \<open>The modes keep the contracts\<close>

definition in_mode :: "aes_context \<Rightarrow> u32 \<Rightarrow> u32 \<Rightarrow> aes_context \<Rightarrow> bool" where
  "in_mode k mode op c \<longleftrightarrow> ctx_round_keys c = ctx_round_keys k \<and> ctx_rounds c = ctx_rounds k \<and>
     ctx_round_keys_ready c \<noteq> 0 \<and> ctx_mode32 c = mode \<and> ctx_op32 c = op"

lemmas op_values = NOXTLS_AES_OP_ENCRYPT_def NOXTLS_AES_OP_DECRYPT_def

interpretation ecb_enc: block_mode "\<lambda>st b. (aes_E k b, st)" "in_mode k NOXTLS_AES_ECB NOXTLS_AES_OP_ENCRYPT" for k
  by unfold_locales (auto simp: in_mode_def stream_block_def encrypt_block_ctx)

interpretation ecb_dec: block_mode "\<lambda>st b. (aes_D k b, st)" "in_mode k NOXTLS_AES_ECB NOXTLS_AES_OP_DECRYPT" for k
  by unfold_locales (auto simp: in_mode_def stream_block_def decrypt_block_ctx op_values)

interpretation cbc_enc: block_mode "cbc_step (aes_E k)" "in_mode k NOXTLS_AES_CBC NOXTLS_AES_OP_ENCRYPT" for k
  by unfold_locales (auto simp: in_mode_def stream_block_def encrypt_block_ctx aes_mode_values cbc_step_simps)

interpretation cbc_dec: block_mode "cbc_inv_step (aes_D k)" "in_mode k NOXTLS_AES_CBC NOXTLS_AES_OP_DECRYPT" for k
  by unfold_locales (auto simp: in_mode_def stream_block_def decrypt_block_ctx op_values aes_mode_values cbc_step_simps)

lemma byte_loop_output:
  assumes "ctx_mode32 c \<noteq> NOXTLS_AES_CFB" "off + n \<le> length out"
  shows "foldl (stream_byte c data off) (f, out) [0..<n] =
    (f, put_at off (map (\<lambda>i. data ! i XOR ctx_partial c ! (unat (ctx_partial_len c) + i)) [0..<n]) out)"
  using assms(2)
proof (induction n)
  case (Suc n)
  then show ?case
    using assms(1) by (simp add: stream_byte_def put_at_def list_update_append Suc_diff_le
        drop_update_cancel Cons_nth_drop_Suc [symmetric])
qed simp

lemma shift_feedback:
  assumes "length f = 16"
  shows "(noxtls_move_u8 f 0 16 1 (16 - 1))[16 - 1 := b] = drop 1 f @ [b]"
proof (rule nth_equalityI)
  have w: "noxtls_move_u8 f 0 16 1 (16 - 1) = foldl (\<lambda>m i. m[0 + i := m ! (1 + i)]) f [0..<15]"
    by (simp add: noxtls_move_u8_def)
  note move = move_ascending [of 0 1 15 f, folded w]
  show "length ((noxtls_move_u8 f 0 16 1 (16 - 1))[16 - 1 := b]) = length (drop 1 f @ [b])"
    using move assms by simp
  fix i assume "i < length ((noxtls_move_u8 f 0 16 1 (16 - 1))[16 - 1 := b])"
  then show "(noxtls_move_u8 f 0 16 1 (16 - 1))[16 - 1 := b] ! i = (drop 1 f @ [b]) ! i"
    using move assms by (auto simp: nth_append nth_list_update)
qed

lemma byte_loop_cfb:
  assumes "ctx_mode32 c = NOXTLS_AES_CFB" "off + n \<le> length out" "length f = 16" "n \<le> 16"
  shows "foldl (stream_byte c data off) (f, out) [0..<n] =
    (drop n f @ map (\<lambda>i. if ctx_op32 c = NOXTLS_AES_OP_ENCRYPT
        then data ! i XOR ctx_partial c ! (unat (ctx_partial_len c) + i) else data ! i) [0..<n],
     put_at off (map (\<lambda>i. data ! i XOR ctx_partial c ! (unat (ctx_partial_len c) + i)) [0..<n]) out)"
  using assms(2,4)
proof (induction n)
  case (Suc n)
  let ?g = "\<lambda>i. if ctx_op32 c = NOXTLS_AES_OP_ENCRYPT
        then data ! i XOR ctx_partial c ! (unat (ctx_partial_len c) + i) else data ! i"
  have "length (drop n f @ map ?g [0..<n]) = 16" using assms(3) Suc.prems by simp
  from shift_feedback [OF this]
  have "(noxtls_move_u8 (drop n f @ map ?g [0..<n]) 0 16 1 (16 - 1))[16 - 1 := ?g n] = drop (Suc n) f @ map ?g [0..<Suc n]"
    using assms(3) Suc.prems by simp
  then show ?case
    using Suc assms(1) by (simp add: stream_byte_def put_at_def list_update_append Suc_diff_le
        drop_update_cancel Cons_nth_drop_Suc [symmetric] Let_def cong: if_cong)
qed simp

lemma map_xor_upt:
  "n \<le> length data \<Longrightarrow> p + n \<le> length k \<Longrightarrow>
   map (\<lambda>i. data ! i XOR k ! (p + i)) [0..<n] = xor_bytes (take n data) (drop p k)"
  "n \<le> length data \<Longrightarrow> map ((!) data) [0..<n] = take n data"
  by (auto intro!: nth_equalityI)

lemma consume_plain:
  assumes "ctx_mode32 c \<noteq> NOXTLS_AES_CFB" "length (ctx_partial c) = 16" "length r < 16"
    and "ctx_partial_len c = of_nat (length r)" "d = take (16 - length r) data" "unat off + length d \<le> length out"
  shows "stream_consume c data out off =
    (c\<lparr>ctx_partial_len := of_nat (length r + length d)\<rparr>,
     put_at (unat off) (xor_bytes d (drop (length r) (ctx_partial c))) out)"
proof -
  have tk: "stream_take c data = length d" and l: "unat (of_nat (length r) :: u8) = length r"
    using stream_take_pending [OF assms(3,4)] assms(3,5) by (simp_all add: unat_of_nat)
  have "take (length d) data = d" using assms(5) by (simp add: min_def)
  then show ?thesis
    using byte_loop_output [OF assms(1,6)] map_xor_upt(1) [of "length d" data "length r" "ctx_partial c"] assms(2-5)
    by (simp add: stream_consume_def tk l)
qed

lemma consume_cfb:
  assumes "ctx_mode32 c = NOXTLS_AES_CFB" "length (ctx_partial c) = 16" "length r < 16"
    and "ctx_partial_len c = of_nat (length r)" "d = take (16 - length r) data" "unat off + length d \<le> length out"
    and "length (ctx_feedback c) = 16"
  shows "stream_consume c data out off =
    (c\<lparr>ctx_feedback := drop (length d) (ctx_feedback c) @
         (if ctx_op32 c = NOXTLS_AES_OP_ENCRYPT then xor_bytes d (drop (length r) (ctx_partial c)) else d),
       ctx_partial_len := of_nat (length r + length d)\<rparr>,
     put_at (unat off) (xor_bytes d (drop (length r) (ctx_partial c))) out)"
proof -
  have tk: "stream_take c data = length d" and l: "unat (of_nat (length r) :: u8) = length r"
    using stream_take_pending [OF assms(3,4)] assms(3,5) by (simp_all add: unat_of_nat)
  have d: "take (length d) data = d" "length d \<le> 16" "length d \<le> length data" "length r + length d \<le> 16"
    using assms(3,5) by (auto simp: min_def)
  show ?thesis
    using byte_loop_cfb [OF assms(1,6,7) d(2), where data = data] d assms(2,4)
      map_xor_upt(1) [of "length d" data "length r" "ctx_partial c"] map_xor_upt(2) [of "length d" data]
    by (simp add: stream_consume_def tk l)
qed

interpretation ctr: stream_mode "aes_E k" "\<lambda>st b. aes_counter_inc st" "in_mode k NOXTLS_AES_CTR op" for k op
  by unfold_locales (auto simp: in_mode_def stream_refill_def encrypt_block_ctx Let_def consume_plain aes_mode_values)

interpretation ofb: stream_mode "aes_E k" "\<lambda>st b. aes_E k st" "in_mode k NOXTLS_AES_OFB op" for k op
  by unfold_locales (auto simp: in_mode_def stream_refill_def encrypt_block_ctx Let_def consume_plain aes_mode_values)

lemma xor_bytes_append:
  "length r + length d \<le> length k \<Longrightarrow> xor_bytes (r @ d) k = xor_bytes r k @ xor_bytes d (drop (length r) k)"
  by (intro nth_equalityI) (auto simp: nth_append)

interpretation cfb_enc: stream_mode "aes_E k" "\<lambda>st b. drop (length b) st @ xor_bytes b (aes_E k st)"
    "in_mode k NOXTLS_AES_CFB NOXTLS_AES_OP_ENCRYPT" for k
  by unfold_locales (auto simp: in_mode_def stream_refill_def encrypt_block_ctx Let_def consume_cfb aes_mode_values xor_bytes_append add.commute)

interpretation cfb_dec: stream_mode "aes_E k" "\<lambda>st b. drop (length b) st @ b"
    "in_mode k NOXTLS_AES_CFB NOXTLS_AES_OP_DECRYPT" for k
  by unfold_locales (auto simp: in_mode_def stream_refill_def encrypt_block_ctx Let_def consume_cfb aes_mode_values op_values add.commute)

end
