(* ===== verification/Aes_Stream_Correct.thy ===== *)
theory Aes_Stream_Correct
  imports Aes_Stream_Modes
begin

text \<open>
  Sessions of the streaming interface: however the data is cut into chunks, a session computes the
  one-shot mode, and a decrypting session undoes an encrypting one.
\<close>

section \<open>Starting a session\<close>

lemma copy_iv:
  assumes "16 \<le> length v" "length f = 16"
  shows "noxtls_copy_u8 (Some f) 16 (Some v) 16 = Some (take 16 v)"
proof -
  have "foldl (\<lambda>m i. m[i := v ! i]) f [0..<16] = take 16 v"
    using load_fold [of 16 f "\<lambda>i. v ! i"] assms by (intro nth_equalityI) auto
  then show ?thesis by (simp add: noxtls_copy_u8_def Let_def)
qed

lemma prepare_mode:
  assumes "noxtls_aes_prepare_context (Some c0) (Some key) type = (NOXTLS_RETURN_SUCCESS, Some c)"
  shows "noxtls_aes_prepare_context (Some (c0\<lparr>ctx_mode := m, ctx_op := p\<rparr>)) (Some key) type =
    (NOXTLS_RETURN_SUCCESS, Some (c\<lparr>ctx_mode := m, ctx_op := p\<rparr>))"
  using assms by (auto simp: noxtls_aes_prepare_context_def Let_def split: prod.splits if_splits)

text \<open>The chaining state a mode starts in.\<close>

definition first_state :: "u32 \<Rightarrow> bytes option \<Rightarrow> bytes" where
  "first_state mode iv = (if mode = NOXTLS_AES_ECB then replicate 16 0 else iv_or_zero iv)"

definition block_modes :: "u32 set" where "block_modes = {NOXTLS_AES_ECB, NOXTLS_AES_CBC}"
definition stream_modes :: "u32 set" where "stream_modes = {NOXTLS_AES_CTR, NOXTLS_AES_CFB, NOXTLS_AES_OFB}"

lemma session_start:
  assumes c: "noxtls_aes_prepare_context (Some zero_aes_context) (Some key) type = (NOXTLS_RETURN_SUCCESS, Some c)"
    and mode: "mode \<in> block_modes \<union> stream_modes" and op: "op = NOXTLS_AES_OP_ENCRYPT \<or> op = NOXTLS_AES_OP_DECRYPT"
    and iv: "\<And>v. iv = Some v \<Longrightarrow> 16 \<le> length v" "mode \<in> stream_modes \<Longrightarrow> iv \<noteq> None"
  obtains c' where "noxtls_aes_init (Some zero_aes_context) (Some key) iv type mode op = (NOXTLS_RETURN_SUCCESS, Some c')"
    "in_mode c mode op c'" "ctx_feedback c' = first_state mode iv" "length (ctx_feedback c') = 16"
    "length (ctx_partial c') = 16" "ctx_initialized c' \<noteq> 0"
    "ctx_partial_len c' = (if mode \<in> stream_modes then 16 else 0)"
proof -
  let ?p = "c\<lparr>ctx_mode := ucast mode, ctx_op := ucast op\<rparr>"
  note ready = prepared_ready [OF c]
  have small: "ucast (ucast mode :: u8) = mode" "ucast (ucast op :: u8) = op"
    using mode op by (auto simp: block_modes_def stream_modes_def aes_mode_values op_values)
  have z: "ctx_feedback c = replicate 16 0" "ctx_partial c = replicate 16 0" "ctx_partial_len c = 0"
    using ready by (simp_all add: zero_aes_context_def)
  have zero: "noxtls_secure_zero (Some (replicate 16 0)) NOXTLS_AES_BLOCK_LENGTH = Some (replicate 16 0 :: bytes)"
    using secure_zero_from_nth [of "replicate 16 0" 0 16]
    by (auto simp: noxtls_secure_zero_def NOXTLS_AES_BLOCK_LENGTH_def list_eq_iff_nth_eq)
  define f where "f = first_state mode iv"
  have f: "length f = 16" using iv by (simp add: f_def first_state_def length_iv_or_zero)
  let ?c' = "?p\<lparr>ctx_feedback := f, ctx_partial_len := (if mode \<in> stream_modes then 16 else 0), ctx_initialized := 1\<rparr>"
  have prep: "noxtls_aes_prepare_context (Some (zero_aes_context\<lparr>ctx_mode := ucast mode, ctx_op := ucast op\<rparr>)) (Some key) type =
      (NOXTLS_RETURN_SUCCESS, Some ?p)"
    by (rule prepare_mode [OF c])
  have "noxtls_aes_init (Some zero_aes_context) (Some key) iv type mode op = (NOXTLS_RETURN_SUCCESS, Some ?c')"
  proof (cases iv)
    case None
    then have "mode \<in> block_modes" using mode iv(2) by blast
    then show ?thesis unfolding noxtls_aes_init_def prep
      using None zero z by (auto simp: Let_def f_def first_state_def iv_or_zero_def block_modes_def
          stream_modes_def aes_mode_values)
  next
    case (Some v)
    then have "noxtls_copy_u8 (Some (replicate 16 0)) 16 iv NOXTLS_AES_BLOCK_LENGTH = Some (take 16 v)"
      using copy_iv [of v "replicate 16 0"] iv(1) by (simp add: NOXTLS_AES_BLOCK_LENGTH_def)
    then show ?thesis unfolding noxtls_aes_init_def prep
      using Some mode z by (auto simp: aes_init_iv_required_def Let_def f_def first_state_def iv_or_zero_def
          block_modes_def stream_modes_def aes_mode_values)
  qed
  then show ?thesis
    by (rule that [of ?c']) (use small f ready(1) z(2) in \<open>simp_all add: in_mode_def f_def\<close>)
qed


section \<open>What a session computes\<close>

text \<open>The chunks a session takes: each below the limit of one update.\<close>

abbreviation chunks_ok :: "bytes list \<Rightarrow> bool" where
  "chunks_ok xs \<equiv> \<forall>x\<in>set xs. length x + 16 < 2 ^ 32"

lemma final_stream:
  "ctx_initialized c \<noteq> 0 \<Longrightarrow> ctx_mode32 c \<in> stream_modes \<Longrightarrow> noxtls_aes_final port (Some c) out (Some n) =
    (NOXTLS_RETURN_SUCCESS, Some zero_aes_context, out, Some 0)"
  by (simp add: noxtls_aes_final_def stream_modes_def)

lemma final_whole:
  "ctx_initialized c \<noteq> 0 \<Longrightarrow> ctx_partial_len c = 0 \<Longrightarrow> noxtls_aes_final port (Some c) out (Some n) =
    (NOXTLS_RETURN_SUCCESS, Some zero_aes_context, out, Some 0)"
  by (simp add: noxtls_aes_final_def Let_def)

lemma pad_copy:
  assumes "length p = 16" "n \<le> 16"
  shows "noxtls_copy_u8 (Some (replicate 16 0)) 16 (Some p) n = Some (take n p @ replicate (16 - n) 0)"
proof (cases "n = 0")
  case False
  have "foldl (\<lambda>m i. m[i := p ! i]) (replicate 16 0) [0..<n] = take n p @ replicate (16 - n) 0"
    using load_fold [of n "replicate 16 0" "\<lambda>i. p ! i"] assms by (intro nth_equalityI) (auto simp: nth_append)
  then show ?thesis using False assms(2) by (auto simp: noxtls_copy_u8_def Let_def)
qed (simp add: noxtls_copy_u8_def)

lemma final_pads:
  assumes "in_mode k NOXTLS_AES_CBC NOXTLS_AES_OP_ENCRYPT c" "ctx_initialized c \<noteq> 0" "pends c r" "r \<noteq> []"
  shows "noxtls_aes_final no_port (Some c) (Some (replicate 16 0)) (Some n) =
    (NOXTLS_RETURN_SUCCESS, Some zero_aes_context, Some (fst (cbc_step (aes_E k) (ctx_feedback c) r)), Some 16)"
proof -
  have p: "length (ctx_partial c) = 16" "length r < 16" "take (length r) (ctx_partial c) = r"
      "ctx_partial_len c = of_nat (length r)" using assms(3) by (auto simp: pends_def)
  then have "unat (ctx_partial_len c) = length r" by (simp add: unat_of_nat)
  moreover from this have "ctx_partial_len c > 0" using assms(4) by (simp add: word_less_nat_alt)
  ultimately show ?thesis
    using assms(1,2) p pad_copy [of "ctx_partial c" "length r"]
    by (simp add: noxtls_aes_final_def Let_def in_mode_def aes_mode_values op_values encrypt_block_ctx cbc_step_simps)
qed

lemma stream_rest:
  "block_stream step st x = block_stream step st (take (wholes x) x) @
     (if drop (wholes x) x = [] then [] else fst (step (stream_state step st x) (drop (wholes x) x)))"
  using stream_split [of step st x "[]"] block_stream_block [of "drop (wholes x) x" "[]" step "stream_state step st x"]
    wholes_le(2) [of x] by auto

lemma wholes_dvd: "16 dvd length x \<Longrightarrow> wholes x = length x"
  by (simp add: wholes_def)

lemma pends_Nil: "pends c [] \<longleftrightarrow> length (ctx_partial c) = 16 \<and> length (ctx_feedback c) = 16 \<and> ctx_partial_len c = 0"
  by (simp add: pends_def)

text \<open>A session in a block mode whose data ends at a block boundary.\<close>

context block_mode
begin

lemma whole_session:
  assumes "noxtls_aes_init (Some zero_aes_context) (Some key) iv type mode op = (NOXTLS_RETURN_SUCCESS, Some c')"
    and "holds c'" "pends c' []" "ctx_initialized c' \<noteq> 0" "chunks_ok xs" "16 dvd length (concat xs)"
  shows "stream_session no_port key iv type mode op xs = Some (block_stream step (ctx_feedback c') (concat xs))"
proof -
  obtain c2 where c2: "stream_updates no_port c' xs = Some (c2, block_stream step (ctx_feedback c') (concat xs))"
      "pends c2 []" "ctx_initialized c2 \<noteq> 0"
    using updates [OF assms(2,3,4,5)] wholes_dvd [OF assms(6)] by auto
  then show ?thesis
    using assms(1) by (simp add: stream_session_def final_whole pends_Nil)
qed

end

context stream_mode
begin

lemma session:
  assumes "noxtls_aes_init (Some zero_aes_context) (Some key) iv type mode op = (NOXTLS_RETURN_SUCCESS, Some c')"
    and "holds c'" "sync ks fb c' st []" "ctx_initialized c' \<noteq> 0" "chunks_ok xs"
  shows "stream_session no_port key iv type mode op xs = Some (block_stream (ks_step ks fb) st (concat xs))"
proof -
  obtain c2 where c2: "stream_updates no_port c' xs = Some (c2, block_stream (ks_step ks fb) st (concat xs))"
      "holds c2" "ctx_initialized c2 \<noteq> 0"
    using updates [OF assms(2,3,4,5)] by auto
  have "ctx_mode32 c2 \<in> stream_modes" using modes [OF c2(2)] by (auto simp: stream_modes_def)
  then show ?thesis
    using assms(1) c2 by (simp add: stream_session_def final_stream)
qed

end

lemma stream_cong:
  assumes "\<And>st b. length st = 16 \<Longrightarrow> fst (f st b) = fst (g st b)"
    and "\<And>st b. length st = 16 \<Longrightarrow> length b = 16 \<Longrightarrow> snd (f st b) = snd (g st b) \<and> length (snd (g st b)) = 16"
  shows "length st = 16 \<Longrightarrow> block_stream f st x = block_stream g st x"
proof (induction x arbitrary: st rule: block_induct)
  case (short b)
  then show ?case using block_stream_block [of b "[]" f st] block_stream_block [of b "[]" g st] by (simp add: assms(1))
next
  case (block b x)
  then show ?case using block_stream_block [of b x f st] block_stream_block [of b x g st] assms(2) [of st b]
    by (simp add: assms(1))
qed simp

lemma ecb_step_simps [simp]: "fst (ecb_step E st b) = E b" "snd (ecb_step E st b) = ()"
  by (simp_all add: ecb_step_def)

lemma ecb_stream: "block_stream (\<lambda>st b. (f b, st)) st x = block_stream (ecb_step f) () x"
proof (induction x rule: block_induct)
  case (short b)
  then show ?case using block_stream_block [of b "[]" "\<lambda>st b. (f b, st)" st] block_stream_block [of b "[]" "ecb_step f" "()"] by simp
next
  case (block b x)
  then show ?case using block_stream_block [of b x "\<lambda>st b. (f b, st)" st] block_stream_block [of b x "ecb_step f" "()"] by simp
qed simp

text \<open>The step of each mode, encrypting and decrypting.\<close>

definition mode_stream :: "aes_context \<Rightarrow> u32 \<Rightarrow> u32 \<Rightarrow> bytes \<Rightarrow> bytes \<Rightarrow> bytes" where
  "mode_stream c mode op st x =
     (if mode = NOXTLS_AES_ECB then
        block_stream (ecb_step (if op = NOXTLS_AES_OP_ENCRYPT then aes_E c else aes_D c)) () x
      else if mode = NOXTLS_AES_CBC then
        block_stream (if op = NOXTLS_AES_OP_ENCRYPT then cbc_step (aes_E c) else cbc_inv_step (aes_D c)) st x
      else if mode = NOXTLS_AES_CTR then block_stream (ctr_step (aes_E c) aes_counter_inc) st x
      else if mode = NOXTLS_AES_OFB then block_stream (ofb_step (aes_E c)) st x
      else block_stream (if op = NOXTLS_AES_OP_ENCRYPT then cfb_step (aes_E c) else cfb_inv_step (aes_E c)) st x)"

lemma session_computes:
  assumes c: "noxtls_aes_prepare_context (Some zero_aes_context) (Some key) type = (NOXTLS_RETURN_SUCCESS, Some c)"
    and mode: "mode \<in> block_modes \<union> stream_modes" and op: "op = NOXTLS_AES_OP_ENCRYPT \<or> op = NOXTLS_AES_OP_DECRYPT"
    and iv: "\<And>v. iv = Some v \<Longrightarrow> 16 \<le> length v" "mode \<in> stream_modes \<Longrightarrow> iv \<noteq> None"
    and xs: "chunks_ok xs" "mode \<in> block_modes \<Longrightarrow> 16 dvd length (concat xs)"
  shows "stream_session no_port key iv type mode op xs = Some (mode_stream c mode op (iv_or_zero iv) (concat xs))"
proof -
  obtain c' where c': "noxtls_aes_init (Some zero_aes_context) (Some key) iv type mode op = (NOXTLS_RETURN_SUCCESS, Some c')"
    "in_mode c mode op c'" "ctx_feedback c' = first_state mode iv" "length (ctx_feedback c') = 16"
    "length (ctx_partial c') = 16" "ctx_initialized c' \<noteq> 0" "ctx_partial_len c' = (if mode \<in> stream_modes then 16 else 0)"
    by (rule session_start [OF c mode op iv])
  have st: "length (iv_or_zero iv) = 16" using iv(1) by (rule length_iv_or_zero)
  show ?thesis
  proof (cases "mode \<in> stream_modes")
    case True
    then have fb: "ctx_feedback c' = iv_or_zero iv" and pl: "ctx_partial_len c' = 16" using c'(3,7)
      by (auto simp: first_state_def stream_modes_def aes_mode_values)
    have sync: "sync ks f c' (iv_or_zero iv) []" for ks f using c'(5) fb pl st by (simp add: sync_def)
    consider "mode = NOXTLS_AES_CTR" | "mode = NOXTLS_AES_OFB" | "mode = NOXTLS_AES_CFB" "op = NOXTLS_AES_OP_ENCRYPT"
      | "mode = NOXTLS_AES_CFB" "op = NOXTLS_AES_OP_DECRYPT" using True op by (auto simp: stream_modes_def)
    then show ?thesis
    proof cases
      case 1
      then show ?thesis
        using ctr.session [OF c'(1), of c op "iv_or_zero iv" xs] c'(2,6) sync xs(1)
          stream_cong [OF _ _ st, of "ks_step (aes_E c) (\<lambda>st b. aes_counter_inc st)" "ctr_step (aes_E c) aes_counter_inc"]
        by (simp add: mode_stream_def aes_mode_values ctr_step_simps)
    next
      case 2
      then show ?thesis
        using ofb.session [OF c'(1), of c op "iv_or_zero iv" xs] c'(2,6) sync xs(1)
          stream_cong [OF _ _ st, of "ks_step (aes_E c) (\<lambda>st b. aes_E c st)" "ofb_step (aes_E c)"]
        by (simp add: mode_stream_def aes_mode_values ofb_step_def)
    next
      case 3
      then show ?thesis
        using cfb_enc.session [OF c'(1), of c "iv_or_zero iv" xs] c'(2,6) sync xs(1)
          stream_cong [OF _ _ st, of "ks_step (aes_E c) (\<lambda>st b. drop (length b) st @ xor_bytes b (aes_E c st))" "cfb_step (aes_E c)"]
        by (simp add: mode_stream_def aes_mode_values cfb_step_def Let_def)
    next
      case 4
      then show ?thesis
        using cfb_dec.session [OF c'(1), of c "iv_or_zero iv" xs] c'(2,6) sync xs(1)
          stream_cong [OF _ _ st, of "ks_step (aes_E c) (\<lambda>st b. drop (length b) st @ b)" "cfb_inv_step (aes_E c)"]
        by (simp add: mode_stream_def aes_mode_values op_values cfb_inv_step_def)
    qed
  next
    case False
    then have block: "mode \<in> block_modes" using mode by blast
    have pends: "pends c' []" using c'(4,5,7) False by (simp add: pends_Nil)
    have ecb: "block_stream (\<lambda>st b. (f b, st)) (ctx_feedback c') (concat xs) = block_stream (ecb_step f) () (concat xs)" for f
      by (rule ecb_stream)
    consider "mode = NOXTLS_AES_ECB" "op = NOXTLS_AES_OP_ENCRYPT" | "mode = NOXTLS_AES_ECB" "op = NOXTLS_AES_OP_DECRYPT"
      | "mode = NOXTLS_AES_CBC" "op = NOXTLS_AES_OP_ENCRYPT" | "mode = NOXTLS_AES_CBC" "op = NOXTLS_AES_OP_DECRYPT"
      using block op by (auto simp: block_modes_def)
    then show ?thesis
    proof cases
      case 1
      then show ?thesis using ecb_enc.whole_session [OF c'(1) _ pends c'(6) xs(1) xs(2) [OF block], of c] c'(2) ecb
        by (simp add: mode_stream_def)
    next
      case 2
      then show ?thesis using ecb_dec.whole_session [OF c'(1) _ pends c'(6) xs(1) xs(2) [OF block], of c] c'(2) ecb
        by (simp add: mode_stream_def op_values)
    next
      case 3
      then show ?thesis using cbc_enc.whole_session [OF c'(1) _ pends c'(6) xs(1) xs(2) [OF block], of c] c'(2,3)
        by (simp add: mode_stream_def first_state_def aes_mode_values)
    next
      case 4
      then show ?thesis using cbc_dec.whole_session [OF c'(1) _ pends c'(6) xs(1) xs(2) [OF block], of c] c'(2,3)
        by (simp add: mode_stream_def first_state_def aes_mode_values op_values)
    qed
  qed
qed

section \<open>Sessions against the one-shot calls\<close>

lemma cbc_padded_call:
  assumes c: "noxtls_aes_prepare_context (Some zero_aes_context) (Some key) type = (NOXTLS_RETURN_SUCCESS, Some c)"
    and len: "length x = unat len" "unat len \<le> 4294967280" "length out = (unat len + 15) div 16 * 16"
    and iv: "\<And>v. iv = Some v \<Longrightarrow> 16 \<le> length v"
  shows "noxtls_aes_encrypt_cbc no_port (Some key) (Some x) len iv (Some out) type =
      Some (NOXTLS_RETURN_SUCCESS, Some (block_stream (cbc_step (aes_E c)) (iv_or_zero iv) x))"
proof -
  have ready: "ctx_round_keys_ready c \<noteq> 0" using prepared_ready [OF c] by simp
  have small: "\<not> len > 0xFFFFFFFF - (16 - 1)" using len(2) by (simp add: word_less_nat_alt)
  have slen: "length (block_stream (cbc_step (aes_E c)) (iv_or_zero iv) x) = length out"
    using stream_length_cbc [OF length_iv_or_zero [OF iv]] len by simp
  show ?thesis
  proof (cases "len = 0")
    case False
    then show ?thesis
      using with_schedule_run [OF c False] cbc_encrypt_walk [OF ready len(1,2) _ iv, where out = out] len small slen
      by (auto simp: noxtls_aes_encrypt_cbc_def Let_def put_at_whole)
  qed (use len slen small in \<open>simp add: noxtls_aes_encrypt_cbc_def with_schedule_def\<close>)
qed

lemma cbc_session:
  assumes c: "noxtls_aes_prepare_context (Some zero_aes_context) (Some key) type = (NOXTLS_RETURN_SUCCESS, Some c)"
    and iv: "\<And>v. iv = Some v \<Longrightarrow> 16 \<le> length v" and xs: "chunks_ok xs"
  shows "stream_session no_port key iv type NOXTLS_AES_CBC NOXTLS_AES_OP_ENCRYPT xs =
    Some (block_stream (cbc_step (aes_E c)) (iv_or_zero iv) (concat xs))"
proof -
  have cbc: "NOXTLS_AES_CBC \<in> block_modes \<union> stream_modes" "NOXTLS_AES_CBC \<notin> stream_modes"
    by (simp_all add: block_modes_def stream_modes_def aes_mode_values)
  obtain c' where c': "noxtls_aes_init (Some zero_aes_context) (Some key) iv type NOXTLS_AES_CBC NOXTLS_AES_OP_ENCRYPT =
      (NOXTLS_RETURN_SUCCESS, Some c')" "in_mode c NOXTLS_AES_CBC NOXTLS_AES_OP_ENCRYPT c'"
    "ctx_feedback c' = iv_or_zero iv" "pends c' []" "ctx_initialized c' \<noteq> 0"
    by (rule session_start [OF c cbc(1) _ iv]) (use cbc(2) in \<open>auto simp: pends_Nil first_state_def aes_mode_values\<close>)
  let ?x = "concat xs" and ?step = "cbc_step (aes_E c)"
  let ?r = "drop (wholes ?x) ?x"
  obtain c2 where c2: "stream_updates no_port c' xs = Some (c2, block_stream ?step (iv_or_zero iv) (take (wholes ?x) ?x))"
      "in_mode c NOXTLS_AES_CBC NOXTLS_AES_OP_ENCRYPT c2" "pends c2 ?r"
      "ctx_feedback c2 = stream_state ?step (iv_or_zero iv) ?x" "ctx_initialized c2 \<noteq> 0"
    using cbc_enc.updates [OF c'(2,4,5) xs] c'(3) by auto
  show ?thesis
  proof (cases "?r = []")
    case True
    have "ctx_partial_len c2 = 0" using c2(3) unfolding True pends_Nil by simp
    moreover have "block_stream ?step (iv_or_zero iv) ?x = block_stream ?step (iv_or_zero iv) (take (wholes ?x) ?x)"
      using stream_rest [of ?step "iv_or_zero iv" ?x] unfolding True by simp
    ultimately show ?thesis
      using c'(1) c2(1,5) by (simp add: stream_session_def final_whole)
  next
    case False
    have "block_stream ?step (iv_or_zero iv) ?x = block_stream ?step (iv_or_zero iv) (take (wholes ?x) ?x) @
        fst (?step (ctx_feedback c2) ?r)"
      unfolding c2(4) using stream_rest [of ?step "iv_or_zero iv" ?x] False by (simp only: if_False)
    moreover have "length (fst (?step (ctx_feedback c2) ?r)) = 16" by (simp add: cbc_step_simps)
    ultimately show ?thesis
      using c'(1) c2(1) final_pads [OF c2(2,5,3) False, of 0] by (simp add: stream_session_def)
  qed
qed





end
