(* ===== verification/Bn_Digits.thy ===== *)
theory Bn_Digits
  imports Nox_Prelude
begin

text \<open>
  Numbers as digit arrays, and the loops that walk them with a carry. Every carry loop of the bignum
  code visits the digits from the least significant one and writes one digit per step; \<open>carry_loop\<close>
  states once what such a loop computes.
\<close>

section \<open>Values\<close>

fun digits :: "int \<Rightarrow> (nat \<Rightarrow> int) \<Rightarrow> nat \<Rightarrow> int" where
  "digits B f 0 = 0"
| "digits B f (Suc n) = digits B f n + B ^ n * f n"

lemma digits_cong: "(\<And>i. i < n \<Longrightarrow> f i = g i) \<Longrightarrow> digits B f n = digits B g n"
  by (induction n) auto

lemma digits_add: "digits B (\<lambda>i. f i + g i) n = digits B f n + digits B g n"
  by (induction n) (auto simp: algebra_simps)

lemma digits_diff: "digits B (\<lambda>i. f i - g i) n = digits B f n - digits B g n"
  by (induction n) (auto simp: algebra_simps)

lemma digits_mult: "digits B (\<lambda>i. c * f i) n = c * digits B f n"
  by (induction n) (auto simp: algebra_simps)

lemma digits_0 [simp]: "digits B (\<lambda>i. 0) n = 0"
  by (induction n) auto

lemma digits_nonneg: "0 \<le> B \<Longrightarrow> (\<And>i. i < n \<Longrightarrow> 0 \<le> f i) \<Longrightarrow> 0 \<le> digits B f n"
  by (induction n) auto

lemma digits_less:
  assumes "\<And>i. i < n \<Longrightarrow> f i < B" "0 < B"
  shows "digits B f n < B ^ n"
  using assms(1)
proof (induction n)
  case (Suc n)
  have "digits B f n < B ^ n" "f n \<le> B - 1" using Suc by force+
  moreover have "B ^ n * f n \<le> B ^ n * (B - 1)" using \<open>f n \<le> B - 1\<close> assms(2) by (intro mult_left_mono) auto
  ultimately show ?case by (simp add: algebra_simps)
qed simp

lemma digits_split: "digits B f (m + n) = digits B f m + B ^ m * digits B (\<lambda>i. f (m + i)) n"
  by (induction n) (auto simp: algebra_simps power_add)

lemma digits_shift: "digits B f (Suc n) = f 0 + B * digits B (\<lambda>i. f (Suc i)) n"
  using digits_split [of B f 1 n] by simp

section \<open>Carry loops\<close>

text \<open>
  The loop \<open>for each index j in the order of js: (x[j], c) = body j x[j] c\<close>.
\<close>

definition carry_step :: "(nat \<Rightarrow> 'a \<Rightarrow> 'c \<Rightarrow> 'a \<times> 'c) \<Rightarrow> 'a list \<times> 'c \<Rightarrow> nat \<Rightarrow> 'a list \<times> 'c" where
  "carry_step body = (\<lambda>(x, c) j. case body j (x ! j) c of (y, c') \<Rightarrow> (x[j := y], c'))"

definition carry_loop :: "nat list \<Rightarrow> (nat \<Rightarrow> 'a \<Rightarrow> 'c \<Rightarrow> 'a \<times> 'c) \<Rightarrow> 'a list \<Rightarrow> 'c \<Rightarrow> 'a list \<times> 'c" where
  "carry_loop js body x c = foldl (carry_step body) (x, c) js"

lemma carry_loop_digits:
  fixes x :: "'a list" and c :: 'c and dv :: "'a \<Rightarrow> int" and cv :: "'c \<Rightarrow> int" and p :: "nat \<Rightarrow> nat"
  assumes run: "carry_loop (map p [0..<n]) body x c = (x', c')"
    and p: "inj_on p {0..<n}" "\<And>i. i < n \<Longrightarrow> p i < length x"
    and inv: "I c" "\<And>i c y c'. i < n \<Longrightarrow> I c \<Longrightarrow> body (p i) (x ! p i) c = (y, c') \<Longrightarrow>
      I c' \<and> dv y + B * cv c' = g i + cv c"
  shows "length x' = length x \<and> I c' \<and> (\<forall>j. j \<notin> p ` {0..<n} \<longrightarrow> x' ! j = x ! j) \<and>
    digits B (\<lambda>i. dv (x' ! p i)) n + B ^ n * cv c' = digits B g n + cv c"
  using assms
proof (induction n arbitrary: x' c')
  case (Suc n)
  obtain x1 c1 where r1: "carry_loop (map p [0..<n]) body x c = (x1, c1)" by fastforce
  have inj: "inj_on p {0..<n}" using Suc.prems(2) by (rule inj_on_subset) auto
  have ih: "length x1 = length x" "I c1" "\<forall>j. j \<notin> p ` {0..<n} \<longrightarrow> x1 ! j = x ! j"
      "digits B (\<lambda>i. dv (x1 ! p i)) n + B ^ n * cv c1 = digits B g n + cv c"
  proof -
    have "length x1 = length x \<and> I c1 \<and> (\<forall>j. j \<notin> p ` {0..<n} \<longrightarrow> x1 ! j = x ! j) \<and>
        digits B (\<lambda>i. dv (x1 ! p i)) n + B ^ n * cv c1 = digits B g n + cv c"
      by (rule Suc.IH [OF r1 inj _ Suc.prems(4)]) (simp_all add: Suc.prems(3) Suc.prems(5) [OF less_SucI])
    then show "length x1 = length x" "I c1" "\<forall>j. j \<notin> p ` {0..<n} \<longrightarrow> x1 ! j = x ! j"
      "digits B (\<lambda>i. dv (x1 ! p i)) n + B ^ n * cv c1 = digits B g n + cv c" by blast+
  qed
  have fresh: "p n \<notin> p ` {0..<n}" using inj_onD [OF Suc.prems(2), of n] by fastforce
  then have old: "x1 ! p n = x ! p n" using ih(3) by blast
  obtain y c2 where b: "body (p n) (x ! p n) c1 = (y, c2)" by fastforce
  have res: "x' = x1[p n := y]" "c' = c2"
    using Suc.prems(1) r1 b old by (auto simp: carry_loop_def carry_step_def)
  have step: "I c2" "dv y + B * cv c2 = g n + cv c1" using Suc.prems(5) [OF _ ih(2) b] by auto
  have "p n \<noteq> p i" if "i < n" for i using inj_onD [OF Suc.prems(2), of i n] that by fastforce
  then have keep: "digits B (\<lambda>i. dv (x' ! p i)) n = digits B (\<lambda>i. dv (x1 ! p i)) n"
    by (intro digits_cong) (simp add: res)
  have "x' ! p n = y" using Suc.prems(3) [of n] ih(1) by (simp add: res)
  then have "digits B (\<lambda>i. dv (x' ! p i)) (Suc n) + B ^ Suc n * cv c' =
      digits B (\<lambda>i. dv (x1 ! p i)) n + B ^ n * (dv y + B * cv c2)"
    unfolding digits.simps keep res(2) by (simp add: algebra_simps)
  also have "\<dots> = digits B g (Suc n) + cv c" using ih(4) unfolding step(2) by (simp add: algebra_simps)
  finally have "digits B (\<lambda>i. dv (x' ! p i)) (Suc n) + B ^ Suc n * cv c' = digits B g (Suc n) + cv c" .
  moreover have "\<forall>j. j \<notin> p ` {0..<Suc n} \<longrightarrow> x' ! j = x ! j" using ih(3) by (auto simp: res atLeast0_lessThan_Suc)
  ultimately show ?case using ih(1) step(1) by (simp add: res)
qed (simp add: carry_loop_def)

section \<open>Limbs, little-endian\<close>

definition lval :: "u32 list \<Rightarrow> nat \<Rightarrow> int" where
  "lval x n = digits (2 ^ 32) (\<lambda>i. uint (x ! i)) n"

lemma lval_bounds: "0 \<le> lval x n" "lval x n < 2 ^ (32 * n)"
proof -
  show "0 \<le> lval x n" unfolding lval_def by (rule digits_nonneg) auto
  have "uint (x ! i) < 2 ^ 32" for i using uint_lt2p [of "x ! i"] by simp
  then have "lval x n < (2 ^ 32) ^ n" unfolding lval_def by (intro digits_less) auto
  then show "lval x n < 2 ^ (32 * n)" by (simp only: power_mult)
qed

lemma lval_cong: "(\<And>i. i < n \<Longrightarrow> x ! i = y ! i) \<Longrightarrow> lval x n = lval y n"
  unfolding lval_def by (intro digits_cong) simp

lemma lval_simps [simp]: "lval x 0 = 0"
  by (simp add: lval_def)

lemma lval_Suc: "lval x (Suc n) = lval x n + 2 ^ (32 * n) * uint (x ! n)"
  by (simp add: lval_def power_mult)

lemma limb_loop:
  assumes run: "carry_loop [0..<n] body x c = (x', c')" and len: "n \<le> length x"
    and inv: "I c" "\<And>i c y c'. i < n \<Longrightarrow> I c \<Longrightarrow> body i (x ! i) c = (y, c') \<Longrightarrow>
      I c' \<and> uint y + 2 ^ 32 * cv c' = g i + cv c"
  shows "length x' = length x \<and> I c' \<and> (\<forall>j\<ge>n. x' ! j = x ! j) \<and>
    lval x' n + 2 ^ (32 * n) * cv c' = digits (2 ^ 32) g n + cv c"
proof -
  have "length x' = length x \<and> I c' \<and> (\<forall>j. j \<notin> (\<lambda>i. i) ` {0..<n} \<longrightarrow> x' ! j = x ! j) \<and>
      digits (2 ^ 32) (\<lambda>i. uint (x' ! i)) n + (2 ^ 32) ^ n * cv c' = digits (2 ^ 32) g n + cv c"
    by (rule carry_loop_digits [where I = I and p = "\<lambda>i. i"]) (use assms in simp_all)
  then show ?thesis by (simp add: lval_def power_mult)
qed

section \<open>Bytes, big-endian\<close>

lemma be_value_digits: "int (be_value x) = digits 256 (\<lambda>i. uint (x ! (length x - 1 - i))) (length x)"
proof (induction x rule: rev_induct)
  case (snoc b x)
  have "digits 256 (\<lambda>i. uint ((x @ [b]) ! (length x - i))) (Suc (length x)) =
      uint b + 256 * digits 256 (\<lambda>i. uint (x ! (length x - 1 - i))) (length x)"
    unfolding digits_shift by (auto intro!: digits_cong simp: nth_append)
  then show ?case using snoc by (simp add: unsigned_def)
qed simp

lemma rev_upt_map: "rev [0..<n] = map (\<lambda>i. n - 1 - i) [0..<n]"
  by (intro nth_equalityI) (auto simp: rev_nth)

lemma byte_loop:
  fixes x :: bytes
  assumes run: "carry_loop (rev [0..<n]) body x c = (x', c')" and len: "n = length x"
    and inv: "I c" "\<And>i c y c'. i < n \<Longrightarrow> I c \<Longrightarrow> body i (x ! i) c = (y, c') \<Longrightarrow>
      I c' \<and> uint y + 256 * cv c' = g i + cv c"
  shows "length x' = length x \<and> I c' \<and>
    int (be_value x') + 256 ^ n * cv c' = digits 256 (\<lambda>i. g (n - 1 - i)) n + cv c"
proof -
  have inj: "inj_on (\<lambda>i. n - 1 - i) {0..<n}" by (auto simp: inj_on_def)
  have "length x' = length x \<and> I c' \<and> (\<forall>j. j \<notin> (\<lambda>i. n - 1 - i) ` {0..<n} \<longrightarrow> x' ! j = x ! j) \<and>
      digits 256 (\<lambda>i. uint (x' ! (n - 1 - i))) n + 256 ^ n * cv c' = digits 256 (\<lambda>i. g (n - 1 - i)) n + cv c"
    by (rule carry_loop_digits [where I = I, OF run [unfolded rev_upt_map] inj])
      (use len inv(1) inv(2) [of "n - 1 - i" for i] in \<open>auto simp del: diff_diff_left\<close>)
  then show ?thesis using len by (simp add: be_value_digits)
qed

section \<open>Splitting words\<close>

lemma uint_ucast_up:
  "LENGTH('a) \<le> LENGTH('b) \<Longrightarrow> uint (ucast (x :: 'a::len word) :: 'b::len word) = uint x"
  using unat_ucast_up [of x, where 'b = 'b] by (metis int_nat_eq uint_nat)

lemma uint_ucast_down: "uint (ucast (x :: 'a::len word) :: 'b::len word) = uint x mod 2 ^ LENGTH('b)"
  by (simp add: unsigned_ucast_eq take_bit_eq_mod)

lemma uint_drop_bit: "uint (drop_bit n (x :: 'a::len word)) = uint x div 2 ^ n"
  by (subst unsigned_drop_bit_eq, subst take_bit_int_eq_self [OF uint_ge_0 uint_lt2p]) (rule drop_bit_eq_div)

lemma uint_add_small: "uint a + uint b < 2 ^ LENGTH('a) \<Longrightarrow> uint (a + b) = uint a + uint (b :: 'a::len word)"
  by (simp add: uint_word_ariths)

lemma uint_mult_small: "uint a * uint b < 2 ^ LENGTH('a) \<Longrightarrow> uint (a * b) = uint a * uint (b :: 'a::len word)"
  by (simp add: uint_word_ariths)

text \<open>A 64-bit accumulator and its two halves.\<close>

lemma halves: "uint (ucast (s :: u64) :: u32) + 2 ^ 32 * uint (drop_bit 32 s) = uint s"
  "uint (drop_bit 32 s) < 2 ^ 32"
  using uint_lt2p [of s] by (simp_all add: uint_ucast_down uint_drop_bit)

lemma mac_value:
  fixes t a b :: u32 and c :: u64
  assumes "uint c < 2 ^ 32"
  shows "uint (ucast t + ucast a * ucast b + c :: u64) = uint t + uint a * uint b + uint c"
proof -
  have b: "uint t \<le> 2 ^ 32 - 1" "uint a \<le> 2 ^ 32 - 1" "uint b \<le> 2 ^ 32 - 1"
    using uint_lt2p [of t] uint_lt2p [of a] uint_lt2p [of b] by simp_all
  have "uint a * uint b \<le> (2 ^ 32 - 1) * (2 ^ 32 - 1)" using b by (intro mult_mono) simp_all
  then have m: "uint a * uint b \<le> 18446744065119617025" by simp
  have p: "uint (ucast a * ucast b :: u64) = uint a * uint b"
    using m by (subst uint_mult_small) (simp_all add: uint_ucast_up)
  have s: "uint (ucast t + ucast a * ucast b :: u64) = uint t + uint a * uint b"
    using m b p by (subst uint_add_small) (simp_all add: uint_ucast_up)
  show ?thesis using m b s assms by (subst uint_add_small) simp_all
qed

lemma add_value:
  fixes a b :: u32 and c :: u64
  assumes "uint c < 2 ^ 32"
  shows "uint (ucast a + ucast b + c :: u64) = uint a + uint b + uint c"
proof -
  have b: "uint a \<le> 2 ^ 32 - 1" "uint b \<le> 2 ^ 32 - 1" using uint_lt2p [of a] uint_lt2p [of b] by simp_all
  have s: "uint (ucast a + ucast b :: u64) = uint a + uint b"
    using b by (subst uint_add_small) (simp_all add: uint_ucast_up)
  show ?thesis using b s assms by (subst uint_add_small) simp_all
qed

end
