(* ===== verification/Bn_Bytes.thy ===== *)
theory Bn_Bytes
  imports Bn_Digits Ct_Memory
begin

text \<open>
  Big integers as big-endian byte strings, from \<open>pkc/rsa/noxtls_bignum.c\<close>: comparison, addition,
  subtraction, halving and the helpers the reduction and exponentiation code uses.
\<close>

section \<open>Comparison and constants\<close>

text \<open>The scan for the first differing byte.\<close>

fun first_difference :: "bytes \<Rightarrow> bytes \<Rightarrow> nat list \<Rightarrow> nat option" where
  "first_difference a b [] = None"
| "first_difference a b (i # is) = (if a ! i \<noteq> b ! i then Some i else first_difference a b is)"

definition noxtls_bn_cmp :: "bytes option \<Rightarrow> bytes option \<Rightarrow> u32 \<Rightarrow> int" where
  "noxtls_bn_cmp a b len =
     (case (a, b) of
        (Some x, Some y) \<Rightarrow>
          (if len = 0 then 0
           else case first_difference x y [0..<unat len] of
             None \<Rightarrow> 0
           | Some i \<Rightarrow> if x ! i > y ! i then 1 else -1)
      | _ \<Rightarrow> 0)"

definition bn_ge :: "bytes option \<Rightarrow> bytes option \<Rightarrow> u32 \<Rightarrow> int" where
  "bn_ge a b len =
     (case (a, b) of
        (Some x, Some y) \<Rightarrow>
          (if len = 0 then 0
           else case first_difference x y [0..<unat len] of
             None \<Rightarrow> 1
           | Some i \<Rightarrow> if x ! i > y ! i then 1 else 0)
      | _ \<Rightarrow> 0)"

definition noxtls_bn_is_zero :: "bytes option \<Rightarrow> u32 \<Rightarrow> int" where
  "noxtls_bn_is_zero a len =
     (if a = None \<or> len = 0 then 0
      else if list_ex (\<lambda>i. the a ! i \<noteq> 0) [0..<unat len] then 0 else 1)"

definition noxtls_bn_is_one :: "bytes option \<Rightarrow> u32 \<Rightarrow> int" where
  "noxtls_bn_is_one a len =
     (if a = None \<or> len = 0 then 0
      else if the a ! unat (len - 1) \<noteq> 1 then 0
      else if list_ex (\<lambda>i. the a ! i \<noteq> 0) [0..<unat (len - 1)] then 0 else 1)"

definition noxtls_bn_zero :: "bytes option \<Rightarrow> u32 \<Rightarrow> noxtls_return_t \<times> bytes option" where
  "noxtls_bn_zero a len =
     (if a = None then (NOXTLS_RETURN_NULL, a)
      else if len = 0 then (NOXTLS_RETURN_INVALID_PARAM, a)
      else (NOXTLS_RETURN_SUCCESS, noxtls_secure_zero a (unat len)))"

definition noxtls_bn_one :: "bytes option \<Rightarrow> u32 \<Rightarrow> noxtls_return_t \<times> bytes option" where
  "noxtls_bn_one a len =
     (if a = None then (NOXTLS_RETURN_NULL, a)
      else if len = 0 then (NOXTLS_RETURN_INVALID_PARAM, a)
      else (NOXTLS_RETURN_SUCCESS, Some ((the (noxtls_secure_zero a (unat len)))[unat (len - 1) := 1])))"

definition noxtls_bn_copy :: "bytes option \<Rightarrow> bytes option \<Rightarrow> u32 \<Rightarrow> noxtls_return_t \<times> bytes option" where
  "noxtls_bn_copy dst src len =
     (case (dst, src) of
        (Some d, Some s) \<Rightarrow>
          if len = 0 then (NOXTLS_RETURN_INVALID_PARAM, dst)
          else (NOXTLS_RETURN_SUCCESS, Some (foldl (\<lambda>d i. d[i := s ! i]) d [0..<unat len]))
      | _ \<Rightarrow> (NOXTLS_RETURN_NULL, dst))"

section \<open>Addition, subtraction, halving\<close>

definition noxtls_bn_add ::
    "bytes option \<Rightarrow> bytes option \<Rightarrow> bytes option \<Rightarrow> u32 \<Rightarrow> noxtls_return_t \<times> bytes option" where
  "noxtls_bn_add result a b len =
     (case (result, a, b) of
        (Some r, Some x, Some y) \<Rightarrow>
          if len = 0 then (NOXTLS_RETURN_INVALID_PARAM, result)
          else (NOXTLS_RETURN_SUCCESS, Some (fst (carry_loop (rev [0..<unat len])
                 (\<lambda>j _ carry.
                    let sum = ucast (x ! j) + ucast (y ! j) + carry :: u16
                    in (ucast (sum AND 0xFF), ucast (drop_bit 8 (ucast sum :: u32)))) r (0 :: u16))))
      | _ \<Rightarrow> (NOXTLS_RETURN_NULL, result))"

text \<open>One step of a byte subtraction with borrow, on C's \<open>int\<close>.\<close>

definition sub_byte :: "u8 \<Rightarrow> u8 \<Rightarrow> int \<Rightarrow> u8 \<times> int" where
  "sub_byte a b borrow =
     (let diff = uint a - uint b - borrow
      in if diff < 0 then (word_of_int (diff + 256), 1) else (word_of_int diff, 0))"

definition noxtls_bn_sub ::
    "bytes option \<Rightarrow> bytes option \<Rightarrow> bytes option \<Rightarrow> u32 \<Rightarrow> noxtls_return_t \<times> bytes option" where
  "noxtls_bn_sub result a b len =
     (case (result, a, b) of
        (Some r, Some x, Some y) \<Rightarrow>
          if len = 0 then (NOXTLS_RETURN_INVALID_PARAM, result)
          else (NOXTLS_RETURN_SUCCESS,
                Some (fst (carry_loop (rev [0..<unat len]) (\<lambda>j _. sub_byte (x ! j) (y ! j)) r 0)))
      | _ \<Rightarrow> (NOXTLS_RETURN_NULL, result))"

definition bn_sub_inplace :: "bytes option \<Rightarrow> bytes option \<Rightarrow> u32 \<Rightarrow> noxtls_return_t \<times> bytes option" where
  "bn_sub_inplace a b len =
     (case (a, b) of
        (Some x, Some y) \<Rightarrow>
          if len = 0 then (NOXTLS_RETURN_INVALID_PARAM, a)
          else (NOXTLS_RETURN_SUCCESS,
                Some (fst (carry_loop (rev [0..<nat (sint len)]) (\<lambda>j v. sub_byte v (y ! j)) x 0)))
      | _ \<Rightarrow> (NOXTLS_RETURN_NULL, a))"

definition noxtls_bn_rshift1 :: "bytes option \<Rightarrow> u32 \<Rightarrow> noxtls_return_t \<times> bytes option" where
  "noxtls_bn_rshift1 a len =
     (case a of
        None \<Rightarrow> (NOXTLS_RETURN_NULL, a)
      | Some x \<Rightarrow>
          if len = 0 then (NOXTLS_RETURN_INVALID_PARAM, a)
          else (NOXTLS_RETURN_SUCCESS, Some (fst (carry_loop [0..<nat (sint len)]
                 (\<lambda>_ byte carry. (ucast (drop_bit 1 (ucast byte :: u32) OR ucast carry),
                                   if byte AND 1 \<noteq> 0 then 0x80 else 0)) x (0 :: u8)))))"

section \<open>Bits and swaps\<close>

definition bn_u8_bit :: "u8 \<Rightarrow> u32 \<Rightarrow> u32" where
  "bn_u8_bit byte bit_index =
     (if byte AND [0x01, 0x02, 0x04, 0x08, 0x10, 0x20, 0x40, 0x80] ! unat (bit_index AND 7) \<noteq> 0 then 1 else 0)"

definition bn_ct_cswap :: "bytes \<Rightarrow> bytes \<Rightarrow> u32 \<Rightarrow> u8 \<Rightarrow> bytes \<times> bytes" where
  "bn_ct_cswap a b len swap =
     (let mask = 0 - (swap AND 1)
      in foldl (\<lambda>(a, b) i. let d = (a ! i XOR b ! i) AND mask in (a[i := a ! i XOR d], b[i := b ! i XOR d]))
           (a, b) [0..<unat len])"

text \<open>The stripped value and its length.\<close>

fun bn_strip_leading_zeros :: "bytes \<Rightarrow> bytes" where
  "bn_strip_leading_zeros [] = []"
| "bn_strip_leading_zeros (b # bs) = (if b = 0 then bn_strip_leading_zeros bs else b # bs)"

definition bn_copy_aligned :: "bytes option \<Rightarrow> u32 \<Rightarrow> bytes option \<Rightarrow> u32 \<Rightarrow> noxtls_return_t \<times> bytes option" where
  "bn_copy_aligned dst dst_len src src_len =
     (if dst = None then (NOXTLS_RETURN_NULL, dst)
      else if src = None then (NOXTLS_RETURN_NULL, dst)
      else if dst_len = 0 then (NOXTLS_RETURN_INVALID_PARAM, dst)
      else
        let d = the (noxtls_secure_zero dst (unat dst_len)) in
        if src_len \<ge> dst_len
        then (NOXTLS_RETURN_SUCCESS,
              noxtls_copy_u8 (Some d) (unat dst_len) (Some (drop (unat (src_len - dst_len)) (the src))) (unat dst_len))
        else (let off = unat (dst_len - src_len) in
              (NOXTLS_RETURN_SUCCESS,
               Some (put_at off (the (noxtls_copy_u8 (Some (drop off d)) (unat dst_len) src (unat src_len))) d))))"

section \<open>What they compute\<close>

lemma first_difference_from:
  "first_difference a b [m..<n] = Some i \<Longrightarrow> m \<le> i \<and> i < n \<and> a ! i \<noteq> b ! i \<and> (\<forall>j. m \<le> j \<longrightarrow> j < i \<longrightarrow> a ! j = b ! j)"
proof (induction "n - m" arbitrary: m)
  case (Suc k)
  then have "[m..<n] = m # [Suc m..<n]" by (simp add: upt_conv_Cons)
  then show ?case
  proof (cases "a ! m = b ! m")
    case True
    then have "Suc m \<le> i \<and> i < n \<and> a ! i \<noteq> b ! i \<and> (\<forall>j. Suc m \<le> j \<longrightarrow> j < i \<longrightarrow> a ! j = b ! j)"
      using Suc.hyps(1) [of "Suc m"] Suc.hyps(2) Suc.prems \<open>[m..<n] = m # [Suc m..<n]\<close> by simp
    then show ?thesis using True by (metis Suc_leD Suc_leI le_neq_implies_less)
  qed (use Suc.hyps(2) Suc.prems in simp)
qed simp

lemma first_difference_None: "first_difference a b js = None \<longleftrightarrow> (\<forall>j\<in>set js. a ! j = b ! j)"
  by (induction js) auto

lemma be_value_append: "be_value (x @ y) = be_value x * 256 ^ length y + be_value y"
proof (induction y rule: rev_induct)
  case (snoc b y)
  have "be_value (x @ y @ [b]) = be_value (x @ y) * 256 + unat b"
    using be_value_simps(2) [of "x @ y" b] by simp
  then show ?case using snoc by (simp add: algebra_simps)
qed simp

lemma be_value_compare:
  assumes "length a = length b" "i < length a" "\<And>j. j < i \<Longrightarrow> a ! j = b ! j" "a ! i > b ! i"
  shows "be_value a > be_value b"
proof -
  let ?n = "length a - Suc i"
  have split: "be_value x = be_value (take i x) * 256 ^ Suc ?n + unat (x ! i) * 256 ^ ?n + be_value (drop (Suc i) x)"
    if "length x = length a" for x
  proof -
    have "x = take i x @ [x ! i] @ drop (Suc i) x" using assms(2) that by (simp add: id_take_nth_drop)
    then have "be_value x = be_value (take i x @ [x ! i] @ drop (Suc i) x)" by simp
    also have "\<dots> = be_value (take i x) * 256 ^ Suc ?n + unat (x ! i) * 256 ^ ?n + be_value (drop (Suc i) x)"
      unfolding be_value_append using that assms(2) be_value_simps(2) [of "[]" "x ! i"]
      by (simp add: Suc_diff_Suc)
    finally show ?thesis .
  qed
  have "take i a = take i b" using assms by (intro nth_equalityI) auto
  moreover have "be_value (drop (Suc i) b) < 256 ^ ?n"
    using be_value_less [of "drop (Suc i) b"] assms(1) by simp
  moreover have "(unat (b ! i) + 1) * 256 ^ ?n \<le> unat (a ! i) * 256 ^ ?n"
    using assms(4) by (intro mult_right_mono) (simp_all add: word_less_nat_alt)
  ultimately show ?thesis using split [of a] split [of b] assms(1) by (simp add: algebra_simps)
qed

lemma cmp_value:
  assumes "length a = unat len" "length b = unat len"
  shows "noxtls_bn_cmp (Some a) (Some b) len = sgn (int (be_value a) - int (be_value b))"
    and "len \<noteq> 0 \<Longrightarrow> bn_ge (Some a) (Some b) len = (if be_value a \<ge> be_value b then 1 else 0)"
proof -
  have "noxtls_bn_cmp (Some a) (Some b) len = sgn (int (be_value a) - int (be_value b)) \<and>
      (len \<noteq> 0 \<longrightarrow> bn_ge (Some a) (Some b) len = (if be_value a \<ge> be_value b then 1 else 0))"
  proof (cases "first_difference a b [0..<unat len]")
    case None
    then have "a = b" using assms by (intro nth_equalityI) (auto simp: first_difference_None)
    then show ?thesis using None by (simp add: noxtls_bn_cmp_def bn_ge_def)
  next
    case (Some i)
    note d = first_difference_from [OF Some]
    then have "len \<noteq> 0" by auto
    show ?thesis
    proof (cases "a ! i > b ! i")
      case True
      then have "be_value a > be_value b" using d assms by (intro be_value_compare [of a b i]) auto
      then show ?thesis using Some True \<open>len \<noteq> 0\<close> by (simp add: noxtls_bn_cmp_def bn_ge_def)
    next
      case False
      then have "b ! i > a ! i" using d by (simp add: not_less le_less)
      then have "be_value b > be_value a" using d assms by (intro be_value_compare [of b a i]) auto
      then show ?thesis using Some False \<open>len \<noteq> 0\<close> by (simp add: noxtls_bn_cmp_def bn_ge_def)
    qed
  qed
  then show "noxtls_bn_cmp (Some a) (Some b) len = sgn (int (be_value a) - int (be_value b))"
    "len \<noteq> 0 \<Longrightarrow> bn_ge (Some a) (Some b) len = (if be_value a \<ge> be_value b then 1 else 0)" by simp_all
qed

text \<open>A loop whose last carry stands for \<open>256 ^ n\<close> computes a value modulo \<open>256 ^ n\<close>.\<close>

lemma modulo_carry:
  assumes "int v + 256 ^ n * c = t" "v < 256 ^ n"
  shows "int v = t mod 256 ^ n"
proof -
  have "t mod 256 ^ n = int v mod 256 ^ n" unfolding assms(1) [symmetric] by simp
  also have "\<dots> = int v" using assms(2) by (intro mod_pos_pos_trivial) (auto simp flip: of_nat_less_iff)
  finally show ?thesis by simp
qed

lemma add_byte:
  assumes "carry \<le> (1 :: u16)" "ucast a + ucast b + carry = (s :: u16)"
  shows "(ucast (drop_bit 8 (ucast s :: u32)) :: u16) \<le> 1 \<and>
    uint (ucast (s AND 0xFF) :: u8) + 256 * uint (ucast (drop_bit 8 (ucast s :: u32)) :: u16) =
      uint (a :: u8) + uint (b :: u8) + uint carry"
proof -
  have c: "uint carry \<le> 1" using assms(1) by (simp add: word_le_def)
  have b: "uint a \<le> 255" "uint b \<le> 255" using uint_lt2p [of a] uint_lt2p [of b] by simp_all
  have "uint (ucast a + ucast b :: u16) = uint a + uint b"
    using b by (subst uint_add_small) (simp_all add: uint_ucast_up)
  then have s: "uint s = uint a + uint b + uint carry"
    unfolding assms(2) [symmetric] using b c by (subst uint_add_small) simp_all
  have small: "uint s div 256 \<le> 1" "0 \<le> uint s div 256" using b c s by (simp, simp add: pos_imp_zdiv_nonneg_iff)
  then have d: "uint (ucast (drop_bit 8 (ucast s :: u32)) :: u16) = uint s div 256"
    by (simp add: uint_ucast_down uint_drop_bit uint_ucast_up mod_pos_pos_trivial)
  show ?thesis
    using d s small by (simp add: word_le_def uint_ucast_down)
qed

lemma sub_byte_value:
  assumes "borrow = 0 \<or> borrow = 1" "sub_byte a b borrow = (y, borrow')"
  shows "(borrow' = 0 \<or> borrow' = 1) \<and> uint y + 256 * - borrow' = uint a - uint b + - borrow"
proof -
  have small: "uint (word_of_int d :: u8) = d" if "0 \<le> d" "d < 256" for d
    using that by (simp add: uint_word_of_int)
  define d where "d = uint a - uint b - borrow"
  have d: "-256 \<le> d" "d < 256"
  proof -
    have "uint a < 256" "uint b < 256" using uint_lt2p [of a] uint_lt2p [of b] by simp_all
    moreover have "0 \<le> borrow" "borrow \<le> 1" using assms(1) by auto
    ultimately show "-256 \<le> d" "d < 256"
      using uint_ge_0 [of a] uint_ge_0 [of b] unfolding d_def by linarith+
  qed
  show ?thesis
  proof (cases "d < 0")
    case True
    then have "borrow' = 1" "uint y = d + 256"
      using assms(2) small [of "d + 256"] d by (auto simp: sub_byte_def d_def Let_def simp del: of_int_add of_int_diff)
    then show ?thesis by (simp add: d_def)
  next
    case False
    then have "borrow' = 0" "uint y = d"
      using assms(2) small [of d] d by (auto simp: sub_byte_def d_def Let_def simp del: of_int_add of_int_diff)
    then show ?thesis by (simp add: d_def)
  qed
qed

lemma halve_byte:
  fixes byte carry :: u8
  assumes "carry = 0 \<or> carry = 0x80"
  shows "unat (ucast (drop_bit 1 (ucast byte :: u32) OR ucast carry) :: u8) = unat byte div 2 + unat carry"
proof -
  have "(ucast (drop_bit 1 (ucast byte :: u32) OR ucast carry) :: u8) = drop_bit 1 byte OR carry"
    by (rule bit_word_eqI) (auto simp: bit_simps dest: bit_imp_le_length)
  moreover have "drop_bit 1 byte AND 0x80 = 0"
  proof -
    have "drop_bit 1 byte AND 2 ^ 7 = 0"
      by (subst and_single_bit_eq_0_iff) (auto simp: bit_simps dest: bit_imp_le_length)
    then show ?thesis by simp
  qed
  ultimately have "(ucast (drop_bit 1 (ucast byte :: u32) OR ucast carry) :: u8) = drop_bit 1 byte + carry"
    using assms by (auto simp: disjunctive_add_eq_or)
  moreover have "unat (drop_bit 1 byte) = unat byte div 2"
    by (subst unsigned_drop_bit_eq, subst take_bit_nat_eq_self [OF unsigned_less]) (simp add: drop_bit_eq_div)
  moreover have "unat byte < 256" using unsigned_less [of byte, where 'a = nat] by simp
  then have "unat byte div 2 < 128" by simp
  then have "unat byte div 2 + unat carry < 256" using assms by auto
  ultimately show ?thesis by (simp add: unat_add_small)
qed

lemma rshift_loop:
  fixes x :: bytes and c :: u8
  assumes "carry_loop [0..<k] (\<lambda>_ byte carry. (ucast (drop_bit 1 (ucast byte :: u32) OR ucast carry),
      if byte AND 1 \<noteq> 0 then 0x80 else 0)) x 0 = (x', c)" "k \<le> length x"
  shows "length x' = length x \<and> (\<forall>j\<ge>k. x' ! j = x ! j) \<and> (c = 0 \<or> c = 0x80) \<and>
    be_value (take k x) = 2 * be_value (take k x') + unat c div 128"
  using assms
proof (induction k arbitrary: x' c)
  case (Suc k)
  let ?body = "\<lambda>_ byte carry. (ucast (drop_bit 1 (ucast byte :: u32) OR ucast carry) :: u8,
      if byte AND 1 \<noteq> 0 then 0x80 else 0 :: u8)"
  obtain x1 c1 where r: "carry_loop [0..<k] ?body x 0 = (x1, c1)" by fastforce
  note ih = Suc.IH [OF r]
  have x': "x' = x1[k := ucast (drop_bit 1 (ucast (x ! k) :: u32) OR ucast c1)]" "c = (if x ! k AND 1 \<noteq> 0 then 0x80 else 0)"
    using Suc.prems r ih by (auto simp: carry_loop_def carry_step_def)
  have b: "unat (x' ! k) = unat (x ! k) div 2 + unat c1"
    using halve_byte [of c1 "x ! k"] x'(1) ih Suc.prems(2) by simp
  have odd: "unat c div 128 = unat (x ! k) mod 2"
  proof -
    have "(x ! k AND 1 = 0) = even (unat (x ! k))"
      using unat_and_mask [of "x ! k" 1] by (auto simp: mask_eq_exp_minus_1 unat_eq_0 [symmetric] even_iff_mod_2_eq_zero)
    then show ?thesis unfolding x'(2) by (auto simp: even_iff_mod_2_eq_zero odd_iff_mod_2_eq_one)
  qed
  have "be_value (take (Suc k) x) = be_value (take k x) * 256 + unat (x ! k)"
      "be_value (take (Suc k) x') = be_value (take k x1) * 256 + unat (x' ! k)"
    using Suc.prems(2) ih x'(1) by (simp_all add: take_Suc_conv_app_nth)
  moreover have "unat c1 = 128 * (unat c1 div 128)" using ih Suc.prems(2) by auto
  ultimately show ?case
    using ih Suc.prems(2) b odd x' by auto
qed (auto simp: carry_loop_def)

text \<open>
  Claim C26. On big-endian buffers of one length: the comparison is that of the values; addition and
  subtraction are exact modulo \<open>256 ^ len\<close>; the shift halves the value.
\<close>

theorem bn_byte_arithmetic:
  assumes "length a = unat len" "length b = unat len" "length r = unat len" and "len \<noteq> 0"
  shows "noxtls_bn_cmp (Some a) (Some b) len = sgn (int (be_value a) - int (be_value b)) \<and>
    (\<exists>s. noxtls_bn_add (Some r) (Some a) (Some b) len = (NOXTLS_RETURN_SUCCESS, Some s) \<and> length s = unat len \<and>
      int (be_value s) = (int (be_value a) + int (be_value b)) mod 256 ^ unat len) \<and>
    (\<exists>d. noxtls_bn_sub (Some r) (Some a) (Some b) len = (NOXTLS_RETURN_SUCCESS, Some d) \<and> length d = unat len \<and>
      int (be_value d) = (int (be_value a) - int (be_value b)) mod 256 ^ unat len) \<and>
    (unat len < 2 ^ 31 \<longrightarrow> (\<exists>h. noxtls_bn_rshift1 (Some a) len = (NOXTLS_RETURN_SUCCESS, Some h) \<and>
      length h = unat len \<and> be_value h = be_value a div 2))"
proof (intro conjI impI)
  let ?n = "unat len"
  have vals: "digits 256 (\<lambda>i. uint (x ! (?n - Suc i))) ?n = int (be_value x)" if "length x = ?n" for x :: bytes
    using that by (simp add: be_value_digits)
  show "noxtls_bn_cmp (Some a) (Some b) len = sgn (int (be_value a) - int (be_value b))"
    by (rule cmp_value) (use assms in simp_all)
  show "\<exists>s. noxtls_bn_add (Some r) (Some a) (Some b) len = (NOXTLS_RETURN_SUCCESS, Some s) \<and> length s = ?n \<and>
      int (be_value s) = (int (be_value a) + int (be_value b)) mod 256 ^ ?n"
  proof -
    let ?body = "\<lambda>j (_ :: u8) carry. let sum = ucast (a ! j) + ucast (b ! j) + carry :: u16
        in (ucast (sum AND 0xFF) :: u8, ucast (drop_bit 8 (ucast sum :: u32)) :: u16)"
    obtain s c where run: "carry_loop (rev [0..<?n]) ?body r 0 = (s, c)" by fastforce
    have "length s = length r \<and> c \<le> 1 \<and> int (be_value s) + 256 ^ ?n * uint c =
        digits 256 (\<lambda>i. uint (a ! (?n - 1 - i)) + uint (b ! (?n - 1 - i))) ?n + uint (0 :: u16)"
      by (rule byte_loop [where I = "\<lambda>c. c \<le> 1" and g = "\<lambda>i. uint (a ! i) + uint (b ! i)", OF run])
        (use assms(3) add_byte in \<open>auto simp: Let_def\<close>)
    then have "length s = ?n" "int (be_value s) + 256 ^ ?n * uint c = int (be_value a) + int (be_value b)"
      using assms by (simp_all add: digits_add vals)
    moreover from this have "int (be_value s) = (int (be_value a) + int (be_value b)) mod 256 ^ ?n"
      using be_value_less [of s] by (intro modulo_carry) simp_all
    ultimately show ?thesis using assms(4) run by (auto simp: noxtls_bn_add_def)
  qed
  show "\<exists>d. noxtls_bn_sub (Some r) (Some a) (Some b) len = (NOXTLS_RETURN_SUCCESS, Some d) \<and> length d = ?n \<and>
      int (be_value d) = (int (be_value a) - int (be_value b)) mod 256 ^ ?n"
  proof -
    let ?body = "\<lambda>j (_ :: u8). sub_byte (a ! j) (b ! j)"
    obtain d c where run: "carry_loop (rev [0..<?n]) ?body r 0 = (d, c)" by fastforce
    have "length d = length r \<and> (c = 0 \<or> c = 1) \<and> int (be_value d) + 256 ^ ?n * - c =
        digits 256 (\<lambda>i. uint (a ! (?n - 1 - i)) - uint (b ! (?n - 1 - i))) ?n + - 0"
      by (rule byte_loop [where I = "\<lambda>c. c = 0 \<or> c = 1" and cv = uminus and g = "\<lambda>i. uint (a ! i) - uint (b ! i)", OF run])
        (use assms(3) sub_byte_value in \<open>auto\<close>)
    then have "length d = ?n" "int (be_value d) + 256 ^ ?n * - c = int (be_value a) - int (be_value b)"
      using assms by (simp_all add: digits_diff vals)
    moreover from this have "int (be_value d) = (int (be_value a) - int (be_value b)) mod 256 ^ ?n"
      using be_value_less [of d] by (intro modulo_carry [where c = "- c"]) simp_all
    ultimately show ?thesis using assms(4) run by (auto simp: noxtls_bn_sub_def)
  qed
  assume small: "?n < 2 ^ 31"
  have int32: "nat (sint len) = ?n"
  proof -
    have "int (unat len) < int (2 ^ 31)" by (rule of_nat_less_iff [THEN iffD2]) (rule small)
    then have "uint len < 2 ^ 31" by simp
    then have "sint len = uint len"
      by (simp add: sint_uint signed_take_bit_int_eq_self_iff order_trans [of _ 0])
    then show ?thesis by simp
  qed
  show "\<exists>h. noxtls_bn_rshift1 (Some a) len = (NOXTLS_RETURN_SUCCESS, Some h) \<and> length h = ?n \<and> be_value h = be_value a div 2"
  proof -
    obtain h c where run: "carry_loop [0..<?n] (\<lambda>_ byte carry. (ucast (drop_bit 1 (ucast byte :: u32) OR ucast carry) :: u8,
        if byte AND 1 \<noteq> 0 then 0x80 else 0)) a 0 = (h, c :: u8)" by fastforce
    have "length h = length a" "c = 0 \<or> c = 0x80" "be_value a = 2 * be_value h + unat c div 128"
      using rshift_loop [OF run] assms(1) by simp_all
    then show ?thesis using run assms(1,4) by (auto simp: noxtls_bn_rshift1_def int32)
  qed
qed

theorem bn_byte_arithmetic_witness:
  "noxtls_bn_cmp (Some [1, 2]) (Some [1, 3]) 2 = -1 \<and>
   (\<exists>s. noxtls_bn_add (Some [0, 0]) (Some [0, 255]) (Some [1, 2]) 2 = (NOXTLS_RETURN_SUCCESS, Some s) \<and>
     int (be_value s) = 513)"
  using bn_byte_arithmetic [of "[1, 2]" 2 "[1, 3]" "[0, 0]"] bn_byte_arithmetic [of "[0, 255]" 2 "[1, 2]" "[0, 0]"]
  by (simp add: be_value_def) blast

end
