(* ===== verification/Bn_Limbs.thy ===== *)
theory Bn_Limbs
  imports Bn_Bytes
begin

text \<open>
  The 32-bit limb routines of \<open>noxtls_bignum.c\<close>: conversion between big-endian bytes and little-endian
  limbs, comparison, subtraction, doubling, and the schoolbook multiplication \<open>noxtls_bn_mul\<close>.
  The limb helpers are static and called with valid pointers and non-zero lengths.
\<close>

section \<open>Conversions\<close>

definition zero_limbs :: "nat \<Rightarrow> u32 list \<Rightarrow> u32 list" where
  "zero_limbs n x = replicate n 0 @ drop n x"

text \<open>\<open>limbs[i / 4] |= byte << (8 * (i & 3))\<close> for the bytes from the last one, while they fit.\<close>

definition or_byte :: "bytes \<Rightarrow> nat \<Rightarrow> u32 list \<Rightarrow> nat \<Rightarrow> u32 list" where
  "or_byte bytes byte_len limbs i =
     limbs[i div 4 := limbs ! (i div 4) OR push_bit (8 * (i mod 4)) (ucast (bytes ! (byte_len - 1 - i)))]"

definition bn_bytes_to_limbs_le :: "u32 list \<Rightarrow> u32 \<Rightarrow> bytes \<Rightarrow> u32 \<Rightarrow> u32 list" where
  "bn_bytes_to_limbs_le limbs limb_len bytes byte_len =
     foldl (or_byte bytes (unat byte_len)) (zero_limbs (unat limb_len) limbs)
       (takeWhile (\<lambda>i. i div 4 < unat limb_len) [0..<unat byte_len])"

definition bn_be_to_limbs :: "u32 list \<Rightarrow> u32 \<Rightarrow> bytes \<Rightarrow> u32 \<Rightarrow> u32 list" where
  "bn_be_to_limbs out nlimbs be be_len =
     foldl (or_byte be (unat be_len)) (zero_limbs (unat nlimbs) out)
       (takeWhile (\<lambda>i. i div 4 < unat nlimbs) [0..<unat be_len])"

definition limb_byte :: "u32 list \<Rightarrow> nat \<Rightarrow> nat \<Rightarrow> u8" where
  "limb_byte limbs limb_len i =
     (if i div 4 < limb_len then ucast (drop_bit (8 * (i mod 4)) (limbs ! (i div 4))) else 0)"

definition bn_limbs_to_bytes_be :: "bytes \<Rightarrow> u32 \<Rightarrow> u32 list \<Rightarrow> u32 \<Rightarrow> bytes" where
  "bn_limbs_to_bytes_be out out_len limbs limb_len =
     foldl (\<lambda>out i. out[unat out_len - 1 - i := limb_byte limbs (unat limb_len) i])
       (the (noxtls_secure_zero (Some out) (unat out_len))) [0..<unat out_len]"

definition bn_limbs_to_be :: "bytes \<Rightarrow> u32 \<Rightarrow> u32 list \<Rightarrow> u32 \<Rightarrow> bytes" where
  "bn_limbs_to_be be be_len limbs nlimbs =
     foldl (\<lambda>be i. be[unat be_len - 1 - i := limb_byte limbs (unat nlimbs) i]) be [0..<unat be_len]"

section \<open>Comparison, subtraction, doubling\<close>

definition bn_ge_limbs :: "u32 list \<Rightarrow> u32 list \<Rightarrow> u32 \<Rightarrow> int" where
  "bn_ge_limbs a b limb_len =
     (case find (\<lambda>i. a ! i \<noteq> b ! i) (rev [0..<nat (sint limb_len)]) of
        None \<Rightarrow> 1
      | Some i \<Rightarrow> if a ! i > b ! i then 1 else 0)"

definition sub_limb :: "u32 \<Rightarrow> u32 \<Rightarrow> u64 \<Rightarrow> u32 \<times> u64" where
  "sub_limb a b borrow =
     (let av = ucast a :: u64; bv = ucast b + borrow
      in if av < bv then (ucast (av + push_bit 32 1 - bv), 1) else (ucast (av - bv), 0))"

definition bn_sub_limbs :: "u32 list \<Rightarrow> u32 list \<Rightarrow> u32 \<Rightarrow> u32 list" where
  "bn_sub_limbs a b limb_len = fst (carry_loop [0..<unat limb_len] (\<lambda>i v. sub_limb v (b ! i)) a 0)"

definition bn_sub_limbs_borrow :: "u32 list \<Rightarrow> u32 list \<Rightarrow> u32 \<Rightarrow> u32 list \<times> u64" where
  "bn_sub_limbs_borrow a b n = carry_loop [0..<unat n] (\<lambda>i v. sub_limb v (b ! i)) a 0"

text \<open>\<open>r = a - b\<close> with the borrow read from bit 63.\<close>

definition bn_limbs_sub :: "u32 list \<Rightarrow> u32 list \<Rightarrow> u32 list \<Rightarrow> u32 \<Rightarrow> u32 list \<times> u32" where
  "bn_limbs_sub r a b n =
     (case carry_loop [0..<unat n]
        (\<lambda>i _ borrow. let d = ucast (a ! i) - ucast (b ! i) - borrow :: u64 in (ucast d, drop_bit 63 d AND 1)) r 0 of
        (r, borrow) \<Rightarrow> (r, ucast (borrow :: u64)))"

definition bn_lshift1_limbs :: "u32 list \<Rightarrow> u32 \<Rightarrow> u32 list \<times> u32" where
  "bn_lshift1_limbs a limb_len =
     carry_loop [0..<unat limb_len] (\<lambda>_ v carry. (push_bit 1 v OR carry, drop_bit 31 v AND 1)) a 0"

section \<open>Multiplication\<close>

definition bn_muladd_hlp :: "u32 list \<Rightarrow> nat \<Rightarrow> u32 \<Rightarrow> u32 list \<Rightarrow> nat \<Rightarrow> u32 \<Rightarrow> u32 list \<times> u32" where
  "bn_muladd_hlp s n d r off c =
     (case carry_loop (map (\<lambda>i. off + i) [0..<n])
        (\<lambda>k v carry. let t = ucast (s ! (k - off)) * ucast d + ucast v + carry :: u64
                     in (ucast (t AND 0xFFFFFFFF), ucast (ucast (drop_bit 32 t) :: u32))) r (ucast c) of
        (r, carry) \<Rightarrow> (r, ucast (carry :: u64)))"

definition mul_loop :: "u32 list \<Rightarrow> nat \<Rightarrow> u32 list \<Rightarrow> nat \<Rightarrow> u32 list \<Rightarrow> u32 list" where
  "mul_loop a na b nb r =
     foldl (\<lambda>r i. case bn_muladd_hlp a na (b ! i) r i 0 of (r, carry) \<Rightarrow> r[i + na := carry]) r [0..<nb]"

definition BN_MUL_STACK_LIMBS :: u32 where "BN_MUL_STACK_LIMBS = 17"

definition mul_product :: "bytes \<Rightarrow> bytes \<Rightarrow> u32 \<Rightarrow> bytes \<Rightarrow> u32 \<Rightarrow> u32 \<Rightarrow> u32 \<Rightarrow> bytes" where
  "mul_product result a a_len b b_len n_limbs_a n_limbs_b =
     (let n_limbs_r = n_limbs_a + n_limbs_b;
          al = bn_bytes_to_limbs_le (replicate (unat n_limbs_a) 0) n_limbs_a a a_len;
          bl = bn_bytes_to_limbs_le (replicate (unat n_limbs_b) 0) n_limbs_b b b_len;
          rl = mul_loop al (unat n_limbs_a) bl (unat n_limbs_b) (replicate (unat n_limbs_r) 0)
      in bn_limbs_to_bytes_be result (a_len + b_len) rl n_limbs_r)"

text \<open>Operands of more than 17 limbs use three heap buffers, any of which may be refused.\<close>

definition noxtls_bn_mul ::
    "bool list \<Rightarrow> bytes option \<Rightarrow> bytes option \<Rightarrow> u32 \<Rightarrow> bytes option \<Rightarrow> u32 \<Rightarrow> noxtls_return_t \<times> bytes option \<times> bool list" where
  "noxtls_bn_mul allocs result a a_len b b_len =
     (if result = None \<or> a = None \<or> b = None then (NOXTLS_RETURN_NULL, result, allocs)
      else if a_len = 0 \<or> b_len = 0 then (NOXTLS_RETURN_INVALID_PARAM, result, allocs)
      else if a_len > 0xFFFFFFFF - b_len \<or> a_len > 0xFFFFFFFF - 3 \<or> b_len > 0xFFFFFFFF - 3
        then (NOXTLS_RETURN_FAILED, result, allocs)
      else
        let result_len = a_len + b_len; n_limbs_a = (a_len + 3) div 4; n_limbs_b = (b_len + 3) div 4 in
        if n_limbs_a > 0xFFFFFFFF - n_limbs_b then (NOXTLS_RETURN_FAILED, result, allocs)
        else
          let product = mul_product (the result) (the a) a_len (the b) b_len n_limbs_a n_limbs_b
          in if n_limbs_a \<le> BN_MUL_STACK_LIMBS \<and> n_limbs_b \<le> BN_MUL_STACK_LIMBS
             then (NOXTLS_RETURN_SUCCESS, Some product, allocs)
             else
               let (ok1, allocs) = alloc_next allocs; (ok2, allocs) = alloc_next allocs; (ok3, allocs) = alloc_next allocs
               in if \<not> ok1 \<or> \<not> ok2 \<or> \<not> ok3
                  then (NOXTLS_RETURN_NOT_ENOUGH_MEMORY, noxtls_secure_zero result (unat result_len), allocs)
                  else (NOXTLS_RETURN_SUCCESS, Some product, allocs))"

section \<open>Values of the conversions\<close>

lemma lval_split: "lval x (m + n) = lval x m + 2 ^ (32 * m) * digits (2 ^ 32) (\<lambda>i. uint (x ! (m + i))) n"
  by (simp add: lval_def digits_split power_mult)

lemma lval_zero [simp]: "n \<le> m \<Longrightarrow> lval (replicate m 0 @ x) n = 0" "n \<le> m \<Longrightarrow> lval (replicate m 0) n = 0"
proof -
  assume "n \<le> m"
  then show "lval (replicate m 0 @ x) n = 0" using lval_cong [of n "replicate m 0 @ x" "replicate m 0"]
    by (simp add: lval_def nth_append digits_cong [where g = "\<lambda>_. 0"])
  show "lval (replicate m 0) n = 0" using \<open>n \<le> m\<close>
    by (simp add: lval_def digits_cong [where g = "\<lambda>_. 0"])
qed

lemma lval_update:
  assumes "j < n" "j < length x"
  shows "lval (x[j := v]) n = lval x n + 2 ^ (32 * j) * (uint v - uint (x ! j))"
proof -
  obtain k where n: "n = j + Suc k" using assms(1) by (metis add_Suc_right less_iff_Suc_add)
  have "lval (x[j := v]) j = lval x j" by (rule lval_cong) simp
  moreover have "digits (2 ^ 32) (\<lambda>i. uint (x[j := v] ! (j + Suc i))) k = digits (2 ^ 32) (\<lambda>i. uint (x ! (j + Suc i))) k"
    by (rule digits_cong) simp
  ultimately show ?thesis using assms(2) unfolding n lval_split digits_shift by (simp add: algebra_simps)
qed

lemma or_byte_value:
  fixes w :: u32 and b :: u8
  assumes "uint w < 2 ^ k" "k \<le> 24"
  shows "uint (w OR push_bit k (ucast b)) = uint w + uint b * 2 ^ k"
proof -
  have "int (unat w) < int (2 ^ k)" using assms(1) by simp
  then have "unat w < 2 ^ k" by (simp only: of_nat_less_iff)
  then have "\<not> bit w n" if "k \<le> n" for n using high_bits_clear that by blast
  then have disj: "w AND push_bit k (ucast b) = 0"
    by (intro bit_word_eqI) (auto simp: bit_simps not_le)
  have "uint b < 256" using uint_lt2p [of b] by simp
  then have "uint b * 2 ^ k \<le> 255 * 2 ^ k" by (intro mult_right_mono) auto
  moreover have "(2 :: int) ^ k \<le> 2 ^ 24" using assms(2) by (rule power_increasing) simp
  ultimately have "uint b * 2 ^ k + 2 ^ k \<le> 256 * 2 ^ 24" by linarith
  then have small: "uint b * 2 ^ k + 2 ^ k \<le> 2 ^ 32" by simp
  have pos: "0 \<le> uint b * 2 ^ k" by simp
  have push: "uint (push_bit k (ucast b :: u32)) = uint b * 2 ^ k"
  proof -
    have "uint (push_bit k (ucast b :: u32)) = take_bit 32 (push_bit k (uint b))"
      by (simp add: unsigned_push_bit_eq uint_ucast_up)
    also have "\<dots> = (uint b * 2 ^ k) mod 2 ^ 32"
      by (simp only: take_bit_eq_mod push_bit_eq_mult)
    also have "\<dots> = uint b * 2 ^ k" 
    proof (rule mod_pos_pos_trivial [OF pos])
      have "0 < (2 :: int) ^ k" by simp
      then show "uint b * 2 ^ k < 2 ^ 32" using small by linarith
    qed
    finally show ?thesis .
  qed
  have "w OR push_bit k (ucast b) = w + push_bit k (ucast b)" using disj by (simp add: disjunctive_add_eq_or)
  then show ?thesis using push small assms(1) by (simp add: uint_add_small)
qed

lemma takeWhile_fit: "takeWhile (\<lambda>i. i div 4 < n) [0..<m] = [0..<min m (4 * n)]"
proof (induction m)
  case (Suc m)
  show ?case
  proof (cases "m div 4 < n")
    case True
    then have "m < 4 * n" by simp
    then have "min m (4 * n) = m" "min (Suc m) (4 * n) = Suc m" by simp_all
    then have "takeWhile (\<lambda>i. i div 4 < n) [0..<m] = [0..<m]" using Suc by simp
    then have "\<forall>i\<in>set [0..<m]. i div 4 < n" by (metis takeWhile_eq_all_conv)
    then show ?thesis using True \<open>min (Suc m) (4 * n) = Suc m\<close> by (simp add: takeWhile_append2)
  next
    case False
    then have "4 * n \<le> m" by simp
    then have "min m (4 * n) = 4 * n" "min (Suc m) (4 * n) = 4 * n" by simp_all
    moreover have "takeWhile (\<lambda>i. i div 4 < n) ([0..<m] @ [m]) = takeWhile (\<lambda>i. i div 4 < n) [0..<m]"
      using False takeWhile_eq_all_conv [of "\<lambda>i. i div 4 < n" "[0..<m]"] 
      by (auto simp: takeWhile_append intro!: takeWhile_eq_all_conv [THEN iffD2, symmetric])
    ultimately show ?thesis using Suc by simp
  qed
qed simp

lemma power_256: "(256 :: int) ^ k = 2 ^ (8 * k)"
proof -
  have "(256 :: int) = 2 ^ 8" by simp
  then show ?thesis by (simp only: power_mult)
qed

lemma load_loop:
  assumes len: "length x = n" and m: "m \<le> 4 * n" and zero: "\<And>j. j < n \<Longrightarrow> x ! j = 0"
  shows "length (foldl (or_byte be bl) x [0..<m]) = n \<and>
    (\<forall>j<n. uint (foldl (or_byte be bl) x [0..<m] ! j) < 2 ^ (8 * (m - 4 * j))) \<and>
    lval (foldl (or_byte be bl) x [0..<m]) n = digits 256 (\<lambda>i. uint (be ! (bl - 1 - i))) m"
  using m
proof (induction m)
  case 0
  have "lval x n = lval (replicate n 0) n" by (rule lval_cong) (simp add: zero)
  then show ?case using len zero by simp
next
  case (Suc m)
  let ?y = "foldl (or_byte be bl) x [0..<m]" and ?z = "foldl (or_byte be bl) x [0..<Suc m]"
  define j k b where "j = m div 4" and "k = 8 * (m mod 4)" and "b = be ! (bl - 1 - m)"
  have m: "m = 4 * j + m mod 4" "j < n" using Suc.prems by (auto simp: j_def)
  then have mj: "m - 4 * j = m mod 4" by simp
  have ih: "length ?y = n" "\<forall>j<n. uint (?y ! j) < 2 ^ (8 * (m - 4 * j))"
    "lval ?y n = digits 256 (\<lambda>i. uint (be ! (bl - 1 - i))) m" using Suc by auto
  have z: "?z = ?y[j := ?y ! j OR push_bit k (ucast b)]" by (simp add: or_byte_def j_def k_def b_def)
  have small: "uint (?y ! j) < 2 ^ k" using ih(2) m(2) unfolding k_def mj [symmetric] by blast
  have k: "k \<le> 24" unfolding k_def using mod_less_divisor [of 4 m] by simp
  note val = or_byte_value [OF small k, of b]
  have new: "uint (?y ! j OR push_bit k (ucast b)) < 2 ^ (8 * (Suc m - 4 * j))"
  proof -
    have "uint b \<le> 255" using uint_lt2p [of b] by simp
    then have "uint b * 2 ^ k \<le> 255 * 2 ^ k" by (intro mult_right_mono) auto
    then have "uint (?y ! j OR push_bit k (ucast b)) < 256 * 2 ^ k" using small unfolding val by linarith
    also have "(256 :: int) * 2 ^ k = 2 ^ (8 + k)" by (simp add: power_add)
    also have "8 + k = 8 * (Suc m - 4 * j)" unfolding k_def mj [symmetric] using m(1) by (simp add: Suc_diff_le)
    finally show ?thesis .
  qed
  have "uint (?z ! i) < 2 ^ (8 * (Suc m - 4 * i))" if "i < n" for i
  proof (cases "i = j")
    case True
    then show ?thesis using new z ih(1) m(2) by simp
  next
    case False
    have "uint (?y ! i) < 2 ^ (8 * (m - 4 * i))" using ih(2) that by blast
    also have "\<dots> \<le> 2 ^ (8 * (Suc m - 4 * i))" by (intro power_increasing) auto
    finally show ?thesis using False z by simp
  qed
  moreover have "lval ?z n = digits 256 (\<lambda>i. uint (be ! (bl - 1 - i))) (Suc m)"
  proof -
    have "2 ^ (32 * j) * 2 ^ k = (256 :: int) ^ m"
      unfolding power_256 power_add [symmetric] k_def using m(1) by (intro arg_cong [where f = "\<lambda>e. 2 ^ e"]) simp
    then have "2 ^ (32 * j) * (uint b * 2 ^ k) = 256 ^ m * uint b" by (simp add: mult.left_commute)
    moreover have "lval ?z n = lval ?y n + 2 ^ (32 * j) * (uint b * 2 ^ k)"
      unfolding z using lval_update [of j n ?y] m(2) ih(1) val by simp
    ultimately show ?thesis using ih(3) by (simp add: b_def)
  qed
  ultimately show ?case using ih(1) z by simp
qed

lemma digits_mod:
  assumes "\<And>i. 0 \<le> f i \<and> f i < B" "0 < B"
  shows "digits B f (m + k) mod B ^ m = digits B f m"
proof -
  have "0 \<le> digits B f m" "digits B f m < B ^ m" using assms by (auto intro: digits_nonneg digits_less)
  then show ?thesis by (simp add: digits_split)
qed

lemma load_value:
  assumes "length x = n" "\<And>j. j < n \<Longrightarrow> x ! j = 0" "length be = bl"
  defines "y \<equiv> foldl (or_byte be bl) x (takeWhile (\<lambda>i. i div 4 < n) [0..<bl])"
  shows "length y = n" "lval y n = int (be_value be) mod 2 ^ (32 * n)"
proof -
  let ?f = "\<lambda>i. uint (be ! (bl - 1 - i))" and ?m = "min bl (4 * n)"
  have y: "length y = n" "lval y n = digits 256 ?f ?m"
    unfolding y_def takeWhile_fit using load_loop [OF assms(1) _ assms(2), of ?m be bl] by simp_all
  show "length y = n" by fact
  have b: "0 \<le> ?f i \<and> ?f i < 256" for i using uint_lt2p [of "be ! (bl - 1 - i)"] by simp
  have e: "(2 :: int) ^ (32 * n) = 256 ^ (4 * n)" by (simp add: power_256)
  have v: "int (be_value be) = digits 256 ?f bl" using be_value_digits [of be] assms(3) by simp
  show "lval y n = int (be_value be) mod 2 ^ (32 * n)"
  proof (cases "bl \<le> 4 * n")
    case True
    have "digits 256 ?f bl < 256 ^ bl" "0 \<le> digits 256 ?f bl" using b by (auto intro: digits_less digits_nonneg)
    moreover have "(256 :: int) ^ bl \<le> 256 ^ (4 * n)" using True by (intro power_increasing) auto
    ultimately show ?thesis using y(2) True unfolding v e
      by (simp del: One_nat_def add: mod_pos_pos_trivial order_less_le_trans)
  next
    case False
    then have "digits 256 ?f bl mod 256 ^ (4 * n) = digits 256 ?f (4 * n)"
      using digits_mod [of ?f 256 "4 * n" "bl - 4 * n"] b by simp
    then show ?thesis using y(2) False unfolding v e by simp
  qed
qed

lemma load_limbs:
  assumes "length x = unat n" "length be = unat len"
  shows "length (bn_be_to_limbs x n be len) = unat n"
    "lval (bn_be_to_limbs x n be len) (unat n) = int (be_value be) mod 2 ^ (32 * unat n)"
    "bn_bytes_to_limbs_le x n be len = bn_be_to_limbs x n be len"
  unfolding bn_be_to_limbs_def bn_bytes_to_limbs_le_def
  using load_value [of "zero_limbs (unat n) x" "unat n" be "unat len"] assms
  by (simp_all add: zero_limbs_def)

text \<open>Writing the digits of a value back.\<close>

lemma digits_of: "0 < B \<Longrightarrow> digits B (\<lambda>i. v div B ^ i mod B) n = v mod (B :: int) ^ n"
proof (induction n)
  case (Suc n)
  then show ?case using zmod_zmult2_eq [of B v "B ^ n"] by (simp add: mult.commute)
qed simp

lemma mod_times_div: "0 < b \<Longrightarrow> 0 \<le> c \<Longrightarrow> v mod (b * c) div b = v div b mod (c :: int)"
  by (simp add: zmod_zmult2_eq)

lemma digits_digit:
  assumes "\<And>i. 0 \<le> f i \<and> f i < B" "0 < B" "j < n"
  shows "digits B f n div B ^ j mod B = f j"
proof -
  obtain k where n: "n = j + Suc k" using assms(3) by (metis add_Suc_right less_iff_Suc_add)
  have "0 \<le> digits B f j" "digits B f j < B ^ j" using assms by (auto intro: digits_nonneg digits_less)
  then have "digits B f n div B ^ j = digits B (\<lambda>i. f (j + i)) (Suc k)"
    unfolding n digits_split using assms(2) by (simp del: digits.simps add: div_add1_eq)
  then show ?thesis using assms(1) [of j] unfolding digits_shift by simp
qed

lemma lval_digit: "j < n \<Longrightarrow> uint (x ! j) = lval x n div 2 ^ (32 * j) mod 2 ^ 32"
  using digits_digit [of "\<lambda>i. uint (x ! i)" "2 ^ 32" j n] uint_lt2p [where 'a = 32]
  by (simp add: lval_def power_mult)

lemma limb_byte_value: "uint (limb_byte x n i) = lval x n div 256 ^ i mod 256"
proof (cases "i div 4 < n")
  case True
  define j k where "j = i div 4" and "k = i mod 4"
  have i: "i = 4 * j + k" "k < 4" by (simp_all add: j_def k_def)
  have "(2 :: int) ^ 32 = 2 ^ (8 * k + (32 - 8 * k))" using i(2) by simp
  then have e: "(2 :: int) ^ 32 = 2 ^ (8 * k) * 2 ^ (32 - 8 * k)" by (simp only: power_add)
  have "lval x n div 2 ^ (32 * j) mod 2 ^ 32 div 2 ^ (8 * k) =
      lval x n div 2 ^ (32 * j) div 2 ^ (8 * k) mod 2 ^ (32 - 8 * k)"
    unfolding e by (rule mod_times_div) simp_all
  moreover have "(256 :: int) dvd 2 ^ (32 - 8 * k)"
    using i(2) le_imp_power_dvd [of 8 "32 - 8 * k" "2 :: int"] by simp
  ultimately have "lval x n div 2 ^ (32 * j) mod 2 ^ 32 div 2 ^ (8 * k) mod 256 =
      lval x n div 2 ^ (32 * j) div 2 ^ (8 * k) mod 256" by (simp add: mod_mod_cancel)
  also have "\<dots> = lval x n div 256 ^ i mod 256"
    unfolding power_256 i(1) by (simp add: power_add zdiv_zmult2_eq distrib_left)
  finally show ?thesis using True
    by (simp add: limb_byte_def uint_ucast_down uint_drop_bit lval_digit [of "i div 4" n x] j_def k_def)
next
  case False
  then have "(2 :: int) ^ (32 * n) \<le> 256 ^ i" unfolding power_256 by (intro power_increasing) auto
  then have "lval x n div 256 ^ i = 0" using lval_bounds [of x n] by (intro div_pos_pos_trivial) auto
  then show ?thesis using False by (simp add: limb_byte_def)
qed

lemma store_loop:
  assumes "length out = len" "m \<le> len"
  shows "length (foldl (\<lambda>out i. out[len - 1 - i := f i]) out [0..<m]) = len \<and>
    (\<forall>i<m. foldl (\<lambda>out i. out[len - 1 - i := f i]) out [0..<m] ! (len - 1 - i) = f i)"
  using assms(2)
proof (induction m)
  case (Suc m)
  then show ?case by (auto simp: less_Suc_eq nth_list_update)
qed (simp add: assms(1))

lemma store_value:
  fixes out :: bytes and x :: "u32 list" and n :: nat
  assumes "length out = len"
  defines "y \<equiv> foldl (\<lambda>out i. out[len - 1 - i := limb_byte x n i]) out [0..<len]"
  shows "length y = len" "int (be_value y) = lval x n mod 256 ^ len"
proof -
  have y: "length y = len" "\<And>i. i < len \<Longrightarrow> y ! (len - 1 - i) = limb_byte x n i"
    unfolding y_def using store_loop [OF assms(1) order_refl, of "limb_byte x n"] by blast+
  show "length y = len" by fact
  have "int (be_value y) = digits 256 (\<lambda>i. uint (limb_byte x n i)) len"
    unfolding be_value_digits y(1) by (rule digits_cong) (subst y(2), simp_all)
  then show "int (be_value y) = lval x n mod 256 ^ len" by (simp add: limb_byte_value digits_of)
qed

lemma store_limbs:
  assumes "length out = unat len"
  shows "length (bn_limbs_to_be out len x n) = unat len"
    "int (be_value (bn_limbs_to_be out len x n)) = lval x (unat n) mod 256 ^ unat len"
    "length (bn_limbs_to_bytes_be out len x n) = unat len"
    "int (be_value (bn_limbs_to_bytes_be out len x n)) = lval x (unat n) mod 256 ^ unat len"
  unfolding bn_limbs_to_be_def bn_limbs_to_bytes_be_def
  using store_value [OF assms, of x "unat n"]
    store_value [of "replicate (unat len) 0" "unat len" x "unat n"] assms
  by (simp_all add: secure_zero_all)

section \<open>Values of the loops\<close>

lemma sub_limb_value:
  assumes "uint borrow \<le> 1" "sub_limb a b borrow = (y, borrow')"
  shows "uint borrow' \<le> 1 \<and> uint y + 2 ^ 32 * - uint borrow' = uint a - uint b + - uint borrow"
proof -
  have r: "0 \<le> uint a" "uint a < 2 ^ 32" "0 \<le> uint b" "uint b < 2 ^ 32" "0 \<le> uint borrow"
    using uint_lt2p [of a] uint_lt2p [of b] uint_ge_0 [of a] uint_ge_0 [of b] uint_ge_0 [of borrow] by simp_all
  have av: "uint (ucast a :: u64) = uint a" by (simp add: uint_ucast_up)
  have bv: "uint (ucast b + borrow :: u64) = uint b + uint borrow"
    using r assms(1) by (subst uint_add_small) (simp_all add: uint_ucast_up)
  show ?thesis
  proof (cases "uint a < uint b + uint borrow")
    case True
    have s: "uint (ucast a + push_bit 32 1 :: u64) = uint a + 2 ^ 32"
      using r by (subst uint_add_small) (simp_all add: uint_ucast_up)
    have le: "uint b + uint borrow \<le> uint a + 2 ^ 32" using r assms(1) by linarith
    have "uint (ucast a + push_bit 32 1 - (ucast b + borrow) :: u64) = uint a + 2 ^ 32 - (uint b + uint borrow)"
      using s bv le by (subst uint_sub_lem [THEN iffD1]) simp_all
    moreover have "(uint a + 2 ^ 32 - (uint b + uint borrow)) mod 2 ^ 32 = uint a + 2 ^ 32 - (uint b + uint borrow)"
      using True r(4) assms(1) r(1) le by (intro mod_pos_pos_trivial) linarith+
    ultimately have "uint y = uint a + 2 ^ 32 - (uint b + uint borrow)" "borrow' = 1"
      using assms True r by (auto simp: sub_limb_def Let_def word_less_def av bv uint_ucast_down)
    then show ?thesis by simp
  next
    case False
    then have "uint (ucast a - (ucast b + borrow) :: u64) = uint a - (uint b + uint borrow)"
      using r av bv by (subst uint_sub_lem [THEN iffD1]) simp_all
    moreover have "(uint a - (uint b + uint borrow)) mod 2 ^ 32 = uint a - (uint b + uint borrow)"
      using False r by (intro mod_pos_pos_trivial) linarith+
    ultimately have "uint y = uint a - (uint b + uint borrow)" "borrow' = 0"
      using assms False r by (auto simp: sub_limb_def Let_def word_less_def av bv uint_ucast_down)
    then show ?thesis by simp
  qed
qed

lemma sub_step_value:
  fixes a b :: u32 and borrow :: u64
  assumes "uint borrow \<le> 1"
  defines "d \<equiv> ucast a - ucast b - borrow"
  shows "uint (drop_bit 63 d AND 1) \<le> 1 \<and>
    uint (ucast d :: u32) + 2 ^ 32 * - uint (drop_bit 63 d AND 1) = uint a - uint b + - uint borrow"
proof -
  have r: "0 \<le> uint a" "uint a < 2 ^ 32" "0 \<le> uint b" "uint b < 2 ^ 32" "0 \<le> uint borrow"
    using uint_lt2p [of a] uint_lt2p [of b] uint_ge_0 [of a] uint_ge_0 [of b] uint_ge_0 [of borrow] by simp_all
  define v where "v = uint a - uint b - uint borrow"
  have v: "- (2 ^ 32) \<le> v" "v < 2 ^ 32" unfolding v_def using r assms(1) by linarith+
  have d: "uint d = v mod 2 ^ 64"
    unfolding d_def v_def by (simp add: uint_word_ariths uint_ucast_up mod_simps)
  have low: "uint (ucast d :: u32) = v mod 2 ^ 32"
    unfolding uint_ucast_down d by (simp add: mod_mod_cancel)
  have one: "uint (drop_bit 63 d AND 1) = uint d div 2 ^ 63"
  proof -
    have "uint (drop_bit 63 d) \<in> {0, 1}" unfolding uint_drop_bit using uint_lt2p [of d] uint_ge_0 [of d]
      by (auto simp del: uint_ge_0)
    then have "drop_bit 63 d \<in> {0, 1}" by (auto simp: uint_0_iff) (metis uint_1 word_uint_eqI)
    then have "drop_bit 63 d AND 1 = drop_bit 63 d" by auto
    then show ?thesis by (simp add: uint_drop_bit)
  qed
  show ?thesis
  proof (cases "v < 0")
    case True
    then have "v mod 2 ^ 64 = v + 2 ^ 64" "v mod 2 ^ 32 = v + 2 ^ 32 \<or> v = - (2 ^ 32)"
      using v mod_pos_pos_trivial [of "v + 2 ^ 64" "2 ^ 64"] mod_pos_pos_trivial [of "v + 2 ^ 32" "2 ^ 32"] by auto
    then show ?thesis using True v unfolding low one d v_def by auto
  next
    case False
    then have "v mod 2 ^ 64 = v" "v mod 2 ^ 32 = v" using v by simp_all
    then show ?thesis using False v unfolding low one d v_def by simp
  qed
qed

text \<open>The two signs of a comparison of limb arrays.\<close>

lemma modulo_limbs:
  assumes "v + 2 ^ (32 * n) * c = (t :: int)" "0 \<le> v" "v < 2 ^ (32 * n)"
  shows "v = t mod 2 ^ (32 * n)"
  using assms(2,3) unfolding assms(1) [symmetric] by simp

lemma borrow_sign:
  assumes "v + 2 ^ (32 * n) * - c = x - y" "0 \<le> v" "v < 2 ^ (32 * n)" "0 \<le> y" "y < 2 ^ (32 * n)" "0 \<le> x"
    "0 \<le> c" "c \<le> (1 :: int)"
  shows "c = (if x < y then 1 else 0)"
proof -
  have "c = 0 \<or> c = 1" using assms(7,8) by linarith
  then show ?thesis using assms(1-6) by auto
qed

lemma sub_limbs_value:
  fixes a b :: "u32 list"
  assumes "n \<le> length a"
  defines "d \<equiv> carry_loop [0..<n] (\<lambda>i v. sub_limb v (b ! i)) a 0"
  shows "length (fst d) = length a" "\<And>j. n \<le> j \<Longrightarrow> fst d ! j = a ! j"
    "lval (fst d) n = (lval a n - lval b n) mod 2 ^ (32 * n)"
    "snd d = (if lval a n < lval b n then 1 else 0)"
proof -
  let ?c = "snd d"
  have "length (fst d) = length a \<and> uint ?c \<le> 1 \<and> (\<forall>j\<ge>n. fst d ! j = a ! j) \<and>
      lval (fst d) n + 2 ^ (32 * n) * - uint ?c = digits (2 ^ 32) (\<lambda>i. uint (a ! i) - uint (b ! i)) n + - uint (0 :: u64)"
    by (rule limb_loop [where cv = "\<lambda>c. - uint c" and body = "\<lambda>i v. sub_limb v (b ! i)"])
      (use assms sub_limb_value in \<open>auto simp: d_def\<close>)
  then have d: "length (fst d) = length a" "\<forall>j\<ge>n. fst d ! j = a ! j" "uint ?c \<le> 1"
    "lval (fst d) n + 2 ^ (32 * n) * - uint ?c = lval a n - lval b n"
    by (auto simp: digits_diff lval_def)
  show "length (fst d) = length a" "\<And>j. n \<le> j \<Longrightarrow> fst d ! j = a ! j" using d(1,2) by auto
  show "lval (fst d) n = (lval a n - lval b n) mod 2 ^ (32 * n)"
    by (rule modulo_limbs [OF d(4) lval_bounds])
  have "uint ?c = (if lval a n < lval b n then 1 else 0)"
    by (rule borrow_sign [OF d(4) lval_bounds lval_bounds lval_bounds(1) uint_ge_0 d(3)])
  then show "?c = (if lval a n < lval b n then 1 else 0)" by (auto intro: word_uint_eqI)
qed

lemma limbs_sub_value:
  assumes "length r = unat n"
  shows "length (fst (bn_limbs_sub r a b n)) = unat n"
    "lval (fst (bn_limbs_sub r a b n)) (unat n) = (lval a (unat n) - lval b (unat n)) mod 2 ^ (32 * unat n)"
    "snd (bn_limbs_sub r a b n) = (if lval a (unat n) < lval b (unat n) then 1 else 0)"
proof -
  let ?n = "unat n"
  let ?body = "\<lambda>i (_ :: u32) borrow. let d = ucast (a ! i) - ucast (b ! i) - borrow :: u64 in (ucast d :: u32, drop_bit 63 d AND 1)"
  obtain d c where run: "carry_loop [0..<?n] ?body r 0 = (d, c)" by fastforce
  have "length d = length r \<and> uint c \<le> 1 \<and> (\<forall>j\<ge>?n. d ! j = r ! j) \<and>
      lval d ?n + 2 ^ (32 * ?n) * - uint c = digits (2 ^ 32) (\<lambda>i. uint (a ! i) - uint (b ! i)) ?n + - uint (0 :: u64)"
    by (rule limb_loop [where cv = "\<lambda>c. - uint c", OF run])
      (use assms sub_step_value in \<open>auto simp: Let_def\<close>)
  then have d: "length d = ?n" "uint c \<le> 1" "lval d ?n + 2 ^ (32 * ?n) * - uint c = lval a ?n - lval b ?n"
    using assms by (auto simp: digits_diff lval_def)
  have res: "bn_limbs_sub r a b n = (d, ucast c)" unfolding bn_limbs_sub_def run by simp
  show "length (fst (bn_limbs_sub r a b n)) = ?n" using d(1) res by simp
  show "lval (fst (bn_limbs_sub r a b n)) ?n = (lval a ?n - lval b ?n) mod 2 ^ (32 * ?n)"
    unfolding res fst_conv by (rule modulo_limbs [OF d(3) lval_bounds])
  have "uint c = (if lval a ?n < lval b ?n then 1 else 0)"
    by (rule borrow_sign [OF d(3) lval_bounds lval_bounds lval_bounds(1) uint_ge_0 d(2)])
  then have "c = (if lval a ?n < lval b ?n then 1 else 0)" by (auto intro: word_uint_eqI)
  then show "snd (bn_limbs_sub r a b n) = (if lval a ?n < lval b ?n then 1 else 0)" using res by simp
qed

lemma shift_limb:
  fixes v carry :: u32
  assumes "carry \<le> 1"
  shows "drop_bit 31 v AND 1 \<le> 1 \<and>
    uint (push_bit 1 v OR carry) + 2 ^ 32 * uint (drop_bit 31 v AND 1) = 2 * uint v + uint carry"
proof -
  have c: "carry = 0 \<or> carry = 1" using assms by (metis word_le_def word_zero_le antisym_conv order_le_less word_less_1 linorder_not_le)
  have "push_bit 1 v AND carry = 0" using c by (auto intro!: bit_word_eqI simp: bit_simps bit_1_iff)
      (metis One_nat_def bit_push_bit_iff not_one_le_zero push_bit_of_1 bit_double_iff mult.commute)
  then have "push_bit 1 v OR carry = push_bit 1 v + carry" by (simp add: disjunctive_add_eq_or)
  then have y: "uint (push_bit 1 v OR carry) = (2 * uint v + uint carry) mod 2 ^ 32"
    by (simp add: push_bit_eq_mult uint_word_ariths mod_simps mult.commute)
  have v: "uint v < 2 ^ 32" using uint_lt2p [of v] by simp
  have t: "uint (drop_bit 31 v) = uint v div 2 ^ 31" by (rule uint_drop_bit)
  then have "uint (drop_bit 31 v) \<le> 1" using v by simp
  then have "drop_bit 31 v \<le> 1" by (simp add: word_le_def)
  then have "drop_bit 31 v = 0 \<or> drop_bit 31 v = 1"
    by (metis word_le_def word_zero_le antisym_conv order_le_less word_less_1 linorder_not_le)
  then have top: "drop_bit 31 v AND 1 = drop_bit 31 v" by auto
  have cc: "uint carry \<le> 1" "0 \<le> uint carry" using assms by (simp_all add: word_le_def)
  have "(2 * uint v + uint carry) mod 2 ^ 32 + 2 ^ 32 * (uint v div 2 ^ 31) = 2 * uint v + uint carry"
  proof -
    have "(2 * uint v + uint carry) div 2 ^ 32 = uint v div 2 ^ 31"
    proof -
      have "(2 * uint v + uint carry) div 2 = uint v" using cc by linarith
      then have "(2 * uint v + uint carry) div (2 * 2 ^ 31) = uint v div 2 ^ 31" by (simp only: zdiv_zmult2_eq zero_le_power zero_le_numeral)
      then show ?thesis by simp
    qed
    then show ?thesis using mod_mult_div_eq [of "2 * uint v + uint carry" "2 ^ 32"] by simp
  qed
  then show ?thesis using \<open>drop_bit 31 v \<le> 1\<close> unfolding top y t by simp
qed

lemma lshift1_limbs_value:
  assumes "length a = unat n"
  shows "length (fst (bn_lshift1_limbs a n)) = unat n" "snd (bn_lshift1_limbs a n) \<le> 1"
    "lval (fst (bn_lshift1_limbs a n)) (unat n) + 2 ^ (32 * unat n) * uint (snd (bn_lshift1_limbs a n)) =
       2 * lval a (unat n)"
proof -
  obtain x c where run: "carry_loop [0..<unat n] (\<lambda>_ v carry. (push_bit 1 v OR carry, drop_bit 31 v AND 1)) a (0 :: u32) = (x, c)"
    by fastforce
  have "length x = length a \<and> c \<le> 1 \<and> (\<forall>j\<ge>unat n. x ! j = a ! j) \<and>
      lval x (unat n) + 2 ^ (32 * unat n) * uint c = digits (2 ^ 32) (\<lambda>i. 2 * uint (a ! i)) (unat n) + uint (0 :: u32)"
    by (rule limb_loop [where I = "\<lambda>c. c \<le> 1", OF run]) (use assms shift_limb in auto)
  then show "length (fst (bn_lshift1_limbs a n)) = unat n" "snd (bn_lshift1_limbs a n) \<le> 1"
    "lval (fst (bn_lshift1_limbs a n)) (unat n) + 2 ^ (32 * unat n) * uint (snd (bn_lshift1_limbs a n)) =
       2 * lval a (unat n)"
    using assms unfolding bn_lshift1_limbs_def run digits_mult by (auto simp: lval_def)
qed

section \<open>The product\<close>

lemma muladd_step:
  fixes x d v :: u32 and carry :: u64
  assumes "uint carry < 2 ^ 32"
  defines "t \<equiv> ucast x * ucast d + ucast v + carry"
  shows "uint (ucast (ucast (drop_bit 32 t) :: u32) :: u64) < 2 ^ 32 \<and>
    uint (ucast (t AND 0xFFFFFFFF) :: u32) + 2 ^ 32 * uint (ucast (ucast (drop_bit 32 t) :: u32) :: u64) =
      (uint x * uint d + uint v) + uint carry"
proof -
  have "t = ucast v + ucast x * ucast d + carry" unfolding t_def by (simp add: add.commute)
  then have t: "uint t = uint v + uint x * uint d + uint carry" using mac_value [OF assms(1)] by simp
  have low: "(ucast (t AND 0xFFFFFFFF) :: u32) = ucast t"
  proof -
    have "(ucast (t AND mask 32) :: u32) = ucast t" by (rule bit_word_eqI) (auto simp: bit_simps)
    then show ?thesis by (simp add: mask_eq_exp_minus_1)
  qed
  have "uint (ucast (ucast (drop_bit 32 t) :: u32) :: u64) = uint (drop_bit 32 t)"
    using halves(2) [of t] by (simp add: uint_ucast_up uint_ucast_down)
  then show ?thesis using halves [of t] t unfolding low by simp
qed

lemma offset_loop:
  assumes run: "carry_loop (map (\<lambda>i. off + i) [0..<n]) body x c = (x', c')" and len: "off + n \<le> length x"
    and inv: "I c" "\<And>i c y c'. i < n \<Longrightarrow> I c \<Longrightarrow> body (off + i) (x ! (off + i)) c = (y, c') \<Longrightarrow>
      I c' \<and> uint y + 2 ^ 32 * cv c' = h i + uint (x ! (off + i)) + cv c"
  shows "length x' = length x" "I c'" "\<And>j. j < off \<or> off + n \<le> j \<Longrightarrow> x' ! j = x ! j"
    "lval x' (off + n) + 2 ^ (32 * (off + n)) * cv c' = lval x (off + n) + 2 ^ (32 * off) * (digits (2 ^ 32) h n + cv c)"
proof -
  have "length x' = length x \<and> I c' \<and> (\<forall>j. j \<notin> (\<lambda>i. off + i) ` {0..<n} \<longrightarrow> x' ! j = x ! j) \<and>
      digits (2 ^ 32) (\<lambda>i. uint (x' ! (off + i))) n + (2 ^ 32) ^ n * cv c' =
      digits (2 ^ 32) (\<lambda>i. h i + uint (x ! (off + i))) n + cv c"
  proof (rule carry_loop_digits [where I = I, OF run])
    show "inj_on (\<lambda>i. off + i) {0..<n}" by (rule inj_onI) simp
  qed (use len inv in auto)
  then have r: "length x' = length x" "I c'" "\<And>j. j < off \<or> off + n \<le> j \<Longrightarrow> x' ! j = x ! j"
    "digits (2 ^ 32) (\<lambda>i. uint (x' ! (off + i))) n + 2 ^ (32 * n) * cv c' =
      digits (2 ^ 32) h n + digits (2 ^ 32) (\<lambda>i. uint (x ! (off + i))) n + cv c"
    by (auto simp: power_mult digits_add)
  show "length x' = length x" "I c'" "\<And>j. j < off \<or> off + n \<le> j \<Longrightarrow> x' ! j = x ! j" by (fact r)+
  have low: "lval x' off = lval x off" using r(3) by (intro lval_cong) auto
  have "lval x' (off + n) + 2 ^ (32 * (off + n)) * cv c' =
      lval x off + 2 ^ (32 * off) * (digits (2 ^ 32) (\<lambda>i. uint (x' ! (off + i))) n + 2 ^ (32 * n) * cv c')"
    unfolding lval_split low by (simp add: algebra_simps power_add)
  then show "lval x' (off + n) + 2 ^ (32 * (off + n)) * cv c' = lval x (off + n) + 2 ^ (32 * off) * (digits (2 ^ 32) h n + cv c)"
    unfolding r(4) lval_split by (simp add: algebra_simps)
qed

lemma lval_scaled: "digits (2 ^ 32) (\<lambda>i. uint (s ! i) * d) n = lval s n * d"
  using digits_mult [of "2 ^ 32" d "\<lambda>i. uint (s ! i)" n] by (simp add: lval_def mult.commute)

lemma muladd_value:
  fixes r s :: "u32 list" and d :: u32
  assumes "off + n \<le> length r"
  defines "res \<equiv> bn_muladd_hlp s n d r off 0"
  shows "length (fst res) = length r" "\<And>j. j < off \<or> off + n \<le> j \<Longrightarrow> fst res ! j = r ! j"
    "lval (fst res) (off + n) + 2 ^ (32 * (off + n)) * uint (snd res) =
       lval r (off + n) + 2 ^ (32 * off) * (lval s n * uint d)"
proof -
  let ?body = "\<lambda>k (v :: u32) (carry :: u64). let t = ucast (s ! (k - off)) * ucast d + ucast v + carry :: u64
                 in (ucast (t AND 0xFFFFFFFF) :: u32, ucast (ucast (drop_bit 32 t) :: u32) :: u64)"
  obtain x c where run: "carry_loop (map (\<lambda>i. off + i) [0..<n]) ?body r 0 = (x, c)" by fastforce
  have step: "uint c' < 2 ^ 32 \<and> uint y + 2 ^ 32 * uint c' = uint (s ! i) * uint d + uint (r ! (off + i)) + uint c"
    if "uint c < 2 ^ 32" "?body (off + i) (r ! (off + i)) c = (y, c')" for i c y c'
    using muladd_step [of c "s ! i" d "r ! (off + i)"] that by (simp only: Let_def prod.inject add_diff_cancel_left')
  have "uint (0 :: u64) < 2 ^ 32" by simp
  note o = offset_loop [where I = "\<lambda>c. uint c < 2 ^ 32" and cv = uint and h = "\<lambda>i. uint (s ! i) * uint d", OF run assms(1) this step]
  have res: "res = (x, ucast c)" unfolding res_def bn_muladd_hlp_def by (simp only: run ucast_0 split)
  have carry: "uint (ucast c :: u32) = uint c" using o(2) by (simp add: uint_ucast_down)
  show "length (fst res) = length r" "\<And>j. j < off \<or> off + n \<le> j \<Longrightarrow> fst res ! j = r ! j"
    using o res by auto
  show "lval (fst res) (off + n) + 2 ^ (32 * (off + n)) * uint (snd res) =
       lval r (off + n) + 2 ^ (32 * off) * (lval s n * uint d)"
    using o(4) unfolding res fst_conv snd_conv carry lval_scaled by simp
qed

lemma mul_loop_value:
  fixes a b :: "u32 list" and na :: nat
  assumes "k \<le> nb"
  defines "r \<equiv> foldl (\<lambda>r i. case bn_muladd_hlp a na (b ! i) r i 0 of (r, carry) \<Rightarrow> r[i + na := carry])
    (replicate (na + nb) 0) [0..<k]"
  shows "length r = na + nb \<and> lval r (k + na) = lval a na * lval b k \<and> (\<forall>j\<ge>k + na. j < na + nb \<longrightarrow> r ! j = 0)"
  using assms(1) unfolding r_def
proof (induction k)
  case (Suc k)
  let ?r = "foldl (\<lambda>r i. case bn_muladd_hlp a na (b ! i) r i 0 of (r, carry) \<Rightarrow> r[i + na := carry])
    (replicate (na + nb) 0) [0..<k]"
  have ih: "length ?r = na + nb" "lval ?r (k + na) = lval a na * lval b k"
    "\<And>j. k + na \<le> j \<Longrightarrow> j < na + nb \<Longrightarrow> ?r ! j = 0" using Suc by auto
  obtain x c where step: "bn_muladd_hlp a na (b ! k) ?r k 0 = (x, c)" by fastforce
  have x: "length x = na + nb" "\<And>j. j < k \<or> k + na \<le> j \<Longrightarrow> x ! j = ?r ! j"
    "lval x (k + na) + 2 ^ (32 * (k + na)) * uint c = lval ?r (k + na) + 2 ^ (32 * k) * (lval a na * uint (b ! k))"
    using muladd_value [where off = k and n = na and r = ?r and s = a and d = "b ! k"] ih(1) Suc.prems unfolding step by auto
  have "lval (x[k + na := c]) (Suc k + na) = lval x (k + na) + 2 ^ (32 * (k + na)) * uint c"
    using x(1) Suc.prems lval_cong [of "k + na" "x[k + na := c]" x] by (simp add: lval_Suc)
  also have "\<dots> = lval a na * lval b (Suc k)"
    unfolding x(3) ih(2) lval_Suc by (simp add: algebra_simps)
  finally show ?case using x(1,2) ih(3) step by simp
qed (simp add: lval_zero)

lemma alloc_next_pair: "(case alloc_next s of (ok, t) \<Rightarrow> f ok t) = f (fst (alloc_next s)) (snd (alloc_next s))"
  by (simp add: split_beta)

lemma limb_count:
  assumes "len \<le> 0xFFFFFFFF - (3 :: u32)"
  shows "unat ((len + 3) div 4) = (unat len + 3) div 4" "unat len \<le> 4 * unat ((len + 3) div 4)"
    "(unat len + 3) div 4 < 2 ^ 30"
proof -
  have "unat len \<le> 4294967292" using assms by (simp add: word_le_nat_alt)
  then have "unat (len + 3) = unat len + 3" by (subst unat_add_small) simp_all
  then show v: "unat ((len + 3) div 4) = (unat len + 3) div 4" by (simp add: unat_div_distrib)
  show "unat len \<le> 4 * unat ((len + 3) div 4)" unfolding v by linarith
  show "(unat len + 3) div 4 < 2 ^ 30" using \<open>unat len \<le> 4294967292\<close> by simp
qed

lemma lval_loaded:
  assumes "length be = unat len" "unat len \<le> 4 * unat n"
  shows "lval (bn_be_to_limbs (replicate (unat n) 0) n be len) (unat n) = int (be_value be)"
proof -
  have "int (be_value be) < 256 ^ unat len"
    using be_value_less [of be] assms(1) by (metis of_nat_less_iff of_nat_numeral of_nat_power)
  also have "(256 :: int) ^ unat len \<le> 2 ^ (32 * unat n)" unfolding power_256 using assms(2) by (intro power_increasing) auto
  finally show ?thesis using load_limbs(2) [of "replicate (unat n) 0" n be len] assms(1) by (simp add: mod_pos_pos_trivial)
qed



end
