(* ===== verification/Bn_Mont.thy ===== *)
theory Bn_Mont
  imports Bn_Limbs
begin

text \<open>
  Montgomery arithmetic modulo an odd number, from \<open>noxtls_bignum.c\<close>: the Newton inverse of the low
  limb, the CIOS multiplication, doubling, and the constant \<open>R^2 mod m\<close> for \<open>R = 2^(32 n)\<close>.
  The scratch areas \<open>t\<close> and \<open>tmp\<close> are locals of each call here: every call clears \<open>t\<close> and writes
  all of \<open>tmp\<close> before it reads them. The \<open>service\<close> callback takes no argument and gives no result; it is
  left out.
\<close>

section \<open>Definitions\<close>

definition bn_mont_n0inv :: "u32 \<Rightarrow> u32" where
  "bn_mont_n0inv m0 = 0 - (((\<lambda>inv. inv * (2 - m0 * inv)) ^^ 4) m0)"

text \<open>One row: \<open>t += a * b[i]\<close> with the carry added to the two top limbs.\<close>

definition mont_row :: "u32 list \<Rightarrow> nat \<Rightarrow> u32 \<Rightarrow> u32 list \<Rightarrow> u32 list" where
  "mont_row a n bi t =
     (case carry_loop [0..<n]
        (\<lambda>j v carry. let s = ucast v + ucast (a ! j) * ucast bi + carry :: u64 in (ucast s, drop_bit 32 s)) t 0 of
        (t, carry) \<Rightarrow>
          let s = ucast (t ! n) + carry :: u64
          in t[n := ucast s, n + 1 := ucast (drop_bit 32 s)])"

definition shift_step :: "u32 \<Rightarrow> u32 list \<Rightarrow> u32 list \<times> u64 \<Rightarrow> nat \<Rightarrow> u32 list \<times> u64" where
  "shift_step mi m = (\<lambda>(t, carry) j.
     let s = ucast (t ! j) + ucast mi * ucast (m ! j) + carry :: u64 in (t[j - 1 := ucast s], drop_bit 32 s))"

text \<open>The reduction: \<open>t = (t + mi * m) / 2^32\<close>.\<close>

definition mont_shift :: "u32 list \<Rightarrow> nat \<Rightarrow> u32 \<Rightarrow> u32 list \<Rightarrow> u32 list" where
  "mont_shift m n n0inv t =
     (let mi = ucast (ucast (t ! 0) * ucast n0inv :: u64) :: u32;
          s = ucast (t ! 0) + ucast mi * ucast (m ! 0) :: u64
      in case foldl (shift_step mi m) (t, drop_bit 32 s) [1..<n] of
           (t, carry) \<Rightarrow>
             let s = ucast (t ! n) + carry :: u64; t = t[n - 1 := ucast s]
             in t[n := t ! (n + 1) + ucast (drop_bit 32 s)])"

text \<open>The masked choice between the difference and the value.\<close>

definition mask_select :: "u32 \<Rightarrow> u32 list \<Rightarrow> u32 list \<Rightarrow> u32 list \<Rightarrow> nat \<Rightarrow> u32 list" where
  "mask_select sel out tmp t n = foldl (\<lambda>out j. out[j := (tmp ! j AND sel) OR (t ! j AND NOT sel)]) out [0..<n]"

definition bn_mont_mul :: "u32 list \<Rightarrow> u32 list \<Rightarrow> u32 list \<Rightarrow> u32 list \<Rightarrow> u32 \<Rightarrow> u32 \<Rightarrow> u32 list" where
  "bn_mont_mul out a b m n n0inv =
     (let t = foldl (\<lambda>t i. mont_shift m (unat n) n0inv (mont_row a (unat n) (b ! i) t))
                (replicate (unat n + 2) 0) [0..<unat n];
          extra = t ! unat n;
          (tmp, borrow) = bn_limbs_sub (replicate (unat n) 0) t m n;
          condsub = (if extra \<noteq> 0 then 1 else 0) OR (1 - borrow) :: u32
      in mask_select (0 - condsub) out tmp t (unat n))"

definition bn_mont_double_mod :: "u32 list \<Rightarrow> u32 list \<Rightarrow> u32 \<Rightarrow> u32 list" where
  "bn_mont_double_mod x m n =
     (let (x, carry) = carry_loop [0..<unat n] (\<lambda>_ v carry. (push_bit 1 v OR carry, drop_bit 31 v)) x (0 :: u32);
          (tmp, borrow) = bn_limbs_sub (replicate (unat n) 0) x m n;
          condsub = (if carry \<noteq> 0 then 1 else 0) OR (1 - borrow) :: u32
      in mask_select (0 - condsub) x tmp x (unat n))"

text \<open>
  The odd part of n and five more than its number of factors 2. The loop would not end for 0; no caller
  has n = 0, and the model stops there.
\<close>

function odd_part :: "u32 \<Rightarrow> u32 \<Rightarrow> u32 \<times> u32" where
  "odd_part s squarings =
     (if s AND 1 = 0 \<and> s \<noteq> 0 then odd_part (drop_bit 1 s) (squarings + 1) else (s, squarings))"
  by pat_completeness auto
termination
proof (relation "measure (\<lambda>(s, _). unat s)")
  fix s :: u32
  assume "s AND 1 = 0 \<and> s \<noteq> 0"
  then have "0 < unat s" by (simp add: unat_gt_0)
  then show "((drop_bit 1 s, q + 1), (s, q)) \<in> measure (\<lambda>(s, _). unat s)" for q :: u32
    by (simp add: drop_bit_eq_div unat_div_distrib)
qed simp

declare odd_part.simps [simp del]

definition bn_mont_RR :: "u32 list \<Rightarrow> u32 \<Rightarrow> u32 \<Rightarrow> u32 list" where
  "bn_mont_RR m n n0inv =
     (let RR = replicate (unat n) 0;
          (RR, doublings, squarings) =
            (if m ! (unat n - 1) = 0 then (RR[0 := 1], 2 * 32 * n, 0)
             else case odd_part n 5 of (s, squarings) \<Rightarrow> (RR[unat n - 1 := 1], 32 + s, squarings));
          RR = ((\<lambda>x. bn_mont_double_mod x m n) ^^ unat doublings) RR
      in ((\<lambda>x. bn_mont_mul x x x m n n0inv) ^^ unat squarings) RR)"

section \<open>The inverse of the low limb\<close>

lemma newton_step: "1 - m0 * (x * (2 - m0 * x)) = (1 - m0 * x) * (1 - m0 * x)" for m0 x :: u32
  by (simp add: algebra_simps)

lemma odd_square:
  assumes "odd (uint (m0 :: u32))"
  shows "\<exists>k. 1 - m0 * m0 = 8 * k"
proof -
  obtain q where q: "uint m0 = 2 * q + 1" using assms by (auto elim: oddE)
  obtain r where r: "q * (q + 1) = 2 * r" by (metis even_mult_iff odd_even_add odd_one evenE)
  have "m0 = of_int (2 * q + 1)" unfolding q [symmetric] by simp
  then have "m0 * m0 = of_int ((2 * q + 1) * (2 * q + 1))" by simp
  also have "(2 * q + 1) * (2 * q + 1) = 8 * r + 1" using r by (simp add: algebra_simps)
  finally have "1 - m0 * m0 = 8 * of_int (- r)" by simp
  then show ?thesis by blast
qed

lemma n0inv_correct:
  assumes "odd (uint m0)"
  shows "m0 * bn_mont_n0inv m0 = - 1"
proof -
  define f where "f = (\<lambda>inv. inv * (2 - m0 * inv))"
  obtain k where k: "1 - m0 * m0 = 8 * k" using odd_square [OF assms] by blast
  have sq: "1 - m0 * f x = (1 - m0 * x) ^ 2" for x by (simp add: f_def newton_step power2_eq_square)
  have "1 - m0 * (f ^^ 4) m0 = (1 - m0 * m0) ^ 16"
    by (simp add: numeral_eq_Suc sq)
  also have "\<dots> = 8 ^ 16 * k ^ 16" by (simp add: k power_mult_distrib)
  also have "(8 :: u32) ^ 16 = 0" by simp
  finally have "m0 * (f ^^ 4) m0 = 1" by simp
  then show ?thesis by (simp add: bn_mont_n0inv_def f_def)
qed

section \<open>The multiplication\<close>

lemma mac_step:
  fixes t a b :: u32 and c :: u64
  assumes "uint c < 2 ^ 32"
  defines "s \<equiv> ucast t + ucast a * ucast b + c"
  shows "uint (drop_bit 32 s) < 2 ^ 32 \<and>
    uint (ucast s :: u32) + 2 ^ 32 * uint (drop_bit 32 s) = uint t + uint a * uint b + uint c"
  using halves [of s] mac_value [OF assms(1), of t a b] unfolding s_def by simp

lemma carry_limb:
  fixes t :: u32 and c :: u64
  assumes "uint c < 2 ^ 32"
  defines "s \<equiv> ucast t + c"
  shows "uint (ucast s :: u32) + 2 ^ 32 * uint (ucast (drop_bit 32 s) :: u32) = uint t + uint c"
proof -
  have "uint t < 2 ^ 32" using uint_lt2p [of t] by simp
  then have "uint s = uint t + uint c"
    unfolding s_def using assms(1) by (subst uint_add_small) (simp_all add: uint_ucast_up)
  moreover have "uint (ucast (drop_bit 32 s) :: u32) = uint (drop_bit 32 s)"
    using halves(2) [of s] by (simp add: uint_ucast_down)
  ultimately show ?thesis using halves(1) [of s] by simp
qed

lemma row_value:
  assumes "length t = n + 2"
  shows "length (mont_row a n bi t) = n + 2"
    "lval (mont_row a n bi t) (n + 2) = lval t (n + 1) + lval a n * uint bi"
proof -
  let ?body = "\<lambda>j v carry. let s = ucast v + ucast (a ! j) * ucast bi + carry :: u64 in (ucast s :: u32, drop_bit 32 s)"
  obtain x c where run: "carry_loop [0..<n] ?body t 0 = (x, c)" by fastforce
  have "length x = length t \<and> uint c < 2 ^ 32 \<and> (\<forall>j\<ge>n. x ! j = t ! j) \<and>
      lval x n + 2 ^ (32 * n) * uint c = digits (2 ^ 32) (\<lambda>i. uint (t ! i) + uint (a ! i) * uint bi) n + uint (0 :: u64)"
  proof (rule limb_loop [where I = "\<lambda>c. uint c < 2 ^ 32", OF run])
    fix i c y c'
    assume "uint c < 2 ^ 32" "?body i (t ! i) c = (y, c')"
    then show "uint c' < 2 ^ 32 \<and> uint y + 2 ^ 32 * uint c' = uint (t ! i) + uint (a ! i) * uint bi + uint c"
      using mac_step [of c "t ! i" "a ! i" bi] by (simp only: Let_def prod.inject)
  qed (use assms in auto)
  moreover have "digits (2 ^ 32) (\<lambda>i. uint (t ! i) + uint (a ! i) * uint bi) n = lval t n + lval a n * uint bi"
    using digits_mult [of "2 ^ 32" "uint bi" "\<lambda>i. uint (a ! i)" n] by (simp add: digits_add lval_def mult.commute)
  ultimately have x: "length x = n + 2" "uint c < 2 ^ 32" "x ! n = t ! n"
    "lval x n + 2 ^ (32 * n) * uint c = lval t n + lval a n * uint bi" using assms by auto
  define s where "s = ucast (x ! n) + c"
  have row: "mont_row a n bi t = x[n := ucast s, n + 1 := ucast (drop_bit 32 s)]"
    unfolding mont_row_def run by (simp add: s_def Let_def)
  show "length (mont_row a n bi t) = n + 2" using x(1) row by simp
  note top = carry_limb [OF x(2), of "x ! n", folded s_def]
  have "lval (mont_row a n bi t) (n + 2) =
      lval x n + 2 ^ (32 * n) * (uint (ucast s :: u32) + 2 ^ 32 * uint (ucast (drop_bit 32 s) :: u32))"
    using x(1) lval_cong [of n "mont_row a n bi t" x] by (simp add: row lval_Suc power_add algebra_simps)
  also have "\<dots> = lval t (n + 1) + lval a n * uint bi"
    using x(4) unfolding top by (simp add: lval_Suc x(3) algebra_simps)
  finally show "lval (mont_row a n bi t) (n + 2) = lval t (n + 1) + lval a n * uint bi" .
qed

text \<open>The shifting loop up to limb k.\<close>

lemma shift_loop_value:
  assumes "length t = n + 2" "1 \<le> k" "k \<le> n" "uint c0 < 2 ^ 32" "2 ^ 32 * uint c0 = uint (t ! 0) + uint mi * uint (m ! 0)"
    and "foldl (shift_step mi m) (t, c0) [1..<k] = (x, c)"
  shows "length x = n + 2 \<and> uint c < 2 ^ 32 \<and> (\<forall>j\<ge>k. x ! j = t ! j) \<and>
    2 ^ 32 * lval x (k - 1) + 2 ^ (32 * k) * uint c = lval t k + uint mi * lval m k"
  using assms(2,3,6)
proof (induction k arbitrary: x c rule: dec_induct)
  case base
  then show ?case using assms(1,4,5) by (simp add: lval_Suc)
next
  case (step k)
  obtain y d where y: "foldl (shift_step mi m) (t, c0) [1..<k] = (y, d)" by fastforce
  have ih: "length y = n + 2" "uint d < 2 ^ 32" "\<forall>j\<ge>k. y ! j = t ! j"
    "2 ^ 32 * lval y (k - 1) + 2 ^ (32 * k) * uint d = lval t k + uint mi * lval m k"
    using step.IH [OF _ y] step.prems by auto
  define s where "s = ucast (y ! k) + ucast mi * ucast (m ! k) + d"
  have x: "x = y[k - 1 := ucast s]" "c = drop_bit 32 s"
    using step.prems(2) y step.hyps(1) by (auto simp: shift_step_def s_def Let_def)
  note mac = mac_step [OF ih(2), of "y ! k" mi "m ! k", folded s_def]
  obtain j where k: "k = Suc j" using step.hyps(1) by (cases k) auto
  have pow: "2 ^ 32 * 2 ^ (32 * j) = (2 :: int) ^ (32 * k)" by (simp add: k power_add)
  have pow': "(2 :: int) ^ (32 * Suc k) = 2 ^ (32 * k) * 2 ^ 32" by (simp add: power_add)
  have "lval x k = lval y j + 2 ^ (32 * j) * uint (ucast s :: u32)"
    using ih(1) step.prems(1) lval_cong [of j x y] by (simp add: x k lval_Suc)
  then have "2 ^ 32 * lval x k + 2 ^ (32 * Suc k) * uint c =
      2 ^ 32 * lval y j + 2 ^ (32 * k) * (uint (ucast s :: u32) + 2 ^ 32 * uint c)"
    unfolding pow' pow [symmetric] by (simp add: algebra_simps)
  also have "\<dots> = 2 ^ 32 * lval y (k - 1) + 2 ^ (32 * k) * uint d + 2 ^ (32 * k) * (uint (t ! k) + uint mi * uint (m ! k))"
    using mac ih(3) by (simp add: x(2) k algebra_simps)
  also have "\<dots> = lval t (Suc k) + uint mi * lval m (Suc k)"
    unfolding ih(4) lval_Suc by (simp add: algebra_simps)
  finally show ?case using ih(1,3) mac by (simp add: x)
qed

lemma shift_value:
  assumes "length t = n + 2" "1 \<le> n" "(m ! 0) * n0inv = - 1"
    and small: "lval t (n + 2) + (2 ^ 32 - 1) * lval m n < 2 ^ (32 * (n + 2))"
  shows "length (mont_shift m n n0inv t) = n + 2"
    "\<exists>q. 0 \<le> q \<and> q < 2 ^ 32 \<and> 2 ^ 32 * lval (mont_shift m n n0inv t) (n + 1) = lval t (n + 2) + q * lval m n"
proof -
  define mi :: u32 where "mi = ucast (ucast (t ! 0) * ucast n0inv :: u64)"
  define s0 :: u64 where "s0 = ucast (t ! 0) + ucast mi * ucast (m ! 0)"
  have mi: "mi = t ! 0 * n0inv"
    using mac_value [of 0 0 "t ! 0" n0inv] unfolding mi_def
    by (intro word_uint_eqI) (simp add: uint_ucast_down uint_word_ariths)
  have s0: "uint s0 = uint (t ! 0) + uint mi * uint (m ! 0)"
    using mac_value [of 0 "t ! 0" mi "m ! 0"] by (simp add: s0_def)
  have "(ucast s0 :: u32) = t ! 0 + mi * m ! 0"
    by (rule word_uint_eqI) (simp add: uint_ucast_down s0 uint_word_ariths mod_simps)
  also have "\<dots> = t ! 0 + t ! 0 * (m ! 0 * n0inv)" by (simp add: mi mult.assoc mult.commute)
  also have "\<dots> = 0" unfolding assms(3) by simp
  finally have low: "uint (ucast s0 :: u32) = 0" by simp
  have c0: "2 ^ 32 * uint (drop_bit 32 s0) = uint (t ! 0) + uint mi * uint (m ! 0)"
    using halves(1) [of s0] low s0 by simp
  obtain x c where run: "foldl (shift_step mi m) (t, drop_bit 32 s0) [1..<n] = (x, c)" by fastforce
  have x: "length x = n + 2" "uint c < 2 ^ 32" "\<And>j. n \<le> j \<Longrightarrow> x ! j = t ! j"
    "2 ^ 32 * lval x (n - 1) + 2 ^ (32 * n) * uint c = lval t n + uint mi * lval m n"
    using shift_loop_value [OF assms(1,2) order_refl halves(2) c0 run] by auto
  define s where "s = ucast (x ! n) + c"
  define y where "y = mont_shift m n n0inv t"
  have y: "y = x[n - 1 := ucast s, n := x ! (n + 1) + ucast (drop_bit 32 s)]"
    unfolding y_def mont_shift_def Let_def mi_def [symmetric] s0_def [symmetric] run
    using assms(2) x(1) by (simp add: s_def)
  show "length (mont_shift m n n0inv t) = n + 2" using y x(1) by (simp add: y_def)
  note top = carry_limb [OF x(2), of "x ! n", folded s_def]
  obtain j where n: "n = Suc j" using assms(2) by (cases n) auto
  let ?hi = "uint (ucast (drop_bit 32 s) :: u32)" and ?lo = "uint (ucast s :: u32)"
  let ?W = "2 ^ (32 * n) :: int"
  have pows: "2 ^ 32 * 2 ^ (32 * j) = ?W" "2 ^ (32 * (n + 1)) = ?W * 2 ^ 32" "2 ^ (32 * (n + 2)) = ?W * 2 ^ 32 * 2 ^ 32"
    by (simp_all add: n power_add)
  have t: "lval t (n + 2) = lval t n + ?W * uint (t ! n) + ?W * 2 ^ 32 * uint (t ! (n + 1))"
    by (simp add: lval_Suc power_add)
  have total: "2 ^ 32 * lval x j + ?W * (?lo + 2 ^ 32 * (uint (x ! (n + 1)) + ?hi)) = lval t (n + 2) + uint mi * lval m n"
  proof -
    have "2 ^ 32 * lval x j + ?W * (?lo + 2 ^ 32 * (uint (x ! (n + 1)) + ?hi)) =
        2 ^ 32 * lval x (n - 1) + ?W * (?lo + 2 ^ 32 * ?hi) + ?W * 2 ^ 32 * uint (x ! (n + 1))"
      by (simp add: n algebra_simps)
    also have "\<dots> = lval t (n + 2) + uint mi * lval m n"
      unfolding top t using x(3,4) by (simp add: algebra_simps)
    finally show ?thesis .
  qed
  have mi_le: "uint mi \<le> 2 ^ 32 - 1" using uint_lt2p [of mi] by simp
  then have "uint mi * lval m n \<le> (2 ^ 32 - 1) * lval m n" by (intro mult_right_mono lval_bounds)
  moreover have "0 \<le> 2 ^ 32 * lval x j" "0 \<le> ?W * ?lo" using lval_bounds(1) [of x j] by simp_all
  moreover have "2 ^ 32 * lval x j + ?W * ?lo + ?W * 2 ^ 32 * (uint (x ! (n + 1)) + ?hi) = lval t (n + 2) + uint mi * lval m n"
    unfolding total [symmetric] by (simp add: distrib_left mult.assoc)
  ultimately have "?W * 2 ^ 32 * (uint (x ! (n + 1)) + ?hi) < ?W * 2 ^ 32 * 2 ^ 32"
    using small unfolding pows by linarith
  then have hi: "uint (x ! (n + 1)) + ?hi < 2 ^ 32" by simp
  then have "uint (x ! (n + 1) + ucast (drop_bit 32 s)) = uint (x ! (n + 1)) + ?hi"
    by (subst uint_add_small) simp_all
  then have "lval y (n + 1) = lval x j + 2 ^ (32 * j) * ?lo + ?W * (uint (x ! (n + 1)) + ?hi)"
    using x(1) lval_cong [of j y x] by (simp add: y n lval_Suc)
  then have "2 ^ 32 * lval y (n + 1) = lval t (n + 2) + uint mi * lval m n"
    unfolding total [symmetric] pows(1) [symmetric] by (simp add: algebra_simps)
  then show "\<exists>q. 0 \<le> q \<and> q < 2 ^ 32 \<and> 2 ^ 32 * lval (mont_shift m n n0inv t) (n + 1) = lval t (n + 2) + q * lval m n"
    using mi_le unfolding y_def by (intro exI [of _ "uint mi"]) simp
qed

text \<open>
  After i rows the accumulator holds \<open>(a * b[0..i-1] + q m) / 2^(32 i)\<close>, below \<open>a + m\<close>.
\<close>

lemma mont_rows:
  fixes a b :: "u32 list"
  assumes m: "(m ! 0) * n0inv = - 1" and n: "1 \<le> n" and i: "i \<le> n"
  defines "t \<equiv> foldl (\<lambda>t i. mont_shift m n n0inv (mont_row a n (b ! i) t)) (replicate (n + 2) 0) [0..<i]"
  shows "length t = n + 2 \<and> lval t (n + 1) < lval a n + lval m n \<and>
    (\<exists>q. 0 \<le> q \<and> q < 2 ^ (32 * i) \<and> 2 ^ (32 * i) * lval t (n + 1) = lval a n * lval b i + q * lval m n)"
  using i unfolding t_def
proof (induction i)
  case 0
  have "m ! 0 \<noteq> 0" using m by (metis mult_zero_left neg_equal_0_iff_equal zero_neq_one)
  then have "uint (m ! 0) \<noteq> 0" by (simp add: uint_0_iff)
  then have "0 < uint (m ! 0)" using uint_ge_0 [of "m ! 0"] by linarith
  moreover obtain k where "n = Suc k" using n by (cases n) auto
  ultimately have "0 < lval m n" using lval_split [of m 1 k] digits_nonneg [of "2 ^ 32" k "\<lambda>i. uint (m ! (1 + i))"]
    by (simp add: lval_Suc add_pos_nonneg)
  moreover have "lval (replicate (n + 2) 0) (n + 1) = 0" by (rule lval_zero) simp
  ultimately show ?case using lval_bounds(1) [of a n] by simp
next
  case (Suc i)
  let ?t = "foldl (\<lambda>t i. mont_shift m n n0inv (mont_row a n (b ! i) t)) (replicate (n + 2) 0) [0..<i]"
  let ?u = "mont_row a n (b ! i) ?t"
  let ?m = "lval m n" and ?a = "lval a n"
  obtain q where ih: "length ?t = n + 2" "lval ?t (n + 1) < ?a + ?m" "0 \<le> q" "q < 2 ^ (32 * i)"
    "2 ^ (32 * i) * lval ?t (n + 1) = ?a * lval b i + q * ?m" using Suc by auto
  note u = row_value [OF ih(1), of a "b ! i"]
  have ab: "?a * uint (b ! i) \<le> ?a * (2 ^ 32 - 1)"
    using uint_lt2p [of "b ! i"] by (intro mult_left_mono lval_bounds) simp
  have lt: "lval ?u (n + 2) + (2 ^ 32 - 1) * ?m < 2 ^ 32 * (?a + ?m)"
    using u(2) ab ih(2) by (simp add: algebra_simps)
  also have "2 ^ 32 * (?a + ?m) < 2 ^ (32 * (n + 2))"
  proof -
    have "?a + ?m < 2 * 2 ^ (32 * n)" using lval_bounds(2) [of a n] lval_bounds(2) [of m n] by linarith
    then have "2 ^ 32 * (?a + ?m) < 2 ^ 32 * (2 * 2 ^ (32 * n))" by (rule mult_strict_left_mono) simp
    also have "\<dots> < 18446744073709551616 * 2 ^ (32 * n)" by simp
    also have "\<dots> = 2 ^ (32 * (n + 2))" by (simp add: power_add)
    finally show ?thesis .
  qed
  finally have small: "lval ?u (n + 2) + (2 ^ 32 - 1) * ?m < 2 ^ (32 * (n + 2))" .
  obtain p where p: "0 \<le> p" "p < 2 ^ 32" "2 ^ 32 * lval (mont_shift m n n0inv ?u) (n + 1) = lval ?u (n + 2) + p * ?m"
    and len: "length (mont_shift m n n0inv ?u) = n + 2"
    using shift_value [OF u(1) n m small] by blast
  let ?v = "mont_shift m n n0inv ?u"
  have "p * ?m \<le> (2 ^ 32 - 1) * ?m" using p(2) by (intro mult_right_mono lval_bounds) simp
  then have "lval ?v (n + 1) < ?a + ?m" using p(3) lt by simp
  moreover have "\<exists>q. 0 \<le> q \<and> q < 2 ^ (32 * Suc i) \<and> 2 ^ (32 * Suc i) * lval ?v (n + 1) = ?a * lval b (Suc i) + q * ?m"
  proof (intro exI conjI)
    have pow: "(2 :: int) ^ (32 * Suc i) = 2 ^ (32 * i) * 2 ^ 32" by (simp add: power_add)
    show "0 \<le> q + 2 ^ (32 * i) * p" using p(1) ih(3) by simp
    have "2 ^ (32 * i) * p \<le> 2 ^ (32 * i) * (2 ^ 32 - 1)" using p(2) by (intro mult_left_mono) simp_all
    then show "q + 2 ^ (32 * i) * p < 2 ^ (32 * Suc i)" using ih(4) unfolding pow right_diff_distrib mult_1_right by linarith
    have "2 ^ (32 * Suc i) * lval ?v (n + 1) = 2 ^ (32 * i) * (2 ^ 32 * lval ?v (n + 1))"
      unfolding pow by simp
    also have "\<dots> = 2 ^ (32 * i) * lval ?t (n + 1) + 2 ^ (32 * i) * (?a * uint (b ! i) + p * ?m)"
      unfolding p(3) u(2) by (simp add: algebra_simps)
    also have "\<dots> = ?a * lval b (Suc i) + (q + 2 ^ (32 * i) * p) * ?m"
      unfolding ih(5) lval_Suc by (simp add: algebra_simps)
    finally show "2 ^ (32 * Suc i) * lval ?v (n + 1) = ?a * lval b (Suc i) + (q + 2 ^ (32 * i) * p) * ?m" .
  qed
  ultimately show ?case using len by simp
qed

lemma mask_select_nth:
  assumes "length out = n" "k \<le> n"
  shows "length (mask_select sel out tmp t k) = n \<and>
    (\<forall>j<k. mask_select sel out tmp t k ! j = (tmp ! j AND sel) OR (t ! j AND NOT sel))"
  using assms(2) unfolding mask_select_def
proof (induction k)
  case (Suc k)
  then show ?case by (auto simp: less_Suc_eq nth_list_update)
qed (simp add: assms(1))

text \<open>Subtracting m once from a value below \<open>2 m\<close> given as n limbs and a carry.\<close>

lemma select_value:
  assumes "length out = n" "condsub = (if P then 1 else (0 :: u32))"
  shows "length (mask_select (0 - condsub) out tmp t n) = n"
    "lval (mask_select (0 - condsub) out tmp t n) n = (if P then lval tmp n else lval t n)"
  using mask_select_nth [OF assms(1) order_refl, of "0 - condsub" tmp t] assms(2)
  by (auto intro!: lval_cong)

lemma cond_subtract:
  fixes extra :: u32
  assumes "lval t (unat n) + 2 ^ (32 * unat n) * uint extra < 2 * lval m (unat n)"
    and "bn_limbs_sub (replicate (unat n) 0) t m n = (tmp, borrow)" "length out = unat n"
  defines "r \<equiv> mask_select (0 - ((if extra \<noteq> 0 then 1 else 0) OR (1 - borrow))) out tmp t (unat n)"
  shows "length r = unat n" "lval r (unat n) = (lval t (unat n) + 2 ^ (32 * unat n) * uint extra) mod lval m (unat n)"
proof -
  let ?n = "unat n" and ?R = "2 ^ (32 * unat n) :: int"
  let ?t = "lval t ?n" and ?m = "lval m ?n" and ?P = "extra \<noteq> 0 \<or> \<not> lval t (unat n) < lval m (unat n)"
  have tmp: "lval tmp ?n = (?t - ?m) mod ?R" "borrow = (if ?t < ?m then 1 else 0)"
    using limbs_sub_value [of "replicate ?n 0" n t m] assms(2) by simp_all
  have cond: "(if extra \<noteq> 0 then 1 else 0) OR (1 - borrow) = (if ?P then 1 else 0)"
    by (auto simp: tmp(2))
  note sel = select_value [OF assms(3) cond, of tmp t]
  show "length r = ?n" using sel unfolding r_def by simp
  have b: "0 \<le> ?t" "?t < ?R" "?m < ?R" "0 \<le> ?m" using lval_bounds by auto
  show "lval r ?n = (?t + ?R * uint extra) mod ?m"
  proof (cases ?P)
    case True
    have r: "lval r ?n = (?t - ?m) mod ?R" using sel True tmp(1) unfolding r_def by simp
    have total: "?t + ?R * uint extra - ?m \<ge> 0"
    proof (cases "extra = 0")
      case False
      then have "uint extra \<noteq> 0" by (simp add: uint_0_iff)
      then have "1 \<le> uint extra" using uint_ge_0 [of extra] by linarith
      then have "?R * 1 \<le> ?R * uint extra" by (intro mult_left_mono) simp_all
      then show ?thesis using b by linarith
    qed (use True in simp)
    have "(?t - ?m) mod ?R = (?t + ?R * uint extra - ?m) mod ?R"
      using mod_mult_self2 [of "?t - ?m" ?R "uint extra"] by (simp only: diff_add_eq)
    also have "\<dots> = ?t + ?R * uint extra - ?m"
      using total assms(1) b by (intro mod_pos_pos_trivial) linarith+
    also have "\<dots> = (?t + ?R * uint extra - ?m) mod ?m"
      using total assms(1) by (intro mod_pos_pos_trivial [symmetric]) linarith+
    finally show ?thesis using r by simp
  next
    case False
    then show ?thesis using sel b unfolding r_def by simp
  qed
qed

text \<open>The product: fully reduced, and \<open>a * b / R\<close> modulo m, when \<open>a * b < R m\<close>.\<close>

lemma mont_mul_value:
  assumes "(m ! 0) * n0inv = - 1" "0 < n" "lval a (unat n) * lval b (unat n) < 2 ^ (32 * unat n) * lval m (unat n)"
    and "length out = unat n"
  defines "r \<equiv> bn_mont_mul out a b m n n0inv"
  shows "length r = unat n" "0 \<le> lval r (unat n)" "lval r (unat n) < lval m (unat n)"
    "lval m (unat n) dvd lval r (unat n) * 2 ^ (32 * unat n) - lval a (unat n) * lval b (unat n)"
proof -
  let ?n = "unat n" and ?R = "2 ^ (32 * unat n) :: int" and ?m = "lval m (unat n)"
  define t where "t = foldl (\<lambda>t i. mont_shift m ?n n0inv (mont_row a ?n (b ! i) t)) (replicate (?n + 2) 0) [0..<?n]"
  obtain tmp borrow where sub: "bn_limbs_sub (replicate ?n 0) t m n = (tmp, borrow)" by fastforce
  have n: "1 \<le> ?n" using assms(2) by (simp add: word_gt_0 unat_gt_0 Suc_le_eq)
  obtain q where t: "0 \<le> q" "q < ?R" "?R * lval t (?n + 1) = lval a ?n * lval b ?n + q * ?m"
    using mont_rows [OF assms(1) n order_refl, of a b] unfolding t_def by blast
  have "0 \<le> lval a ?n * lval b ?n" by (intro mult_nonneg_nonneg lval_bounds)
  then have "0 < ?R * ?m" using assms(3) by linarith
  then have m: "0 < ?m" by (simp add: zero_less_mult_iff)
  have "q * ?m \<le> (?R - 1) * ?m" using t(2) m by (intro mult_right_mono) simp_all
  then have "?R * lval t (?n + 1) < ?R * (2 * ?m)" using t(3) assms(3) m by (simp add: algebra_simps)
  then have lt: "lval t (?n + 1) < 2 * ?m" by simp
  have T: "lval t (?n + 1) = lval t ?n + ?R * uint (t ! ?n)" by (simp add: lval_Suc)
  have r: "r = mask_select (0 - ((if t ! ?n \<noteq> 0 then 1 else 0) OR (1 - borrow))) out tmp t ?n"
    unfolding r_def bn_mont_mul_def Let_def t_def [symmetric] sub prod.case by (rule refl)
  note res = cond_subtract [OF lt [unfolded T] sub assms(4), folded r T]
  show "length r = ?n" "0 \<le> lval r ?n" "lval r ?n < ?m" using res m by simp_all
  have "?m dvd lval r ?n - lval t (?n + 1)" unfolding res(2) by (metis dvd_minus_mod dvd_diff_commute)
  then have "?m dvd (lval r ?n - lval t (?n + 1)) * ?R + q * ?m" by (intro dvd_add [OF dvd_mult2 dvd_triv_right])
  moreover have "(lval r ?n - lval t (?n + 1)) * ?R + q * ?m = lval r ?n * ?R - lval a ?n * lval b ?n"
    using t(3) by (simp add: algebra_simps)
  ultimately show "?m dvd lval r ?n * ?R - lval a ?n * lval b ?n" by (rule back_subst [where P = "\<lambda>x. ?m dvd x"])
qed

section \<open>Montgomery form\<close>

text \<open>\<open>mont_form m n x v\<close>: the limbs x hold \<open>v * R mod m\<close>.\<close>

definition mont_form :: "u32 list \<Rightarrow> u32 \<Rightarrow> u32 list \<Rightarrow> int \<Rightarrow> bool" where
  "mont_form m n x v \<longleftrightarrow> length x = unat n \<and> lval x (unat n) = (v * 2 ^ (32 * unat n)) mod lval m (unat n)"

lemma odd_lval: "0 < n \<Longrightarrow> odd (lval m n) \<longleftrightarrow> odd (uint (m ! 0))"
proof -
  assume "0 < n"
  then obtain k where "n = Suc k" by (cases n) auto
  then have "lval m n = uint (m ! 0) + 2 ^ 32 * digits (2 ^ 32) (\<lambda>i. uint (m ! Suc i)) k"
    using lval_split [of m 1 k] by (simp add: lval_Suc)
  then show ?thesis by simp
qed

lemma cancel_R:
  assumes "odd (M :: int)" "M dvd 2 ^ k * x"
  shows "M dvd x"
proof -
  have "coprime M (2 ^ k)" using assms(1) by (simp add: coprime_commute)
  then show ?thesis using assms(2) coprime_dvd_mult_right_iff by blast
qed

lemma mont_mul_mod:
  assumes "odd (lval m (unat n))" "0 < n" "n0inv = bn_mont_n0inv (m ! 0)" "length out = unat n"
    and "lval a (unat n) mod lval m (unat n) = v mod lval m (unat n)"
    and "lval b (unat n) = w * 2 ^ (32 * unat n) mod lval m (unat n)"
  shows "length (bn_mont_mul out a b m n n0inv) = unat n"
    "lval (bn_mont_mul out a b m n n0inv) (unat n) = v * w mod lval m (unat n)"
proof -
  let ?n = "unat n" and ?R = "2 ^ (32 * unat n) :: int" and ?m = "lval m (unat n)" and ?r = "bn_mont_mul out a b m n n0inv"
  have "0 < ?n" using assms(2) by (simp add: word_gt_0 unat_gt_0)
  then have inv: "(m ! 0) * n0inv = - 1" using n0inv_correct assms(1,3) odd_lval by simp
  have m: "0 < ?m" using assms(1) lval_bounds(1) [of m ?n] by (cases "?m = 0") auto
  have "lval b ?n < ?m" using assms(6) m by simp
  then have "lval a ?n * lval b ?n \<le> lval a ?n * ?m" by (intro mult_left_mono lval_bounds) simp
  also have "\<dots> < ?R * ?m" using m lval_bounds(2) by (intro mult_strict_right_mono)
  finally have small: "lval a ?n * lval b ?n < ?R * ?m" .
  note r = mont_mul_value [OF inv assms(2) small assms(4)]
  show "length ?r = ?n" by (rule r(1))
  have "?m dvd lval a ?n * (lval b ?n - w * ?R) + (lval a ?n - v) * (w * ?R)"
    using assms(5,6) by (intro dvd_add) (simp_all add: mod_eq_dvd_iff [symmetric])
  then have "?m dvd lval a ?n * lval b ?n - v * w * ?R" by (simp add: algebra_simps)
  from dvd_add [OF r(4) this] have "?m dvd ?R * (lval ?r ?n - v * w)" by (simp add: algebra_simps)
  then have "lval ?r ?n mod ?m = v * w mod ?m" using cancel_R [OF assms(1)] mod_eq_dvd_iff by blast
  then show "lval ?r ?n = v * w mod ?m" using r(2,3) by simp
qed

lemma mont_form_mul:
  assumes "odd (lval m (unat n))" "0 < n" "n0inv = bn_mont_n0inv (m ! 0)" "length out = unat n"
    and "mont_form m n a v" "mont_form m n b w"
  shows "mont_form m n (bn_mont_mul out a b m n n0inv) (v * w)"
  using mont_mul_mod [OF assms(1-4), of a "v * 2 ^ (32 * unat n)" b w] assms(5,6)
  by (simp add: mont_form_def mult.assoc mult.left_commute mult.commute [of w])

lemma double_mod_value:
  assumes "length x = unat n" "lval x (unat n) < lval m (unat n)"
  shows "length (bn_mont_double_mod x m n) = unat n"
    "lval (bn_mont_double_mod x m n) (unat n) = 2 * lval x (unat n) mod lval m (unat n)"
proof -
  let ?n = "unat n"
  have top: "drop_bit 31 v = drop_bit 31 v AND 1" for v :: u32
    using shift_limb [of 0 v] by (intro bit_word_eqI) (auto simp: bit_simps dest: bit_imp_le_length)
  then have body: "(\<lambda>_ v carry. (push_bit 1 v OR carry, drop_bit 31 v)) =
      (\<lambda>(_ :: nat) v (carry :: u32). (push_bit 1 v OR carry, drop_bit 31 v AND 1))" by presburger
  obtain y c where run: "bn_lshift1_limbs x n = (y, c)" by fastforce
  have y: "length y = ?n" "lval y ?n + 2 ^ (32 * ?n) * uint c = 2 * lval x ?n"
    using lshift1_limbs_value [OF assms(1)] by (simp_all add: run)
  obtain tmp borrow where sub: "bn_limbs_sub (replicate ?n 0) y m n = (tmp, borrow)" by fastforce
  have lt: "lval y ?n + 2 ^ (32 * ?n) * uint c < 2 * lval m ?n" using y(2) assms(2) by simp
  have r: "bn_mont_double_mod x m n = mask_select (0 - ((if c \<noteq> 0 then 1 else 0) OR (1 - borrow))) y tmp y ?n"
    unfolding bn_mont_double_mod_def body bn_lshift1_limbs_def [symmetric] run prod.case sub Let_def by (rule refl)
  note res = cond_subtract [OF lt sub y(1), folded r]
  show "length (bn_mont_double_mod x m n) = ?n"
    "lval (bn_mont_double_mod x m n) ?n = 2 * lval x ?n mod lval m ?n"
    using res y(2) by simp_all
qed

section \<open>The constant \<open>R^2 mod m\<close>\<close>

lemma doublings_value:
  assumes "length x = unat n" "0 \<le> lval x (unat n)" "lval x (unat n) < lval m (unat n)"
  shows "length (((\<lambda>x. bn_mont_double_mod x m n) ^^ k) x) = unat n \<and>
    lval (((\<lambda>x. bn_mont_double_mod x m n) ^^ k) x) (unat n) = 2 ^ k * lval x (unat n) mod lval m (unat n)"
proof (induction k)
  case 0
  then show ?case using assms by simp
next
  case (Suc k)
  let ?y = "((\<lambda>x. bn_mont_double_mod x m n) ^^ k) x"
  have "lval ?y (unat n) < lval m (unat n)" using Suc assms(2,3) by simp
  note d = double_mod_value [OF conjunct1 [OF Suc] this]
  then show ?case using Suc by (simp add: mod_simps mult.assoc)
qed

lemma squarings_value:
  assumes "odd (lval m (unat n))" "0 < n" "n0inv = bn_mont_n0inv (m ! 0)" "mont_form m n x v"
  shows "mont_form m n (((\<lambda>x. bn_mont_mul x x x m n n0inv) ^^ k) x) (v ^ (2 ^ k))"
proof (induction k)
  case (Suc k)
  then show ?case using mont_form_mul [OF assms(1-3), of "((\<lambda>x. bn_mont_mul x x x m n n0inv) ^^ k) x", OF _ Suc Suc]
    by (simp add: mont_form_def power_add [symmetric] mult_2)
qed (use assms(4) in simp)

lemma odd_part_value:
  "s \<noteq> 0 \<Longrightarrow> odd_part s q = (s', q') \<Longrightarrow> \<exists>k. s' \<noteq> 0 \<and> unat s = unat s' * 2 ^ k \<and> q' = q + of_nat k"
proof (induction s q arbitrary: s' q' rule: odd_part.induct)
  case (1 s q)
  show ?case
  proof (cases "s AND 1 = 0")
    case True
    then have "s mod 2 = 0" by (simp only: and_one_eq)
    then have "unat s mod 2 = 0" using unat_mod_distrib [of s 2] by simp
    then have half: "unat s = 2 * unat (drop_bit 1 s)" by (simp add: drop_bit_eq_div unat_div_distrib) presburger
    then have nz: "drop_bit 1 s \<noteq> 0" using 1(2) by (metis mult_0_right unat_0 unat_eq_zero)
    have "odd_part (drop_bit 1 s) (q + 1) = (s', q')" using 1(2,3) True by (simp add: odd_part.simps [of s])
    then obtain k where "s' \<noteq> 0" "unat (drop_bit 1 s) = unat s' * 2 ^ k" "q' = q + 1 + of_nat k"
      using 1(1) True 1(2) nz by blast
    then show ?thesis using half by (intro exI [of _ "Suc k"]) simp
  next
    case False
    then show ?thesis using 1(2,3) by (intro exI [of _ 0]) (simp add: odd_part.simps [of s])
  qed
qed

text \<open>For an odd modulus above 1 the routine computes \<open>R^2 mod m\<close>.\<close>

lemma one_hot:
  assumes "j < n"
  shows "lval ((replicate n 0)[j := 1]) n = 2 ^ (32 * j)"
  using lval_update [of j n "replicate n 0" 1] assms by (simp add: lval_zero)

lemma RR_value:
  assumes "odd (lval m (unat n))" "1 < lval m (unat n)" "0 < n" "unat n < 2 ^ 26" "n0inv = bn_mont_n0inv (m ! 0)"
  shows "length (bn_mont_RR m n n0inv) = unat n"
    "lval (bn_mont_RR m n n0inv) (unat n) = 2 ^ (32 * unat n) * 2 ^ (32 * unat n) mod lval m (unat n)"
proof -
  let ?n = "unat n" and ?m = "lval m (unat n)"
  have n: "0 < ?n" using assms(3) by (simp add: word_gt_0 unat_gt_0)
  have "length (bn_mont_RR m n n0inv) = ?n \<and> lval (bn_mont_RR m n n0inv) ?n = 2 ^ (32 * ?n) * 2 ^ (32 * ?n) mod ?m"
  proof (cases "m ! (?n - 1) = 0")
    case True
    have d: "unat (64 * n) = 64 * ?n" using assms(4) by (subst unat_mult_lem [THEN iffD1]) simp_all
    have "lval ((replicate ?n 0)[0 := 1]) ?n = 1" using one_hot [OF n] by simp
    then show ?thesis
      using True doublings_value [of "(replicate ?n 0)[0 := 1]" n m "64 * ?n"] assms(2) d
      by (simp add: bn_mont_RR_def Let_def power_add [symmetric])
  next
    case False
    obtain s q where os: "odd_part n 5 = (s, q)" by fastforce
    obtain k where k: "s \<noteq> 0" "?n = unat s * 2 ^ k" "q = 5 + of_nat k"
      using odd_part_value [OF _ os] assms(3) by auto
    have "unat s \<le> ?n" unfolding k(2) by simp
    then have d: "unat (32 + s) = 32 + unat s" using assms(4) by (subst unat_add_small) simp_all
    have "(2 :: nat) ^ k \<le> ?n" using k(1,2) by (simp add: unat_gt_0 Suc_le_eq)
    then have "(2 :: nat) ^ k < 2 ^ 26" using assms(4) by linarith
    then have "k < 26" by (rule power_less_imp_less_exp [rotated]) simp
    then have q: "unat q = 5 + k" unfolding k(3) by (simp add: unat_word_ariths unat_of_nat)
    have "?n = Suc (?n - 1)" using n by simp
    then have "lval m ?n = lval m (?n - 1) + 2 ^ (32 * (?n - 1)) * uint (m ! (?n - 1))" using lval_Suc by metis
    moreover have "1 \<le> uint (m ! (?n - 1))"
      using False uint_ge_0 [of "m ! (?n - 1)"] by (metis int_one_le_iff_zero_less order_le_less uint_0_iff)
    then have "2 ^ (32 * (?n - 1)) * 1 \<le> 2 ^ (32 * (?n - 1)) * uint (m ! (?n - 1))" by (intro mult_left_mono) simp_all
    ultimately have ge: "2 ^ (32 * (?n - 1)) \<le> ?m" using lval_bounds(1) [of m "?n - 1"] by linarith
    have lt: "2 ^ (32 * (?n - 1)) < ?m"
    proof (cases "?n = 1")
      case False
      then have "even ((2 :: int) ^ (32 * (?n - 1)))" using n by simp
      then show ?thesis using ge assms(1) by (metis order_le_less)
    qed (use assms(2) in simp)
    let ?x = "(replicate ?n 0)[?n - 1 := 1]"
    define y where "y = ((\<lambda>x. bn_mont_double_mod x m n) ^^ (32 + unat s)) ?x"
    have x: "lval ?x ?n = 2 ^ (32 * (?n - 1))" using one_hot [of "?n - 1" ?n] n by simp
    have pow: "2 ^ (32 + unat s) * (2 :: int) ^ (32 * (?n - 1)) = 2 ^ unat s * 2 ^ (32 * ?n)"
    proof -
      have "32 + unat s + 32 * (?n - 1) = unat s + 32 * ?n" using n by simp
      then show ?thesis by (simp only: power_add [symmetric])
    qed
    have "length y = ?n \<and> lval y ?n = 2 ^ (32 + unat s) * 2 ^ (32 * (?n - 1)) mod ?m"
      unfolding y_def x [symmetric] by (rule doublings_value) (use lt in \<open>simp_all add: x del: One_nat_def\<close>)
    then have "mont_form m n y (2 ^ unat s)" unfolding pow by (simp add: mont_form_def)
    from squarings_value [OF assms(1,3,5) this, of "5 + k"]
    have "mont_form m n (bn_mont_RR m n n0inv) ((2 ^ unat s) ^ (2 ^ (5 + k)))"
      using False os by (simp add: bn_mont_RR_def Let_def d q y_def)
    moreover have "((2 :: int) ^ unat s) ^ (2 ^ (5 + k)) = 2 ^ (32 * ?n)"
      unfolding power_mult [symmetric] k(2) by (intro arg_cong [where f = "\<lambda>e. 2 ^ e"]) (simp add: power_add)
    ultimately show ?thesis by (simp add: mont_form_def)
  qed
  then show "length (bn_mont_RR m n n0inv) = ?n"
    "lval (bn_mont_RR m n n0inv) ?n = 2 ^ (32 * ?n) * 2 ^ (32 * ?n) mod ?m" by simp_all
qed

end
