(* ===== verification/Bn_Exp.thy ===== *)
theory Bn_Exp
  imports Bn_Mont
begin

text \<open>
  Modular exponentiation for an odd modulus, from \<open>noxtls_bignum.c\<close>: the fixed-window exponentiation
  for secret exponents (window of 4 bits, the default of \<open>NOXTLS_BN_MONT_WINDOW_BITS\<close>) and the
  square-and-multiply for public ones. The outcome of each allocation is read from a script.
\<close>

section \<open>Definitions\<close>

definition BN_MONT_WINDOW :: u32 where "BN_MONT_WINDOW = 4"
definition BN_MONT_TABLE :: nat where "BN_MONT_TABLE = 16"

text \<open>The bit at position \<open>bp\<close> of the exponent, 0 above its last bit.\<close>

definition exp_bit :: "bytes \<Rightarrow> u32 \<Rightarrow> u32 \<Rightarrow> u32 \<Rightarrow> u32" where
  "exp_bit e exp_len nb bp = (if bp < nb then bn_u8_bit (e ! unat (exp_len - 1 - drop_bit 3 bp)) bp else 0)"

definition window_value :: "bytes \<Rightarrow> u32 \<Rightarrow> u32 \<Rightarrow> u32 \<Rightarrow> u32" where
  "window_value e exp_len nb bitbase =
     foldl (\<lambda>winval b. push_bit 1 winval OR exp_bit e exp_len nb (bitbase + b - 1)) 0
       (map of_nat (rev [1..<unat BN_MONT_WINDOW + 1]))"

text \<open>The gather reads every entry and keeps the one wanted.\<close>

definition gather :: "u32 list list \<Rightarrow> u32 \<Rightarrow> nat \<Rightarrow> u32 list" where
  "gather table winval n =
     foldl (\<lambda>sel idx.
        let d = of_nat idx XOR winval; eq = drop_bit 31 (d - 1) AND 1
        in map (\<lambda>j. sel ! j OR (table ! idx ! j AND (0 - eq))) [0..<n])
       (replicate n 0) [0..<BN_MONT_TABLE]"

definition mont_table :: "u32 list \<Rightarrow> u32 list \<Rightarrow> u32 list \<Rightarrow> u32 \<Rightarrow> u32 \<Rightarrow> u32 list list" where
  "mont_table aR RR m n n0inv =
     (let zero = replicate (unat n) 0; table = replicate BN_MONT_TABLE zero;
          table = table[0 := bn_mont_mul zero (zero[0 := 1]) RR m n n0inv];
          table = table[1 := aR]
      in foldl (\<lambda>table idx. table[idx := bn_mont_mul (table ! idx) (table ! (idx - 1)) aR m n n0inv])
           table [2..<BN_MONT_TABLE])"

definition window_step ::
    "bytes \<Rightarrow> u32 \<Rightarrow> u32 \<Rightarrow> u32 list list \<Rightarrow> u32 list \<Rightarrow> u32 \<Rightarrow> u32 \<Rightarrow> u32 list \<Rightarrow> u32 \<Rightarrow> u32 list" where
  "window_step e exp_len nb table m n n0inv acc win_idx =
     (let bitbase = (win_idx - 1) * BN_MONT_WINDOW;
          acc = ((\<lambda>x. bn_mont_mul x x x m n n0inv) ^^ unat BN_MONT_WINDOW) acc;
          winval = window_value e exp_len nb bitbase
      in bn_mont_mul acc acc (gather table winval (unat n)) m n n0inv)"

text \<open>The constants both exponentiations start from: the limbs of m, their inverse, \<open>R^2\<close> and \<open>a R\<close>.\<close>

definition mont_setup :: "bytes \<Rightarrow> bytes \<Rightarrow> u32 \<Rightarrow> u32 \<Rightarrow> u32 list \<times> u32 \<times> u32 list \<times> u32 list" where
  "mont_setup base md mod_len n =
     (let zero = replicate (unat n) 0;
          m_l = bn_be_to_limbs zero n md mod_len;
          n0inv = bn_mont_n0inv (m_l ! 0);
          RR = bn_mont_RR m_l n n0inv;
          aR = bn_be_to_limbs zero n base mod_len
      in (m_l, n0inv, RR, bn_mont_mul aR aR RR m_l n n0inv))"

definition bn_mod_exp_mont ::
    "bool list \<Rightarrow> bytes \<Rightarrow> bytes \<Rightarrow> bytes \<Rightarrow> u32 \<Rightarrow> bytes \<Rightarrow> u32 \<Rightarrow> noxtls_return_t \<times> bytes \<times> bool list" where
  "bn_mod_exp_mont allocs result base e exp_len md mod_len =
     (let n = (mod_len + 3) div 4 in
      if n = 0 then (NOXTLS_RETURN_NOT_SUPPORTED, result, allocs)
      else if md ! unat (mod_len - 1) AND 1 = 0 then (NOXTLS_RETURN_NOT_SUPPORTED, result, allocs)
      else
        let (work, allocs) = alloc_next allocs; (tab, allocs) = alloc_next allocs in
        if \<not> work \<or> \<not> tab then (NOXTLS_RETURN_NOT_ENOUGH_MEMORY, result, allocs)
        else
          let (m_l, n0inv, RR, aR) = mont_setup base md mod_len n;
              table = mont_table aR RR m_l n n0inv;
              nb = exp_len * 8;
              nwin = (nb + BN_MONT_WINDOW - 1) div BN_MONT_WINDOW;
              acc = foldl (window_step e exp_len nb table m_l n n0inv) (table ! 0)
                      (map of_nat (rev [1..<unat nwin + 1]));
              one = (replicate (unat n) 0)[0 := 1];
              acc = bn_mont_mul acc acc one m_l n n0inv
          in (NOXTLS_RETURN_SUCCESS, bn_limbs_to_be result mod_len acc n, allocs))"

text \<open>The public exponentiation skips leading zero bytes and finds the top bit.\<close>

fun top_bit :: "bytes \<Rightarrow> u32 \<Rightarrow> nat \<Rightarrow> nat" where
  "top_bit e exp_len 0 = 0"
| "top_bit e exp_len (Suc b) =
     (if bn_u8_bit (e ! unat (exp_len - 1 - drop_bit 3 (of_nat b))) (of_nat b) = 0 then top_bit e exp_len b else Suc b)"

definition public_step ::
    "bytes \<Rightarrow> u32 \<Rightarrow> u32 list \<Rightarrow> u32 list \<Rightarrow> u32 \<Rightarrow> u32 \<Rightarrow> u32 list \<Rightarrow> u32 \<Rightarrow> u32 list" where
  "public_step e exp_len aR m n n0inv acc bitpos =
     (let bp = bitpos - 1; acc = bn_mont_mul acc acc acc m n n0inv
      in if bn_u8_bit (e ! unat (exp_len - 1 - drop_bit 3 bp)) bp \<noteq> 0
         then bn_mont_mul acc acc aR m n n0inv else acc)"

definition bn_mod_exp_mont_public ::
    "bool list \<Rightarrow> bytes \<Rightarrow> bytes \<Rightarrow> bytes \<Rightarrow> u32 \<Rightarrow> bytes \<Rightarrow> u32 \<Rightarrow> noxtls_return_t \<times> bytes \<times> bool list" where
  "bn_mod_exp_mont_public allocs result base e exp_len md mod_len =
     (let n = (mod_len + 3) div 4 in
      if n = 0 then (NOXTLS_RETURN_NOT_SUPPORTED, result, allocs)
      else if md ! unat (mod_len - 1) AND 1 = 0 then (NOXTLS_RETURN_NOT_SUPPORTED, result, allocs)
      else
        let (work, allocs) = alloc_next allocs in
        if \<not> work then (NOXTLS_RETURN_NOT_ENOUGH_MEMORY, result, allocs)
        else
          let (m_l, n0inv, RR, aR) = mont_setup base md mod_len n;
              e_skip = of_nat (length (takeWhile (\<lambda>b. b = 0) (take (unat exp_len) e)));
              nb = top_bit e exp_len (unat ((exp_len - e_skip) * 8));
              one = (replicate (unat n) 0)[0 := 1]
          in if nb = 0 then (NOXTLS_RETURN_SUCCESS, bn_limbs_to_be result mod_len one n, allocs)
             else
               let acc = foldl (public_step e exp_len aR m_l n n0inv) aR (map of_nat (rev [1..<nb]));
                   acc = bn_mont_mul acc acc one m_l n n0inv
               in (NOXTLS_RETURN_SUCCESS, bn_limbs_to_be result mod_len acc n, allocs))"

section \<open>Exponent bits\<close>

lemma be_value_bit:
  "bit (be_value e) k \<longleftrightarrow> k < 8 * length e \<and> bit (e ! (length e - 1 - k div 8)) (k mod 8)"
proof (induction e arbitrary: k rule: rev_induct)
  case (snoc b e)
  have clear: "push_bit 8 (be_value e) AND unat b = 0"
    by (rule bit_eqI) (auto simp: bit_simps dest: bit_imp_le_length)
  have "be_value (e @ [b]) = push_bit 8 (be_value e) + unat b" by (simp add: push_bit_eq_mult)
  also have "\<dots> = push_bit 8 (be_value e) OR unat b" using clear by (simp add: disjunctive_add_eq_or)
  finally have v: "bit (be_value (e @ [b])) k \<longleftrightarrow> 8 \<le> k \<and> bit (be_value e) (k - 8) \<or> bit b k"
    by (auto simp: bit_simps)
  show ?case
  proof (cases "k < 8")
    case True
    then show ?thesis unfolding v by simp
  next
    case False
    then obtain j where k: "k = j + 8" by (metis add.commute le_Suc_ex not_less)
    then have "\<not> bit b k" by (auto dest: bit_imp_le_length)
    moreover have "(e @ [b]) ! (length e - k div 8) = e ! (length e - 1 - j div 8)" if "k < 8 * Suc (length e)"
    proof -
      have "(j + 8) div 8 = Suc (j div 8)" "j div 8 < length e" using that by (simp_all add: k)
      moreover from this have "length e - Suc (j div 8) < length e" by linarith
      ultimately show ?thesis by (simp only: k nth_append) simp
    qed
    ultimately show ?thesis unfolding v using snoc [of j] by (auto simp: k)
  qed
qed simp

lemma u8_bit: "bn_u8_bit b i = of_bool (bit b (unat i mod 8))"
proof -
  have "unat (i AND 7) = unat i mod 8" using unat_and_mask [of i 3] by (simp add: mask_eq_exp_minus_1)
  moreover have "([0x01, 0x02, 0x04, 0x08, 0x10, 0x20, 0x40, 0x80] ! r :: u8) = 2 ^ r" if "r < 8" for r
    using that by (auto simp: less_Suc_eq numeral_eq_Suc)
  ultimately have "[0x01, 0x02, 0x04, 0x08, 0x10, 0x20, 0x40, 0x80] ! unat (i AND 7) = (2 :: u8) ^ (unat i mod 8)" by simp
  then show ?thesis by (simp add: bn_u8_bit_def and_single_bit_eq_0_iff)
qed

lemma exp_byte_bit:
  assumes "length e = unat exp_len" "unat bp < 8 * length e"
  shows "bn_u8_bit (e ! unat (exp_len - 1 - drop_bit 3 bp)) bp = of_bool (bit (be_value e) (unat bp))"
proof -
  have "unat (drop_bit 3 bp) = unat bp div 8" by (simp add: drop_bit_eq_div unat_div_distrib)
  moreover have "unat bp div 8 < unat exp_len" using assms by simp
  ultimately have "unat (exp_len - 1 - drop_bit 3 bp) = length e - 1 - unat bp div 8"
    using assms(1) by (simp add: unat_sub_le unat_le_iff)
  then show ?thesis using assms(2) by (simp add: u8_bit be_value_bit)
qed

lemma exp_bit_value:
  assumes "length e = unat exp_len" "unat nb = 8 * length e"
  shows "exp_bit e exp_len nb bp = of_bool (bit (be_value e) (unat bp))"
proof (cases "bp < nb")
  case True
  then have "unat bp < 8 * length e" using assms(2) by (simp add: unat_lt_iff)
  then show ?thesis using exp_byte_bit [OF assms(1)] True by (simp add: exp_bit_def)
next
  case False
  then show ?thesis using assms(2) by (simp add: exp_bit_def be_value_bit unat_lt_iff)
qed

lemma four_bits:
  "unat (push_bit 1 (push_bit 1 (push_bit 1 (push_bit 1 0 OR of_bool p) OR of_bool q) OR of_bool r) OR of_bool s :: u32) =
     8 * of_bool p + 4 * of_bool q + 2 * of_bool r + of_bool s"
  by (cases p; cases q; cases r; cases s; simp)

lemma window_bits:
  assumes "length e = unat exp_len" "unat nb = 8 * length e" "unat bitbase + 4 < 2 ^ 32"
  shows "unat (window_value e exp_len nb bitbase) = be_value e div 2 ^ unat bitbase mod 16"
proof -
  let ?E = "be_value e" and ?k = "unat bitbase"
  have pos: "unat (bitbase + 3) = ?k + 3" "unat (bitbase + 2) = ?k + 2" "unat (bitbase + 1) = ?k + 1"
    using assms(3) by (subst unat_add_small; simp)+
  have list: "map of_nat (rev [1..<unat BN_MONT_WINDOW + 1]) = [4, 3, 2, 1 :: u32]"
    by (simp add: BN_MONT_WINDOW_def upt_rec)
  have arg: "bitbase + 4 - 1 = bitbase + 3" "bitbase + 3 - 1 = bitbase + 2" "bitbase + 2 - 1 = bitbase + 1"
    "bitbase + 1 - 1 = bitbase" by simp_all
  have b: "exp_bit e exp_len nb (bitbase + 3) = of_bool (bit ?E (?k + 3))"
    "exp_bit e exp_len nb (bitbase + 2) = of_bool (bit ?E (?k + 2))"
    "exp_bit e exp_len nb (bitbase + 1) = of_bool (bit ?E (?k + 1))"
    "exp_bit e exp_len nb bitbase = of_bool (bit ?E ?k)"
    by (simp_all only: exp_bit_value [OF assms(1,2)] pos)
  have "unat (window_value e exp_len nb bitbase) =
      8 * of_bool (bit ?E (?k + 3)) + 4 * of_bool (bit ?E (?k + 2)) + 2 * of_bool (bit ?E (?k + 1)) + of_bool (bit ?E ?k)"
    unfolding window_value_def list foldl.simps arg b by (rule four_bits)
  also have "\<dots> = ?E div 2 ^ ?k mod 16"
  proof -
    define X where "X = ?E div 2 ^ ?k"
    have bits: "of_bool (bit ?E (?k + j)) = X div 2 ^ j mod 2" for j
      unfolding X_def div_mult2_eq [symmetric] power_add [symmetric] by (simp add: bit_iff_odd mod2_eq_if)
    have "8 * (X div 8 mod 2) + 4 * (X div 4 mod 2) + 2 * (X div 2 mod 2) + X mod 2 = X mod 16"
      using mod_mult2_eq [of X 2 8] mod_mult2_eq [of "X div 2" 2 4] mod_mult2_eq [of "X div 4" 2 2]
        div_mult2_eq [of X 2 2] div_mult2_eq [of X 4 2] by simp
    then show ?thesis using bits [of 0] bits [of 1] bits [of 2] bits [of 3] by (simp add: X_def [symmetric])
  qed
  finally show ?thesis .
qed

section \<open>The constant-time gather\<close>

lemma select_bit:
  assumes "unat (d :: u32) < 16"
  shows "drop_bit 31 (d - 1) AND 1 = (if d = 0 then 1 else 0)"
proof (cases "d = 0")
  case False
  then have "unat (d - 1) < 16" using assms by (simp add: unat_minus_one)
  then have "drop_bit 31 (d - 1) = 0" by (intro unat_inj_iff [THEN iffD1]) (simp add: drop_bit_eq_div unat_div_distrib)
  then show ?thesis using False by simp
qed simp

lemma xor_16:
  assumes "unat a < 16" "unat b < 16"
  shows "unat (a XOR b :: u32) < 16"
proof -
  have "\<not> bit a k" "\<not> bit b k" if "4 \<le> k" for k
    using high_bits_clear [of a 4 k] high_bits_clear [of b 4 k] assms that by simp_all
  then have "a XOR b = take_bit 4 (a XOR b)" by (intro bit_word_eqI) (auto simp: bit_simps not_le [symmetric])
  then have "unat (a XOR b) = unat (a XOR b) mod 2 ^ 4" using unsigned_take_bit_eq [of 4 "a XOR b"] by (metis take_bit_eq_mod)
  then show ?thesis by simp
qed

lemma gather_entry:
  assumes "unat winval < 16" "length (table ! unat winval) = n"
  shows "gather table winval n = table ! unat winval"
proof -
  have "k \<le> 16 \<Longrightarrow> foldl (\<lambda>sel idx. let d = of_nat idx XOR winval; eq = drop_bit 31 (d - 1) AND 1
      in map (\<lambda>j. sel ! j OR (table ! idx ! j AND (0 - eq))) [0..<n]) (replicate n 0) [0..<k] =
      (if unat winval < k then table ! unat winval else replicate n 0)" for k
  proof (induction k)
    case (Suc k)
    have k: "unat (of_nat k :: u32) = k" using Suc.prems by (simp add: unat_of_nat)
    then have d: "unat (of_nat k XOR winval) < 16" using assms(1) Suc.prems by (intro xor_16) simp_all
    have eq: "of_nat k XOR winval = 0 \<longleftrightarrow> k = unat winval"
    proof -
      have "of_nat k XOR winval = 0 \<longleftrightarrow> of_nat k = winval" by (auto simp: bit_eq_iff [where 'a = u32] bit_simps)
      then show ?thesis using k by (auto simp: unat_inj_iff [symmetric])
    qed
    show ?case using Suc assms(2)
      by (auto simp: Let_def select_bit [OF d] eq less_Suc_eq intro!: nth_equalityI)
  qed simp
  from this [of 16] show ?thesis using assms(1) by (simp add: gather_def BN_MONT_TABLE_def)
qed

section \<open>The exponentiations\<close>

lemma mont_form_length: "mont_form m n x v \<Longrightarrow> length x = unat n"
  by (simp add: mont_form_def)

text \<open>Leaving the Montgomery domain: the product with 1.\<close>

lemma mont_out:
  assumes "odd (lval m (unat n))" "0 < n" "n0inv = bn_mont_n0inv (m ! 0)" "length out = unat n" "mont_form m n a v"
  defines "one \<equiv> (replicate (unat n) 0)[0 := 1]"
  shows "length (bn_mont_mul out a one m n n0inv) = unat n"
    "lval (bn_mont_mul out a one m n n0inv) (unat n) = v mod lval m (unat n)"
proof -
  let ?n = "unat n" and ?R = "2 ^ (32 * unat n) :: int" and ?m = "lval m (unat n)" and ?r = "bn_mont_mul out a one m n n0inv"
  have n: "0 < ?n" using assms(2) by (simp add: word_gt_0 unat_gt_0)
  then have inv: "(m ! 0) * n0inv = - 1" using n0inv_correct assms(1,3) odd_lval by simp
  have m: "1 \<le> ?m" using assms(1) lval_bounds(1) [of m ?n] by (cases "?m = 0") auto
  have one: "lval one ?n = 1" using one_hot [OF n] by (simp add: one_def)
  have "lval a ?n < ?R" by (rule lval_bounds)
  also have "?R * 1 \<le> ?R * ?m" using m by (intro mult_left_mono) simp_all
  finally have small: "lval a ?n * lval one ?n < ?R * ?m" using one by simp
  note r = mont_mul_value [OF inv assms(2) small assms(4)]
  show "length ?r = ?n" by (rule r(1))
  have "?m dvd lval a ?n - v * ?R" using assms(5) by (simp add: mont_form_def mod_eq_dvd_iff [symmetric])
  from dvd_add [OF r(4) this] have "?m dvd ?R * (lval ?r ?n - v)" by (simp add: one algebra_simps)
  then have "lval ?r ?n mod ?m = v mod ?m" using cancel_R [OF assms(1)] mod_eq_dvd_iff by blast
  then show "lval ?r ?n = v mod ?m" using r(2,3) by simp
qed

text \<open>Everything the setup establishes.\<close>

lemma setup_value:
  assumes "odd (be_value md)" "1 < be_value md" "length md = unat mod_len" "length base = unat mod_len"
    and "unat mod_len \<le> 0xFFFFFFC"
  defines "n \<equiv> (mod_len + 3) div 4"
  assumes run: "mont_setup base md mod_len n = (m, n0inv, RR, aR)"
  shows "0 < n" "unat mod_len \<le> 4 * unat n" "lval m (unat n) = int (be_value md)" "n0inv = bn_mont_n0inv (m ! 0)"
    "lval RR (unat n) = 2 ^ (32 * unat n) * 2 ^ (32 * unat n) mod lval m (unat n)"
    "mont_form m n aR (int (be_value base))" "md ! unat (mod_len - 1) AND 1 \<noteq> 0"
proof -
  have ml: "mod_len \<le> 0xFFFFFFFF - 3" using assms(5) by (simp add: word_le_nat_alt)
  note c = limb_count [OF ml]
  show le: "unat mod_len \<le> 4 * unat n" using c by (simp add: n_def)
  have nz: "mod_len \<noteq> 0" using assms(2,3) by auto
  then have pos: "0 < unat mod_len" by (simp add: unat_gt_0)
  then have "0 < unat n" using c by (simp add: n_def)
  then show n: "0 < n" by (simp add: word_gt_0 unat_gt_0)
  have nb: "unat n < 2 ^ 26" using c(1) assms(5) by (simp add: n_def)
  let ?z = "replicate (unat n) (0 :: u32)"
  have m: "m = bn_be_to_limbs ?z n md mod_len" and n0: "n0inv = bn_mont_n0inv (m ! 0)" and RR: "RR = bn_mont_RR m n n0inv"
    and aR: "aR = bn_mont_mul (bn_be_to_limbs ?z n base mod_len) (bn_be_to_limbs ?z n base mod_len) RR m n n0inv"
    using run by (auto simp: mont_setup_def Let_def)
  show "n0inv = bn_mont_n0inv (m ! 0)" by fact
  show mv: "lval m (unat n) = int (be_value md)" unfolding m using lval_loaded assms(3) le by blast
  have odd: "odd (lval m (unat n))" "1 < lval m (unat n)" using mv assms(1,2) by simp_all
  show RRv: "lval RR (unat n) = 2 ^ (32 * unat n) * 2 ^ (32 * unat n) mod lval m (unat n)"
    unfolding RR by (rule RR_value(2) [OF odd n nb n0])
  have len: "length (bn_be_to_limbs ?z n base mod_len) = unat n" using load_limbs(1) assms(4) by simp
  have bv: "lval (bn_be_to_limbs ?z n base mod_len) (unat n) = int (be_value base)" using lval_loaded assms(4) le by blast
  show "mont_form m n aR (int (be_value base))"
    using mont_mul_mod [OF odd(1) n n0 len _ RRv, where v = "int (be_value base)" and a = "bn_be_to_limbs ?z n base mod_len"] bv unfolding aR [symmetric]
    by (simp add: mont_form_def)
  have "bit (be_value md) 0" using assms(1) by (simp add: bit_0)
  then have "bit (md ! (length md - 1)) 0" unfolding be_value_bit by simp
  moreover have "unat (mod_len - 1) = length md - 1" using pos assms(3) by (simp add: unat_sub_le unat_le_iff)
  ultimately show "md ! unat (mod_len - 1) AND 1 \<noteq> 0" by (simp add: and_one_eq bit_0 odd_iff_mod_2_eq_one)
qed

lemma table_value:
  assumes "odd (lval m (unat n))" "0 < n" "n0inv = bn_mont_n0inv (m ! 0)"
    "lval RR (unat n) = 2 ^ (32 * unat n) * 2 ^ (32 * unat n) mod lval m (unat n)" "mont_form m n aR v"
    and "i < 16"
  shows "mont_form m n (mont_table aR RR m n n0inv ! i) (v ^ i)"
proof -
  let ?zero = "replicate (unat n) (0 :: u32)"
  have n: "0 < unat n" using assms(2) by (simp add: word_gt_0 unat_gt_0)
  let ?t0 = "bn_mont_mul ?zero (?zero[0 := 1]) RR m n n0inv"
  let ?start = "(replicate 16 ?zero)[0 := ?t0, 1 := aR]"
  have "lval (?zero[0 := 1]) (unat n) = 1" using one_hot [OF n] by simp
  then have t0: "mont_form m n ?t0 1"
    using mont_mul_mod [OF assms(1-3) _ _ assms(4), of ?zero "?zero[0 := 1]" 1] by (simp add: mont_form_def)
  have "2 \<le> k \<Longrightarrow> k \<le> 16 \<Longrightarrow>
      length (foldl (\<lambda>table idx. table[idx := bn_mont_mul (table ! idx) (table ! (idx - 1)) aR m n n0inv]) ?start [2..<k]) = 16 \<and>
      (\<forall>j<16. length (foldl (\<lambda>table idx. table[idx := bn_mont_mul (table ! idx) (table ! (idx - 1)) aR m n n0inv]) ?start [2..<k] ! j) = unat n) \<and>
      (\<forall>j<k. mont_form m n (foldl (\<lambda>table idx. table[idx := bn_mont_mul (table ! idx) (table ! (idx - 1)) aR m n n0inv]) ?start [2..<k] ! j) (v ^ j))" for k
  proof (induction k rule: dec_induct)
    case base
    then show ?case using t0 assms(5) mont_form_length [OF t0] mont_form_length [OF assms(5)]
      by (auto simp: less_Suc_eq numeral_eq_Suc nth_Cons')
  next
    case (step k)
    let ?t = "foldl (\<lambda>table idx. table[idx := bn_mont_mul (table ! idx) (table ! (idx - 1)) aR m n n0inv]) ?start [2..<k]"
    have ih: "length ?t = 16" "\<And>j. j < 16 \<Longrightarrow> length (?t ! j) = unat n" "\<And>j. j < k \<Longrightarrow> mont_form m n (?t ! j) (v ^ j)"
      using step by auto
    have "mont_form m n (bn_mont_mul (?t ! k) (?t ! (k - 1)) aR m n n0inv) (v ^ (k - 1) * v)"
      using step.hyps step.prems by (intro mont_form_mul assms(1-3,5) ih) auto
    moreover have "v ^ (k - 1) * v = v ^ k" using step.hyps by (simp flip: power_Suc2)
    ultimately have new: "mont_form m n (bn_mont_mul (?t ! k) (?t ! (k - 1)) aR m n n0inv) (v ^ k)" by simp
    have "[2..<Suc k] = [2..<k] @ [k]" using step.hyps by simp
    then show ?case using ih new mont_form_length [OF new] step.prems
      by (auto simp: nth_list_update less_Suc_eq)
  qed
  from this [of 16] show ?thesis using assms(6) unfolding mont_table_def BN_MONT_TABLE_def Let_def by simp
qed

lemma window_step_value:
  assumes m: "odd (lval m (unat n))" "0 < n" "n0inv = bn_mont_n0inv (m ! 0)"
    and RR: "lval RR (unat n) = 2 ^ (32 * unat n) * 2 ^ (32 * unat n) mod lval m (unat n)" "mont_form m n aR v"
    and e: "length e = unat exp_len" "unat nb = 8 * length e" "4 * unat w \<le> unat nb" "0 < w"
    and acc: "mont_form m n acc (v ^ (be_value e div 16 ^ unat w))"
  shows "mont_form m n (window_step e exp_len nb (mont_table aR RR m n n0inv) m n n0inv acc w)
    (v ^ (be_value e div 16 ^ (unat w - 1)))"
proof -
  let ?E = "be_value e" and ?table = "mont_table aR RR m n n0inv"
  obtain k where k: "unat w = Suc k" using e(4) by (metis gr0_conv_Suc unat_gt_0 word_gt_0)
  have "unat nb < 2 ^ 32" using unsigned_less [of nb, where 'a = nat] by simp
  then have kb: "4 * k + 4 < 2 ^ 32" using e(2,3) k by simp
  have w1: "unat (w - 1) = k" using k e(4) by (simp add: unat_minus_one word_gt_0)
  then have bb: "unat ((w - 1) * BN_MONT_WINDOW) = 4 * k"
    using kb by (subst unat_mult_lem [THEN iffD1]) (simp_all add: BN_MONT_WINDOW_def)
  let ?q = "?E div 16 ^ k mod 16"
  have win: "unat (window_value e exp_len nb ((w - 1) * BN_MONT_WINDOW)) = ?q"
    using window_bits [OF e(1,2), of "(w - 1) * BN_MONT_WINDOW"] kb by (simp add: bb power_mult)
  have entry: "mont_form m n (?table ! ?q) (v ^ ?q)" by (rule table_value [OF m RR]) simp
  then have gather: "gather ?table (window_value e exp_len nb ((w - 1) * BN_MONT_WINDOW)) (unat n) = ?table ! ?q"
    using gather_entry [of "window_value e exp_len nb ((w - 1) * BN_MONT_WINDOW)" ?table "unat n"] win
    by (simp add: mont_form_def)
  define sq where "sq = ((\<lambda>x. bn_mont_mul x x x m n n0inv) ^^ unat BN_MONT_WINDOW) acc"
  have sq: "mont_form m n sq ((v ^ (?E div 16 ^ unat w)) ^ (2 ^ 4))"
    using squarings_value [OF m acc, of 4] by (simp add: sq_def BN_MONT_WINDOW_def)
  have "mont_form m n (bn_mont_mul sq sq (?table ! ?q) m n n0inv) ((v ^ (?E div 16 ^ unat w)) ^ (2 ^ 4) * v ^ ?q)"
    by (rule mont_form_mul [OF m mont_form_length [OF sq] sq entry])
  also have "(v ^ (?E div 16 ^ unat w)) ^ (2 ^ 4) * v ^ ?q = v ^ (?E div 16 ^ unat w * 16 + ?q)"
    by (simp add: power_add power_mult)
  also have "?E div 16 ^ unat w * 16 + ?q = ?E div 16 ^ k"
    unfolding k power_Suc2 by (simp only: div_mult2_eq div_mult_mod_eq)
  finally show ?thesis using gather by (simp add: window_step_def Let_def sq_def k)
qed

lemma of_nat_unat: "N < 2 ^ 32 \<Longrightarrow> unat (of_nat N :: u32) = N"
  by (simp add: unat_of_nat)

lemma descend:
  assumes "\<And>k x. 0 < k \<Longrightarrow> k \<le> N \<Longrightarrow> P k x \<Longrightarrow> P (k - 1) (f x (of_nat k :: u32))" "P N x"
  shows "P 0 (foldl f x (map of_nat (rev [1..<N + 1])))"
  using assms
proof (induction N arbitrary: x)
  case (Suc N)
  have "P N (f x (of_nat (Suc N)))" using Suc.prems(1) [of "Suc N" x] Suc.prems(2) by simp
  moreover have "rev [1..<Suc N + 1] = Suc N # rev [1..<N + 1]" by simp
  ultimately show ?case using Suc.IH [of "f x (of_nat (Suc N))"] Suc.prems(1) by simp
qed simp

text \<open>The result as bytes.\<close>

lemma mont_result:
  assumes "lval m (unat n) = int M" "lval x (unat n) = int v mod lval m (unat n)" "0 < M" "M < 256 ^ unat mod_len"
    and "length result = unat mod_len"
  shows "length (bn_limbs_to_be result mod_len x n) = unat mod_len"
    "be_value (bn_limbs_to_be result mod_len x n) = v mod M"
proof -
  have v: "lval x (unat n) = int (v mod M)" using assms(1,2) by (simp add: zmod_int)
  have "v mod M < 256 ^ unat mod_len" using assms(3,4) by (meson mod_less_divisor order_less_trans)
  then have "int (v mod M) < 256 ^ unat mod_len" by (metis of_nat_less_iff of_nat_numeral of_nat_power)
  then have "int (be_value (bn_limbs_to_be result mod_len x n)) = int (v mod M)"
    using store_limbs(2) [OF assms(5), of x n] unfolding v by (simp add: mod_pos_pos_trivial)
  then show "be_value (bn_limbs_to_be result mod_len x n) = v mod M" by (simp only: of_nat_eq_iff)
  show "length (bn_limbs_to_be result mod_len x n) = unat mod_len" by (rule store_limbs(1) [OF assms(5)])
qed

lemma secret_exponentiation:
  assumes "odd (be_value md)" "1 < be_value md" "length md = unat mod_len" "length base = unat mod_len"
    and "unat mod_len \<le> 0xFFFFFFC" "length e = unat exp_len" "unat exp_len \<le> 0x1FFFFFFF" "length result = unat mod_len"
    and run: "bn_mod_exp_mont allocs result base e exp_len md mod_len = (rc, out, rest)"
  shows "rc = NOXTLS_RETURN_SUCCESS \<and> length out = unat mod_len \<and> be_value out = be_value base ^ be_value e mod be_value md \<or>
     rc = NOXTLS_RETURN_NOT_ENOUGH_MEMORY \<and> False \<in> set (take 2 allocs)"
proof -
  define n where "n = (mod_len + 3) div 4"
  obtain m n0inv RR aR where su: "mont_setup base md mod_len n = (m, n0inv, RR, aR)" by (metis prod_cases4)
  note s = setup_value [OF assms(1-5) su [unfolded n_def], folded n_def]
  have odd: "odd (lval m (unat n))" using s(3) assms(1) by simp
  define nb where "nb = exp_len * 8"
  have nb: "unat nb = 8 * length e" using assms(6,7) by (simp add: nb_def unat_word_ariths)
  have nwin: "unat ((nb + BN_MONT_WINDOW - 1) div BN_MONT_WINDOW) = 2 * length e"
  proof -
    have "nb + BN_MONT_WINDOW - 1 = nb + 3" by (simp add: BN_MONT_WINDOW_def)
    moreover have "unat (nb + 3) = 8 * length e + 3" using nb assms(6,7) by (subst unat_add_small) simp_all
    ultimately have "unat (nb + BN_MONT_WINDOW - 1) = 8 * length e + 3" by (simp only:)
    then show ?thesis unfolding unat_div_distrib by (simp add: BN_MONT_WINDOW_def)
  qed
  let ?step = "window_step e exp_len nb (mont_table aR RR m n n0inv) m n n0inv"
  let ?P = "\<lambda>k x. mont_form m n x (int (be_value base) ^ (be_value e div 16 ^ k))"
  have "be_value e div 16 ^ (2 * length e) = 0" using be_value_less [of e] by (simp add: power_mult)
  then have start: "?P (2 * length e) (mont_table aR RR m n n0inv ! 0)"
    using table_value [OF odd s(1,4,5,6), of 0] by simp
  define acc where "acc = foldl ?step (mont_table aR RR m n n0inv ! 0) (map of_nat (rev [1..<2 * length e + 1]))"
  have "?P 0 acc" unfolding acc_def
  proof (rule descend [where P = ?P, OF _ start])
    fix k x
    assume k: "0 < k" "k \<le> 2 * length e" "?P k x"
    have u: "unat (of_nat k :: u32) = k" using k(2) assms(6,7) by (intro of_nat_unat) simp
    then have "0 < (of_nat k :: u32)" using k(1) by (simp add: word_gt_0 unat_gt_0 [symmetric])
    then show "?P (k - 1) (?step x (of_nat k))"
      using window_step_value [OF odd s(1,4,5,6) assms(6) nb, of "of_nat k" x] k(2,3) nb u by simp
  qed
  then have acc: "mont_form m n acc (int (be_value base ^ be_value e))" by simp
  let ?one = "(replicate (unat n) 0)[0 := 1 :: u32]"
  note fin = mont_out [OF odd s(1,4) mont_form_length [OF acc] acc]
  have "be_value md < 256 ^ unat mod_len" using be_value_less [of md] assms(3) by simp
  note res = mont_result [OF s(3) fin(2) _ this assms(8)]
  have "n \<noteq> 0" using s(1) by auto
  then show ?thesis
    using run s(7) su res assms(2) unfolding bn_mod_exp_mont_def n_def [symmetric] Let_def nb_def [symmetric] nwin
    by (cases "alloc_next allocs"; cases "alloc_next (snd (alloc_next allocs))"; cases allocs; cases "tl allocs")
      (auto simp: acc_def split: if_splits)
qed

lemma top_bit_value:
  assumes "length e = unat exp_len" "b \<le> 8 * length e" "8 * length e < 2 ^ 32"
  shows "top_bit e exp_len b \<le> b \<and> (\<forall>i. top_bit e exp_len b \<le> i \<longrightarrow> i < b \<longrightarrow> \<not> bit (be_value e) i) \<and>
    (0 < top_bit e exp_len b \<longrightarrow> bit (be_value e) (top_bit e exp_len b - 1))"
  using assms(2)
proof (induction b)
  case (Suc b)
  have "unat (of_nat b :: u32) = b" using Suc.prems assms(3) by (intro of_nat_unat) simp
  then have "bn_u8_bit (e ! unat (exp_len - 1 - drop_bit 3 (of_nat b))) (of_nat b) = of_bool (bit (be_value e) b)"
    using exp_byte_bit [OF assms(1), of "of_nat b"] Suc.prems by simp
  then show ?case using Suc by (auto simp: less_Suc_eq)
qed simp

lemma div_by_top_bit:
  assumes "\<And>i. t \<le> i \<Longrightarrow> \<not> bit (E :: nat) i"
  shows "E div 2 ^ t = 0" "0 < t \<Longrightarrow> bit E (t - 1) \<Longrightarrow> E div 2 ^ (t - 1) = 1"
proof -
  have "drop_bit t E = 0" using assms by (intro bit_eqI) (simp add: bit_drop_bit_eq)
  then show e: "E div 2 ^ t = 0" by (simp only: drop_bit_eq_div)
  assume t: "0 < t" "bit E (t - 1)"
  then have "odd (E div 2 ^ (t - 1))" by (simp add: bit_iff_odd)
  moreover have "E div 2 ^ (t - 1) div 2 = 0"
    using e t(1) by (metis Suc_diff_1 div_mult2_eq power_Suc2)
  ultimately show "E div 2 ^ (t - 1) = 1" using odd_two_times_div_two_succ [of "E div 2 ^ (t - 1)"] by simp
qed

lemma public_step_value:
  assumes m: "odd (lval m (unat n))" "0 < n" "n0inv = bn_mont_n0inv (m ! 0)"
    and e: "length e = unat exp_len" "0 < w" "unat w \<le> 8 * length e"
    and aR: "mont_form m n aR v" and acc: "mont_form m n acc (v ^ (be_value e div 2 ^ unat w))"
  shows "mont_form m n (public_step e exp_len aR m n n0inv acc w) (v ^ (be_value e div 2 ^ (unat w - 1)))"
proof -
  let ?E = "be_value e"
  obtain k where k: "unat w = Suc k" using e(2) by (metis gr0_conv_Suc unat_gt_0 word_gt_0)
  have w1: "unat (w - 1) = k" using k e(2) by (simp add: unat_minus_one word_gt_0)
  have bit: "bn_u8_bit (e ! unat (exp_len - 1 - drop_bit 3 (w - 1))) (w - 1) = of_bool (bit ?E k)"
    using exp_byte_bit [OF e(1), of "w - 1"] e(3) k w1 by simp
  let ?sq = "bn_mont_mul acc acc acc m n n0inv" and ?p = "?E div 2 ^ unat w"
  have sq: "mont_form m n ?sq (v ^ (2 * ?p))"
    using mont_form_mul [OF m mont_form_length [OF acc] acc acc] by (simp add: mult_2 power_add)
  have half: "?E div 2 ^ k = 2 * ?p + of_bool (bit ?E k)"
    unfolding k power_Suc2 div_mult2_eq by (simp add: bit_iff_odd of_bool_odd_eq_mod_2)
  show ?thesis
  proof (cases "bit ?E k")
    case True
    then show ?thesis using mont_form_mul [OF m mont_form_length [OF sq] sq aR] bit half
      by (simp add: public_step_def Let_def k mult.commute)
  next
    case False
    then show ?thesis using sq bit half by (simp add: public_step_def Let_def k)
  qed
qed

lemma public_exponentiation:
  assumes "odd (be_value md)" "1 < be_value md" "length md = unat mod_len" "length base = unat mod_len"
    and "unat mod_len \<le> 0xFFFFFFC" "length e = unat exp_len" "unat exp_len \<le> 0x1FFFFFFF" "length result = unat mod_len"
    and run: "bn_mod_exp_mont_public allocs result base e exp_len md mod_len = (rc, out, rest)"
  shows "rc = NOXTLS_RETURN_SUCCESS \<and> length out = unat mod_len \<and> be_value out = be_value base ^ be_value e mod be_value md \<or>
     rc = NOXTLS_RETURN_NOT_ENOUGH_MEMORY \<and> False \<in> set (take 1 allocs)"
proof -
  define n where "n = (mod_len + 3) div 4"
  obtain m n0inv RR aR where su: "mont_setup base md mod_len n = (m, n0inv, RR, aR)" by (metis prod_cases4)
  note s = setup_value [OF assms(1-5) su [unfolded n_def], folded n_def]
  have odd: "odd (lval m (unat n))" using s(3) assms(1) by simp
  let ?E = "be_value e" and ?skip = "length (takeWhile (\<lambda>b. b = 0) e)"
  have skip: "?skip \<le> length e" by (rule length_takeWhile_le)
  define lim where "lim = unat ((exp_len - of_nat ?skip) * 8)"
  have lim: "lim = 8 * (length e - ?skip)"
  proof -
    have k: "unat (of_nat ?skip :: u32) = ?skip" using skip assms(6,7) by (intro of_nat_unat) simp
    then have "unat (exp_len - of_nat ?skip) = length e - ?skip" using skip assms(6) by (simp add: unat_sub_le unat_le_iff)
    then show ?thesis unfolding lim_def using assms(6,7) by (subst unat_mult_lem [THEN iffD1]) simp_all
  qed
  have above: "\<not> bit ?E i" if "lim \<le> i" for i
  proof
    assume b: "bit ?E i"
    let ?j = "length e - 1 - i div 8"
    have i: "i < 8 * length e" "bit (e ! ?j) (i mod 8)" using b unfolding be_value_bit [of e i] by auto
    have "length e - ?skip \<le> i div 8" using that unfolding lim by simp
    then have j: "?j < ?skip" using i(1) by simp
    have "e ! ?j = 0" using set_takeWhileD [OF nth_mem [OF j]] takeWhile_nth [OF j] by simp
    then show False using i(2) by simp
  qed
  define nb where "nb = top_bit e exp_len lim"
  have "lim \<le> 8 * length e" "8 * length e < 2 ^ 32" using assms(6,7) lim by simp_all
  note tb = top_bit_value [OF assms(6) this, folded nb_def]
  have top: "nb \<le> lim" "0 < nb \<Longrightarrow> bit ?E (nb - 1)" using tb by blast+
  have clear: "\<not> bit ?E i" if "nb \<le> i" for i
    using tb above that by (cases "i < lim") (blast, simp add: not_less)
  let ?one = "(replicate (unat n) 0)[0 := 1 :: u32]"
  have n: "0 < unat n" using s(1) by (simp add: word_gt_0 unat_gt_0)
  have "n \<noteq> 0" using s(1) by auto
  have whole: "take (unat exp_len) e = e" using assms(6) by simp
  have run': "rc = NOXTLS_RETURN_NOT_ENOUGH_MEMORY \<and> False \<in> set (take 1 allocs) \<or>
      rc = NOXTLS_RETURN_SUCCESS \<and> out = bn_limbs_to_be result mod_len
        (if nb = 0 then ?one else
           let acc = foldl (public_step e exp_len aR m n n0inv) aR (map of_nat (rev [1..<nb]))
           in bn_mont_mul acc acc ?one m n n0inv) n"
    using run s(7) \<open>n \<noteq> 0\<close>
    unfolding bn_mod_exp_mont_public_def n_def [symmetric] Let_def su prod.case whole lim_def [symmetric] nb_def [symmetric]
    by (cases allocs) (auto split: if_splits)
  have md: "be_value md < 256 ^ unat mod_len" using be_value_less [of md] assms(3) by simp
  show ?thesis
  proof (cases "nb = 0")
    case True
    then have "?E = 0" using div_by_top_bit(1) [of 0 ?E] clear by simp
    moreover have "lval ?one (unat n) = 1" using one_hot [OF n] by simp
    ultimately have "lval ?one (unat n) = int (be_value base ^ ?E) mod lval m (unat n)" using s(3) assms(2) by simp
    from mont_result [OF s(3) this _ md assms(8)] show ?thesis using run' True assms(2) by auto
  next
    case False
    let ?step = "public_step e exp_len aR m n n0inv"
    let ?P = "\<lambda>k x. mont_form m n x (int (be_value base) ^ (?E div 2 ^ k))"
    obtain N where N: "nb = Suc N" using False by (cases nb) auto
    have "?E div 2 ^ N = 1" using div_by_top_bit(2) [of nb ?E, OF clear] top(2) N by simp
    then have start: "?P N aR" using s(6) by simp
    define acc where "acc = foldl ?step aR (map of_nat (rev [1..<N + 1]))"
    have "?P 0 acc" unfolding acc_def
    proof (rule descend [where P = ?P, OF _ start])
      fix k x
      assume k: "0 < k" "k \<le> N" "?P k x"
      have le: "k \<le> 8 * length e" using k(2) N top(1) lim by simp
      have u: "unat (of_nat k :: u32) = k" using le assms(6,7) by (intro of_nat_unat) simp
      then have "0 < (of_nat k :: u32)" using k(1) by (simp add: word_gt_0 unat_gt_0 [symmetric])
      then show "?P (k - 1) (?step x (of_nat k))"
        using public_step_value [OF odd s(1,4) assms(6) _ _ s(6), of "of_nat k" x] k(3) le u by simp
    qed
    then have acc: "mont_form m n acc (int (be_value base ^ ?E))" by simp
    note fin = mont_out [OF odd s(1,4) mont_form_length [OF acc] acc]
    from mont_result [OF s(3) fin(2) _ md assms(8)] show ?thesis
      using run' assms(2) by (auto simp: N acc_def Let_def)
  qed
qed

text \<open>
  C28. Montgomery exponentiation, windowed or by square and multiply, gives \<open>base ^ exp mod m\<close> for every odd
  modulus above 1, every base and every exponent, leading zero bytes included; the only other outcome is a
  refused allocation.
\<close>

theorem bn_mod_exp_mont_correct:
  assumes "odd (be_value md)" "1 < be_value md" "length md = unat mod_len" "length base = unat mod_len"
    and "unat mod_len \<le> 0xFFFFFFC" "length e = unat exp_len" "unat exp_len \<le> 0x1FFFFFFF" "length result = unat mod_len"
    and "bn_mod_exp_mont allocs result base e exp_len md mod_len = (rc, out, rest)"
    and "bn_mod_exp_mont_public allocs result base e exp_len md mod_len = (rc', out', rest')"
  shows "(rc = NOXTLS_RETURN_SUCCESS \<and> length out = unat mod_len \<and> be_value out = be_value base ^ be_value e mod be_value md \<or>
      rc = NOXTLS_RETURN_NOT_ENOUGH_MEMORY \<and> False \<in> set (take 2 allocs)) \<and>
    (rc' = NOXTLS_RETURN_SUCCESS \<and> length out' = unat mod_len \<and> be_value out' = be_value base ^ be_value e mod be_value md \<or>
      rc' = NOXTLS_RETURN_NOT_ENOUGH_MEMORY \<and> False \<in> set (take 1 allocs))"
  using secret_exponentiation [OF assms(1-9)] public_exponentiation [OF assms(1-8,10)] by blast

theorem bn_mod_exp_mont_correct_witness:
  "\<exists>out rest. bn_mod_exp_mont [] [0] [3] [5] 1 [7] 1 = (NOXTLS_RETURN_SUCCESS, out, rest) \<and> be_value out = 5"
proof -
  obtain rc out rest where r: "bn_mod_exp_mont [] [0] [3] [5] 1 [7] 1 = (rc, out, rest)" by (metis prod_cases3)
  obtain rc' out' rest' where "bn_mod_exp_mont_public [] [0] [3] [5] 1 [7] 1 = (rc', out', rest')" by (metis prod_cases3)
  from bn_mod_exp_mont_correct [OF _ _ _ _ _ _ _ _ r this] r show ?thesis by (simp add: be_value_def)
qed

end
