(* ===== verification/Bn_Mod_Ct.thy ===== *)
theory Bn_Mod_Ct
  imports Bn_Exp
begin

text \<open>
  Constant-time reduction, \<open>noxtls_bn_mod_ct\<close> of \<open>noxtls_bignum.c\<close>: a Horner evaluation over
  Montgomery products for an odd modulus and a bit-serial shift and subtract for an even one. It reduces
  a number of any length.
\<close>

section \<open>Definitions\<close>

definition chunk_byte :: "bytes \<Rightarrow> u32 \<Rightarrow> u32 \<Rightarrow> u32" where
  "chunk_byte be be_len k = (if k < be_len then ucast (be ! unat (be_len - 1 - k)) else 0)"

definition bn_be_chunk_to_limbs :: "nat \<Rightarrow> bytes \<Rightarrow> u32 \<Rightarrow> u32 \<Rightarrow> u32 list" where
  "bn_be_chunk_to_limbs n be be_len limb_off =
     map (\<lambda>j. foldl (\<lambda>limb b. push_bit 8 limb OR chunk_byte be be_len ((limb_off + of_nat j) * 4 + (b - 1))) 0 [4, 3, 2, 1])
       [0..<n]"

definition bn_ct_add_mod :: "u32 list \<Rightarrow> u32 list \<Rightarrow> u32 list \<Rightarrow> u32 \<Rightarrow> u32 list" where
  "bn_ct_add_mod x y m n =
     (let (x, carry) = carry_loop [0..<unat n]
            (\<lambda>j v carry. let s = ucast v + ucast (y ! j) + carry :: u64 in (ucast s, drop_bit 32 s)) x (0 :: u64);
          (tmp, borrow) = bn_limbs_sub (replicate (unat n) 0) x m n
      in mask_select (0 - (ucast carry OR (1 - borrow))) x tmp x (unat n))"

definition bitserial_step :: "bytes \<Rightarrow> u32 \<Rightarrow> u32 list \<Rightarrow> u32 \<Rightarrow> u32 list \<Rightarrow> u32 \<Rightarrow> u32 list" where
  "bitserial_step a a_len m n rem i =
     (let bp = i - 1;
          carry = drop_bit (unat (bp AND 7)) (ucast (a ! unat (a_len - 1 - drop_bit 3 bp)) :: u32) AND 1;
          (rem, carry) = carry_loop [0..<unat n] (\<lambda>_ v carry. (push_bit 1 v OR carry, drop_bit 31 v)) rem carry;
          (tmp, borrow) = bn_limbs_sub (replicate (unat n) 0) rem m n
      in mask_select (0 - (carry OR (1 - borrow))) rem tmp rem (unat n))"

definition bn_mod_ct_bitserial :: "bytes \<Rightarrow> u32 \<Rightarrow> u32 list \<Rightarrow> u32 \<Rightarrow> u32 list" where
  "bn_mod_ct_bitserial a a_len m n =
     foldl (bitserial_step a a_len m n) (replicate (unat n) 0) (map of_nat (rev [1..<unat (a_len * 8) + 1]))"

definition horner_step :: "bytes \<Rightarrow> u32 \<Rightarrow> u32 list \<Rightarrow> u32 list \<Rightarrow> u32 \<Rightarrow> u32 \<Rightarrow> u32 list \<Rightarrow> u32 \<Rightarrow> u32 list" where
  "horner_step a a_len RR m n n0inv acc c =
     (let acc = bn_mont_mul acc acc RR m n n0inv;
          chunk = bn_be_chunk_to_limbs (unat n) a a_len ((c - 1) * n);
          chunk = bn_mont_mul chunk chunk RR m n n0inv
      in bn_ct_add_mod acc chunk m n)"

definition mod_ct_odd :: "bytes \<Rightarrow> u32 \<Rightarrow> bytes \<Rightarrow> u32 \<Rightarrow> u32 list \<Rightarrow> u32 \<Rightarrow> u32 list" where
  "mod_ct_odd a a_len md mod_len m n =
     (let a_limbs = (a_len + 3) div 4; chunks = (a_limbs + n - 1) div n; acc = replicate (unat n) 0 in
      if noxtls_bn_is_one (Some md) mod_len \<noteq> 0 then acc
      else
        let n0inv = bn_mont_n0inv (m ! 0);
            RR = bn_mont_RR m n n0inv;
            acc = foldl (horner_step a a_len RR m n n0inv) acc (map of_nat (rev [1..<unat chunks + 1]))
        in bn_mont_mul acc acc ((replicate (unat n) 0)[0 := 1]) m n n0inv)"

definition noxtls_bn_mod_ct ::
    "bool list \<Rightarrow> bytes option \<Rightarrow> bytes option \<Rightarrow> u32 \<Rightarrow> bytes option \<Rightarrow> u32 \<Rightarrow> noxtls_return_t \<times> bytes option \<times> bool list" where
  "noxtls_bn_mod_ct allocs result a a_len md mod_len =
     (if result = None \<or> a = None \<or> md = None then (NOXTLS_RETURN_NULL, result, allocs)
      else if mod_len = 0 then (NOXTLS_RETURN_INVALID_PARAM, result, allocs)
      else if mod_len > 0xFFFFFFFF div 8 \<or> a_len > 0xFFFFFFFF div 8
        then (NOXTLS_RETURN_FAILED, noxtls_secure_zero result (unat mod_len), allocs)
      else if foldl (\<lambda>acc i. acc OR ucast (the md ! i)) (0 :: u32) [0..<unat mod_len] = 0
        then (NOXTLS_RETURN_INVALID_PARAM, noxtls_secure_zero result (unat mod_len), allocs)
      else
        let n = (mod_len + 3) div 4; (work, allocs) = alloc_next allocs in
        if \<not> work then (NOXTLS_RETURN_NOT_ENOUGH_MEMORY, noxtls_secure_zero result (unat mod_len), allocs)
        else
          let m_l = bn_be_to_limbs (replicate (unat n) 0) n (the md) mod_len;
              acc = (if the md ! unat (mod_len - 1) AND 1 \<noteq> 0 then mod_ct_odd (the a) a_len (the md) mod_len m_l n
                     else bn_mod_ct_bitserial (the a) a_len m_l n)
          in (NOXTLS_RETURN_SUCCESS, Some (bn_limbs_to_be (the result) mod_len acc n), allocs))"

section \<open>Values of the steps\<close>

lemma flag_word: "(c :: u32) \<le> 1 \<Longrightarrow> (if c \<noteq> 0 then 1 else 0) = c"
  using shift_limb [of c 0] by (cases "c = 0") (auto simp: word_le_nat_alt intro!: unat_inj_iff [THEN iffD1] dest!: unat_inj_iff [THEN iffD2])

lemma add_step:
  fixes a b :: u32 and c :: u64
  assumes "uint c \<le> 1"
  defines "s \<equiv> ucast a + ucast b + c"
  shows "uint (drop_bit 32 s) \<le> 1 \<and> uint (ucast s :: u32) + 2 ^ 32 * uint (drop_bit 32 s) = uint a + uint b + uint c"
proof -
  have s: "uint s = uint a + uint b + uint c" unfolding s_def using assms(1) by (intro add_value) simp
  have "uint a < 2 ^ 32" "uint b < 2 ^ 32" using uint_lt2p [of a] uint_lt2p [of b] by simp_all
  then have "uint s < 2 * 2 ^ 32" using s assms(1) by linarith
  then show ?thesis using halves(1) [of s] s by (simp add: uint_drop_bit)
qed

lemma add_mod_value:
  assumes "length x = unat n" "lval x (unat n) < lval m (unat n)" "lval y (unat n) < lval m (unat n)"
  shows "length (bn_ct_add_mod x y m n) = unat n"
    "lval (bn_ct_add_mod x y m n) (unat n) = (lval x (unat n) + lval y (unat n)) mod lval m (unat n)"
proof -
  let ?n = "unat n" and ?body = "\<lambda>j v carry. let s = ucast v + ucast (y ! j) + carry :: u64 in (ucast s :: u32, drop_bit 32 s)"
  obtain z c where run: "carry_loop [0..<?n] ?body x 0 = (z, c)" by fastforce
  have "length z = length x \<and> uint c \<le> 1 \<and> (\<forall>j\<ge>?n. z ! j = x ! j) \<and>
      lval z ?n + 2 ^ (32 * ?n) * uint c = digits (2 ^ 32) (\<lambda>i. uint (x ! i) + uint (y ! i)) ?n + uint (0 :: u64)"
  proof (rule limb_loop [where I = "\<lambda>c. uint c \<le> 1", OF run])
    fix i c v c'
    assume "uint c \<le> 1" "?body i (x ! i) c = (v, c')"
    then show "uint c' \<le> 1 \<and> uint v + 2 ^ 32 * uint c' = uint (x ! i) + uint (y ! i) + uint c"
      using add_step [of c "x ! i" "y ! i"] by (simp only: Let_def prod.inject)
  qed (use assms(1) in auto)
  then have z: "length z = ?n" "uint c \<le> 1" "lval z ?n + 2 ^ (32 * ?n) * uint c = lval x ?n + lval y ?n"
    using assms(1) by (simp_all add: digits_add lval_def)
  have uc: "uint (ucast c :: u32) = uint c" using z(2) by (simp add: uint_ucast_down)
  then have c1: "(ucast c :: u32) \<le> 1" using z(2) by (simp add: word_le_def)
  obtain tmp borrow where sub: "bn_limbs_sub (replicate ?n 0) z m n = (tmp, borrow)" by fastforce
  have lt: "lval z ?n + 2 ^ (32 * ?n) * uint (ucast c :: u32) < 2 * lval m ?n" using z(3) uc assms(2,3) by simp
  have r: "bn_ct_add_mod x y m n =
      mask_select (0 - ((if (ucast c :: u32) \<noteq> 0 then 1 else 0) OR (1 - borrow))) z tmp z ?n"
    unfolding bn_ct_add_mod_def Let_def run [unfolded Let_def] prod.case sub flag_word [OF c1] by (rule refl)
  note res = cond_subtract [OF lt sub z(1), folded r]
  show "length (bn_ct_add_mod x y m n) = ?n"
    "lval (bn_ct_add_mod x y m n) ?n = (lval x ?n + lval y ?n) mod lval m ?n"
    using res z(3) uc by simp_all
qed

lemma bitserial_step_value:
  assumes "length rem = unat n" "lval rem (unat n) < lval m (unat n)" "length a = unat a_len" "0 < i" "unat i \<le> 8 * length a"
  shows "length (bitserial_step a a_len m n rem i) = unat n"
    "lval (bitserial_step a a_len m n rem i) (unat n) =
       (2 * lval rem (unat n) + of_bool (bit (be_value a) (unat i - 1))) mod lval m (unat n)"
proof -
  let ?n = "unat n" and ?b = "bit (be_value a) (unat i - 1)"
  have i1: "unat (i - 1) = unat i - 1" using assms(4) by (simp add: unat_minus_one word_gt_0)
  have pos: "0 < unat i" using assms(4) by (simp add: word_gt_0 unat_gt_0)
  have bitw: "drop_bit (unat (bp AND 7)) (ucast x :: u32) AND 1 = bn_u8_bit x bp" for bp :: u32 and x :: u8
  proof -
    have "unat (bp AND 7) = unat bp mod 8" using unat_and_mask [of bp 3] by (simp add: mask_eq_exp_minus_1)
    then show ?thesis by (auto simp: u8_bit and_one_eq even_drop_bit_iff_not_bit mod2_eq_if bit_unsigned_iff of_bool_def dest: bit_imp_le_length)
  qed
  have carry: "drop_bit (unat ((i - 1) AND 7)) (ucast (a ! unat (a_len - 1 - drop_bit 3 (i - 1))) :: u32) AND 1 = of_bool ?b"
    unfolding bitw using exp_byte_bit [OF assms(3), of "i - 1"] i1 pos assms(5) by simp
  have top: "drop_bit 31 v = drop_bit 31 v AND 1" for v :: u32
    by (intro bit_word_eqI) (auto simp: bit_simps dest: bit_imp_le_length)
  obtain z c where run: "carry_loop [0..<?n] (\<lambda>_ v carry. (push_bit 1 v OR carry, drop_bit 31 v)) rem (of_bool ?b :: u32) = (z, c)"
    by fastforce
  have "length z = length rem \<and> c \<le> 1 \<and> (\<forall>j\<ge>?n. z ! j = rem ! j) \<and>
      lval z ?n + 2 ^ (32 * ?n) * uint c = digits (2 ^ 32) (\<lambda>i. 2 * uint (rem ! i)) ?n + uint (of_bool ?b :: u32)"
  proof (rule limb_loop [where I = "\<lambda>c. c \<le> 1", OF run])
    fix j and c y c' :: u32
    assume "c \<le> 1" "(push_bit 1 (rem ! j) OR c, drop_bit 31 (rem ! j)) = (y, c')"
    then show "c' \<le> 1 \<and> uint y + 2 ^ 32 * uint c' = 2 * uint (rem ! j) + uint c"
      using shift_limb [of c "rem ! j", folded top] by auto
  qed (use assms(1) in auto)
  then have z: "length z = ?n" "c \<le> 1" "lval z ?n + 2 ^ (32 * ?n) * uint c = 2 * lval rem ?n + of_bool ?b"
    using assms(1) by (auto simp: digits_mult lval_def)
  obtain tmp borrow where sub: "bn_limbs_sub (replicate ?n 0) z m n = (tmp, borrow)" by fastforce
  have lt: "lval z ?n + 2 ^ (32 * ?n) * uint c < 2 * lval m ?n" using z(3) assms(2) by (cases ?b) simp_all
  have r: "bitserial_step a a_len m n rem i = mask_select (0 - ((if c \<noteq> 0 then 1 else 0) OR (1 - borrow))) z tmp z ?n"
    unfolding bitserial_step_def Let_def carry run prod.case sub flag_word [OF z(2)] by (rule refl)
  note res = cond_subtract [OF lt sub z(1), folded r]
  show "length (bitserial_step a a_len m n rem i) = ?n"
    "lval (bitserial_step a a_len m n rem i) ?n = (2 * lval rem ?n + of_bool ?b) mod lval m ?n"
    using res z(3) by simp_all
qed

section \<open>The reduction\<close>

lemma digits_window:
  assumes "\<And>i. 0 \<le> f i \<and> f i < B" "0 < B"
  shows "digits B (\<lambda>i. f (k + i)) n = digits B f (k + n) div B ^ k"
proof -
  have "0 \<le> digits B f k" "digits B f k < B ^ k" using assms by (auto intro: digits_nonneg digits_less)
  then show ?thesis unfolding digits_split using assms(2) by (simp add: div_add1_eq)
qed

text \<open>The byte at position k from the least significant end.\<close>

definition le_byte :: "bytes \<Rightarrow> nat \<Rightarrow> int" where
  "le_byte a k = (if k < length a then uint (a ! (length a - 1 - k)) else 0)"

lemma le_byte_range: "0 \<le> le_byte a k \<and> le_byte a k < 256"
  using uint_lt2p [of "a ! (length a - 1 - k)"] by (simp add: le_byte_def)

lemma le_byte_value: "le_byte a k = int (be_value a) div 256 ^ k mod 256"
proof (cases "k < length a")
  case True
  have "int (be_value a) = digits 256 (le_byte a) (length a)"
    unfolding be_value_digits by (rule digits_cong) (simp add: le_byte_def)
  then show ?thesis using digits_digit [of "le_byte a" 256 k "length a", OF le_byte_range] True by simp
next
  case False
  have "be_value a < 256 ^ length a" by (rule be_value_less)
  also have "\<dots> \<le> 256 ^ k" using False by (intro power_increasing) auto
  finally have "int (be_value a) < 256 ^ k" by (metis of_nat_less_iff of_nat_numeral of_nat_power)
  then show ?thesis using False by (simp add: le_byte_def)
qed

lemma four_bytes:
  fixes b0 b1 b2 b3 :: u32
  assumes "uint b0 < 256" "uint b1 < 256" "uint b2 < 256" "uint b3 < 256"
  shows "uint (push_bit 8 (push_bit 8 (push_bit 8 (push_bit 8 0 OR b3) OR b2) OR b1) OR b0) =
    uint b0 + 256 * uint b1 + 65536 * uint b2 + 16777216 * uint b3"
proof -
  have step: "uint (push_bit 8 w OR b) = 256 * uint w + uint b" if "uint w < 2 ^ 24" "uint b < 256" for w b :: u32
  proof -
    have "int (unat b) < int (2 ^ 8)" using that(2) by simp
    then have "unat b < 2 ^ 8" by (simp only: of_nat_less_iff)
    then have "\<not> bit b k" if "8 \<le> k" for k using high_bits_clear that by blast
    then have "push_bit 8 w AND b = 0" by (intro bit_word_eqI) (auto simp: bit_simps)
    then have "push_bit 8 w OR b = push_bit 8 w + b" by (simp add: disjunctive_add_eq_or)
    moreover have "uint (push_bit 8 w) = 256 * uint w"
    proof -
      have "uint (w * 256) = uint w * 256" using that(1) by (subst uint_mult_small) simp_all
      then show ?thesis by (simp add: push_bit_eq_mult)
    qed
    ultimately show ?thesis using that by (subst \<open>push_bit 8 w OR b = push_bit 8 w + b\<close>, subst uint_add_small) simp_all
  qed
  define w3 w2 w1 where "w3 = push_bit 8 0 OR b3" and "w2 = push_bit 8 w3 OR b2" and "w1 = push_bit 8 w2 OR b1"
  have w3: "uint w3 = uint b3" by (simp add: w3_def)
  have w2: "uint w2 = 256 * uint w3 + uint b2" unfolding w2_def using w3 assms by (intro step) simp_all
  have w1: "uint w1 = 256 * uint w2 + uint b1" unfolding w1_def using w3 w2 assms by (intro step) simp_all
  have "uint (push_bit 8 w1 OR b0) = 256 * uint w1 + uint b0" using w3 w2 w1 assms by (intro step) simp_all
  then show ?thesis unfolding w1_def [symmetric] w2_def [symmetric] w3_def [symmetric] using w3 w2 w1 by simp
qed

lemma chunk_value:
  assumes "length a = unat a_len" "4 * (unat off + n) < 2 ^ 32"
  shows "length (bn_be_chunk_to_limbs n a a_len off) = n"
    "lval (bn_be_chunk_to_limbs n a a_len off) n = int (be_value a) div 2 ^ (32 * unat off) mod 2 ^ (32 * n)"
proof -
  let ?x = "bn_be_chunk_to_limbs n a a_len off"
  show "length ?x = n" by (simp add: bn_be_chunk_to_limbs_def)
  have byte: "uint (chunk_byte a a_len k) = le_byte a (unat k)" for k
  proof (cases "k < a_len")
    case True
    then have "unat k < unat a_len" by (simp add: unat_lt_iff)
    then have "unat (a_len - 1 - k) = length a - 1 - unat k" using assms(1) by (simp add: unat_sub_le unat_le_iff)
    then show ?thesis using True \<open>unat k < unat a_len\<close> assms(1) by (simp add: chunk_byte_def le_byte_def uint_ucast_up)
  next
    case False
    then show ?thesis using assms(1) by (simp add: chunk_byte_def le_byte_def unat_lt_iff)
  qed
  have limb: "uint (?x ! j) = int (be_value a) div (2 ^ 32) ^ (unat off + j) mod 2 ^ 32" if "j < n" for j
  proof -
    let ?k = "4 * (unat off + j)" and ?w = "(off + of_nat j) * 4" and ?A = "int (be_value a)"
    have k: "?k + 3 < 2 ^ 32" using assms(2) that by simp
    have uj: "unat (of_nat j :: u32) = j" using k by (intro of_nat_unat) simp
    have "unat (off + of_nat j) = unat off + j" using k uj by (subst unat_add_small) simp_all
    then have w: "unat ?w = ?k" using k by (subst unat_mult_lem [THEN iffD1]) simp_all
    have pos: "unat (?w + (4 - 1)) = ?k + 3" "unat (?w + (3 - 1)) = ?k + 2" "unat (?w + (2 - 1)) = ?k + 1" "unat (?w + (1 - 1)) = ?k"
      using k w by (subst unat_add_small; simp)+
    have r: "uint (chunk_byte a a_len q) < 256" for q unfolding byte using le_byte_range by blast
    have "uint (?x ! j) = le_byte a ?k + 256 * le_byte a (?k + 1) + 65536 * le_byte a (?k + 2) + 16777216 * le_byte a (?k + 3)"
      using that four_bytes [OF r r r r] unfolding bn_be_chunk_to_limbs_def by (simp add: byte pos [simplified])
    also have "\<dots> = digits 256 (\<lambda>i. le_byte a (?k + i)) 4" by (simp add: numeral_eq_Suc)
    also have "\<dots> = digits 256 (\<lambda>i. ?A div 256 ^ ?k div 256 ^ i mod 256) 4"
      by (rule digits_cong) (simp add: le_byte_value power_add zdiv_zmult2_eq)
    also have "\<dots> = ?A div 256 ^ ?k mod 256 ^ 4" by (rule digits_of) simp
    also have "(256 :: int) ^ ?k = (2 ^ 32) ^ (unat off + j)" unfolding power_mult by simp
    finally show ?thesis by simp
  qed
  have "lval ?x n = digits (2 ^ 32) (\<lambda>j. int (be_value a) div 2 ^ (32 * unat off) div (2 ^ 32) ^ j mod 2 ^ 32) n"
    unfolding lval_def by (rule digits_cong) (simp only: limb power_add power_mult zdiv_zmult2_eq zero_le_power zero_le_numeral)
  then show "lval ?x n = int (be_value a) div 2 ^ (32 * unat off) mod 2 ^ (32 * n)"
    by (simp only: digits_of zero_less_power zero_less_numeral power_mult)
qed

lemma be_value_zero: "be_value x = 0 \<longleftrightarrow> (\<forall>i<length x. x ! i = 0)"
proof (induction x rule: rev_induct)
  case (snoc b x)
  then show ?case by (auto simp: nth_append less_Suc_eq unat_eq_0)
qed simp

lemma is_one_value:
  assumes "length x = unat len" "0 < len"
  shows "noxtls_bn_is_one (Some x) len \<noteq> 0 \<longleftrightarrow> be_value x = 1"
proof -
  have u: "unat (len - 1) = length x - 1" using assms by (simp add: unat_minus_one word_gt_0)
  have "unat len \<noteq> 0" using assms(2) by (simp add: unat_eq_zero word_gt_0)
  then have "x \<noteq> []" using assms(1) by auto
  then obtain y b where x: "x = y @ [b]" by (metis append_butlast_last_id)
  have "be_value x = 1 \<longleftrightarrow> be_value y = 0 \<and> b = 1"
    using unat_inj_iff [of b 1] unfolding x by (cases "be_value y") auto
  then show ?thesis using assms(2) unfolding noxtls_bn_is_one_def u be_value_zero
    by (auto simp: x nth_append list_ex_iff word_gt_0)
qed

lemma horner_step_value:
  assumes m: "odd (lval m (unat n))" "0 < n" "n0inv = bn_mont_n0inv (m ! 0)"
    and RR: "lval RR (unat n) = 2 ^ (32 * unat n) * 2 ^ (32 * unat n) mod lval m (unat n)"
    and a: "length a = unat a_len" "0 < c" "4 * (unat c * unat n) < 2 ^ 32"
    and acc: "mont_form m n acc (int (be_value a) div (2 ^ (32 * unat n)) ^ unat c)"
  shows "mont_form m n (horner_step a a_len RR m n n0inv acc c) (int (be_value a) div (2 ^ (32 * unat n)) ^ (unat c - 1))"
proof -
  let ?n = "unat n" and ?R = "2 ^ (32 * unat n) :: int" and ?A = "int (be_value a)" and ?m = "lval m (unat n)"
  obtain k where k: "unat c = Suc k" using a(2) by (metis gr0_conv_Suc unat_gt_0 word_gt_0)
  have c1: "unat (c - 1) = k" using k a(2) by (simp add: unat_minus_one word_gt_0)
  have "k * ?n + ?n < 2 ^ 30" using a(3) k by simp
  then have off: "unat ((c - 1) * n) = k * ?n" using c1 by (subst unat_mult_lem [THEN iffD1]) simp_all
  have fits: "4 * (unat ((c - 1) * n) + ?n) < 2 ^ 32" using a(3) k off by simp
  define V W where "V = ?A div ?R ^ Suc k" and "W = ?A div ?R ^ k mod ?R"
  let ?chunk = "bn_be_chunk_to_limbs ?n a a_len ((c - 1) * n)"
  have chunk: "length ?chunk = ?n" "lval ?chunk ?n = W"
    using chunk_value [OF a(1) fits] by (simp_all add: off W_def power_mult [symmetric] mult.assoc [symmetric] mult.commute [of k])
  have accv: "length acc = ?n" "lval acc ?n mod ?m = V * ?R mod ?m" using acc by (simp_all add: mont_form_def k V_def)
  let ?x = "bn_mont_mul acc acc RR m n n0inv" and ?y = "bn_mont_mul ?chunk ?chunk RR m n n0inv"
  note x = mont_mul_mod [OF m accv(1) accv(2) RR]
  have "lval ?chunk ?n mod ?m = W mod ?m" using chunk(2) by simp
  note y = mont_mul_mod [OF m chunk(1) this RR]
  have pos: "0 < ?m" using m(1) lval_bounds(1) [of m ?n] by (cases "?m = 0") auto
  have "lval ?x ?n < ?m" "lval ?y ?n < ?m" unfolding x y using pos by simp_all
  note z = add_mod_value [OF x(1) this]
  have "V * ?R + W = ?A div ?R ^ k"
    unfolding V_def W_def power_Suc2 by (simp add: zdiv_zmult2_eq div_mult_mod_eq)
  then have "V * ?R * ?R + W * ?R = ?A div ?R ^ k * ?R" by (metis distrib_right)
  then have "(V * ?R * ?R mod ?m + W * ?R mod ?m) mod ?m = ?A div ?R ^ k * ?R mod ?m" by (simp add: mod_simps)
  then show ?thesis using z unfolding x(2) y(2) by (simp add: mont_form_def horner_step_def Let_def k)
qed

lemma mod_ct_odd_value:
  assumes "length md = unat mod_len" "length a = unat a_len" "odd (be_value md)" "unat mod_len \<le> 0xFFFFFFC"
    and "unat a_len \<le> 0x1FFFFFFF"
  defines "n \<equiv> (mod_len + 3) div 4"
  assumes m: "lval m (unat n) = int (be_value md)"
  shows "lval (mod_ct_odd a a_len md mod_len m n) (unat n) = int (be_value a) mod int (be_value md)"
proof -
  let ?n = "unat n" and ?R = "2 ^ (32 * unat n) :: int" and ?A = "int (be_value a)" and ?m = "lval m (unat n)"
  have ml: "mod_len \<le> 0xFFFFFFFF - 3" "a_len \<le> 0xFFFFFFFF - 3" using assms(4,5) by (simp_all add: word_le_nat_alt)
  note cn = limb_count [OF ml(1), folded n_def] and ca = limb_count [OF ml(2)]
  have "mod_len \<noteq> 0" using assms(1,3) by auto
  then have pos: "0 < mod_len" "0 < unat mod_len" by (simp_all add: word_gt_0 unat_gt_0)
  then have n: "0 < ?n" using cn by simp
  then have n0: "0 < n" "n \<noteq> 0" by (auto simp: word_gt_0 unat_gt_0)
  have nb: "?n < 2 ^ 26" using cn(1) assms(4) by simp
  show ?thesis
  proof (cases "be_value md = 1")
    case True
    then show ?thesis using is_one_value [OF assms(1) pos(1)]
      by (simp add: mod_ct_odd_def Let_def lval_zero)
  next
    case False
    then have one: "\<not> noxtls_bn_is_one (Some md) mod_len \<noteq> 0" using is_one_value [OF assms(1) pos(1)] by simp
    have odd: "odd ?m" "1 < ?m" using assms(3) False m by (auto elim: oddE)
    define n0inv where "n0inv = bn_mont_n0inv (m ! 0)"
    define RR where "RR = bn_mont_RR m n n0inv"
    have RR: "lval RR ?n = ?R * ?R mod ?m" unfolding RR_def by (rule RR_value(2) [OF odd n0(1) nb n0inv_def])
    define al where "al = (unat a_len + 3) div 4"
    define ch where "ch = (al + ?n - 1) div ?n"
    have al: "al \<le> 2 ^ 27" using assms(5) by (simp add: al_def)
    have chunks: "unat (((a_len + 3) div 4 + n - 1) div n) = ch"
    proof -
      have "unat ((a_len + 3) div 4 + n) = al + ?n" using ca(1) al nb by (subst unat_add_small) (simp_all add: al_def)
      then have "unat ((a_len + 3) div 4 + n - 1) = al + ?n - 1" using n by (subst unat_sub_le) (simp_all add: unat_le_iff)
      then show ?thesis by (simp only: unat_div_distrib ch_def)
    qed
    have chn: "al \<le> ch * ?n" "ch * ?n \<le> al + ?n - 1"
    proof -
      have e: "ch * ?n + (al + ?n - 1) mod ?n = al + ?n - 1" unfolding ch_def by (rule div_mult_mod_eq)
      then show "ch * ?n \<le> al + ?n - 1" by linarith
      have "(al + ?n - 1) mod ?n \<le> ?n - 1" using mod_less_divisor [OF n, of "al + ?n - 1"] by linarith
      then show "al \<le> ch * ?n" using e n by linarith
    qed
    then have big: "4 * (ch * ?n) < 2 ^ 32" using al nb by simp
    let ?P = "\<lambda>k x. mont_form m n x (?A div ?R ^ k)"
    have "?A < 256 ^ unat a_len" using be_value_less [of a] assms(2) by (metis of_nat_less_iff of_nat_numeral of_nat_power)
    also have "(256 :: int) ^ unat a_len \<le> ?R ^ ch"
    proof -
      have "8 * unat a_len \<le> 32 * al" by (simp add: al_def)
      also have "\<dots> \<le> 32 * ?n * ch" using chn(1) by (simp add: mult.commute)
      finally show ?thesis unfolding power_256 power_mult [symmetric] by (intro power_increasing) simp_all
    qed
    finally have "?A div ?R ^ ch = 0" by simp
    then have start: "?P ch (replicate ?n 0)" by (simp add: mont_form_def lval_zero)
    define acc where "acc = foldl (horner_step a a_len RR m n n0inv) (replicate ?n 0) (map of_nat (rev [1..<ch + 1]))"
    have "?P 0 acc" unfolding acc_def
    proof (rule descend [where P = ?P, OF _ start])
      fix k x
      assume k: "0 < k" "k \<le> ch" "?P k x"
      have "k * 1 \<le> ch * ?n" using k(2) n by (intro mult_le_mono) simp_all
      then have u: "unat (of_nat k :: u32) = k" using big by (intro of_nat_unat) simp
      then have "0 < (of_nat k :: u32)" using k(1) by (simp add: word_gt_0 unat_gt_0 [symmetric])
      moreover have "4 * (k * ?n) < 2 ^ 32" using big k(2) by (meson mult_le_mono2 mult_le_mono1 order_le_less_trans)
      ultimately show "?P (k - 1) (horner_step a a_len RR m n n0inv x (of_nat k))"
        using horner_step_value [OF odd(1) n0(1) n0inv_def RR assms(2), of "of_nat k" x] k(3) u by simp
    qed
    then have acc: "mont_form m n acc ?A" by simp
    have "mod_ct_odd a a_len md mod_len m n = bn_mont_mul acc acc ((replicate ?n 0)[0 := 1]) m n n0inv"
      unfolding mod_ct_odd_def Let_def chunks n0inv_def [symmetric] RR_def [symmetric] acc_def [symmetric] using one by simp
    then show ?thesis using mont_out(2) [OF odd(1) n0(1) n0inv_def mont_form_length [OF acc] acc] m by simp
  qed
qed

lemma bitserial_value:
  assumes "length a = unat a_len" "unat a_len \<le> 0x1FFFFFFF" "0 < lval m (unat n)"
  shows "lval (bn_mod_ct_bitserial a a_len m n) (unat n) = int (be_value a) mod lval m (unat n)"
proof -
  let ?n = "unat n" and ?m = "lval m (unat n)"
  let ?P = "\<lambda>k x. length x = ?n \<and> lval x ?n = int (be_value a div 2 ^ k) mod ?m"
  have bits: "unat (a_len * 8) = 8 * length a" using assms(1,2) by (subst unat_mult_lem [THEN iffD1]) simp_all
  have "be_value a div 2 ^ (8 * length a) = 0" using be_value_less [of a] by (simp add: power_mult)
  then have start: "?P (8 * length a) (replicate ?n 0)" by (simp add: lval_zero)
  have "?P 0 (foldl (bitserial_step a a_len m n) (replicate ?n 0) (map of_nat (rev [1..<8 * length a + 1])))"
  proof (rule descend [where P = ?P, OF _ start])
    fix k x
    assume k: "0 < k" "k \<le> 8 * length a" "?P k x"
    have u: "unat (of_nat k :: u32) = k" using k(2) assms(1,2) by (intro of_nat_unat) simp
    then have w: "0 < (of_nat k :: u32)" using k(1) by (simp add: word_gt_0 unat_gt_0 [symmetric])
    have lt: "lval x ?n < ?m" using k(3) assms(3) by simp
    note s = bitserial_step_value [OF conjunct1 [OF k(3)] lt assms(1) w, unfolded u, OF k(2)]
    obtain j where j: "k = Suc j" using k(1) by (cases k) auto
    have half: "be_value a div 2 ^ j = 2 * (be_value a div 2 ^ k) + of_bool (bit (be_value a) j)"
      unfolding j power_Suc2 div_mult2_eq by (simp add: bit_iff_odd of_bool_odd_eq_mod_2)
    have "(2 * (int (be_value a div 2 ^ k) mod ?m) + of_bool (bit (be_value a) j)) mod ?m = int (be_value a div 2 ^ j) mod ?m"
      unfolding half of_nat_add of_nat_mult of_nat_numeral of_nat_of_bool
      by (metis mod_add_left_eq mod_mult_right_eq)
    then show "?P (k - 1) (bitserial_step a a_len m n x (of_nat k))" using s k(3) by (simp add: j)
  qed
  then show ?thesis by (simp add: bn_mod_ct_bitserial_def bits)
qed

text \<open>
  C29. The constant-time reduction of a number of any length by any modulus, odd or even and with leading
  zeros, gives the remainder; a zero modulus is refused, and in every failure the result is wiped.
\<close>

theorem bn_mod_ct_correct:
  assumes "length md = unat mod_len" "length a = unat a_len" "length r = unat mod_len" "0 < mod_len"
    and "unat mod_len \<le> 0xFFFFFFC" "unat a_len \<le> 0x1FFFFFFF"
    and run: "noxtls_bn_mod_ct allocs (Some r) (Some a) a_len (Some md) mod_len = (rc, out, rest)"
  shows "(be_value md \<noteq> 0 \<and> rc = NOXTLS_RETURN_SUCCESS \<and>
            (\<exists>d. out = Some d \<and> length d = length md \<and> be_value d = be_value a mod be_value md)) \<or>
         ((be_value md = 0 \<and> rc = NOXTLS_RETURN_INVALID_PARAM \<or>
            be_value md \<noteq> 0 \<and> rc = NOXTLS_RETURN_NOT_ENOUGH_MEMORY \<and> False \<in> set (take 1 allocs)) \<and>
          out = Some (replicate (length md) 0))"
proof -
  define n where "n = (mod_len + 3) div 4"
  have ml: "mod_len \<le> 0xFFFFFFFF - 3" using assms(5) by (simp add: word_le_nat_alt)
  note cn = limb_count [OF ml, folded n_def]
  define m where "m = bn_be_to_limbs (replicate (unat n) 0) n md mod_len"
  have m: "lval m (unat n) = int (be_value md)" unfolding m_def using lval_loaded assms(1) cn(2) by blast
  have zero: "foldl (\<lambda>acc i. acc OR ucast (md ! i)) (0 :: u32) [0..<unat mod_len] = 0 \<longleftrightarrow> be_value md = 0"
  proof -
    have "(ucast (x :: u8) :: u32) = 0 \<longleftrightarrow> x = 0" for x
      using uint_ucast_up [of x, where 'b = 32] by (simp add: uint_0_iff [symmetric] del: uint_0_iff)
    then show ?thesis unfolding fold_or_zero be_value_zero using assms(1) by auto
  qed
  have wipe: "noxtls_secure_zero (Some r) (unat mod_len) = Some (replicate (length md) 0)"
    using assms(1,3) by (simp add: secure_zero_all)
  have lens: "\<not> 0xFFFFFFFF div 8 < mod_len" "\<not> 0xFFFFFFFF div 8 < a_len" "mod_len \<noteq> 0"
    using assms(4-6) by (auto simp: word_less_nat_alt)
  have last: "md ! unat (mod_len - 1) AND 1 \<noteq> 0 \<longleftrightarrow> odd (be_value md)"
  proof -
    have u: "unat (mod_len - 1) = length md - 1" using assms(1,4) by (simp add: unat_minus_one word_gt_0)
    have "odd (be_value md) \<longleftrightarrow> bit (md ! (length md - 1)) 0"
      using be_value_bit [of md 0] assms(1,4) by (simp add: bit_0 word_gt_0 unat_gt_0)
    then show ?thesis unfolding u by (simp add: and_one_eq bit_0 odd_iff_mod_2_eq_one)
  qed
  define acc where "acc = (if md ! unat (mod_len - 1) AND 1 \<noteq> 0 then mod_ct_odd a a_len md mod_len m n else bn_mod_ct_bitserial a a_len m n)"
  show ?thesis
  proof (cases "be_value md = 0")
    case True
    then show ?thesis using run zero lens wipe by (simp add: noxtls_bn_mod_ct_def)
  next
    case False
    have val: "lval acc (unat n) = int (be_value a) mod lval m (unat n)"
    proof (cases "odd (be_value md)")
      case True
      then show ?thesis unfolding acc_def
        using last mod_ct_odd_value [OF assms(1,2) True assms(5,6) m [unfolded n_def]] m by (simp add: n_def [symmetric])
    next
      case even: False
      have "0 < lval m (unat n)" using m False by simp
      from bitserial_value [OF assms(2,6) this] show ?thesis unfolding acc_def using last even by simp
    qed
    have "be_value md < 256 ^ unat mod_len" using be_value_less [of md] assms(1) by simp
    note res = mont_result [OF m val _ this assms(3)]
    show ?thesis using run zero lens wipe False res assms(1)
      unfolding noxtls_bn_mod_ct_def Let_def n_def [symmetric] option.sel m_def [symmetric] acc_def [symmetric]
      by (cases allocs) (auto split: if_splits)
  qed
qed

theorem bn_mod_ct_correct_witness:
  "\<exists>d rest. noxtls_bn_mod_ct [] (Some [0]) (Some [1, 0, 5]) 3 (Some [10]) 1 = (NOXTLS_RETURN_SUCCESS, Some d, rest) \<and>
     be_value d = 1"
proof -
  obtain rc out rest where r: "noxtls_bn_mod_ct [] (Some [0]) (Some [1, 0, 5]) 3 (Some [10]) 1 = (rc, out, rest)" by (metis prod_cases3)
  from bn_mod_ct_correct [OF _ _ _ _ _ _ r] r show ?thesis by (auto simp: be_value_def)
qed

end
