(* ===== verification/Bn_Inverse_Odd.thy ===== *)
theory Bn_Inverse_Odd
  imports Bn_Mod_Ct
begin

text \<open>
  Modular inversion for an odd modulus, \<open>bn_inv_odd\<close> of \<open>noxtls_bignum.c\<close>: the binary extended GCD.
  The halving loops have no bound in the code, so they are partial functions here and their end is
  proved; the outer loop has the iteration bound of the code.
\<close>

section \<open>Definitions\<close>

definition bn_inv_is_zero :: "u32 list \<Rightarrow> u32 \<Rightarrow> u32" where
  "bn_inv_is_zero a n = (if foldl (\<lambda>acc i. acc OR a ! i) 0 [0..<unat n] = 0 then 1 else 0)"

definition bn_inv_is_one :: "u32 list \<Rightarrow> u32 \<Rightarrow> u32" where
  "bn_inv_is_one a n =
     (if n = 0 then 0
      else if foldl (\<lambda>acc i. acc OR a ! i) 0 [1..<unat n] = 0 \<and> a ! 0 = 1 then 1 else 0)"

definition bn_inv_ge :: "u32 list \<Rightarrow> u32 list \<Rightarrow> u32 \<Rightarrow> u32" where
  "bn_inv_ge a b n =
     (case find (\<lambda>i. a ! i \<noteq> b ! i) (rev [0..<unat n]) of
        None \<Rightarrow> 1
      | Some i \<Rightarrow> if a ! i > b ! i then 1 else 0)"

definition bn_inv_add :: "u32 list \<Rightarrow> u32 list \<Rightarrow> u32 list \<Rightarrow> u32 \<Rightarrow> u32 list \<times> u32" where
  "bn_inv_add r a b n =
     (case carry_loop [0..<unat n]
        (\<lambda>i _ carry. let s = ucast (a ! i) + ucast (b ! i) + carry :: u64 in (ucast s, drop_bit 32 s)) r (0 :: u64) of
        (r, carry) \<Rightarrow> (r, ucast carry))"

definition bn_inv_shr1 :: "u32 list \<Rightarrow> u32 \<Rightarrow> u32 \<Rightarrow> u32 list" where
  "bn_inv_shr1 a n high =
     foldl (\<lambda>a i. let hi = (if i + 1 < unat n then a ! (i + 1) else high)
                  in a[i := drop_bit 1 (a ! i) OR push_bit 31 hi]) a [0..<unat n]"

definition bn_inv_half_mod :: "u32 list \<Rightarrow> u32 list \<Rightarrow> u32 \<Rightarrow> u32 list" where
  "bn_inv_half_mod x m n =
     (let (x, carry) = (if x ! 0 AND 1 \<noteq> 0 then bn_inv_add x x m n else (x, 0)) in bn_inv_shr1 x n carry)"

definition bn_inv_sub_mod :: "u32 list \<Rightarrow> u32 list \<Rightarrow> u32 list \<Rightarrow> u32 \<Rightarrow> u32 list" where
  "bn_inv_sub_mod x y m n =
     (let (x, borrow) = bn_limbs_sub x x y n in if borrow \<noteq> 0 then fst (bn_inv_add x x m n) else x)"

text \<open>\<open>while((u[0] & 1U) == 0U)\<close>: halve u and x together.\<close>

partial_function (option) halve_loop :: "u32 list \<Rightarrow> u32 \<Rightarrow> u32 list \<Rightarrow> u32 list \<Rightarrow> (u32 list \<times> u32 list) option" where
  "halve_loop m n u x =
     (if u ! 0 AND 1 = 0 then halve_loop m n (bn_inv_shr1 u n 0) (bn_inv_half_mod x m n) else Some (u, x))"

definition inv_subtract ::
    "u32 list \<Rightarrow> u32 \<Rightarrow> u32 list \<Rightarrow> u32 list \<Rightarrow> u32 list \<Rightarrow> u32 list \<Rightarrow> u32 list \<times> u32 list \<times> u32 list \<times> u32 list" where
  "inv_subtract m n u v x1 x2 =
     (if bn_inv_ge u v n \<noteq> 0
      then (fst (bn_limbs_sub u u v n), v, bn_inv_sub_mod x1 x2 m n, x2)
      else (u, fst (bn_limbs_sub v v u n), x1, bn_inv_sub_mod x2 x1 m n))"

text \<open>The loop with the iterations left; the result is the code and the buffer x1.\<close>

fun inv_loop ::
    "nat \<Rightarrow> u32 list \<Rightarrow> u32 \<Rightarrow> u32 list \<Rightarrow> u32 list \<Rightarrow> u32 list \<Rightarrow> u32 list \<Rightarrow> (noxtls_return_t \<times> u32 list) option" where
  "inv_loop 0 m n u v x1 x2 = Some (NOXTLS_RETURN_FAILED, x1)"
| "inv_loop (Suc left) m n u v x1 x2 =
     (if bn_inv_is_one u n \<noteq> 0 then Some (NOXTLS_RETURN_SUCCESS, x1)
      else if bn_inv_is_one v n \<noteq> 0 then Some (NOXTLS_RETURN_SUCCESS, foldl (\<lambda>x i. x[i := x2 ! i]) x1 [0..<unat n])
      else case halve_loop m n u x1 of
        None \<Rightarrow> None
      | Some (u, x1) \<Rightarrow>
          (case halve_loop m n v x2 of
             None \<Rightarrow> None
           | Some (v, x2) \<Rightarrow>
               let (u, v, x1, x2) = inv_subtract m n u v x1 x2
               in if bn_inv_is_zero u n \<noteq> 0 \<or> bn_inv_is_zero v n \<noteq> 0 then Some (NOXTLS_RETURN_FAILED, x1)
                  else inv_loop left m n u v x1 x2))"

declare inv_loop.simps(2) [simp del]

definition bn_inv_odd :: "u32 list \<Rightarrow> u32 list \<Rightarrow> u32 \<Rightarrow> (noxtls_return_t \<times> u32 list) option" where
  "bn_inv_odd a m n =
     (let max_iter = 2 * n * 32 + 4; u = take (unat n) a; v = take (unat n) m;
          x2 = replicate (unat n) 0; x1 = x2[0 := 1]
      in if bn_inv_is_zero u n \<noteq> 0 then Some (NOXTLS_RETURN_FAILED, x1)
         else inv_loop (unat max_iter) m n u v x1 x2)"

section \<open>Values\<close>

lemma digits_zero_iff:
  assumes "\<And>i. 0 \<le> f i" "0 < B"
  shows "digits B f n = 0 \<longleftrightarrow> (\<forall>i<n. f i = 0)"
proof (induction n)
  case (Suc n)
  have "0 \<le> digits B f n" "0 \<le> B ^ n * f n" using assms by (simp_all add: digits_nonneg)
  then have "digits B f (Suc n) = 0 \<longleftrightarrow> digits B f n = 0 \<and> B ^ n * f n = 0" unfolding digits.simps by linarith
  then show ?case using Suc assms(2) by (auto simp: less_Suc_eq)
qed simp

lemma lval_head: "0 < n \<Longrightarrow> lval a n = uint (a ! 0) + 2 ^ 32 * digits (2 ^ 32) (\<lambda>i. uint (a ! Suc i)) (n - 1)"
  using lval_split [of a 1 "n - 1"] by (simp add: lval_Suc)

lemma inv_is_zero_iff: "bn_inv_is_zero a n \<noteq> 0 \<longleftrightarrow> lval a (unat n) = 0"
  by (auto simp: bn_inv_is_zero_def fold_or_zero lval_def digits_zero_iff uint_0_iff)

lemma inv_is_one_iff:
  assumes "0 < n"
  shows "bn_inv_is_one a n \<noteq> 0 \<longleftrightarrow> lval a (unat n) = 1"
proof -
  let ?n = "unat n" and ?d = "digits (2 ^ 32) (\<lambda>i. uint (a ! Suc i)) (unat n - 1)"
  have n: "0 < ?n" "n \<noteq> 0" using assms by (auto simp: word_gt_0 unat_gt_0)
  have "0 \<le> ?d" by (rule digits_nonneg) simp_all
  then have "lval a ?n = 1 \<longleftrightarrow> uint (a ! 0) = 1 \<and> ?d = 0"
  proof (cases "?d = 0")
    case False
    then have "1 \<le> ?d" using \<open>0 \<le> ?d\<close> by linarith
    then have "2 ^ 32 * 1 \<le> 2 ^ 32 * ?d" by (intro mult_left_mono) simp_all
    moreover have "(1 :: int) < 2 ^ 32 * 1" by simp
    ultimately have "1 < uint (a ! 0) + 2 ^ 32 * ?d" using uint_ge_0 [of "a ! 0"] by linarith
    then have "uint (a ! 0) + 2 ^ 32 * ?d \<noteq> 1" by linarith
    then show ?thesis using False unfolding lval_head [OF n(1)] by blast
  qed (simp only: lval_head [OF n(1)], simp)
  also have "?d = 0 \<longleftrightarrow> (\<forall>i<?n - 1. a ! Suc i = 0)" by (simp add: digits_zero_iff uint_0_iff)
  also have "\<dots> \<longleftrightarrow> (\<forall>i\<in>set [1..<?n]. a ! i = 0)"
  proof
    assume h: "\<forall>i<?n - 1. a ! Suc i = 0"
    show "\<forall>i\<in>set [1..<?n]. a ! i = 0"
    proof
      fix i
      assume "i \<in> set [1..<?n]"
      then have "Suc (i - 1) = i" "i - 1 < ?n - 1" by auto
      then show "a ! i = 0" using h by metis
    qed
  qed auto
  also have "uint (a ! 0) = 1 \<longleftrightarrow> a ! 0 = 1" by (metis uint_1 word_uint_eqI)
  finally have "lval a ?n = 1 \<longleftrightarrow> a ! 0 = 1 \<and> (\<forall>i\<in>set [1..<?n]. a ! i = 0)" .
  then show ?thesis using n(2) by (auto simp: bn_inv_is_one_def fold_or_zero)
qed

text \<open>The first difference from the top decides.\<close>

lemma compare_from_top:
  assumes "find (\<lambda>i. a ! i \<noteq> b ! i) (rev [0..<n]) = r"
  shows "case r of None \<Rightarrow> lval a n = lval b n
    | Some i \<Rightarrow> a ! i > b ! i \<and> lval a n > lval b n \<or> a ! i < b ! i \<and> lval a n < lval b n"
  using assms
proof (induction n arbitrary: r)
  case (Suc n)
  have less: "lval y (Suc n) < lval x (Suc n)" if "y ! n < x ! n" for x y :: "u32 list"
  proof -
    have "uint (y ! n) + 1 \<le> uint (x ! n)" using that by (simp add: word_less_def)
    then have "2 ^ (32 * n) * (uint (y ! n) + 1) \<le> 2 ^ (32 * n) * uint (x ! n)" by (intro mult_left_mono) simp_all
    then show ?thesis using lval_bounds [of y n] lval_bounds [of x n] unfolding lval_Suc distrib_left by linarith
  qed
  show ?case
  proof (cases "a ! n = b ! n")
    case True
    then show ?thesis using Suc.IH [of r] Suc.prems by (simp add: lval_Suc split: option.splits)
  next
    case False
    then show ?thesis using Suc.prems less [of a b] less [of b a] by (auto simp: neq_iff)
  qed
qed simp

lemma inv_ge_iff: "bn_inv_ge a b n \<noteq> 0 \<longleftrightarrow> lval a (unat n) \<ge> lval b (unat n)"
  using compare_from_top [where a = a and b = b and n = "unat n", OF refl] by (auto simp: bn_inv_ge_def split: option.splits)

lemma inv_add_value:
  assumes "length r = unat n"
  shows "length (fst (bn_inv_add r a b n)) = unat n" "snd (bn_inv_add r a b n) \<le> 1"
    "lval (fst (bn_inv_add r a b n)) (unat n) + 2 ^ (32 * unat n) * uint (snd (bn_inv_add r a b n)) =
       lval a (unat n) + lval b (unat n)"
proof -
  let ?n = "unat n" and ?body = "\<lambda>i (_ :: u32) carry. let s = ucast (a ! i) + ucast (b ! i) + carry :: u64 in (ucast s :: u32, drop_bit 32 s)"
  obtain z c where run: "carry_loop [0..<?n] ?body r 0 = (z, c)" by fastforce
  have "length z = length r \<and> uint c \<le> 1 \<and> (\<forall>j\<ge>?n. z ! j = r ! j) \<and>
      lval z ?n + 2 ^ (32 * ?n) * uint c = digits (2 ^ 32) (\<lambda>i. uint (a ! i) + uint (b ! i)) ?n + uint (0 :: u64)"
  proof (rule limb_loop [where I = "\<lambda>c. uint c \<le> 1", OF run])
    fix i c v c'
    assume "uint c \<le> 1" "?body i (r ! i) c = (v, c')"
    then show "uint c' \<le> 1 \<and> uint v + 2 ^ 32 * uint c' = uint (a ! i) + uint (b ! i) + uint c"
      using add_step [of c "a ! i" "b ! i"] by (simp only: Let_def prod.inject)
  qed (use assms(1) in auto)
  then have z: "length z = ?n" "uint c \<le> 1" "lval z ?n + 2 ^ (32 * ?n) * uint c = lval a ?n + lval b ?n"
    using assms(1) by (simp_all add: digits_add lval_def)
  have uc: "uint (ucast c :: u32) = uint c" using z(2) by (simp add: uint_ucast_down)
  have "bn_inv_add r a b n = (z, ucast c)" unfolding bn_inv_add_def run by simp
  then show "length (fst (bn_inv_add r a b n)) = ?n" "snd (bn_inv_add r a b n) \<le> 1"
    "lval (fst (bn_inv_add r a b n)) ?n + 2 ^ (32 * ?n) * uint (snd (bn_inv_add r a b n)) = lval a ?n + lval b ?n"
    using z uc by (simp_all add: word_le_def)
qed

lemma half_limb:
  fixes v hi :: u32
  shows "uint (drop_bit 1 v OR push_bit 31 hi) = uint v div 2 + 2 ^ 31 * (uint hi mod 2)"
proof -
  have "drop_bit 1 v AND push_bit 31 hi = 0"
    by (rule bit_word_eqI) (auto simp: bit_simps dest: bit_imp_le_length)
  then have "drop_bit 1 v OR push_bit 31 hi = drop_bit 1 v + push_bit 31 hi" by (simp add: disjunctive_add_eq_or)
  moreover have d: "uint (drop_bit 1 v) = uint v div 2" by (simp only: uint_drop_bit power_one_right)
  moreover have p: "uint (push_bit 31 hi) = 2 ^ 31 * (uint hi mod 2)"
  proof -
    have "uint (push_bit 31 hi) = uint hi * 2 ^ 31 mod (2 * 2 ^ 31)" by (simp add: push_bit_eq_mult uint_word_ariths)
    also have "uint hi * 2 ^ 31 mod (2 * 2 ^ 31) = uint hi mod 2 * 2 ^ 31" by (rule mod_mult_mult2)
    finally show ?thesis by simp
  qed
  moreover have "uint v div 2 < 2 ^ 31" using uint_lt2p [of v] by simp
  moreover have "uint hi mod 2 \<le> 1" by simp
  ultimately show ?thesis by (subst \<open>drop_bit 1 v OR push_bit 31 hi = drop_bit 1 v + push_bit 31 hi\<close>, subst uint_add_small) simp_all
qed

lemma shr1_value:
  assumes "length a = unat n" "0 < n" "high \<le> 1"
  shows "length (bn_inv_shr1 a n high) = unat n"
    "lval (bn_inv_shr1 a n high) (unat n) = (lval a (unat n) + 2 ^ (32 * unat n) * uint high) div 2"
proof -
  let ?n = "unat n"
  define hi where "hi i = (if i + 1 < ?n then a ! (i + 1) else high)" for i
  define f where "f = (\<lambda>a i. let hi = (if i + 1 < ?n then a ! (i + 1) else high) in a[i := drop_bit 1 (a ! i) OR push_bit 31 hi] :: u32 list)"
  have loop: "k \<le> ?n \<Longrightarrow> length (foldl f a [0..<k]) = ?n \<and>
      (\<forall>j<?n. foldl f a [0..<k] ! j = (if j < k then drop_bit 1 (a ! j) OR push_bit 31 (hi j) else a ! j))" for k
  proof (induction k)
    case (Suc k)
    then show ?case by (auto simp: f_def hi_def Let_def less_Suc_eq nth_list_update)
  qed (simp add: assms(1))
  let ?r = "foldl f a [0..<?n]"
  have r: "length ?r = ?n" "\<And>j. j < ?n \<Longrightarrow> uint (?r ! j) = uint (a ! j) div 2 + 2 ^ 31 * (uint (hi j) mod 2)"
    using loop [OF order_refl] by (simp_all only: half_limb if_True)
  have sum: "k < ?n \<Longrightarrow> 2 * lval ?r (Suc k) + uint (a ! 0) mod 2 = lval a (Suc k) + 2 ^ (32 * Suc k) * (uint (hi k) mod 2)" for k
  proof (induction k)
    case 0
    then show ?case using r(2) [of 0] mult_div_mod_eq [of 2 "uint (a ! 0)"] by (simp add: lval_Suc)
  next
    case (Suc k)
    have hk: "hi k = a ! Suc k" using Suc.prems by (simp add: hi_def)
    have "2 * uint (?r ! Suc k) + uint (a ! Suc k) mod 2 = uint (a ! Suc k) + 2 ^ 32 * (uint (hi (Suc k)) mod 2)"
      using r(2) [OF Suc.prems] mult_div_mod_eq [of 2 "uint (a ! Suc k)"] by simp
    then have "2 ^ (32 * Suc k) * (2 * uint (?r ! Suc k) + uint (a ! Suc k) mod 2) =
        2 ^ (32 * Suc k) * (uint (a ! Suc k) + 2 ^ 32 * (uint (hi (Suc k)) mod 2))" by (simp only:)
    moreover have "(2 :: int) ^ (32 * Suc (Suc k)) = 2 ^ (32 * Suc k) * 2 ^ 32" by (simp add: power_add)
    ultimately show ?case using Suc.IH Suc.prems unfolding lval_Suc [of _ "Suc k"] hk by (simp add: algebra_simps)
  qed
  have res: "bn_inv_shr1 a n high = ?r" by (simp add: bn_inv_shr1_def f_def)
  show "length (bn_inv_shr1 a n high) = ?n" using r(1) res by simp
  have n: "0 < ?n" using assms(2) by (simp add: word_gt_0 unat_gt_0)
  have "uint high \<le> 1" using assms(3) by (simp add: word_le_def)
  then have "uint high mod 2 = uint high" by simp
  moreover have "hi (?n - 1) = high" using n by (simp add: hi_def)
  ultimately have "2 * lval ?r ?n + uint (a ! 0) mod 2 = lval a ?n + 2 ^ (32 * ?n) * uint high"
    using sum [of "?n - 1"] n by simp
  moreover have "0 \<le> uint (a ! 0) mod 2" "uint (a ! 0) mod 2 < 2" by simp_all
  ultimately show "lval (bn_inv_shr1 a n high) ?n = (lval a ?n + 2 ^ (32 * ?n) * uint high) div 2"
    unfolding res by linarith
qed

lemma low_bit: "0 < n \<Longrightarrow> a ! 0 AND 1 = (0 :: u32) \<longleftrightarrow> even (lval a n)"
proof -
  assume "0 < n"
  then have "even (lval a n) \<longleftrightarrow> even (uint (a ! 0))" using odd_lval by blast
  then show ?thesis using bit_unsigned_iff [of "a ! 0" 0, where 'a = int]
    by (simp add: and_one_eq even_iff_mod_2_eq_zero [symmetric] bit_0)
qed

section \<open>Halving and subtracting modulo m\<close>

lemma half_mod_value:
  assumes "length x = unat n" "0 < n" "odd (lval m (unat n))" "lval x (unat n) < lval m (unat n)"
  defines "r \<equiv> bn_inv_half_mod x m n"
  shows "length r = unat n" "lval r (unat n) < lval m (unat n)" "lval m (unat n) dvd 2 * lval r (unat n) - lval x (unat n)"
proof -
  let ?n = "unat n" and ?x = "lval x (unat n)" and ?m = "lval m (unat n)"
  have n: "0 < ?n" using assms(2) by (simp add: word_gt_0 unat_gt_0)
  have x0: "0 \<le> ?x" by (rule lval_bounds)
  have "length r = ?n \<and> lval r ?n < ?m \<and> ?m dvd 2 * lval r ?n - ?x"
  proof (cases "even ?x")
    case True
    then have "r = bn_inv_shr1 x n 0" using low_bit [OF n, of x] by (simp add: r_def bn_inv_half_mod_def)
    then have "length r = ?n" "lval r ?n = ?x div 2" using shr1_value [OF assms(1,2), of 0] by simp_all
    moreover have "?x div 2 < ?m" "2 * (?x div 2) = ?x" using True x0 assms(4) by auto
    ultimately show ?thesis by simp
  next
    case False
    obtain y c where add: "bn_inv_add x x m n = (y, c)" by fastforce
    have y: "length y = ?n" "c \<le> 1" "lval y ?n + 2 ^ (32 * ?n) * uint c = ?x + ?m"
      using inv_add_value [OF assms(1), of x m] by (simp_all add: add)
    have "r = bn_inv_shr1 y n c" using False low_bit [OF n, of x] add by (simp add: r_def bn_inv_half_mod_def)
    then have "length r = ?n" "lval r ?n = (?x + ?m) div 2" using shr1_value [OF y(1) assms(2) y(2)] y(3) by simp_all
    moreover have "2 * ((?x + ?m) div 2) = ?x + ?m" "(?x + ?m) div 2 < ?m" using False assms(3,4) by auto
    ultimately show ?thesis by simp
  qed
  then show "length r = ?n" "lval r ?n < ?m" "?m dvd 2 * lval r ?n - ?x" by blast+
qed

lemma sub_mod_value:
  assumes "length x = unat n" "lval x (unat n) < lval m (unat n)" "lval y (unat n) < lval m (unat n)"
  defines "r \<equiv> bn_inv_sub_mod x y m n"
  shows "length r = unat n" "lval r (unat n) < lval m (unat n)" "lval m (unat n) dvd lval r (unat n) - (lval x (unat n) - lval y (unat n))"
proof -
  let ?n = "unat n" and ?x = "lval x (unat n)" and ?y = "lval y (unat n)" and ?m = "lval m (unat n)" and ?R = "2 ^ (32 * unat n) :: int"
  obtain z b where sub: "bn_limbs_sub x x y n = (z, b)" by fastforce
  have z: "length z = ?n" "lval z ?n = (?x - ?y) mod ?R" "b = (if ?x < ?y then 1 else 0)"
    using limbs_sub_value [OF assms(1), of x y] by (simp_all add: sub)
  note bounds = lval_bounds [of x ?n] lval_bounds [of y ?n] lval_bounds [of m ?n]
  have "length r = ?n \<and> lval r ?n < ?m \<and> ?m dvd lval r ?n - (?x - ?y)"
  proof (cases "?x < ?y")
    case False
    then have "r = z" "lval z ?n = ?x - ?y" using sub z bounds by (simp_all add: r_def bn_inv_sub_mod_def)
    then show ?thesis using z(1) assms(2) bounds by simp
  next
    case True
    obtain w c where add: "bn_inv_add z z m n = (w, c)" by fastforce
    have w: "length w = ?n" "lval w ?n + ?R * uint c = lval z ?n + ?m"
      using inv_add_value [OF z(1), of z m] by (simp_all add: add)
    have "r = w" using True sub z(3) add by (simp add: r_def bn_inv_sub_mod_def)
    have "lval w ?n = (lval w ?n + ?R * uint c) mod ?R" using lval_bounds [of w ?n] by simp
    also have "\<dots> = (?x - ?y + ?m) mod ?R" unfolding w(2) z(2) by (simp add: mod_simps)
    also have "\<dots> = ?x - ?y + ?m" using True assms(2,3) bounds by (intro mod_pos_pos_trivial) linarith+
    finally show ?thesis using w(1) True \<open>r = w\<close> by simp
  qed
  then show "length r = ?n" "lval r ?n < ?m" "?m dvd lval r ?n - (?x - ?y)" by blast+
qed

lemma limbs_sub_ge:
  assumes "length p = unat n" "lval q (unat n) \<le> lval p (unat n)"
  shows "length (fst (bn_limbs_sub p p q n)) = unat n"
    "lval (fst (bn_limbs_sub p p q n)) (unat n) = lval p (unat n) - lval q (unat n)"
  using limbs_sub_value [OF assms(1), of p q] assms(2) lval_bounds [of p "unat n"] lval_bounds [of q "unat n"]
  by simp_all

section \<open>The loop\<close>

text \<open>\<open>follows m n A u x\<close>: \<open>x * A\<close> is the value of u modulo m.\<close>

definition follows :: "u32 list \<Rightarrow> u32 \<Rightarrow> int \<Rightarrow> u32 list \<Rightarrow> u32 list \<Rightarrow> bool" where
  "follows m n A u x \<longleftrightarrow> length u = unat n \<and> length x = unat n \<and> 0 < lval u (unat n) \<and>
     lval x (unat n) < lval m (unat n) \<and> lval m (unat n) dvd lval x (unat n) * A - lval u (unat n)"

lemma follows_halved:
  assumes "follows m n A u x" "0 < n" "odd (lval m (unat n))" "even (lval u (unat n))"
  shows "follows m n A (bn_inv_shr1 u n 0) (bn_inv_half_mod x m n)"
    "2 * lval (bn_inv_shr1 u n 0) (unat n) = lval u (unat n)"
proof -
  let ?n = "unat n" and ?m = "lval m (unat n)" and ?x = "bn_inv_half_mod x m n" and ?u = "bn_inv_shr1 u n 0"
  note f = assms(1) [unfolded follows_def]
  have u: "length ?u = ?n" "lval ?u ?n = lval u ?n div 2" using shr1_value [of u n 0] f assms(2) by simp_all
  then show half: "2 * lval ?u ?n = lval u ?n" using assms(4) by simp
  have x: "length ?x = ?n" "lval ?x ?n < ?m" "?m dvd 2 * lval ?x ?n - lval x ?n"
    using half_mod_value [of x n m] f assms(2,3) by simp_all
  have "?m dvd (2 * lval ?x ?n - lval x ?n) * A + (lval x ?n * A - lval u ?n)" using x(3) f by (intro dvd_add) simp_all
  then have "?m dvd 2 ^ 1 * (lval ?x ?n * A - lval ?u ?n)" unfolding half [symmetric] by (simp add: algebra_simps)
  then have "?m dvd lval ?x ?n * A - lval ?u ?n" using cancel_R assms(3) by blast
  moreover have "0 < lval ?u ?n" using half f by simp
  ultimately show "follows m n A ?u ?x" using u x by (simp add: follows_def)
qed

lemma halve_loop_value:
  assumes "0 < n" "odd (lval m (unat n))" "follows m n A u x"
  shows "\<exists>u' x' k. halve_loop m n u x = Some (u', x') \<and> follows m n A u' x' \<and> odd (lval u' (unat n)) \<and>
    lval u (unat n) = lval u' (unat n) * 2 ^ k"
  using assms(3)
proof (induction "nat (lval u (unat n))" arbitrary: u x rule: less_induct)
  case less
  let ?n = "unat n"
  have n: "0 < ?n" using assms(1) by (simp add: word_gt_0 unat_gt_0)
  show ?case
  proof (cases "even (lval u ?n)")
    case True
    note h = follows_halved [OF less.prems assms(1,2) True]
    have "0 < lval u ?n" using less.prems by (simp add: follows_def)
    then have "nat (lval (bn_inv_shr1 u n 0) ?n) < nat (lval u ?n)" using h(2) by simp
    from less.hyps [OF this h(1)] obtain u' x' k where
      "halve_loop m n (bn_inv_shr1 u n 0) (bn_inv_half_mod x m n) = Some (u', x')" "follows m n A u' x'"
      "odd (lval u' ?n)" "lval (bn_inv_shr1 u n 0) ?n = lval u' ?n * 2 ^ k" by blast
    then show ?thesis using True low_bit [OF n, of u] h(2)
      by (intro exI [of _ u'] exI [of _ x'] exI [of _ "Suc k"]) (simp add: halve_loop.simps [of m n u])
  next
    case False
    then show ?thesis using less.prems low_bit [OF n, of u]
      by (intro exI [of _ u] exI [of _ x] exI [of _ 0]) (simp add: halve_loop.simps [of m n u])
  qed
qed

definition inv_ok :: "u32 list \<Rightarrow> u32 \<Rightarrow> int \<Rightarrow> u32 list \<Rightarrow> u32 list \<Rightarrow> u32 list \<Rightarrow> u32 list \<Rightarrow> bool" where
  "inv_ok m n A u v x1 x2 \<longleftrightarrow> follows m n A u x1 \<and> follows m n A v x2 \<and>
     gcd (lval u (unat n)) (lval v (unat n)) = gcd A (lval m (unat n)) \<and> (odd (lval u (unat n)) \<or> odd (lval v (unat n)))"

definition inv_result :: "u32 list \<Rightarrow> u32 \<Rightarrow> int \<Rightarrow> noxtls_return_t \<Rightarrow> u32 list \<Rightarrow> bool" where
  "inv_result m n A rc x \<longleftrightarrow>
     (if coprime A (lval m (unat n))
      then rc = NOXTLS_RETURN_SUCCESS \<and> length x = unat n \<and> lval x (unat n) < lval m (unat n) \<and>
        lval m (unat n) dvd lval x (unat n) * A - 1
      else rc = NOXTLS_RETURN_FAILED)"

lemma subtract_pair:
  assumes "follows m n A p x" "follows m n A q y" "lval q (unat n) \<le> lval p (unat n)"
  defines "p' \<equiv> fst (bn_limbs_sub p p q n)" and "x' \<equiv> bn_inv_sub_mod x y m n"
  shows "lval p' (unat n) = lval p (unat n) - lval q (unat n)"
    "lval q (unat n) < lval p (unat n) \<Longrightarrow> follows m n A p' x'"
proof -
  let ?n = "unat n" and ?m = "lval m (unat n)"
  note f = assms(1,2) [unfolded follows_def]
  have p: "length p' = ?n" "lval p' ?n = lval p ?n - lval q ?n"
    using limbs_sub_ge [of p n q] f assms(3) by (simp_all add: p'_def)
  then show "lval p' ?n = lval p ?n - lval q ?n" by simp
  assume lt: "lval q ?n < lval p ?n"
  have x: "length x' = ?n" "lval x' ?n < ?m" "?m dvd lval x' ?n - (lval x ?n - lval y ?n)"
    using sub_mod_value [of x n m y] f by (simp_all add: x'_def)
  have d: "?m dvd lval x ?n * A - lval p ?n" "?m dvd lval y ?n * A - lval q ?n" using f by simp_all
  have "?m dvd (lval x' ?n - (lval x ?n - lval y ?n)) * A + (lval x ?n * A - lval p ?n) - (lval y ?n * A - lval q ?n)"
    by (rule dvd_diff [OF dvd_add [OF dvd_mult2 [OF x(3)] d(1)] d(2)])
  then have "?m dvd lval x' ?n * A - lval p' ?n" unfolding p(2) by (simp add: algebra_simps)
  then show "follows m n A p' x'" using p x lt by (simp add: follows_def)
qed

lemma copy_limbs: "length d = n \<Longrightarrow> length s = n \<Longrightarrow> foldl (\<lambda>x i. x[i := s ! i]) d [0..<n] = s"
proof -
  assume l: "length d = n" "length s = n"
  have "k \<le> n \<Longrightarrow> foldl (\<lambda>x i. x[i := s ! i]) d [0..<k] = take k s @ drop k d" for k
  proof (induction k)
    case (Suc k)
    then show ?case using l by (simp add: list_update_append Cons_nth_drop_Suc [symmetric] take_Suc_conv_app_nth)
  qed simp
  from this [of n] show ?thesis using l by simp
qed

lemma gcd_halved:
  assumes "(u :: int) = u' * 2 ^ k" "odd v \<or> k = 0"
  shows "gcd u v = gcd u' v"
proof (cases "k = 0")
  case False
  then have "coprime v (2 ^ k)" using assms(2) by (simp add: coprime_commute)
  then show ?thesis unfolding assms(1) by (simp add: gcd_mult_left_right_cancel)
qed (use assms(1) in simp)

text \<open>
  One iteration: it ends with the right answer, or goes on with a pair whose product is not larger, and at
  most half as large when one of the two was even; after it one of them is even.
\<close>

lemma inv_iteration:
  assumes ok: "inv_ok m n A u v x1 x2" and m: "0 < n" "odd (lval m (unat n))"
  shows "(\<exists>rc x. (\<forall>left. inv_loop (Suc left) m n u v x1 x2 = Some (rc, x)) \<and> inv_result m n A rc x) \<or>
    (\<exists>u' v' y1 y2. (\<forall>left. inv_loop (Suc left) m n u v x1 x2 = inv_loop left m n u' v' y1 y2) \<and>
       inv_ok m n A u' v' y1 y2 \<and> (even (lval u' (unat n)) \<or> even (lval v' (unat n))) \<and>
       lval u' (unat n) * lval v' (unat n) \<le> lval u (unat n) * lval v (unat n) \<and>
       (even (lval u (unat n)) \<or> even (lval v (unat n)) \<longrightarrow>
         2 * (lval u' (unat n) * lval v' (unat n)) \<le> lval u (unat n) * lval v (unat n)))"
proof -
  let ?n = "unat n" and ?m = "lval m (unat n)"
  note o = ok [unfolded inv_ok_def]
  have f: "follows m n A u x1" "follows m n A v x2" using o by blast+
  note f' = f [unfolded follows_def]
  show ?thesis
  proof (cases "lval u ?n = 1 \<or> lval v ?n = 1")
    case True
    then have "gcd A ?m = 1" using o by auto
    then have cop: "coprime A ?m" by (simp add: coprime_iff_gcd_eq_1)
    show ?thesis
    proof (cases "lval u ?n = 1")
      case True
      then have "inv_result m n A NOXTLS_RETURN_SUCCESS x1" using f' cop by (simp add: inv_result_def)
      moreover have "inv_loop (Suc left) m n u v x1 x2 = Some (NOXTLS_RETURN_SUCCESS, x1)" for left
        using True inv_is_one_iff [OF m(1), of u] by (simp add: inv_loop.simps(2))
      ultimately show ?thesis by blast
    next
      case False
      then have v: "lval v ?n = 1" using True by simp
      then have "inv_result m n A NOXTLS_RETURN_SUCCESS x2" using f' cop by (simp add: inv_result_def)
      moreover have "foldl (\<lambda>x i. x[i := x2 ! i]) x1 [0..<?n] = x2" using f' by (intro copy_limbs) simp_all
      then have "inv_loop (Suc left) m n u v x1 x2 = Some (NOXTLS_RETURN_SUCCESS, x2)" for left
        using False v inv_is_one_iff [OF m(1), of u] inv_is_one_iff [OF m(1), of v] by (simp add: inv_loop.simps(2))
      ultimately show ?thesis by blast
    qed
  next
    case False
    obtain u1 y1 j where h1: "halve_loop m n u x1 = Some (u1, y1)" "follows m n A u1 y1" "odd (lval u1 ?n)"
      "lval u ?n = lval u1 ?n * 2 ^ j" using halve_loop_value [OF m f(1)] by blast
    obtain v1 y2 k where h2: "halve_loop m n v x2 = Some (v1, y2)" "follows m n A v1 y2" "odd (lval v1 ?n)"
      "lval v ?n = lval v1 ?n * 2 ^ k" using halve_loop_value [OF m f(2)] by blast
    have jk: "j = 0 \<or> k = 0" using o h1(4) h2(4) by auto
    have pos: "0 < lval u1 ?n" "0 < lval v1 ?n" using h1(2) h2(2) by (simp_all add: follows_def)
    have "gcd (lval u ?n) (lval v ?n) = gcd (lval u1 ?n) (lval v ?n)"
      using jk h2(3,4) by (intro gcd_halved [OF h1(4)]) auto
    also have "\<dots> = gcd (lval u1 ?n) (lval v1 ?n)"
      using h1(3) gcd_halved [OF h2(4), of "lval u1 ?n"] by (simp add: gcd.commute)
    finally have g: "gcd (lval u1 ?n) (lval v1 ?n) = gcd A ?m" using o by simp
    have prod: "lval u ?n * lval v ?n = 2 ^ (j + k) * (lval u1 ?n * lval v1 ?n)"
      unfolding h1(4) h2(4) by (simp add: power_add algebra_simps)
    have P0: "0 < lval u1 ?n * lval v1 ?n" using pos by simp
    have le: "lval u1 ?n * lval v1 ?n \<le> lval u ?n * lval v ?n"
      unfolding prod using P0 by (intro mult_le_cancel_right1 [THEN iffD2]) (simp add: not_less)
    have half: "2 * (lval u1 ?n * lval v1 ?n) \<le> lval u ?n * lval v ?n" if "even (lval u ?n) \<or> even (lval v ?n)"
    proof -
      have "j \<noteq> 0 \<or> k \<noteq> 0" using that h1(3,4) h2(3,4) by auto
      then have "(2 :: int) ^ 1 \<le> 2 ^ (j + k)" by (intro power_increasing) auto
      then show ?thesis unfolding prod using P0 by (intro mult_right_mono) simp_all
    qed
    have shrink: "p * q \<le> lval u ?n * lval v ?n \<and> (even (lval u ?n) \<or> even (lval v ?n) \<longrightarrow> 2 * (p * q) \<le> lval u ?n * lval v ?n)"
      if "p * q \<le> lval u1 ?n * lval v1 ?n" for p q
      using that le half by linarith
    have loop: "inv_loop (Suc left) m n u v x1 x2 =
        (let (u, v, x1, x2) = inv_subtract m n u1 v1 y1 y2
         in if bn_inv_is_zero u n \<noteq> 0 \<or> bn_inv_is_zero v n \<noteq> 0 then Some (NOXTLS_RETURN_FAILED, x1)
            else inv_loop left m n u v x1 x2)" for left
      using False inv_is_one_iff [OF m(1), of u] inv_is_one_iff [OF m(1), of v] h1(1) h2(1)
      by (simp add: inv_loop.simps(2))
    consider "lval u1 ?n = lval v1 ?n" | "lval v1 ?n < lval u1 ?n" | "lval u1 ?n < lval v1 ?n" by linarith
    then show ?thesis
    proof cases
      case 1
      then have "gcd A ?m = lval u1 ?n" using g pos by simp
      moreover have "lval u1 ?n \<noteq> 1" using 1 jk h1(4) h2(4) False by auto
      ultimately have "inv_result m n A NOXTLS_RETURN_FAILED x" for x
        by (simp add: inv_result_def coprime_iff_gcd_eq_1)
      moreover have "lval (fst (bn_limbs_sub u1 u1 v1 n)) ?n = 0"
        using subtract_pair(1) [OF h1(2) h2(2)] 1 by simp
      then have "inv_loop (Suc left) m n u v x1 x2 = Some (NOXTLS_RETURN_FAILED, bn_inv_sub_mod y1 y2 m n)" for left
        using 1 by (simp add: loop inv_subtract_def inv_ge_iff inv_is_zero_iff)
      ultimately show ?thesis by blast
    next
      case 2
      let ?u = "fst (bn_limbs_sub u1 u1 v1 n)" and ?x = "bn_inv_sub_mod y1 y2 m n"
      have s: "lval ?u ?n = lval u1 ?n - lval v1 ?n" "follows m n A ?u ?x"
        using subtract_pair [OF h1(2) h2(2)] 2 by simp_all
      have "inv_ok m n A ?u v1 ?x y2" using s h2(2,3) g by (simp add: inv_ok_def gcd_diff1)
      moreover have "lval ?u ?n * lval v1 ?n \<le> lval u1 ?n * lval v1 ?n" using s(1) pos by (intro mult_right_mono) simp_all
      note shrink [OF this]
      moreover have "even (lval ?u ?n)" using s(1) h1(3) h2(3) by simp
      moreover have "inv_loop (Suc left) m n u v x1 x2 = inv_loop left m n ?u v1 ?x y2" for left
        using 2 s(1) pos by (simp add: loop inv_subtract_def inv_ge_iff inv_is_zero_iff)
      ultimately show ?thesis by blast
    next
      case 3
      let ?v = "fst (bn_limbs_sub v1 v1 u1 n)" and ?x = "bn_inv_sub_mod y2 y1 m n"
      have s: "lval ?v ?n = lval v1 ?n - lval u1 ?n" "follows m n A ?v ?x"
        using subtract_pair [OF h2(2) h1(2)] 3 by simp_all
      have "gcd (lval u1 ?n) (lval v1 ?n - lval u1 ?n) = gcd (lval u1 ?n) (lval v1 ?n)" by (metis gcd.commute gcd_diff1)
      then have "inv_ok m n A u1 ?v y1 ?x" using s h1(2,3) g by (simp add: inv_ok_def)
      moreover have "lval u1 ?n * lval ?v ?n \<le> lval u1 ?n * lval v1 ?n" using s(1) pos by (intro mult_left_mono) simp_all
      note shrink [OF this]
      moreover have "even (lval ?v ?n)" using s(1) h1(3) h2(3) by simp
      moreover have "inv_loop (Suc left) m n u v x1 x2 = inv_loop left m n u1 ?v y1 ?x" for left
        using 3 s(1) pos by (simp add: loop inv_subtract_def inv_ge_iff inv_is_zero_iff)
      ultimately show ?thesis by blast
    qed
  qed
qed

text \<open>The iteration bound of the code is enough.\<close>

lemma inv_loop_even:
  assumes m: "0 < n" "odd (lval m (unat n))"
  shows "inv_ok m n A u v x1 x2 \<Longrightarrow> even (lval u (unat n)) \<or> even (lval v (unat n)) \<Longrightarrow>
    lval u (unat n) * lval v (unat n) < 2 ^ k \<Longrightarrow> k < left \<Longrightarrow>
    \<exists>rc x. inv_loop left m n u v x1 x2 = Some (rc, x) \<and> inv_result m n A rc x"
proof (induction k arbitrary: left u v x1 x2)
  case 0
  then have "0 < lval u (unat n) * lval v (unat n)" by (simp add: inv_ok_def follows_def)
  then show ?case using 0 by simp
next
  case (Suc k)
  obtain l where l: "left = Suc l" "k < l" using Suc.prems(4) by (cases left) auto
  from inv_iteration [OF Suc.prems(1) m] show ?case
  proof
    assume "\<exists>u' v' y1 y2. (\<forall>left. inv_loop (Suc left) m n u v x1 x2 = inv_loop left m n u' v' y1 y2) \<and>
       inv_ok m n A u' v' y1 y2 \<and> (even (lval u' (unat n)) \<or> even (lval v' (unat n))) \<and>
       lval u' (unat n) * lval v' (unat n) \<le> lval u (unat n) * lval v (unat n) \<and>
       (even (lval u (unat n)) \<or> even (lval v (unat n)) \<longrightarrow>
         2 * (lval u' (unat n) * lval v' (unat n)) \<le> lval u (unat n) * lval v (unat n))"
    then obtain u' v' y1 y2 where s: "\<And>left. inv_loop (Suc left) m n u v x1 x2 = inv_loop left m n u' v' y1 y2"
      "inv_ok m n A u' v' y1 y2" "even (lval u' (unat n)) \<or> even (lval v' (unat n))"
      "2 * (lval u' (unat n) * lval v' (unat n)) \<le> lval u (unat n) * lval v (unat n)"
      using Suc.prems(2) by blast
    have "lval u' (unat n) * lval v' (unat n) < 2 ^ k" using s(4) Suc.prems(3) by simp
    from Suc.IH [OF s(2,3) this l(2)] show ?thesis using s(1) l(1) by simp
  qed (use l in auto)
qed

lemma inv_odd_value:
  assumes "0 < n" "unat n < 2 ^ 26 - 1" "odd (lval m (unat n))" "1 < lval m (unat n)"
    and "length a = unat n" "length m = unat n"
  shows "\<exists>rc x. bn_inv_odd a m n = Some (rc, x) \<and> inv_result m n (lval a (unat n)) rc x"
proof -
  let ?n = "unat n" and ?A = "lval a (unat n)" and ?z = "replicate (unat n) (0 :: u32)"
  have n: "0 < ?n" using assms(1) by (simp add: word_gt_0 unat_gt_0)
  have iter: "unat (2 * n * 32 + 4) = 64 * ?n + 4"
  proof -
    have "unat (n * 64) = ?n * 64" using assms(2) by (subst unat_mult_lem [THEN iffD1]) simp_all
    then have "unat (n * 64 + 4) = 64 * ?n + 4" using assms(2) by (subst unat_add_small) simp_all
    then show ?thesis by (simp add: mult.commute)
  qed
  have whole: "take ?n a = a" "take ?n m = m" using assms(5,6) by simp_all
  show ?thesis
  proof (cases "?A = 0")
    case True
    then have "\<not> coprime ?A (lval m ?n)" using assms(4) by simp
    then show ?thesis using True by (simp add: bn_inv_odd_def Let_def whole inv_is_zero_iff inv_result_def)
  next
    case False
    then have A: "0 < ?A" using lval_bounds(1) [of a ?n] by linarith
    let ?x1 = "?z[0 := 1]"
    have x1: "lval ?x1 ?n = 1" using one_hot [OF n] by simp
    have ok: "inv_ok m n ?A a m ?x1 ?z"
      using assms A x1 by (simp add: inv_ok_def follows_def lval_zero)
    have run: "bn_inv_odd a m n = inv_loop (64 * ?n + 4) m n a m ?x1 ?z"
      using False unfolding bn_inv_odd_def Let_def iter whole by (simp add: inv_is_zero_iff)
    from inv_iteration [OF ok assms(1,3)] show ?thesis
    proof
      assume "\<exists>u' v' y1 y2. (\<forall>left. inv_loop (Suc left) m n a m ?x1 ?z = inv_loop left m n u' v' y1 y2) \<and>
         inv_ok m n ?A u' v' y1 y2 \<and> (even (lval u' ?n) \<or> even (lval v' ?n)) \<and>
         lval u' ?n * lval v' ?n \<le> ?A * lval m ?n \<and>
         (even ?A \<or> even (lval m ?n) \<longrightarrow> 2 * (lval u' ?n * lval v' ?n) \<le> ?A * lval m ?n)"
      then obtain u' v' y1 y2 where s: "\<And>left. inv_loop (Suc left) m n a m ?x1 ?z = inv_loop left m n u' v' y1 y2"
        "inv_ok m n ?A u' v' y1 y2" "even (lval u' ?n) \<or> even (lval v' ?n)" "lval u' ?n * lval v' ?n \<le> ?A * lval m ?n"
        by blast
      have "?A * lval m ?n < 2 ^ (32 * ?n) * 2 ^ (32 * ?n)"
        using A assms(4) by (intro mult_strict_mono lval_bounds) simp_all
      also have "\<dots> = 2 ^ (64 * ?n)" by (simp flip: power_add)
      finally have "lval u' ?n * lval v' ?n < 2 ^ (64 * ?n)" using s(4) by linarith
      from inv_loop_even [OF assms(1,3) s(2,3) this, of "64 * ?n + 3"] show ?thesis
        using s(1) [of "64 * ?n + 3"] run by (simp add: numeral_eq_Suc)
    next
      assume "\<exists>rc x. (\<forall>left. inv_loop (Suc left) m n a m ?x1 ?z = Some (rc, x)) \<and> inv_result m n ?A rc x"
      then obtain rc x where "\<And>left. inv_loop (Suc left) m n a m ?x1 ?z = Some (rc, x)" "inv_result m n ?A rc x" by blast
      then show ?thesis using run by (auto simp: numeral_eq_Suc simp del: inv_loop.simps)
    qed
  qed
qed

end
