(* ===== verification/Bn_Inverse.thy ===== *)
theory Bn_Inverse
  imports Bn_Inverse_Odd
begin

text \<open>
  Modular inversion for any modulus, the limb part of \<open>noxtls_bn_mod_inv\<close>: the odd routine, Hensel
  lifting modulo a power of two, and the recombination for an even modulus. The shortcut for the prime of
  secp256r1, which the function tries first, is not part of it.
\<close>

section \<open>Definitions\<close>

definition mac_body :: "u32 \<Rightarrow> u32 list \<Rightarrow> nat \<Rightarrow> nat \<Rightarrow> u32 \<Rightarrow> u64 \<Rightarrow> u32 \<times> u64" where
  "mac_body ai b i = (\<lambda>k v carry. let t = ucast v + ucast ai * ucast (b ! (k - i)) + carry :: u64 in (ucast t, drop_bit 32 t))"

definition bn_inv_mul_lo :: "u32 list \<Rightarrow> u32 list \<Rightarrow> u32 list \<Rightarrow> u32 \<Rightarrow> u32 list" where
  "bn_inv_mul_lo out a b w =
     foldl (\<lambda>out i. fst (carry_loop (map (\<lambda>j. i + j) [0..<unat w - i]) (mac_body (a ! i) b i) out 0))
       (zero_limbs (unat w) out) [0..<unat w]"

definition bn_inv_mul_full :: "u32 list \<Rightarrow> u32 list \<Rightarrow> u32 \<Rightarrow> u32 list \<Rightarrow> u32 \<Rightarrow> u32 list" where
  "bn_inv_mul_full out a na b nb =
     foldl (\<lambda>out i. case carry_loop (map (\<lambda>j. i + j) [0..<unat nb]) (mac_body (a ! i) b i) out 0 of
              (out, carry) \<Rightarrow> out[i + unat nb := ucast carry])
       (zero_limbs (unat na + unat nb) out) [0..<unat na]"

text \<open>One lifting step \<open>r = r * (2 - a * r)\<close> on the low w limbs.\<close>

definition lift_step :: "u32 list \<Rightarrow> u32 \<Rightarrow> u32 list \<Rightarrow> u32 list" where
  "lift_step a w r =
     (let zero = replicate (unat w) 0;
          t1 = bn_inv_mul_lo zero a r w;
          t1 = foldl (\<lambda>t i. t[i := NOT (t ! i)]) t1 [0..<unat w];
          t2 = zero[0 := 3];
          t1 = fst (bn_inv_add t1 t1 t2 w);
          t2 = bn_inv_mul_lo t2 r t1 w
      in foldl (\<lambda>r i. r[i := t2 ! i]) r [0..<unat w])"

partial_function (option) lift_loop :: "u32 list \<Rightarrow> u32 \<Rightarrow> u32 \<Rightarrow> u32 list \<Rightarrow> u32 list option" where
  "lift_loop a w good_bits r =
     (if good_bits < w * 32 then lift_loop a w (good_bits * 2) (lift_step a w r) else Some r)"

definition bn_inv_pow2 :: "u32 list \<Rightarrow> u32 list \<Rightarrow> u32 \<Rightarrow> u32 list option" where
  "bn_inv_pow2 r a w = lift_loop a w 3 (foldl (\<lambda>r i. r[i := a ! i]) (zero_limbs (unat w) r) [0..<unat w])"

text \<open>The number of trailing zero bits of a non-zero array, and the array shifted by it.\<close>

definition low_limb :: "u32 list \<Rightarrow> nat \<Rightarrow> nat" where
  "low_limb m n = (case find (\<lambda>i. m ! i \<noteq> 0) [0..<n] of Some q \<Rightarrow> q | None \<Rightarrow> n)"

definition low_bit_of :: "u32 \<Rightarrow> nat" where
  "low_bit_of x = (case find (\<lambda>s. drop_bit s x AND 1 \<noteq> 0) [0..<32] of Some s \<Rightarrow> s | None \<Rightarrow> 32)"

definition odd_limbs :: "u32 list \<Rightarrow> nat \<Rightarrow> nat \<Rightarrow> nat \<Rightarrow> u32 list" where
  "odd_limbs m n q s =
     map (\<lambda>i. let lo = (if i + q < n then m ! (i + q) else 0); hi = (if i + q + 1 < n then m ! (i + q + 1) else 0)
              in if s = 0 then lo else drop_bit s lo OR push_bit (32 - s) hi) [0..<n]"

text \<open>Clear the limbs from w on and the bits from e on.\<close>

definition keep_bits :: "u32 list \<Rightarrow> nat \<Rightarrow> nat \<Rightarrow> nat \<Rightarrow> u32 list" where
  "keep_bits u w n e =
     (let u = foldl (\<lambda>u i. u[i := 0]) u [w..<n]
      in if e mod 32 \<noteq> 0 then u[w - 1 := u ! (w - 1) AND (push_bit (e mod 32) 1 - 1)] else u)"

definition even_inverse :: "u32 list \<Rightarrow> u32 list \<Rightarrow> u32 \<Rightarrow> (noxtls_return_t \<times> u32 list) option" where
  "even_inverse al ml n =
     (let q = low_limb ml (unat n); s = low_bit_of (ml ! q); e = 32 * q + s;
          w = of_nat ((e + 31) div 32); zero = replicate (unat n) 0;
          od = odd_limbs ml (unat n) q s
      in if bn_inv_is_one od n \<noteq> 0
         then (case bn_inv_pow2 zero al w of
                 None \<Rightarrow> None
               | Some u \<Rightarrow> Some (NOXTLS_RETURN_SUCCESS, keep_bits u (unat w) (unat n) e))
         else (case bn_inv_odd al od n of
                 None \<Rightarrow> None
               | Some (rc, x1) \<Rightarrow>
                   if rc \<noteq> NOXTLS_RETURN_SUCCESS then Some (rc, x1)
                   else (case (bn_inv_pow2 zero al w, bn_inv_pow2 zero od w) of
                           (Some u, Some v) \<Rightarrow>
                             let x2 = fst (bn_limbs_sub (replicate (unat w) 0) u x1 w);
                                 u = keep_bits (bn_inv_mul_lo u x2 v w) (unat w) (unat n) e;
                                 wide = bn_inv_mul_full (replicate (2 * unat n) 0) od n u n
                             in Some (NOXTLS_RETURN_SUCCESS, fst (bn_inv_add x1 x1 wide n))
                         | _ \<Rightarrow> None)))"

text \<open>Eight buffers, all of them requested.\<close>

fun alloc_all :: "nat \<Rightarrow> bool list \<Rightarrow> bool \<times> bool list" where
  "alloc_all 0 allocs = (True, allocs)"
| "alloc_all (Suc k) allocs =
     (let (ok, allocs) = alloc_next allocs; (rest, allocs) = alloc_all k allocs in (ok \<and> rest, allocs))"

definition mod_inv_limbs ::
    "bool list \<Rightarrow> bytes \<Rightarrow> bytes \<Rightarrow> u32 \<Rightarrow> bytes \<Rightarrow> u32 \<Rightarrow> (noxtls_return_t \<times> bytes \<times> bool list) option" where
  "mod_inv_limbs allocs result a a_len m m_len =
     (let n = ((if a_len > m_len then a_len else m_len) + 3) div 4;
          (alloc_ok, allocs) = alloc_all 8 allocs;
          wiped = the (noxtls_secure_zero (Some result) (unat m_len)) in
      if \<not> alloc_ok then Some (NOXTLS_RETURN_NOT_ENOUGH_MEMORY, wiped, allocs)
      else
        let zero = replicate (unat n) 0;
            al = bn_be_to_limbs zero n a a_len;
            ml = bn_be_to_limbs zero n m m_len
        in (case (if bn_inv_is_zero ml n \<noteq> 0 \<or> bn_inv_is_one ml n \<noteq> 0 then Some (NOXTLS_RETURN_FAILED, zero)
                  else if ml ! 0 AND 1 \<noteq> 0 then bn_inv_odd al ml n
                  else if al ! 0 AND 1 = 0 then Some (NOXTLS_RETURN_FAILED, zero)
                  else even_inverse al ml n) of
              None \<Rightarrow> None
            | Some (rc, res) \<Rightarrow>
                if rc = NOXTLS_RETURN_SUCCESS then Some (rc, bn_limbs_to_be result m_len res n, allocs)
                else Some (rc, wiped, allocs)))"

section \<open>Products\<close>

lemma mac_row:
  assumes "off + n \<le> length r" "carry_loop (map (\<lambda>j. off + j) [0..<n]) (mac_body x b off) r 0 = (r', c)"
  shows "length r' = length r" "uint c < 2 ^ 32" "\<And>j. j < off \<or> off + n \<le> j \<Longrightarrow> r' ! j = r ! j"
    "lval r' (off + n) + 2 ^ (32 * (off + n)) * uint c = lval r (off + n) + 2 ^ (32 * off) * (uint x * lval b n)"
proof -
  have step: "uint c' < 2 ^ 32 \<and> uint y + 2 ^ 32 * uint c' = uint (b ! i) * uint x + uint (r ! (off + i)) + uint c"
    if "uint c < 2 ^ 32" "mac_body x b off (off + i) (r ! (off + i)) c = (y, c')" for i c y c'
    using mac_step [of c "r ! (off + i)" x "b ! i"] that
    unfolding mac_body_def by (simp only: Let_def prod.inject add_diff_cancel_left') (simp add: mult.commute)
  have "uint (0 :: u64) < 2 ^ 32" by simp
  note o = offset_loop [where I = "\<lambda>c. uint c < 2 ^ 32" and cv = uint and h = "\<lambda>i. uint (b ! i) * uint x",
      OF assms(2,1) this step]
  show "length r' = length r" "uint c < 2 ^ 32" "\<And>j. j < off \<or> off + n \<le> j \<Longrightarrow> r' ! j = r ! j" using o(1-3) by auto
  show "lval r' (off + n) + 2 ^ (32 * (off + n)) * uint c = lval r (off + n) + 2 ^ (32 * off) * (uint x * lval b n)"
    using o(4) unfolding lval_scaled by (simp add: mult.commute)
qed

lemma mul_lo_value:
  assumes "unat w \<le> length out"
  shows "length (bn_inv_mul_lo out a b w) = length out"
    "lval (bn_inv_mul_lo out a b w) (unat w) = lval a (unat w) * lval b (unat w) mod 2 ^ (32 * unat w)"
proof -
  let ?w = "unat w" and ?T = "2 ^ (32 * unat w) :: int"
  let ?row = "\<lambda>out i. fst (carry_loop (map (\<lambda>j. i + j) [0..<?w - i]) (mac_body (a ! i) b i) out 0)"
  let ?z = "replicate ?w 0 @ drop ?w out"
  have z: "zero_limbs ?w out = ?z" by (simp add: zero_limbs_def)
  have "k \<le> ?w \<Longrightarrow> length (foldl ?row ?z [0..<k]) = length out \<and>
      ?T dvd lval (foldl ?row ?z [0..<k]) ?w - lval a k * lval b ?w" for k
  proof (induction k)
    case 0
    then show ?case using assms by (simp add: lval_zero)
  next
    case (Suc k)
    let ?r = "foldl ?row ?z [0..<k]"
    have ih: "length ?r = length out" "?T dvd lval ?r ?w - lval a k * lval b ?w" using Suc by simp_all
    obtain y c where run: "carry_loop (map (\<lambda>j. k + j) [0..<?w - k]) (mac_body (a ! k) b k) ?r 0 = (y, c)" by fastforce
    have kw: "k + (?w - k) = ?w" using Suc.prems by simp
    have fit: "k + (?w - k) \<le> length ?r" using kw ih(1) assms by simp
    note row = mac_row [OF fit run, unfolded kw]
    define U where "U = 2 ^ (32 * k) * (uint (a ! k) * digits (2 ^ 32) (\<lambda>i. uint (b ! (?w - k + i))) k)"
    have split: "lval b ?w = lval b (?w - k) + 2 ^ (32 * (?w - k)) * digits (2 ^ 32) (\<lambda>i. uint (b ! (?w - k + i))) k"
      using lval_split [of b "?w - k" k] Suc.prems by simp
    have pow: "2 ^ (32 * k) * 2 ^ (32 * (?w - k)) = ?T" unfolding power_add [symmetric] using Suc.prems by (simp add: distrib_left [symmetric])
    have big: "2 ^ (32 * k) * (uint (a ! k) * lval b ?w) =
        2 ^ (32 * k) * (uint (a ! k) * lval b (?w - k)) + ?T * (uint (a ! k) * digits (2 ^ 32) (\<lambda>i. uint (b ! (?w - k + i))) k)"
      unfolding split pow [symmetric] by (simp add: algebra_simps)
    have "lval y ?w - lval a (Suc k) * lval b ?w =
        (lval ?r ?w - lval a k * lval b ?w) - ?T * (uint c + uint (a ! k) * digits (2 ^ 32) (\<lambda>i. uint (b ! (?w - k + i))) k)"
      using row(4) big unfolding lval_Suc by (simp add: algebra_simps)
    then have "?T dvd lval y ?w - lval a (Suc k) * lval b ?w" using ih(2) by simp
    then show ?case using row(1) ih(1) run by simp
  qed
  from this [OF order_refl] show "length (bn_inv_mul_lo out a b w) = length out"
    "lval (bn_inv_mul_lo out a b w) ?w = lval a ?w * lval b ?w mod ?T"
    using lval_bounds [of "foldl ?row ?z [0..<?w]" ?w] unfolding bn_inv_mul_lo_def z mod_eq_dvd_iff [symmetric] by auto
qed

lemma mul_full_value:
  assumes "length out = unat na + unat nb"
  shows "length (bn_inv_mul_full out a na b nb) = unat na + unat nb"
    "lval (bn_inv_mul_full out a na b nb) (unat na + unat nb) = lval a (unat na) * lval b (unat nb)"
proof -
  let ?na = "unat na" and ?nb = "unat nb"
  let ?row = "\<lambda>out i. case carry_loop (map (\<lambda>j. i + j) [0..<?nb]) (mac_body (a ! i) b i) out 0 of
      (out, carry) \<Rightarrow> out[i + ?nb := ucast carry]"
  have z: "zero_limbs (?na + ?nb) out = replicate (?na + ?nb) 0" using assms by (simp add: zero_limbs_def)
  have "k \<le> ?na \<Longrightarrow> length (foldl ?row (replicate (?na + ?nb) 0) [0..<k]) = ?na + ?nb \<and>
      lval (foldl ?row (replicate (?na + ?nb) 0) [0..<k]) (k + ?nb) = lval a k * lval b ?nb \<and>
      (\<forall>j\<ge>k + ?nb. j < ?na + ?nb \<longrightarrow> foldl ?row (replicate (?na + ?nb) 0) [0..<k] ! j = 0)" for k
  proof (induction k)
    case 0
    then show ?case by (simp add: lval_zero)
  next
    case (Suc k)
    let ?r = "foldl ?row (replicate (?na + ?nb) 0) [0..<k]"
    have ih: "length ?r = ?na + ?nb" "lval ?r (k + ?nb) = lval a k * lval b ?nb"
      "\<And>j. k + ?nb \<le> j \<Longrightarrow> j < ?na + ?nb \<Longrightarrow> ?r ! j = 0" using Suc by auto
    obtain y c where run: "carry_loop (map (\<lambda>j. k + j) [0..<?nb]) (mac_body (a ! k) b k) ?r 0 = (y, c)" by fastforce
    have fit: "k + ?nb \<le> length ?r" using Suc.prems ih(1) by simp
    note row = mac_row [OF fit run]
    have uc: "uint (ucast c :: u32) = uint c" using row(2) by (simp add: uint_ucast_down)
    have "lval (y[k + ?nb := ucast c]) (Suc k + ?nb) = lval y (k + ?nb) + 2 ^ (32 * (k + ?nb)) * uint c"
      using row(1) ih(1) Suc.prems uc lval_cong [of "k + ?nb" "y[k + ?nb := ucast c]" y] by (simp add: lval_Suc)
    also have "\<dots> = lval a (Suc k) * lval b ?nb" unfolding row(4) ih(2) lval_Suc by (simp add: algebra_simps)
    finally show ?case using row(1,3) ih(1,3) run by simp
  qed
  from this [OF order_refl] show "length (bn_inv_mul_full out a na b nb) = ?na + ?nb"
    "lval (bn_inv_mul_full out a na b nb) (?na + ?nb) = lval a ?na * lval b ?nb"
    unfolding bn_inv_mul_full_def z by auto
qed

section \<open>Lifting\<close>

lemma complement_value:
  assumes "length t = n"
  shows "lval (foldl (\<lambda>t i. t[i := NOT (t ! i)]) t [0..<n]) n = 2 ^ (32 * n) - 1 - lval t n"
    "length (foldl (\<lambda>t i. t[i := NOT (t ! i)]) t [0..<n]) = n"
proof -
  have loop: "k \<le> n \<Longrightarrow> length (foldl (\<lambda>t i. t[i := NOT (t ! i)]) t [0..<k]) = n \<and>
      (\<forall>j<n. foldl (\<lambda>t i. t[i := NOT (t ! i)]) t [0..<k] ! j = (if j < k then NOT (t ! j) else t ! j))" for k
  proof (induction k)
    case (Suc k)
    then show ?case by (auto simp: less_Suc_eq nth_list_update)
  qed (simp add: assms)
  let ?r = "foldl (\<lambda>t i. t[i := NOT (t ! i)]) t [0..<n]"
  show "length ?r = n" using loop [OF order_refl] by simp
  have not: "uint (NOT w) = 2 ^ 32 - 1 - uint w" for w :: u32
  proof -
    have "NOT w = - 1 - w" by (simp add: not_eq_complement)
    moreover have "uint (- 1 - w) = uint (- 1 :: u32) - uint w"
      by (subst uint_sub_lem [THEN iffD1]) (use uint_lt2p [of w] in \<open>simp_all add: unsigned_minus_1_eq_mask mask_eq_exp_minus_1\<close>)
    ultimately show ?thesis by (simp add: unsigned_minus_1_eq_mask mask_eq_exp_minus_1)
  qed
  have "lval ?r n = digits (2 ^ 32) (\<lambda>i. (2 ^ 32 - 1) - uint (t ! i)) n"
    unfolding lval_def by (rule digits_cong) (use loop [OF order_refl] not in simp)
  also have "\<dots> = digits (2 ^ 32) (\<lambda>i. 2 ^ 32 - 1) n - lval t n" by (simp only: digits_diff lval_def)
  also have "digits (2 ^ 32) (\<lambda>i. 2 ^ 32 - 1) n = (2 ^ 32) ^ n - (1 :: int)"
    by (induction n) (simp_all add: algebra_simps)
  finally show "lval ?r n = 2 ^ (32 * n) - 1 - lval t n" by (simp add: power_mult)
qed

lemma copy_prefix: "w \<le> length d \<Longrightarrow> foldl (\<lambda>x i. x[i := s ! i]) d [0..<w] = map ((!) s) [0..<w] @ drop w d"
proof (induction w)
  case (Suc w)
  then show ?case by (simp add: list_update_append Cons_nth_drop_Suc [symmetric])
qed simp

lemma lift_step_value:
  assumes "unat w \<le> length r" "0 < w"
  shows "length (lift_step a w r) = length r"
    "lval (lift_step a w r) (unat w) =
      lval r (unat w) * (2 - lval a (unat w) * lval r (unat w)) mod 2 ^ (32 * unat w)"
proof -
  let ?w = "unat w" and ?T = "2 ^ (32 * unat w) :: int" and ?z = "replicate (unat w) (0 :: u32)"
  have w: "0 < ?w" using assms(2) by (simp add: word_gt_0 unat_gt_0)
  define t1 where "t1 = bn_inv_mul_lo ?z a r w"
  have t1: "length t1 = ?w" "lval t1 ?w = lval a ?w * lval r ?w mod ?T" using mul_lo_value [where out = ?z and w = w and a = a and b = r] by (simp_all add: t1_def)
  define c where "c = foldl (\<lambda>t i. t[i := NOT (t ! i)]) t1 [0..<?w]"
  note c = complement_value [OF t1(1), folded c_def]
  have three: "lval (?z[0 := 3]) ?w = 3" using lval_update [of 0 ?w ?z 3] w by (simp add: lval_zero)
  define d where "d = fst (bn_inv_add c c (?z[0 := 3]) w)"
  have d: "length d = ?w" "lval d ?w = (2 - lval a ?w * lval r ?w) mod ?T"
  proof -
    note a = inv_add_value [OF c(2), of c "?z[0 := 3]"]
    show "length d = ?w" using a(1) by (simp add: d_def)
    have "lval d ?w = (lval d ?w + ?T * uint (snd (bn_inv_add c c (?z[0 := 3]) w))) mod ?T"
      using lval_bounds [of d ?w] by simp
    also have "\<dots> = (?T - 1 - lval t1 ?w + 3) mod ?T" using a(3) unfolding d_def [symmetric] c(1) three by simp
    also have "\<dots> = (2 - lval t1 ?w + ?T) mod ?T" by (simp add: algebra_simps)
    also have "\<dots> = (2 - lval a ?w * lval r ?w) mod ?T" unfolding t1(2) by (simp add: mod_simps)
    finally show "lval d ?w = (2 - lval a ?w * lval r ?w) mod ?T" .
  qed
  define e where "e = bn_inv_mul_lo (?z[0 := 3]) r d w"
  have e: "length e = ?w" "lval e ?w = lval r ?w * lval d ?w mod ?T" using mul_lo_value [where out = "?z[0 := 3]" and w = w and a = r and b = d] by (simp_all add: e_def)
  have step: "lift_step a w r = map ((!) e) [0..<?w] @ drop ?w r"
    unfolding lift_step_def Let_def t1_def [symmetric] c_def [symmetric] d_def [symmetric] e_def [symmetric]
    by (rule copy_prefix [OF assms(1)])
  then have "lval (lift_step a w r) ?w = lval e ?w" by (intro lval_cong) (simp add: nth_append)
  then show "length (lift_step a w r) = length r"
    "lval (lift_step a w r) ?w = lval r ?w * (2 - lval a ?w * lval r ?w) mod ?T"
    using e step assms(1) unfolding d(2) by (simp_all add: mod_simps)
qed

text \<open>The error of the inverse is squared by each step.\<close>

lemma lift_error:
  fixes A R :: int
  assumes "2 ^ g dvd A * R - 1" "g' \<le> 2 * g" "g' \<le> t" "R' = R * (2 - A * R) mod 2 ^ t"
  shows "2 ^ g' dvd A * R' - 1"
proof -
  have "(2 :: int) ^ g * 2 ^ g dvd (A * R - 1) * (A * R - 1)" using assms(1) by (rule mult_dvd_mono) (rule assms(1))
  moreover have "(2 :: int) ^ g' dvd 2 ^ g * 2 ^ g" unfolding power_add [symmetric] using assms(2) by (intro le_imp_power_dvd) simp
  ultimately have "2 ^ g' dvd (A * R - 1) * (A * R - 1)" by (rule dvd_trans [rotated])
  moreover have "(2 :: int) ^ g' dvd 2 ^ t" using assms(3) by (rule le_imp_power_dvd)
  then have "2 ^ g' dvd R' - R * (2 - A * R)" unfolding assms(4) by (metis dvd_trans dvd_minus_mod dvd_diff_commute)
  then have "2 ^ g' dvd A * (R' - R * (2 - A * R))" by (rule dvd_mult)
  ultimately have "2 ^ g' dvd A * (R' - R * (2 - A * R)) - (A * R - 1) * (A * R - 1)" by (rule dvd_diff [rotated])
  then show ?thesis by (simp add: algebra_simps)
qed

lemma lift_loop_value:
  assumes "0 < w" "unat w < 2 ^ 26"
  shows "unat w \<le> length r \<Longrightarrow> 0 < unat good \<Longrightarrow>
    2 ^ min (unat good) (32 * unat w) dvd lval a (unat w) * lval r (unat w) - 1 \<Longrightarrow>
    \<exists>r'. lift_loop a w good r = Some r' \<and> length r' = length r \<and>
      2 ^ (32 * unat w) dvd lval a (unat w) * lval r' (unat w) - 1"
proof (induction "32 * unat w - unat good" arbitrary: good r rule: less_induct)
  case less
  let ?w = "unat w"
  have total: "unat (w * 32) = 32 * ?w" using assms(2) by (subst unat_mult_lem [THEN iffD1]) simp_all
  show ?case
  proof (cases "good < w * 32")
    case True
    then have g: "unat good < 32 * ?w" using total by (simp add: unat_lt_iff)
    have dbl: "unat (good * 2) = 2 * unat good" using g assms(2) by (subst unat_mult_lem [THEN iffD1]) simp_all
    let ?r = "lift_step a w r" and ?g = "min (2 * unat good) (32 * ?w)"
    note s = lift_step_value [OF less.prems(1) assms(1), of a]
    have "2 ^ unat good dvd lval a ?w * lval r ?w - 1" using less.prems(3) g by (simp add: min_def)
    then have err: "2 ^ ?g dvd lval a ?w * lval ?r ?w - 1" by (rule lift_error [OF _ _ _ s(2)]) simp_all
    have smaller: "32 * ?w - unat (good * 2) < 32 * ?w - unat good" using g dbl less.prems(2) by linarith
    have "0 < unat (good * 2)" using dbl less.prems(2) by linarith
    from less.hyps [OF smaller _ this err [folded dbl]] show ?thesis
      using True less.prems(1) s(1) by (simp add: lift_loop.simps [of a w good])
  next
    case False
    then have "32 * ?w \<le> unat good" using total by (simp add: unat_lt_iff)
    then show ?thesis using False less.prems by (simp add: lift_loop.simps [of a w good] min_def split: if_splits)
  qed
qed

lemma pow2_value:
  assumes "0 < w" "unat w < 2 ^ 26" "unat w \<le> length r" "odd (lval a (unat w))"
  shows "\<exists>r'. bn_inv_pow2 r a w = Some r' \<and> length r' = length r \<and> 2 ^ (32 * unat w) dvd lval a (unat w) * lval r' (unat w) - 1"
proof -
  let ?w = "unat w" and ?A = "lval a (unat w)"
  have w: "0 < ?w" using assms(1) by (simp add: word_gt_0 unat_gt_0)
  define r0 where "r0 = foldl (\<lambda>r i. r[i := a ! i]) (zero_limbs ?w r) [0..<?w]"
  have r0: "r0 = map ((!) a) [0..<?w] @ drop ?w r"
    unfolding r0_def by (subst copy_prefix) (use assms(3) in \<open>simp_all add: zero_limbs_def\<close>)
  then have len: "length r0 = length r" using assms(3) by simp
  have val: "lval r0 ?w = ?A" unfolding r0 by (intro lval_cong) (simp add: nth_append)
  obtain q where q: "?A = 2 * q + 1" using assms(4) by (elim oddE)
  obtain p where p: "q * (q + 1) = 2 * p" by (metis even_mult_iff odd_even_add odd_one evenE)
  have "?A * ?A - 1 = 8 * p" using p unfolding q by (simp add: algebra_simps)
  then have "2 ^ 3 dvd ?A * lval r0 ?w - 1" unfolding val by simp
  moreover have "min (unat (3 :: u32)) (32 * ?w) = 3" using w by simp
  ultimately have "2 ^ min (unat (3 :: u32)) (32 * ?w) dvd ?A * lval r0 ?w - 1" by (simp only:)
  from lift_loop_value [OF assms(1,2) _ _ this] show ?thesis
    using len assms(3) by (simp add: bn_inv_pow2_def r0_def [symmetric])
qed

lemma lval_low: "w \<le> n \<Longrightarrow> lval a w = lval a n mod 2 ^ (32 * w)"
  using lval_split [of a w "n - w"] lval_bounds [of a w] by simp

lemma keep_bits_value:
  assumes "length u = n" "w \<le> n" "32 * w < e + 32" "e \<le> 32 * w" "0 < e"
  shows "length (keep_bits u w n e) = n" "lval (keep_bits u w n e) n = lval u w mod 2 ^ e"
proof -
  define z where "z = foldl (\<lambda>u i. u[i := 0]) u [w..<n]"
  have loop: "w \<le> k \<Longrightarrow> k \<le> n \<Longrightarrow> length (foldl (\<lambda>u i. u[i := 0]) u [w..<k]) = n \<and>
      (\<forall>j<n. foldl (\<lambda>u i. u[i := 0]) u [w..<k] ! j = (if w \<le> j \<and> j < k then 0 else u ! j))" for k
  proof (induction k rule: dec_induct)
    case (step k)
    have "[w..<Suc k] = [w..<k] @ [k]" using step.hyps by simp
    then show ?case using step by (auto simp: nth_list_update less_Suc_eq)
  qed (auto simp: assms(1))
  have z: "length z = n" "\<And>j. j < n \<Longrightarrow> z ! j = (if w \<le> j then 0 else u ! j)"
    using loop [OF assms(2) order_refl] by (auto simp: z_def)
  have "lval z n = lval z w + 2 ^ (32 * w) * digits (2 ^ 32) (\<lambda>i. uint (z ! (w + i))) (n - w)"
    using lval_split [of z w "n - w"] assms(2) by simp
  also have "digits (2 ^ 32) (\<lambda>i. uint (z ! (w + i))) (n - w) = digits (2 ^ 32) (\<lambda>i. 0) (n - w)"
    by (rule digits_cong) (simp add: z(2))
  also have "lval z w = lval u w" using assms(2) by (intro lval_cong) (simp add: z(2))
  finally have zv: "lval z n = lval u w" by simp
  have w0: "0 < w" using assms(4,5) by simp
  show "length (keep_bits u w n e) = n" using z(1) by (simp add: keep_bits_def z_def [symmetric] Let_def)
  show "lval (keep_bits u w n e) n = lval u w mod 2 ^ e"
  proof (cases "e mod 32 = 0")
    case True
    then have "e = 32 * w" using assms(3,4) by presburger
    then show ?thesis using zv True lval_bounds [of u w] by (simp add: keep_bits_def z_def [symmetric])
  next
    case False
    define s where "s = e mod 32"
    obtain j where j: "w = Suc j" using w0 by (cases w) auto
    define d where "d = e div 32"
    have s0: "s < 32" "0 < s" "e = 32 * d + s" using False by (simp_all add: s_def d_def)
    have "32 * Suc j < 32 * d + s + 32" "32 * d + s \<le> 32 * Suc j" using assms(3,4) unfolding s0(3) j by blast+
    then have "d = j" using s0(1,2) by arith
    then have s: "s < 32" "e = 32 * (w - 1) + s" using s0 j by simp_all
    let ?x = "u ! (w - 1)" and ?B = "2 ^ (32 * (w - 1)) :: int"
    have "(push_bit s 1 - 1 :: u32) = mask s" by (simp add: mask_eq_exp_minus_1 push_bit_eq_mult)
    then have k: "keep_bits u w n e = z[w - 1 := ?x AND mask s]"
      using False z(2) [of "w - 1"] assms(2) w0 by (simp add: keep_bits_def z_def [symmetric] s_def Let_def)
    have zj: "z ! (w - 1) = ?x" using z(2) [of "w - 1"] assms(2) w0 by (simp add: j)
    have x: "uint (?x AND mask s) = uint ?x mod 2 ^ s"
      by (simp only: take_bit_eq_mask [symmetric] unsigned_take_bit_eq) (simp add: take_bit_eq_mod)
    have u: "lval u w = lval u j + ?B * uint ?x" using lval_Suc [of u j] by (simp add: j)
    have "lval (keep_bits u w n e) n = lval u w + ?B * (uint ?x mod 2 ^ s - uint ?x)"
      unfolding k using lval_update [of "w - 1" n z] z(1) zj w0 assms(2) x zv by simp
    also have "\<dots> = lval u j + ?B * (uint ?x mod 2 ^ s)" unfolding u by (simp add: algebra_simps)
    also have "\<dots> = lval u w mod (?B * 2 ^ s)"
      unfolding zmod_zmult2_eq [OF zero_le_power [OF zero_le_numeral]] u using lval_bounds [of u j]
      by (simp add: j div_add1_eq)
    also have "?B * 2 ^ s = 2 ^ e" by (simp add: s(2) power_add)
    finally show ?thesis .
  qed
qed

section \<open>The odd part of the modulus\<close>

lemma shifted_limb:
  fixes v hi :: u32
  assumes "s \<le> 32"
  shows "uint (drop_bit s v OR push_bit (32 - s) hi) = uint v div 2 ^ s + 2 ^ (32 - s) * (uint hi mod 2 ^ s)"
proof -
  have "drop_bit s v AND push_bit (32 - s) hi = 0"
    by (rule bit_word_eqI) (use assms in \<open>auto simp: bit_simps dest: bit_imp_le_length\<close>)
  then have e: "drop_bit s v OR push_bit (32 - s) hi = drop_bit s v + push_bit (32 - s) hi" by (simp add: disjunctive_add_eq_or)
  have pow: "(2 :: int) ^ s * 2 ^ (32 - s) = 2 ^ 32" using assms by (simp flip: power_add)
  have p: "uint (push_bit (32 - s) hi) = 2 ^ (32 - s) * (uint hi mod 2 ^ s)"
  proof -
    have "uint (push_bit (32 - s) hi) = uint hi * 2 ^ (32 - s) mod (2 ^ s * 2 ^ (32 - s))"
      unfolding pow by (simp add: unsigned_push_bit_eq) (simp add: take_bit_eq_mod push_bit_eq_mult)
    also have "\<dots> = uint hi mod 2 ^ s * 2 ^ (32 - s)" by (rule mod_mult_mult2)
    finally show ?thesis by simp
  qed
  have "uint v < 2 ^ 32" using uint_lt2p [of v] by simp
  then have "uint v div 2 ^ s = uint v div 2 ^ s mod 2 ^ (32 - s)"
    using mod_times_div [of "2 ^ s" "2 ^ (32 - s)" "uint v"] unfolding pow by simp
  then have d: "uint v div 2 ^ s < 2 ^ (32 - s)" using pos_mod_bound [of "2 ^ (32 - s)" "uint v div 2 ^ s"] by simp
  have "uint hi mod 2 ^ s \<le> 2 ^ s - 1" using pos_mod_bound [of "2 ^ s" "uint hi"] by simp
  then have "2 ^ (32 - s) * (uint hi mod 2 ^ s) \<le> 2 ^ (32 - s) * (2 ^ s - 1)" by (intro mult_left_mono) simp_all
  also have "\<dots> = 2 ^ 32 - 2 ^ (32 - s)" unfolding right_diff_distrib mult.commute [of _ "2 ^ s"] pow by (simp only: mult_1_right)
  finally have sum: "uint v div 2 ^ s + 2 ^ (32 - s) * (uint hi mod 2 ^ s) < 2 ^ 32" using d by linarith
  show ?thesis unfolding e using sum by (subst uint_add_small) (simp_all add: p uint_drop_bit)
qed

lemma window_digit:
  fixes X :: int
  assumes "s \<le> 32"
  shows "X div 2 ^ s mod 2 ^ 32 = X mod 2 ^ 32 div 2 ^ s + 2 ^ (32 - s) * (X div 2 ^ 32 mod 2 ^ 32 mod 2 ^ s)"
proof -
  have pow: "(2 :: int) ^ 32 = 2 ^ s * 2 ^ (32 - s)" using assms by (simp flip: power_add)
  have pow': "(2 :: int) ^ 32 = 2 ^ (32 - s) * 2 ^ s" by (simp only: pow mult.commute)
  have dvd: "(2 :: int) ^ s dvd 2 ^ 32" using assms by (rule le_imp_power_dvd)
  have "X div 2 ^ s mod 2 ^ 32 = X div 2 ^ s mod (2 ^ (32 - s) * 2 ^ s)" by (simp only: pow')
  also have "\<dots> = 2 ^ (32 - s) * (X div 2 ^ s div 2 ^ (32 - s) mod 2 ^ s) + X div 2 ^ s mod 2 ^ (32 - s)"
    by (rule zmod_zmult2_eq) simp
  also have "X div 2 ^ s div 2 ^ (32 - s) = X div (2 ^ s * 2 ^ (32 - s))" by (rule zdiv_zmult2_eq [symmetric]) simp
  also have "X div 2 ^ s mod 2 ^ (32 - s) = X mod (2 ^ s * 2 ^ (32 - s)) div 2 ^ s" by (rule mod_times_div [symmetric]) simp_all
  finally show ?thesis unfolding pow [symmetric] mod_mod_cancel [OF dvd] by simp
qed

lemma lval_digit_any: "uint (if i < n then x ! i else 0) = lval x n div 2 ^ (32 * i) mod 2 ^ 32"
proof (cases "i < n")
  case False
  then have "(2 :: int) ^ (32 * n) \<le> 2 ^ (32 * i)" by (intro power_increasing) auto
  then have "lval x n div 2 ^ (32 * i) = 0" using lval_bounds [of x n] by (intro div_pos_pos_trivial) linarith+
  then show ?thesis using False by simp
qed (simp add: lval_digit)

lemma odd_limbs_value:
  assumes "s < 32"
  shows "length (odd_limbs m n q s) = n"
    "lval (odd_limbs m n q s) n = lval m n div 2 ^ (32 * q + s)"
proof -
  let ?V = "lval m n"
  show "length (odd_limbs m n q s) = n" by (simp add: odd_limbs_def)
  have "uint (odd_limbs m n q s ! i) = ?V div 2 ^ (32 * q + s) div (2 ^ 32) ^ i mod 2 ^ 32" if "i < n" for i
  proof -
    define lo hi where "lo = (if i + q < n then m ! (i + q) else 0)" and "hi = (if i + q + 1 < n then m ! (i + q + 1) else 0)"
    let ?X = "?V div 2 ^ (32 * (i + q))"
    have lo: "uint lo = ?X mod 2 ^ 32" unfolding lo_def by (rule lval_digit_any)
    have hi: "uint hi = ?X div 2 ^ 32 mod 2 ^ 32"
      unfolding hi_def lval_digit_any by (simp add: power_add zdiv_zmult2_eq [symmetric] distrib_left mult.commute)
    have "odd_limbs m n q s ! i = drop_bit s lo OR push_bit (32 - s) hi"
    proof (cases "s = 0")
      case True
      have "push_bit 32 hi = 0" by (rule bit_word_eqI) (auto simp: bit_simps)
      then show ?thesis using that True by (simp add: odd_limbs_def lo_def)
    next
      case False
      then show ?thesis using that by (simp add: odd_limbs_def lo_def hi_def Let_def)
    qed
    then have "uint (odd_limbs m n q s ! i) = ?X div 2 ^ s mod 2 ^ 32"
      using shifted_limb [of s lo hi] window_digit [of s ?X] assms by (simp only: lo hi less_imp_le)
    also have "?X div 2 ^ s = ?V div 2 ^ (32 * q + s) div (2 ^ 32) ^ i"
    proof -
      have d: "?V div 2 ^ a div 2 ^ b = ?V div 2 ^ (a + b)" for a b by (simp add: power_add zdiv_zmult2_eq)
      have "32 * (i + q) + s = 32 * q + s + 32 * i" by simp
      then show ?thesis unfolding power_mult [symmetric] d by (simp only:)
    qed
    finally show ?thesis .
  qed
  then have "lval (odd_limbs m n q s) n = digits (2 ^ 32) (\<lambda>i. ?V div 2 ^ (32 * q + s) div (2 ^ 32) ^ i mod 2 ^ 32) n"
    unfolding lval_def by (intro digits_cong)
  also have "\<dots> = ?V div 2 ^ (32 * q + s) mod (2 ^ 32) ^ n" by (rule digits_of) simp
  also have "\<dots> = ?V div 2 ^ (32 * q + s)"
  proof (rule mod_pos_pos_trivial)
    show "0 \<le> ?V div 2 ^ (32 * q + s)" using lval_bounds(1) [of m n] by (simp add: pos_imp_zdiv_nonneg_iff)
    have "?V div 2 ^ (32 * q + s) \<le> ?V div 1" using lval_bounds(1) [of m n] by (intro zdiv_mono2) simp_all
    then show "?V div 2 ^ (32 * q + s) < (2 ^ 32) ^ n" using lval_bounds(2) [of m n] by (simp add: power_mult)
  qed
  finally show "lval (odd_limbs m n q s) n = lval m n div 2 ^ (32 * q + s)" .
qed

lemma odd_part_of_limbs:
  assumes "0 < lval m n"
  defines "q \<equiv> low_limb m n" and "s \<equiv> low_bit_of (m ! low_limb m n)"
  shows "q < n" "s < 32" "lval m n = 2 ^ (32 * q + s) * lval (odd_limbs m n q s) n" "odd (lval (odd_limbs m n q s) n)"
proof -
  have "lval m n \<noteq> 0" using assms(1) by simp
  then obtain j where "j < n" "m ! j \<noteq> 0" by (auto simp: lval_def digits_zero_iff uint_0_iff)
  then have "find (\<lambda>i. m ! i \<noteq> 0) [0..<n] \<noteq> None" by (auto simp: find_None_iff)
  then obtain i where i: "find (\<lambda>i. m ! i \<noteq> 0) [0..<n] = Some i" by blast
  then have "q = i" by (simp add: q_def low_limb_def)
  then have q: "q < n" "m ! q \<noteq> 0" "\<And>i. i < q \<Longrightarrow> m ! i = 0" using i by (auto simp: find_Some_iff)
  show "q < n" by fact
  have bit: "drop_bit t w AND 1 \<noteq> 0 \<longleftrightarrow> bit w t" for t and w :: u32
    by (simp add: and_one_eq bit_iff_odd_drop_bit odd_iff_mod_2_eq_one)
  obtain t where t: "bit (m ! q) t" using q(2) bit_word_eqI [of "m ! q" 0] by auto
  then have "t < 32" using bit_imp_le_length [OF t] by simp
  with t obtain t where "t < 32" "bit (m ! q) t" by blast
  then have "find (\<lambda>s. drop_bit s (m ! q) AND 1 \<noteq> 0) [0..<32] \<noteq> None" by (auto simp: find_None_iff bit)
  then obtain k where k: "find (\<lambda>s. drop_bit s (m ! q) AND 1 \<noteq> 0) [0..<32] = Some k" by blast
  then have "s = k" by (simp add: s_def q_def low_bit_of_def)
  then have s: "s < 32" "bit (m ! q) s" "\<And>i. i < s \<Longrightarrow> \<not> bit (m ! q) i" using k by (auto simp: find_Some_iff bit)
  show "s < 32" by fact
  let ?V = "lval m n" and ?x = "uint (m ! q)"
  have "lval m q = 0" using q(3) by (simp add: lval_def digits_zero_iff)
  then have low: "?V = 2 ^ (32 * q) * (?V div 2 ^ (32 * q))"
    using lval_split [of m q "n - q"] q(1) by simp
  have x: "?x = ?V div 2 ^ (32 * q) mod 2 ^ 32" using lval_digit [OF q(1)] .
  have "take_bit s ?x = 0" using s(3) by (intro bit_eqI) (auto simp: bit_simps)
  then have xs: "?x mod 2 ^ s = 0" by (simp only: take_bit_eq_mod)
  have xo: "odd (?x div 2 ^ s)" using s bit_uint_iff [of "m ! q" s] by (simp only: bit_iff_odd) simp
  have dvd: "(2 :: int) ^ s dvd 2 ^ 32" using s(1) by (intro le_imp_power_dvd) simp
  have "?V div 2 ^ (32 * q) mod 2 ^ s = 0" using xs unfolding x mod_mod_cancel [OF dvd] .
  then have high: "?V div 2 ^ (32 * q) = 2 ^ s * (?V div 2 ^ (32 * q) div 2 ^ s)" by auto
  have dd: "?V div 2 ^ (32 * q) div 2 ^ s = ?V div 2 ^ (32 * q + s)" by (simp add: power_add zdiv_zmult2_eq)
  show "?V = 2 ^ (32 * q + s) * lval (odd_limbs m n q s) n"
    unfolding odd_limbs_value(2) [OF s(1)] dd [symmetric] using low high by (simp add: power_add mult.assoc)
  have "?x div 2 ^ s mod 2 = ?V div 2 ^ (32 * q) div 2 ^ s mod 2"
  proof -
    have "?x div 2 ^ s = ?V div 2 ^ (32 * q) div 2 ^ s mod 2 ^ (32 - s)"
      unfolding x using mod_times_div [of "2 ^ s" "2 ^ (32 - s)" "?V div 2 ^ (32 * q)"] s(1)
      by (simp flip: power_add)
    moreover have "(2 :: int) dvd 2 ^ (32 - s)" using s(1) by simp
    ultimately show ?thesis by (simp add: mod_mod_cancel)
  qed
  then show "odd (lval (odd_limbs m n q s) n)"
    using xo unfolding odd_limbs_value(2) [OF s(1)] dd odd_iff_mod_2_eq_one by (simp only:)
qed

section \<open>Even modulus\<close>

lemma combine_inverse:
  fixes A O' x1 y v h :: int
  assumes odd: "odd O'" and x1: "O' dvd x1 * A - 1" and y: "2 ^ e dvd A * y - 1" and v: "2 ^ e dvd O' * v - 1"
    and h: "2 ^ e dvd h - (y - x1) * v"
  shows "2 ^ e * O' dvd (x1 + O' * h) * A - 1"
proof -
  have "(x1 + O' * h) * A - 1 = (x1 * A - 1) + O' * (h * A)" by (simp add: algebra_simps)
  then have o: "O' dvd (x1 + O' * h) * A - 1" using x1 by (simp only: dvd_add_times_triv_right_iff dvd_add dvd_triv_left)
  have "(x1 + O' * h) * A - 1 =
      O' * (h - (y - x1) * v) * A + (O' * v - 1) * ((y - x1) * A) + (A * y - 1)"
    by (simp add: algebra_simps)
  then have e: "2 ^ e dvd (x1 + O' * h) * A - 1"
    using y v h by (metis dvd_add dvd_mult dvd_mult2)
  have "coprime (2 ^ e) O'" using odd by simp
  then show ?thesis using e o by (intro divides_mult)
qed

lemma dvd_diff_mod: "(d :: int) dvd b \<Longrightarrow> d dvd x mod b - x"
  by (metis dvd_minus_mod dvd_trans dvd_diff_commute)

lemma even_inverse_value:
  assumes n: "0 < n" "unat n < 2 ^ 26 - 1" and len: "length al = unat n" "length ml = unat n"
    and val: "even (lval ml (unat n))" "0 < lval ml (unat n)" and odd: "odd (lval al (unat n))"
  shows "\<exists>rc x. even_inverse al ml n = Some (rc, x) \<and> inv_result ml n (lval al (unat n)) rc x"
proof -
  let ?n = "unat n" and ?A = "lval al (unat n)" and ?V = "lval ml (unat n)" and ?z = "replicate (unat n) (0 :: u32)"
  define q s where "q = low_limb ml ?n" and "s = low_bit_of (ml ! q)"
  define e od where "e = 32 * q + s" and "od = odd_limbs ml ?n q s"
  define w :: u32 where "w = of_nat ((e + 31) div 32)"
  let ?w = "unat w" and ?O = "lval od ?n"
  have p: "q < ?n" "s < 32" "?V = 2 ^ e * ?O" "odd ?O"
    unfolding od_def e_def s_def q_def by (rule odd_part_of_limbs [OF val(2)])+
  have lod: "length od = ?n" by (simp add: od_def odd_limbs_def)
  have e0: "0 < e" using p(3,4) val(1) by (cases "e = 0") auto
  have "32 * q + s + 31 < (N + 1) * 32" if "q < N" for N using that p(2) by presburger
  from this [OF p(1)] have "e + 31 < (?n + 1) * 32" unfolding e_def .
  then have wn: "(e + 31) div 32 \<le> ?n" using less_mult_imp_div_less by fastforce
  have uw: "?w = (e + 31) div 32" unfolding w_def using wn n(2) by (intro of_nat_unat) simp
  have w: "?w \<le> ?n" "32 * ?w < e + 32" "e \<le> 32 * ?w" "0 < ?w" "?w < 2 ^ 26"
    subgoal using uw wn by simp
    subgoal unfolding uw by presburger
    subgoal unfolding uw by presburger
    subgoal unfolding uw using e0 by presburger
    subgoal using uw wn n(2) by simp
    done
  have w0: "0 < w" using w(4) by (simp add: word_gt_0 unat_gt_0)
  have red: "2 ^ e dvd (2 :: int) ^ (32 * ?w)" using w(3) by (rule le_imp_power_dvd)
  have low: "2 ^ e dvd lval x ?w - lval x ?n" for x
    unfolding lval_low [OF w(1)] using red by (rule dvd_diff_mod)
  have inverse_mod: "\<exists>r. bn_inv_pow2 ?z x w = Some r \<and> length r = ?n \<and> 2 ^ e dvd lval x ?n * lval r ?w - 1"
    if x: "odd (lval x ?n)" for x
  proof -
    have "odd (lval x ?w)" using x w(4) unfolding lval_low [OF w(1)] by (simp add: dvd_mod_iff)
    from pow2_value [where r = ?z, OF w0 w(5) _ this] w(1) obtain r where r: "bn_inv_pow2 ?z x w = Some r" "length r = ?n"
      "2 ^ (32 * ?w) dvd lval x ?w * lval r ?w - 1" by auto
    have "2 ^ e dvd (lval x ?w * lval r ?w - 1) - (lval x ?w - lval x ?n) * lval r ?w"
      using red r(3) low by (intro dvd_diff [OF dvd_trans [OF red r(3)]] dvd_mult2)
    then show ?thesis using r(1,2) by (simp add: left_diff_distrib)
  qed
  have keep: "length (keep_bits u ?w ?n e) = ?n" "lval (keep_bits u ?w ?n e) ?n = lval u ?w mod 2 ^ e" if "length u = ?n" for u
    using keep_bits_value [OF that w(1,2,3) e0] by simp_all
  note unf = even_inverse_def Let_def q_def [symmetric] s_def [symmetric] e_def [symmetric] od_def [symmetric] w_def [symmetric]
  show ?thesis
  proof (cases "?O = 1")
    case True
    obtain u where u: "bn_inv_pow2 ?z al w = Some u" "length u = ?n" "2 ^ e dvd ?A * lval u ?w - 1"
      using inverse_mod [OF odd] by blast
    have run: "even_inverse al ml n = Some (NOXTLS_RETURN_SUCCESS, keep_bits u ?w ?n e)"
      unfolding unf using True inv_is_one_iff [OF n(1), of od] u(1) by simp
    have "2 ^ e dvd ?A * (lval u ?w mod 2 ^ e - lval u ?w)" by (intro dvd_mult dvd_diff_mod) simp
    from dvd_add [OF this u(3)] have "2 ^ e dvd lval u ?w mod 2 ^ e * ?A - 1" by (simp add: algebra_simps)
    then have "inv_result ml n ?A NOXTLS_RETURN_SUCCESS (keep_bits u ?w ?n e)"
      unfolding inv_result_def p(3) True using odd keep [OF u(2)] by simp
    then show ?thesis using run by blast
  next
    case False
    then have O: "1 < ?O" using p(4) lval_bounds(1) [of od ?n] by (cases "?O = 0") auto
    obtain rc x1 where x1: "bn_inv_odd al od n = Some (rc, x1)" "inv_result od n ?A rc x1"
      using inv_odd_value [OF n p(4) O len(1) lod] by blast
    show ?thesis
    proof (cases "coprime ?A ?O")
      case False
      then have "rc = NOXTLS_RETURN_FAILED" using x1(2) by (simp add: inv_result_def)
      moreover have "\<not> coprime ?A ?V" using False unfolding p(3) by simp
      ultimately show ?thesis using \<open>?O \<noteq> 1\<close> inv_is_one_iff [OF n(1), of od] x1(1)
        unfolding unf by (simp add: inv_result_def)
    next
      case True
      then have ok: "rc = NOXTLS_RETURN_SUCCESS" "length x1 = ?n" "lval x1 ?n < ?O" "?O dvd lval x1 ?n * ?A - 1"
        using x1(2) by (simp_all add: inv_result_def)
      obtain u where u: "bn_inv_pow2 ?z al w = Some u" "length u = ?n" "2 ^ e dvd ?A * lval u ?w - 1"
        using inverse_mod [OF odd] by blast
      obtain v where v: "bn_inv_pow2 ?z od w = Some v" "length v = ?n" "2 ^ e dvd ?O * lval v ?w - 1"
        using inverse_mod [OF p(4)] by blast
      define x2 where "x2 = fst (bn_limbs_sub (replicate ?w 0) u x1 w)"
      have x2: "lval x2 ?w = (lval u ?w - lval x1 ?w) mod 2 ^ (32 * ?w)"
        unfolding x2_def by (rule limbs_sub_value) simp
      define t where "t = bn_inv_mul_lo u x2 v w"
      have t: "length t = ?n" "lval t ?w = lval x2 ?w * lval v ?w mod 2 ^ (32 * ?w)"
        using mul_lo_value [of w u x2 v] w(1) u(2) by (simp_all add: t_def)
      define k where "k = keep_bits t ?w ?n e"
      define h where "h = lval k ?n"
      have h: "h = lval t ?w mod 2 ^ e" "0 \<le> h" "h < 2 ^ e" using keep [OF t(1)] by (simp_all add: h_def k_def)
      have "2 ^ e dvd h - (lval u ?w - lval x1 ?n) * lval v ?w"
      proof -
        have "h = lval x2 ?w * lval v ?w mod 2 ^ e" unfolding h(1) t(2) using red by (simp add: mod_mod_cancel)
        also have "\<dots> = (lval u ?w - lval x1 ?w) * lval v ?w mod 2 ^ e"
          unfolding x2 mod_eq_dvd_iff left_diff_distrib [symmetric] using red by (intro dvd_mult2 dvd_diff_mod)
        finally have "2 ^ e dvd h - (lval u ?w - lval x1 ?w) * lval v ?w" by (simp add: dvd_diff_mod)
        moreover have "2 ^ e dvd (lval x1 ?w - lval x1 ?n) * lval v ?w" using low by (rule dvd_mult2)
        ultimately have "2 ^ e dvd (h - (lval u ?w - lval x1 ?w) * lval v ?w) - (lval x1 ?w - lval x1 ?n) * lval v ?w"
          by (rule dvd_diff)
        then show ?thesis by (simp add: algebra_simps)
      qed
      from combine_inverse [OF p(4) ok(4) u(3) v(3) this]
      have inverse: "?V dvd (lval x1 ?n + ?O * h) * ?A - 1" unfolding p(3) .
      define wide where "wide = bn_inv_mul_full (replicate (2 * ?n) 0) od n k n"
      have "lval wide (?n + ?n) = ?O * h" "lval wide ?n = lval wide (?n + ?n) mod 2 ^ (32 * ?n)"
        using mul_full_value(2) [of "replicate (2 * ?n) 0" n n od k] lval_low [of ?n "?n + ?n" wide]
        by (simp_all add: wide_def h_def mult_2)
      then have wl: "lval wide ?n = ?O * h mod 2 ^ (32 * ?n)" by simp
      have "?O * h \<le> ?O * (2 ^ e - 1)" using h O by (intro mult_left_mono) simp_all
      then have bound: "lval x1 ?n + ?O * h < ?V" using ok(3) unfolding p(3) by (simp add: algebra_simps)
      have Oh: "0 \<le> ?O * h" using h O by simp
      have "?O * h < 2 ^ (32 * ?n)" using bound lval_bounds(1) [of x1 ?n] lval_bounds(2) [of ml ?n] by linarith
      then have wv: "lval wide ?n = ?O * h" using wl Oh by simp
      define r where "r = fst (bn_inv_add x1 x1 wide n)"
      have r: "length r = ?n" "lval r ?n = (lval x1 ?n + lval wide ?n) mod 2 ^ (32 * ?n)"
        using inv_add_value [OF ok(2), of x1 wide] lval_bounds [of r ?n] by (simp_all add: r_def flip: inv_add_value(3) [OF ok(2)])
      have "lval r ?n = lval x1 ?n + ?O * h"
        unfolding r(2) wv using bound Oh lval_bounds(1) [of x1 ?n] lval_bounds(2) [of ml ?n] by (intro mod_pos_pos_trivial) linarith+
      moreover have "coprime ?A ?V" using True odd unfolding p(3) by simp
      ultimately have "inv_result ml n ?A NOXTLS_RETURN_SUCCESS r"
        unfolding inv_result_def using r(1) bound inverse by simp
      moreover have "even_inverse al ml n = Some (NOXTLS_RETURN_SUCCESS, r)"
        unfolding unf using \<open>?O \<noteq> 1\<close> inv_is_one_iff [OF n(1), of od] x1(1) ok(1) u(1) v(1)
        by (simp add: r_def wide_def k_def t_def x2_def)
      ultimately show ?thesis by blast
    qed
  qed
qed

section \<open>Any modulus\<close>

lemma any_inverse:
  assumes n: "0 < n" "unat n < 2 ^ 26 - 1" and len: "length al = unat n" "length ml = unat n"
  shows "\<exists>rc x. (if bn_inv_is_zero ml n \<noteq> 0 \<or> bn_inv_is_one ml n \<noteq> 0 then Some (NOXTLS_RETURN_FAILED, z)
      else if ml ! 0 AND 1 \<noteq> 0 then bn_inv_odd al ml n
      else if al ! 0 AND 1 = 0 then Some (NOXTLS_RETURN_FAILED, z)
      else even_inverse al ml n) = Some (rc, x) \<and>
    (if 1 < lval ml (unat n) then inv_result ml n (lval al (unat n)) rc x else rc = NOXTLS_RETURN_FAILED)"
proof -
  let ?A = "lval al (unat n)" and ?V = "lval ml (unat n)"
  have n0: "0 < unat n" using n(1) by (simp add: word_gt_0 unat_gt_0)
  have small: "bn_inv_is_zero ml n \<noteq> 0 \<or> bn_inv_is_one ml n \<noteq> 0 \<longleftrightarrow> \<not> 1 < ?V"
    unfolding inv_is_zero_iff inv_is_one_iff [OF n(1)] using lval_bounds(1) [of ml "unat n"] by auto
  note bits = low_bit [OF n0]
  consider "\<not> 1 < ?V" | "1 < ?V" "odd ?V" | "1 < ?V" "even ?V" "even ?A" | "1 < ?V" "even ?V" "odd ?A" by blast
  then show ?thesis
  proof cases
    case 1
    then show ?thesis using small by simp
  next
    case 2
    from inv_odd_value [OF n 2(2,1) len] show ?thesis unfolding small bits using 2 by simp
  next
    case 3
    then have "\<not> coprime ?A ?V" by (metis coprime_common_divisor odd_one)
    then show ?thesis unfolding small bits using 3 by (simp add: inv_result_def)
  next
    case 4
    have "0 < ?V" using 4 by simp
    from even_inverse_value [OF n len 4(2) this 4(3)] show ?thesis unfolding small bits using 4 by simp
  qed
qed

lemma alloc_all_fails: "\<not> fst (alloc_all k allocs) \<Longrightarrow> False \<in> set (take k allocs)"
proof (induction k arbitrary: allocs)
  case (Suc k)
  then show ?case using Suc.IH [of "[]"] by (cases allocs) (auto simp: split_beta)
qed simp

text \<open>
  C30. Modular inversion always returns. For a modulus above 1 to which the operand is coprime it writes
  the inverse below the modulus, unless an allocation fails; in every other case it fails and wipes the
  result. Operand and modulus may be of any lengths up to 0xFFFFFF8 bytes.
\<close>

theorem mod_inv_limbs_correct:
  assumes lens: "length a = unat a_len" "length m = unat m_len" "length result = unat m_len"
    and bounds: "0 < m_len" "a_len \<le> 0xFFFFFF8" "m_len \<le> 0xFFFFFF8"
  shows "\<exists>rc out rest. mod_inv_limbs allocs result a a_len m m_len = Some (rc, out, rest) \<and> length out = unat m_len \<and>
    (rc = NOXTLS_RETURN_SUCCESS \<and> 1 < be_value m \<and> coprime (be_value a) (be_value m) \<and>
       be_value out < be_value m \<and> be_value out * be_value a mod be_value m = 1 \<or>
     rc = NOXTLS_RETURN_FAILED \<and> \<not> (1 < be_value m \<and> coprime (be_value a) (be_value m)) \<and> be_value out = 0 \<or>
     rc = NOXTLS_RETURN_NOT_ENOUGH_MEMORY \<and> False \<in> set (take 8 allocs) \<and> be_value out = 0)"
proof -
  define l where "l = (if a_len > m_len then a_len else m_len)"
  define n where "n = (l + 3) div 4"
  have l: "a_len \<le> l" "m_len \<le> l" "l \<le> 0xFFFFFF8" using bounds by (auto simp: l_def)
  have ul: "unat a_len \<le> unat l" "unat m_len \<le> unat l" "unat l \<le> 0xFFFFFF8" using l by (simp_all add: word_le_nat_alt)
  have "l \<le> 0xFFFFFFFF - 3" using ul(3) by (simp add: word_le_nat_alt)
  note cn = limb_count [OF this, folded n_def]
  have "0 < unat m_len" using bounds(1) by (simp add: word_gt_0 unat_gt_0)
  then have "0 < unat n" using ul cn(2) by simp
  then have n0: "0 < n" by (simp add: word_gt_0 unat_gt_0)
  have nb: "unat n < 2 ^ 26 - 1" unfolding cn(1) using ul(3) by simp
  define wiped where "wiped = the (noxtls_secure_zero (Some result) (unat m_len))"
  have wiped: "wiped = replicate (unat m_len) 0" using lens(3) by (simp add: wiped_def secure_zero_all)
  then have w0: "be_value wiped = 0" "length wiped = unat m_len" by (simp_all add: be_value_zero)
  obtain ok rest where al: "alloc_all 8 allocs = (ok, rest)" by fastforce
  define A M where "A = bn_be_to_limbs (replicate (unat n) 0) n a a_len" and "M = bn_be_to_limbs (replicate (unat n) 0) n m m_len"
  have A: "length A = unat n" "lval A (unat n) = int (be_value a)"
    unfolding A_def using load_limbs(1) [OF _ lens(1)] lval_loaded [OF lens(1)] ul cn(2) by simp_all
  have M: "length M = unat n" "lval M (unat n) = int (be_value m)"
    unfolding M_def using load_limbs(1) [OF _ lens(2)] lval_loaded [OF lens(2)] ul cn(2) by simp_all
  obtain rc x where x: "(if bn_inv_is_zero M n \<noteq> 0 \<or> bn_inv_is_one M n \<noteq> 0 then Some (NOXTLS_RETURN_FAILED, replicate (unat n) 0)
      else if M ! 0 AND 1 \<noteq> 0 then bn_inv_odd A M n
      else if A ! 0 AND 1 = 0 then Some (NOXTLS_RETURN_FAILED, replicate (unat n) 0)
      else even_inverse A M n) = Some (rc, x)"
    "if 1 < be_value m then inv_result M n (int (be_value a)) rc x else rc = NOXTLS_RETURN_FAILED"
    using any_inverse [OF n0 nb A(1) M(1), of "replicate (unat n) 0"] unfolding A(2) M(2) by auto
  have run: "mod_inv_limbs allocs result a a_len m m_len =
      (if \<not> ok then Some (NOXTLS_RETURN_NOT_ENOUGH_MEMORY, wiped, rest)
       else if rc = NOXTLS_RETURN_SUCCESS then Some (rc, bn_limbs_to_be result m_len x n, rest) else Some (rc, wiped, rest))"
    unfolding mod_inv_limbs_def Let_def l_def [symmetric] n_def [symmetric] al prod.case wiped_def [symmetric]
      A_def [symmetric] M_def [symmetric] x(1) option.case prod.case by simp
  show ?thesis
  proof (cases "ok \<and> rc = NOXTLS_RETURN_SUCCESS")
    case False
    then show ?thesis using run w0 x(2) alloc_all_fails [of 8 allocs] al
      by (auto simp: inv_result_def M(2) split: if_splits)
  next
    case True
    then have m1: "1 < be_value m" and r: "inv_result M n (int (be_value a)) NOXTLS_RETURN_SUCCESS x"
      using x(2) by (auto split: if_splits)
    then have c: "coprime (be_value a) (be_value m)" "lval x (unat n) < int (be_value m)"
      "int (be_value m) dvd lval x (unat n) * int (be_value a) - 1"
      unfolding inv_result_def M(2) by (auto split: if_splits)
    define v where "v = nat (lval x (unat n))"
    have v: "lval x (unat n) = int v" using lval_bounds(1) [of x "unat n"] by (simp add: v_def)
    have vm: "v < be_value m" using c(2) unfolding v by simp
    have "be_value m < 256 ^ unat m_len" using be_value_less [of m] lens(2) by simp
    from mont_result [OF M(2) _ _ this lens(3), of x v] v vm m1
    have out: "length (bn_limbs_to_be result m_len x n) = unat m_len" "be_value (bn_limbs_to_be result m_len x n) = v"
      unfolding M(2) by simp_all
    have "int v * int (be_value a) mod int (be_value m) = 1 mod int (be_value m)"
      using c(3) unfolding v mod_eq_dvd_iff .
    then have "v * be_value a mod be_value m = 1"
    proof -
      assume e: "int v * int (be_value a) mod int (be_value m) = 1 mod int (be_value m)"
      have "1 mod int (be_value m) = int 1" using m1 by (subst mod_pos_pos_trivial) linarith+
      with e have "int (v * be_value a mod be_value m) = int 1" by (simp only: zmod_int of_nat_mult)
      then show ?thesis by (simp only: of_nat_eq_iff)
    qed
    then have "be_value (bn_limbs_to_be result m_len x n) * be_value a mod be_value m = 1" by (simp only: out(2))
    then show ?thesis using run True m1 c(1) out(1) vm unfolding out(2) [symmetric] by simp
  qed
qed

theorem mod_inv_limbs_correct_witness:
  "\<exists>out rest. mod_inv_limbs [] [0, 0] [3] 1 [0, 40] 2 = Some (NOXTLS_RETURN_SUCCESS, out, rest) \<and> be_value out * 3 mod 40 = 1"
proof -
  have v: "be_value [3] = 3" "be_value [0, 40] = 40" by (simp_all add: be_value_def)
  have "coprime (3 :: nat) 40" by (simp add: coprime_iff_gcd_eq_1 gcd_non_0_nat)
  then show ?thesis using mod_inv_limbs_correct [of "[3]" 1 "[0, 40]" 2 "[0, 0]" "[]"] unfolding v by auto
qed

end
