(* ===== verification/Merkle_Damgard.thy ===== *)
theory Merkle_Damgard
  imports Nox_Prelude
begin

text \<open>
  What the digests of \<open>mdigest/\<close> share: the context fields of \<open>noxtls_sha_md32_ctx_t\<close> and
  \<open>noxtls_sha512_ctx_t\<close>, the length field of \<open>noxtls_hash.c\<close>, the loop over whole blocks, and the
  reference they are measured against: iterate a compression function over the blocks of the
  padded message. \<open>md_holds\<close> says that a context has absorbed a message; the update and finish
  functions of every digest are proved against it.
\<close>

section \<open>Context and length field\<close>

record 'w md_ctx =
  md_h :: "'w list"
  md_length :: u64
  md_data :: bytes
  md_data_len :: u8

definition noxtls_hash_bitlen_byte :: "u64 \<Rightarrow> nat \<Rightarrow> u8" where
  "noxtls_hash_bitlen_byte bit_len i = (if i < 8 then ucast (drop_bit (8 * i) bit_len) else 0)"

definition noxtls_add_padding_length :: "bytes \<Rightarrow> nat \<Rightarrow> u64 \<Rightarrow> nat \<Rightarrow> bytes" where
  "noxtls_add_padding_length data block_size len length_size =
     (let bit_len = len * 8 in
      if block_size = 0 \<or> length_size = 0 \<or> length_size > block_size then data
      else if length_size > 8 then
        (let data = foldl (\<lambda>d i. d[block_size - length_size + i := 0]) data [0..<length_size - 8]
         in foldl (\<lambda>d i. d[block_size - 1 - i := noxtls_hash_bitlen_byte bit_len i]) data [0..<8])
      else foldl (\<lambda>d i. d[block_size - 1 - i := noxtls_hash_bitlen_byte bit_len i]) data [0..<length_size])"

definition noxtls_add_padding_length_little :: "bytes \<Rightarrow> nat \<Rightarrow> u64 \<Rightarrow> nat \<Rightarrow> bytes" where
  "noxtls_add_padding_length_little data block_size len length_size =
     (let bit_len = len * 8 in
      if block_size = 0 \<or> length_size = 0 \<or> length_size > block_size then data
      else foldl (\<lambda>d i. d[block_size - length_size + i := noxtls_hash_bitlen_byte bit_len i]) data [0..<length_size])"

section \<open>Whole blocks\<close>

text \<open>\<open>while(left >= block)\<close>: compress the next block of the input and count it. The rest is returned.\<close>

function block_loop ::
    "nat \<Rightarrow> (('w, 'z) md_ctx_scheme \<Rightarrow> bytes option \<Rightarrow> noxtls_return_t \<times> ('w, 'z) md_ctx_scheme) \<Rightarrow>
     ('w, 'z) md_ctx_scheme \<Rightarrow> bytes \<Rightarrow> noxtls_return_t \<times> ('w, 'z) md_ctx_scheme \<times> bytes" where
  "block_loop bs round_fn c d =
     (if bs = 0 \<or> length d < bs then (NOXTLS_RETURN_SUCCESS, c, d)
      else case round_fn c (Some d) of
        (rc, c) \<Rightarrow>
          if rc \<noteq> NOXTLS_RETURN_SUCCESS then (rc, c, d)
          else block_loop bs round_fn (c\<lparr>md_length := md_length c + of_nat bs\<rparr>) (drop bs d))"
  by pat_completeness auto
termination by (relation "measure (\<lambda>(bs, _, _, d). length d)") auto

declare block_loop.simps [simp del]

text \<open>Complete a pending block first; buffer what is left at the end.\<close>

definition md_fill ::
    "nat \<Rightarrow> (('w, 'z) md_ctx_scheme \<Rightarrow> bytes option \<Rightarrow> noxtls_return_t \<times> ('w, 'z) md_ctx_scheme) \<Rightarrow>
     ('w, 'z) md_ctx_scheme \<Rightarrow> bytes \<Rightarrow> noxtls_return_t \<times> ('w, 'z) md_ctx_scheme \<times> bytes" where
  "md_fill bs round_fn c d =
     (if md_data_len c > 0 then
        let space = of_nat bs - ucast (md_data_len c) :: u32;
            to_copy = (if space > of_nat (length d) then of_nat (length d) else space);
            c = c\<lparr>md_data := put_at (unat (md_data_len c)) (take (unat to_copy) d) (md_data c),
                  md_data_len := md_data_len c + ucast to_copy\<rparr>;
            d = drop (unat to_copy) d
        in if md_data_len c = of_nat bs then
             (case round_fn c (Some (md_data c)) of
                (rc, c) \<Rightarrow>
                  if rc \<noteq> NOXTLS_RETURN_SUCCESS then (rc, c, d)
                  else (NOXTLS_RETURN_SUCCESS, c\<lparr>md_length := md_length c + of_nat bs, md_data_len := 0\<rparr>, d))
           else (NOXTLS_RETURN_SUCCESS, c, d)
      else (NOXTLS_RETURN_SUCCESS, c, d))"

definition md_store :: "('w, 'z) md_ctx_scheme \<Rightarrow> bytes \<Rightarrow> ('w, 'z) md_ctx_scheme" where
  "md_store c d =
     (if d \<noteq> [] then c\<lparr>md_data := put_at 0 d (md_data c), md_data_len := of_nat (length d)\<rparr> else c)"

section \<open>Reference\<close>

function absorb :: "nat \<Rightarrow> ('h \<Rightarrow> bytes \<Rightarrow> 'h) \<Rightarrow> 'h \<Rightarrow> bytes \<Rightarrow> 'h" where
  "absorb bs f h m = (if bs = 0 \<or> length m < bs then h else absorb bs f (f h (take bs m)) (drop bs m))"
  by pat_completeness auto
termination by (relation "measure (\<lambda>(_, _, _, m). length m)") auto

declare absorb.simps [simp del]

definition whole_len :: "nat \<Rightarrow> bytes \<Rightarrow> nat" where
  "whole_len bs m = length m div bs * bs"

definition pending :: "nat \<Rightarrow> bytes \<Rightarrow> bytes" where
  "pending bs m = drop (whole_len bs m) m"

text \<open>The padded message: a one bit, zeros, and the length field, to a multiple of the block.\<close>

definition md_pad :: "nat \<Rightarrow> bytes \<Rightarrow> bytes \<Rightarrow> bytes" where
  "md_pad bs len_field m =
     m @ 0x80 # replicate ((bs - (length m + 1 + length len_field) mod bs) mod bs) 0 @ len_field"

text \<open>
  A digest uses the first n of the eight state words. A context has absorbed a message when they are the
  chaining value over its whole blocks, the buffer starts with the rest, and the length counts the blocks.
\<close>

definition lift_words :: "nat \<Rightarrow> ('w list \<Rightarrow> bytes \<Rightarrow> 'w list) \<Rightarrow> 'w list \<Rightarrow> bytes \<Rightarrow> 'w list" where
  "lift_words n f h b = f (take n h) b @ drop n h"

definition md_holds ::
    "nat \<Rightarrow> nat \<Rightarrow> ('w list \<Rightarrow> bytes \<Rightarrow> 'w list) \<Rightarrow> 'w list \<Rightarrow> ('w, 'z) md_ctx_scheme \<Rightarrow> bytes \<Rightarrow> bool" where
  "md_holds n bs f iv c m \<longleftrightarrow>
     take n (md_h c) = absorb bs f iv m \<and> length (md_h c) = 8 \<and> length (md_data c) = bs \<and>
     take (unat (md_data_len c)) (md_data c) = pending bs m \<and> unat (md_data_len c) < bs \<and>
     md_length c = of_nat (whole_len bs m)"

lemma absorb_short [simp]: "length m < bs \<Longrightarrow> absorb bs f h m = h"
  by (simp add: absorb.simps)

lemma absorb_block: "0 < bs \<Longrightarrow> bs \<le> length m \<Longrightarrow> absorb bs f h m = absorb bs f (f h (take bs m)) (drop bs m)"
  by (subst absorb.simps) simp

lemma absorb_append:
  assumes "0 < bs" "bs dvd length a"
  shows "absorb bs f h (a @ b) = absorb bs f (absorb bs f h a) b"
  using assms(2)
proof (induction "length a" arbitrary: a h rule: less_induct)
  case less
  show ?case
  proof (cases "a = []")
    case True
    then show ?thesis using assms(1) by simp
  next
    case False
    then have le: "bs \<le> length a" using less.prems by (simp add: dvd_imp_le)
    have "bs dvd length (drop bs a)" using less.prems le by simp
    from less.hyps [OF _ this, of "f h (take bs a)"] show ?thesis
      using assms(1) le by (simp add: absorb_block)
  qed
qed

lemma pending_parts:
  assumes "0 < bs"
  shows "take (whole_len bs m) m @ pending bs m = m" "length (pending bs m) < bs" "bs dvd whole_len bs m"
    "whole_len bs m \<le> length m" "length m = whole_len bs m + length (pending bs m)"
proof -
  show "take (whole_len bs m) m @ pending bs m = m" by (simp add: pending_def)
  have "length m - length m div bs * bs = length m mod bs" by (simp add: minus_div_mult_eq_mod)
  then show "length (pending bs m) < bs" using assms by (simp add: pending_def whole_len_def)
  show "bs dvd whole_len bs m" by (simp add: whole_len_def)
  show "whole_len bs m \<le> length m" by (simp add: whole_len_def)
  then show "length m = whole_len bs m + length (pending bs m)" by (simp add: pending_def)
qed

lemma absorb_pending:
  assumes "0 < bs"
  shows "absorb bs f h m = absorb bs f h (take (whole_len bs m) m)"
proof -
  note p = pending_parts [OF assms, of m]
  have "bs dvd length (take (whole_len bs m) m)" unfolding length_take min.absorb2 [OF p(4)] by (rule p(3))
  from absorb_append [OF assms this, of f h "pending bs m"] show ?thesis using p(1,2) by simp
qed

lemma absorb_more:
  assumes "0 < bs"
  shows "absorb bs f h (m @ d) = absorb bs f (absorb bs f h m) (pending bs m @ d)"
    "pending bs (m @ d) = pending bs (pending bs m @ d)"
    "whole_len bs (m @ d) = whole_len bs m + whole_len bs (pending bs m @ d)"
proof -
  note p = pending_parts [OF assms, of m]
  let ?a = "take (whole_len bs m) m"
  have m: "m @ d = ?a @ pending bs m @ d" using p(1) by (metis append.assoc)
  have a: "length ?a = whole_len bs m" using p(4) by simp
  show "absorb bs f h (m @ d) = absorb bs f (absorb bs f h m) (pending bs m @ d)"
    unfolding absorb_pending [OF assms, of f h m] by (subst m) (rule absorb_append [OF assms], unfold a, rule p(3))
  obtain k where k: "whole_len bs m = k * bs" unfolding whole_len_def by blast
  have "length (m @ d) = length (pending bs m @ d) + k * bs" using p(5) k by simp
  then have "whole_len bs (m @ d) = (length (pending bs m @ d) + k * bs) div bs * bs" by (simp only: whole_len_def)
  also have "\<dots> = (k + length (pending bs m @ d) div bs) * bs" using assms by (subst div_mult_self1) simp_all
  finally show w: "whole_len bs (m @ d) = whole_len bs m + whole_len bs (pending bs m @ d)"
    unfolding k whole_len_def [of bs "pending bs m @ d"] by (simp only: distrib_right)
  show "pending bs (m @ d) = pending bs (pending bs m @ d)"
  proof -
    have "drop (n + k) (x @ y) = drop k y" if "length x = n" for n k and x y :: bytes using that by simp
    from this [OF a] show ?thesis
      unfolding pending_def [of bs "m @ d"] pending_def [of bs "pending bs m @ d"] w by (subst m)
  qed
qed

lemma pending_short [simp]: "length m < bs \<Longrightarrow> pending bs m = m" "length m < bs \<Longrightarrow> whole_len bs m = 0"
  by (simp_all add: pending_def whole_len_def)

lemma pending_block:
  assumes "0 < bs" "bs \<le> length m"
  shows "pending bs m = pending bs (drop bs m)" "whole_len bs m = bs + whole_len bs (drop bs m)"
proof -
  have "length m div bs = Suc ((length m - bs) div bs)" using assms by (simp add: le_div_geq)
  then show "whole_len bs m = bs + whole_len bs (drop bs m)" by (simp add: whole_len_def)
  then show "pending bs m = pending bs (drop bs m)" by (simp add: pending_def add.commute)
qed

lemma absorb_lift:
  assumes "\<And>h b. length h = n \<Longrightarrow> length (f h b) = n" "n \<le> length h"
  shows "absorb bs (lift_words n f) h m = absorb bs f (take n h) m @ drop n h"
  using assms(2)
proof (induction bs "lift_words n f" h m rule: absorb.induct)
  case (1 bs h m)
  have "take n (lift_words n f h b) = f (take n h) b" "drop n (lift_words n f h b) = drop n h"
    "n \<le> length (lift_words n f h b)" for b
    using assms(1) [of "take n h" b] "1.prems" by (simp_all add: lift_words_def)
  then show ?case using 1 by (subst (1 2) absorb.simps) auto
qed

lemma length_absorb: "(\<And>h b. length h = n \<Longrightarrow> length (f h b) = n) \<Longrightarrow> length h = n \<Longrightarrow> length (absorb bs f h m) = n"
  by (induction bs f h m rule: absorb.induct) (subst absorb.simps, auto)

text \<open>What an update does to a context, and that it extends the absorbed message.\<close>

definition md_advance :: "nat \<Rightarrow> nat \<Rightarrow> ('w list \<Rightarrow> bytes \<Rightarrow> 'w list) \<Rightarrow> ('w, 'z) md_ctx_scheme \<Rightarrow> bytes \<Rightarrow> ('w, 'z) md_ctx_scheme \<Rightarrow> bool" where
  "md_advance n bs f c d c' \<longleftrightarrow>
     take n (md_h c') = absorb bs f (take n (md_h c)) d \<and> length (md_h c') = 8 \<and> length (md_data c') = bs \<and>
     take (unat (md_data_len c')) (md_data c') = pending bs d \<and> unat (md_data_len c') < bs \<and>
     md_length c' = md_length c + of_nat (whole_len bs d) \<and> md_ctx.more c' = md_ctx.more c"

lemma md_holds_advance:
  assumes "0 < bs" "md_holds n bs f iv c m" "md_advance n bs f c (take (unat (md_data_len c)) (md_data c) @ d) c'"
  shows "md_holds n bs f iv c' (m @ d)"
  using assms(2,3) absorb_more(1) [OF assms(1), of f iv m d] absorb_more(2,3) [OF assms(1), of m d]
  unfolding md_holds_def md_advance_def by simp

section \<open>The last blocks\<close>

lemma absorb_padded:
  fixes m :: bytes
  assumes bs: "length lf < bs"
  defines "p \<equiv> pending bs m"
  shows "absorb bs f iv (md_pad bs lf m) =
    (if length p + 1 + length lf \<le> bs
     then f (absorb bs f iv m) (p @ 0x80 # replicate (bs - length lf - (length p + 1)) 0 @ lf)
     else f (f (absorb bs f iv m) (p @ 0x80 # replicate (bs - (length p + 1)) 0)) (replicate (bs - length lf) 0 @ lf))"
proof -
  have b: "0 < bs" using bs by simp
  note parts = pending_parts [OF b, of m, folded p_def]
  define z where "z = (bs - (length m + 1 + length lf) mod bs) mod bs"
  have md: "(length m + 1 + length lf) mod bs = (length p + 1 + length lf) mod bs"
  proof -
    obtain k where "whole_len bs m = bs * k" using parts(3) by blast
    then have "length m + 1 + length lf = (length p + 1 + length lf) + bs * k" using parts(5) by simp
    then show ?thesis by (simp only: mod_mult_self2)
  qed
  have pad: "absorb bs f iv (md_pad bs lf m) = absorb bs f (absorb bs f iv m) (p @ 0x80 # replicate z 0 @ lf)"
    unfolding md_pad_def z_def [symmetric] p_def by (rule absorb_more(1) [OF b])
  show ?thesis
  proof (cases "length p + 1 + length lf \<le> bs")
    case True
    have z: "z = bs - length lf - (length p + 1)"
      unfolding z_def md using True b by (cases "length p + 1 + length lf = bs") auto
    let ?x = "p @ 0x80 # replicate z 0 @ lf"
    have "length ?x = bs" using True z by simp
    then show ?thesis unfolding pad using True b z by (simp add: absorb_block)
  next
    case False
    have "length p + 1 + length lf < 2 * bs" using parts(2) bs by simp
    then have "(length p + 1 + length lf) mod bs = length p + 1 + length lf - bs" using False by (simp add: mod_if)
    then have "z = bs - (length p + 1) + (bs - length lf)"
      unfolding z_def md using False parts(2) bs by simp
    then have r: "replicate z (0 :: u8) = replicate (bs - (length p + 1)) 0 @ replicate (bs - length lf) 0"
      by (simp add: replicate_add)
    let ?x = "p @ 0x80 # replicate (bs - (length p + 1)) 0" and ?y = "replicate (bs - length lf) 0 @ lf"
    have l: "length ?x = bs" "length ?y = bs" using parts(2) bs by simp_all
    have "p @ 0x80 # replicate z 0 @ lf = ?x @ ?y" unfolding r by simp
    then have "absorb bs f iv (md_pad bs lf m) = absorb bs f (absorb bs f iv m) (?x @ ?y)" unfolding pad by simp
    also have "\<dots> = absorb bs f (f (absorb bs f iv m) ?x) ?y"
      using absorb_block [OF b, of "?x @ ?y" f "absorb bs f iv m"] l(1) by (simp del: append_assoc)
    also have "\<dots> = f (f (absorb bs f iv m) ?x) ?y"
      using absorb_block [OF b, of ?y f "f (absorb bs f iv m) ?x"] l(2) b by simp
    finally show ?thesis using False by simp
  qed
qed

section \<open>Filling and storing\<close>

text \<open>The contract of a compression step: it replaces the used state words and nothing else.\<close>

definition compresses ::
    "nat \<Rightarrow> nat \<Rightarrow> ('w list \<Rightarrow> bytes \<Rightarrow> 'w list) \<Rightarrow>
     (('w, 'z) md_ctx_scheme \<Rightarrow> bytes option \<Rightarrow> noxtls_return_t \<times> ('w, 'z) md_ctx_scheme) \<Rightarrow> bool" where
  "compresses n bs f round_fn \<longleftrightarrow> 0 < bs \<and> bs \<le> 128 \<and> n \<le> 8 \<and> (\<forall>h b. length h = n \<longrightarrow> length (f h b) = n) \<and>
     (\<forall>c d. bs \<le> length d \<longrightarrow> length (md_h c) = 8 \<longrightarrow>
        round_fn c (Some d) = (NOXTLS_RETURN_SUCCESS, c\<lparr>md_h := lift_words n f (md_h c) (take bs d)\<rparr>))"

lemma compressesD:
  assumes "compresses n bs f round_fn"
  shows "0 < bs" "bs \<le> 128" "n \<le> 8" "\<And>h b. length h = n \<Longrightarrow> length (f h b) = n"
    "\<And>c d. bs \<le> length d \<Longrightarrow> length (md_h c) = 8 \<Longrightarrow>
       round_fn c (Some d) = (NOXTLS_RETURN_SUCCESS, c\<lparr>md_h := lift_words n f (md_h c) (take bs d)\<rparr>)"
  using assms unfolding compresses_def by blast+

lemma lift_words_parts:
  assumes "compresses n bs f round_fn" "length h = 8"
  shows "length (lift_words n f h b) = 8" "take n (lift_words n f h b) = f (take n h) b"
  using compressesD(3,4) [OF assms(1)] assms(2) by (simp_all add: lift_words_def)

definition md_ready :: "nat \<Rightarrow> ('w, 'z) md_ctx_scheme \<Rightarrow> bool" where
  "md_ready bs c \<longleftrightarrow> length (md_h c) = 8 \<and> length (md_data c) = bs \<and> unat (md_data_len c) < bs"

abbreviation md_buffer :: "('w, 'z) md_ctx_scheme \<Rightarrow> bytes" where
  "md_buffer c \<equiv> take (unat (md_data_len c)) (md_data c)"

lemma md_holds_ready: "0 < bs \<Longrightarrow> md_holds n bs f iv c m \<Longrightarrow> md_ready bs c"
  using pending_parts(2) [of bs m] by (simp add: md_holds_def md_ready_def)

lemma take_put_at_end: "off \<le> length buf \<Longrightarrow> off + length x \<le> length buf \<Longrightarrow> take (off + length x) (put_at off x buf) = take off buf @ x"
  by (simp add: put_at_def)

lemma loop_value:
  assumes "compresses n bs f round_fn" "length (md_h c) = 8"
  shows "block_loop bs round_fn c d =
    (NOXTLS_RETURN_SUCCESS, c\<lparr>md_h := absorb bs (lift_words n f) (md_h c) d, md_length := md_length c + of_nat (whole_len bs d)\<rparr>, pending bs d)"
  using assms(2)
proof (induction "length d" arbitrary: c d rule: less_induct)
  case less
  note k = compressesD [OF assms(1)]
  show ?case
  proof (cases "length d < bs")
    case True
    then show ?thesis by (simp add: block_loop.simps)
  next
    case False
    then have le: "bs \<le> length d" by simp
    have "length (drop bs d) < length d" using k(1) le by simp
    from less.hyps [OF this] show ?thesis
      using k(1) le k(5) [OF le less.prems] lift_words_parts(1) [OF assms(1) less.prems]
      by (subst block_loop.simps) (simp add: absorb_block pending_block add.assoc)
  qed
qed

lemma absorb_words:
  assumes "compresses n bs f round_fn" "length h = 8"
  shows "take n (absorb bs (lift_words n f) h m) = absorb bs f (take n h) m" "length (absorb bs (lift_words n f) h m) = 8"
proof -
  note k = compressesD [OF assms(1)]
  have "absorb bs (lift_words n f) h m = absorb bs f (take n h) m @ drop n h"
    using k(3,4) assms(2) by (intro absorb_lift) auto
  moreover have "length (absorb bs f (take n h) m) = n" using k(3,4) assms(2) by (intro length_absorb) auto
  ultimately show "take n (absorb bs (lift_words n f) h m) = absorb bs f (take n h) m"
    "length (absorb bs (lift_words n f) h m) = 8" using k(3) assms(2) by simp_all
qed

text \<open>Absorbing from an empty buffer: the loop and the store.\<close>

lemma loop_store_advance:
  assumes "compresses n bs f round_fn" "md_ready bs c" "md_data_len c = 0"
  shows "\<exists>c1. block_loop bs round_fn c d = (NOXTLS_RETURN_SUCCESS, c1, pending bs d) \<and>
    md_advance n bs f c d (md_store c1 (pending bs d))"
proof -
  note k = compressesD [OF assms(1)]
  have r: "length (md_h c) = 8" "length (md_data c) = bs" using assms(2) by (simp_all add: md_ready_def)
  have short: "length (pending bs d) < bs" by (rule pending_parts(2) [OF k(1)])
  have u: "unat (of_nat (length (pending bs d)) :: u8) = length (pending bs d)"
    using short k(2) by (simp add: unat_of_nat)
  show ?thesis
    unfolding loop_value [OF assms(1) r(1)] md_advance_def md_store_def
    using absorb_words [OF assms(1) r(1)] r(2) short u assms(3)
    by (auto simp: put_at_def)
qed

lemma advance_trans:
  assumes "0 < bs" "md_advance n bs f c a c1" "md_data_len c1 = 0" "md_advance n bs f c1 b c2"
  shows "md_advance n bs f c (a @ b) c2"
proof -
  have p: "pending bs a = []" using assms(2,3) by (simp add: md_advance_def)
  then show ?thesis
    using assms(2,4) absorb_more(1) [OF assms(1), of f "take n (md_h c)" a b] absorb_more(2,3) [OF assms(1), of a b]
    unfolding md_advance_def by (simp add: assms(3))
qed

lemma fill_value:
  assumes "compresses n bs f round_fn" "md_ready bs c" "length d < 2 ^ 32"
  defines "k \<equiv> min (bs - unat (md_data_len c)) (length d)"
  shows "md_data_len c = 0 \<and> md_fill bs round_fn c d = (NOXTLS_RETURN_SUCCESS, c, d) \<or>
    0 < md_data_len c \<and> (\<exists>c'. md_fill bs round_fn c d = (NOXTLS_RETURN_SUCCESS, c', drop k d) \<and> md_ready bs c' \<and>
      md_advance n bs f c (md_buffer c @ take k d) c' \<and> (k < length d \<longrightarrow> md_data_len c' = 0))"
proof (cases "md_data_len c = 0")
  case True
  then show ?thesis by (simp add: md_fill_def)
next
  case False
  let ?l = "unat (md_data_len c)"
  note b = compressesD [OF assms(1)]
  have r: "length (md_h c) = 8" "length (md_data c) = bs" "?l < bs" using assms(2) by (simp_all add: md_ready_def)
  define space where "space = (of_nat bs - ucast (md_data_len c) :: u32)"
  have sp: "unat space = bs - ?l"
  proof -
    have "unat (of_nat bs :: u32) = bs" using b(2) by (simp add: unat_of_nat)
    moreover have "unat (ucast (md_data_len c) :: u32) = ?l" by (simp add: unat_ucast_up)
    ultimately show ?thesis using r(3) unfolding space_def by (subst unat_sub_le) (simp_all add: word_le_nat_alt)
  qed
  have ud: "unat (of_nat (length d) :: u32) = length d" using assms(3) by (simp add: unat_of_nat)
  define t where "t = (if space > of_nat (length d) then of_nat (length d) else space)"
  have t: "unat t = k" using sp ud by (auto simp: t_def k_def word_less_nat_alt min_def)
  have k: "?l + k \<le> bs" "k \<le> length d" using r(3) by (simp_all add: k_def)
  let ?c = "c\<lparr>md_data := put_at ?l (take k d) (md_data c), md_data_len := md_data_len c + ucast t\<rparr>"
  have len: "unat (md_data_len c + ucast t) = ?l + k"
  proof -
    have "unat (ucast t :: u8) = k" using t k(1) b(2) by (simp add: unsigned_ucast_eq take_bit_nat_eq_self)
    then show ?thesis using k(1) b(2) by (subst unat_add_small) simp_all
  qed
  have buf: "take (?l + k) (put_at ?l (take k d) (md_data c)) = md_buffer c @ take k d"
    using take_put_at_end [of ?l "md_data c" "take k d"] k r by (simp add: min_absorb2)
  have lp: "length (put_at ?l (take k d) (md_data c)) = bs" using k r by simp
  have pos: "0 < md_data_len c" using False by (simp add: word_gt_0)
  have full: "md_data_len c + ucast t = of_nat bs \<longleftrightarrow> ?l + k = bs"
    unfolding word_unat_eq_iff len using b(2) by (simp add: unat_of_nat)
  have lb: "length (md_buffer c @ take k d) = ?l + k" using r k by simp
  have run: "md_fill bs round_fn c d =
      (if ?l + k = bs then case round_fn ?c (Some (md_data ?c)) of
         (rc, c) \<Rightarrow> if rc \<noteq> NOXTLS_RETURN_SUCCESS then (rc, c, drop k d)
                    else (NOXTLS_RETURN_SUCCESS, c\<lparr>md_length := md_length c + of_nat bs, md_data_len := 0\<rparr>, drop k d)
       else (NOXTLS_RETURN_SUCCESS, ?c, drop k d))"
    unfolding md_fill_def Let_def space_def [symmetric] t_def [symmetric] t using pos full by simp
  show ?thesis
  proof (cases "?l + k = bs")
    case True
    let ?h = "lift_words n f (md_h c) (md_buffer c @ take k d)"
    have whole: "take bs (put_at ?l (take k d) (md_data c)) = md_buffer c @ take k d" using buf unfolding True .
    have step: "round_fn ?c (Some (md_data ?c)) = (NOXTLS_RETURN_SUCCESS, ?c\<lparr>md_h := ?h\<rparr>)"
      using b(5) [of "md_data ?c" ?c] lp r(1) whole by simp
    let ?c' = "?c\<lparr>md_h := ?h, md_length := md_length c + of_nat bs, md_data_len := 0\<rparr>"
    have "md_fill bs round_fn c d = (NOXTLS_RETURN_SUCCESS, ?c', drop k d)" unfolding run step using True by simp
    moreover have "md_ready bs ?c'" using lift_words_parts(1) [OF assms(1) r(1)] lp b(1) by (simp add: md_ready_def)
    moreover have "md_advance n bs f c (md_buffer c @ take k d) ?c'"
    proof -
      have "md_advance n bs f c B (?c\<lparr>md_h := lift_words n f (md_h c) B, md_length := md_length c + of_nat bs, md_data_len := 0\<rparr>)"
        if "length B = bs" for B
        using lift_words_parts [OF assms(1) r(1), of B] lp b(1) that
        by (simp add: md_advance_def absorb_block pending_block)
      from this [OF lb [unfolded True]] show ?thesis .
    qed
    ultimately show ?thesis using pos by auto
  next
    case False
    then have kd: "k = length d" and small: "?l + k < bs" using k by (auto simp: k_def)
    have "md_ready bs ?c" using r(1) lp len small by (simp add: md_ready_def)
    moreover have "md_advance n bs f c (md_buffer c @ take k d) ?c"
      using r(1) lp len small lb buf by (simp add: md_advance_def)
    ultimately show ?thesis using run False pos kd by auto
  qed
qed

text \<open>The update shared by the digests: fill, loop, store.\<close>

lemma update_advances:
  assumes "compresses n bs f round_fn" "md_ready bs c" "length d < 2 ^ 32"
  shows "\<exists>c1 d1 c2. md_fill bs round_fn c d = (NOXTLS_RETURN_SUCCESS, c1, d1) \<and> md_ready bs c1 \<and>
    (d1 = [] \<or> md_data_len c1 = 0) \<and>
    block_loop bs round_fn c1 d1 = (NOXTLS_RETURN_SUCCESS, c2, pending bs d1) \<and>
    md_advance n bs f c (md_buffer c @ d) (md_store c2 (pending bs d1))"
proof -
  note b = compressesD [OF assms(1)]
  let ?k = "min (bs - unat (md_data_len c)) (length d)"
  from fill_value [OF assms] consider
    "md_data_len c = 0" "md_fill bs round_fn c d = (NOXTLS_RETURN_SUCCESS, c, d)"
  | c1 where "md_fill bs round_fn c d = (NOXTLS_RETURN_SUCCESS, c1, drop ?k d)" "md_ready bs c1"
      "md_advance n bs f c (md_buffer c @ take ?k d) c1" "?k < length d \<longrightarrow> md_data_len c1 = 0" by blast
  then show ?thesis
  proof cases
    case 1
    from loop_store_advance [OF assms(1,2) 1(1), of d] show ?thesis using 1 assms(2) by auto
  next
    case (2 c1)
    show ?thesis
    proof (cases "?k < length d")
      case True
      then have e: "md_data_len c1 = 0" using 2(4) by blast
      obtain c2 where c2: "block_loop bs round_fn c1 (drop ?k d) = (NOXTLS_RETURN_SUCCESS, c2, pending bs (drop ?k d))"
        "md_advance n bs f c1 (drop ?k d) (md_store c2 (pending bs (drop ?k d)))"
        using loop_store_advance [OF assms(1) 2(2) e, of "drop ?k d"] by blast
      have "md_advance n bs f c ((md_buffer c @ take ?k d) @ drop ?k d) (md_store c2 (pending bs (drop ?k d)))"
        by (rule advance_trans [OF b(1) 2(3) e c2(2)])
      then have "md_advance n bs f c (md_buffer c @ d) (md_store c2 (pending bs (drop ?k d)))" by simp
      with 2(1,2) e c2(1) show ?thesis by blast
    next
      case False
      then have d: "drop ?k d = []" "take ?k d = d" by simp_all
      have "block_loop bs round_fn c1 [] = (NOXTLS_RETURN_SUCCESS, c1, [])" using b(1) by (simp add: block_loop.simps)
      moreover have "pending bs [] = []" using b(1) by simp
      ultimately show ?thesis using 2(1-3) unfolding d by (auto simp: md_store_def)
    qed
  qed
qed

end
