(* ===== verification/Hash_Context.thy ===== *)
theory Hash_Context
  imports Merkle_Damgard Ct_Memory
begin

text \<open>
  The generic hash context of \<open>noxtls_sha.h\<close>. Of the members of its union, the two the digests
  of HMAC use are fields of the record; \<open>sha_algo\<close> says which one is live. Word loads and stores,
  and the message schedule ring the SHA digests keep.
\<close>

section \<open>Algorithms and context\<close>

definition NOXTLS_HASH_MD5 :: u32 where "NOXTLS_HASH_MD5 = 1"
definition NOXTLS_HASH_SHA1 :: u32 where "NOXTLS_HASH_SHA1 = 2"
definition NOXTLS_HASH_SHA_224 :: u32 where "NOXTLS_HASH_SHA_224 = 3"
definition NOXTLS_HASH_SHA_256 :: u32 where "NOXTLS_HASH_SHA_256 = 4"
definition NOXTLS_HASH_SHA_384 :: u32 where "NOXTLS_HASH_SHA_384 = 5"
definition NOXTLS_HASH_SHA_512 :: u32 where "NOXTLS_HASH_SHA_512 = 6"
definition NOXTLS_HASH_SHA_512_224 :: u32 where "NOXTLS_HASH_SHA_512_224 = 7"
definition NOXTLS_HASH_SHA_512_256 :: u32 where "NOXTLS_HASH_SHA_512_256 = 8"

lemmas hash_algos = NOXTLS_HASH_MD5_def NOXTLS_HASH_SHA1_def NOXTLS_HASH_SHA_224_def NOXTLS_HASH_SHA_256_def
  NOXTLS_HASH_SHA_384_def NOXTLS_HASH_SHA_512_def NOXTLS_HASH_SHA_512_224_def NOXTLS_HASH_SHA_512_256_def

record noxtls_sha512_ctx_t = "u64 md_ctx" +
  sha512_algo :: u8

record noxtls_sha_ctx_t =
  sha_algo :: u32
  md32 :: "u32 md_ctx"
  sha512_ctx :: noxtls_sha512_ctx_t

definition zero_md32 :: "u32 md_ctx" where
  "zero_md32 = \<lparr>md_h = replicate 8 0, md_length = 0, md_data = replicate 64 0, md_data_len = 0\<rparr>"

definition zero_sha512 :: noxtls_sha512_ctx_t where
  "zero_sha512 = \<lparr>md_h = replicate 8 0, md_length = 0, md_data = replicate 128 0, md_data_len = 0, sha512_algo = 0\<rparr>"

definition zero_sha_ctx :: noxtls_sha_ctx_t where
  "zero_sha_ctx = \<lparr>sha_algo = 0, md32 = zero_md32, sha512_ctx = zero_sha512\<rparr>"

section \<open>Words\<close>

definition load_be32 :: "bytes \<Rightarrow> nat \<Rightarrow> u32" where
  "load_be32 d i = push_bit 24 (ucast (d ! i)) OR push_bit 16 (ucast (d ! (i + 1))) OR
     push_bit 8 (ucast (d ! (i + 2))) OR ucast (d ! (i + 3))"

definition load_words :: "bytes \<Rightarrow> u32 list" where
  "load_words d = map (\<lambda>t. load_be32 d (4 * t)) [0..<16]"

definition store_be32 :: "bytes \<Rightarrow> nat \<Rightarrow> u32 \<Rightarrow> bytes" where
  "store_be32 out i w = out[4 * i := ucast (drop_bit 24 (w AND 0xFF000000)), 4 * i + 1 := ucast (drop_bit 16 (w AND 0x00FF0000)),
     4 * i + 2 := ucast (drop_bit 8 (w AND 0x0000FF00)), 4 * i + 3 := ucast (w AND 0x000000FF)]"

definition be32_bytes :: "u32 \<Rightarrow> bytes" where
  "be32_bytes w = [ucast (drop_bit 24 w), ucast (drop_bit 16 w), ucast (drop_bit 8 w), ucast w]"

lemma load_words_take: "64 \<le> length d \<Longrightarrow> load_words (take 64 d) = load_words d"
  by (auto simp: load_words_def load_be32_def)

lemma store_be32_value: "4 * i + 4 \<le> length out \<Longrightarrow> store_be32 out i w = put_at (4 * i) (be32_bytes w) out"
proof -
  assume l: "4 * i + 4 \<le> length out"
  have b: "ucast (drop_bit 24 (w AND 0xFF000000)) = (ucast (drop_bit 24 w) :: u8)"
    "ucast (drop_bit 16 (w AND 0x00FF0000)) = (ucast (drop_bit 16 w) :: u8)"
    "ucast (drop_bit 8 (w AND 0x0000FF00)) = (ucast (drop_bit 8 w) :: u8)"
    by (rule bit_word_eqI; auto simp: bit_simps numeral_eq_Suc)+
  show ?thesis
    unfolding store_be32_def be32_bytes_def b put_at_def
    by (rule nth_equalityI) (use l in \<open>auto simp: nth_list_update nth_append nth_Cons' intro: arg_cong [where f = "(!) out"]\<close>)
qed

text \<open>Writing n words one after the other writes their bytes in front of the rest of the buffer.\<close>

lemma store_run:
  assumes "\<And>i out. c * i + c \<le> length out \<Longrightarrow> store out i = put_at (c * i) (bs i) out" "\<And>i. length (bs i) = c"
    and "c * n \<le> length out"
  shows "foldl store out [0..<n] = concat (map bs [0..<n]) @ drop (c * n) out"
  using assms(3)
proof (induction n)
  case (Suc n)
  have l: "length (concat (map bs [0..<n])) = c * n" using assms(2) by (induction n) simp_all
  let ?x = "concat (map bs [0..<n]) @ drop (c * n) out"
  have "foldl store out [0..<Suc n] = store ?x n" using Suc by simp
  also have "\<dots> = put_at (c * n) (bs n) ?x" using Suc.prems l by (intro assms(1)) simp
  finally show ?case using l assms(2) by (simp add: put_at_def add.commute)
qed simp

section \<open>The length field\<close>

lemma bitlen_run:
  assumes "n \<le> length d" "length d = bs"
  shows "foldl (\<lambda>d i. d[bs - 1 - i := g i]) d [0..<n] = take (bs - n) d @ rev (map g [0..<n])"
  using assms(1)
proof (induction n)
  case (Suc n)
  let ?x = "take (bs - n) d @ rev (map g [0..<n])"
  obtain y where y: "take (bs - n) d = take (bs - Suc n) d @ [y]"
    using Suc.prems assms(2) take_Suc_conv_app_nth [of "bs - Suc n" d] by (auto simp: Suc_diff_Suc)
  have "bs - 1 - n = bs - Suc n" by simp
  then have "foldl (\<lambda>d i. d[bs - 1 - i := g i]) d [0..<Suc n] = (take (bs - n) d @ rev (map g [0..<n]))[bs - Suc n := g n]"
    using Suc by simp
  also have "\<dots> = take (bs - Suc n) d @ rev (map g [0..<Suc n])"
    unfolding y using Suc.prems assms(2) by (simp add: list_update_append)
  finally show ?case .
qed (simp add: assms(2))

definition len_be :: "nat \<Rightarrow> nat \<Rightarrow> bytes" where
  "len_be n v = rev (map (\<lambda>i. of_nat (v div 256 ^ i)) [0..<n])"

definition len_le :: "nat \<Rightarrow> nat \<Rightarrow> bytes" where
  "len_le n v = map (\<lambda>i. of_nat (v div 256 ^ i)) [0..<n]"

lemma length_len [simp]: "length (len_be n v) = n" "length (len_le n v) = n"
  by (simp_all add: len_be_def len_le_def)

lemma bitlen_byte:
  assumes "N < 2 ^ 61"
  shows "noxtls_hash_bitlen_byte (of_nat N * 8) i = of_nat (8 * N div 256 ^ i)"
proof -
  have "8 * N < 2 ^ 64" using assms by simp
  have w: "(of_nat N * 8 :: u64) = of_nat (8 * N)" by (simp add: mult.commute)
  have v: "unat (of_nat (8 * N) :: u64) = 8 * N" using \<open>8 * N < 2 ^ 64\<close> by (simp only: unat_of_nat) simp
  have e: "(256 :: nat) ^ i = 2 ^ (8 * i)" by (simp add: power_mult)
  show ?thesis
  proof (cases "i < 8")
    case True
    have "unat (ucast (drop_bit (8 * i) (of_nat (8 * N) :: u64)) :: u8) = 8 * N div 256 ^ i mod 256"
      unfolding unsigned_ucast_eq unsigned_drop_bit_eq v e using \<open>8 * N < 2 ^ 64\<close> by (simp add: take_bit_eq_mod drop_bit_eq_div)
    then show ?thesis unfolding w noxtls_hash_bitlen_byte_def using True by (simp add: word_unat_eq_iff unat_of_nat)
  next
    case False
    then have "(2 :: nat) ^ 64 \<le> 256 ^ i" unfolding e by (intro power_increasing) auto
    then have "8 * N div 256 ^ i = 0" using \<open>8 * N < 2 ^ 64\<close> by simp
    then show ?thesis using False by (simp add: noxtls_hash_bitlen_byte_def)
  qed
qed

lemma put_run:
  assumes "off + n \<le> length d"
  shows "foldl (\<lambda>d i. d[off + i := g i]) d [0..<n] = put_at off (map g [0..<n]) d"
  using assms
proof (induction n)
  case (Suc n)
  then show ?case by (simp add: put_at_def list_update_append Cons_nth_drop_Suc [symmetric] add.assoc)
qed (simp add: put_at_def)

lemma padding_length:
  assumes "length d = bs" "N < 2 ^ 61"
  shows "8 \<le> bs \<Longrightarrow> noxtls_add_padding_length d bs (of_nat N) 8 = take (bs - 8) d @ len_be 8 (8 * N)"
    "16 \<le> bs \<Longrightarrow> noxtls_add_padding_length d bs (of_nat N) 16 = take (bs - 16) d @ len_be 16 (8 * N)"
    "8 \<le> bs \<Longrightarrow> noxtls_add_padding_length_little d bs (of_nat N) 8 = take (bs - 8) d @ len_le 8 (8 * N)"
proof -
  show "noxtls_add_padding_length d bs (of_nat N) 8 = take (bs - 8) d @ len_be 8 (8 * N)" if "8 \<le> bs"
    unfolding noxtls_add_padding_length_def Let_def bitlen_byte [OF assms(2)] len_be_def
    using that bitlen_run [OF _ assms(1), of 8] assms(1) by simp
  show "noxtls_add_padding_length_little d bs (of_nat N) 8 = take (bs - 8) d @ len_le 8 (8 * N)" if "8 \<le> bs"
    unfolding noxtls_add_padding_length_little_def Let_def bitlen_byte [OF assms(2)] len_le_def
    using that put_run [of "bs - 8" 8 d] assms(1) by (simp add: put_at_def)
  show "noxtls_add_padding_length d bs (of_nat N) 16 = take (bs - 16) d @ len_be 16 (8 * N)" if "16 \<le> bs"
  proof -
    have z: "(of_nat (8 * N div 256 ^ i) :: u8) = 0" if "8 \<le> i" for i
    proof -
      have "(2 :: nat) ^ 64 \<le> 256 ^ i" using that power_increasing [of "8 * 8" "8 * i" "2 :: nat"] by (simp add: power_mult)
      then show ?thesis using assms(2) by simp
    qed
    have "len_be 16 (8 * N) = rev (map (\<lambda>i. of_nat (8 * N div 256 ^ i)) [8..<16]) @ len_be 8 (8 * N)"
      unfolding len_be_def by (simp add: upt_rec)
    also have "map (\<lambda>i. of_nat (8 * N div 256 ^ i)) [8..<16] = (replicate 8 0 :: bytes)"
    proof -
      have "map (\<lambda>i. of_nat (8 * N div 256 ^ i)) [8..<16] = map (\<lambda>_. 0 :: u8) [8..<16]"
        by (rule map_cong [OF refl]) (simp only: set_upt atLeastLessThan_iff z)
      then show ?thesis by (simp only: map_replicate_const length_upt) simp
    qed
    finally have l: "len_be 16 (8 * N) = replicate 8 0 @ len_be 8 (8 * N)" by simp
    have "foldl (\<lambda>d i. d[bs - 16 + i := 0]) d [0..<8] = put_at (bs - 16) (replicate 8 0) d"
      using put_run [of "bs - 16" 8 d "\<lambda>_. 0"] that assms(1) by (simp add: map_replicate_const)
    then show ?thesis
      unfolding noxtls_add_padding_length_def Let_def bitlen_byte [OF assms(2)] l
      using that bitlen_run [of 8 "put_at (bs - 16) (replicate 8 0) d" bs] assms(1)
      by (simp add: put_at_def len_be_def)
  qed
qed

text \<open>The one bit and the zeros behind the buffered bytes, in place.\<close>

definition md_put_pad :: "nat \<Rightarrow> ('w, 'z) md_ctx_scheme \<Rightarrow> nat \<Rightarrow> ('w, 'z) md_ctx_scheme" where
  "md_put_pad bs c used =
     (let c = c\<lparr>md_data := (md_data c)[used := 0x80]\<rparr>
      in if used + 1 < bs then c\<lparr>md_data := put_at (used + 1) (replicate (bs - (used + 1)) 0) (md_data c)\<rparr> else c)"

text \<open>The padded buffer, and the blocks the finish functions compress.\<close>

lemma pad_buffer:
  assumes "length data = bs" "used < bs"
  shows "put_at (used + 1) (replicate (bs - (used + 1)) 0) (data[used := 0x80]) = take used data @ 0x80 # replicate (bs - (used + 1)) (0 :: u8)"
    "used + 1 = bs \<Longrightarrow> data[used := 0x80] = take used data @ [0x80]"
  using assms upd_conv_take_nth_drop [of used data "0x80"] by (simp_all add: put_at_def)

lemma put_pad_value:
  assumes "length (md_data c) = bs" "used < bs"
  shows "md_put_pad bs c used = c\<lparr>md_data := take used (md_data c) @ 0x80 # replicate (bs - (used + 1)) 0\<rparr>"
  using pad_buffer [OF assms] assms(2) by (auto simp: md_put_pad_def Let_def)

lemma finish_blocks:
  assumes k: "compresses n bs f round_fn" and holds: "md_holds n bs f iv c m" and lf: "length lf < bs"
  defines "used \<equiv> unat (md_data_len c)" and "B \<equiv> md_buffer c @ 0x80 # replicate (bs - (unat (md_data_len c) + 1)) 0"
  shows "used + 1 + length lf \<le> bs \<Longrightarrow> absorb bs f iv (md_pad bs lf m) = f (take n (md_h c)) (take (bs - length lf) B @ lf)"
    "bs < used + 1 + length lf \<Longrightarrow> absorb bs f iv (md_pad bs lf m) = f (f (take n (md_h c)) B) (replicate (bs - length lf) 0 @ lf)"
    "length B = bs" "used < bs" "md_length c + of_nat used = of_nat (length m)"
proof -
  have h: "take n (md_h c) = absorb bs f iv m" "length (md_data c) = bs" "md_buffer c = pending bs m" "used < bs"
    "md_length c = of_nat (whole_len bs m)" using holds by (simp_all add: md_holds_def used_def)
  have l: "length (pending bs m) = used" using h(2-4) by (metis length_take min.absorb2 less_imp_le used_def)
  show "used < bs" by (rule h(4))
  show "length B = bs" using h(2,4) by (simp add: B_def used_def)
  have "length m = whole_len bs m + used" using pending_parts(5) [OF compressesD(1) [OF k], of m] unfolding l .
  then show "md_length c + of_nat used = of_nat (length m)" unfolding h(5) of_nat_add [symmetric] by (rule arg_cong [OF sym])
  have B: "B = pending bs m @ 0x80 # replicate (bs - (used + 1)) 0" unfolding B_def h(3) used_def ..
  note p = absorb_padded [OF lf, of f iv m, unfolded l h(1) [symmetric]]
  show "absorb bs f iv (md_pad bs lf m) = f (take n (md_h c)) (take (bs - length lf) B @ lf)" if "used + 1 + length lf \<le> bs"
    using p that l unfolding B by (simp add: take_Cons' min_def)
  show "absorb bs f iv (md_pad bs lf m) = f (f (take n (md_h c)) B) (replicate (bs - length lf) 0 @ lf)" if "bs < used + 1 + length lf"
    using p that unfolding B by simp
qed

definition finish_words ::
    "nat \<Rightarrow> nat \<Rightarrow> ('w list \<Rightarrow> bytes \<Rightarrow> 'w list) \<Rightarrow> nat \<Rightarrow> (bytes \<Rightarrow> bytes) \<Rightarrow> ('w, 'z) md_ctx_scheme \<Rightarrow> 'w list" where
  "finish_words n bs f ll P c =
     (let used = unat (md_data_len c); B = take used (md_data c) @ 0x80 # replicate (bs - (used + 1)) 0
      in if bs < used + 1 + ll then lift_words n f (lift_words n f (md_h c) B) (P (replicate bs 0))
         else lift_words n f (md_h c) (P B))"

lemma finish_words_length:
  "compresses n bs f round_fn \<Longrightarrow> length (md_h c) = 8 \<Longrightarrow> length (finish_words n bs f ll P c) = 8"
  by (simp add: finish_words_def Let_def lift_words_parts(1))

lemma finish_words_value:
  assumes k: "compresses n bs f round_fn" and holds: "md_holds n bs f iv c m" and lf: "length lf < bs"
    and P: "\<And>d. length d = bs \<Longrightarrow> P d = take (bs - length lf) d @ lf"
  shows "take n (finish_words n bs f (length lf) P c) = absorb bs f iv (md_pad bs lf m)"
proof -
  note fin = finish_blocks [OF k holds lf]
  have h: "length (md_h c) = 8" using holds by (simp add: md_holds_def)
  have w: "take n (lift_words n f x b) = f (take n x) b" "length (lift_words n f x b) = 8" if "length x = 8" for x b
    using lift_words_parts [OF k that] by simp_all
  show ?thesis
    using fin(1,2) P [OF fin(3)] P [of "replicate bs 0"] h
    by (auto simp: finish_words_def Let_def w not_less min_def)
qed

lemma length_padding:
  "length (noxtls_add_padding_length d bs N l) = length d" "length (noxtls_add_padding_length_little d bs N l) = length d"
proof -
  have u: "length (foldl (\<lambda>d i. d[g i := v i]) d xs) = length d" for g v and xs :: "nat list" and d :: bytes
    by (induction xs arbitrary: d) simp_all
  show "length (noxtls_add_padding_length d bs N l) = length d" "length (noxtls_add_padding_length_little d bs N l) = length d"
    by (simp_all add: noxtls_add_padding_length_def noxtls_add_padding_length_little_def Let_def u)
qed

text \<open>A hash context whose arrays have their sizes and whose buffers have room.\<close>

definition sha_wf :: "noxtls_sha_ctx_t \<Rightarrow> bool" where
  "sha_wf x \<longleftrightarrow> md_ready 64 (md32 x) \<and> md_ready 128 (sha512_ctx x)"

lemma zero_wf: "sha_wf zero_sha_ctx"
  by (simp add: sha_wf_def md_ready_def zero_sha_ctx_def zero_md32_def zero_sha512_def)

lemma md_advance_ready: "md_advance n bs f c d c' \<Longrightarrow> md_ready bs c'"
  by (simp add: md_advance_def md_ready_def)

section \<open>The schedule ring\<close>

text \<open>
  A ring of sixteen words holds the last sixteen words of a schedule W: before step t, the entries of
  t - 16 to t - 1; in the first sixteen steps, the words of the block.
\<close>

definition ring_holds :: "(nat \<Rightarrow> 'w) \<Rightarrow> 'w list \<Rightarrow> nat \<Rightarrow> bool" where
  "ring_holds W w t \<longleftrightarrow> length w = 16 \<and> (\<forall>j. j < max 16 t \<longrightarrow> t \<le> j + 16 \<longrightarrow> w ! (j mod 16) = W j)"

lemma ring_start: "(\<And>j. j < 16 \<Longrightarrow> w ! j = W j) \<Longrightarrow> length w = 16 \<Longrightarrow> ring_holds W w 0"
  by (simp add: ring_holds_def)

lemma ring_early: "ring_holds W w t \<Longrightarrow> t < 16 \<Longrightarrow> w ! (t mod 16) = W t \<and> ring_holds W w (Suc t)"
  by (auto simp: ring_holds_def max_def)

lemma ring_read: "ring_holds W w t \<Longrightarrow> 16 \<le> t \<Longrightarrow> 0 < k \<Longrightarrow> k \<le> 16 \<Longrightarrow> w ! ((t - k) mod 16) = W (t - k)"
  by (simp add: ring_holds_def)

lemma ring_oldest: "ring_holds W w t \<Longrightarrow> 16 \<le> t \<Longrightarrow> w ! (t mod 16) = W (t - 16)"
  using ring_read [of W w t 16] by (metis add_diff_cancel_right' le_add_diff_inverse2 mod_add_self2 numeral_eq_Suc order_refl zero_less_numeral)

lemma ring_write:
  assumes "ring_holds W w t" "16 \<le> t"
  shows "ring_holds W (w[t mod 16 := W t]) (Suc t)"
proof -
  have "w[t mod 16 := W t] ! (j mod 16) = W j" if "j < Suc t" "Suc t \<le> j + 16" for j
  proof (cases "j = t")
    case True
    then show ?thesis using assms by (simp add: ring_holds_def)
  next
    case False
    then have "j < t" "t < j + 16" using that by simp_all
    then have "\<not> 16 dvd t - j" by (auto dest: dvd_imp_le)
    then have "j mod 16 \<noteq> t mod 16" using \<open>j < t\<close> mod_eq_dvd_iff_nat [of j t 16] by auto
    then show ?thesis using assms \<open>j < t\<close> that by (simp add: ring_holds_def)
  qed
  then show ?thesis using assms by (simp add: ring_holds_def max_def)
qed

end
