(* ===== verification/Sha256.thy ===== *)
theory Sha256
  imports Hash_Context
begin

text \<open>
  SHA-256 and SHA-224 of \<open>noxtls_sha256.c\<close> in the default configuration: portable software rounds, unrolled
  eight at a time over a ring of sixteen schedule words, no accelerator. The reference is the
  compression function of FIPS 180-4 with its full message schedule.
\<close>

section \<open>Definitions\<close>

definition SHA_CH :: "'a::len word \<Rightarrow> 'a word \<Rightarrow> 'a word \<Rightarrow> 'a word" where
  "SHA_CH x y z = (x AND y) XOR (NOT x AND z)"

definition SHA_MAJ :: "'a::len word \<Rightarrow> 'a word \<Rightarrow> 'a word \<Rightarrow> 'a word" where
  "SHA_MAJ x y z = (x AND y) XOR (x AND z) XOR (y AND z)"

definition SHA_ROTR :: "'a::len word \<Rightarrow> nat \<Rightarrow> 'a word" where
  "SHA_ROTR x n = drop_bit n x OR push_bit (LENGTH('a) - n) x"

definition SHA_SUM_FROM_0 :: "u32 \<Rightarrow> u32" where
  "SHA_SUM_FROM_0 x = SHA_ROTR x 2 XOR SHA_ROTR x 13 XOR SHA_ROTR x 22"
definition SHA_SUM_FROM_1 :: "u32 \<Rightarrow> u32" where
  "SHA_SUM_FROM_1 x = SHA_ROTR x 6 XOR SHA_ROTR x 11 XOR SHA_ROTR x 25"
definition SHA_SIGMA_FROM_0 :: "u32 \<Rightarrow> u32" where
  "SHA_SIGMA_FROM_0 x = SHA_ROTR x 7 XOR SHA_ROTR x 18 XOR drop_bit 3 x"
definition SHA_SIGMA_FROM_1 :: "u32 \<Rightarrow> u32" where
  "SHA_SIGMA_FROM_1 x = SHA_ROTR x 17 XOR SHA_ROTR x 19 XOR drop_bit 10 x"

definition sha224_256_k :: "u32 list" where
  "sha224_256_k =
    [0x428a2f98, 0x71374491, 0xb5c0fbcf, 0xe9b5dba5, 0x3956c25b, 0x59f111f1, 0x923f82a4, 0xab1c5ed5,
     0xd807aa98, 0x12835b01, 0x243185be, 0x550c7dc3, 0x72be5d74, 0x80deb1fe, 0x9bdc06a7, 0xc19bf174,
     0xe49b69c1, 0xefbe4786, 0x0fc19dc6, 0x240ca1cc, 0x2de92c6f, 0x4a7484aa, 0x5cb0a9dc, 0x76f988da,
     0x983e5152, 0xa831c66d, 0xb00327c8, 0xbf597fc7, 0xc6e00bf3, 0xd5a79147, 0x06ca6351, 0x14292967,
     0x27b70a85, 0x2e1b2138, 0x4d2c6dfc, 0x53380d13, 0x650a7354, 0x766a0abb, 0x81c2c92e, 0x92722c85,
     0xa2bfe8a1, 0xa81a664b, 0xc24b8b70, 0xc76c51a3, 0xd192e819, 0xd6990624, 0xf40e3585, 0x106aa070,
     0x19a4c116, 0x1e376c08, 0x2748774c, 0x34b0bcb5, 0x391c0cb3, 0x4ed8aa4a, 0x5b9cca4f, 0x682e6ff3,
     0x748f82ee, 0x78a5636f, 0x84c87814, 0x8cc70208, 0x90befffa, 0xa4506ceb, 0xbef9a3f7, 0xc67178f2]"

definition sha256_h0 :: "u32 list" where
  "sha256_h0 = [0x6a09e667, 0xbb67ae85, 0x3c6ef372, 0xa54ff53a, 0x510e527f, 0x9b05688c, 0x1f83d9ab, 0x5be0cd19]"
definition sha224_h0 :: "u32 list" where
  "sha224_h0 = [0xc1059ed8, 0x367cd507, 0x3070dd17, 0xf70e5939, 0xffc00b31, 0x68581511, 0x64f98fa7, 0xbefa4fa4]"

text \<open>The eight schedule words of one pass; from step 16 on each is computed and written to the ring.\<close>

definition sha256_wt :: "nat \<Rightarrow> u32 list \<times> u32 list \<Rightarrow> nat \<Rightarrow> u32 list \<times> u32 list" where
  "sha256_wt t = (\<lambda>(wt, w) i.
     if t < 16 then (wt @ [w ! ((t + i) mod 16)], w)
     else
       let x = SHA_SIGMA_FROM_1 (w ! ((t + i - 2) mod 16)) + w ! ((t + i - 7) mod 16) +
               SHA_SIGMA_FROM_0 (w ! ((t + i - 15) mod 16)) + w ! ((t + i) mod 16)
       in (wt @ [x], w[(t + i) mod 16 := x]))"

definition sha256_soft_step ::
    "u32 \<Rightarrow> u32 \<Rightarrow> u32 \<Rightarrow> u32 \<Rightarrow> u32 \<Rightarrow> u32 \<Rightarrow> u32 \<Rightarrow> u32 \<Rightarrow> u32 \<Rightarrow> u32 \<Rightarrow> u32 \<times> u32" where
  "sha256_soft_step a b c d e f g h wt kt =
     (let t1 = h + SHA_SUM_FROM_1 e + SHA_CH e f g + kt + wt;
          t2 = SHA_SUM_FROM_0 a + SHA_MAJ a b c
      in (d + t1, t1 + t2))"

type_synonym 'w eight = "'w \<times> 'w \<times> 'w \<times> 'w \<times> 'w \<times> 'w \<times> 'w \<times> 'w"

definition sha256_pass :: "u32 eight \<times> u32 list \<Rightarrow> nat \<Rightarrow> u32 eight \<times> u32 list" where
  "sha256_pass = (\<lambda>((a, b, c, d, e, f, g, h), w) t.
     let (wt, w) = foldl (sha256_wt t) ([], w) [0..<8];
          (d, h) = sha256_soft_step a b c d e f g h (wt ! 0) (sha224_256_k ! (t + 0));
          (c, g) = sha256_soft_step h a b c d e f g (wt ! 1) (sha224_256_k ! (t + 1));
          (b, f) = sha256_soft_step g h a b c d e f (wt ! 2) (sha224_256_k ! (t + 2));
          (a, e) = sha256_soft_step f g h a b c d e (wt ! 3) (sha224_256_k ! (t + 3));
          (h, d) = sha256_soft_step e f g h a b c d (wt ! 4) (sha224_256_k ! (t + 4));
          (g, c) = sha256_soft_step d e f g h a b c (wt ! 5) (sha224_256_k ! (t + 5));
          (f, b) = sha256_soft_step c d e f g h a b (wt ! 6) (sha224_256_k ! (t + 6));
          (e, a) = sha256_soft_step b c d e f g h a (wt ! 7) (sha224_256_k ! (t + 7))
     in ((a, b, c, d, e, f, g, h), w))"

definition add_eight :: "'w::len word list \<Rightarrow> 'w word eight \<Rightarrow> 'w word list" where
  "add_eight hs = (\<lambda>(a, b, c, d, e, f, g, h).
     [hs ! 0 + a, hs ! 1 + b, hs ! 2 + c, hs ! 3 + d, hs ! 4 + e, hs ! 5 + f, hs ! 6 + g, hs ! 7 + h])"

definition eight_of :: "'w list \<Rightarrow> 'w eight" where
  "eight_of hs = (hs ! 0, hs ! 1, hs ! 2, hs ! 3, hs ! 4, hs ! 5, hs ! 6, hs ! 7)"

definition noxtls_sha256_round_software :: "u32 md_ctx \<Rightarrow> bytes option \<Rightarrow> noxtls_return_t \<times> u32 md_ctx" where
  "noxtls_sha256_round_software c input =
     (case input of
        None \<Rightarrow> (NOXTLS_RETURN_NULL, c)
      | Some d \<Rightarrow>
          let (v, w) = foldl sha256_pass (eight_of (md_h c), load_words d) (map (\<lambda>i. 8 * i) [0..<8])
          in (NOXTLS_RETURN_SUCCESS, c\<lparr>md_h := add_eight (md_h c) v\<rparr>))"

definition noxtls_sha256_round :: "u32 md_ctx \<Rightarrow> bytes option \<Rightarrow> noxtls_return_t \<times> u32 md_ctx" where
  "noxtls_sha256_round c input =
     (if input = None then (NOXTLS_RETURN_NULL, c) else noxtls_sha256_round_software c input)"

fun noxtls_sha256_blocks_software :: "u32 md_ctx \<Rightarrow> bytes \<Rightarrow> nat \<Rightarrow> noxtls_return_t \<times> u32 md_ctx" where
  "noxtls_sha256_blocks_software c input 0 = (NOXTLS_RETURN_SUCCESS, c)"
| "noxtls_sha256_blocks_software c input (Suc n) =
     (case noxtls_sha256_round_software c (Some input) of
        (rc, c) \<Rightarrow> if rc \<noteq> NOXTLS_RETURN_SUCCESS then (rc, c)
                   else noxtls_sha256_blocks_software c (drop 64 input) n)"

definition noxtls_sha256_init :: "noxtls_sha_ctx_t option \<Rightarrow> u32 \<Rightarrow> noxtls_return_t \<times> noxtls_sha_ctx_t option" where
  "noxtls_sha256_init ctx algo =
     (case ctx of
        None \<Rightarrow> (NOXTLS_RETURN_NULL, None)
      | Some x \<Rightarrow>
          let x = x\<lparr>sha_algo := algo\<rparr>; c = md32 x in
          if algo = NOXTLS_HASH_SHA_256 \<or> algo = NOXTLS_HASH_SHA_224 then
            (NOXTLS_RETURN_SUCCESS,
             Some (x\<lparr>md32 := c\<lparr>md_h := (if algo = NOXTLS_HASH_SHA_256 then sha256_h0 else sha224_h0),
               md_data := the (noxtls_secure_zero (Some (md_data c)) 64), md_data_len := 0, md_length := 0\<rparr>\<rparr>))
          else (NOXTLS_RETURN_INVALID_ALGORITHM, Some x))"

definition sha256_update_ctx :: "u32 md_ctx \<Rightarrow> bytes \<Rightarrow> noxtls_return_t \<times> u32 md_ctx" where
  "sha256_update_ctx c data =
     (case md_fill 64 noxtls_sha256_round c data of
        (rc, c, d) \<Rightarrow>
          if rc \<noteq> NOXTLS_RETURN_SUCCESS then (rc, c)
          else if length d \<ge> 64 then
            (let full_blocks = length d div 64; full_bytes = full_blocks * 64 in
             case noxtls_sha256_blocks_software c d full_blocks of
               (rc, c) \<Rightarrow>
                 if rc \<noteq> NOXTLS_RETURN_SUCCESS then (rc, c)
                 else (NOXTLS_RETURN_SUCCESS,
                   md_store (c\<lparr>md_length := md_length c + of_nat full_bytes\<rparr>) (drop full_bytes d)))
          else (NOXTLS_RETURN_SUCCESS, md_store c d))"

definition noxtls_sha256_update ::
    "noxtls_sha_ctx_t option \<Rightarrow> bytes option \<Rightarrow> u32 \<Rightarrow> noxtls_return_t \<times> noxtls_sha_ctx_t option" where
  "noxtls_sha256_update ctx data len =
     (case ctx of
        None \<Rightarrow> (NOXTLS_RETURN_NULL, None)
      | Some x \<Rightarrow>
          if data = None \<or> len = 0 then (NOXTLS_RETURN_SUCCESS, ctx)
          else case sha256_update_ctx (md32 x) (take (unat len) (the data)) of
            (rc, c) \<Rightarrow> (rc, Some (x\<lparr>md32 := c\<rparr>)))"

text \<open>Padding in place: one block, or two when the length does not fit behind the one bit.\<close>

definition sha256_pad_blocks :: "u32 md_ctx \<Rightarrow> noxtls_return_t \<times> u32 md_ctx" where
  "sha256_pad_blocks c =
     (let used = unat (md_data_len c);
          total_length = md_length c + of_nat used;
          c = md_put_pad 64 c used;
          (rc, c) = (if used + 1 > 64 - 8 then
                       (case noxtls_sha256_round c (Some (md_data c)) of
                          (rc, c) \<Rightarrow>
                            let c = (if rc = NOXTLS_RETURN_SUCCESS then c\<lparr>md_length := md_length c + 64\<rparr> else c)
                            in (rc, c\<lparr>md_data := replicate 64 0\<rparr>))
                     else (NOXTLS_RETURN_SUCCESS, c));
          (rc, c) = (if rc = NOXTLS_RETURN_SUCCESS then
                       (let c = c\<lparr>md_data := noxtls_add_padding_length (md_data c) 64 total_length 8\<rparr> in
                        case noxtls_sha256_round c (Some (md_data c)) of
                          (rc, c) \<Rightarrow>
                            (rc, if rc = NOXTLS_RETURN_SUCCESS then c\<lparr>md_length := md_length c + 64\<rparr> else c))
                     else (rc, c))
      in (rc, c\<lparr>md_data := replicate 64 0, md_data_len := 0\<rparr>))"

definition noxtls_sha256_finish ::
    "noxtls_sha_ctx_t option \<Rightarrow> bytes option \<Rightarrow> noxtls_return_t \<times> noxtls_sha_ctx_t option \<times> bytes option" where
  "noxtls_sha256_finish ctx hash =
     (case (ctx, hash) of
        (Some x, Some out) \<Rightarrow>
          let used = ucast (md_data_len (md32 x)) :: u32 in
          if used \<ge> 64 then (NOXTLS_RETURN_FAILED, Some zero_sha_ctx, noxtls_secure_zero (Some out) 32)
          else
            (case sha256_pad_blocks (md32 x) of
               (rc, c) \<Rightarrow>
                 let x = x\<lparr>md32 := c\<rparr>; alg_sz = (if sha_algo x = NOXTLS_HASH_SHA_224 then 7 else 8) in
                 if rc \<noteq> NOXTLS_RETURN_SUCCESS
                   then (rc, Some zero_sha_ctx, noxtls_secure_zero (Some out) (alg_sz * 4))
                 else (rc, Some x, Some (foldl (\<lambda>out i. store_be32 out i (md_h c ! i)) out [0..<alg_sz])))
      | _ \<Rightarrow> (NOXTLS_RETURN_NULL, ctx, hash))"

definition noxtls_sha256_verify :: "noxtls_sha_ctx_t \<Rightarrow> bytes option \<Rightarrow> u32 \<Rightarrow> bytes option \<Rightarrow> noxtls_return_t" where
  "noxtls_sha256_verify stack data len expected =
     (let (hrc, ctx) = noxtls_sha256_init (Some stack) NOXTLS_HASH_SHA_256;
          (hrc, ctx) = (if hrc = NOXTLS_RETURN_SUCCESS then noxtls_sha256_update ctx data len else (hrc, ctx));
          (hrc, ctx, hash) = (if hrc = NOXTLS_RETURN_SUCCESS then noxtls_sha256_finish ctx (Some (replicate 32 0))
                              else (hrc, ctx, Some (replicate 32 0)))
      in if hrc = NOXTLS_RETURN_SUCCESS \<and> noxtls_ct_equal hash expected 32 \<noteq> 0
         then NOXTLS_RETURN_SUCCESS else NOXTLS_RETURN_FAILED)"

definition noxtls_sha224_verify :: "noxtls_sha_ctx_t \<Rightarrow> bytes option \<Rightarrow> u32 \<Rightarrow> bytes option \<Rightarrow> noxtls_return_t" where
  "noxtls_sha224_verify stack data len expected =
     (let (hrc, ctx) = noxtls_sha256_init (Some stack) NOXTLS_HASH_SHA_224;
          (hrc, ctx) = (if hrc = NOXTLS_RETURN_SUCCESS then noxtls_sha256_update ctx data len else (hrc, ctx));
          (hrc, ctx, hash) = (if hrc = NOXTLS_RETURN_SUCCESS then noxtls_sha256_finish ctx (Some (replicate 32 0))
                              else (hrc, ctx, Some (replicate 32 0)))
      in if hrc = NOXTLS_RETURN_SUCCESS \<and> noxtls_ct_equal hash expected 28 \<noteq> 0
         then NOXTLS_RETURN_SUCCESS else NOXTLS_RETURN_FAILED)"

section \<open>Reference\<close>

text \<open>FIPS 180-4: the schedule of one block, the round, the compression function, the padded message.\<close>

fun sha2_W :: "('a::len word \<Rightarrow> 'a word) \<Rightarrow> ('a word \<Rightarrow> 'a word) \<Rightarrow> (nat \<Rightarrow> 'a word) \<Rightarrow> nat \<Rightarrow> 'a word" where
  "sha2_W s0 s1 M t =
     (if t < 16 then M t
      else s1 (sha2_W s0 s1 M (t - 2)) + sha2_W s0 s1 M (t - 7) + s0 (sha2_W s0 s1 M (t - 15)) + sha2_W s0 s1 M (t - 16))"

declare sha2_W.simps [simp del]

definition sha2_round ::
    "('a::len word \<Rightarrow> 'a word) \<Rightarrow> ('a word \<Rightarrow> 'a word) \<Rightarrow> (nat \<Rightarrow> 'a word) \<Rightarrow> (nat \<Rightarrow> 'a word) \<Rightarrow> 'a word eight \<Rightarrow> nat \<Rightarrow> 'a word eight" where
  "sha2_round S0 S1 K W = (\<lambda>(a, b, c, d, e, f, g, h) t.
     let T1 = h + S1 e + SHA_CH e f g + K t + W t; T2 = S0 a + SHA_MAJ a b c
     in (T1 + T2, a, b, c, d + T1, e, f, g))"

definition fips_sha256_compress :: "u32 list \<Rightarrow> bytes \<Rightarrow> u32 list" where
  "fips_sha256_compress hs d =
     add_eight hs (foldl (sha2_round SHA_SUM_FROM_0 SHA_SUM_FROM_1 (nth sha224_256_k)
       (sha2_W SHA_SIGMA_FROM_0 SHA_SIGMA_FROM_1 (nth (load_words d)))) (eight_of hs) [0..<64])"

definition fips_sha256 :: "bytes \<Rightarrow> bytes" where
  "fips_sha256 m = concat (map be32_bytes (absorb 64 fips_sha256_compress sha256_h0 (md_pad 64 (len_be 8 (8 * length m)) m)))"

definition fips_sha224 :: "bytes \<Rightarrow> bytes" where
  "fips_sha224 m = concat (map be32_bytes (take 7 (absorb 64 fips_sha256_compress sha224_h0 (md_pad 64 (len_be 8 (8 * length m)) m))))"

section \<open>The unrolled rounds over the ring are the rounds over the schedule\<close>

abbreviation "sha256_W d \<equiv> sha2_W SHA_SIGMA_FROM_0 SHA_SIGMA_FROM_1 (nth (load_words d))"
abbreviation "sha256_rounds d \<equiv> foldl (sha2_round SHA_SUM_FROM_0 SHA_SUM_FROM_1 (nth sha224_256_k) (sha256_W d))"

lemma sha2_ring_start: "length ws = 16 \<Longrightarrow> ring_holds (sha2_W s0 s1 (nth ws)) ws 0"
  by (rule ring_start) (simp_all add: sha2_W.simps)

lemma sha2_ring_next:
  assumes "ring_holds (sha2_W s0 s1 M) w t" "16 \<le> t"
  shows "s1 (w ! ((t - 2) mod 16)) + w ! ((t - 7) mod 16) + s0 (w ! ((t - 15) mod 16)) + w ! (t mod 16) = sha2_W s0 s1 M t"
  using assms ring_oldest [OF assms] by (subst sha2_W.simps) (simp add: ring_read [OF assms])

lemma wt_run:
  assumes "ring_holds (sha256_W d) w t" "8 dvd t" "k \<le> 8"
  shows "\<exists>w'. foldl (sha256_wt t) ([], w) [0..<k] = (map (\<lambda>i. sha256_W d (t + i)) [0..<k], w') \<and> ring_holds (sha256_W d) w' (t + k)"
  using assms(3)
proof (induction k)
  case 0
  then show ?case using assms(1) by simp
next
  case (Suc k)
  then obtain w' where w: "foldl (sha256_wt t) ([], w) [0..<k] = (map (\<lambda>i. sha256_W d (t + i)) [0..<k], w')"
    "ring_holds (sha256_W d) w' (t + k)" by auto
  show ?case
  proof (cases "t < 16")
    case True
    with assms(2) have "t = 0 \<or> t = 8" by (elim dvdE) auto
    then have "t + k < 16" using Suc.prems by auto
    from ring_early [OF w(2) this] show ?thesis using w True by (simp add: sha256_wt_def)
  next
    case False
    let ?x = "SHA_SIGMA_FROM_1 (w' ! ((t + k - 2) mod 16)) + w' ! ((t + k - 7) mod 16) +
      SHA_SIGMA_FROM_0 (w' ! ((t + k - 15) mod 16)) + w' ! ((t + k) mod 16)"
    have "16 \<le> t + k" using False by simp
    then have x: "?x = sha256_W d (t + k)" "ring_holds (sha256_W d) (w'[(t + k) mod 16 := sha256_W d (t + k)]) (Suc (t + k))"
      using sha2_ring_next [OF w(2)] ring_write [OF w(2)] by blast+
    have "sha256_wt t (map (\<lambda>i. sha256_W d (t + i)) [0..<k], w') k =
        (map (\<lambda>i. sha256_W d (t + i)) [0..<k] @ [?x], w'[(t + k) mod 16 := ?x])"
      using False by (simp only: sha256_wt_def prod.case if_False Let_def)
    then show ?thesis using w(1) x by simp
  qed
qed

lemma soft_round:
  "sha2_round SHA_SUM_FROM_0 SHA_SUM_FROM_1 K W (a, b, c, d, e, f, g, h) t =
     (case sha256_soft_step a b c d e f g h (W t) (K t) of (d', h') \<Rightarrow> (h', a, b, c, d', e, f, g))"
  by (simp add: sha2_round_def sha256_soft_step_def Let_def)

lemma pass_value:
  assumes "ring_holds (sha256_W d) w t" "8 dvd t"
  shows "\<exists>w'. sha256_pass (v, w) t = (sha256_rounds d v [t..<t + 8], w') \<and> ring_holds (sha256_W d) w' (t + 8)"
proof -
  obtain w' where w: "foldl (sha256_wt t) ([], w) [0..<8] = (map (\<lambda>i. sha256_W d (t + i)) [0..<8], w')"
    "ring_holds (sha256_W d) w' (t + 8)" using wt_run [OF assms, of 8] by auto
  have up: "[t..<t + 8] = [t + 0, t + 1, t + 2, t + 3, t + 4, t + 5, t + 6, t + 7]" by (simp add: upt_rec)
  have wt: "map (\<lambda>i. sha256_W d (t + i)) [0..<8] ! i = sha256_W d (t + i)" if "i < 8" for i using that by simp
  obtain a b c d' e f g h where v: "v = (a, b, c, d', e, f, g, h)" by (cases v) auto
  have "sha256_pass (v, w) t = (sha256_rounds d v [t..<t + 8], w')"
    unfolding v sha256_pass_def prod.case w(1) Let_def up foldl_Cons foldl_Nil
    by (simp add: wt soft_round split: prod.splits del: upt_Suc)
  with w(2) show ?thesis by blast
qed

lemma passes_value:
  assumes "length (load_words d) = 16"
  shows "\<exists>w'. foldl sha256_pass (v, load_words d) (map (\<lambda>i. 8 * i) [0..<k]) = (sha256_rounds d v [0..<8 * k], w') \<and>
    ring_holds (sha256_W d) w' (8 * k)"
proof (induction k)
  case 0
  then show ?case using sha2_ring_start [OF assms] by simp
next
  case (Suc k)
  then obtain w where w: "foldl sha256_pass (v, load_words d) (map (\<lambda>i. 8 * i) [0..<k]) = (sha256_rounds d v [0..<8 * k], w)"
    "ring_holds (sha256_W d) w (8 * k)" by blast
  obtain w' where w': "sha256_pass (sha256_rounds d v [0..<8 * k], w) (8 * k) =
      (sha256_rounds d (sha256_rounds d v [0..<8 * k]) [8 * k..<8 * k + 8], w')" "ring_holds (sha256_W d) w' (8 * k + 8)"
    using pass_value [OF w(2), of "sha256_rounds d v [0..<8 * k]"] by auto
  have "[0..<8 * Suc k] = [0..<8 * k] @ [8 * k..<8 * k + 8]" using upt_add_eq_append [of 0 "8 * k" 8] by (simp add: add.commute)
  then show ?case using w(1) w' by (simp add: add.commute)
qed

lemma sha256_compresses: "compresses 8 64 fips_sha256_compress noxtls_sha256_round"
proof -
  have lw: "length (load_words d) = 16" for d by (simp add: load_words_def)
  have "noxtls_sha256_round c (Some d) = (NOXTLS_RETURN_SUCCESS, c\<lparr>md_h := lift_words 8 fips_sha256_compress (md_h c) (take 64 d)\<rparr>)"
    if "64 \<le> length d" "length (md_h c) = 8" for c d
    using passes_value [OF lw, of "eight_of (md_h c)" d 8] that
    by (auto simp: noxtls_sha256_round_def noxtls_sha256_round_software_def lift_words_def fips_sha256_compress_def load_words_take)
  then show ?thesis unfolding compresses_def by (auto simp: fips_sha256_compress_def add_eight_def split: prod.splits)
qed

section \<open>Padding and the contexts\<close>

lemma sha256_pad_value:
  assumes "md_ready 64 c"
  shows "\<exists>c'. sha256_pad_blocks c = (NOXTLS_RETURN_SUCCESS, c') \<and> md_ready 64 c' \<and>
    md_h c' = finish_words 8 64 fips_sha256_compress 8
      (\<lambda>d. noxtls_add_padding_length d 64 (md_length c + of_nat (unat (md_data_len c))) 8) c"
proof -
  define used where "used = unat (md_data_len c)"
  define B where "B = take used (md_data c) @ 0x80 # replicate (64 - (used + 1)) 0"
  have h: "length (md_h c) = 8" "length (md_data c) = 64" "used < 64" using assms by (simp_all add: md_ready_def used_def)
  have data: "md_put_pad 64 c used = c\<lparr>md_data := B\<rparr>" unfolding B_def by (rule put_pad_value [OF h(2,3)])
  have B: "length B = 64" using h by (simp add: B_def)
  note round = compressesD(5) [OF sha256_compresses]
  note words = lift_words_parts(1) [OF sha256_compresses]
  show ?thesis
    unfolding sha256_pad_blocks_def finish_words_def Let_def used_def [symmetric] data B_def [symmetric]
    using h B round words by (cases "used + 1 > 64 - 8") (simp_all add: md_ready_def length_padding)
qed

lemma sha256_init_value:
  assumes "sha_wf x" "algo = NOXTLS_HASH_SHA_256 \<and> iv = sha256_h0 \<or> algo = NOXTLS_HASH_SHA_224 \<and> iv = sha224_h0"
  shows "\<exists>c. noxtls_sha256_init (Some x) algo = (NOXTLS_RETURN_SUCCESS, Some (x\<lparr>sha_algo := algo, md32 := c\<rparr>)) \<and>
    md_holds 8 64 fips_sha256_compress iv c []"
  using assms by (auto simp: noxtls_sha256_init_def Let_def md_holds_def sha_wf_def md_ready_def secure_zero_all
    sha256_h0_def sha224_h0_def hash_algos)

lemma sha256_update_value:
  assumes "md_ready 64 c" "length d < 2 ^ 32"
  shows "\<exists>c'. sha256_update_ctx c d = (NOXTLS_RETURN_SUCCESS, c') \<and> md_advance 8 64 fips_sha256_compress c (md_buffer c @ d) c'"
proof -
  obtain c1 d1 c2 where u: "md_fill 64 noxtls_sha256_round c d = (NOXTLS_RETURN_SUCCESS, c1, d1)" "md_ready 64 c1"
    "block_loop 64 noxtls_sha256_round c1 d1 = (NOXTLS_RETURN_SUCCESS, c2, pending 64 d1)"
    "md_advance 8 64 fips_sha256_compress c (md_buffer c @ d) (md_store c2 (pending 64 d1))"
    using update_advances [OF sha256_compresses assms] by blast
  have blocks: "noxtls_sha256_blocks_software c d n =
      (NOXTLS_RETURN_SUCCESS, c\<lparr>md_h := absorb 64 (lift_words 8 fips_sha256_compress) (md_h c) (take (64 * n) d)\<rparr>)"
    if "64 * n \<le> length d" "length (md_h c) = 8" for c d n
    using that
  proof (induction n arbitrary: c d)
    case (Suc n)
    have s: "noxtls_sha256_round_software c (Some d) =
        (NOXTLS_RETURN_SUCCESS, c\<lparr>md_h := lift_words 8 fips_sha256_compress (md_h c) (take 64 d)\<rparr>)"
      using compressesD(5) [OF sha256_compresses, of d c] Suc.prems by (simp add: noxtls_sha256_round_def)
    have "64 * n \<le> length (drop 64 d)" using Suc.prems by simp
    from Suc.IH [OF this, of "c\<lparr>md_h := lift_words 8 fips_sha256_compress (md_h c) (take 64 d)\<rparr>"]
    have "noxtls_sha256_blocks_software c d (Suc n) = (NOXTLS_RETURN_SUCCESS, c\<lparr>md_h := absorb 64 (lift_words 8 fips_sha256_compress)
        (lift_words 8 fips_sha256_compress (md_h c) (take 64 d)) (take (64 * n) (drop 64 d))\<rparr>)"
      using s lift_words_parts(1) [OF sha256_compresses Suc.prems(2)] by simp
    moreover have "take 64 (take (64 * Suc n) d) = take 64 d" "drop 64 (take (64 * Suc n) d) = take (64 * n) (drop 64 d)"
      by (simp_all add: drop_take)
    ultimately show ?case
      using absorb_block [of 64 "take (64 * Suc n) d" "lift_words 8 fips_sha256_compress" "md_h c"] Suc.prems(1)
      by (simp only:) simp
  qed simp
  have l1: "length (md_h c1) = 8" using u(2) by (simp add: md_ready_def)
  have c2: "c2 = c1\<lparr>md_h := absorb 64 (lift_words 8 fips_sha256_compress) (md_h c1) d1, md_length := md_length c1 + of_nat (whole_len 64 d1)\<rparr>"
    using u(3) loop_value [OF sha256_compresses l1] by simp
  have whole: "absorb 64 (lift_words 8 fips_sha256_compress) (md_h c1) (take (64 * (length d1 div 64)) d1) =
      absorb 64 (lift_words 8 fips_sha256_compress) (md_h c1) d1"
    using absorb_pending [of 64 "lift_words 8 fips_sha256_compress" "md_h c1" d1] by (simp add: whole_len_def mult.commute)
  have "sha256_update_ctx c d = (NOXTLS_RETURN_SUCCESS, md_store c2 (pending 64 d1))"
  proof (cases "64 \<le> length d1")
    case True
    have b: "noxtls_sha256_blocks_software c1 d1 (length d1 div 64) =
        (NOXTLS_RETURN_SUCCESS, c1\<lparr>md_h := absorb 64 (lift_words 8 fips_sha256_compress) (md_h c1) d1\<rparr>)"
      using blocks [OF _ l1, of "length d1 div 64" d1] unfolding whole by simp
    show ?thesis
      unfolding sha256_update_ctx_def u(1) prod.case Let_def b c2 whole_len_def pending_def using True by simp
  next
    case False
    then have "c2 = c1" by (simp add: c2)
    then show ?thesis using u(1) False by (simp add: sha256_update_ctx_def)
  qed
  then show ?thesis using u(4) by blast
qed

end
