(* ===== verification/Sha512.thy ===== *)
theory Sha512
  imports Sha256
begin

text \<open>
  SHA-512, SHA-384, SHA-512/224 and SHA-512/256 of \<open>noxtls_sha512.c\<close> in the default configuration (no block
  hook): rolled rounds over a ring of sixteen schedule words, against FIPS 180-4.
\<close>

section \<open>Definitions\<close>

definition SHA512_SUM_FROM_0 :: "u64 \<Rightarrow> u64" where
  "SHA512_SUM_FROM_0 x = SHA_ROTR x 28 XOR SHA_ROTR x 34 XOR SHA_ROTR x 39"
definition SHA512_SUM_FROM_1 :: "u64 \<Rightarrow> u64" where
  "SHA512_SUM_FROM_1 x = SHA_ROTR x 14 XOR SHA_ROTR x 18 XOR SHA_ROTR x 41"
definition SHA512_SIGMA_FROM_0 :: "u64 \<Rightarrow> u64" where
  "SHA512_SIGMA_FROM_0 x = SHA_ROTR x 1 XOR SHA_ROTR x 8 XOR drop_bit 7 x"
definition SHA512_SIGMA_FROM_1 :: "u64 \<Rightarrow> u64" where
  "SHA512_SIGMA_FROM_1 x = SHA_ROTR x 19 XOR SHA_ROTR x 61 XOR drop_bit 6 x"

definition sha512_k :: "u64 list" where
  "sha512_k =
    [0x428a2f98d728ae22, 0x7137449123ef65cd, 0xb5c0fbcfec4d3b2f, 0xe9b5dba58189dbbc,
     0x3956c25bf348b538, 0x59f111f1b605d019, 0x923f82a4af194f9b, 0xab1c5ed5da6d8118,
     0xd807aa98a3030242, 0x12835b0145706fbe, 0x243185be4ee4b28c, 0x550c7dc3d5ffb4e2,
     0x72be5d74f27b896f, 0x80deb1fe3b1696b1, 0x9bdc06a725c71235, 0xc19bf174cf692694,
     0xe49b69c19ef14ad2, 0xefbe4786384f25e3, 0x0fc19dc68b8cd5b5, 0x240ca1cc77ac9c65,
     0x2de92c6f592b0275, 0x4a7484aa6ea6e483, 0x5cb0a9dcbd41fbd4, 0x76f988da831153b5,
     0x983e5152ee66dfab, 0xa831c66d2db43210, 0xb00327c898fb213f, 0xbf597fc7beef0ee4,
     0xc6e00bf33da88fc2, 0xd5a79147930aa725, 0x06ca6351e003826f, 0x142929670a0e6e70,
     0x27b70a8546d22ffc, 0x2e1b21385c26c926, 0x4d2c6dfc5ac42aed, 0x53380d139d95b3df,
     0x650a73548baf63de, 0x766a0abb3c77b2a8, 0x81c2c92e47edaee6, 0x92722c851482353b,
     0xa2bfe8a14cf10364, 0xa81a664bbc423001, 0xc24b8b70d0f89791, 0xc76c51a30654be30,
     0xd192e819d6ef5218, 0xd69906245565a910, 0xf40e35855771202a, 0x106aa07032bbd1b8,
     0x19a4c116b8d2d0c8, 0x1e376c085141ab53, 0x2748774cdf8eeb99, 0x34b0bcb5e19b48a8,
     0x391c0cb3c5c95a63, 0x4ed8aa4ae3418acb, 0x5b9cca4f7763e373, 0x682e6ff3d6b2b8a3,
     0x748f82ee5defb2fc, 0x78a5636f43172f60, 0x84c87814a1f0ab72, 0x8cc702081a6439ec,
     0x90befffa23631e28, 0xa4506cebde82bde9, 0xbef9a3f7b2c67915, 0xc67178f2e372532b,
     0xca273eceea26619c, 0xd186b8c721c0c207, 0xeada7dd6cde0eb1e, 0xf57d4f7fee6ed178,
     0x06f067aa72176fba, 0x0a637dc5a2c898a6, 0x113f9804bef90dae, 0x1b710b35131c471b,
     0x28db77f523047d84, 0x32caab7b40c72493, 0x3c9ebe0a15c9bebc, 0x431d67c49c100d4c,
     0x4cc5d4becb3e42b6, 0x597f299cfc657e2a, 0x5fcb6fab3ad6faec, 0x6c44198c4a475817]"

definition sha512_h0 :: "u64 list" where
  "sha512_h0 = [0x6a09e667f3bcc908, 0xbb67ae8584caa73b, 0x3c6ef372fe94f82b, 0xa54ff53a5f1d36f1, 0x510e527fade682d1, 0x9b05688c2b3e6c1f, 0x1f83d9abfb41bd6b, 0x5be0cd19137e2179]"
definition sha384_h0 :: "u64 list" where
  "sha384_h0 = [0xcbbb9d5dc1059ed8, 0x629a292a367cd507, 0x9159015a3070dd17, 0x152fecd8f70e5939, 0x67332667ffc00b31, 0x8eb44a8768581511, 0xdb0c2e0d64f98fa7, 0x47b5481dbefa4fa4]"
definition sha512_224_h0 :: "u64 list" where
  "sha512_224_h0 = [0x8c3d37c819544da2, 0x73e1996689dcd4d6, 0x1dfab7ae32ff9c82, 0x679dd514582f9fcf, 0x0f6d2b697bd44da8, 0x77e36f7304c48942, 0x3f9d85a86a1d36c8, 0x1112e6ad91d692a1]"
definition sha512_256_h0 :: "u64 list" where
  "sha512_256_h0 = [0x22312194fc2bf72c, 0x9f555fa3c84c64c2, 0x2393b86b6f53b151, 0x963877195940eabd, 0x96283ee2a88effe3, 0xbe5e1e2553863992, 0x2b0199fc2c85b8aa, 0x0eb72ddc81c52ca2]"

definition load_be64 :: "bytes \<Rightarrow> nat \<Rightarrow> u64" where
  "load_be64 d i = push_bit 56 (ucast (d ! i)) OR push_bit 48 (ucast (d ! (i + 1))) OR
     push_bit 40 (ucast (d ! (i + 2))) OR push_bit 32 (ucast (d ! (i + 3))) OR push_bit 24 (ucast (d ! (i + 4))) OR
     push_bit 16 (ucast (d ! (i + 5))) OR push_bit 8 (ucast (d ! (i + 6))) OR ucast (d ! (i + 7))"

definition load_words64 :: "bytes \<Rightarrow> u64 list" where
  "load_words64 d = map (\<lambda>t. load_be64 d (8 * t)) [0..<16]"

definition sha512_step :: "u64 eight \<times> u64 list \<Rightarrow> nat \<Rightarrow> u64 eight \<times> u64 list" where
  "sha512_step = (\<lambda>((a, b, c, d, e, f, g, h), w) t.
     let (wt, w) =
           (if t < 16 then (w ! t, w)
            else
              let s1 = SHA512_SIGMA_FROM_1 (w ! ((t - 2) mod 16)); s0 = SHA512_SIGMA_FROM_0 (w ! ((t - 15) mod 16));
                  wt = s1 + w ! ((t - 7) mod 16) + s0 + w ! (t mod 16)
              in (wt, w[t mod 16 := wt]));
         t1 = h + SHA512_SUM_FROM_1 e + SHA_CH e f g + sha512_k ! t + wt;
         t2 = SHA512_SUM_FROM_0 a + SHA_MAJ a b c
     in ((t1 + t2, a, b, c, d + t1, e, f, g), w))"

definition noxtls_sha512_round ::
    "noxtls_sha512_ctx_t \<Rightarrow> bytes option \<Rightarrow> noxtls_return_t \<times> noxtls_sha512_ctx_t" where
  "noxtls_sha512_round c input =
     (let (v, w) = foldl sha512_step (eight_of (md_h c), load_words64 (the input)) [0..<80]
      in (NOXTLS_RETURN_SUCCESS, c\<lparr>md_h := add_eight (md_h c) v\<rparr>))"

definition noxtls_sha512_init ::
    "noxtls_sha512_ctx_t option \<Rightarrow> u32 \<Rightarrow> noxtls_return_t \<times> noxtls_sha512_ctx_t option" where
  "noxtls_sha512_init ctx algo =
     (case ctx of
        None \<Rightarrow> (NOXTLS_RETURN_NULL, None)
      | Some c \<Rightarrow>
          let c = c\<lparr>sha512_algo := ucast algo\<rparr>;
              start = (\<lambda>h. (NOXTLS_RETURN_SUCCESS,
                Some (c\<lparr>md_h := h, md_data := the (noxtls_secure_zero (Some (md_data c)) 128), md_data_len := 0, md_length := 0\<rparr>)))
          in if ucast (sha512_algo c) = NOXTLS_HASH_SHA_512 then start sha512_h0
             else if ucast (sha512_algo c) = NOXTLS_HASH_SHA_384 then start sha384_h0
             else if ucast (sha512_algo c) = NOXTLS_HASH_SHA_512_224 then start sha512_224_h0
             else if ucast (sha512_algo c) = NOXTLS_HASH_SHA_512_256 then start sha512_256_h0
             else (NOXTLS_RETURN_INVALID_ALGORITHM, Some c))"

definition noxtls_sha512_update ::
    "noxtls_sha512_ctx_t option \<Rightarrow> bytes option \<Rightarrow> u32 \<Rightarrow> noxtls_return_t \<times> noxtls_sha512_ctx_t option" where
  "noxtls_sha512_update ctx data len =
     (case ctx of
        None \<Rightarrow> (NOXTLS_RETURN_NULL, None)
      | Some c \<Rightarrow>
          if data = None \<or> len = 0 then (NOXTLS_RETURN_SUCCESS, ctx)
          else case md_fill 128 noxtls_sha512_round c (take (unat len) (the data)) of
            (rc, c, d) \<Rightarrow>
              if rc \<noteq> NOXTLS_RETURN_SUCCESS then (rc, Some c)
              else case block_loop 128 noxtls_sha512_round c d of
                (rc, c, d) \<Rightarrow>
                  if rc \<noteq> NOXTLS_RETURN_SUCCESS then (rc, Some c) else (NOXTLS_RETURN_SUCCESS, Some (md_store c d)))"

definition sha512_pad_blocks :: "noxtls_sha512_ctx_t \<Rightarrow> noxtls_return_t \<times> noxtls_sha512_ctx_t" where
  "sha512_pad_blocks c =
     (let used = unat (md_data_len c);
          total_length = md_length c + of_nat used;
          c = md_put_pad 128 c used;
          (rc, c) = (if used + 1 > 128 - 16 then
                       (case noxtls_sha512_round c (Some (md_data c)) of
                          (rc, c) \<Rightarrow> (rc, c\<lparr>md_data := replicate 128 0\<rparr>))
                     else (NOXTLS_RETURN_SUCCESS, c));
          (rc, c) = (if rc = NOXTLS_RETURN_SUCCESS then
                       (let c = c\<lparr>md_data := noxtls_add_padding_length (md_data c) 128 total_length 16\<rparr> in
                        noxtls_sha512_round c (Some (md_data c)))
                     else (rc, c))
      in (rc, c\<lparr>md_data := replicate 128 0, md_data_len := 0\<rparr>))"

definition sha512_digest_len :: "u8 \<Rightarrow> nat" where
  "sha512_digest_len algo =
     (if ucast algo = NOXTLS_HASH_SHA_384 then 48 else if ucast algo = NOXTLS_HASH_SHA_512_224 then 28
      else if ucast algo = NOXTLS_HASH_SHA_512_256 then 32 else 64)"

definition noxtls_sha512_finish ::
    "noxtls_sha512_ctx_t option \<Rightarrow> bytes option \<Rightarrow> noxtls_return_t \<times> noxtls_sha512_ctx_t option \<times> bytes option" where
  "noxtls_sha512_finish ctx hash =
     (case (ctx, hash) of
        (Some c, Some out) \<Rightarrow>
          let used = ucast (md_data_len c) :: u32 in
          if used \<ge> 128 then (NOXTLS_RETURN_FAILED, Some zero_sha512, noxtls_secure_zero (Some out) 64)
          else
            (case sha512_pad_blocks c of
               (rc, c) \<Rightarrow>
                 let digest_len = sha512_digest_len (sha512_algo c) in
                 if rc \<noteq> NOXTLS_RETURN_SUCCESS then (rc, Some zero_sha512, noxtls_secure_zero (Some out) digest_len)
                 else (rc, Some c,
                   Some (foldl (\<lambda>out i. out[i := ucast (drop_bit (56 - 8 * (i mod 8)) (md_h c ! (i div 8)))]) out [0..<digest_len])))
      | _ \<Rightarrow> (NOXTLS_RETURN_NULL, ctx, hash))"

definition noxtls_sha512_verify :: "noxtls_sha512_ctx_t \<Rightarrow> bytes option \<Rightarrow> u32 \<Rightarrow> bytes option \<Rightarrow> noxtls_return_t" where
  "noxtls_sha512_verify stack data len expected =
     (let (hrc, ctx) = noxtls_sha512_init (Some stack) NOXTLS_HASH_SHA_512;
          (hrc, ctx) = (if hrc = NOXTLS_RETURN_SUCCESS then noxtls_sha512_update ctx data len else (hrc, ctx));
          (hrc, ctx, hash) = (if hrc = NOXTLS_RETURN_SUCCESS then noxtls_sha512_finish ctx (Some (replicate 64 0))
                              else (hrc, ctx, Some (replicate 64 0)))
      in if hrc = NOXTLS_RETURN_SUCCESS \<and> noxtls_ct_equal hash expected 64 \<noteq> 0
         then NOXTLS_RETURN_SUCCESS else NOXTLS_RETURN_FAILED)"

section \<open>Reference\<close>

definition be64_bytes :: "u64 \<Rightarrow> bytes" where
  "be64_bytes w = map (\<lambda>k. ucast (drop_bit (56 - 8 * k) w)) [0..<8]"

definition fips_sha512_compress :: "u64 list \<Rightarrow> bytes \<Rightarrow> u64 list" where
  "fips_sha512_compress hs d =
     add_eight hs (foldl (sha2_round SHA512_SUM_FROM_0 SHA512_SUM_FROM_1 (nth sha512_k)
       (sha2_W SHA512_SIGMA_FROM_0 SHA512_SIGMA_FROM_1 (nth (load_words64 d)))) (eight_of hs) [0..<80])"

text \<open>The digest is the first len bytes of the last chaining value.\<close>

definition fips_sha512_family :: "u64 list \<Rightarrow> nat \<Rightarrow> bytes \<Rightarrow> bytes" where
  "fips_sha512_family iv len m =
     take len (concat (map be64_bytes (absorb 128 fips_sha512_compress iv (md_pad 128 (len_be 16 (8 * length m)) m))))"

section \<open>The rounds\<close>

abbreviation "sha512_W d \<equiv> sha2_W SHA512_SIGMA_FROM_0 SHA512_SIGMA_FROM_1 (nth (load_words64 d))"
abbreviation "sha512_rounds d \<equiv> foldl (sha2_round SHA512_SUM_FROM_0 SHA512_SUM_FROM_1 (nth sha512_k) (sha512_W d))"

lemma sha512_step_value:
  assumes "ring_holds (sha512_W d) w t"
  shows "\<exists>w'. sha512_step (v, w) t = (sha2_round SHA512_SUM_FROM_0 SHA512_SUM_FROM_1 (nth sha512_k) (sha512_W d) v t, w') \<and>
    ring_holds (sha512_W d) w' (Suc t)"
proof -
  obtain a b c d' e f g h where v: "v = (a, b, c, d', e, f, g, h)" by (cases v) auto
  show ?thesis
  proof (cases "t < 16")
    case True
    from ring_early [OF assms this] True show ?thesis by (simp add: v sha512_step_def sha2_round_def Let_def)
  next
    case False
    then have t: "16 \<le> t" by simp
    show ?thesis using False sha2_ring_next [OF assms t] ring_write [OF assms t]
      by (simp add: v sha512_step_def sha2_round_def Let_def)
  qed
qed

lemma sha512_steps:
  "\<exists>w'. foldl sha512_step (v, load_words64 d) [0..<k] = (sha512_rounds d v [0..<k], w') \<and> ring_holds (sha512_W d) w' k"
proof (induction k)
  case 0
  then show ?case using sha2_ring_start [of "load_words64 d"] by (simp add: load_words64_def)
next
  case (Suc k)
  then obtain w where w: "foldl sha512_step (v, load_words64 d) [0..<k] = (sha512_rounds d v [0..<k], w)"
    "ring_holds (sha512_W d) w k" by blast
  from sha512_step_value [OF w(2), of "sha512_rounds d v [0..<k]"] show ?case using w(1) by auto
qed

lemma load_words64_take: "128 \<le> length d \<Longrightarrow> load_words64 (take 128 d) = load_words64 d"
  by (auto simp: load_words64_def load_be64_def)

lemma sha512_compresses: "compresses 8 128 fips_sha512_compress noxtls_sha512_round"
proof -
  have "noxtls_sha512_round c (Some d) = (NOXTLS_RETURN_SUCCESS, c\<lparr>md_h := lift_words 8 fips_sha512_compress (md_h c) (take 128 d)\<rparr>)"
    if "128 \<le> length d" "length (md_h c) = 8" for c d
    using sha512_steps [of "eight_of (md_h c)" d 80] that
    by (auto simp: noxtls_sha512_round_def lift_words_def fips_sha512_compress_def load_words64_take)
  then show ?thesis unfolding compresses_def by (auto simp: fips_sha512_compress_def add_eight_def split: prod.splits)
qed

lemma sha512_pad_value:
  assumes "md_ready 128 c"
  shows "\<exists>c'. sha512_pad_blocks c = (NOXTLS_RETURN_SUCCESS, c') \<and> md_ready 128 c' \<and> sha512_algo c' = sha512_algo c \<and>
    md_h c' = finish_words 8 128 fips_sha512_compress 16
      (\<lambda>d. noxtls_add_padding_length d 128 (md_length c + of_nat (unat (md_data_len c))) 16) c"
proof -
  define used where "used = unat (md_data_len c)"
  define B where "B = take used (md_data c) @ 0x80 # replicate (128 - (used + 1)) 0"
  have h: "length (md_h c) = 8" "length (md_data c) = 128" "used < 128" using assms by (simp_all add: md_ready_def used_def)
  have data: "md_put_pad 128 c used = c\<lparr>md_data := B\<rparr>" unfolding B_def by (rule put_pad_value [OF h(2,3)])
  have B: "length B = 128" using h by (simp add: B_def)
  note round = compressesD(5) [OF sha512_compresses]
  note words = lift_words_parts(1) [OF sha512_compresses]
  show ?thesis
    unfolding sha512_pad_blocks_def finish_words_def Let_def used_def [symmetric] data B_def [symmetric]
    using h B round words by (cases "used + 1 > 128 - 16") (simp_all add: md_ready_def length_padding)
qed

lemma sha512_update_value:
  assumes "md_ready 128 c" "length d = unat len"
  shows "\<exists>c'. noxtls_sha512_update (Some c) (Some d) len = (NOXTLS_RETURN_SUCCESS, Some c') \<and>
    md_advance 8 128 fips_sha512_compress c (md_buffer c @ d) c'"
proof (cases "len = 0")
  case True
  then show ?thesis using assms by (simp add: noxtls_sha512_update_def md_advance_def md_ready_def)
next
  case False
  have "length d < 2 ^ 32" using assms(2) unsigned_less [of len] by simp
  from update_advances [OF sha512_compresses assms(1) this] False assms(2) show ?thesis
    by (auto simp: noxtls_sha512_update_def)
qed

end
