(* ===== verification/Sha1.thy ===== *)
theory Sha1
  imports Sha256
begin

text \<open>
  SHA-1 of \<open>noxtls_sha1.c\<close>: rounds over a ring of sixteen words, an update with an early return, and a finish
  that counts its padding in bits. The reference is FIPS 180-4.
\<close>

section \<open>Definitions\<close>

definition SHA_PARITY :: "u32 \<Rightarrow> u32 \<Rightarrow> u32 \<Rightarrow> u32" where
  "SHA_PARITY x y z = x XOR y XOR z"

definition SHA_ROTL :: "u32 \<Rightarrow> nat \<Rightarrow> u32" where
  "SHA_ROTL x n = push_bit (n mod 32) x OR drop_bit ((32 - n) mod 32) x"

type_synonym 'w five = "'w \<times> 'w \<times> 'w \<times> 'w \<times> 'w"

definition sha1_step :: "u32 five \<times> u32 list \<Rightarrow> nat \<Rightarrow> u32 five \<times> u32 list" where
  "sha1_step = (\<lambda>((a, b, c, d, e), w) t.
     let (wt, w) =
           (if t < 16 then (w ! t, w)
            else let wt = SHA_ROTL (w ! ((t - 3) mod 16) XOR w ! ((t - 8) mod 16) XOR w ! ((t - 14) mod 16) XOR w ! (t mod 16)) 1
                 in (wt, w[t mod 16 := wt]));
         (sha1_k, ft) =
           (if t \<le> 19 then (0x5A827999, SHA_CH b c d)
            else if t \<le> 39 then (0x6ED9EBA1, SHA_PARITY b c d)
            else if t \<le> 59 then (0x8F1BBCDC, SHA_MAJ b c d)
            else (0xCA62C1D6, SHA_PARITY b c d));
         T = SHA_ROTL a 5 + ft + e + sha1_k + wt
     in ((T, a, SHA_ROTL b 30, c, d), w))"

definition noxtls_sha1_round :: "u32 md_ctx \<Rightarrow> bytes option \<Rightarrow> noxtls_return_t \<times> u32 md_ctx" where
  "noxtls_sha1_round ctx input =
     (case input of
        None \<Rightarrow> (NOXTLS_RETURN_NULL, ctx)
      | Some blk \<Rightarrow>
          let h = md_h ctx;
              ((a, b, c, d, e), w) = foldl sha1_step ((h ! 0, h ! 1, h ! 2, h ! 3, h ! 4), load_words blk) [0..<80]
          in (NOXTLS_RETURN_SUCCESS, ctx\<lparr>md_h := h[0 := h ! 0 + a, 1 := h ! 1 + b, 2 := h ! 2 + c, 3 := h ! 3 + d, 4 := h ! 4 + e]\<rparr>))"

definition noxtls_sha1_init :: "noxtls_sha_ctx_t option \<Rightarrow> u32 \<Rightarrow> noxtls_return_t \<times> noxtls_sha_ctx_t option" where
  "noxtls_sha1_init ctx algo =
     (case ctx of
        None \<Rightarrow> (NOXTLS_RETURN_NULL, None)
      | Some x \<Rightarrow>
          let x = x\<lparr>sha_algo := algo\<rparr>; c = md32 x in
          if algo = NOXTLS_HASH_SHA1 then
            (NOXTLS_RETURN_SUCCESS,
             Some (x\<lparr>md32 := c\<lparr>md_h := (md_h c)[0 := 0x67452301, 1 := 0xefcdab89, 2 := 0x98badcfe, 3 := 0x10325476, 4 := 0xc3d2e1f0],
               md_data := the (noxtls_secure_zero (Some (md_data c)) 64), md_data_len := 0, md_length := 0\<rparr>\<rparr>))
          else (NOXTLS_RETURN_INVALID_ALGORITHM, Some x))"

definition sha1_update_rest :: "u32 md_ctx \<Rightarrow> bytes \<Rightarrow> noxtls_return_t \<times> u32 md_ctx" where
  "sha1_update_rest c d =
     (case block_loop 64 noxtls_sha1_round c d of
        (rc, c, d) \<Rightarrow> if rc \<noteq> NOXTLS_RETURN_SUCCESS then (rc, c) else (NOXTLS_RETURN_SUCCESS, md_store c d))"

definition sha1_update_ctx :: "u32 md_ctx \<Rightarrow> bytes \<Rightarrow> noxtls_return_t \<times> u32 md_ctx" where
  "sha1_update_ctx c data =
     (if md_data_len c > 0 then
        let space = 64 - ucast (md_data_len c) :: u32 in
        if of_nat (length data) < space then
          (NOXTLS_RETURN_SUCCESS,
           c\<lparr>md_data := put_at (unat (md_data_len c)) data (md_data c), md_data_len := md_data_len c + of_nat (length data)\<rparr>)
        else
          let c = c\<lparr>md_data := put_at (unat (md_data_len c)) (take (unat space) data) (md_data c)\<rparr> in
          (case noxtls_sha1_round c (Some (md_data c)) of
             (rc, c) \<Rightarrow>
               if rc \<noteq> NOXTLS_RETURN_SUCCESS then (rc, c)
               else sha1_update_rest (c\<lparr>md_length := md_length c + 64, md_data_len := 0\<rparr>) (drop (unat space) data))
      else sha1_update_rest c data)"

definition noxtls_sha1_update ::
    "noxtls_sha_ctx_t option \<Rightarrow> bytes option \<Rightarrow> u32 \<Rightarrow> noxtls_return_t \<times> noxtls_sha_ctx_t option" where
  "noxtls_sha1_update ctx data len =
     (case ctx of
        None \<Rightarrow> (NOXTLS_RETURN_NULL, None)
      | Some x \<Rightarrow>
          if data = None then (NOXTLS_RETURN_NULL, ctx)
          else case sha1_update_ctx (md32 x) (take (unat len) (the data)) of
            (rc, c) \<Rightarrow> (rc, Some (x\<lparr>md32 := c\<rparr>)))"

definition sha1_store_bitlen_be :: "bytes \<Rightarrow> nat \<Rightarrow> u64 \<Rightarrow> bytes" where
  "sha1_store_bitlen_be blk i total_bits =
     blk[i + 0 := ucast (drop_bit 56 (total_bits AND 0xFF00000000000000)), i + 1 := ucast (drop_bit 48 (total_bits AND 0x00FF000000000000)),
         i + 2 := ucast (drop_bit 40 (total_bits AND 0x0000FF0000000000)), i + 3 := ucast (drop_bit 32 (total_bits AND 0x000000FF00000000)),
         i + 4 := ucast (drop_bit 24 (total_bits AND 0x00000000FF000000)), i + 5 := ucast (drop_bit 16 (total_bits AND 0x0000000000FF0000)),
         i + 6 := ucast (drop_bit 8 (total_bits AND 0x000000000000FF00)), i + 7 := ucast (total_bits AND 0x00000000000000FF)]"

definition sha1_finish_two_blocks :: "u32 md_ctx \<Rightarrow> nat \<Rightarrow> nat \<Rightarrow> nat \<Rightarrow> u64 \<Rightarrow> noxtls_return_t \<times> u32 md_ctx" where
  "sha1_finish_two_blocks c len space_for_padding length_index total_bits =
     (let (rc, c, zero_padding_first) =
            (if len * 8 \<noteq> 512 then
               let c = md_put_pad 64 c len
               in (case noxtls_sha1_round c (Some (md_data c)) of (rc, c) \<Rightarrow> (rc, c, space_for_padding - 1))
             else (case noxtls_sha1_round c (Some (md_data c)) of (rc, c) \<Rightarrow> (rc, c, 0)))
      in if rc \<noteq> NOXTLS_RETURN_SUCCESS then (rc, c)
         else
           let d = (if zero_padding_first = 0 then (replicate 64 0)[0 := 0x80] else replicate 64 0);
               c = c\<lparr>md_data := sha1_store_bitlen_be d length_index total_bits\<rparr>
           in noxtls_sha1_round c (Some (md_data c)))"

definition sha1_finish_one_block :: "u32 md_ctx \<Rightarrow> nat \<Rightarrow> nat \<Rightarrow> u64 \<Rightarrow> noxtls_return_t \<times> u32 md_ctx" where
  "sha1_finish_one_block c space_for_padding length_index total_bits =
     (let pad_byte_idx = 64 - space_for_padding div 8;
          zero_count = length_index - (pad_byte_idx + 1);
          d = (md_data c)[pad_byte_idx := 0x80];
          d = (if zero_count > 0 then put_at (pad_byte_idx + 1) (replicate zero_count 0) d else d);
          c = c\<lparr>md_data := sha1_store_bitlen_be d length_index total_bits\<rparr>
      in noxtls_sha1_round c (Some (md_data c)))"

definition sha1_pad_blocks :: "u32 md_ctx \<Rightarrow> noxtls_return_t \<times> u32 md_ctx" where
  "sha1_pad_blocks c =
     (let (len, total_length, c) =
            (if md_data_len c > 0 then (unat (md_data_len c), md_length c + ucast (md_data_len c), c)
             else (0, md_length c, c\<lparr>md_data := the (noxtls_secure_zero (Some (md_data c)) 64)\<rparr>));
          space_for_padding = 512 - (len * 8) mod 512; total_bits = total_length * 8
      in if space_for_padding < (8 + 1) * 8 then sha1_finish_two_blocks c len space_for_padding (64 - 8) total_bits
         else sha1_finish_one_block c space_for_padding (64 - 8) total_bits)"

definition noxtls_sha1_finish ::
    "noxtls_sha_ctx_t option \<Rightarrow> bytes option \<Rightarrow> noxtls_return_t \<times> noxtls_sha_ctx_t option \<times> bytes option" where
  "noxtls_sha1_finish ctx hash =
     (case (ctx, hash) of
        (Some x, Some out) \<Rightarrow>
          (case sha1_pad_blocks (md32 x) of
             (rc, c) \<Rightarrow>
               let x = x\<lparr>md32 := c\<rparr>;
                   alg_sz = (if sha_algo x = NOXTLS_HASH_SHA1 then 5 else if sha_algo x = NOXTLS_HASH_SHA_224 then 6 else 8)
               in if rc \<noteq> NOXTLS_RETURN_SUCCESS
                    then (rc, Some zero_sha_ctx, noxtls_secure_zero (Some out) (alg_sz * 4))
                  else (rc, Some x, Some (foldl (\<lambda>out i. store_be32 out i (md_h c ! i)) out [0..<alg_sz])))
      | _ \<Rightarrow> (NOXTLS_RETURN_NULL, ctx, hash))"

definition noxtls_sha1_verify :: "noxtls_sha_ctx_t \<Rightarrow> bytes option \<Rightarrow> u32 \<Rightarrow> bytes option \<Rightarrow> noxtls_return_t" where
  "noxtls_sha1_verify stack data len expected =
     (if expected = None then NOXTLS_RETURN_NULL
      else
        let (rc, ctx) = noxtls_sha1_init (Some stack) NOXTLS_HASH_SHA1;
            (rc, ctx) = (if rc = NOXTLS_RETURN_SUCCESS then noxtls_sha1_update ctx data len else (rc, ctx));
            (rc, ctx, hash) = (if rc = NOXTLS_RETURN_SUCCESS then noxtls_sha1_finish ctx (Some (replicate 20 0))
                               else (rc, ctx, Some (replicate 20 0)))
        in if rc = NOXTLS_RETURN_SUCCESS then
             (if noxtls_ct_equal hash expected 20 \<noteq> 0 then NOXTLS_RETURN_SUCCESS else NOXTLS_RETURN_FAILED)
           else rc)"

section \<open>Reference\<close>

fun sha1_W :: "(nat \<Rightarrow> u32) \<Rightarrow> nat \<Rightarrow> u32" where
  "sha1_W M t =
     (if t < 16 then M t else SHA_ROTL (sha1_W M (t - 3) XOR sha1_W M (t - 8) XOR sha1_W M (t - 14) XOR sha1_W M (t - 16)) 1)"

declare sha1_W.simps [simp del]

definition fips_sha1_f :: "nat \<Rightarrow> u32 \<Rightarrow> u32 \<Rightarrow> u32 \<Rightarrow> u32" where
  "fips_sha1_f t = (if t < 20 then SHA_CH else if t < 40 then SHA_PARITY else if t < 60 then SHA_MAJ else SHA_PARITY)"

definition fips_sha1_k :: "nat \<Rightarrow> u32" where
  "fips_sha1_k t = [0x5A827999, 0x6ED9EBA1, 0x8F1BBCDC, 0xCA62C1D6] ! (t div 20)"

definition fips_sha1_round :: "(nat \<Rightarrow> u32) \<Rightarrow> u32 five \<Rightarrow> nat \<Rightarrow> u32 five" where
  "fips_sha1_round W = (\<lambda>(a, b, c, d, e) t.
     (SHA_ROTL a 5 + fips_sha1_f t b c d + e + fips_sha1_k t + W t, a, SHA_ROTL b 30, c, d))"

definition fips_sha1_compress :: "u32 list \<Rightarrow> bytes \<Rightarrow> u32 list" where
  "fips_sha1_compress h blk =
     (let (a, b, c, d, e) = foldl (fips_sha1_round (sha1_W (nth (load_words blk)))) (h ! 0, h ! 1, h ! 2, h ! 3, h ! 4) [0..<80]
      in [h ! 0 + a, h ! 1 + b, h ! 2 + c, h ! 3 + d, h ! 4 + e])"

definition sha1_h0 :: "u32 list" where
  "sha1_h0 = [0x67452301, 0xefcdab89, 0x98badcfe, 0x10325476, 0xc3d2e1f0]"

definition fips_sha1 :: "bytes \<Rightarrow> bytes" where
  "fips_sha1 m = concat (map be32_bytes (absorb 64 fips_sha1_compress sha1_h0 (md_pad 64 (len_be 8 (8 * length m)) m)))"

section \<open>The rounds\<close>

abbreviation "sha1_sched blk \<equiv> sha1_W (nth (load_words blk))"

lemma sha1_step_value:
  assumes "ring_holds (sha1_sched blk) w t" "t < 80"
  shows "\<exists>w'. sha1_step (v, w) t = (fips_sha1_round (sha1_sched blk) v t, w') \<and> ring_holds (sha1_sched blk) w' (Suc t)"
proof -
  obtain a b c d e where v: "v = (a, b, c, d, e)" by (cases v) auto
  have k: "fips_sha1_k t = (if t \<le> 19 then 0x5A827999 else if t \<le> 39 then 0x6ED9EBA1 else if t \<le> 59 then 0x8F1BBCDC else 0xCA62C1D6)"
  proof -
    consider "t < 20" | "20 \<le> t" "t < 40" | "40 \<le> t" "t < 60" | "60 \<le> t" "t < 80" using assms(2) by linarith
    then show ?thesis
    proof cases
      case 1 then show ?thesis by (simp add: fips_sha1_k_def)
    next
      case 2 then have "t div 20 = 1" by auto
      with 2 show ?thesis by (simp add: fips_sha1_k_def)
    next
      case 3 then have "t div 20 = 2" by auto
      with 3 show ?thesis by (simp add: fips_sha1_k_def)
    next
      case 4 then have "t div 20 = 3" by auto
      with 4 show ?thesis by (simp add: fips_sha1_k_def)
    qed
  qed
  show ?thesis
  proof (cases "t < 16")
    case True
    from ring_early [OF assms(1) this] True show ?thesis
      by (simp add: v sha1_step_def fips_sha1_round_def fips_sha1_f_def k)
  next
    case False
    then have t: "16 \<le> t" by simp
    have "SHA_ROTL (w ! ((t - 3) mod 16) XOR w ! ((t - 8) mod 16) XOR w ! ((t - 14) mod 16) XOR w ! (t mod 16)) 1 = sha1_sched blk t"
      using ring_oldest [OF assms(1) t] t by (subst sha1_W.simps) (simp add: ring_read [OF assms(1) t])
    then show ?thesis using False ring_write [OF assms(1) t]
      by (simp add: v Let_def sha1_step_def fips_sha1_round_def fips_sha1_f_def k)
  qed
qed

lemma sha1_steps:
  "k \<le> 80 \<Longrightarrow> \<exists>w'. foldl sha1_step (v, load_words blk) [0..<k] = (foldl (fips_sha1_round (sha1_sched blk)) v [0..<k], w') \<and>
    ring_holds (sha1_sched blk) w' k"
proof (induction k)
  case 0
  have "ring_holds (sha1_sched blk) (load_words blk) 0" by (rule ring_start) (simp_all add: sha1_W.simps load_words_def)
  then show ?case by simp
next
  case (Suc k)
  then obtain w where w: "foldl sha1_step (v, load_words blk) [0..<k] = (foldl (fips_sha1_round (sha1_sched blk)) v [0..<k], w)"
    "ring_holds (sha1_sched blk) w k" by auto
  from sha1_step_value [OF w(2), of "foldl (fips_sha1_round (sha1_sched blk)) v [0..<k]"] Suc.prems show ?case using w(1) by auto
qed

lemma five_words: "length h = 8 \<Longrightarrow> \<exists>a b c d e f g i. h = [a, b, c, d, e, f, g, i]"
  by (auto simp: numeral_eq_Suc length_Suc_conv)

lemma sha1_compresses: "compresses 5 64 fips_sha1_compress noxtls_sha1_round"
proof -
  have "noxtls_sha1_round c (Some d) = (NOXTLS_RETURN_SUCCESS, c\<lparr>md_h := lift_words 5 fips_sha1_compress (md_h c) (take 64 d)\<rparr>)"
    if l: "64 \<le> length d" and h8: "length (md_h c) = 8" for c d
  proof -
    obtain h0 h1 h2 h3 h4 h5 h6 h7 where h: "md_h c = [h0, h1, h2, h3, h4, h5, h6, h7]" using five_words [OF h8] by blast
    obtain w where "foldl sha1_step ((h0, h1, h2, h3, h4), load_words d) [0..<80] =
        (foldl (fips_sha1_round (sha1_sched d)) (h0, h1, h2, h3, h4) [0..<80], w)" using sha1_steps [of 80] by blast
    then show ?thesis
      using l by (simp add: noxtls_sha1_round_def lift_words_def fips_sha1_compress_def load_words_take h del: upt_eq_Cons_conv split: prod.splits)
  qed
  then show ?thesis unfolding compresses_def by (auto simp: fips_sha1_compress_def split: prod.splits)
qed

section \<open>Update and padding\<close>

lemma sha1_update_value:
  assumes "md_ready 64 c" "length d < 2 ^ 32"
  shows "\<exists>c'. sha1_update_ctx c d = (NOXTLS_RETURN_SUCCESS, c') \<and> md_advance 5 64 fips_sha1_compress c (md_buffer c @ d) c'"
proof -
  obtain c1 d1 c2 where u: "md_fill 64 noxtls_sha1_round c d = (NOXTLS_RETURN_SUCCESS, c1, d1)" "md_ready 64 c1"
    "d1 = [] \<or> md_data_len c1 = 0"
    "block_loop 64 noxtls_sha1_round c1 d1 = (NOXTLS_RETURN_SUCCESS, c2, pending 64 d1)"
    "md_advance 5 64 fips_sha1_compress c (md_buffer c @ d) (md_store c2 (pending 64 d1))"
    using update_advances [OF sha1_compresses assms] by blast
  have rest: "sha1_update_rest c1 d1 = (NOXTLS_RETURN_SUCCESS, md_store c2 (pending 64 d1))"
    by (simp add: sha1_update_rest_def u(4))
  have h: "length (md_h c) = 8" "length (md_data c) = 64" "unat (md_data_len c) < 64" using assms(1) by (simp_all add: md_ready_def)
  have ud: "unat (of_nat (length d) :: u32) = length d" using assms(2) by (simp add: unat_of_nat)
  define space where "space = (64 - ucast (md_data_len c) :: u32)"
  have sp: "unat space = 64 - unat (md_data_len c)"
    unfolding space_def using h(3) by (subst unat_sub_le) (simp_all add: word_le_nat_alt unat_ucast_up)
  have "sha1_update_ctx c d = (NOXTLS_RETURN_SUCCESS, md_store c2 (pending 64 d1))"
  proof (cases "md_data_len c > 0")
    case False
    then have "c1 = c" "d1 = d" using u(1) by (simp_all add: md_fill_def)
    then show ?thesis using False rest by (simp add: sha1_update_ctx_def)
  next
    case pos: True
    show ?thesis
    proof (cases "of_nat (length d) < space")
      case True
      then have less: "unat (md_data_len c) + length d < 64" using sp ud h(3) by (simp add: word_less_nat_alt)
      let ?c = "c\<lparr>md_data := put_at (unat (md_data_len c)) d (md_data c), md_data_len := md_data_len c + of_nat (length d)\<rparr>"
      have uc: "(ucast (of_nat (length d) :: u32) :: u8) = of_nat (length d)"
        using less by (simp add: word_unat_eq_iff unsigned_ucast_eq unat_of_nat take_bit_nat_eq_self)
      have "unat (md_data_len c + of_nat (length d)) = unat (md_data_len c) + length d"
        using less by (subst unat_add_small) (simp_all add: unat_of_nat)
      then have "md_data_len c + of_nat (length d) \<noteq> 64" using less by (auto simp: word_unat_eq_iff)
      then have "c1 = ?c" "d1 = []" using u(1) pos True ud uc
        by (simp_all add: md_fill_def Let_def space_def [symmetric] ud)
      moreover have "block_loop 64 noxtls_sha1_round ?c [] = (NOXTLS_RETURN_SUCCESS, ?c, [])" by (simp add: block_loop.simps)
      ultimately have "md_store c2 (pending 64 d1) = ?c" using u(4) by (simp add: md_store_def)
      then show ?thesis using pos True by (simp add: sha1_update_ctx_def Let_def space_def [symmetric])
    next
      case False
      then have le: "64 - unat (md_data_len c) \<le> length d" using sp ud by (simp add: word_less_nat_alt)
      define t where "t = (if space > of_nat (length d) then of_nat (length d) else space)"
      have "unat t = unat space" using False ud by (auto simp: t_def word_less_nat_alt)
      then have t: "t = space" by (simp add: word_unat_eq_iff)
      have us: "unat (ucast space :: u8) = 64 - unat (md_data_len c)"
        by (simp add: unsigned_ucast_eq sp take_bit_nat_eq_self)
      have full: "md_data_len c + ucast space = 64"
        unfolding word_unat_eq_iff using us h(3) by (subst unat_add_small) simp_all
      let ?d = "put_at (unat (md_data_len c)) (take (unat space) d) (md_data c)"
      have ld: "length ?d = 64" using h sp le by simp
      note round = compressesD(5) [OF sha1_compresses, of ?d]
      let ?h = "lift_words 5 fips_sha1_compress (md_h c) ?d"
      have "c1 = c\<lparr>md_data := ?d, md_h := ?h, md_length := md_length c + 64, md_data_len := 0\<rparr>" "d1 = drop (unat space) d"
        using u(1) pos full ld h(1) round
        by (simp_all add: md_fill_def Let_def space_def [symmetric] t_def [symmetric] t)
      then show ?thesis using rest pos False ld h(1) round
        by (simp add: sha1_update_ctx_def Let_def space_def [symmetric])
    qed
  qed
  then show ?thesis using u(5) by blast
qed

lemma masked_byte: "(ucast (drop_bit k (w AND push_bit k 0xFF)) :: u8) = ucast (drop_bit k (w :: u64))"
proof -
  have m: "(0xFF :: u64) = mask 8" by (simp add: mask_eq_exp_minus_1)
  show ?thesis unfolding m by (rule bit_word_eqI) (auto simp: bit_simps dest: bit_imp_le_length)
qed

lemma store_bitlen_value:
  assumes "length d = 64"
  shows "sha1_store_bitlen_be d 56 (N * 8) = noxtls_add_padding_length d 64 N 8"
proof -
  note m = masked_byte [of 0 "N * 8"] masked_byte [of 8 "N * 8"] masked_byte [of 16 "N * 8"] masked_byte [of 24 "N * 8"]
    masked_byte [of 32 "N * 8"] masked_byte [of 40 "N * 8"] masked_byte [of 48 "N * 8"] masked_byte [of 56 "N * 8"]
  have "[0..<8] = [0, 1, 2, 3, 4, 5, 6, 7 :: nat]" by (simp add: upt_rec)
  then show ?thesis
    using m assms
    by (simp add: sha1_store_bitlen_be_def noxtls_add_padding_length_def noxtls_hash_bitlen_byte_def push_bit_eq_mult list_update_swap Let_def)
qed

lemma padding_prefix:
  "length d = 64 \<Longrightarrow> noxtls_add_padding_length d 64 N 8 = take 56 d @ rev (map (noxtls_hash_bitlen_byte (N * 8)) [0..<8])"
  "length d = 64 \<Longrightarrow> noxtls_add_padding_length_little d 64 N 8 = take 56 d @ map (noxtls_hash_bitlen_byte (N * 8)) [0..<8]"
  using bitlen_run [of 8 d 64 "noxtls_hash_bitlen_byte (N * 8)"] put_run [of 56 8 d "noxtls_hash_bitlen_byte (N * 8)"]
  by (simp_all add: noxtls_add_padding_length_def noxtls_add_padding_length_little_def put_at_def)

lemma sha1_pad_value:
  assumes "md_ready 64 c"
  shows "\<exists>c'. sha1_pad_blocks c = (NOXTLS_RETURN_SUCCESS, c') \<and> md_ready 64 c' \<and>
    md_h c' = finish_words 5 64 fips_sha1_compress 8
      (\<lambda>d. noxtls_add_padding_length d 64 (md_length c + of_nat (unat (md_data_len c))) 8) c"
proof -
  define used where "used = unat (md_data_len c)"
  define N where "N = md_length c + of_nat used"
  define B where "B = take used (md_data c) @ 0x80 # replicate (64 - (used + 1)) 0"
  define data where "data = (if used > 0 then md_data c else replicate 64 0)"
  have h: "length (md_h c) = 8" "length (md_data c) = 64" "used < 64" using assms by (simp_all add: md_ready_def used_def)
  have d: "length data = 64" "take used data = take used (md_data c)" using h by (simp_all add: data_def)
  have pos: "md_data_len c > 0 \<longleftrightarrow> used > 0" by (simp add: used_def word_gt_0 unat_gt_0)
  have B: "length B = 64" using h by (simp add: B_def)
  have uN: "ucast (md_data_len c) = (of_nat used :: u64)" by (simp add: used_def)
  have start: "(if md_data_len c > 0 then (unat (md_data_len c), md_length c + ucast (md_data_len c), c)
      else (0, md_length c, c\<lparr>md_data := the (noxtls_secure_zero (Some (md_data c)) 64)\<rparr>)) = (used, N, c\<lparr>md_data := data\<rparr>)"
    unfolding pos N_def data_def uN used_def [symmetric] secure_zero_all [OF h(2) [symmetric]] option.sel by simp
  have space: "512 - used * 8 mod 512 = 8 * (64 - used)" using h(3) by simp
  have nz: "\<not> 8 * (64 - used) \<le> Suc 0" using h(3) by simp
  have run: "sha1_pad_blocks c =
      (if 64 < used + 1 + 8 then sha1_finish_two_blocks (c\<lparr>md_data := data\<rparr>) used (8 * (64 - used)) 56 (N * 8)
       else sha1_finish_one_block (c\<lparr>md_data := data\<rparr>) (8 * (64 - used)) 56 (N * 8))"
    unfolding sha1_pad_blocks_def start Let_def prod.case space by auto
  note round = compressesD(5) [OF sha1_compresses]
  note words = lift_words_parts(1) [OF sha1_compresses]
  show ?thesis
  proof (cases "64 < used + 1 + 8")
    case True
    have full: "md_put_pad 64 (c\<lparr>md_data := data\<rparr>) used = c\<lparr>md_data := B\<rparr>"
      using put_pad_value [of "c\<lparr>md_data := data\<rparr>" 64 used] d h(3) by (simp add: B_def)
    show ?thesis
      unfolding run finish_words_def Let_def used_def [symmetric] B_def [symmetric] N_def [symmetric] sha1_finish_two_blocks_def
      using True h B round words full nz by (simp add: md_ready_def store_bitlen_value length_padding used_def [symmetric])
  next
    case False
    let ?d = "if 56 - (used + 1) > 0 then put_at (used + 1) (replicate (56 - (used + 1)) 0) (data[used := 0x80]) else data[used := 0x80]"
    have l: "length ?d = 64" using d(1) False by simp
    have "take 56 ?d = take used data @ 0x80 # replicate (56 - (used + 1)) 0"
      using d(1) False upd_conv_take_nth_drop [of used data "0x80"] by (auto simp: put_at_def min_def take_Cons')
    also have "\<dots> = take 56 B" using False h(2) by (simp add: B_def d(2) min_def take_Cons')
    finally have p: "sha1_store_bitlen_be ?d 56 (N * 8) = noxtls_add_padding_length B 64 N 8"
      unfolding store_bitlen_value [OF l] by (simp only: padding_prefix(1) [OF l] padding_prefix(1) [OF B])
    let ?P = "noxtls_add_padding_length B 64 N 8"
    have idx: "64 - 8 * (64 - used) div 8 = used" using h(3) by simp
    have sel: "md_data (c\<lparr>md_data := a\<rparr>) = a" and upd: "c\<lparr>md_data := a, md_data := b\<rparr> = c\<lparr>md_data := b\<rparr>" for a b by simp_all
    have one: "sha1_finish_one_block (c\<lparr>md_data := data\<rparr>) (8 * (64 - used)) 56 (N * 8) = noxtls_sha1_round (c\<lparr>md_data := ?P\<rparr>) (Some ?P)"
      unfolding sha1_finish_one_block_def Let_def idx sel upd p ..
    have "noxtls_sha1_round (c\<lparr>md_data := ?P\<rparr>) (Some ?P) =
        (NOXTLS_RETURN_SUCCESS, c\<lparr>md_data := ?P, md_h := lift_words 5 fips_sha1_compress (md_h c) ?P\<rparr>)"
      using round [of ?P "c\<lparr>md_data := ?P\<rparr>"] B h(1) by (simp add: length_padding)
    then show ?thesis
      unfolding run finish_words_def Let_def used_def [symmetric] B_def [symmetric] N_def [symmetric]
      using False h B words one by (simp add: md_ready_def length_padding used_def [symmetric])
  qed
qed

end
