(* ===== verification/Md5.thy ===== *)
theory Md5
  imports Sha256
begin

text \<open>
  MD5 of \<open>noxtls_md5.c\<close>: little-endian words, sixty-four steps over four rotating registers, and a finish
  that pads in a temporary block. The reference is RFC 1321: sixteen groups of four operations, with
  the word indices and shifts the document lists.
\<close>

section \<open>Definitions\<close>

definition MD5_F :: "u32 \<Rightarrow> u32 \<Rightarrow> u32 \<Rightarrow> u32" where "MD5_F x y z = (x AND y) OR (NOT x AND z)"
definition MD5_G :: "u32 \<Rightarrow> u32 \<Rightarrow> u32 \<Rightarrow> u32" where "MD5_G x y z = (x AND z) OR (y AND NOT z)"
definition MD5_H :: "u32 \<Rightarrow> u32 \<Rightarrow> u32 \<Rightarrow> u32" where "MD5_H x y z = x XOR y XOR z"
definition MD5_I :: "u32 \<Rightarrow> u32 \<Rightarrow> u32 \<Rightarrow> u32" where "MD5_I x y z = y XOR (x OR NOT z)"

definition md5_rotl_amt :: "u32 \<Rightarrow> u32 \<Rightarrow> u32" where
  "md5_rotl_amt x amt =
     (if amt = 4 then push_bit 4 x OR drop_bit 28 x
      else if amt = 5 then push_bit 5 x OR drop_bit 27 x
      else if amt = 6 then push_bit 6 x OR drop_bit 26 x
      else if amt = 7 then push_bit 7 x OR drop_bit 25 x
      else if amt = 9 then push_bit 9 x OR drop_bit 23 x
      else if amt = 10 then push_bit 10 x OR drop_bit 22 x
      else if amt = 11 then push_bit 11 x OR drop_bit 21 x
      else if amt = 12 then push_bit 12 x OR drop_bit 20 x
      else if amt = 14 then push_bit 14 x OR drop_bit 18 x
      else if amt = 15 then push_bit 15 x OR drop_bit 17 x
      else if amt = 16 then push_bit 16 x OR drop_bit 16 x
      else if amt = 17 then push_bit 17 x OR drop_bit 15 x
      else if amt = 20 then push_bit 20 x OR drop_bit 12 x
      else if amt = 21 then push_bit 21 x OR drop_bit 11 x
      else if amt = 22 then push_bit 22 x OR drop_bit 10 x
      else if amt = 23 then push_bit 23 x OR drop_bit 9 x
      else x)"

definition md5_shift :: "u8 list" where
  "md5_shift =
    [7, 12, 17, 22, 7, 12, 17, 22, 7, 12, 17, 22, 7, 12, 17, 22,
     5,  9, 14, 20, 5,  9, 14, 20, 5,  9, 14, 20, 5,  9, 14, 20,
     4, 11, 16, 23, 4, 11, 16, 23, 4, 11, 16, 23, 4, 11, 16, 23,
     6, 10, 15, 21, 6, 10, 15, 21, 6, 10, 15, 21, 6, 10, 15, 21]"

definition md5_k :: "u32 list" where
  "md5_k =
    [0xd76aa478, 0xe8c7b756, 0x242070db, 0xc1bdceee,
     0xf57c0faf, 0x4787c62a, 0xa8304613, 0xfd469501,
     0x698098d8, 0x8b44f7af, 0xffff5bb1, 0x895cd7be,
     0x6b901122, 0xfd987193, 0xa679438e, 0x49b40821,
     0xf61e2562, 0xc040b340, 0x265e5a51, 0xe9b6c7aa,
     0xd62f105d, 0x02441453, 0xd8a1e681, 0xe7d3fbc8,
     0x21e1cde6, 0xc33707d6, 0xf4d50d87, 0x455a14ed,
     0xa9e3e905, 0xfcefa3f8, 0x676f02d9, 0x8d2a4c8a,
     0xfffa3942, 0x8771f681, 0x6d9d6122, 0xfde5380c,
     0xa4beea44, 0x4bdecfa9, 0xf6bb4b60, 0xbebfbc70,
     0x289b7ec6, 0xeaa127fa, 0xd4ef3085, 0x04881d05,
     0xd9d4d039, 0xe6db99e5, 0x1fa27cf8, 0xc4ac5665,
     0xf4292244, 0x432aff97, 0xab9423a7, 0xfc93a039,
     0x655b59c3, 0x8f0ccc92, 0xffeff47d, 0x85845dd1,
     0x6fa87e4f, 0xfe2ce6e0, 0xa3014314, 0x4e0811a1,
     0xf7537e82, 0xbd3af235, 0x2ad7d2bb, 0xeb86d391]"

definition load_le32 :: "bytes \<Rightarrow> nat \<Rightarrow> u32" where
  "load_le32 d i = push_bit 24 (ucast (d ! (i + 3))) OR push_bit 16 (ucast (d ! (i + 2))) OR
     push_bit 8 (ucast (d ! (i + 1))) OR ucast (d ! i)"

definition load_words_le :: "bytes \<Rightarrow> u32 list" where
  "load_words_le d = map (\<lambda>t. load_le32 d (4 * t)) [0..<16]"

type_synonym 'w four = "'w \<times> 'w \<times> 'w \<times> 'w"

definition md5_step :: "u32 list \<Rightarrow> u32 four \<Rightarrow> nat \<Rightarrow> u32 four" where
  "md5_step w = (\<lambda>(A, B, C, D) t.
     let (F, g) =
           (if t < 16 then (MD5_F B C D, t)
            else if t \<le> 31 then (MD5_G B C D, (5 * t + 1) mod 16)
            else if t \<le> 47 then (MD5_H B C D, (3 * t + 5) mod 16)
            else (MD5_I B C D, (t * 7) mod 16));
         F = F + A + md5_k ! t + w ! g
     in (D, B + md5_rotl_amt F (ucast (md5_shift ! t)), B, C))"

definition noxtls_md5_round :: "u32 md_ctx \<Rightarrow> bytes option \<Rightarrow> noxtls_return_t \<times> u32 md_ctx" where
  "noxtls_md5_round ctx input =
     (let h = md_h ctx;
          (A, B, C, D) = foldl (md5_step (load_words_le (the input))) (h ! 0, h ! 1, h ! 2, h ! 3) [0..<64]
      in (NOXTLS_RETURN_SUCCESS, ctx\<lparr>md_h := h[0 := h ! 0 + A, 1 := h ! 1 + B, 2 := h ! 2 + C, 3 := h ! 3 + D]\<rparr>))"

definition noxtls_md5_init :: "noxtls_sha_ctx_t option \<Rightarrow> noxtls_return_t \<times> noxtls_sha_ctx_t option" where
  "noxtls_md5_init ctx =
     (case ctx of
        None \<Rightarrow> (NOXTLS_RETURN_NULL, None)
      | Some x \<Rightarrow>
          (NOXTLS_RETURN_SUCCESS,
           Some (x\<lparr>sha_algo := NOXTLS_HASH_MD5,
             md32 := (md32 x)\<lparr>md_h := (replicate 8 0)[0 := 0x67452301, 1 := 0xefcdab89, 2 := 0x98badcfe, 3 := 0x10325476],
               md_data := the (noxtls_secure_zero (Some (md_data (md32 x))) 64), md_data_len := 0, md_length := 0\<rparr>\<rparr>)))"

definition md5_update_ctx :: "u32 md_ctx \<Rightarrow> bytes \<Rightarrow> noxtls_return_t \<times> u32 md_ctx" where
  "md5_update_ctx c data =
     (case md_fill 64 noxtls_md5_round c data of
        (rc, c, d) \<Rightarrow>
          if rc \<noteq> NOXTLS_RETURN_SUCCESS then (rc, c)
          else case block_loop 64 noxtls_md5_round c d of
            (rc, c, d) \<Rightarrow>
              if rc \<noteq> NOXTLS_RETURN_SUCCESS then (rc, c)
              else (rc, if d \<noteq> [] then c\<lparr>md_data := put_at (unat (md_data_len c)) d (md_data c),
                                          md_data_len := md_data_len c + of_nat (length d)\<rparr> else c))"

definition noxtls_md5_update ::
    "noxtls_sha_ctx_t option \<Rightarrow> bytes option \<Rightarrow> u32 \<Rightarrow> noxtls_return_t \<times> noxtls_sha_ctx_t option" where
  "noxtls_md5_update ctx data len =
     (case ctx of
        None \<Rightarrow> (NOXTLS_RETURN_NULL, None)
      | Some x \<Rightarrow>
          if len = 0 then (NOXTLS_RETURN_SUCCESS, ctx)
          else if data = None then (NOXTLS_RETURN_NULL, ctx)
          else if (ucast (md_data_len (md32 x)) :: u32) \<ge> 64 then (NOXTLS_RETURN_INVALID_BLOCK_SIZE, ctx)
          else case md5_update_ctx (md32 x) (take (unat len) (the data)) of
            (rc, c) \<Rightarrow> (rc, Some (x\<lparr>md32 := c\<rparr>)))"

definition md5_pad_blocks :: "u32 md_ctx \<Rightarrow> noxtls_return_t \<times> u32 md_ctx" where
  "md5_pad_blocks c =
     (let (len, temp, total_length, c) =
            (if md_data_len c > 0 then
               (unat (md_data_len c), put_at 0 (take (unat (md_data_len c)) (md_data c)) (replicate 64 0),
                md_length c + ucast (md_data_len c), c)
             else (0, replicate 64 0, md_length c, c\<lparr>md_data := the (noxtls_secure_zero (Some (md_data c)) 64)\<rparr>));
          space_occupied = (if len = 0 then 0 else len mod 64);
          space_left = (if len = 0 then 64 else 64 - len mod 64);
          temp = (if space_left \<ge> 1 then temp[space_occupied := 0x80] else temp);
          temp = (if space_left \<ge> 8 + 1 then noxtls_add_padding_length_little temp 64 total_length 8 else temp);
          (rc, c) = noxtls_md5_round c (Some temp)
      in if rc = NOXTLS_RETURN_SUCCESS \<and> space_left < 8 + 1 then
           let temp = replicate 64 0;
               c = (if space_left = 0 then c\<lparr>md_data := (md_data c)[0 := 0x80]\<rparr> else c);
               temp = noxtls_add_padding_length_little temp 64 total_length 8
           in noxtls_md5_round c (Some temp)
         else (rc, c))"

definition store_le32 :: "bytes \<Rightarrow> nat \<Rightarrow> u32 \<Rightarrow> bytes" where
  "store_le32 out i w = out[4 * i + 3 := ucast (drop_bit 24 (w AND 0xFF000000)), 4 * i + 2 := ucast (drop_bit 16 (w AND 0x00FF0000)),
     4 * i + 1 := ucast (drop_bit 8 (w AND 0x0000FF00)), 4 * i := ucast (w AND 0x000000FF)]"

definition noxtls_md5_finish ::
    "noxtls_sha_ctx_t option \<Rightarrow> bytes option \<Rightarrow> noxtls_return_t \<times> noxtls_sha_ctx_t option \<times> bytes option" where
  "noxtls_md5_finish ctx hash =
     (case (ctx, hash) of
        (Some x, Some out) \<Rightarrow>
          (case md5_pad_blocks (md32 x) of
             (rc, c) \<Rightarrow>
               let x = x\<lparr>md32 := c\<rparr>; alg_sz = (if sha_algo x = NOXTLS_HASH_MD5 then 4 else 8) in
               if rc \<noteq> NOXTLS_RETURN_SUCCESS
                 then (rc, Some zero_sha_ctx, noxtls_secure_zero (Some out) (alg_sz * 4))
               else (rc, Some x, Some (foldl (\<lambda>out i. store_le32 out i (md_h c ! i)) out [0..<alg_sz])))
      | _ \<Rightarrow> (NOXTLS_RETURN_NULL, ctx, hash))"

definition noxtls_md5_verify :: "noxtls_sha_ctx_t \<Rightarrow> bytes option \<Rightarrow> u32 \<Rightarrow> bytes option \<Rightarrow> noxtls_return_t" where
  "noxtls_md5_verify stack data len expected =
     (let (hrc, ctx) = noxtls_md5_init (Some stack);
          (hrc, ctx) = (if hrc = NOXTLS_RETURN_SUCCESS then noxtls_md5_update ctx data len else (hrc, ctx));
          (hrc, ctx, hash) = (if hrc = NOXTLS_RETURN_SUCCESS then noxtls_md5_finish ctx (Some (replicate 16 0))
                              else (hrc, ctx, Some (replicate 16 0)))
      in if hrc = NOXTLS_RETURN_SUCCESS \<and> noxtls_ct_equal hash expected 16 \<noteq> 0
         then NOXTLS_RETURN_SUCCESS else NOXTLS_RETURN_FAILED)"

section \<open>Reference\<close>

definition rfc_rotl :: "nat \<Rightarrow> u32 \<Rightarrow> u32" where
  "rfc_rotl s x = push_bit s x OR drop_bit (32 - s) x"

definition rfc_md5_index :: "nat list" where
  "rfc_md5_index =
    [0, 1, 2, 3, 4, 5, 6, 7, 8, 9, 10, 11, 12, 13, 14, 15,
     1, 6, 11, 0, 5, 10, 15, 4, 9, 14, 3, 8, 13, 2, 7, 12,
     5, 8, 11, 14, 1, 4, 7, 10, 13, 0, 3, 6, 9, 12, 15, 2,
     0, 7, 14, 5, 12, 3, 10, 1, 8, 15, 6, 13, 4, 11, 2, 9]"

definition rfc_md5_fun :: "nat \<Rightarrow> u32 \<Rightarrow> u32 \<Rightarrow> u32 \<Rightarrow> u32" where
  "rfc_md5_fun i = [MD5_F, MD5_G, MD5_H, MD5_I] ! (i div 16)"

definition rfc_md5_shift :: "nat \<Rightarrow> nat" where
  "rfc_md5_shift i = [[7, 12, 17, 22], [5, 9, 14, 20], [4, 11, 16, 23], [6, 10, 15, 21]] ! (i div 16) ! (i mod 4)"

text \<open>The operation \<open>[abcd k s i]\<close>, and the group \<open>[ABCD ..] [DABC ..] [CDAB ..] [BCDA ..]\<close>.\<close>

definition rfc_md5_op :: "u32 list \<Rightarrow> nat \<Rightarrow> u32 \<Rightarrow> u32 \<Rightarrow> u32 \<Rightarrow> u32 \<Rightarrow> u32" where
  "rfc_md5_op X i a b c d =
     b + rfc_rotl (rfc_md5_shift i) (a + rfc_md5_fun i b c d + X ! (rfc_md5_index ! i) + md5_k ! i)"

definition rfc_md5_group :: "u32 list \<Rightarrow> u32 four \<Rightarrow> nat \<Rightarrow> u32 four" where
  "rfc_md5_group X = (\<lambda>(a, b, c, d) j.
     let a = rfc_md5_op X (4 * j) a b c d;
         d = rfc_md5_op X (4 * j + 1) d a b c;
         c = rfc_md5_op X (4 * j + 2) c d a b;
         b = rfc_md5_op X (4 * j + 3) b c d a
     in (a, b, c, d))"

definition rfc_md5_compress :: "u32 list \<Rightarrow> bytes \<Rightarrow> u32 list" where
  "rfc_md5_compress h blk =
     (let (a, b, c, d) = foldl (rfc_md5_group (load_words_le blk)) (h ! 0, h ! 1, h ! 2, h ! 3) [0..<16]
      in [h ! 0 + a, h ! 1 + b, h ! 2 + c, h ! 3 + d])"

definition md5_h0 :: "u32 list" where
  "md5_h0 = [0x67452301, 0xefcdab89, 0x98badcfe, 0x10325476]"

definition le32_bytes :: "u32 \<Rightarrow> bytes" where
  "le32_bytes w = [ucast w, ucast (drop_bit 8 w), ucast (drop_bit 16 w), ucast (drop_bit 24 w)]"

definition rfc_md5 :: "bytes \<Rightarrow> bytes" where
  "rfc_md5 m = concat (map le32_bytes (absorb 64 rfc_md5_compress md5_h0 (md_pad 64 (len_le 8 (8 * length m)) m)))"

section \<open>The rounds\<close>

lemma md5_tables:
  assumes "t < 64"
  shows "md5_rotl_amt x (ucast (md5_shift ! t)) = rfc_rotl (rfc_md5_shift t) x"
    "(if t < 16 then t else if t \<le> 31 then (5 * t + 1) mod 16 else if t \<le> 47 then (3 * t + 5) mod 16 else (t * 7) mod 16) = rfc_md5_index ! t"
    "(if t < 16 then MD5_F b c d else if t \<le> 31 then MD5_G b c d else if t \<le> 47 then MD5_H b c d else MD5_I b c d) = rfc_md5_fun t b c d"
proof -
  have every: "P t" if "list_all P [0..<64]" for P using that assms by (simp add: list_all_iff)
  have l: "list_all (\<lambda>t. md5_shift ! t = of_nat (rfc_md5_shift t)) [0..<64]"
    "list_all (\<lambda>t. rfc_md5_shift t \<in> {4, 5, 6, 7, 9, 10, 11, 12, 14, 15, 16, 17, 20, 21, 22, 23}) [0..<64]"
    "list_all (\<lambda>t. (if t < 16 then t else if t \<le> 31 then (5 * t + 1) mod 16 else if t \<le> 47 then (3 * t + 5) mod 16
       else (t * 7) mod 16) = rfc_md5_index ! t) [0..<64]"
    by (simp_all add: md5_shift_def rfc_md5_shift_def rfc_md5_index_def upt_rec)
  note s8 = every [OF l(1)] and s2 = every [OF l(2)] and i = every [OF l(3)]
  have s: "ucast (md5_shift ! t) = (of_nat (rfc_md5_shift t) :: u32)" unfolding s8 using s2 by auto
  show "md5_rotl_amt x (ucast (md5_shift ! t)) = rfc_rotl (rfc_md5_shift t) x"
    using s2 unfolding s rfc_rotl_def md5_rotl_amt_def by auto
  show "(if t < 16 then t else if t \<le> 31 then (5 * t + 1) mod 16 else if t \<le> 47 then (3 * t + 5) mod 16 else (t * 7) mod 16) = rfc_md5_index ! t"
    by (rule i)
  consider "t < 16" "t div 16 = 0" | "16 \<le> t" "t \<le> 31" "t div 16 = 1" | "32 \<le> t" "t \<le> 47" "t div 16 = 2" | "48 \<le> t" "t div 16 = 3"
    using assms by linarith
  then show "(if t < 16 then MD5_F b c d else if t \<le> 31 then MD5_G b c d else if t \<le> 47 then MD5_H b c d else MD5_I b c d) = rfc_md5_fun t b c d"
    by cases (simp_all add: rfc_md5_fun_def)
qed

lemma md5_step_value:
  assumes "t < 64"
  shows "md5_step X (a, b, c, d) t = (d, rfc_md5_op X t a b c d, b, c)"
proof -
  have "md5_step X (a, b, c, d) t =
      (let F = (if t < 16 then MD5_F b c d else if t \<le> 31 then MD5_G b c d else if t \<le> 47 then MD5_H b c d else MD5_I b c d);
           g = (if t < 16 then t else if t \<le> 31 then (5 * t + 1) mod 16 else if t \<le> 47 then (3 * t + 5) mod 16 else (t * 7) mod 16)
       in (d, b + md5_rotl_amt (F + a + md5_k ! t + X ! g) (ucast (md5_shift ! t)), b, c))"
    by (simp add: md5_step_def)
  then show ?thesis
    unfolding md5_tables [OF assms] by (simp add: rfc_md5_op_def Let_def ac_simps)
qed

lemma md5_group:
  assumes "j < 16"
  shows "foldl (md5_step X) v [4 * j..<4 * Suc j] = rfc_md5_group X v j"
proof -
  have up: "[4 * j..<4 * Suc j] = [4 * j, 4 * j + 1, 4 * j + 2, 4 * j + 3]" by (simp add: upt_rec)
  have lt: "4 * j < 64" "4 * j + 1 < 64" "4 * j + 2 < 64" "4 * j + 3 < 64" using assms by simp_all
  show ?thesis
    unfolding up by (cases v) (simp only: foldl_Cons foldl_Nil md5_step_value lt rfc_md5_group_def Let_def prod.case)
qed

lemma md5_groups: "j \<le> 16 \<Longrightarrow> foldl (md5_step X) v [0..<4 * j] = foldl (rfc_md5_group X) v [0..<j]"
proof (induction j)
  case (Suc j)
  have "[0..<4 * Suc j] = [0..<4 * j] @ [4 * j..<4 * Suc j]" using upt_add_eq_append [of 0 "4 * j" 4] by (simp add: add.commute)
  then show ?case using Suc md5_group [of j X] by (simp del: upt_Suc mult_Suc_right) simp
qed simp

lemma load_words_le_take: "64 \<le> length d \<Longrightarrow> load_words_le (take 64 d) = load_words_le d"
  by (auto simp: load_words_le_def load_le32_def)

lemma eight_words: "length h = 8 \<Longrightarrow> \<exists>a b c d e f g i. h = [a, b, c, d, e, f, g, i]"
  by (auto simp: numeral_eq_Suc length_Suc_conv)

lemma md5_compresses: "compresses 4 64 rfc_md5_compress noxtls_md5_round"
proof -
  have "noxtls_md5_round c (Some d) = (NOXTLS_RETURN_SUCCESS, c\<lparr>md_h := lift_words 4 rfc_md5_compress (md_h c) (take 64 d)\<rparr>)"
    if l: "64 \<le> length d" and h8: "length (md_h c) = 8" for c d
  proof -
    obtain h0 h1 h2 h3 h4 h5 h6 h7 where h: "md_h c = [h0, h1, h2, h3, h4, h5, h6, h7]" using eight_words [OF h8] by blast
    show ?thesis
      using l md5_groups [of 16 "load_words_le d" "(h0, h1, h2, h3)"]
      by (simp add: noxtls_md5_round_def lift_words_def rfc_md5_compress_def load_words_le_take h del: upt_eq_Cons_conv split: prod.splits)
  qed
  then show ?thesis unfolding compresses_def by (auto simp: rfc_md5_compress_def split: prod.splits)
qed

section \<open>Update and padding\<close>

lemma md5_update_value:
  assumes "md_ready 64 c" "length d < 2 ^ 32"
  shows "\<exists>c'. md5_update_ctx c d = (NOXTLS_RETURN_SUCCESS, c') \<and> md_advance 4 64 rfc_md5_compress c (md_buffer c @ d) c'"
proof -
  obtain c1 d1 c2 where u: "md_fill 64 noxtls_md5_round c d = (NOXTLS_RETURN_SUCCESS, c1, d1)" "md_ready 64 c1"
    "d1 = [] \<or> md_data_len c1 = 0"
    "block_loop 64 noxtls_md5_round c1 d1 = (NOXTLS_RETURN_SUCCESS, c2, pending 64 d1)"
    "md_advance 4 64 rfc_md5_compress c (md_buffer c @ d) (md_store c2 (pending 64 d1))"
    using update_advances [OF md5_compresses assms] by blast
  have "length (md_h c1) = 8" using u(2) by (simp add: md_ready_def)
  from loop_value [OF md5_compresses this, of d1] u(4) have "md_data_len c2 = md_data_len c1" by auto
  moreover have "pending 64 d1 = []" if "d1 = []" using that by simp
  ultimately have "md5_update_ctx c d = (NOXTLS_RETURN_SUCCESS, md_store c2 (pending 64 d1))"
    using u(3) by (auto simp: md5_update_ctx_def u(1,4) md_store_def)
  then show ?thesis using u(5) by blast
qed

lemma md5_pad_value:
  assumes "md_ready 64 c"
  shows "\<exists>c'. md5_pad_blocks c = (NOXTLS_RETURN_SUCCESS, c') \<and> md_ready 64 c' \<and>
    md_h c' = finish_words 4 64 rfc_md5_compress 8
      (\<lambda>d. noxtls_add_padding_length_little d 64 (md_length c + of_nat (unat (md_data_len c))) 8) c"
proof -
  define used where "used = unat (md_data_len c)"
  define N where "N = md_length c + of_nat used"
  define B where "B = take used (md_data c) @ 0x80 # replicate (64 - (used + 1)) 0"
  define data where "data = (if used > 0 then md_data c else replicate 64 0)"
  have h: "length (md_h c) = 8" "length (md_data c) = 64" "used < 64" using assms by (simp_all add: md_ready_def used_def)
  have d: "length data = 64" using h by (simp add: data_def)
  have pos: "md_data_len c > 0 \<longleftrightarrow> used > 0" by (simp add: used_def word_gt_0 unat_gt_0)
  have uN: "ucast (md_data_len c) = (of_nat used :: u64)" by (simp add: used_def)
  have start: "(if md_data_len c > 0 then
       (unat (md_data_len c), put_at 0 (take (unat (md_data_len c)) (md_data c)) (replicate 64 0), md_length c + ucast (md_data_len c), c)
      else (0, replicate 64 0, md_length c, c\<lparr>md_data := the (noxtls_secure_zero (Some (md_data c)) 64)\<rparr>)) =
     (used, put_at 0 (take used (md_data c)) (replicate 64 0), N, c\<lparr>md_data := data\<rparr>)"
    unfolding pos N_def data_def uN used_def [symmetric] secure_zero_all [OF h(2) [symmetric]] option.sel by simp
  have sp: "(if used = 0 then 0 else used mod 64) = used" "(if used = 0 then 64 else 64 - used mod 64) = 64 - used"
    using h(3) by simp_all
  have B: "length B = 64" using h by (simp add: B_def)
  have temp: "(put_at 0 (take used (md_data c)) (replicate 64 0))[used := 0x80] = B"
    using h unfolding B_def put_at_def by (simp add: list_update_append Suc_diff_Suc [symmetric])
  have ge: "64 - used \<ge> 1" using h(3) by simp
  have alt: "64 - used < 9 \<longleftrightarrow> 55 < used" using h(3) by linarith
  have run: "md5_pad_blocks c =
      (let temp = (if 64 - used \<ge> 8 + 1 then noxtls_add_padding_length_little B 64 N 8 else B);
           (rc, c) = noxtls_md5_round (c\<lparr>md_data := data\<rparr>) (Some temp)
       in if rc = NOXTLS_RETURN_SUCCESS \<and> 64 - used < 8 + 1 then
            noxtls_md5_round (if 64 - used = 0 then c\<lparr>md_data := (md_data c)[0 := 0x80]\<rparr> else c)
              (Some (noxtls_add_padding_length_little (replicate 64 0) 64 N 8))
          else (rc, c))"
    unfolding md5_pad_blocks_def start Let_def prod.case sp temp using ge by simp
  note round = compressesD(5) [OF md5_compresses]
  note words = lift_words_parts(1) [OF md5_compresses]
  show ?thesis
    unfolding run finish_words_def Let_def used_def [symmetric] B_def [symmetric] N_def [symmetric]
    using h d B round words alt by (cases "55 < used") (simp_all add: md_ready_def length_padding used_def [symmetric])
qed

end
