(* ===== verification/Digests.thy ===== *)
theory Digests
  imports Sha512 Sha1 Md5
begin

text \<open>
  The interface of a digest, as a locale: start, absorb any number of pieces, finish. Its laws give that a
  session over any division of a message into pieces returns the digest of the message. The digests
  of \<open>noxtls_sha256.c\<close>, \<open>noxtls_sha512.c\<close>, \<open>noxtls_sha1.c\<close> and \<open>noxtls_md5.c\<close> are its instances.
\<close>

section \<open>The interface\<close>

definition on_sha :: "(noxtls_sha_ctx_t option \<Rightarrow> noxtls_return_t \<times> noxtls_sha_ctx_t option) \<Rightarrow>
    noxtls_sha_ctx_t \<Rightarrow> noxtls_return_t \<times> noxtls_sha_ctx_t" where
  "on_sha f x = (case f (Some x) of (rc, y) \<Rightarrow> (rc, the y))"

definition on_sha512 :: "(noxtls_sha512_ctx_t option \<Rightarrow> noxtls_return_t \<times> noxtls_sha512_ctx_t option) \<Rightarrow>
    noxtls_sha_ctx_t \<Rightarrow> noxtls_return_t \<times> noxtls_sha_ctx_t" where
  "on_sha512 f x = (case f (Some (sha512_ctx x)) of (rc, y) \<Rightarrow> (rc, x\<lparr>sha512_ctx := the y\<rparr>))"

definition on_sha_out :: "(noxtls_sha_ctx_t option \<Rightarrow> bytes option \<Rightarrow> noxtls_return_t \<times> noxtls_sha_ctx_t option \<times> bytes option) \<Rightarrow>
    noxtls_sha_ctx_t \<Rightarrow> bytes option \<Rightarrow> noxtls_return_t \<times> noxtls_sha_ctx_t \<times> bytes option" where
  "on_sha_out f x out = (case f (Some x) out of (rc, y, out) \<Rightarrow> (rc, the y, out))"

definition on_sha512_out ::
    "(noxtls_sha512_ctx_t option \<Rightarrow> bytes option \<Rightarrow> noxtls_return_t \<times> noxtls_sha512_ctx_t option \<times> bytes option) \<Rightarrow>
     noxtls_sha_ctx_t \<Rightarrow> bytes option \<Rightarrow> noxtls_return_t \<times> noxtls_sha_ctx_t \<times> bytes option" where
  "on_sha512_out f x out = (case f (Some (sha512_ctx x)) out of (rc, y, out) \<Rightarrow> (rc, x\<lparr>sha512_ctx := the y\<rparr>, out))"

lemmas on_defs = on_sha_def on_sha512_def on_sha_out_def on_sha512_out_def

text \<open>A session: the caller stops at the first error.\<close>

fun absorb_pieces :: "('x \<Rightarrow> bytes option \<Rightarrow> u32 \<Rightarrow> noxtls_return_t \<times> 'x) \<Rightarrow> 'x \<Rightarrow> bytes list \<Rightarrow> noxtls_return_t \<times> 'x" where
  "absorb_pieces update x [] = (NOXTLS_RETURN_SUCCESS, x)"
| "absorb_pieces update x (d # ds) =
     (case update x (Some d) (of_nat (length d)) of
        (rc, x) \<Rightarrow> if rc \<noteq> NOXTLS_RETURN_SUCCESS then (rc, x) else absorb_pieces update x ds)"

definition digest_session ::
    "('x \<Rightarrow> noxtls_return_t \<times> 'x) \<Rightarrow> ('x \<Rightarrow> bytes option \<Rightarrow> u32 \<Rightarrow> noxtls_return_t \<times> 'x) \<Rightarrow>
     ('x \<Rightarrow> bytes option \<Rightarrow> noxtls_return_t \<times> 'x \<times> bytes option) \<Rightarrow> 'x \<Rightarrow> bytes list \<Rightarrow> bytes \<Rightarrow>
     noxtls_return_t \<times> bytes option" where
  "digest_session init update finish x ds out =
     (case init x of (rc, x) \<Rightarrow>
        if rc \<noteq> NOXTLS_RETURN_SUCCESS then (rc, Some out)
        else case absorb_pieces update x ds of (rc, x) \<Rightarrow>
          if rc \<noteq> NOXTLS_RETURN_SUCCESS then (rc, Some out)
          else case finish x (Some out) of (rc, x, out) \<Rightarrow> (rc, out))"

locale digest =
  fixes init :: "noxtls_sha_ctx_t \<Rightarrow> noxtls_return_t \<times> noxtls_sha_ctx_t"
    and update :: "noxtls_sha_ctx_t \<Rightarrow> bytes option \<Rightarrow> u32 \<Rightarrow> noxtls_return_t \<times> noxtls_sha_ctx_t"
    and finish :: "noxtls_sha_ctx_t \<Rightarrow> bytes option \<Rightarrow> noxtls_return_t \<times> noxtls_sha_ctx_t \<times> bytes option"
    and holds :: "noxtls_sha_ctx_t \<Rightarrow> bytes \<Rightarrow> bool"
    and digest_of :: "bytes \<Rightarrow> bytes" and out_size :: nat
  assumes init_holds: "sha_wf x \<Longrightarrow> \<exists>x'. init x = (NOXTLS_RETURN_SUCCESS, x') \<and> holds x' []"
    and update_holds: "holds x m \<Longrightarrow> unat len \<le> length d \<Longrightarrow>
      \<exists>x'. update x (Some d) len = (NOXTLS_RETURN_SUCCESS, x') \<and> holds x' (m @ take (unat len) d)"
    and finish_digest: "holds x m \<Longrightarrow> length m < 2 ^ 61 \<Longrightarrow> out_size \<le> length out \<Longrightarrow>
      \<exists>x'. finish x (Some out) = (NOXTLS_RETURN_SUCCESS, x', Some (digest_of m @ drop out_size out)) \<and> sha_wf x'"
    and holds_wf: "holds x m \<Longrightarrow> sha_wf x"
    and digest_size: "length (digest_of m) = out_size"
begin

lemma absorb_pieces_holds:
  "holds x m \<Longrightarrow> (\<forall>d\<in>set ds. length d < 2 ^ 32) \<Longrightarrow>
   \<exists>x'. absorb_pieces update x ds = (NOXTLS_RETURN_SUCCESS, x') \<and> holds x' (m @ concat ds)"
proof (induction ds arbitrary: x m)
  case (Cons d ds)
  have u: "unat (of_nat (length d) :: u32) = length d" using Cons.prems(2) by (simp add: unat_of_nat)
  obtain x' where x': "update x (Some d) (of_nat (length d)) = (NOXTLS_RETURN_SUCCESS, x')" "holds x' (m @ d)"
    using update_holds [OF Cons.prems(1), of "of_nat (length d)" d] u by auto
  have "\<forall>d\<in>set ds. length d < 2 ^ 32" using Cons.prems(2) by simp
  from Cons.IH [OF x'(2) this] show ?case using x'(1) by simp
qed simp

lemma session_value:
  assumes "sha_wf x" "\<forall>d\<in>set ds. length d < 2 ^ 32" "length (concat ds) < 2 ^ 61" "out_size \<le> length out"
  shows "digest_session init update finish x ds out = (NOXTLS_RETURN_SUCCESS, Some (digest_of (concat ds) @ drop out_size out))"
proof -
  obtain x1 where x1: "init x = (NOXTLS_RETURN_SUCCESS, x1)" "holds x1 []" using init_holds [OF assms(1)] by blast
  obtain x2 where x2: "absorb_pieces update x1 ds = (NOXTLS_RETURN_SUCCESS, x2)" "holds x2 (concat ds)"
    using absorb_pieces_holds [OF x1(2) assms(2)] by auto
  obtain x3 where "finish x2 (Some out) = (NOXTLS_RETURN_SUCCESS, x3, Some (digest_of (concat ds) @ drop out_size out))"
    using finish_digest [OF x2(2) assms(3,4)] by blast
  then show ?thesis using x1(1) x2(1) by (simp add: digest_session_def)
qed

end

section \<open>The contexts\<close>

definition holds32 :: "u32 \<Rightarrow> nat \<Rightarrow> (u32 list \<Rightarrow> bytes \<Rightarrow> u32 list) \<Rightarrow> u32 list \<Rightarrow> noxtls_sha_ctx_t \<Rightarrow> bytes \<Rightarrow> bool" where
  "holds32 algo n f iv x m \<longleftrightarrow> sha_wf x \<and> sha_algo x = algo \<and> md_holds n 64 f iv (md32 x) m"

definition holds64 :: "u32 \<Rightarrow> u64 list \<Rightarrow> noxtls_sha_ctx_t \<Rightarrow> bytes \<Rightarrow> bool" where
  "holds64 algo iv x m \<longleftrightarrow> sha_wf x \<and> ucast (sha512_algo (sha512_ctx x)) = algo \<and> md_holds 8 128 fips_sha512_compress iv (sha512_ctx x) m"

lemma holds32_advance:
  assumes "holds32 algo n f iv x m" "md_advance n 64 f (md32 x) (md_buffer (md32 x) @ d) c"
  shows "holds32 algo n f iv (x\<lparr>md32 := c\<rparr>) (m @ d)"
  using assms md_holds_advance [of 64 n f iv "md32 x" m d c] md_advance_ready [OF assms(2)]
  by (simp add: holds32_def sha_wf_def)

lemma holds64_advance:
  assumes "holds64 algo iv x m" "md_advance 8 128 fips_sha512_compress (sha512_ctx x) (md_buffer (sha512_ctx x) @ d) c"
  shows "holds64 algo iv (x\<lparr>sha512_ctx := c\<rparr>) (m @ d)"
proof -
  have "sha512_algo c = sha512_algo (sha512_ctx x)" using assms(2)
    by (cases c; cases "sha512_ctx x") (simp add: md_advance_def)
  then show ?thesis
    using assms md_holds_advance [of 128 8 fips_sha512_compress iv "sha512_ctx x" m d c] md_advance_ready [OF assms(2)]
    by (simp add: holds64_def sha_wf_def)
qed

text \<open>The last blocks of the three length fields.\<close>

lemma finish_absorbs:
  assumes k: "compresses n bs f round_fn" and holds: "md_holds n bs f iv c m" and m: "length m < 2 ^ 61" and bs: "16 < bs"
  defines "N \<equiv> md_length c + of_nat (unat (md_data_len c))"
  shows "take n (finish_words n bs f 8 (\<lambda>d. noxtls_add_padding_length d bs N 8) c) = absorb bs f iv (md_pad bs (len_be 8 (8 * length m)) m)"
    "take n (finish_words n bs f 16 (\<lambda>d. noxtls_add_padding_length d bs N 16) c) = absorb bs f iv (md_pad bs (len_be 16 (8 * length m)) m)"
    "take n (finish_words n bs f 8 (\<lambda>d. noxtls_add_padding_length_little d bs N 8) c) = absorb bs f iv (md_pad bs (len_le 8 (8 * length m)) m)"
proof -
  have N: "N = of_nat (length m)" using finish_blocks(5) [OF k holds, of "[]"] bs by (simp add: N_def)
  note p = padding_length [OF _ m]
  show "take n (finish_words n bs f 8 (\<lambda>d. noxtls_add_padding_length d bs N 8) c) = absorb bs f iv (md_pad bs (len_be 8 (8 * length m)) m)"
    using finish_words_value [OF k holds, of "len_be 8 (8 * length m)" "\<lambda>d. noxtls_add_padding_length d bs N 8"] p(1) bs N by simp
  show "take n (finish_words n bs f 16 (\<lambda>d. noxtls_add_padding_length d bs N 16) c) = absorb bs f iv (md_pad bs (len_be 16 (8 * length m)) m)"
    using finish_words_value [OF k holds, of "len_be 16 (8 * length m)" "\<lambda>d. noxtls_add_padding_length d bs N 16"] p(2) bs N by simp
  show "take n (finish_words n bs f 8 (\<lambda>d. noxtls_add_padding_length_little d bs N 8) c) = absorb bs f iv (md_pad bs (len_le 8 (8 * length m)) m)"
    using finish_words_value [OF k holds, of "len_le 8 (8 * length m)" "\<lambda>d. noxtls_add_padding_length_little d bs N 8"] p(3) bs N by simp
qed

text \<open>The digest bytes.\<close>

lemma words_out:
  assumes "k \<le> n" "n \<le> length h" "4 * k \<le> length out"
  shows "foldl (\<lambda>out i. store_be32 out i (h ! i)) out [0..<k] = concat (map be32_bytes (take k (take n h))) @ drop (4 * k) out"
proof -
  have "map (\<lambda>i. be32_bytes (h ! i)) [0..<k] = map be32_bytes (take k (take n h))"
    using assms(1,2) by (intro nth_equalityI) simp_all
  then show ?thesis
    using store_run [of 4 "\<lambda>out i. store_be32 out i (h ! i)" "\<lambda>i. be32_bytes (h ! i)" k out] assms(3)
    by (simp add: store_be32_value be32_bytes_def)
qed

lemma store_le32_value: "4 * i + 4 \<le> length out \<Longrightarrow> store_le32 out i w = put_at (4 * i) (le32_bytes w) out"
proof -
  assume l: "4 * i + 4 \<le> length out"
  have b: "ucast (drop_bit 24 (w AND 0xFF000000)) = (ucast (drop_bit 24 w) :: u8)"
    "ucast (drop_bit 16 (w AND 0x00FF0000)) = (ucast (drop_bit 16 w) :: u8)"
    "ucast (drop_bit 8 (w AND 0x0000FF00)) = (ucast (drop_bit 8 w) :: u8)"
    "ucast (w AND 0x000000FF) = (ucast w :: u8)"
    by (rule bit_word_eqI; auto simp: bit_simps numeral_eq_Suc)+
  show ?thesis
    unfolding store_le32_def le32_bytes_def b put_at_def
    by (rule nth_equalityI) (use l in \<open>auto simp: nth_list_update nth_append nth_Cons' intro: arg_cong [where f = "(!) out"]\<close>)
qed

lemma words_out_le:
  assumes "n \<le> length h" "4 * n \<le> length out"
  shows "foldl (\<lambda>out i. store_le32 out i (h ! i)) out [0..<n] = concat (map le32_bytes (take n h)) @ drop (4 * n) out"
proof -
  have "map (\<lambda>i. le32_bytes (h ! i)) [0..<n] = map le32_bytes (take n h)" using assms(1) by (intro nth_equalityI) simp_all
  then show ?thesis
    using store_run [of 4 "\<lambda>out i. store_le32 out i (h ! i)" "\<lambda>i. le32_bytes (h ! i)" n out] assms(2)
    by (simp add: store_le32_value le32_bytes_def)
qed

lemma concat_be64:
  "map (\<lambda>i. ucast (drop_bit (56 - 8 * (i mod 8)) (h ! (i div 8))) :: u8) [0..<8 * k] = concat (map (\<lambda>i. be64_bytes (h ! i)) [0..<k])"
proof (induction k)
  case (Suc k)
  have "[0..<8 * Suc k] = [0..<8 * k] @ map (\<lambda>i. i + 8 * k) [0..<8]"
    using upt_add_eq_append [of 0 "8 * k" 8] by (simp only: map_add_upt) (simp add: add.commute)
  moreover have "map (\<lambda>i. ucast (drop_bit (56 - 8 * (i mod 8)) (h ! (i div 8))) :: u8) (map (\<lambda>i. i + 8 * k) [0..<8]) = be64_bytes (h ! k)"
    unfolding be64_bytes_def map_map by (rule map_cong [OF refl]) simp
  moreover have "[0..<Suc k] = [0..<k] @ [k]" by simp
  ultimately show ?case using Suc by (simp del: upt_Suc mult_Suc_right map_map)
qed simp

lemma bytes_out64:
  assumes "length h = 8" "n \<le> 64" "n \<le> length out"
  shows "foldl (\<lambda>out i. out[i := ucast (drop_bit (56 - 8 * (i mod 8)) (h ! (i div 8)))]) out [0..<n] =
    take n (concat (map be64_bytes h)) @ drop n out"
proof -
  have "map (\<lambda>i. be64_bytes (h ! i)) [0..<8] = map be64_bytes h" using assms(1) by (intro nth_equalityI) simp_all
  then have "take n (concat (map be64_bytes h)) =
      take n (map (\<lambda>i. ucast (drop_bit (56 - 8 * (i mod 8)) (h ! (i div 8))) :: u8) [0..<64])"
    using concat_be64 [of h 8] by simp
  also have "\<dots> = map (\<lambda>i. ucast (drop_bit (56 - 8 * (i mod 8)) (h ! (i div 8))) :: u8) [0..<n]"
    using assms(2) by (simp add: take_map)
  finally show ?thesis
    using put_run [of 0 n out "\<lambda>i. ucast (drop_bit (56 - 8 * (i mod 8)) (h ! (i div 8)))"] assms(3) by (simp add: put_at_def)
qed

end
