(* ===== verification/Digest_Laws.thy ===== *)
theory Digest_Laws
  imports Digests
begin

text \<open>
  The laws of the digest interface, proved for each digest of the library, and the instances: SHA-256,
  SHA-224, SHA-512, SHA-384, SHA-512/224, SHA-512/256, SHA-1 and MD5.
\<close>

section \<open>SHA-256 and SHA-224\<close>

lemma take_u32_length: "length (take (unat (len :: u32)) d) < 2 ^ 32"
  using unsigned_less [where 'a = nat and w = len] by (simp add: min_less_iff_disj)

lemma sha256_init_law:
  assumes "sha_wf x" "algo = NOXTLS_HASH_SHA_256 \<and> iv = sha256_h0 \<or> algo = NOXTLS_HASH_SHA_224 \<and> iv = sha224_h0"
  shows "\<exists>x'. on_sha (\<lambda>x. noxtls_sha256_init x algo) x = (NOXTLS_RETURN_SUCCESS, x') \<and> holds32 algo 8 fips_sha256_compress iv x' []"
proof -
  obtain c where c: "noxtls_sha256_init (Some x) algo = (NOXTLS_RETURN_SUCCESS, Some (x\<lparr>sha_algo := algo, md32 := c\<rparr>))"
    "md_holds 8 64 fips_sha256_compress iv c []" using sha256_init_value [OF assms] by blast
  then show ?thesis using assms(1) md_holds_ready [OF _ c(2)] by (auto simp: on_sha_def holds32_def sha_wf_def)
qed

lemma sha256_update_law:
  assumes "holds32 algo 8 fips_sha256_compress iv x m" "unat len \<le> length d"
  shows "\<exists>x'. on_sha (\<lambda>x. noxtls_sha256_update x (Some d) len) x = (NOXTLS_RETURN_SUCCESS, x') \<and>
    holds32 algo 8 fips_sha256_compress iv x' (m @ take (unat len) d)"
proof (cases "len = 0")
  case True
  then show ?thesis using assms by (simp add: on_sha_def noxtls_sha256_update_def)
next
  case False
  have l: "length (take (unat len) d) < 2 ^ 32" by (rule take_u32_length)
  have "md_ready 64 (md32 x)" using assms(1) by (simp add: holds32_def sha_wf_def)
  from sha256_update_value [OF this l] obtain c where
    "sha256_update_ctx (md32 x) (take (unat len) d) = (NOXTLS_RETURN_SUCCESS, c)"
    "md_advance 8 64 fips_sha256_compress (md32 x) (md_buffer (md32 x) @ take (unat len) d) c" by blast
  then show ?thesis using False holds32_advance [OF assms(1)] by (auto simp: on_sha_def noxtls_sha256_update_def)
qed

lemma sha256_finish_law:
  assumes h: "holds32 algo 8 fips_sha256_compress iv x m" and m: "length m < 2 ^ 61"
    and k: "k = (if algo = NOXTLS_HASH_SHA_224 then 7 else 8)" and out: "4 * k \<le> length out"
  shows "\<exists>x'. on_sha_out noxtls_sha256_finish x (Some out) = (NOXTLS_RETURN_SUCCESS, x',
    Some (concat (map be32_bytes (take k (absorb 64 fips_sha256_compress iv (md_pad 64 (len_be 8 (8 * length m)) m)))) @ drop (4 * k) out)) \<and>
    sha_wf x'"
proof -
  have c: "md_holds 8 64 fips_sha256_compress iv (md32 x) m" "md_ready 64 (md32 x)" "md_ready 128 (sha512_ctx x)" "sha_algo x = algo"
    using h by (simp_all add: holds32_def sha_wf_def)
  obtain c' where c': "sha256_pad_blocks (md32 x) = (NOXTLS_RETURN_SUCCESS, c')" "md_ready 64 c'"
    "md_h c' = finish_words 8 64 fips_sha256_compress 8
      (\<lambda>d. noxtls_add_padding_length d 64 (md_length (md32 x) + of_nat (unat (md_data_len (md32 x)))) 8) (md32 x)"
    using sha256_pad_value [OF c(2)] by blast
  have used: "\<not> (ucast (md_data_len (md32 x)) :: u32) \<ge> 64" using c(2) by (simp add: md_ready_def word_le_nat_alt unat_ucast_up)
  have l: "length (md_h c') = 8" using c'(2) by (simp add: md_ready_def)
  have words: "take 8 (md_h c') = absorb 64 fips_sha256_compress iv (md_pad 64 (len_be 8 (8 * length m)) m)"
    unfolding c'(3) by (rule finish_absorbs(1) [OF sha256_compresses c(1) m]) simp
  have "k \<le> 8" using k by simp
  have o: "foldl (\<lambda>out i. store_be32 out i (md_h c' ! i)) out [0..<k] =
      concat (map be32_bytes (take k (absorb 64 fips_sha256_compress iv (md_pad 64 (len_be 8 (8 * length m)) m)))) @ drop (4 * k) out"
    unfolding words [symmetric] using \<open>k \<le> 8\<close> l out by (intro words_out) simp_all
  have "on_sha_out noxtls_sha256_finish x (Some out) =
      (NOXTLS_RETURN_SUCCESS, x\<lparr>md32 := c'\<rparr>, Some (foldl (\<lambda>out i. store_be32 out i (md_h c' ! i)) out [0..<k]))"
    using used c'(1) c(4) k by (simp add: on_sha_out_def noxtls_sha256_finish_def Let_def del: upt_rec_numeral)
  then show ?thesis unfolding o using c'(2) c(3) by (simp add: sha_wf_def)
qed

section \<open>The SHA-512 family\<close>

lemma sha512_init_law:
  assumes "sha_wf x" "(algo, iv) \<in> {(NOXTLS_HASH_SHA_512, sha512_h0), (NOXTLS_HASH_SHA_384, sha384_h0),
    (NOXTLS_HASH_SHA_512_224, sha512_224_h0), (NOXTLS_HASH_SHA_512_256, sha512_256_h0)}"
  shows "\<exists>x'. on_sha512 (\<lambda>c. noxtls_sha512_init c algo) x = (NOXTLS_RETURN_SUCCESS, x') \<and> holds64 algo iv x' []"
proof -
  have "length (md_data (sha512_ctx x)) = 128" "md_ready 64 (md32 x)" using assms(1) by (simp_all add: sha_wf_def md_ready_def)
  then show ?thesis
    using assms(2) secure_zero_all [of 128 "md_data (sha512_ctx x)"]
    by (auto simp: on_sha512_def noxtls_sha512_init_def Let_def holds64_def md_holds_def sha_wf_def md_ready_def hash_algos
      sha512_h0_def sha384_h0_def sha512_224_h0_def sha512_256_h0_def)
qed

lemma sha512_update_law:
  assumes "holds64 algo iv x m" "unat len \<le> length d"
  shows "\<exists>x'. on_sha512 (\<lambda>c. noxtls_sha512_update c (Some d) len) x = (NOXTLS_RETURN_SUCCESS, x') \<and>
    holds64 algo iv x' (m @ take (unat len) d)"
proof -
  have r: "md_ready 128 (sha512_ctx x)" using assms(1) by (simp add: holds64_def sha_wf_def)
  have l: "length (take (unat len) d) = unat len" using assms(2) by simp
  have "noxtls_sha512_update (Some (sha512_ctx x)) (Some d) len = noxtls_sha512_update (Some (sha512_ctx x)) (Some (take (unat len) d)) len"
    by (simp add: noxtls_sha512_update_def)
  with sha512_update_value [OF r l] obtain c where
    "noxtls_sha512_update (Some (sha512_ctx x)) (Some d) len = (NOXTLS_RETURN_SUCCESS, Some c)"
    "md_advance 8 128 fips_sha512_compress (sha512_ctx x) (md_buffer (sha512_ctx x) @ take (unat len) d) c" by auto
  then show ?thesis using holds64_advance [OF assms(1)] by (auto simp: on_sha512_def)
qed

lemma sha512_finish_law:
  assumes h: "holds64 algo iv x m" and m: "length m < 2 ^ 61"
    and n: "n = sha512_digest_len (sha512_algo (sha512_ctx x))" and out: "n \<le> length out"
  shows "\<exists>x'. on_sha512_out noxtls_sha512_finish x (Some out) = (NOXTLS_RETURN_SUCCESS, x',
    Some (fips_sha512_family iv n m @ drop n out)) \<and> sha_wf x'"
proof -
  have c: "md_holds 8 128 fips_sha512_compress iv (sha512_ctx x) m" "md_ready 128 (sha512_ctx x)" "md_ready 64 (md32 x)"
    using h by (simp_all add: holds64_def sha_wf_def)
  obtain c' where c': "sha512_pad_blocks (sha512_ctx x) = (NOXTLS_RETURN_SUCCESS, c')" "md_ready 128 c'" "sha512_algo c' = sha512_algo (sha512_ctx x)"
    "md_h c' = finish_words 8 128 fips_sha512_compress 16
      (\<lambda>d. noxtls_add_padding_length d 128 (md_length (sha512_ctx x) + of_nat (unat (md_data_len (sha512_ctx x)))) 16) (sha512_ctx x)"
    using sha512_pad_value [OF c(2)] by blast
  have used: "\<not> (ucast (md_data_len (sha512_ctx x)) :: u32) \<ge> 128" using c(2) by (simp add: md_ready_def word_le_nat_alt unat_ucast_up)
  have l: "length (md_h c') = 8" using c'(2) by (simp add: md_ready_def)
  have "take 8 (md_h c') = absorb 128 fips_sha512_compress iv (md_pad 128 (len_be 16 (8 * length m)) m)"
    unfolding c'(4) by (rule finish_absorbs(2) [OF sha512_compresses c(1) m]) simp
  then have words: "md_h c' = absorb 128 fips_sha512_compress iv (md_pad 128 (len_be 16 (8 * length m)) m)" using l by simp
  have "n \<le> 64" by (simp add: n sha512_digest_len_def)
  note o = bytes_out64 [OF l this out, unfolded words, folded fips_sha512_family_def]
  have "on_sha512_out noxtls_sha512_finish x (Some out) = (NOXTLS_RETURN_SUCCESS, x\<lparr>sha512_ctx := c'\<rparr>,
      Some (foldl (\<lambda>out i. out[i := ucast (drop_bit (56 - 8 * (i mod 8)) (md_h c' ! (i div 8)))]) out [0..<n]))"
    using used c'(1,3) by (simp add: on_sha512_out_def noxtls_sha512_finish_def Let_def n [symmetric])
  then show ?thesis unfolding words o using c'(2) c(3) by (simp add: sha_wf_def)
qed

section \<open>SHA-1 and MD5\<close>

lemma sha1_init_law:
  assumes "sha_wf x"
  shows "\<exists>x'. on_sha (\<lambda>x. noxtls_sha1_init x NOXTLS_HASH_SHA1) x = (NOXTLS_RETURN_SUCCESS, x') \<and>
    holds32 NOXTLS_HASH_SHA1 5 fips_sha1_compress sha1_h0 x' []"
proof -
  have w: "length (md_h (md32 x)) = 8" "length (md_data (md32 x)) = 64" "md_ready 128 (sha512_ctx x)"
    using assms by (simp_all add: sha_wf_def md_ready_def)
  obtain a b c d e f g i where "md_h (md32 x) = [a, b, c, d, e, f, g, i]" using five_words [OF w(1)] by blast
  then show ?thesis
    using w secure_zero_all [of 64 "md_data (md32 x)"]
    by (auto simp: on_sha_def noxtls_sha1_init_def Let_def holds32_def md_holds_def sha_wf_def md_ready_def sha1_h0_def)
qed

lemma sha1_update_law:
  assumes "holds32 algo 5 fips_sha1_compress iv x m" "unat len \<le> length d"
  shows "\<exists>x'. on_sha (\<lambda>x. noxtls_sha1_update x (Some d) len) x = (NOXTLS_RETURN_SUCCESS, x') \<and>
    holds32 algo 5 fips_sha1_compress iv x' (m @ take (unat len) d)"
proof -
  have l: "length (take (unat len) d) < 2 ^ 32" by (rule take_u32_length)
  have "md_ready 64 (md32 x)" using assms(1) by (simp add: holds32_def sha_wf_def)
  from sha1_update_value [OF this l] obtain c where
    "sha1_update_ctx (md32 x) (take (unat len) d) = (NOXTLS_RETURN_SUCCESS, c)"
    "md_advance 5 64 fips_sha1_compress (md32 x) (md_buffer (md32 x) @ take (unat len) d) c" by blast
  then show ?thesis using holds32_advance [OF assms(1)] by (auto simp: on_sha_def noxtls_sha1_update_def)
qed

lemma sha1_finish_law:
  assumes h: "holds32 NOXTLS_HASH_SHA1 5 fips_sha1_compress sha1_h0 x m" and m: "length m < 2 ^ 61" and out: "20 \<le> length out"
  shows "\<exists>x'. on_sha_out noxtls_sha1_finish x (Some out) = (NOXTLS_RETURN_SUCCESS, x', Some (fips_sha1 m @ drop 20 out)) \<and> sha_wf x'"
proof -
  have c: "md_holds 5 64 fips_sha1_compress sha1_h0 (md32 x) m" "md_ready 64 (md32 x)" "md_ready 128 (sha512_ctx x)" "sha_algo x = NOXTLS_HASH_SHA1"
    using h by (simp_all add: holds32_def sha_wf_def)
  obtain c' where c': "sha1_pad_blocks (md32 x) = (NOXTLS_RETURN_SUCCESS, c')" "md_ready 64 c'"
    "md_h c' = finish_words 5 64 fips_sha1_compress 8
      (\<lambda>d. noxtls_add_padding_length d 64 (md_length (md32 x) + of_nat (unat (md_data_len (md32 x)))) 8) (md32 x)"
    using sha1_pad_value [OF c(2)] by blast
  have l: "length (md_h c') = 8" using c'(2) by (simp add: md_ready_def)
  have words: "take 5 (md_h c') = absorb 64 fips_sha1_compress sha1_h0 (md_pad 64 (len_be 8 (8 * length m)) m)"
    unfolding c'(3) by (rule finish_absorbs(1) [OF sha1_compresses c(1) m]) simp
  have "foldl (\<lambda>out i. store_be32 out i (md_h c' ! i)) out [0..<5] = fips_sha1 m @ drop 20 out"
    using words_out [of 5 5 "md_h c'" out] l out unfolding fips_sha1_def words [symmetric] by simp
  then show ?thesis using c' c(3,4) by (simp add: on_sha_out_def noxtls_sha1_finish_def sha_wf_def Let_def del: upt_rec_numeral)
qed

lemma md5_init_law:
  assumes "sha_wf x"
  shows "\<exists>x'. on_sha noxtls_md5_init x = (NOXTLS_RETURN_SUCCESS, x') \<and> holds32 NOXTLS_HASH_MD5 4 rfc_md5_compress md5_h0 x' []"
proof -
  have w: "length (md_data (md32 x)) = 64" "md_ready 128 (sha512_ctx x)" using assms by (simp_all add: sha_wf_def md_ready_def)
  have "take 4 ((replicate 8 0)[0 := 0x67452301, 1 := 0xefcdab89, 2 := 0x98badcfe, 3 := 0x10325476]) = md5_h0"
    by (simp add: md5_h0_def numeral_eq_Suc)
  then show ?thesis
    using w secure_zero_all [of 64 "md_data (md32 x)"]
    by (auto simp: on_sha_def noxtls_md5_init_def Let_def holds32_def md_holds_def sha_wf_def md_ready_def)
qed

lemma md5_update_law:
  assumes "holds32 algo 4 rfc_md5_compress iv x m" "unat len \<le> length d"
  shows "\<exists>x'. on_sha (\<lambda>x. noxtls_md5_update x (Some d) len) x = (NOXTLS_RETURN_SUCCESS, x') \<and>
    holds32 algo 4 rfc_md5_compress iv x' (m @ take (unat len) d)"
proof (cases "len = 0")
  case True
  then show ?thesis using assms by (simp add: on_sha_def noxtls_md5_update_def)
next
  case False
  have l: "length (take (unat len) d) < 2 ^ 32" by (rule take_u32_length)
  have r: "md_ready 64 (md32 x)" using assms(1) by (simp add: holds32_def sha_wf_def)
  then have used: "\<not> (ucast (md_data_len (md32 x)) :: u32) \<ge> 64" by (simp add: md_ready_def word_le_nat_alt unat_ucast_up)
  from md5_update_value [OF r l] obtain c where
    "md5_update_ctx (md32 x) (take (unat len) d) = (NOXTLS_RETURN_SUCCESS, c)"
    "md_advance 4 64 rfc_md5_compress (md32 x) (md_buffer (md32 x) @ take (unat len) d) c" by blast
  then show ?thesis using False used holds32_advance [OF assms(1)] by (auto simp: on_sha_def noxtls_md5_update_def)
qed

lemma md5_finish_law:
  assumes h: "holds32 NOXTLS_HASH_MD5 4 rfc_md5_compress md5_h0 x m" and m: "length m < 2 ^ 61" and out: "16 \<le> length out"
  shows "\<exists>x'. on_sha_out noxtls_md5_finish x (Some out) = (NOXTLS_RETURN_SUCCESS, x', Some (rfc_md5 m @ drop 16 out)) \<and> sha_wf x'"
proof -
  have c: "md_holds 4 64 rfc_md5_compress md5_h0 (md32 x) m" "md_ready 64 (md32 x)" "md_ready 128 (sha512_ctx x)" "sha_algo x = NOXTLS_HASH_MD5"
    using h by (simp_all add: holds32_def sha_wf_def)
  obtain c' where c': "md5_pad_blocks (md32 x) = (NOXTLS_RETURN_SUCCESS, c')" "md_ready 64 c'"
    "md_h c' = finish_words 4 64 rfc_md5_compress 8
      (\<lambda>d. noxtls_add_padding_length_little d 64 (md_length (md32 x) + of_nat (unat (md_data_len (md32 x)))) 8) (md32 x)"
    using md5_pad_value [OF c(2)] by blast
  have l: "length (md_h c') = 8" using c'(2) by (simp add: md_ready_def)
  have words: "take 4 (md_h c') = absorb 64 rfc_md5_compress md5_h0 (md_pad 64 (len_le 8 (8 * length m)) m)"
    unfolding c'(3) by (rule finish_absorbs(3) [OF md5_compresses c(1) m]) simp
  have "foldl (\<lambda>out i. store_le32 out i (md_h c' ! i)) out [0..<4] = rfc_md5 m @ drop 16 out"
    using words_out_le [of 4 "md_h c'" out] l out words by (simp add: rfc_md5_def)
  then show ?thesis using c' c(3,4) by (simp add: on_sha_out_def noxtls_md5_finish_def sha_wf_def Let_def del: upt_rec_numeral)
qed

section \<open>Sizes\<close>

lemma concat_words: "(\<And>w. length (g w) = c) \<Longrightarrow> length (concat (map g ws)) = c * length ws"
  by (induction ws) simp_all

lemma word_bytes_length [simp]: "length (be32_bytes w) = 4" "length (le32_bytes v) = 4" "length (be64_bytes u) = 8"
  by (simp_all add: be32_bytes_def le32_bytes_def be64_bytes_def)

lemma digest_lengths:
  "length (fips_sha256 m) = 32" "length (fips_sha224 m) = 28" "length (fips_sha1 m) = 20" "length (rfc_md5 m) = 16"
  "length iv = 8 \<Longrightarrow> n \<le> 64 \<Longrightarrow> length (fips_sha512_family iv n m) = n"
proof -
  have l: "length (absorb bs f iv p) = n" if "compresses n bs f r" "length iv = n" for n bs f iv p and r :: "('w, 'z) md_ctx_scheme \<Rightarrow> _"
    by (rule length_absorb [OF _ that(2)]) (rule compressesD(4) [OF that(1)])
  note concat_words [of be32_bytes 4, simplified] concat_words [of le32_bytes 4, simplified] concat_words [of be64_bytes 8, simplified]
  note w = this
  show "length (fips_sha256 m) = 32" "length (fips_sha224 m) = 28"
    using l [OF sha256_compresses, of sha256_h0] l [OF sha256_compresses, of sha224_h0]
    by (simp_all add: fips_sha256_def fips_sha224_def w sha256_h0_def sha224_h0_def)
  show "length (fips_sha1 m) = 20" using l [OF sha1_compresses, of sha1_h0] by (simp add: fips_sha1_def w sha1_h0_def)
  show "length (rfc_md5 m) = 16" using l [OF md5_compresses, of md5_h0] by (simp add: rfc_md5_def w md5_h0_def)
  show "length (fips_sha512_family iv n m) = n" if "length iv = 8" "n \<le> 64"
    using l [OF sha512_compresses that(1)] that(2) by (simp add: fips_sha512_family_def w)
qed

lemma start_lengths: "length sha512_h0 = 8" "length sha384_h0 = 8" "length sha512_224_h0 = 8" "length sha512_256_h0 = 8"
  by (simp_all add: sha512_h0_def sha384_h0_def sha512_224_h0_def sha512_256_h0_def)

lemma holds_wf: "holds32 algo n f iv x m \<Longrightarrow> sha_wf x" "holds64 algo jv x m \<Longrightarrow> sha_wf x"
  by (simp_all add: holds32_def holds64_def)

lemma sha256_all: "take 8 (absorb 64 fips_sha256_compress sha256_h0 p) = absorb 64 fips_sha256_compress sha256_h0 p"
proof -
  have "length (absorb 64 fips_sha256_compress sha256_h0 p) = 8"
    by (rule length_absorb) (simp_all add: compressesD(4) [OF sha256_compresses] sha256_h0_def)
  then show ?thesis by simp
qed

section \<open>The instances\<close>

interpretation sha256_digest: digest "on_sha (\<lambda>x. noxtls_sha256_init x NOXTLS_HASH_SHA_256)"
  "\<lambda>x d len. on_sha (\<lambda>x. noxtls_sha256_update x d len) x" "on_sha_out noxtls_sha256_finish"
  "holds32 NOXTLS_HASH_SHA_256 8 fips_sha256_compress sha256_h0" fips_sha256 32
proof unfold_locales
  fix x m out
  show "\<exists>x'. on_sha_out noxtls_sha256_finish x (Some out) = (NOXTLS_RETURN_SUCCESS, x', Some (fips_sha256 m @ drop 32 out)) \<and> sha_wf x'"
    if "holds32 NOXTLS_HASH_SHA_256 8 fips_sha256_compress sha256_h0 x m" "length m < 2 ^ 61" "32 \<le> length out"
    using sha256_finish_law [OF that(1,2) refl, of out] that(3)
    by (simp add: fips_sha256_def hash_algos sha256_all)
qed (simp_all add: sha256_init_law sha256_update_law holds_wf digest_lengths)

interpretation sha224_digest: digest "on_sha (\<lambda>x. noxtls_sha256_init x NOXTLS_HASH_SHA_224)"
  "\<lambda>x d len. on_sha (\<lambda>x. noxtls_sha256_update x d len) x" "on_sha_out noxtls_sha256_finish"
  "holds32 NOXTLS_HASH_SHA_224 8 fips_sha256_compress sha224_h0" fips_sha224 28
proof unfold_locales
  fix x m out
  show "\<exists>x'. on_sha_out noxtls_sha256_finish x (Some out) = (NOXTLS_RETURN_SUCCESS, x', Some (fips_sha224 m @ drop 28 out)) \<and> sha_wf x'"
    if "holds32 NOXTLS_HASH_SHA_224 8 fips_sha256_compress sha224_h0 x m" "length m < 2 ^ 61" "28 \<le> length out"
    using sha256_finish_law [OF that(1,2) refl, of out] that(3) 
    by (simp add: fips_sha224_def hash_algos)
qed (simp_all add: sha256_init_law sha256_update_law holds_wf digest_lengths)

interpretation sha512_digest: digest "on_sha512 (\<lambda>c. noxtls_sha512_init c NOXTLS_HASH_SHA_512)"
  "\<lambda>x d len. on_sha512 (\<lambda>c. noxtls_sha512_update c d len) x" "on_sha512_out noxtls_sha512_finish"
  "holds64 NOXTLS_HASH_SHA_512 sha512_h0" "fips_sha512_family sha512_h0 64" 64
proof unfold_locales
  fix x m out
  show "\<exists>x'. on_sha512_out noxtls_sha512_finish x (Some out) =
      (NOXTLS_RETURN_SUCCESS, x', Some (fips_sha512_family sha512_h0 64 m @ drop 64 out)) \<and> sha_wf x'"
    if "holds64 NOXTLS_HASH_SHA_512 sha512_h0 x m" "length m < 2 ^ 61" "64 \<le> length out"
    using sha512_finish_law [OF that(1,2) refl, of out] that(1,3)
    by (simp add: sha512_digest_len_def holds64_def hash_algos)
qed (simp_all add: sha512_init_law sha512_update_law holds_wf digest_lengths start_lengths)

interpretation sha384_digest: digest "on_sha512 (\<lambda>c. noxtls_sha512_init c NOXTLS_HASH_SHA_384)"
  "\<lambda>x d len. on_sha512 (\<lambda>c. noxtls_sha512_update c d len) x" "on_sha512_out noxtls_sha512_finish"
  "holds64 NOXTLS_HASH_SHA_384 sha384_h0" "fips_sha512_family sha384_h0 48" 48
proof unfold_locales
  fix x m out
  show "\<exists>x'. on_sha512_out noxtls_sha512_finish x (Some out) =
      (NOXTLS_RETURN_SUCCESS, x', Some (fips_sha512_family sha384_h0 48 m @ drop 48 out)) \<and> sha_wf x'"
    if "holds64 NOXTLS_HASH_SHA_384 sha384_h0 x m" "length m < 2 ^ 61" "48 \<le> length out"
    using sha512_finish_law [OF that(1,2) refl, of out] that(1,3)
    by (simp add: sha512_digest_len_def holds64_def hash_algos)
qed (simp_all add: sha512_init_law sha512_update_law holds_wf digest_lengths start_lengths)

interpretation sha512_224_digest: digest "on_sha512 (\<lambda>c. noxtls_sha512_init c NOXTLS_HASH_SHA_512_224)"
  "\<lambda>x d len. on_sha512 (\<lambda>c. noxtls_sha512_update c d len) x" "on_sha512_out noxtls_sha512_finish"
  "holds64 NOXTLS_HASH_SHA_512_224 sha512_224_h0" "fips_sha512_family sha512_224_h0 28" 28
proof unfold_locales
  fix x m out
  show "\<exists>x'. on_sha512_out noxtls_sha512_finish x (Some out) =
      (NOXTLS_RETURN_SUCCESS, x', Some (fips_sha512_family sha512_224_h0 28 m @ drop 28 out)) \<and> sha_wf x'"
    if "holds64 NOXTLS_HASH_SHA_512_224 sha512_224_h0 x m" "length m < 2 ^ 61" "28 \<le> length out"
    using sha512_finish_law [OF that(1,2) refl, of out] that(1,3)
    by (simp add: sha512_digest_len_def holds64_def hash_algos)
qed (simp_all add: sha512_init_law sha512_update_law holds_wf digest_lengths start_lengths)

interpretation sha512_256_digest: digest "on_sha512 (\<lambda>c. noxtls_sha512_init c NOXTLS_HASH_SHA_512_256)"
  "\<lambda>x d len. on_sha512 (\<lambda>c. noxtls_sha512_update c d len) x" "on_sha512_out noxtls_sha512_finish"
  "holds64 NOXTLS_HASH_SHA_512_256 sha512_256_h0" "fips_sha512_family sha512_256_h0 32" 32
proof unfold_locales
  fix x m out
  show "\<exists>x'. on_sha512_out noxtls_sha512_finish x (Some out) =
      (NOXTLS_RETURN_SUCCESS, x', Some (fips_sha512_family sha512_256_h0 32 m @ drop 32 out)) \<and> sha_wf x'"
    if "holds64 NOXTLS_HASH_SHA_512_256 sha512_256_h0 x m" "length m < 2 ^ 61" "32 \<le> length out"
    using sha512_finish_law [OF that(1,2) refl, of out] that(1,3)
    by (simp add: sha512_digest_len_def holds64_def hash_algos)
qed (simp_all add: sha512_init_law sha512_update_law holds_wf digest_lengths start_lengths)

interpretation sha1_digest: digest "on_sha (\<lambda>x. noxtls_sha1_init x NOXTLS_HASH_SHA1)"
  "\<lambda>x d len. on_sha (\<lambda>x. noxtls_sha1_update x d len) x" "on_sha_out noxtls_sha1_finish"
  "holds32 NOXTLS_HASH_SHA1 5 fips_sha1_compress sha1_h0" fips_sha1 20
  by unfold_locales (simp_all add: sha1_init_law sha1_update_law sha1_finish_law holds_wf digest_lengths)

interpretation md5_digest: digest "on_sha noxtls_md5_init"
  "\<lambda>x d len. on_sha (\<lambda>x. noxtls_md5_update x d len) x" "on_sha_out noxtls_md5_finish"
  "holds32 NOXTLS_HASH_MD5 4 rfc_md5_compress md5_h0" rfc_md5 16
  by unfold_locales (simp_all add: md5_init_law md5_update_law md5_finish_law holds_wf digest_lengths)

end
