(* ===== verification/Sha_Api.thy ===== *)
theory Sha_Api
  imports Digest_Laws
begin

text \<open>
  The generic digest interface of \<open>noxtls_sha.c\<close> in a build with MD5, SHA-1 and the SHA-2 family, and without
  MD4, SHA-3, RIPEMD-160 and BLAKE2: the algorithm stored at initialisation selects the functions. Its laws
  follow from the laws of the digests.
\<close>

section \<open>Dispatch\<close>

definition noxtls_sha_init :: "noxtls_sha_ctx_t option \<Rightarrow> u32 \<Rightarrow> noxtls_return_t \<times> noxtls_sha_ctx_t option" where
  "noxtls_sha_init ctx algo =
     (case ctx of
        None \<Rightarrow> (NOXTLS_RETURN_NULL, None)
      | Some x \<Rightarrow>
          let x = x\<lparr>sha_algo := algo\<rparr> in
          if algo = NOXTLS_HASH_MD5 then noxtls_md5_init (Some x)
          else if algo = NOXTLS_HASH_SHA1 then noxtls_sha1_init (Some x) algo
          else if algo = NOXTLS_HASH_SHA_224 \<or> algo = NOXTLS_HASH_SHA_256 then noxtls_sha256_init (Some x) algo
          else if algo = NOXTLS_HASH_SHA_384 \<or> algo = NOXTLS_HASH_SHA_512 \<or> algo = NOXTLS_HASH_SHA_512_224 \<or> algo = NOXTLS_HASH_SHA_512_256 then
            (case noxtls_sha512_init (Some (sha512_ctx x)) algo of (rc, c) \<Rightarrow> (rc, Some (x\<lparr>sha512_ctx := the c\<rparr>)))
          else (NOXTLS_RETURN_NOT_SUPPORTED, Some x))"

definition noxtls_sha_update ::
    "noxtls_sha_ctx_t option \<Rightarrow> bytes option \<Rightarrow> u32 \<Rightarrow> noxtls_return_t \<times> noxtls_sha_ctx_t option" where
  "noxtls_sha_update ctx data len =
     (if ctx = None \<or> data = None then (NOXTLS_RETURN_NULL, ctx)
      else
        let x = the ctx; algo = sha_algo x in
        if algo = NOXTLS_HASH_MD5 then noxtls_md5_update ctx data len
        else if algo = NOXTLS_HASH_SHA1 then noxtls_sha1_update ctx data len
        else if algo = NOXTLS_HASH_SHA_224 \<or> algo = NOXTLS_HASH_SHA_256 then noxtls_sha256_update ctx data len
        else if algo = NOXTLS_HASH_SHA_384 \<or> algo = NOXTLS_HASH_SHA_512 \<or> algo = NOXTLS_HASH_SHA_512_224 \<or> algo = NOXTLS_HASH_SHA_512_256 then
          (case noxtls_sha512_update (Some (sha512_ctx x)) data len of (rc, c) \<Rightarrow> (rc, Some (x\<lparr>sha512_ctx := the c\<rparr>)))
        else (NOXTLS_RETURN_NOT_SUPPORTED, ctx))"

definition noxtls_sha_finish ::
    "noxtls_sha_ctx_t option \<Rightarrow> bytes option \<Rightarrow> noxtls_return_t \<times> noxtls_sha_ctx_t option \<times> bytes option" where
  "noxtls_sha_finish ctx hash =
     (if ctx = None \<or> hash = None then (NOXTLS_RETURN_NULL, ctx, hash)
      else
        let x = the ctx; algo = sha_algo x in
        if algo = NOXTLS_HASH_MD5 then noxtls_md5_finish ctx hash
        else if algo = NOXTLS_HASH_SHA1 then noxtls_sha1_finish ctx hash
        else if algo = NOXTLS_HASH_SHA_224 \<or> algo = NOXTLS_HASH_SHA_256 then noxtls_sha256_finish ctx hash
        else if algo = NOXTLS_HASH_SHA_384 \<or> algo = NOXTLS_HASH_SHA_512 \<or> algo = NOXTLS_HASH_SHA_512_224 \<or> algo = NOXTLS_HASH_SHA_512_256 then
          (case noxtls_sha512_finish (Some (sha512_ctx x)) hash of (rc, c, out) \<Rightarrow> (rc, Some (x\<lparr>sha512_ctx := the c\<rparr>), out))
        else (NOXTLS_RETURN_NOT_SUPPORTED, ctx, hash))"

section \<open>The digests by algorithm\<close>

definition sha_algos :: "u32 list" where
  "sha_algos = [NOXTLS_HASH_MD5, NOXTLS_HASH_SHA1, NOXTLS_HASH_SHA_224, NOXTLS_HASH_SHA_256, NOXTLS_HASH_SHA_384, NOXTLS_HASH_SHA_512,
     NOXTLS_HASH_SHA_512_224, NOXTLS_HASH_SHA_512_256]"

definition sha_reference :: "u32 \<Rightarrow> bytes \<Rightarrow> bytes" where
  "sha_reference algo =
     (if algo = NOXTLS_HASH_MD5 then rfc_md5 else if algo = NOXTLS_HASH_SHA1 then fips_sha1
      else if algo = NOXTLS_HASH_SHA_224 then fips_sha224 else if algo = NOXTLS_HASH_SHA_256 then fips_sha256
      else if algo = NOXTLS_HASH_SHA_384 then fips_sha512_family sha384_h0 48
      else if algo = NOXTLS_HASH_SHA_512_224 then fips_sha512_family sha512_224_h0 28
      else if algo = NOXTLS_HASH_SHA_512_256 then fips_sha512_family sha512_256_h0 32
      else fips_sha512_family sha512_h0 64)"

definition sha_size :: "u32 \<Rightarrow> nat" where
  "sha_size algo =
     (if algo = NOXTLS_HASH_MD5 then 16 else if algo = NOXTLS_HASH_SHA1 then 20
      else if algo = NOXTLS_HASH_SHA_224 \<or> algo = NOXTLS_HASH_SHA_512_224 then 28
      else if algo = NOXTLS_HASH_SHA_256 \<or> algo = NOXTLS_HASH_SHA_512_256 then 32
      else if algo = NOXTLS_HASH_SHA_384 then 48 else 64)"

definition sha_holds :: "u32 \<Rightarrow> noxtls_sha_ctx_t \<Rightarrow> bytes \<Rightarrow> bool" where
  "sha_holds algo x m \<longleftrightarrow> sha_algo x = algo \<and>
     (if algo = NOXTLS_HASH_MD5 then holds32 algo 4 rfc_md5_compress md5_h0 x m
      else if algo = NOXTLS_HASH_SHA1 then holds32 algo 5 fips_sha1_compress sha1_h0 x m
      else if algo = NOXTLS_HASH_SHA_224 then holds32 algo 8 fips_sha256_compress sha224_h0 x m
      else if algo = NOXTLS_HASH_SHA_256 then holds32 algo 8 fips_sha256_compress sha256_h0 x m
      else if algo = NOXTLS_HASH_SHA_384 then holds64 algo sha384_h0 x m
      else if algo = NOXTLS_HASH_SHA_512_224 then holds64 algo sha512_224_h0 x m
      else if algo = NOXTLS_HASH_SHA_512_256 then holds64 algo sha512_256_h0 x m
      else holds64 algo sha512_h0 x m)"

lemmas sha_tables = sha_reference_def sha_size_def sha_holds_def

lemma sha_algo_cases:
  assumes "algo \<in> set sha_algos"
  obtains "algo = NOXTLS_HASH_MD5" | "algo = NOXTLS_HASH_SHA1" | "algo = NOXTLS_HASH_SHA_224" | "algo = NOXTLS_HASH_SHA_256"
    | "algo = NOXTLS_HASH_SHA_384" | "algo = NOXTLS_HASH_SHA_512" | "algo = NOXTLS_HASH_SHA_512_224" | "algo = NOXTLS_HASH_SHA_512_256"
  using assms unfolding sha_algos_def by auto

lemma algo_distinct:
  "distinct sha_algos"
  by (simp add: sha_algos_def hash_algos)

lemma set_algo_wf: "sha_wf x \<Longrightarrow> sha_wf (x\<lparr>sha_algo := a\<rparr>)"
  by (simp add: sha_wf_def)

lemma on_sha512_algo:
  "on_sha512 f x = (rc, x') \<Longrightarrow> sha_algo x' = sha_algo x"
  by (auto simp: on_sha512_def split: prod.splits)

lemma holds32_algo: "holds32 a n f iv x m \<Longrightarrow> sha_algo x = a"
  by (simp add: holds32_def)

text \<open>What the dispatch does for each algorithm.\<close>

lemma dispatch_init:
  "on_sha (\<lambda>x. noxtls_sha_init x NOXTLS_HASH_MD5) x = on_sha noxtls_md5_init (x\<lparr>sha_algo := NOXTLS_HASH_MD5\<rparr>)"
  "on_sha (\<lambda>x. noxtls_sha_init x NOXTLS_HASH_SHA1) x = on_sha (\<lambda>x. noxtls_sha1_init x NOXTLS_HASH_SHA1) (x\<lparr>sha_algo := NOXTLS_HASH_SHA1\<rparr>)"
  "on_sha (\<lambda>x. noxtls_sha_init x NOXTLS_HASH_SHA_224) x = on_sha (\<lambda>x. noxtls_sha256_init x NOXTLS_HASH_SHA_224) (x\<lparr>sha_algo := NOXTLS_HASH_SHA_224\<rparr>)"
  "on_sha (\<lambda>x. noxtls_sha_init x NOXTLS_HASH_SHA_256) x = on_sha (\<lambda>x. noxtls_sha256_init x NOXTLS_HASH_SHA_256) (x\<lparr>sha_algo := NOXTLS_HASH_SHA_256\<rparr>)"
  "on_sha (\<lambda>x. noxtls_sha_init x NOXTLS_HASH_SHA_384) x = on_sha512 (\<lambda>c. noxtls_sha512_init c NOXTLS_HASH_SHA_384) (x\<lparr>sha_algo := NOXTLS_HASH_SHA_384\<rparr>)"
  "on_sha (\<lambda>x. noxtls_sha_init x NOXTLS_HASH_SHA_512) x = on_sha512 (\<lambda>c. noxtls_sha512_init c NOXTLS_HASH_SHA_512) (x\<lparr>sha_algo := NOXTLS_HASH_SHA_512\<rparr>)"
  "on_sha (\<lambda>x. noxtls_sha_init x NOXTLS_HASH_SHA_512_224) x = on_sha512 (\<lambda>c. noxtls_sha512_init c NOXTLS_HASH_SHA_512_224) (x\<lparr>sha_algo := NOXTLS_HASH_SHA_512_224\<rparr>)"
  "on_sha (\<lambda>x. noxtls_sha_init x NOXTLS_HASH_SHA_512_256) x = on_sha512 (\<lambda>c. noxtls_sha512_init c NOXTLS_HASH_SHA_512_256) (x\<lparr>sha_algo := NOXTLS_HASH_SHA_512_256\<rparr>)"
  by (simp_all add: on_sha_def on_sha512_def noxtls_sha_init_def Let_def hash_algos split: prod.splits)

lemma dispatch_update:
  "sha_algo x = NOXTLS_HASH_MD5 \<Longrightarrow>
     on_sha (\<lambda>x. noxtls_sha_update x (Some d) len) x = on_sha (\<lambda>x. noxtls_md5_update x (Some d) len) x"
  "sha_algo x = NOXTLS_HASH_SHA1 \<Longrightarrow>
     on_sha (\<lambda>x. noxtls_sha_update x (Some d) len) x = on_sha (\<lambda>x. noxtls_sha1_update x (Some d) len) x"
  "sha_algo x = NOXTLS_HASH_SHA_224 \<Longrightarrow>
     on_sha (\<lambda>x. noxtls_sha_update x (Some d) len) x = on_sha (\<lambda>x. noxtls_sha256_update x (Some d) len) x"
  "sha_algo x = NOXTLS_HASH_SHA_256 \<Longrightarrow>
     on_sha (\<lambda>x. noxtls_sha_update x (Some d) len) x = on_sha (\<lambda>x. noxtls_sha256_update x (Some d) len) x"
  "sha_algo x = NOXTLS_HASH_SHA_384 \<Longrightarrow>
     on_sha (\<lambda>x. noxtls_sha_update x (Some d) len) x = on_sha512 (\<lambda>c. noxtls_sha512_update c (Some d) len) x"
  "sha_algo x = NOXTLS_HASH_SHA_512 \<Longrightarrow>
     on_sha (\<lambda>x. noxtls_sha_update x (Some d) len) x = on_sha512 (\<lambda>c. noxtls_sha512_update c (Some d) len) x"
  "sha_algo x = NOXTLS_HASH_SHA_512_224 \<Longrightarrow>
     on_sha (\<lambda>x. noxtls_sha_update x (Some d) len) x = on_sha512 (\<lambda>c. noxtls_sha512_update c (Some d) len) x"
  "sha_algo x = NOXTLS_HASH_SHA_512_256 \<Longrightarrow>
     on_sha (\<lambda>x. noxtls_sha_update x (Some d) len) x = on_sha512 (\<lambda>c. noxtls_sha512_update c (Some d) len) x"
  by (simp_all add: on_sha_def on_sha512_def noxtls_sha_update_def Let_def hash_algos split: prod.splits)

lemma dispatch_finish:
  "sha_algo x = NOXTLS_HASH_MD5 \<Longrightarrow>
     on_sha_out noxtls_sha_finish x (Some out) = on_sha_out noxtls_md5_finish x (Some out)"
  "sha_algo x = NOXTLS_HASH_SHA1 \<Longrightarrow>
     on_sha_out noxtls_sha_finish x (Some out) = on_sha_out noxtls_sha1_finish x (Some out)"
  "sha_algo x = NOXTLS_HASH_SHA_224 \<Longrightarrow>
     on_sha_out noxtls_sha_finish x (Some out) = on_sha_out noxtls_sha256_finish x (Some out)"
  "sha_algo x = NOXTLS_HASH_SHA_256 \<Longrightarrow>
     on_sha_out noxtls_sha_finish x (Some out) = on_sha_out noxtls_sha256_finish x (Some out)"
  "sha_algo x = NOXTLS_HASH_SHA_384 \<Longrightarrow>
     on_sha_out noxtls_sha_finish x (Some out) = on_sha512_out noxtls_sha512_finish x (Some out)"
  "sha_algo x = NOXTLS_HASH_SHA_512 \<Longrightarrow>
     on_sha_out noxtls_sha_finish x (Some out) = on_sha512_out noxtls_sha512_finish x (Some out)"
  "sha_algo x = NOXTLS_HASH_SHA_512_224 \<Longrightarrow>
     on_sha_out noxtls_sha_finish x (Some out) = on_sha512_out noxtls_sha512_finish x (Some out)"
  "sha_algo x = NOXTLS_HASH_SHA_512_256 \<Longrightarrow>
     on_sha_out noxtls_sha_finish x (Some out) = on_sha512_out noxtls_sha512_finish x (Some out)"
  by (simp_all add: on_sha_out_def on_sha512_out_def noxtls_sha_finish_def Let_def hash_algos split: prod.splits)

lemma holds_cases:
  "sha_holds NOXTLS_HASH_MD5 x m \<longleftrightarrow> sha_algo x = NOXTLS_HASH_MD5 \<and> holds32 NOXTLS_HASH_MD5 4 rfc_md5_compress md5_h0 x m"
  "sha_holds NOXTLS_HASH_SHA1 x m \<longleftrightarrow> sha_algo x = NOXTLS_HASH_SHA1 \<and> holds32 NOXTLS_HASH_SHA1 5 fips_sha1_compress sha1_h0 x m"
  "sha_holds NOXTLS_HASH_SHA_224 x m \<longleftrightarrow> sha_algo x = NOXTLS_HASH_SHA_224 \<and> holds32 NOXTLS_HASH_SHA_224 8 fips_sha256_compress sha224_h0 x m"
  "sha_holds NOXTLS_HASH_SHA_256 x m \<longleftrightarrow> sha_algo x = NOXTLS_HASH_SHA_256 \<and> holds32 NOXTLS_HASH_SHA_256 8 fips_sha256_compress sha256_h0 x m"
  "sha_holds NOXTLS_HASH_SHA_384 x m \<longleftrightarrow> sha_algo x = NOXTLS_HASH_SHA_384 \<and> holds64 NOXTLS_HASH_SHA_384 sha384_h0 x m"
  "sha_holds NOXTLS_HASH_SHA_512 x m \<longleftrightarrow> sha_algo x = NOXTLS_HASH_SHA_512 \<and> holds64 NOXTLS_HASH_SHA_512 sha512_h0 x m"
  "sha_holds NOXTLS_HASH_SHA_512_224 x m \<longleftrightarrow> sha_algo x = NOXTLS_HASH_SHA_512_224 \<and> holds64 NOXTLS_HASH_SHA_512_224 sha512_224_h0 x m"
  "sha_holds NOXTLS_HASH_SHA_512_256 x m \<longleftrightarrow> sha_algo x = NOXTLS_HASH_SHA_512_256 \<and> holds64 NOXTLS_HASH_SHA_512_256 sha512_256_h0 x m"
  by (simp_all add: sha_holds_def hash_algos)

lemma sha_sizes:
  "sha_reference NOXTLS_HASH_MD5 = rfc_md5" "sha_size NOXTLS_HASH_MD5 = 16"
  "sha_reference NOXTLS_HASH_SHA1 = fips_sha1" "sha_size NOXTLS_HASH_SHA1 = 20"
  "sha_reference NOXTLS_HASH_SHA_224 = fips_sha224" "sha_size NOXTLS_HASH_SHA_224 = 28"
  "sha_reference NOXTLS_HASH_SHA_256 = fips_sha256" "sha_size NOXTLS_HASH_SHA_256 = 32"
  "sha_reference NOXTLS_HASH_SHA_384 = fips_sha512_family sha384_h0 48" "sha_size NOXTLS_HASH_SHA_384 = 48"
  "sha_reference NOXTLS_HASH_SHA_512 = fips_sha512_family sha512_h0 64" "sha_size NOXTLS_HASH_SHA_512 = 64"
  "sha_reference NOXTLS_HASH_SHA_512_224 = fips_sha512_family sha512_224_h0 28" "sha_size NOXTLS_HASH_SHA_512_224 = 28"
  "sha_reference NOXTLS_HASH_SHA_512_256 = fips_sha512_family sha512_256_h0 32" "sha_size NOXTLS_HASH_SHA_512_256 = 32"
  by (simp_all add: sha_reference_def sha_size_def hash_algos)

lemma sha_init_law:
  assumes "algo \<in> set sha_algos" "sha_wf x"
  shows "\<exists>x'. on_sha (\<lambda>x. noxtls_sha_init x algo) x = (NOXTLS_RETURN_SUCCESS, x') \<and> sha_holds algo x' []"
  using assms(1)
proof (cases rule: sha_algo_cases)
  case 1 then show ?thesis using md5_digest.init_holds [OF set_algo_wf [OF assms(2)]]
    by (fastforce simp: dispatch_init holds_cases dest: holds32_algo on_sha512_algo)
next
  case 2 then show ?thesis using sha1_digest.init_holds [OF set_algo_wf [OF assms(2)]]
    by (fastforce simp: dispatch_init holds_cases dest: holds32_algo on_sha512_algo)
next
  case 3 then show ?thesis using sha224_digest.init_holds [OF set_algo_wf [OF assms(2)]]
    by (fastforce simp: dispatch_init holds_cases dest: holds32_algo on_sha512_algo)
next
  case 4 then show ?thesis using sha256_digest.init_holds [OF set_algo_wf [OF assms(2)]]
    by (fastforce simp: dispatch_init holds_cases dest: holds32_algo on_sha512_algo)
next
  case 5 then show ?thesis using sha384_digest.init_holds [OF set_algo_wf [OF assms(2)]]
    by (fastforce simp: dispatch_init holds_cases dest: holds32_algo on_sha512_algo)
next
  case 6 then show ?thesis using sha512_digest.init_holds [OF set_algo_wf [OF assms(2)]]
    by (fastforce simp: dispatch_init holds_cases dest: holds32_algo on_sha512_algo)
next
  case 7 then show ?thesis using sha512_224_digest.init_holds [OF set_algo_wf [OF assms(2)]]
    by (fastforce simp: dispatch_init holds_cases dest: holds32_algo on_sha512_algo)
next
  case 8 then show ?thesis using sha512_256_digest.init_holds [OF set_algo_wf [OF assms(2)]]
    by (fastforce simp: dispatch_init holds_cases dest: holds32_algo on_sha512_algo)
qed

lemma sha_update_law:
  assumes "algo \<in> set sha_algos" "sha_holds algo x m" "unat len \<le> length d"
  shows "\<exists>x'. on_sha (\<lambda>x. noxtls_sha_update x (Some d) len) x = (NOXTLS_RETURN_SUCCESS, x') \<and> sha_holds algo x' (m @ take (unat len) d)"
  using assms(1)
proof (cases rule: sha_algo_cases)
  case 1 then show ?thesis using md5_digest.update_holds [of x m len d] assms(2,3)
    by (fastforce simp: dispatch_update holds_cases dest: holds32_algo on_sha512_algo)
next
  case 2 then show ?thesis using sha1_digest.update_holds [of x m len d] assms(2,3)
    by (fastforce simp: dispatch_update holds_cases dest: holds32_algo on_sha512_algo)
next
  case 3 then show ?thesis using sha224_digest.update_holds [of x m len d] assms(2,3)
    by (fastforce simp: dispatch_update holds_cases dest: holds32_algo on_sha512_algo)
next
  case 4 then show ?thesis using sha256_digest.update_holds [of x m len d] assms(2,3)
    by (fastforce simp: dispatch_update holds_cases dest: holds32_algo on_sha512_algo)
next
  case 5 then show ?thesis using sha384_digest.update_holds [of x m len d] assms(2,3)
    by (fastforce simp: dispatch_update holds_cases dest: holds32_algo on_sha512_algo)
next
  case 6 then show ?thesis using sha512_digest.update_holds [of x m len d] assms(2,3)
    by (fastforce simp: dispatch_update holds_cases dest: holds32_algo on_sha512_algo)
next
  case 7 then show ?thesis using sha512_224_digest.update_holds [of x m len d] assms(2,3)
    by (fastforce simp: dispatch_update holds_cases dest: holds32_algo on_sha512_algo)
next
  case 8 then show ?thesis using sha512_256_digest.update_holds [of x m len d] assms(2,3)
    by (fastforce simp: dispatch_update holds_cases dest: holds32_algo on_sha512_algo)
qed

lemma sha_finish_law:
  assumes "algo \<in> set sha_algos" "sha_holds algo x m" "length m < 2 ^ 61" "sha_size algo \<le> length out"
  shows "\<exists>x'. on_sha_out noxtls_sha_finish x (Some out) = (NOXTLS_RETURN_SUCCESS, x', Some (sha_reference algo m @ drop (sha_size algo) out)) \<and> sha_wf x'"
  using assms(1)
proof (cases rule: sha_algo_cases)
  case 1 then show ?thesis using md5_digest.finish_digest [of x m out] assms(2-4)
    by (simp add: dispatch_finish holds_cases sha_sizes)
next
  case 2 then show ?thesis using sha1_digest.finish_digest [of x m out] assms(2-4)
    by (simp add: dispatch_finish holds_cases sha_sizes)
next
  case 3 then show ?thesis using sha224_digest.finish_digest [of x m out] assms(2-4)
    by (simp add: dispatch_finish holds_cases sha_sizes)
next
  case 4 then show ?thesis using sha256_digest.finish_digest [of x m out] assms(2-4)
    by (simp add: dispatch_finish holds_cases sha_sizes)
next
  case 5 then show ?thesis using sha384_digest.finish_digest [of x m out] assms(2-4)
    by (simp add: dispatch_finish holds_cases sha_sizes)
next
  case 6 then show ?thesis using sha512_digest.finish_digest [of x m out] assms(2-4)
    by (simp add: dispatch_finish holds_cases sha_sizes)
next
  case 7 then show ?thesis using sha512_224_digest.finish_digest [of x m out] assms(2-4)
    by (simp add: dispatch_finish holds_cases sha_sizes)
next
  case 8 then show ?thesis using sha512_256_digest.finish_digest [of x m out] assms(2-4)
    by (simp add: dispatch_finish holds_cases sha_sizes)
qed

lemma sha_holds_wf: "algo \<in> set sha_algos \<Longrightarrow> sha_holds algo x m \<Longrightarrow> sha_wf x"
  by (erule sha_algo_cases) (auto simp: holds_cases dest: holds_wf)

lemma sha_reference_length: "algo \<in> set sha_algos \<Longrightarrow> length (sha_reference algo m) = sha_size algo"
  by (erule sha_algo_cases) (simp_all add: sha_sizes digest_lengths start_lengths)

lemma sha_digest:
  assumes "algo \<in> set sha_algos"
  shows "digest (on_sha (\<lambda>x. noxtls_sha_init x algo)) (\<lambda>x d len. on_sha (\<lambda>x. noxtls_sha_update x d len) x) (on_sha_out noxtls_sha_finish)
    (sha_holds algo) (sha_reference algo) (sha_size algo)"
  by unfold_locales
    (simp_all add: assms sha_init_law sha_update_law sha_finish_law sha_reference_length, erule sha_holds_wf [OF assms])

section \<open>Typing of the digests\<close>

lemma length_foldl_step: "(\<And>out i. length (f out i) = length out) \<Longrightarrow> length (foldl f out xs) = length out"
  by (induction xs arbitrary: out) simp_all

lemma store_lengths: "length (store_be32 out i w) = length out" "length (store_le32 out i w) = length out"
  by (simp_all add: store_be32_def store_le32_def)

lemmas out_lengths = length_foldl_step store_lengths

lemma wf_parts: "sha_wf x \<Longrightarrow> md_ready 64 (md32 x)" "sha_wf x \<Longrightarrow> md_ready 128 (sha512_ctx x)"
  "sha_wf x \<Longrightarrow> md_ready 64 c \<Longrightarrow> sha_wf (x\<lparr>md32 := c\<rparr>)" "sha_wf x \<Longrightarrow> md_ready 128 c' \<Longrightarrow> sha_wf (x\<lparr>sha512_ctx := c'\<rparr>)"
  by (simp_all add: sha_wf_def)

lemma room: "md_ready 64 c \<Longrightarrow> \<not> (64 :: u32) \<le> ucast (md_data_len c)" "md_ready 128 c \<Longrightarrow> \<not> (128 :: u32) \<le> ucast (md_data_len c)"
  by (simp_all add: md_ready_def word_le_nat_alt unat_ucast_up)

lemma sha256_typed:
  assumes "sha_wf x"
  shows "\<exists>x'. noxtls_sha256_update (Some x) (Some d) len = (NOXTLS_RETURN_SUCCESS, Some x') \<and> sha_wf x'"
    "\<exists>x' o'. noxtls_sha256_finish (Some x) (Some out) = (NOXTLS_RETURN_SUCCESS, Some x', Some o') \<and> sha_wf x' \<and> length o' = length out"
proof -
  note w = wf_parts(1,3) [OF assms]
  show "\<exists>x'. noxtls_sha256_update (Some x) (Some d) len = (NOXTLS_RETURN_SUCCESS, Some x') \<and> sha_wf x'"
    using sha256_update_value [OF w(1) take_u32_length [of len d]] assms w(2) md_advance_ready
    by (fastforce simp: noxtls_sha256_update_def)
  show "\<exists>x' o'. noxtls_sha256_finish (Some x) (Some out) = (NOXTLS_RETURN_SUCCESS, Some x', Some o') \<and> sha_wf x' \<and> length o' = length out"
    using sha256_pad_value [OF w(1)] room(1) [OF w(1)] w(2)
    by (auto simp: noxtls_sha256_finish_def Let_def out_lengths simp del: upt_rec_numeral)
qed

lemma sha1_typed:
  assumes "sha_wf x"
  shows "\<exists>x'. noxtls_sha1_update (Some x) (Some d) len = (NOXTLS_RETURN_SUCCESS, Some x') \<and> sha_wf x'"
    "\<exists>x' o'. noxtls_sha1_finish (Some x) (Some out) = (NOXTLS_RETURN_SUCCESS, Some x', Some o') \<and> sha_wf x' \<and> length o' = length out"
proof -
  note w = wf_parts(1,3) [OF assms]
  show "\<exists>x'. noxtls_sha1_update (Some x) (Some d) len = (NOXTLS_RETURN_SUCCESS, Some x') \<and> sha_wf x'"
    using sha1_update_value [OF w(1) take_u32_length [of len d]] w(2) md_advance_ready
    by (fastforce simp: noxtls_sha1_update_def)
  show "\<exists>x' o'. noxtls_sha1_finish (Some x) (Some out) = (NOXTLS_RETURN_SUCCESS, Some x', Some o') \<and> sha_wf x' \<and> length o' = length out"
    using sha1_pad_value [OF w(1)] w(2)
    by (auto simp: noxtls_sha1_finish_def Let_def out_lengths simp del: upt_rec_numeral)
qed

lemma md5_typed:
  assumes "sha_wf x"
  shows "\<exists>x'. noxtls_md5_update (Some x) (Some d) len = (NOXTLS_RETURN_SUCCESS, Some x') \<and> sha_wf x'"
    "\<exists>x' o'. noxtls_md5_finish (Some x) (Some out) = (NOXTLS_RETURN_SUCCESS, Some x', Some o') \<and> sha_wf x' \<and> length o' = length out"
proof -
  note w = wf_parts(1,3) [OF assms]
  show "\<exists>x'. noxtls_md5_update (Some x) (Some d) len = (NOXTLS_RETURN_SUCCESS, Some x') \<and> sha_wf x'"
    using md5_update_value [OF w(1) take_u32_length [of len d]] room(1) [OF w(1)] assms w(2) md_advance_ready
    by (fastforce simp: noxtls_md5_update_def)
  show "\<exists>x' o'. noxtls_md5_finish (Some x) (Some out) = (NOXTLS_RETURN_SUCCESS, Some x', Some o') \<and> sha_wf x' \<and> length o' = length out"
    using md5_pad_value [OF w(1)] w(2)
    by (auto simp: noxtls_md5_finish_def Let_def out_lengths simp del: upt_rec_numeral)
qed

lemma sha512_typed:
  assumes "md_ready 128 c" "unat len \<le> length d"
  shows "\<exists>c'. noxtls_sha512_update (Some c) (Some d) len = (NOXTLS_RETURN_SUCCESS, Some c') \<and> md_ready 128 c'"
    "\<exists>c' o'. noxtls_sha512_finish (Some c) (Some out) = (NOXTLS_RETURN_SUCCESS, Some c', Some o') \<and> md_ready 128 c' \<and> length o' = length out"
proof -
  have "noxtls_sha512_update (Some c) (Some d) len = noxtls_sha512_update (Some c) (Some (take (unat len) d)) len"
    by (simp add: noxtls_sha512_update_def)
  then show "\<exists>c'. noxtls_sha512_update (Some c) (Some d) len = (NOXTLS_RETURN_SUCCESS, Some c') \<and> md_ready 128 c'"
    using sha512_update_value [OF assms(1), of "take (unat len) d" len] assms(2) md_advance_ready by fastforce
  show "\<exists>c' o'. noxtls_sha512_finish (Some c) (Some out) = (NOXTLS_RETURN_SUCCESS, Some c', Some o') \<and> md_ready 128 c' \<and> length o' = length out"
    using sha512_pad_value [OF assms(1)] room(2) [OF assms(1)]
    by (auto simp: noxtls_sha512_finish_def Let_def out_lengths simp del: upt_rec_numeral)
qed

lemma sha_unsupported:
  assumes "sha_algo x \<notin> set sha_algos"
  shows "noxtls_sha_update (Some x) (Some d) len = (NOXTLS_RETURN_NOT_SUPPORTED, Some x)"
    "noxtls_sha_finish (Some x) (Some out) = (NOXTLS_RETURN_NOT_SUPPORTED, Some x, Some out)"
  using assms by (simp_all add: sha_algos_def noxtls_sha_update_def noxtls_sha_finish_def Let_def)

lemma sha_update_typed:
  assumes "sha_wf x" "unat len \<le> length d" "sha_algo x \<in> set sha_algos"
  shows "\<exists>x'. noxtls_sha_update (Some x) (Some d) len = (NOXTLS_RETURN_SUCCESS, Some x') \<and> sha_wf x'"
  using sha256_typed(1) [OF assms(1)] sha1_typed(1) [OF assms(1)] md5_typed(1) [OF assms(1)]
    sha512_typed(1) [OF wf_parts(2) [OF assms(1)] assms(2)] assms(3) wf_parts(4) [OF assms(1)]
  by (auto simp: noxtls_sha_update_def Let_def sha_algos_def split: prod.splits)

lemma sha_finish_typed:
  assumes "sha_wf x" "sha_algo x \<in> set sha_algos"
  shows "\<exists>x' o'. noxtls_sha_finish (Some x) (Some out) = (NOXTLS_RETURN_SUCCESS, Some x', Some o') \<and> sha_wf x' \<and> length o' = length out"
proof -
  have z: "unat (0 :: u32) \<le> length []" by simp
  show ?thesis
    using sha256_typed(2) [OF assms(1), of out] sha1_typed(2) [OF assms(1), of out] md5_typed(2) [OF assms(1), of out]
      sha512_typed(2) [OF wf_parts(2) [OF assms(1)] z, of out] assms(2) wf_parts(4) [OF assms(1)]
    by (auto simp: noxtls_sha_finish_def Let_def sha_algos_def split: prod.splits)
qed

section \<open>Properties\<close>

text \<open>
  C31. Streaming. For each of the eight digests, a session of \<open>noxtls_sha_init\<close>, any number of
  \<open>noxtls_sha_update\<close> calls on pieces of any length, and \<open>noxtls_sha_finish\<close> succeeds from any
  well-formed context and writes the FIPS 180-4 or RFC 1321 digest of the concatenated pieces to the front of the
  output buffer and nothing behind it.
\<close>

theorem sha_streaming:
  assumes "algo \<in> set sha_algos" "sha_wf x" "\<forall>d\<in>set ds. length d < 2 ^ 32" "length (concat ds) < 2 ^ 61" "sha_size algo \<le> length out"
  shows "digest_session (on_sha (\<lambda>x. noxtls_sha_init x algo)) (\<lambda>x d len. on_sha (\<lambda>x. noxtls_sha_update x d len) x)
      (on_sha_out noxtls_sha_finish) x ds out =
    (NOXTLS_RETURN_SUCCESS, Some (sha_reference algo (concat ds) @ drop (sha_size algo) out))"
  by (rule digest.session_value [OF sha_digest [OF assms(1)] assms(2-5)])

theorem sha_streaming_witness:
  "digest_session (on_sha (\<lambda>x. noxtls_sha_init x NOXTLS_HASH_SHA_224)) (\<lambda>x d len. on_sha (\<lambda>x. noxtls_sha_update x d len) x)
      (on_sha_out noxtls_sha_finish) zero_sha_ctx [[0x61], [], [0x62, 0x63]] (replicate 29 0xAA) =
    (NOXTLS_RETURN_SUCCESS, Some (fips_sha224 [0x61, 0x62, 0x63] @ [0xAA]))"
  using sha_streaming [of NOXTLS_HASH_SHA_224 zero_sha_ctx "[[0x61], [], [0x62, 0x63]]" "replicate 29 0xAA"]
  by (simp add: zero_wf sha_sizes) (simp add: sha_algos_def)

text \<open>
  C32. The compression steps are the standard ones. On a whole block the unrolled SHA-256 rounds over the ring of
  sixteen words, the rolled SHA-512 and SHA-1 rounds and the MD5 steps compute the compression functions of FIPS 180-4
  (with the full message schedule) and RFC 1321 (with its table of word indices and shifts), leave the unused state
  words and the rest of the context alone, and read exactly one block.
\<close>

theorem rounds_are_references:
  assumes "length (md_h c) = 8" "64 \<le> length d" "length (md_h c') = 8" "128 \<le> length d'"
  shows "noxtls_sha256_round c (Some d) = (NOXTLS_RETURN_SUCCESS, c\<lparr>md_h := fips_sha256_compress (md_h c) (take 64 d)\<rparr>) \<and>
    noxtls_sha1_round c (Some d) =
      (NOXTLS_RETURN_SUCCESS, c\<lparr>md_h := fips_sha1_compress (take 5 (md_h c)) (take 64 d) @ drop 5 (md_h c)\<rparr>) \<and>
    noxtls_md5_round c (Some d) =
      (NOXTLS_RETURN_SUCCESS, c\<lparr>md_h := rfc_md5_compress (take 4 (md_h c)) (take 64 d) @ drop 4 (md_h c)\<rparr>) \<and>
    noxtls_sha512_round c' (Some d') = (NOXTLS_RETURN_SUCCESS, c'\<lparr>md_h := fips_sha512_compress (md_h c') (take 128 d')\<rparr>)"
  using compressesD(5) [OF sha256_compresses assms(2,1)] compressesD(5) [OF sha1_compresses assms(2,1)]
    compressesD(5) [OF md5_compresses assms(2,1)] compressesD(5) [OF sha512_compresses assms(4,3)] assms(1,3)
  by (simp add: lift_words_def)

theorem rounds_are_references_witness:
  "noxtls_md5_round zero_md32 (Some (replicate 64 0)) =
     (NOXTLS_RETURN_SUCCESS, zero_md32\<lparr>md_h := rfc_md5_compress (replicate 4 0) (replicate 64 0) @ replicate 4 0\<rparr>)"
  using rounds_are_references [of zero_md32 "replicate 64 0" zero_sha512 "replicate 128 0"]
  by (simp add: zero_md32_def zero_sha512_def numeral_eq_Suc)

text \<open>
  C33. Typing. From a context whose arrays have their sizes and whose buffers have room, every call of the generic
  digest interface, with any algorithm, any data and any output buffer, returns such a context; init, update
  and finish succeed exactly for the eight digests of the build and report \<open>NOT_SUPPORTED\<close> for all others.
\<close>

theorem sha_calls_typed:
  assumes "sha_wf x" "unat len \<le> length d"
  shows "(case noxtls_sha_init (Some x) algo of (rc, y) \<Rightarrow>
      sha_wf (the y) \<and> sha_algo (the y) = algo \<and>
      rc = (if algo \<in> set sha_algos then NOXTLS_RETURN_SUCCESS else NOXTLS_RETURN_NOT_SUPPORTED)) \<and>
    (case noxtls_sha_update (Some x) (Some d) len of (rc, y) \<Rightarrow>
      sha_wf (the y) \<and> rc = (if sha_algo x \<in> set sha_algos then NOXTLS_RETURN_SUCCESS else NOXTLS_RETURN_NOT_SUPPORTED)) \<and>
    (case noxtls_sha_finish (Some x) (Some out) of (rc, y, out') \<Rightarrow>
      sha_wf (the y) \<and> length (the out') = length out \<and>
      rc = (if sha_algo x \<in> set sha_algos then NOXTLS_RETURN_SUCCESS else NOXTLS_RETURN_NOT_SUPPORTED))"
proof (intro conjI)
  show "case noxtls_sha_init (Some x) algo of (rc, y) \<Rightarrow> sha_wf (the y) \<and> sha_algo (the y) = algo \<and>
      rc = (if algo \<in> set sha_algos then NOXTLS_RETURN_SUCCESS else NOXTLS_RETURN_NOT_SUPPORTED)"
  proof (cases "algo \<in> set sha_algos")
    case True
    obtain x' where "on_sha (\<lambda>x. noxtls_sha_init x algo) x = (NOXTLS_RETURN_SUCCESS, x')" "sha_holds algo x' []"
      using sha_init_law [OF True assms(1)] by blast
    then show ?thesis using True sha_holds_wf [OF True, of x' "[]"] by (auto simp: on_sha_def sha_holds_def split: prod.splits)
  next
    case False
    then show ?thesis using set_algo_wf [OF assms(1), of algo] by (simp add: sha_algos_def noxtls_sha_init_def Let_def)
  qed
  show "case noxtls_sha_update (Some x) (Some d) len of (rc, y) \<Rightarrow>
      sha_wf (the y) \<and> rc = (if sha_algo x \<in> set sha_algos then NOXTLS_RETURN_SUCCESS else NOXTLS_RETURN_NOT_SUPPORTED)"
    using sha_update_typed [OF assms] sha_unsupported(1) [of x d len] assms(1) by (cases "sha_algo x \<in> set sha_algos") auto
  show "case noxtls_sha_finish (Some x) (Some out) of (rc, y, out') \<Rightarrow> sha_wf (the y) \<and> length (the out') = length out \<and>
      rc = (if sha_algo x \<in> set sha_algos then NOXTLS_RETURN_SUCCESS else NOXTLS_RETURN_NOT_SUPPORTED)"
    using sha_finish_typed [OF assms(1), of out] sha_unsupported(2) [of x out] assms(1) by (cases "sha_algo x \<in> set sha_algos") auto
qed

theorem sha_calls_typed_witness:
  "case noxtls_sha_init (Some zero_sha_ctx) NOXTLS_HASH_SHA_512_256 of (rc, y) \<Rightarrow>
     sha_wf (the y) \<and> sha_algo (the y) = NOXTLS_HASH_SHA_512_256 \<and> rc = NOXTLS_RETURN_SUCCESS"
  using sha_calls_typed [of zero_sha_ctx 2 "[0, 0]" NOXTLS_HASH_SHA_512_256]
  by (simp add: zero_wf sha_algos_def)

end
