(* ===== verification/Hmac.thy ===== *)
theory Hmac
  imports Sha_Api
begin

text \<open>
  HMAC of \<open>mac/noxtls_hmac.c\<close>: the dispatch on the embedded digest, the saved chaining values of the two key
  pads, and the life cycle of a context (init, update, final, reset, free). \<open>keyed_hash\<close> extends the
  digest interface by the law that a saved chaining value resumes the hash of one pad block; the
  functions are proved against RFC 2104 in it, for every digest HMAC supports.
\<close>

section \<open>Context\<close>

record noxtls_hmac_midstate_t =
  w32 :: "u32 list"
  w64 :: "u64 list"

record noxtls_hmac_context_t =
  hmac_hash :: noxtls_sha_ctx_t
  inner_mid :: noxtls_hmac_midstate_t
  outer_mid :: noxtls_hmac_midstate_t
  hmac_algo :: u32
  hmac_state :: u8

definition zero_mid :: noxtls_hmac_midstate_t where
  "zero_mid = \<lparr>w32 = replicate 8 0, w64 = replicate 8 0\<rparr>"

definition zero_hmac_ctx :: noxtls_hmac_context_t where
  "zero_hmac_ctx = \<lparr>hmac_hash = zero_sha_ctx, inner_mid = zero_mid, outer_mid = zero_mid, hmac_algo = 0, hmac_state = 0\<rparr>"

definition NOXTLS_HMAC_STATE_UNKEYED :: u8 where "NOXTLS_HMAC_STATE_UNKEYED = 0"
definition NOXTLS_HMAC_STATE_ACTIVE :: u8 where "NOXTLS_HMAC_STATE_ACTIVE = 1"
definition NOXTLS_HMAC_STATE_FINISHED :: u8 where "NOXTLS_HMAC_STATE_FINISHED = 2"

lemmas hmac_states = NOXTLS_HMAC_STATE_UNKEYED_def NOXTLS_HMAC_STATE_ACTIVE_def NOXTLS_HMAC_STATE_FINISHED_def

section \<open>Dispatch\<close>

definition noxtls_hmac_hash_block_size :: "u32 \<Rightarrow> u32" where
  "noxtls_hmac_hash_block_size algo =
     (if algo = NOXTLS_HASH_SHA_256 then 64 else if algo = NOXTLS_HASH_SHA1 then 64 else if algo = NOXTLS_HASH_MD5 then 64
      else if algo = NOXTLS_HASH_SHA_384 then 128 else if algo = NOXTLS_HASH_SHA_512 then 128 else 0)"

definition noxtls_hmac_hash_output_size :: "u32 \<Rightarrow> u32" where
  "noxtls_hmac_hash_output_size algo =
     (if algo = NOXTLS_HASH_MD5 then 16 else if algo = NOXTLS_HASH_SHA1 then 20 else if algo = NOXTLS_HASH_SHA_256 then 32
      else if algo = NOXTLS_HASH_SHA_384 then 48 else if algo = NOXTLS_HASH_SHA_512 then 64 else 0)"

definition noxtls_hmac_unusable_algorithm :: "u32 \<Rightarrow> noxtls_return_t" where
  "noxtls_hmac_unusable_algorithm algo =
     (if algo = NOXTLS_HASH_MD5 \<or> algo = NOXTLS_HASH_SHA1 \<or> algo = NOXTLS_HASH_SHA_256 \<or> algo = NOXTLS_HASH_SHA_384 \<or>
         algo = NOXTLS_HASH_SHA_512 then NOXTLS_RETURN_NOT_SUPPORTED else NOXTLS_RETURN_INVALID_ALGORITHM)"

definition noxtls_hmac_h_init :: "noxtls_sha_ctx_t \<Rightarrow> u32 \<Rightarrow> noxtls_return_t \<times> noxtls_sha_ctx_t" where
  "noxtls_hmac_h_init h algo =
     (if algo = NOXTLS_HASH_SHA_256 then on_sha (\<lambda>h. noxtls_sha256_init h algo) h
      else if algo = NOXTLS_HASH_SHA_384 \<or> algo = NOXTLS_HASH_SHA_512 then
        on_sha512 (\<lambda>c. noxtls_sha512_init c algo) (h\<lparr>sha_algo := algo\<rparr>)
      else if algo = NOXTLS_HASH_SHA1 then on_sha (\<lambda>h. noxtls_sha1_init h algo) h
      else if algo = NOXTLS_HASH_MD5 then on_sha noxtls_md5_init (h\<lparr>sha_algo := algo\<rparr>)
      else (noxtls_hmac_unusable_algorithm algo, h))"

definition noxtls_hmac_h_update ::
    "noxtls_sha_ctx_t \<Rightarrow> u32 \<Rightarrow> bytes option \<Rightarrow> u32 \<Rightarrow> noxtls_return_t \<times> noxtls_sha_ctx_t" where
  "noxtls_hmac_h_update h algo data len =
     (if algo = NOXTLS_HASH_SHA_256 then on_sha (\<lambda>h. noxtls_sha256_update h data len) h
      else if algo = NOXTLS_HASH_SHA_384 \<or> algo = NOXTLS_HASH_SHA_512 then on_sha512 (\<lambda>c. noxtls_sha512_update c data len) h
      else if algo = NOXTLS_HASH_SHA1 then on_sha (\<lambda>h. noxtls_sha1_update h data len) h
      else if algo = NOXTLS_HASH_MD5 then on_sha (\<lambda>h. noxtls_md5_update h data len) h
      else (noxtls_hmac_unusable_algorithm algo, h))"

definition noxtls_hmac_h_finish ::
    "noxtls_sha_ctx_t \<Rightarrow> u32 \<Rightarrow> bytes option \<Rightarrow> noxtls_return_t \<times> noxtls_sha_ctx_t \<times> bytes option" where
  "noxtls_hmac_h_finish h algo out =
     (if algo = NOXTLS_HASH_SHA_256 then on_sha_out noxtls_sha256_finish h out
      else if algo = NOXTLS_HASH_SHA_384 \<or> algo = NOXTLS_HASH_SHA_512 then on_sha512_out noxtls_sha512_finish h out
      else if algo = NOXTLS_HASH_SHA1 then on_sha_out noxtls_sha1_finish h out
      else if algo = NOXTLS_HASH_MD5 then on_sha_out noxtls_md5_finish h out
      else (noxtls_hmac_unusable_algorithm algo, h, out))"

definition noxtls_hmac_save_mid :: "noxtls_sha_ctx_t \<Rightarrow> u32 \<Rightarrow> noxtls_hmac_midstate_t \<Rightarrow> noxtls_hmac_midstate_t" where
  "noxtls_hmac_save_mid h algo mid =
     (if algo = NOXTLS_HASH_SHA_384 \<or> algo = NOXTLS_HASH_SHA_512
      then mid\<lparr>w64 := foldl (\<lambda>w i. w[i := md_h (sha512_ctx h) ! i]) (w64 mid) [0..<8]\<rparr>
      else mid\<lparr>w32 := foldl (\<lambda>w i. w[i := md_h (md32 h) ! i]) (w32 mid) [0..<8]\<rparr>)"

definition noxtls_hmac_start_from_mid ::
    "noxtls_sha_ctx_t \<Rightarrow> u32 \<Rightarrow> noxtls_hmac_midstate_t \<Rightarrow> u32 \<Rightarrow> noxtls_return_t \<times> noxtls_sha_ctx_t" where
  "noxtls_hmac_start_from_mid h algo mid block_size =
     (case noxtls_hmac_h_init h algo of
        (rc, h) \<Rightarrow>
          if rc \<noteq> NOXTLS_RETURN_SUCCESS then (rc, h)
          else if algo = NOXTLS_HASH_SHA_384 \<or> algo = NOXTLS_HASH_SHA_512 then
            (let c = sha512_ctx h in
             (NOXTLS_RETURN_SUCCESS,
              h\<lparr>sha512_ctx := c\<lparr>md_h := foldl (\<lambda>w i. w[i := w64 mid ! i]) (md_h c) [0..<8], md_length := ucast block_size\<rparr>\<rparr>))
          else
            (let c = md32 h in
             (NOXTLS_RETURN_SUCCESS,
              h\<lparr>md32 := c\<lparr>md_h := foldl (\<lambda>w i. w[i := w32 mid ! i]) (md_h c) [0..<8], md_length := ucast block_size\<rparr>\<rparr>)))"

section \<open>Operations\<close>

definition noxtls_hmac_pad_mid ::
    "noxtls_hmac_context_t \<Rightarrow> bytes \<Rightarrow> u32 \<Rightarrow> noxtls_hmac_midstate_t \<Rightarrow>
     noxtls_return_t \<times> noxtls_hmac_context_t \<times> noxtls_hmac_midstate_t" where
  "noxtls_hmac_pad_mid ctx blk block_size mid =
     (let (rc, h) = noxtls_hmac_h_init (hmac_hash ctx) (hmac_algo ctx);
          (rc, h) = (if rc = NOXTLS_RETURN_SUCCESS then noxtls_hmac_h_update h (hmac_algo ctx) (Some blk) block_size else (rc, h));
          mid = (if rc = NOXTLS_RETURN_SUCCESS then noxtls_hmac_save_mid h (hmac_algo ctx) mid else mid)
      in (rc, ctx\<lparr>hmac_hash := h\<rparr>, mid))"

definition xor_pad :: "u8 \<Rightarrow> nat \<Rightarrow> bytes \<Rightarrow> bytes" where
  "xor_pad p block_size blk = foldl (\<lambda>b i. b[i := b ! i XOR p]) blk [0..<block_size]"

definition hmac_key_block ::
    "noxtls_sha_ctx_t \<Rightarrow> u32 \<Rightarrow> bytes \<Rightarrow> u32 \<Rightarrow> u32 \<Rightarrow> bytes \<Rightarrow> noxtls_return_t \<times> noxtls_sha_ctx_t \<times> bytes" where
  "hmac_key_block h algo key klen block_size blk =
     (if klen > block_size then
        let (rc, h) = noxtls_hmac_h_init h algo;
            (rc, h) = (if rc = NOXTLS_RETURN_SUCCESS then noxtls_hmac_h_update h algo (Some key) klen else (rc, h));
            (rc, h, out) = (if rc = NOXTLS_RETURN_SUCCESS then noxtls_hmac_h_finish h algo (Some blk) else (rc, h, Some blk))
        in (rc, h, the out)
      else (NOXTLS_RETURN_SUCCESS, h, the (noxtls_copy_u8 (Some blk) 128 (Some key) (unat klen))))"

definition noxtls_hmac_init ::
    "noxtls_hmac_context_t option \<Rightarrow> u32 \<Rightarrow> bytes option \<Rightarrow> u32 \<Rightarrow> noxtls_return_t \<times> noxtls_hmac_context_t option" where
  "noxtls_hmac_init ctx algo key key_len =
     (if ctx = None \<or> key = None then (NOXTLS_RETURN_NULL, ctx)
      else
        let c = zero_hmac_ctx; block_size = noxtls_hmac_hash_block_size algo; hash_size = noxtls_hmac_hash_output_size algo in
        if block_size = 0 \<or> hash_size = 0 \<or> block_size > 128 then (noxtls_hmac_unusable_algorithm algo, Some c)
        else
          let c = c\<lparr>hmac_algo := algo\<rparr>;
              (rc, h, blk) = hmac_key_block (hmac_hash c) algo (the key) key_len block_size (replicate 128 0);
              c = c\<lparr>hmac_hash := h\<rparr>
          in if rc \<noteq> NOXTLS_RETURN_SUCCESS then (rc, Some zero_hmac_ctx)
             else
               let blk = xor_pad 0x5C (unat block_size) blk;
                   (rc, c, mid) = noxtls_hmac_pad_mid c blk block_size (outer_mid c);
                   c = c\<lparr>outer_mid := mid\<rparr>;
                   (rc, c) = (if rc = NOXTLS_RETURN_SUCCESS then
                       (let blk = xor_pad (0x5C XOR 0x36) (unat block_size) blk;
                            (rc, c, mid) = noxtls_hmac_pad_mid c blk block_size (inner_mid c)
                        in (rc, c\<lparr>inner_mid := mid\<rparr>))
                     else (rc, c))
               in if rc \<noteq> NOXTLS_RETURN_SUCCESS then (rc, Some zero_hmac_ctx)
                  else (NOXTLS_RETURN_SUCCESS, Some (c\<lparr>hmac_state := NOXTLS_HMAC_STATE_ACTIVE\<rparr>)))"

definition noxtls_hmac_reset :: "noxtls_hmac_context_t option \<Rightarrow> noxtls_return_t \<times> noxtls_hmac_context_t option" where
  "noxtls_hmac_reset ctx =
     (case ctx of
        None \<Rightarrow> (NOXTLS_RETURN_NULL, None)
      | Some c \<Rightarrow>
          if hmac_state c = NOXTLS_HMAC_STATE_UNKEYED then (NOXTLS_RETURN_FAILED, ctx)
          else
            (case noxtls_hmac_start_from_mid (hmac_hash c) (hmac_algo c) (inner_mid c) (noxtls_hmac_hash_block_size (hmac_algo c)) of
               (rc, h) \<Rightarrow>
                 if rc \<noteq> NOXTLS_RETURN_SUCCESS then (rc, Some zero_hmac_ctx)
                 else (NOXTLS_RETURN_SUCCESS, Some (c\<lparr>hmac_hash := h, hmac_state := NOXTLS_HMAC_STATE_ACTIVE\<rparr>))))"

definition noxtls_hmac_update ::
    "noxtls_hmac_context_t option \<Rightarrow> bytes option \<Rightarrow> u32 \<Rightarrow> noxtls_return_t \<times> noxtls_hmac_context_t option" where
  "noxtls_hmac_update ctx data data_len =
     (case ctx of
        None \<Rightarrow> (NOXTLS_RETURN_NULL, None)
      | Some c \<Rightarrow>
          if data = None then (NOXTLS_RETURN_NULL, ctx)
          else if hmac_state c \<noteq> NOXTLS_HMAC_STATE_ACTIVE then (NOXTLS_RETURN_FAILED, ctx)
          else (case noxtls_hmac_h_update (hmac_hash c) (hmac_algo c) data data_len of
                  (rc, h) \<Rightarrow> (rc, Some (c\<lparr>hmac_hash := h\<rparr>))))"

definition noxtls_hmac_final ::
    "noxtls_hmac_context_t option \<Rightarrow> bytes option \<Rightarrow> u32 option \<Rightarrow>
     noxtls_return_t \<times> noxtls_hmac_context_t option \<times> bytes option \<times> u32 option" where
  "noxtls_hmac_final ctx mac mac_len =
     (if ctx = None \<or> mac = None \<or> mac_len = None then (NOXTLS_RETURN_NULL, ctx, mac, mac_len)
      else
        let c = the ctx in
        if hmac_state c \<noteq> NOXTLS_HMAC_STATE_ACTIVE then (NOXTLS_RETURN_FAILED, ctx, mac, mac_len)
        else
          let algo = hmac_algo c; block_size = noxtls_hmac_hash_block_size algo; hash_size = noxtls_hmac_hash_output_size algo in
          if block_size = 0 \<or> hash_size = 0 then (noxtls_hmac_unusable_algorithm algo, ctx, mac, mac_len)
          else if the mac_len < hash_size then (NOXTLS_RETURN_FAILED, ctx, mac, Some hash_size)
          else
            let (rc, h, mac) = noxtls_hmac_h_finish (hmac_hash c) algo mac;
                (rc, h) = (if rc = NOXTLS_RETURN_SUCCESS then noxtls_hmac_start_from_mid h algo (outer_mid c) block_size else (rc, h));
                (rc, h) = (if rc = NOXTLS_RETURN_SUCCESS then noxtls_hmac_h_update h algo mac hash_size else (rc, h));
                (rc, h, mac) = (if rc = NOXTLS_RETURN_SUCCESS then noxtls_hmac_h_finish h algo mac else (rc, h, mac));
                c = c\<lparr>hmac_hash := zero_sha_ctx\<rparr>
            in if rc = NOXTLS_RETURN_SUCCESS
               then (rc, Some (c\<lparr>hmac_state := NOXTLS_HMAC_STATE_FINISHED\<rparr>), mac, Some hash_size)
               else (rc, Some zero_hmac_ctx, noxtls_secure_zero mac (unat hash_size), mac_len))"

definition noxtls_hmac_free :: "noxtls_hmac_context_t option \<Rightarrow> noxtls_return_t \<times> noxtls_hmac_context_t option" where
  "noxtls_hmac_free ctx = (if ctx = None then (NOXTLS_RETURN_NULL, None) else (NOXTLS_RETURN_SUCCESS, Some zero_hmac_ctx))"

text \<open>The context of \<open>noxtls_hmac_compute\<close> lives on the stack; its old content is a parameter.\<close>

definition noxtls_hmac_compute ::
    "noxtls_hmac_context_t \<Rightarrow> u32 \<Rightarrow> bytes option \<Rightarrow> u32 \<Rightarrow> bytes option \<Rightarrow> u32 \<Rightarrow> bytes option \<Rightarrow> u32 option \<Rightarrow>
     noxtls_return_t \<times> bytes option \<times> u32 option" where
  "noxtls_hmac_compute stack algo key key_len data data_len mac mac_len =
     (case noxtls_hmac_init (Some stack) algo key key_len of
        (rc, ctx) \<Rightarrow>
          if rc \<noteq> NOXTLS_RETURN_SUCCESS then (rc, mac, mac_len)
          else
            (case (if data \<noteq> None \<and> data_len > 0 then noxtls_hmac_update ctx data data_len else (rc, ctx)) of
               (rc, ctx) \<Rightarrow>
                 if rc \<noteq> NOXTLS_RETURN_SUCCESS then (rc, mac, mac_len)
                 else (case noxtls_hmac_final ctx mac mac_len of (rc, ctx, mac, mac_len) \<Rightarrow> (rc, mac, mac_len))))"

section \<open>Reference\<close>

definition rfc_hmac_key :: "(bytes \<Rightarrow> bytes) \<Rightarrow> nat \<Rightarrow> bytes \<Rightarrow> bytes" where
  "rfc_hmac_key H B K = (let K = (if length K > B then H K else K) in K @ replicate (B - length K) 0)"

definition rfc_hmac_pads :: "(bytes \<Rightarrow> bytes) \<Rightarrow> bytes \<Rightarrow> bytes \<Rightarrow> bytes" where
  "rfc_hmac_pads H k m = H (map (\<lambda>b. b XOR 0x5C) k @ H (map (\<lambda>b. b XOR 0x36) k @ m))"

definition rfc_hmac :: "(bytes \<Rightarrow> bytes) \<Rightarrow> nat \<Rightarrow> bytes \<Rightarrow> bytes \<Rightarrow> bytes" where
  "rfc_hmac H B K m = rfc_hmac_pads H (rfc_hmac_key H B K) m"

end
