(* ===== verification/Hmac_Correct.thy ===== *)
theory Hmac_Correct
  imports Hmac
begin

text \<open>
  The correctness of \<open>mac/noxtls_hmac.c\<close>. A keyed context stores, for both pads, a chaining value that
  resumes the hash of the pad block; an accepting context has absorbed the inner pad and the message
  so far. Every function keeps these, and final returns the RFC 2104 value, for MD5, SHA-1, SHA-256,
  SHA-384 and SHA-512.
\<close>

section \<open>The interface of HMAC to its digest\<close>

definition resumes ::
    "(noxtls_sha_ctx_t \<Rightarrow> bytes \<Rightarrow> bool) \<Rightarrow> nat \<Rightarrow> u32 \<Rightarrow> noxtls_hmac_midstate_t \<Rightarrow> bytes \<Rightarrow> bool" where
  "resumes holds bs algo mid b \<longleftrightarrow>
     (\<forall>y. sha_wf y \<longrightarrow> (\<exists>y'. noxtls_hmac_start_from_mid y algo mid (of_nat bs) = (NOXTLS_RETURN_SUCCESS, y') \<and> holds y' b))"

definition mid_wf :: "noxtls_hmac_midstate_t \<Rightarrow> bool" where
  "mid_wf mid \<longleftrightarrow> length (w32 mid) = 8 \<and> length (w64 mid) = 8"

definition hmac_keyed ::
    "(noxtls_sha_ctx_t \<Rightarrow> bytes \<Rightarrow> bool) \<Rightarrow> nat \<Rightarrow> u32 \<Rightarrow> bytes \<Rightarrow> noxtls_hmac_context_t \<Rightarrow> bool" where
  "hmac_keyed holds bs algo k c \<longleftrightarrow>
     hmac_algo c = algo \<and> sha_wf (hmac_hash c) \<and> length k = bs \<and> hmac_state c \<noteq> NOXTLS_HMAC_STATE_UNKEYED \<and>
     resumes holds bs algo (inner_mid c) (map (\<lambda>b. b XOR 0x36) k) \<and>
     resumes holds bs algo (outer_mid c) (map (\<lambda>b. b XOR 0x5C) k)"

definition hmac_accepts ::
    "(noxtls_sha_ctx_t \<Rightarrow> bytes \<Rightarrow> bool) \<Rightarrow> nat \<Rightarrow> u32 \<Rightarrow> bytes \<Rightarrow> noxtls_hmac_context_t \<Rightarrow> bytes \<Rightarrow> bool" where
  "hmac_accepts holds bs algo k c m \<longleftrightarrow>
     hmac_keyed holds bs algo k c \<and> hmac_state c = NOXTLS_HMAC_STATE_ACTIVE \<and>
     holds (hmac_hash c) (map (\<lambda>b. b XOR 0x36) k @ m)"

lemma xor_pad_value:
  assumes "n \<le> length b"
  shows "xor_pad p n b = map (\<lambda>x. x XOR p) (take n b) @ drop n b"
  unfolding xor_pad_def using assms
proof (induction n)
  case (Suc n)
  then show ?case by (simp add: list_update_append nth_append Cons_nth_drop_Suc [symmetric] take_Suc_conv_app_nth)
qed simp

lemma copy_words: "length w = 8 \<Longrightarrow> length v = 8 \<Longrightarrow> foldl (\<lambda>w i. w[i := v ! i]) w [0..<8] = v"
  using put_run [of 0 8 w "\<lambda>i. v ! i"] map_nth [of v] by (simp add: put_at_def del: upt_rec_numeral)

text \<open>
  One keyed context over many messages: the pieces of a message, final, reset, the next message. The
  caller stops at the first error.
\<close>

definition hmac_feed :: "noxtls_hmac_context_t \<Rightarrow> bytes option \<Rightarrow> u32 \<Rightarrow> noxtls_return_t \<times> noxtls_hmac_context_t" where
  "hmac_feed c d len = (case noxtls_hmac_update (Some c) d len of (rc, c) \<Rightarrow> (rc, the c))"

fun hmac_messages :: "noxtls_hmac_context_t \<Rightarrow> bytes list list \<Rightarrow> noxtls_return_t \<times> bytes list" where
  "hmac_messages c [] = (NOXTLS_RETURN_SUCCESS, [])"
| "hmac_messages c (ds # rest) =
     (case absorb_pieces hmac_feed c ds of
        (rc, c) \<Rightarrow>
          if rc \<noteq> NOXTLS_RETURN_SUCCESS then (rc, [])
          else case noxtls_hmac_final (Some c) (Some (replicate 64 0)) (Some 64) of
            (rc, c, mac, mac_len) \<Rightarrow>
              if rc \<noteq> NOXTLS_RETURN_SUCCESS then (rc, [])
              else case noxtls_hmac_reset c of
                (rc, c) \<Rightarrow>
                  if rc \<noteq> NOXTLS_RETURN_SUCCESS then (rc, [])
                  else case hmac_messages (the c) rest of
                    (rc, macs) \<Rightarrow> (rc, take (unat (the mac_len)) (the mac) # macs))"

locale keyed_hash = digest "\<lambda>x. noxtls_hmac_h_init x algo" "\<lambda>x d len. noxtls_hmac_h_update x algo d len"
    "\<lambda>x out. noxtls_hmac_h_finish x algo out" holds digest_of out_size
  for algo :: u32 and holds :: "noxtls_sha_ctx_t \<Rightarrow> bytes \<Rightarrow> bool" and digest_of :: "bytes \<Rightarrow> bytes" and out_size :: nat +
  fixes block_size :: nat
  assumes algo_sizes: "noxtls_hmac_hash_block_size algo = of_nat block_size" "noxtls_hmac_hash_output_size algo = of_nat out_size"
    and sizes: "block_size \<in> {64, 128}" "0 < out_size" "out_size \<le> 64"
    and resume: "length b = block_size \<Longrightarrow> holds x b \<Longrightarrow> mid_wf mid \<Longrightarrow>
      resumes holds block_size algo (noxtls_hmac_save_mid x algo mid) b"
begin

lemma size_words:
  "unat (noxtls_hmac_hash_block_size algo) = block_size" "unat (noxtls_hmac_hash_output_size algo) = out_size"
  "noxtls_hmac_hash_block_size algo \<noteq> 0" "noxtls_hmac_hash_output_size algo \<noteq> 0" "noxtls_hmac_hash_block_size algo \<le> 128"
  using sizes unfolding algo_sizes by (auto simp: word_unat_eq_iff word_le_nat_alt unat_of_nat)

lemma pad_mid_value:
  assumes "hmac_algo c = algo" "sha_wf (hmac_hash c)" "block_size \<le> length blk" "mid_wf mid"
  shows "\<exists>h mid'. noxtls_hmac_pad_mid c blk (noxtls_hmac_hash_block_size algo) mid = (NOXTLS_RETURN_SUCCESS, c\<lparr>hmac_hash := h\<rparr>, mid') \<and>
    holds h (take block_size blk) \<and> resumes holds block_size algo mid' (take block_size blk)"
proof -
  obtain h1 where h1: "noxtls_hmac_h_init (hmac_hash c) algo = (NOXTLS_RETURN_SUCCESS, h1)" "holds h1 []"
    using init_holds [OF assms(2)] by blast
  obtain h2 where h2: "noxtls_hmac_h_update h1 algo (Some blk) (noxtls_hmac_hash_block_size algo) = (NOXTLS_RETURN_SUCCESS, h2)"
    "holds h2 (take block_size blk)"
    using update_holds [OF h1(2), of "noxtls_hmac_hash_block_size algo" blk] assms(3) by (auto simp: size_words)
  have "resumes holds block_size algo (noxtls_hmac_save_mid h2 algo mid) (take block_size blk)"
    using assms(3) by (intro resume h2(2) assms(4)) simp
  then show ?thesis using h1(1) h2 assms(1)
    by (intro exI [of _ h2] exI [of _ "noxtls_hmac_save_mid h2 algo mid"]) (simp add: noxtls_hmac_pad_mid_def)
qed

lemma key_block_value:
  assumes "sha_wf h" "unat klen \<le> length key"
  shows "\<exists>h' blk. hmac_key_block h algo key klen (noxtls_hmac_hash_block_size algo) (replicate 128 0) = (NOXTLS_RETURN_SUCCESS, h', blk) \<and>
    sha_wf h' \<and> length blk = 128 \<and> take block_size blk = rfc_hmac_key digest_of block_size (take (unat klen) key)"
proof (cases "klen > noxtls_hmac_hash_block_size algo")
  case True
  then have gt: "unat klen > block_size" by (simp add: word_less_nat_alt size_words)
  have kl: "unat klen < 2 ^ 61" using unsigned_less [where 'a = nat and w = klen] by simp
  obtain h1 where h1: "noxtls_hmac_h_init h algo = (NOXTLS_RETURN_SUCCESS, h1)" "holds h1 []"
    using init_holds [OF assms(1)] by blast
  obtain h2 where h2: "noxtls_hmac_h_update h1 algo (Some key) klen = (NOXTLS_RETURN_SUCCESS, h2)" "holds h2 (take (unat klen) key)"
    using update_holds [OF h1(2) assms(2)] by auto
  have ml: "length (take (unat klen) key) < 2 ^ 61" using kl by (simp add: min_less_iff_disj)
  have lo: "out_size \<le> length (replicate 128 (0 :: u8))" using sizes by auto
  obtain h3 where h3: "noxtls_hmac_h_finish h2 algo (Some (replicate 128 0)) =
      (NOXTLS_RETURN_SUCCESS, h3, Some (digest_of (take (unat klen) key) @ drop out_size (replicate 128 0)))" "sha_wf h3"
    using finish_digest [OF h2(2) ml lo] by blast
  have "take block_size (digest_of (take (unat klen) key) @ replicate (128 - out_size) 0) =
      digest_of (take (unat klen) key) @ replicate (block_size - out_size) 0"
    using sizes by (auto simp: digest_size)
  then show ?thesis
    using True gt h1(1) h2(1) h3 sizes assms(2)
    by (auto simp: hmac_key_block_def rfc_hmac_key_def digest_size Let_def min_def)
next
  case False
  then have le: "unat klen \<le> block_size" by (simp add: not_less word_le_nat_alt size_words)
  have b: "block_size \<le> 128" using sizes by auto
  have keys: "map ((!) key) [0..<unat klen] = take (unat klen) key" using assms(2) by (intro nth_equalityI) simp_all
  have "noxtls_copy_u8 (Some (replicate 128 0)) 128 (Some key) (unat klen) = Some (put_at 0 (take (unat klen) key) (replicate 128 0))"
    using put_run [of 0 "unat klen" "replicate 128 0" "(!) key"] le b keys
    by (simp add: noxtls_copy_u8_def Let_def)
  then show ?thesis using False le b assms
    by (auto simp: hmac_key_block_def rfc_hmac_key_def put_at_def min_def Let_def)
qed

lemma init_accepts:
  assumes "unat key_len \<le> length key"
  shows "\<exists>c. noxtls_hmac_init (Some ctx) algo (Some key) key_len = (NOXTLS_RETURN_SUCCESS, Some c) \<and>
    hmac_accepts holds block_size algo (rfc_hmac_key digest_of block_size (take (unat key_len) key)) c []"
proof -
  let ?k = "rfc_hmac_key digest_of block_size (take (unat key_len) key)"
  let ?bs = "noxtls_hmac_hash_block_size algo"
  obtain h blk where kb: "hmac_key_block zero_sha_ctx algo key key_len ?bs (replicate 128 0) = (NOXTLS_RETURN_SUCCESS, h, blk)"
    "sha_wf h" "length blk = 128" "take block_size blk = ?k"
    using key_block_value [OF zero_wf assms] by blast
  have b: "block_size \<le> 128" using sizes by auto
  have k: "length ?k = block_size" using arg_cong [OF kb(4), of length] kb(3) b by simp
  have z: "mid_wf zero_mid" by (simp add: mid_wf_def zero_mid_def)
  let ?c = "zero_hmac_ctx\<lparr>hmac_algo := algo, hmac_hash := h\<rparr>"
  let ?o = "xor_pad 0x5C block_size blk"
  have o: "take block_size ?o = map (\<lambda>b. b XOR 0x5C) ?k" "length ?o = 128"
    using b kb(3) by (simp_all add: xor_pad_value kb(4) [symmetric])
  obtain h1 mid1 where p1: "noxtls_hmac_pad_mid ?c ?o ?bs zero_mid = (NOXTLS_RETURN_SUCCESS, ?c\<lparr>hmac_hash := h1\<rparr>, mid1)"
    "holds h1 (take block_size ?o)" "resumes holds block_size algo mid1 (take block_size ?o)"
    using pad_mid_value [of ?c ?o zero_mid] kb(2) o(2) b z by auto
  let ?c1 = "?c\<lparr>hmac_hash := h1, outer_mid := mid1\<rparr>"
  let ?i = "xor_pad (0x5C XOR 0x36) block_size ?o"
  have "(x XOR 0x5C) XOR 0x6A = x XOR 0x36" for x :: u8 by (simp add: xor.assoc)
  then have i: "take block_size ?i = map (\<lambda>b. b XOR 0x36) ?k" "length ?i = 128"
    using b o k by (simp_all add: xor_pad_value comp_def)
  obtain h2 mid2 where p2: "noxtls_hmac_pad_mid ?c1 ?i ?bs zero_mid = (NOXTLS_RETURN_SUCCESS, ?c1\<lparr>hmac_hash := h2\<rparr>, mid2)"
    "holds h2 (take block_size ?i)" "resumes holds block_size algo mid2 (take block_size ?i)"
    using pad_mid_value [of ?c1 ?i zero_mid] holds_wf [OF p1(2)] i(2) b z by auto
  let ?r = "?c1\<lparr>hmac_hash := h2, inner_mid := mid2, hmac_state := NOXTLS_HMAC_STATE_ACTIVE\<rparr>"
  have mids: "outer_mid ?c = zero_mid" "inner_mid ?c1 = zero_mid" "hmac_hash (zero_hmac_ctx\<lparr>hmac_algo := algo\<rparr>) = zero_sha_ctx"
    by (simp_all add: zero_hmac_ctx_def)
  have "noxtls_hmac_init (Some ctx) algo (Some key) key_len = (NOXTLS_RETURN_SUCCESS, Some ?r)"
    using size_words(3,4) leD [OF size_words(5)] kb(1) p1(1) p2(1)
    by (simp add: noxtls_hmac_init_def Let_def size_words(1) mids zero_hmac_ctx_def)
  moreover have "hmac_accepts holds block_size algo ?k ?r []"
    using p1(3) p2(2,3) [unfolded i(1)] holds_wf [OF p2(2)] k
    by (simp add: hmac_accepts_def hmac_keyed_def o(1) hmac_states)
  ultimately show ?thesis by blast
qed

lemma update_accepts:
  assumes "hmac_accepts holds block_size algo k c m" "unat len \<le> length d"
  shows "\<exists>c'. noxtls_hmac_update (Some c) (Some d) len = (NOXTLS_RETURN_SUCCESS, Some c') \<and>
    hmac_accepts holds block_size algo k c' (m @ take (unat len) d)"
proof -
  have a: "holds (hmac_hash c) (map (\<lambda>b. b XOR 0x36) k @ m)" "hmac_algo c = algo" "hmac_state c = NOXTLS_HMAC_STATE_ACTIVE"
    using assms(1) by (simp_all add: hmac_accepts_def hmac_keyed_def)
  obtain h where h: "noxtls_hmac_h_update (hmac_hash c) algo (Some d) len = (NOXTLS_RETURN_SUCCESS, h)"
    "holds h ((map (\<lambda>b. b XOR 0x36) k @ m) @ take (unat len) d)" using update_holds [OF a(1) assms(2)] by blast
  then show ?thesis using assms(1) a(2,3) holds_wf [OF h(2)]
    by (auto simp: noxtls_hmac_update_def hmac_accepts_def hmac_keyed_def)
qed

lemma optional_update:
  assumes "hmac_accepts holds block_size algo k c m"
    and "case p of None \<Rightarrow> n = 0 \<and> d = [] | Some x \<Rightarrow> unat n \<le> length x \<and> d = take (unat n) x"
  shows "\<exists>c'. (if n > 0 then noxtls_hmac_update (Some c) p n else (NOXTLS_RETURN_SUCCESS, Some c)) = (NOXTLS_RETURN_SUCCESS, Some c') \<and>
    hmac_accepts holds block_size algo k c' (m @ d)"
  using assms update_accepts [OF assms(1), of n] by (cases p; cases "n > 0") (auto simp: word_gt_0)

lemma reset_accepts:
  assumes "hmac_keyed holds block_size algo k c"
  shows "\<exists>c'. noxtls_hmac_reset (Some c) = (NOXTLS_RETURN_SUCCESS, Some c') \<and> hmac_accepts holds block_size algo k c' []"
proof -
  obtain h where h: "noxtls_hmac_start_from_mid (hmac_hash c) algo (inner_mid c) (of_nat block_size) = (NOXTLS_RETURN_SUCCESS, h)"
    "holds h (map (\<lambda>b. b XOR 0x36) k)" using assms unfolding hmac_keyed_def resumes_def by blast
  then show ?thesis using assms holds_wf [OF h(2)]
    by (auto simp: noxtls_hmac_reset_def hmac_accepts_def hmac_keyed_def algo_sizes hmac_states)
qed

lemma final_value:
  assumes acc: "hmac_accepts holds block_size algo k c m" and m: "length m < 2 ^ 60" and mac: "out_size \<le> length mac"
    and len: "of_nat out_size \<le> mac_len"
  shows "\<exists>c'. noxtls_hmac_final (Some c) (Some mac) (Some mac_len) =
    (NOXTLS_RETURN_SUCCESS, Some c', Some (rfc_hmac_pads digest_of k m @ drop out_size mac), Some (of_nat out_size)) \<and>
    hmac_keyed holds block_size algo k c'"
proof -
  let ?i = "map (\<lambda>b. b XOR 0x36) k" and ?o = "map (\<lambda>b. b XOR 0x5C) k"
  have a: "holds (hmac_hash c) (?i @ m)" "hmac_algo c = algo" "hmac_state c = NOXTLS_HMAC_STATE_ACTIVE" "length k = block_size"
    using acc by (simp_all add: hmac_accepts_def hmac_keyed_def)
  have b: "block_size \<le> 128" using sizes by auto
  obtain h1 where h1: "noxtls_hmac_h_finish (hmac_hash c) algo (Some mac) =
      (NOXTLS_RETURN_SUCCESS, h1, Some (digest_of (?i @ m) @ drop out_size mac))" "sha_wf h1"
    using finish_digest [OF a(1) _ mac] m a(4) b by auto
  obtain h2 where h2: "noxtls_hmac_start_from_mid h1 algo (outer_mid c) (of_nat block_size) = (NOXTLS_RETURN_SUCCESS, h2)" "holds h2 ?o"
    using acc h1(2) unfolding hmac_accepts_def hmac_keyed_def resumes_def by blast
  have sz: "unat (of_nat out_size :: u32) = out_size" using size_words(2) unfolding algo_sizes .
  obtain h3 where h3: "noxtls_hmac_h_update h2 algo (Some (digest_of (?i @ m) @ drop out_size mac)) (of_nat out_size) = (NOXTLS_RETURN_SUCCESS, h3)"
    "holds h3 (?o @ digest_of (?i @ m))"
    using update_holds [OF h2(2), of "of_nat out_size" "digest_of (?i @ m) @ drop out_size mac"] sz by (auto simp: digest_size)
  obtain h4 where h4: "noxtls_hmac_h_finish h3 algo (Some (digest_of (?i @ m) @ drop out_size mac)) =
      (NOXTLS_RETURN_SUCCESS, h4, Some (digest_of (?o @ digest_of (?i @ m)) @ drop out_size mac))"
    using finish_digest [OF h3(2), of "digest_of (?i @ m) @ drop out_size mac"] a(4) b sizes(3) by (auto simp: digest_size)
  let ?r = "c\<lparr>hmac_hash := zero_sha_ctx, hmac_state := NOXTLS_HMAC_STATE_FINISHED\<rparr>"
  have "noxtls_hmac_final (Some c) (Some mac) (Some mac_len) =
      (NOXTLS_RETURN_SUCCESS, Some ?r, Some (rfc_hmac_pads digest_of k m @ drop out_size mac), Some (of_nat out_size))"
    using a(2,3) len size_words(3,4) h1(1) h2(1) h3(1) h4
    by (simp add: noxtls_hmac_final_def Let_def algo_sizes not_less [symmetric] rfc_hmac_pads_def)
  moreover have "hmac_keyed holds block_size algo k ?r"
    using acc by (simp add: hmac_accepts_def hmac_keyed_def zero_wf hmac_states)
  ultimately show ?thesis by blast
qed

lemma feed_accepts:
  "hmac_accepts holds block_size algo k c m \<Longrightarrow> (\<forall>d\<in>set ds. length d < 2 ^ 32) \<Longrightarrow>
   \<exists>c'. absorb_pieces hmac_feed c ds = (NOXTLS_RETURN_SUCCESS, c') \<and> hmac_accepts holds block_size algo k c' (m @ concat ds)"
proof (induction ds arbitrary: c m)
  case (Cons d ds)
  have u: "unat (of_nat (length d) :: u32) = length d" using Cons.prems(2) by (simp add: unat_of_nat)
  obtain c' where c': "noxtls_hmac_update (Some c) (Some d) (of_nat (length d)) = (NOXTLS_RETURN_SUCCESS, Some c')"
    "hmac_accepts holds block_size algo k c' (m @ d)"
    using update_accepts [OF Cons.prems(1), of "of_nat (length d)" d] u by auto
  have "\<forall>d\<in>set ds. length d < 2 ^ 32" using Cons.prems(2) by simp
  from Cons.IH [OF c'(2) this] show ?case using c'(1) by (simp add: hmac_feed_def)
qed simp

lemma pads_length: "length (rfc_hmac_pads digest_of k m) = out_size"
  by (simp add: rfc_hmac_pads_def digest_size)

lemma messages_value:
  "hmac_accepts holds block_size algo k c [] \<Longrightarrow> (\<forall>ds\<in>set mss. (\<forall>d\<in>set ds. length d < 2 ^ 32) \<and> length (concat ds) < 2 ^ 60) \<Longrightarrow>
   hmac_messages c mss = (NOXTLS_RETURN_SUCCESS, map (\<lambda>ds. rfc_hmac_pads digest_of k (concat ds)) mss)"
proof (induction mss arbitrary: c)
  case (Cons ds mss)
  have ds: "\<forall>d\<in>set ds. length d < 2 ^ 32" "length (concat ds) < 2 ^ 60" using Cons.prems(2) by simp_all
  obtain c1 where c1: "absorb_pieces hmac_feed c ds = (NOXTLS_RETURN_SUCCESS, c1)" "hmac_accepts holds block_size algo k c1 (concat ds)"
    using feed_accepts [OF Cons.prems(1) ds(1)] by auto
  have sz: "unat (of_nat out_size :: u32) = out_size" using size_words(2) unfolding algo_sizes .
  have mac: "out_size \<le> length (replicate 64 (0 :: u8))" "of_nat out_size \<le> (64 :: u32)" using sizes sz by (simp_all add: word_le_nat_alt)
  obtain c2 where c2: "noxtls_hmac_final (Some c1) (Some (replicate 64 0)) (Some 64) =
      (NOXTLS_RETURN_SUCCESS, Some c2, Some (rfc_hmac_pads digest_of k (concat ds) @ drop out_size (replicate 64 0)), Some (of_nat out_size))"
    "hmac_keyed holds block_size algo k c2"
    using final_value [OF c1(2) ds(2) mac] by blast
  obtain c3 where c3: "noxtls_hmac_reset (Some c2) = (NOXTLS_RETURN_SUCCESS, Some c3)" "hmac_accepts holds block_size algo k c3 []"
    using reset_accepts [OF c2(2)] by blast
  have rest: "\<forall>ds\<in>set mss. (\<forall>d\<in>set ds. length d < 2 ^ 32) \<and> length (concat ds) < 2 ^ 60" using Cons.prems(2) by simp
  show ?case using c1(1) c2(1) c3(1) Cons.IH [OF c3(2) rest] by (simp add: sz pads_length)
qed simp

end

section \<open>The digests satisfy the interface\<close>

definition hmac_algos :: "u32 list" where
  "hmac_algos = [NOXTLS_HASH_MD5, NOXTLS_HASH_SHA1, NOXTLS_HASH_SHA_256, NOXTLS_HASH_SHA_384, NOXTLS_HASH_SHA_512]"

definition hmac_block :: "u32 \<Rightarrow> nat" where
  "hmac_block algo = (if algo = NOXTLS_HASH_SHA_384 \<or> algo = NOXTLS_HASH_SHA_512 then 128 else 64)"

lemma hmac_algo_cases:
  assumes "algo \<in> set hmac_algos"
  obtains "algo = NOXTLS_HASH_MD5" | "algo = NOXTLS_HASH_SHA1" | "algo = NOXTLS_HASH_SHA_256" | "algo = NOXTLS_HASH_SHA_384" | "algo = NOXTLS_HASH_SHA_512"
  using assms unfolding hmac_algos_def by auto

lemma hmac_sha_algos: "algo \<in> set hmac_algos \<Longrightarrow> algo \<in> set sha_algos"
  by (auto simp: hmac_algos_def sha_algos_def)

lemma h_dispatch:
  assumes "algo \<in> set hmac_algos"
  shows "noxtls_hmac_h_init x algo = on_sha (\<lambda>x. noxtls_sha_init x algo) x"
    "sha_algo x = algo \<Longrightarrow> noxtls_hmac_h_update x algo (Some d) len = on_sha (\<lambda>x. noxtls_sha_update x (Some d) len) x"
    "sha_algo x = algo \<Longrightarrow> noxtls_hmac_h_finish x algo (Some out) = on_sha_out noxtls_sha_finish x (Some out)"
proof -
  have f: "on_sha (\<lambda>h. noxtls_sha256_init h algo) (x\<lparr>sha_algo := algo\<rparr>) = on_sha (\<lambda>h. noxtls_sha256_init h algo) x"
    "on_sha (\<lambda>h. noxtls_sha1_init h algo) (x\<lparr>sha_algo := algo\<rparr>) = on_sha (\<lambda>h. noxtls_sha1_init h algo) x" for algo x
    by (simp_all add: on_sha_def noxtls_sha256_init_def noxtls_sha1_init_def Let_def)
  from assms show "noxtls_hmac_h_init x algo = on_sha (\<lambda>x. noxtls_sha_init x algo) x"
    by (cases rule: hmac_algo_cases) (simp_all add: dispatch_init f, simp_all add: noxtls_hmac_h_init_def hash_algos)
  from assms show "noxtls_hmac_h_update x algo (Some d) len = on_sha (\<lambda>x. noxtls_sha_update x (Some d) len) x" if "sha_algo x = algo"
    using that by (cases rule: hmac_algo_cases) (simp_all add: dispatch_update, simp_all add: noxtls_hmac_h_update_def hash_algos)
  from assms show "noxtls_hmac_h_finish x algo (Some out) = on_sha_out noxtls_sha_finish x (Some out)" if "sha_algo x = algo"
    using that by (cases rule: hmac_algo_cases) (simp_all add: dispatch_finish, simp_all add: noxtls_hmac_h_finish_def hash_algos)
qed

lemma md_resume:
  assumes "0 < bs" "md_holds n bs f iv c0 []" "md_holds n bs f iv c b" "length b = bs"
  shows "md_holds n bs f iv (c0\<lparr>md_h := md_h c, md_length := of_nat bs\<rparr>) b"
proof -
  have "whole_len bs b = bs" "pending bs b = []" using assms(1,4) pending_block [of bs b] by simp_all
  moreover have "pending bs [] = []" "whole_len bs [] = 0" using assms(1) by simp_all
  ultimately show ?thesis using assms by (auto simp: md_holds_def)
qed

lemma resume32:
  assumes "noxtls_hmac_h_init y algo = (NOXTLS_RETURN_SUCCESS, y')" "holds32 algo n f iv y' []" "holds32 algo n f iv x b"
    "length b = 64" "mid_wf mid" "algo \<noteq> NOXTLS_HASH_SHA_384 \<and> algo \<noteq> NOXTLS_HASH_SHA_512"
  shows "\<exists>z. noxtls_hmac_start_from_mid y algo (noxtls_hmac_save_mid x algo mid) 64 = (NOXTLS_RETURN_SUCCESS, z) \<and> holds32 algo n f iv z b"
proof -
  have h: "md_holds n 64 f iv (md32 y') []" "md_holds n 64 f iv (md32 x) b" "md_ready 64 (md32 y')" "md_ready 64 (md32 x)" "sha_algo y' = algo"
    "md_ready 128 (sha512_ctx y')"
    using assms(2,3) by (simp_all add: holds32_def sha_wf_def)
  have l: "length (md_h (md32 x)) = 8" "length (md_h (md32 y')) = 8" "length (w32 mid) = 8" using h(3,4) assms(5) by (simp_all add: md_ready_def mid_wf_def)
  let ?c = "(md32 y')\<lparr>md_h := md_h (md32 x), md_length := of_nat 64\<rparr>"
  have "noxtls_hmac_start_from_mid y algo (noxtls_hmac_save_mid x algo mid) 64 = (NOXTLS_RETURN_SUCCESS, y'\<lparr>md32 := ?c\<rparr>)"
    using assms(1,6) copy_words [OF l(3,1)] copy_words [OF l(2,1)]
    by (simp add: noxtls_hmac_start_from_mid_def noxtls_hmac_save_mid_def Let_def del: upt_rec_numeral)
  moreover have "holds32 algo n f iv (y'\<lparr>md32 := ?c\<rparr>) b"
    using md_resume [OF _ h(1,2) assms(4)] h(3,5,6) l(1) by (simp add: holds32_def sha_wf_def md_ready_def)
  ultimately show ?thesis by blast
qed

lemma resume64:
  assumes "noxtls_hmac_h_init y algo = (NOXTLS_RETURN_SUCCESS, y')" "holds64 algo iv y' []" "holds64 algo iv x b"
    "length b = 128" "mid_wf mid" "algo = NOXTLS_HASH_SHA_384 \<or> algo = NOXTLS_HASH_SHA_512"
  shows "\<exists>z. noxtls_hmac_start_from_mid y algo (noxtls_hmac_save_mid x algo mid) 128 = (NOXTLS_RETURN_SUCCESS, z) \<and>
    sha_algo z = sha_algo y' \<and> holds64 algo iv z b"
proof -
  have h: "md_holds 8 128 fips_sha512_compress iv (sha512_ctx y') []" "md_holds 8 128 fips_sha512_compress iv (sha512_ctx x) b"
    "md_ready 128 (sha512_ctx y')" "md_ready 128 (sha512_ctx x)" "ucast (sha512_algo (sha512_ctx y')) = algo" "md_ready 64 (md32 y')"
    using assms(2,3) by (simp_all add: holds64_def sha_wf_def)
  have l: "length (md_h (sha512_ctx x)) = 8" "length (md_h (sha512_ctx y')) = 8" "length (w64 mid) = 8"
    using h(3,4) assms(5) by (simp_all add: md_ready_def mid_wf_def)
  let ?c = "(sha512_ctx y')\<lparr>md_h := md_h (sha512_ctx x), md_length := of_nat 128\<rparr>"
  have "noxtls_hmac_start_from_mid y algo (noxtls_hmac_save_mid x algo mid) 128 = (NOXTLS_RETURN_SUCCESS, y'\<lparr>sha512_ctx := ?c\<rparr>)"
    using assms(1,6) copy_words [OF l(3,1)] copy_words [OF l(2,1)]
    by (simp add: noxtls_hmac_start_from_mid_def noxtls_hmac_save_mid_def Let_def del: upt_rec_numeral)
  moreover have "holds64 algo iv (y'\<lparr>sha512_ctx := ?c\<rparr>) b"
    using md_resume [OF _ h(1,2) assms(4)] h(3,5,6) l(1) by (simp add: holds64_def sha_wf_def md_ready_def)
  ultimately show ?thesis by auto
qed

lemma hmac_blocks:
  "hmac_block NOXTLS_HASH_MD5 = 64" "hmac_block NOXTLS_HASH_SHA1 = 64" "hmac_block NOXTLS_HASH_SHA_256 = 64"
  "hmac_block NOXTLS_HASH_SHA_384 = 128" "hmac_block NOXTLS_HASH_SHA_512 = 128"
  by (simp_all add: hmac_block_def hash_algos)

lemma short_blocks:
  "NOXTLS_HASH_MD5 \<noteq> NOXTLS_HASH_SHA_384 \<and> NOXTLS_HASH_MD5 \<noteq> NOXTLS_HASH_SHA_512"
  "NOXTLS_HASH_SHA1 \<noteq> NOXTLS_HASH_SHA_384 \<and> NOXTLS_HASH_SHA1 \<noteq> NOXTLS_HASH_SHA_512"
  "NOXTLS_HASH_SHA_256 \<noteq> NOXTLS_HASH_SHA_384 \<and> NOXTLS_HASH_SHA_256 \<noteq> NOXTLS_HASH_SHA_512"
  by (simp_all add: hash_algos)

lemma hmac_resume:
  assumes a: "algo \<in> set hmac_algos" and x: "sha_holds algo x b" "length b = hmac_block algo" "mid_wf mid"
  shows "resumes (sha_holds algo) (hmac_block algo) algo (noxtls_hmac_save_mid x algo mid) b"
  unfolding resumes_def
proof (intro allI impI)
  fix y
  assume "sha_wf y"
  then obtain y' where y': "noxtls_hmac_h_init y algo = (NOXTLS_RETURN_SUCCESS, y')" "sha_holds algo y' []"
    using sha_init_law [OF hmac_sha_algos [OF a]] h_dispatch(1) [OF a] by metis
  show "\<exists>z. noxtls_hmac_start_from_mid y algo (noxtls_hmac_save_mid x algo mid) (of_nat (hmac_block algo)) = (NOXTLS_RETURN_SUCCESS, z) \<and> sha_holds algo z b"
    using a
  proof (cases rule: hmac_algo_cases)
    case 1
    have h: "holds32 algo 4 rfc_md5_compress md5_h0 y' []" "holds32 algo 4 rfc_md5_compress md5_h0 x b"
      using y'(2) x(1) unfolding 1 holds_cases by blast+
    have l: "length b = 64" using x(2) unfolding 1 hmac_blocks .
    from resume32 [OF y'(1) h l x(3), unfolded 1, OF short_blocks(1)] show ?thesis
      unfolding 1 hmac_blocks holds_cases by (metis holds32_algo of_nat_numeral)
  next
    case 2
    have h: "holds32 algo 5 fips_sha1_compress sha1_h0 y' []" "holds32 algo 5 fips_sha1_compress sha1_h0 x b"
      using y'(2) x(1) unfolding 2 holds_cases by blast+
    have l: "length b = 64" using x(2) unfolding 2 hmac_blocks .
    from resume32 [OF y'(1) h l x(3), unfolded 2, OF short_blocks(2)] show ?thesis
      unfolding 2 hmac_blocks holds_cases by (metis holds32_algo of_nat_numeral)
  next
    case 3
    have h: "holds32 algo 8 fips_sha256_compress sha256_h0 y' []" "holds32 algo 8 fips_sha256_compress sha256_h0 x b"
      using y'(2) x(1) unfolding 3 holds_cases by blast+
    have l: "length b = 64" using x(2) unfolding 3 hmac_blocks .
    from resume32 [OF y'(1) h l x(3), unfolded 3, OF short_blocks(3)] show ?thesis
      unfolding 3 hmac_blocks holds_cases by (metis holds32_algo of_nat_numeral)
  next
    case 4
    have h: "holds64 algo sha384_h0 y' []" "holds64 algo sha384_h0 x b" "sha_algo y' = algo"
      using y'(2) x(1) unfolding 4 holds_cases by blast+
    have l: "length b = 128" using x(2) unfolding 4 hmac_blocks .
    have "algo = NOXTLS_HASH_SHA_384 \<or> algo = NOXTLS_HASH_SHA_512" using 4 by blast
    from resume64 [OF y'(1) h(1,2) l x(3) this] h(3) show ?thesis
      unfolding 4 hmac_blocks holds_cases by (metis of_nat_numeral)
  next
    case 5
    have h: "holds64 algo sha512_h0 y' []" "holds64 algo sha512_h0 x b" "sha_algo y' = algo"
      using y'(2) x(1) unfolding 5 holds_cases by blast+
    have l: "length b = 128" using x(2) unfolding 5 hmac_blocks .
    have "algo = NOXTLS_HASH_SHA_384 \<or> algo = NOXTLS_HASH_SHA_512" using 5 by blast
    from resume64 [OF y'(1) h(1,2) l x(3) this] h(3) show ?thesis
      unfolding 5 hmac_blocks holds_cases by (metis of_nat_numeral)
  qed
qed

lemma hmac_sizes:
  assumes "algo \<in> set hmac_algos"
  shows "noxtls_hmac_hash_block_size algo = of_nat (hmac_block algo)" "noxtls_hmac_hash_output_size algo = of_nat (sha_size algo)"
    "hmac_block algo \<in> {64, 128}" "0 < sha_size algo" "sha_size algo \<le> 64"
  using assms by (auto simp: hmac_algos_def noxtls_hmac_hash_block_size_def noxtls_hmac_hash_output_size_def hmac_block_def sha_size_def hash_algos)

lemma hmac_keyed_hash:
  assumes "algo \<in> set hmac_algos"
  shows "keyed_hash algo (sha_holds algo) (sha_reference algo) (sha_size algo) (hmac_block algo)"
proof -
  note a = hmac_sha_algos [OF assms]
  have s: "sha_algo x = algo" if "sha_holds algo x m" for x m using that by (simp add: sha_holds_def)
  show ?thesis
  proof unfold_locales
    show "\<exists>x'. noxtls_hmac_h_init x algo = (NOXTLS_RETURN_SUCCESS, x') \<and> sha_holds algo x' []" if "sha_wf x" for x
      using sha_init_law [OF a that] h_dispatch(1) [OF assms] by simp
    show "\<exists>x'. noxtls_hmac_h_update x algo (Some d) len = (NOXTLS_RETURN_SUCCESS, x') \<and> sha_holds algo x' (m @ take (unat len) d)"
      if "sha_holds algo x m" "unat len \<le> length d" for x m len d
      using sha_update_law [OF a that] h_dispatch(2) [OF assms s [OF that(1)]] by simp
    show "\<exists>x'. noxtls_hmac_h_finish x algo (Some out) = (NOXTLS_RETURN_SUCCESS, x', Some (sha_reference algo m @ drop (sha_size algo) out)) \<and> sha_wf x'"
      if "sha_holds algo x m" "length m < 2 ^ 61" "sha_size algo \<le> length out" for x m out
      using sha_finish_law [OF a that] h_dispatch(3) [OF assms s [OF that(1)]] by simp
    show "sha_wf x" if "sha_holds algo x m" for x m by (rule sha_holds_wf [OF a that])
    show "resumes (sha_holds algo) (hmac_block algo) algo (noxtls_hmac_save_mid x algo mid) b"
      if "length b = hmac_block algo" "sha_holds algo x b" "mid_wf mid" for b x mid
      by (rule hmac_resume [OF assms that(2,1,3)])
  qed (simp_all add: sha_reference_length [OF a] hmac_sizes [OF assms] del: insert_iff)
qed

interpretation md5_hmac: keyed_hash NOXTLS_HASH_MD5 "sha_holds NOXTLS_HASH_MD5" "sha_reference NOXTLS_HASH_MD5" "sha_size NOXTLS_HASH_MD5" "hmac_block NOXTLS_HASH_MD5"
  by (rule hmac_keyed_hash) (simp add: hmac_algos_def)

interpretation sha1_hmac: keyed_hash NOXTLS_HASH_SHA1 "sha_holds NOXTLS_HASH_SHA1" "sha_reference NOXTLS_HASH_SHA1" "sha_size NOXTLS_HASH_SHA1" "hmac_block NOXTLS_HASH_SHA1"
  by (rule hmac_keyed_hash) (simp add: hmac_algos_def)

interpretation sha256_hmac: keyed_hash NOXTLS_HASH_SHA_256 "sha_holds NOXTLS_HASH_SHA_256" "sha_reference NOXTLS_HASH_SHA_256" "sha_size NOXTLS_HASH_SHA_256" "hmac_block NOXTLS_HASH_SHA_256"
  by (rule hmac_keyed_hash) (simp add: hmac_algos_def)

interpretation sha384_hmac: keyed_hash NOXTLS_HASH_SHA_384 "sha_holds NOXTLS_HASH_SHA_384" "sha_reference NOXTLS_HASH_SHA_384" "sha_size NOXTLS_HASH_SHA_384" "hmac_block NOXTLS_HASH_SHA_384"
  by (rule hmac_keyed_hash) (simp add: hmac_algos_def)

interpretation sha512_hmac: keyed_hash NOXTLS_HASH_SHA_512 "sha_holds NOXTLS_HASH_SHA_512" "sha_reference NOXTLS_HASH_SHA_512" "sha_size NOXTLS_HASH_SHA_512" "hmac_block NOXTLS_HASH_SHA_512"
  by (rule hmac_keyed_hash) (simp add: hmac_algos_def)

lemma hmac_final_size:
  assumes "hmac_accepts holds bs algo k c m" "noxtls_hmac_hash_block_size algo \<noteq> 0" "noxtls_hmac_hash_output_size algo \<noteq> 0"
    "mac_len < noxtls_hmac_hash_output_size algo"
  shows "noxtls_hmac_final (Some c) (Some mac) (Some mac_len) =
    (NOXTLS_RETURN_FAILED, Some c, Some mac, Some (noxtls_hmac_hash_output_size algo))"
  using assms by (simp add: noxtls_hmac_final_def hmac_accepts_def hmac_keyed_def Let_def)

lemma hmac_unsupported:
  assumes "algo \<notin> set hmac_algos"
  shows "noxtls_hmac_init (Some ctx) algo (Some key) key_len = (NOXTLS_RETURN_INVALID_ALGORITHM, Some zero_hmac_ctx)"
  using assms by (auto simp: hmac_algos_def noxtls_hmac_init_def Let_def noxtls_hmac_hash_block_size_def noxtls_hmac_unusable_algorithm_def)

text \<open>The one-shot call on a supported digest.\<close>

lemma hmac_compute_run:
  assumes a: "algo \<in> set hmac_algos" and k: "unat key_len \<le> length k" and d: "\<forall>d. data = Some d \<longrightarrow> unat data_len \<le> length d"
  defines "m \<equiv> case data of None \<Rightarrow> [] | Some d \<Rightarrow> take (unat data_len) d"
  shows "\<exists>c. hmac_accepts (sha_holds algo) (hmac_block algo) algo (rfc_hmac_key (sha_reference algo) (hmac_block algo) (take (unat key_len) k)) c m \<and>
    noxtls_hmac_compute stack algo (Some k) key_len data data_len mac mac_len =
      (case noxtls_hmac_final (Some c) mac mac_len of (rc, ctx, mac, mac_len) \<Rightarrow> (rc, mac, mac_len))"
proof -
  note kh = hmac_keyed_hash [OF a]
  let ?acc = "hmac_accepts (sha_holds algo) (hmac_block algo) algo (rfc_hmac_key (sha_reference algo) (hmac_block algo) (take (unat key_len) k))"
  obtain c where c: "noxtls_hmac_init (Some stack) algo (Some k) key_len = (NOXTLS_RETURN_SUCCESS, Some c)" "?acc c []"
    using keyed_hash.init_accepts [OF kh k] by blast
  obtain c' where c': "(if data \<noteq> None \<and> data_len > 0 then noxtls_hmac_update (Some c) data data_len else (NOXTLS_RETURN_SUCCESS, Some c)) =
      (NOXTLS_RETURN_SUCCESS, Some c')" "?acc c' m"
  proof (cases "data \<noteq> None \<and> data_len > 0")
    case True
    then obtain b where b: "data = Some b" by blast
    from keyed_hash.update_accepts [OF kh c(2), of data_len b] d b True that show ?thesis by (auto simp: m_def)
  next
    case False
    then have "m = []" by (cases data) (auto simp: m_def word_gt_0)
    then show ?thesis using that [of c] False c(2) by auto
  qed
  then show ?thesis using c(1) by (auto simp: noxtls_hmac_compute_def)
qed

lemma hmac_compute_keyed:
  assumes a: "algo \<in> set hmac_algos" and k: "unat key_len \<le> length k" and d: "\<forall>d. data = Some d \<longrightarrow> unat data_len \<le> length d"
  shows "mac = None \<or> mac_len = None \<Longrightarrow>
      noxtls_hmac_compute stack algo (Some k) key_len data data_len mac mac_len = (NOXTLS_RETURN_NULL, mac, mac_len)"
    "unat l \<le> length m \<Longrightarrow> noxtls_hmac_compute stack algo (Some k) key_len data data_len (Some m) (Some l) =
      (if unat l < sha_size algo then (NOXTLS_RETURN_FAILED, Some m, Some (of_nat (sha_size algo)))
       else (NOXTLS_RETURN_SUCCESS,
         Some (rfc_hmac (sha_reference algo) (hmac_block algo) (take (unat key_len) k)
                 (case data of None \<Rightarrow> [] | Some d \<Rightarrow> take (unat data_len) d) @ drop (sha_size algo) m),
         Some (of_nat (sha_size algo))))"
proof -
  note kh = hmac_keyed_hash [OF a]
  note sz = hmac_sizes [OF a] keyed_hash.size_words [OF kh]
  let ?m = "case data of None \<Rightarrow> [] | Some d \<Rightarrow> take (unat data_len) d"
  have small: "length ?m < 2 ^ 60"
    using unsigned_less [where 'a = nat and w = data_len] by (cases data) (simp_all add: min_less_iff_disj)
  show "noxtls_hmac_compute stack algo (Some k) key_len data data_len mac mac_len = (NOXTLS_RETURN_NULL, mac, mac_len)"
    if "mac = None \<or> mac_len = None"
    using hmac_compute_run [OF a k d, of stack mac mac_len] that by (auto simp: noxtls_hmac_final_def)
  obtain c where c: "hmac_accepts (sha_holds algo) (hmac_block algo) algo (rfc_hmac_key (sha_reference algo) (hmac_block algo) (take (unat key_len) k)) c ?m"
    "noxtls_hmac_compute stack algo (Some k) key_len data data_len (Some m) (Some l) =
      (case noxtls_hmac_final (Some c) (Some m) (Some l) of (rc, ctx, mac, mac_len) \<Rightarrow> (rc, mac, mac_len))"
    using hmac_compute_run [OF a k d, of stack "Some m" "Some l"] by blast
  show "noxtls_hmac_compute stack algo (Some k) key_len data data_len (Some m) (Some l) =
      (if unat l < sha_size algo then (NOXTLS_RETURN_FAILED, Some m, Some (of_nat (sha_size algo)))
       else (NOXTLS_RETURN_SUCCESS,
         Some (rfc_hmac (sha_reference algo) (hmac_block algo) (take (unat key_len) k) ?m @ drop (sha_size algo) m),
         Some (of_nat (sha_size algo))))" if lm: "unat l \<le> length m"
  proof (cases "unat l < sha_size algo")
    case True
    then have "l < noxtls_hmac_hash_output_size algo" using sz(7) by (simp add: word_less_nat_alt)
    from hmac_final_size [OF c(1) sz(8,9) this, of m] show ?thesis using True c(2) sz(2) by simp
  next
    case False
    have "sha_size algo \<le> length m" "of_nat (sha_size algo) \<le> l" using False lm sz(2,7) by (auto simp: word_le_nat_alt)
    from keyed_hash.final_value [OF kh c(1) small this] show ?thesis using False c(2) by (auto simp: rfc_hmac_def)
  qed
qed

section \<open>Properties\<close>

text \<open>
  C34. HMAC sessions. For MD5, SHA-1, SHA-256, SHA-384 and SHA-512, a context keyed once with a key of any length (hashed
  when it is longer than a block) returns, for any sequence of messages given in any pieces and separated by resets
  from the stored chaining values, the RFC 2104 value of every message.
\<close>

theorem hmac_sessions:
  assumes "algo \<in> set hmac_algos" "unat key_len \<le> length key"
    and "\<forall>ds\<in>set mss. (\<forall>d\<in>set ds. length d < 2 ^ 32) \<and> length (concat ds) < 2 ^ 60"
  shows "\<exists>c. noxtls_hmac_init (Some ctx) algo (Some key) key_len = (NOXTLS_RETURN_SUCCESS, Some c) \<and>
    hmac_messages c mss =
      (NOXTLS_RETURN_SUCCESS, map (\<lambda>ds. rfc_hmac (sha_reference algo) (hmac_block algo) (take (unat key_len) key) (concat ds)) mss)"
proof -
  note k = hmac_keyed_hash [OF assms(1)]
  from keyed_hash.init_accepts [OF k assms(2)] keyed_hash.messages_value [OF k _ assms(3)] show ?thesis
    unfolding rfc_hmac_def by metis
qed

theorem hmac_sessions_witness:
  "\<exists>c. noxtls_hmac_init (Some zero_hmac_ctx) NOXTLS_HASH_SHA_384 (Some (replicate 200 0xAA)) 200 = (NOXTLS_RETURN_SUCCESS, Some c) \<and>
    hmac_messages c [[], [[1], [2, 3]]] =
      (NOXTLS_RETURN_SUCCESS,
       [rfc_hmac (sha_reference NOXTLS_HASH_SHA_384) 128 (replicate 200 0xAA) [],
        rfc_hmac (sha_reference NOXTLS_HASH_SHA_384) 128 (replicate 200 0xAA) [1, 2, 3]])"
  using hmac_sessions [of NOXTLS_HASH_SHA_384 200 "replicate 200 0xAA" "[[], [[1], [2, 3]]]" zero_hmac_ctx]
  by (simp add: hmac_algos_def hmac_blocks)

text \<open>
  C35. One-shot HMAC, on every branch. \<open>noxtls_hmac_compute\<close> refuses a missing key, an unknown digest, missing
  outputs and an output buffer that is too small (whose needed size it reports) and leaves the output alone; otherwise it writes the
  RFC 2104 value of the message (empty when there is no data) and its length, whatever was on the stack.
\<close>

theorem hmac_compute_cases:
  assumes "\<forall>k. key = Some k \<longrightarrow> unat key_len \<le> length k" "\<forall>d. data = Some d \<longrightarrow> unat data_len \<le> length d"
    "\<forall>m l. mac = Some m \<longrightarrow> mac_len = Some l \<longrightarrow> unat l \<le> length m"
  shows "noxtls_hmac_compute stack algo key key_len data data_len mac mac_len =
    (case key of None \<Rightarrow> (NOXTLS_RETURN_NULL, mac, mac_len)
     | Some k \<Rightarrow>
       if algo \<notin> set hmac_algos then (NOXTLS_RETURN_INVALID_ALGORITHM, mac, mac_len)
       else case (mac, mac_len) of
         (Some m, Some l) \<Rightarrow>
           if unat l < sha_size algo then (NOXTLS_RETURN_FAILED, mac, Some (of_nat (sha_size algo)))
           else (NOXTLS_RETURN_SUCCESS,
             Some (rfc_hmac (sha_reference algo) (hmac_block algo) (take (unat key_len) k)
                     (case data of None \<Rightarrow> [] | Some d \<Rightarrow> take (unat data_len) d) @ drop (sha_size algo) m),
             Some (of_nat (sha_size algo)))
       | _ \<Rightarrow> (NOXTLS_RETURN_NULL, mac, mac_len))"
proof (cases "key = None \<or> algo \<notin> set hmac_algos")
  case True
  have none: "noxtls_hmac_init (Some stack) algo None key_len = (NOXTLS_RETURN_NULL, Some stack)" by (simp add: noxtls_hmac_init_def)
  show ?thesis
  proof (cases key)
    case None
    then show ?thesis by (simp add: noxtls_hmac_compute_def none)
  next
    case (Some k)
    then show ?thesis using True by (simp add: noxtls_hmac_compute_def hmac_unsupported)
  qed
next
  case False
  then obtain k where k: "key = Some k" and a: "algo \<in> set hmac_algos" by auto
  note keyed = hmac_compute_keyed [OF a _ assms(2), of key_len k, folded k]
  show ?thesis
  proof (cases mac; cases mac_len)
    fix m l
    assume "mac = Some m" "mac_len = Some l"
    then show ?thesis using keyed(2) [of l m stack] assms(1,3) k a by simp
  qed (use keyed(1) [of mac mac_len stack] assms(1) k a in simp_all)
qed

theorem hmac_compute_cases_witness:
  "noxtls_hmac_compute zero_hmac_ctx NOXTLS_HASH_SHA_256 (Some [1, 2]) 2 (Some [7]) 1 (Some (replicate 40 0)) (Some 40) =
     (NOXTLS_RETURN_SUCCESS, Some (rfc_hmac fips_sha256 64 [1, 2] [7] @ replicate 8 0), Some 32)"
  using hmac_compute_cases [of "Some [1, 2]" 2 "Some [7]" 1 "Some (replicate 40 0)" "Some 40" zero_hmac_ctx NOXTLS_HASH_SHA_256]
  by (simp add: hmac_algos_def hmac_blocks sha_sizes)

end
