(* ===== verification/Chunked_Output.thy ===== *)
theory Chunked_Output
  imports Hash_Context
begin

text \<open>
  Writing a buffer of L bytes as blocks of n bytes, the last one truncated: the loop of the key derivation
  functions, on 32-bit offsets.
\<close>

definition chunk_len :: "u32 \<Rightarrow> u32 \<Rightarrow> u32 \<Rightarrow> u32" where
  "chunk_len len offset n = (if len - offset < n then len - offset else n)"

lemma chunk_progress:
  assumes "n \<noteq> 0" "offset < len"
  shows "unat (len - (offset + chunk_len len offset n)) < unat (len - offset)"
proof -
  have "len - offset \<noteq> 0" using assms(2) by auto
  then have c: "chunk_len len offset n \<le> len - offset" "chunk_len len offset n \<noteq> 0"
    using assms by (auto simp: chunk_len_def)
  have e: "len - (offset + chunk_len len offset n) = (len - offset) - chunk_len len offset n" by simp
  have "unat ((len - offset) - chunk_len len offset n) = unat (len - offset) - unat (chunk_len len offset n)"
    using c(1) by (rule unat_sub_le)
  moreover have "0 < unat (chunk_len len offset n)" "unat (chunk_len len offset n) \<le> unat (len - offset)"
    using c by (simp_all add: unat_gt_0 word_le_nat_alt)
  ultimately show ?thesis unfolding e by linarith
qed

text \<open>One turn of the loop, in natural numbers.\<close>

lemma chunk_step:
  fixes len :: u32
  assumes off: "off = min (j * n) (unat len)" "off < unat len" and n: "unat (of_nat n :: u32) = n" "0 < n"
  defines "L \<equiv> unat len" and "cl \<equiv> min (unat len - off) n"
  shows "of_nat off < len" "unat (of_nat off :: u32) = off" "unat (of_nat cl :: u32) = cl"
    "chunk_len len (of_nat off) (of_nat n) = of_nat cl" "off + cl = min (Suc j * n) L" "L - (off + cl) < L - off" "off = j * n"
proof -
  have L32: "L < 2 ^ 32" unfolding L_def using unsigned_less [where 'a = nat and w = len] by simp
  have "off < 2 ^ 32" using off(2) L32 by (simp add: L_def)
  then show u: "unat (of_nat off :: u32) = off" by (simp add: unat_of_nat)
  then show "of_nat off < len" using off(2) by (simp add: word_less_nat_alt)
  have "cl \<le> L" unfolding cl_def L_def using diff_le_self min.cobounded1 le_trans by blast
  then have "cl < 2 ^ 32" using L32 by linarith
  then show "unat (of_nat cl :: u32) = cl" by (simp add: unat_of_nat)
  have rem: "len - of_nat off = of_nat (L - off)" using off(2) by (simp add: L_def of_nat_diff)
  have "L - off < 2 ^ 32" using L32 by simp
  then have "unat (of_nat (L - off) :: u32) = L - off" by (simp add: unat_of_nat)
  then show "chunk_len len (of_nat off) (of_nat n) = of_nat cl"
    unfolding chunk_len_def rem by (simp add: word_less_nat_alt n(1) cl_def L_def min_def)
  show "off = j * n" using off by (simp add: min_def split: if_splits)
  have oL: "off < L" using off(2) by (simp add: L_def)
  have Sj: "Suc j * n = off + n" using \<open>off = j * n\<close> by simp
  show "off + cl = min (Suc j * n) L" unfolding Sj using oL by (simp add: cl_def L_def [symmetric] min_def) arith
  have "0 < cl" using oL n(2) by (simp add: cl_def L_def [symmetric])
  then show "L - (off + cl) < L - off" using oL by simp
qed

lemma chunk_write:
  assumes "off < L" "L \<le> length out" "length x = n" "cl = min (L - off) n"
  shows "length (put_at off (take cl x) out) = length out"
    "take (off + cl) (put_at off (take cl x) out) @ take (L - (off + cl)) rest @ drop L (put_at off (take cl x) out) =
     take off out @ take (L - off) (x @ rest) @ drop L out"
proof -
  have le: "off + cl \<le> L" "length (take cl x) = cl" using assms by simp_all
  then show "length (put_at off (take cl x) out) = length out" using assms(2) by simp
  have "take (off + cl) (put_at off (take cl x) out) = take off out @ take cl x" "drop L (put_at off (take cl x) out) = drop L out"
    using le assms(2) by (simp_all add: put_at_def)
  moreover have "take (L - off) (x @ rest) = take cl x @ take (L - (off + cl)) rest"
    using assms(3,4) by (auto simp: min_def)
  ultimately show "take (off + cl) (put_at off (take cl x) out) @ take (L - (off + cl)) rest @ drop L (put_at off (take cl x) out) =
     take off out @ take (L - off) (x @ rest) @ drop L out" by simp
qed

lemma zero_prefix_drop:
  "n \<le> length p \<Longrightarrow> noxtls_secure_zero (Some p) n = Some (replicate n 0 @ drop n p)"
  using secure_zero_from_nth [of p 0 n] by (auto simp: noxtls_secure_zero_def nth_append intro!: nth_equalityI)

text \<open>The number of blocks: any more of them have the same first L bytes.\<close>

lemma expand_more:
  assumes "0 < n" "\<And>j. 0 < j \<Longrightarrow> length (f j) = n" "L \<le> n * M"
  shows "take L (concat (map f [1..<Suc ((L + n - 1) div n)])) = take L (concat (map f [1..<Suc M]))"
proof -
  let ?N = "(L + n - 1) div n"
  have "L + n - 1 < n * Suc M" using assms(1,3) by simp
  then have NM: "?N \<le> M" using assms(1) by (metis less_Suc_eq_le less_mult_imp_div_less mult.commute)
  have "L + n - 1 < n * Suc ?N" using assms(1) dividend_less_times_div by simp
  then have L: "L \<le> n * ?N" by simp
  have "length (concat (map f [1..<Suc k])) = n * k" for k
    using assms(2) by (induction k) simp_all
  moreover have "[1..<Suc M] = [1..<Suc ?N] @ [Suc ?N..<Suc M]"
    using NM upt_add_eq_append [of 1 "Suc ?N" "M - ?N"] by simp
  ultimately show ?thesis using L by simp
qed

end
