(* ===== verification/Hkdf.thy ===== *)
theory Hkdf
  imports Hmac_Correct Chunked_Output
begin

text \<open>
  HKDF of \<open>kdf/noxtls_hkdf.c\<close> over the HMAC of \<open>mac/noxtls_hmac.c\<close>: extract, and expand with the info string in
  parts, which keys one HMAC context and resets it for every block. The reference is RFC 5869.
\<close>

section \<open>Definitions\<close>

record noxtls_hkdf_info_part_t =
  part_data :: "bytes option"
  part_len :: u32

definition noxtls_hkdf_hash_output_size :: "u32 \<Rightarrow> u32" where
  "noxtls_hkdf_hash_output_size algo =
     (if algo = NOXTLS_HASH_SHA1 then 20 else if algo = NOXTLS_HASH_SHA_256 then 32
      else if algo = NOXTLS_HASH_SHA_384 then 48 else if algo = NOXTLS_HASH_SHA_512 then 64 else 0)"

text \<open>The HMAC context, the salt of zeros and the block T live on the stack; their old content is a parameter.\<close>

definition noxtls_hkdf_extract ::
    "noxtls_hmac_context_t \<Rightarrow> bytes \<Rightarrow> u32 \<Rightarrow> bytes option \<Rightarrow> u32 \<Rightarrow> bytes option \<Rightarrow> u32 \<Rightarrow> bytes option \<Rightarrow> u32 option \<Rightarrow>
     noxtls_return_t \<times> bytes option \<times> u32 option" where
  "noxtls_hkdf_extract stack zero_salt algo salt salt_len ikm ikm_len prk prk_len =
     (let hash_size = noxtls_hkdf_hash_output_size algo in
      if ikm = None \<or> prk = None \<or> prk_len = None then (NOXTLS_RETURN_NULL, prk, prk_len)
      else if hash_size = 0 then (NOXTLS_RETURN_INVALID_ALGORITHM, prk, prk_len)
      else if the prk_len < hash_size then (NOXTLS_RETURN_FAILED, prk, Some hash_size)
      else
        let (salt_ptr, salt_n) =
              (if salt = None \<or> salt_len = 0 then (noxtls_secure_zero (Some zero_salt) (unat hash_size), hash_size)
               else (salt, salt_len))
        in noxtls_hmac_compute stack algo salt_ptr salt_n ikm ikm_len prk prk_len)"

fun feed_parts ::
    "noxtls_hmac_context_t option \<Rightarrow> noxtls_hkdf_info_part_t list \<Rightarrow> noxtls_return_t \<times> noxtls_hmac_context_t option" where
  "feed_parts ctx [] = (NOXTLS_RETURN_SUCCESS, ctx)"
| "feed_parts ctx (p # ps) =
     (case (if part_len p > 0 then noxtls_hmac_update ctx (part_data p) (part_len p) else (NOXTLS_RETURN_SUCCESS, ctx)) of
        (rc, ctx) \<Rightarrow> if rc \<noteq> NOXTLS_RETURN_SUCCESS then (rc, ctx) else feed_parts ctx ps)"

definition hkdf_block ::
    "noxtls_hmac_context_t option \<Rightarrow> u32 \<Rightarrow> noxtls_hkdf_info_part_t list \<Rightarrow> u32 \<Rightarrow> bytes \<Rightarrow>
     noxtls_return_t \<times> noxtls_hmac_context_t option \<times> bytes" where
  "hkdf_block ctx hash_size parts i T =
     (let counter = ucast i :: u8;
          (rc, ctx) = (if i > 1 then
               (case noxtls_hmac_reset ctx of
                  (rc, ctx) \<Rightarrow> if rc = NOXTLS_RETURN_SUCCESS then noxtls_hmac_update ctx (Some T) hash_size else (rc, ctx))
             else (NOXTLS_RETURN_SUCCESS, ctx));
          (rc, ctx) = (if rc = NOXTLS_RETURN_SUCCESS then feed_parts ctx parts else (rc, ctx));
          (rc, ctx) = (if rc = NOXTLS_RETURN_SUCCESS then noxtls_hmac_update ctx (Some [counter]) 1 else (rc, ctx));
          (rc, ctx, T', t_len) = (if rc = NOXTLS_RETURN_SUCCESS then noxtls_hmac_final ctx (Some T) (Some hash_size)
                                  else (rc, ctx, Some T, Some hash_size));
          rc = (if rc = NOXTLS_RETURN_SUCCESS \<and> the t_len \<noteq> hash_size then NOXTLS_RETURN_FAILED else rc)
      in (rc, ctx, the T'))"

text \<open>
  The loop over the blocks. A digest size of zero, which the caller has excluded, ends it as well, so that it is
  total.
\<close>

function hkdf_blocks ::
    "noxtls_hmac_context_t option \<Rightarrow> u32 \<Rightarrow> noxtls_hkdf_info_part_t list \<Rightarrow> u32 \<Rightarrow> u32 \<Rightarrow> u32 \<Rightarrow> bytes \<Rightarrow> bytes \<Rightarrow>
     noxtls_return_t \<times> noxtls_hmac_context_t option \<times> bytes" where
  "hkdf_blocks ctx hash_size parts okm_len offset i T okm =
     (if hash_size = 0 \<or> \<not> offset < okm_len then (NOXTLS_RETURN_SUCCESS, ctx, okm)
      else case hkdf_block ctx hash_size parts i T of
        (rc, ctx, T) \<Rightarrow>
          if rc \<noteq> NOXTLS_RETURN_SUCCESS then (rc, ctx, okm)
          else
            let remain = okm_len - offset; copy_len = (if remain < hash_size then remain else hash_size)
            in hkdf_blocks ctx hash_size parts okm_len (offset + copy_len) (i + 1) T
                 (put_at (unat offset) (take (unat copy_len) T) okm))"
  by pat_completeness auto
termination
proof (relation "measure (\<lambda>(_, _, _, okm_len, offset, _). unat (okm_len - offset))", goal_cases)
  case (2 ctx hash_size parts okm_len offset)
  then show ?case using chunk_progress [of hash_size offset okm_len]
    by (cases "okm_len - offset < hash_size") (simp_all add: chunk_len_def)
qed simp

declare hkdf_blocks.simps [simp del]

definition noxtls_hkdf_expand_parts ::
    "noxtls_hmac_context_t \<Rightarrow> bytes \<Rightarrow> u32 \<Rightarrow> bytes option \<Rightarrow> u32 \<Rightarrow> noxtls_hkdf_info_part_t list option \<Rightarrow> u32 \<Rightarrow>
     bytes option \<Rightarrow> u32 \<Rightarrow> noxtls_return_t \<times> bytes option" where
  "noxtls_hkdf_expand_parts stack T algo prk prk_len parts part_count okm okm_len =
     (let hash_size = noxtls_hkdf_hash_output_size algo;
          ps = take (unat part_count) (case parts of None \<Rightarrow> [] | Some l \<Rightarrow> l)
      in if prk = None \<or> okm = None then (NOXTLS_RETURN_NULL, okm)
         else if hash_size = 0 then (NOXTLS_RETURN_INVALID_ALGORITHM, okm)
         else if okm_len > 255 * hash_size then (NOXTLS_RETURN_INVALID_PARAM, okm)
         else if parts = None \<and> part_count \<noteq> 0 then (NOXTLS_RETURN_INVALID_PARAM, okm)
         else if list_ex (\<lambda>p. part_data p = None \<and> part_len p \<noteq> 0) ps then (NOXTLS_RETURN_INVALID_PARAM, okm)
         else if okm_len = 0 then (NOXTLS_RETURN_SUCCESS, okm)
         else
           let (rc, ctx) = noxtls_hmac_init (Some stack) algo prk prk_len;
               (rc, ctx, okm) = (if rc = NOXTLS_RETURN_SUCCESS then hkdf_blocks ctx hash_size ps okm_len 0 1 T (the okm)
                                 else (rc, ctx, the okm))
           in if rc \<noteq> NOXTLS_RETURN_SUCCESS then (rc, noxtls_secure_zero (Some okm) (unat okm_len)) else (rc, Some okm))"

definition noxtls_hkdf_expand ::
    "noxtls_hmac_context_t \<Rightarrow> bytes \<Rightarrow> u32 \<Rightarrow> bytes option \<Rightarrow> u32 \<Rightarrow> bytes option \<Rightarrow> u32 \<Rightarrow>
     bytes option \<Rightarrow> u32 \<Rightarrow> noxtls_return_t \<times> bytes option" where
  "noxtls_hkdf_expand stack T algo prk prk_len info info_len okm okm_len =
     noxtls_hkdf_expand_parts stack T algo prk prk_len (Some [\<lparr>part_data = info, part_len = info_len\<rparr>]) 1 okm okm_len"

text \<open>The two old names of the functions.\<close>

definition hkdf_extract ::
    "noxtls_hmac_context_t \<Rightarrow> bytes \<Rightarrow> u32 \<Rightarrow> bytes option \<Rightarrow> u32 \<Rightarrow> bytes option \<Rightarrow> u32 \<Rightarrow> bytes option \<Rightarrow> u32 option \<Rightarrow>
     noxtls_return_t \<times> bytes option \<times> u32 option" where
  "hkdf_extract stack zero_salt algo salt salt_len ikm ikm_len prk prk_len =
     noxtls_hkdf_extract stack zero_salt algo salt salt_len ikm ikm_len prk prk_len"

definition hkdf_expand ::
    "noxtls_hmac_context_t \<Rightarrow> bytes \<Rightarrow> u32 \<Rightarrow> bytes option \<Rightarrow> u32 \<Rightarrow> bytes option \<Rightarrow> u32 \<Rightarrow>
     bytes option \<Rightarrow> u32 \<Rightarrow> noxtls_return_t \<times> bytes option" where
  "hkdf_expand stack T algo prk prk_len info info_len okm okm_len =
     noxtls_hkdf_expand stack T algo prk prk_len info info_len okm okm_len"

section \<open>Reference\<close>

fun rfc_hkdf_T :: "(bytes \<Rightarrow> bytes) \<Rightarrow> bytes \<Rightarrow> nat \<Rightarrow> bytes" where
  "rfc_hkdf_T mac info 0 = []"
| "rfc_hkdf_T mac info (Suc n) = mac (rfc_hkdf_T mac info n @ info @ [of_nat (Suc n)])"

definition rfc_hkdf_expand :: "(bytes \<Rightarrow> bytes) \<Rightarrow> nat \<Rightarrow> bytes \<Rightarrow> nat \<Rightarrow> bytes" where
  "rfc_hkdf_expand mac hash_len info L =
     take L (concat (map (rfc_hkdf_T mac info) [1..<Suc ((L + hash_len - 1) div hash_len)]))"

definition info_of :: "noxtls_hkdf_info_part_t list \<Rightarrow> bytes" where
  "info_of ps = concat (map (\<lambda>p. case part_data p of None \<Rightarrow> [] | Some d \<Rightarrow> take (unat (part_len p)) d) ps)"

definition part_ok :: "noxtls_hkdf_info_part_t \<Rightarrow> bool" where
  "part_ok p = (case part_data p of None \<Rightarrow> part_len p = 0 | Some d \<Rightarrow> unat (part_len p) \<le> length d)"

section \<open>The blocks\<close>

context keyed_hash
begin

lemma feed_parts_accepts:
  "hmac_accepts holds block_size algo k c m \<Longrightarrow> list_all part_ok ps \<Longrightarrow>
   \<exists>c'. feed_parts (Some c) ps = (NOXTLS_RETURN_SUCCESS, Some c') \<and> hmac_accepts holds block_size algo k c' (m @ info_of ps)"
proof (induction ps arbitrary: c m)
  case (Cons p ps)
  have ok: "part_ok p" "list_all part_ok ps" using Cons.prems(2) by simp_all
  let ?d = "case part_data p of None \<Rightarrow> [] | Some d \<Rightarrow> take (unat (part_len p)) d"
  obtain c1 where c1: "(if part_len p > 0 then noxtls_hmac_update (Some c) (part_data p) (part_len p) else (NOXTLS_RETURN_SUCCESS, Some c)) =
      (NOXTLS_RETURN_SUCCESS, Some c1)" "hmac_accepts holds block_size algo k c1 (m @ ?d)"
    using optional_update [where p = "part_data p" and n = "part_len p" and d = ?d, OF Cons.prems(1)] ok(1) by (auto simp: part_ok_def split: option.splits)
  from Cons.IH [OF c1(2) ok(2)] show ?case using c1(1) by (simp add: info_of_def)
qed (simp add: info_of_def)

lemma hkdf_block_value:
  assumes ctx: "if i = 1 then hmac_accepts holds block_size algo k c [] else 1 < i \<and> hmac_keyed holds block_size algo k c"
    and ps: "list_all part_ok ps" "length (info_of ps) < 2 ^ 59" and T: "length T = 64"
  shows "\<exists>c'. hkdf_block (Some c) (of_nat out_size) ps i T =
      (NOXTLS_RETURN_SUCCESS, Some c',
       rfc_hmac_pads digest_of k ((if i = 1 then [] else take out_size T) @ info_of ps @ [ucast i]) @ drop out_size T) \<and>
    hmac_keyed holds block_size algo k c'"
proof -
  have sz: "unat (of_nat out_size :: u32) = out_size" using size_words(2) unfolding algo_sizes .
  let ?p = "if i = 1 then [] else take out_size T"
  obtain c1 where c1: "(if i > 1 then
        (case noxtls_hmac_reset (Some c) of
           (rc, ctx) \<Rightarrow> if rc = NOXTLS_RETURN_SUCCESS then noxtls_hmac_update ctx (Some T) (of_nat out_size) else (rc, ctx))
      else (NOXTLS_RETURN_SUCCESS, Some c)) = (NOXTLS_RETURN_SUCCESS, Some c1)" "hmac_accepts holds block_size algo k c1 ?p"
  proof (cases "i = 1")
    case True
    then show ?thesis using that [of c] ctx by simp
  next
    case False
    then have i: "1 < i" and key: "hmac_keyed holds block_size algo k c" using ctx by simp_all
    obtain c0 where c0: "noxtls_hmac_reset (Some c) = (NOXTLS_RETURN_SUCCESS, Some c0)" "hmac_accepts holds block_size algo k c0 []"
      using reset_accepts [OF key] by blast
    from update_accepts [OF c0(2), of "of_nat out_size" T] sizes T sz show ?thesis using that i False c0(1) by auto
  qed
  obtain c2 where c2: "feed_parts (Some c1) ps = (NOXTLS_RETURN_SUCCESS, Some c2)" "hmac_accepts holds block_size algo k c2 (?p @ info_of ps)"
    using feed_parts_accepts [OF c1(2) ps(1)] by blast
  obtain c3 where c3: "noxtls_hmac_update (Some c2) (Some [ucast i]) 1 = (NOXTLS_RETURN_SUCCESS, Some c3)"
    "hmac_accepts holds block_size algo k c3 ((?p @ info_of ps) @ [ucast i])"
    using update_accepts [OF c2(2), of 1 "[ucast i]"] by auto
  have l: "length ((?p @ info_of ps) @ [ucast i]) < 2 ^ 60"
  proof -
    have "length ?p \<le> 64" using T by simp
    moreover have "(64 :: nat) + 2 ^ 59 + 1 \<le> 2 ^ 60" by simp
    ultimately show ?thesis using ps(2) by simp
  qed
  have o: "out_size \<le> length T" using T sizes by simp
  obtain c4 where "noxtls_hmac_final (Some c3) (Some T) (Some (of_nat out_size)) =
      (NOXTLS_RETURN_SUCCESS, Some c4, Some (rfc_hmac_pads digest_of k ((?p @ info_of ps) @ [ucast i]) @ drop out_size T), Some (of_nat out_size))"
    "hmac_keyed holds block_size algo k c4"
    using final_value [OF c3(2) l o] by auto
  then show ?thesis using c1(1) c2(1) c3(1) by (simp add: hkdf_block_def Let_def)
qed

lemma hkdf_blocks_value:
  fixes okm_len :: u32 and k
  assumes ps: "list_all part_ok ps" "length (info_of ps) < 2 ^ 59" and L: "unat okm_len \<le> 255 * out_size"
  defines "TT \<equiv> rfc_hkdf_T (rfc_hmac_pads digest_of k) (info_of ps)" and "L \<equiv> unat okm_len"
  assumes "off = min (j * out_size) L" "L \<le> length okm" "length T = 64" "j \<le> 255"
    "if j = 0 then hmac_accepts holds block_size algo k c [] else hmac_keyed holds block_size algo k c" "take out_size T = TT j \<or> j = 0"
  shows "\<exists>c'. hkdf_blocks (Some c) (of_nat out_size) ps okm_len (of_nat off) (of_nat (Suc j)) T okm =
    (NOXTLS_RETURN_SUCCESS, c', take off okm @ take (L - off) (concat (map TT [Suc j..<257])) @ drop L okm)"
  using assms(6-11)
proof (induction "L - off" arbitrary: off j okm T c rule: less_induct)
  case less
  have sz: "unat (of_nat out_size :: u32) = out_size" "(of_nat out_size :: u32) \<noteq> 0" using size_words(2,4) unfolding algo_sizes by simp_all
  show ?case
  proof (cases "off < L")
    case False
    then have "off = L" using less.prems(1) by simp
    moreover have "of_nat L = okm_len" by (simp add: L_def)
    ultimately show ?thesis using False by (subst hkdf_blocks.simps) simp
  next
    case True
    note st = chunk_step [OF less.prems(1) [unfolded L_def] True [unfolded L_def] sz(1) sizes(2), folded L_def]
    have "j * out_size < unat okm_len" using True st(7) by (simp add: L_def)
    then have "j * out_size < 255 * out_size" using L by (rule less_le_trans)
    then have j: "j < 255" using mult_less_cancel2 by blast
    have ui: "unat (of_nat (Suc j) :: u32) = Suc j" using j by (simp only: unat_of_nat) simp
    have i: "(of_nat (Suc j) :: u32) = 1 \<longleftrightarrow> j = 0" "(1 :: u32) < of_nat (Suc j) \<longleftrightarrow> j \<noteq> 0"
      unfolding word_unat_eq_iff word_less_nat_alt ui by simp_all
    have u8: "unat (of_nat (Suc j) :: u8) = Suc j mod 256" by (simp only: unat_of_nat) simp
    have cnt: "(ucast (of_nat (Suc j) :: u32) :: u8) = of_nat (Suc j)"
      unfolding word_unat_eq_iff unsigned_ucast_eq ui u8 by (simp add: take_bit_eq_mod)
    have ctx: "if (of_nat (Suc j) :: u32) = 1 then hmac_accepts holds block_size algo k c []
        else 1 < (of_nat (Suc j) :: u32) \<and> hmac_keyed holds block_size algo k c"
      using less.prems(5) i by simp
    let ?T = "TT (Suc j) @ drop out_size T"
    obtain c' where c': "hkdf_block (Some c) (of_nat out_size) ps (of_nat (Suc j)) T = (NOXTLS_RETURN_SUCCESS, Some c', ?T)"
      "hmac_keyed holds block_size algo k c'"
      using hkdf_block_value [OF ctx ps less.prems(3)] less.prems(6) unfolding i cnt TT_def by auto
    have lT: "length (TT (Suc j)) = out_size" "length ?T = 64" using less.prems(3) sizes by (simp_all add: TT_def pads_length)
    define cl where "cl = min (L - off) out_size"
    let ?okm = "put_at off (take cl (TT (Suc j))) okm"
    note w = chunk_write [OF True less.prems(2) lT(1) cl_def]
    have tk: "cl \<le> out_size" by (simp add: cl_def)
    have step: "hkdf_blocks (Some c) (of_nat out_size) ps okm_len (of_nat off) (of_nat (Suc j)) T okm =
        hkdf_blocks (Some c') (of_nat out_size) ps okm_len (of_nat (off + cl)) (of_nat (Suc (Suc j))) ?T ?okm"
      using st(1-4) c'(1) sz(2)
      by (subst hkdf_blocks.simps) (simp add: chunk_len_def [symmetric] cl_def [symmetric] tk lT(1) Let_def add.commute)
    have "take out_size ?T = TT (Suc j)" using lT(1) by simp
    then obtain c'' where "hkdf_blocks (Some c') (of_nat out_size) ps okm_len (of_nat (off + cl)) (of_nat (Suc (Suc j))) ?T ?okm =
        (NOXTLS_RETURN_SUCCESS, c'', take (off + cl) ?okm @ take (L - (off + cl)) (concat (map TT [Suc (Suc j)..<257])) @ drop L ?okm)"
      using less.hyps [of "off + cl" "Suc j" ?okm ?T c'] st(5,6) w(1) less.prems(2) lT(2) c'(2) j unfolding cl_def [symmetric] by auto
    moreover have "[Suc j..<257] = Suc j # [Suc (Suc j)..<257]" using j by (simp add: upt_conv_Cons)
    ultimately show ?thesis unfolding step w(2) by auto
  qed
qed

end

lemma zero_prefix: "n \<le> length Z \<Longrightarrow> take n (the (noxtls_secure_zero (Some Z) n)) = replicate n 0 \<and>
    length (the (noxtls_secure_zero (Some Z) n)) = length Z"
  using secure_zero_from_nth [of Z 0 n] by (auto simp: noxtls_secure_zero_def intro!: nth_equalityI)

section \<open>Properties\<close>

definition hkdf_algos :: "u32 list" where
  "hkdf_algos = [NOXTLS_HASH_SHA1, NOXTLS_HASH_SHA_256, NOXTLS_HASH_SHA_384, NOXTLS_HASH_SHA_512]"

lemma hkdf_hmac_algos: "algo \<in> set hkdf_algos \<Longrightarrow> algo \<in> set hmac_algos"
  by (auto simp: hkdf_algos_def hmac_algos_def)

lemma hkdf_size: "noxtls_hkdf_hash_output_size algo = (if algo \<in> set hkdf_algos then of_nat (sha_size algo) else 0)"
  by (auto simp: hkdf_algos_def noxtls_hkdf_hash_output_size_def sha_size_def hash_algos)

lemma hkdf_size_facts:
  assumes "algo \<in> set hkdf_algos"
  shows "unat (of_nat (sha_size algo) :: u32) = sha_size algo" "(of_nat (sha_size algo) :: u32) \<noteq> 0"
    "unat (255 * of_nat (sha_size algo) :: u32) = 255 * sha_size algo"
  using assms by (auto simp: hkdf_algos_def sha_sizes)

text \<open>The work of expand after its checks.\<close>

lemma hkdf_expand_run:
  fixes okm_len :: u32
  assumes a: "algo \<in> set hkdf_algos" and prk: "unat prk_len \<le> length prk" and ps: "list_all part_ok ps" "length (info_of ps) < 2 ^ 59"
    and L: "unat okm_len \<le> 255 * sha_size algo" "unat okm_len \<le> length okm" and T: "length T = 64"
  shows "\<exists>c c'. noxtls_hmac_init (Some stack) algo (Some prk) prk_len = (NOXTLS_RETURN_SUCCESS, Some c) \<and>
    hkdf_blocks (Some c) (of_nat (sha_size algo)) ps okm_len 0 1 T okm = (NOXTLS_RETURN_SUCCESS, c',
      rfc_hkdf_expand (rfc_hmac (sha_reference algo) (hmac_block algo) (take (unat prk_len) prk)) (sha_size algo) (info_of ps) (unat okm_len) @
      drop (unat okm_len) okm)"
proof -
  note kh = hmac_keyed_hash [OF hkdf_hmac_algos [OF a]]
  let ?k = "rfc_hmac_key (sha_reference algo) (hmac_block algo) (take (unat prk_len) prk)"
  let ?mac = "rfc_hmac_pads (sha_reference algo) ?k" and ?n = "sha_size algo"
  obtain c where c: "noxtls_hmac_init (Some stack) algo (Some prk) prk_len = (NOXTLS_RETURN_SUCCESS, Some c)"
    "hmac_accepts (sha_holds algo) (hmac_block algo) algo ?k c []"
    using keyed_hash.init_accepts [OF kh prk] by blast
  obtain c' where "hkdf_blocks (Some c) (of_nat ?n) ps okm_len 0 1 T okm =
      (NOXTLS_RETURN_SUCCESS, c', take (unat okm_len) (concat (map (rfc_hkdf_T ?mac (info_of ps)) [1..<257])) @ drop (unat okm_len) okm)"
    using keyed_hash.hkdf_blocks_value [OF kh ps L(1), where off = 0 and j = 0 and okm = okm and T = T and c = c and k = ?k] L(2) T c(2)
    by auto
  moreover have "length (rfc_hkdf_T ?mac (info_of ps) j) = ?n" if "0 < j" for j
    using that keyed_hash.pads_length [OF kh] by (cases j) simp_all
  then have "take (unat okm_len) (concat (map (rfc_hkdf_T ?mac (info_of ps)) [1..<257])) =
      rfc_hkdf_expand (rfc_hmac (sha_reference algo) (hmac_block algo) (take (unat prk_len) prk)) ?n (info_of ps) (unat okm_len)"
    using expand_more [of ?n "rfc_hkdf_T ?mac (info_of ps)" "unat okm_len" 256] L(1) hmac_sizes(4) [OF hkdf_hmac_algos [OF a]]
    unfolding rfc_hkdf_expand_def rfc_hmac_def [abs_def] by simp
  ultimately show ?thesis using c(1) by auto
qed

lemma hkdf_expand_value:
  assumes "\<forall>p. prk = Some p \<longrightarrow> unat prk_len \<le> length p" "\<forall>out. okm = Some out \<longrightarrow> unat okm_len \<le> length out" "length T = 64"
    and "ps = take (unat part_count) (case parts of None \<Rightarrow> [] | Some l \<Rightarrow> l)"
    and "\<forall>p\<in>set ps. \<forall>d. part_data p = Some d \<longrightarrow> unat (part_len p) \<le> length d" "length (info_of ps) < 2 ^ 59"
  shows "noxtls_hkdf_expand_parts stack T algo prk prk_len parts part_count okm okm_len =
    (case (prk, okm) of
       (Some p, Some out) \<Rightarrow>
         if algo \<notin> set hkdf_algos then (NOXTLS_RETURN_INVALID_ALGORITHM, okm)
         else if 255 * sha_size algo < unat okm_len \<or> parts = None \<and> part_count \<noteq> 0 \<or> \<not> list_all part_ok ps
           then (NOXTLS_RETURN_INVALID_PARAM, okm)
         else (NOXTLS_RETURN_SUCCESS,
           Some (rfc_hkdf_expand (rfc_hmac (sha_reference algo) (hmac_block algo) (take (unat prk_len) p)) (sha_size algo)
                   (info_of ps) (unat okm_len) @ drop (unat okm_len) out))
     | _ \<Rightarrow> (NOXTLS_RETURN_NULL, okm))"
proof (cases "\<exists>p out. prk = Some p \<and> okm = Some out \<and> algo \<in> set hkdf_algos")
  case False
  then show ?thesis
    by (cases prk; cases okm) (simp_all add: noxtls_hkdf_expand_parts_def hkdf_size Let_def)
next
  case True
  then obtain p out where po: "prk = Some p" "okm = Some out" and a: "algo \<in> set hkdf_algos" by blast
  have "part_ok p \<longleftrightarrow> \<not> (part_data p = None \<and> part_len p \<noteq> 0)" if "p \<in> set ps" for p
    using assms(5) that by (auto simp: part_ok_def split: option.splits)
  then have missing: "list_ex (\<lambda>p. part_data p = None \<and> part_len p \<noteq> 0) ps \<longleftrightarrow> \<not> list_all part_ok ps"
    unfolding list_ex_iff list_all_iff by blast
  have long: "255 * (of_nat (sha_size algo) :: u32) < okm_len \<longleftrightarrow> 255 * sha_size algo < unat okm_len"
    unfolding word_less_nat_alt hkdf_size_facts(3) [OF a] ..
  show ?thesis
  proof (cases "255 * sha_size algo < unat okm_len \<or> parts = None \<and> part_count \<noteq> 0 \<or> \<not> list_all part_ok ps")
    case True
    then show ?thesis
      using po a hkdf_size_facts(2) [OF a] by (auto simp: noxtls_hkdf_expand_parts_def hkdf_size Let_def long missing [unfolded assms(4)] assms(4))
  next
    case False
    obtain c c' where "noxtls_hmac_init (Some stack) algo (Some p) prk_len = (NOXTLS_RETURN_SUCCESS, Some c)"
      "hkdf_blocks (Some c) (of_nat (sha_size algo)) ps okm_len 0 1 T out = (NOXTLS_RETURN_SUCCESS, c',
        rfc_hkdf_expand (rfc_hmac (sha_reference algo) (hmac_block algo) (take (unat prk_len) p)) (sha_size algo) (info_of ps) (unat okm_len) @
        drop (unat okm_len) out)"
      using hkdf_expand_run [OF a _ _ assms(6) _ _ assms(3), of prk_len p okm_len out stack] False assms(1,2) po by auto
    then show ?thesis
      using False po a hkdf_size_facts(2) [OF a]
      by (auto simp: noxtls_hkdf_expand_parts_def hkdf_size Let_def long missing assms(4) [symmetric] rfc_hkdf_expand_def [of _ _ _ 0])
  qed
qed

text \<open>
  C36. HKDF-Expand, on every branch. Expand refuses missing buffers, a digest it does not support, more output than 255
  blocks, and a missing info part of non-zero length, leaving the output alone; otherwise it writes exactly the RFC 5869
  output keying material of the concatenated info parts, for every output length, and nothing behind it.
\<close>

theorem hkdf_expand_cases:
  assumes "\<forall>p. prk = Some p \<longrightarrow> unat prk_len \<le> length p" "\<forall>out. okm = Some out \<longrightarrow> unat okm_len \<le> length out" "length T = 64"
    and "ps = take (unat part_count) (case parts of None \<Rightarrow> [] | Some l \<Rightarrow> l)"
    and "\<forall>p\<in>set ps. \<forall>d. part_data p = Some d \<longrightarrow> unat (part_len p) \<le> length d" "length (info_of ps) < 2 ^ 59"
  shows "noxtls_hkdf_expand_parts stack T algo prk prk_len parts part_count okm okm_len =
    (case (prk, okm) of
       (Some p, Some out) \<Rightarrow>
         if algo \<notin> set hkdf_algos then (NOXTLS_RETURN_INVALID_ALGORITHM, okm)
         else if 255 * sha_size algo < unat okm_len \<or> parts = None \<and> part_count \<noteq> 0 \<or> \<not> list_all part_ok ps
           then (NOXTLS_RETURN_INVALID_PARAM, okm)
         else (NOXTLS_RETURN_SUCCESS,
           Some (rfc_hkdf_expand (rfc_hmac (sha_reference algo) (hmac_block algo) (take (unat prk_len) p)) (sha_size algo)
                   (info_of ps) (unat okm_len) @ drop (unat okm_len) out))
     | _ \<Rightarrow> (NOXTLS_RETURN_NULL, okm))"
  by (rule hkdf_expand_value [OF assms])

theorem hkdf_expand_cases_witness:
  "noxtls_hkdf_expand_parts zero_hmac_ctx (replicate 64 0) NOXTLS_HASH_SHA_256 (Some (replicate 32 1)) 32
     (Some [\<lparr>part_data = Some [1, 2], part_len = 2\<rparr>, \<lparr>part_data = None, part_len = 0\<rparr>]) 2 (Some (replicate 70 0)) 70 =
   (NOXTLS_RETURN_SUCCESS, Some (rfc_hkdf_expand (rfc_hmac fips_sha256 64 (replicate 32 1)) 32 [1, 2] 70))"
  using hkdf_expand_cases [of "Some (replicate 32 1)" 32 "Some (replicate 70 0)" 70 "replicate 64 0" _ 2
    "Some [\<lparr>part_data = Some [1, 2], part_len = 2\<rparr>, \<lparr>part_data = None, part_len = 0\<rparr>]", OF _ _ _ refl,
    of zero_hmac_ctx NOXTLS_HASH_SHA_256]
  by (simp add: hkdf_algos_def hmac_blocks sha_sizes part_ok_def info_of_def)

text \<open>
  HKDF-Extract, on every branch. Extract refuses missing buffers, an unsupported digest and an output buffer that is too
  small (reporting the needed size); otherwise it writes HMAC(salt, input), with digest-many zeros for a missing or
  empty salt, as RFC 5869 prescribes.
\<close>

theorem hkdf_extract_cases:
  assumes "\<forall>s. salt = Some s \<longrightarrow> unat salt_len \<le> length s" "\<forall>d. ikm = Some d \<longrightarrow> unat ikm_len \<le> length d" "length Z = 64"
    "\<forall>m l. prk = Some m \<longrightarrow> prk_len = Some l \<longrightarrow> unat l \<le> length m"
  shows "noxtls_hkdf_extract stack Z algo salt salt_len ikm ikm_len prk prk_len =
    (case (ikm, prk, prk_len) of
       (Some d, Some m, Some l) \<Rightarrow>
         if algo \<notin> set hkdf_algos then (NOXTLS_RETURN_INVALID_ALGORITHM, prk, prk_len)
         else if unat l < sha_size algo then (NOXTLS_RETURN_FAILED, prk, Some (of_nat (sha_size algo)))
         else (NOXTLS_RETURN_SUCCESS,
           Some (rfc_hmac (sha_reference algo) (hmac_block algo)
                   (case salt of None \<Rightarrow> replicate (sha_size algo) 0
                    | Some s \<Rightarrow> if salt_len = 0 then replicate (sha_size algo) 0 else take (unat salt_len) s)
                   (take (unat ikm_len) d) @ drop (sha_size algo) m),
           Some (of_nat (sha_size algo)))
     | _ \<Rightarrow> (NOXTLS_RETURN_NULL, prk, prk_len))"
proof (cases "\<exists>d m l. ikm = Some d \<and> prk = Some m \<and> prk_len = Some l \<and> algo \<in> set hkdf_algos")
  case False
  then show ?thesis
    by (cases ikm; cases prk; cases prk_len) (simp_all add: noxtls_hkdf_extract_def hkdf_size Let_def)
next
  case True
  then obtain d m l where some: "ikm = Some d" "prk = Some m" "prk_len = Some l" and a: "algo \<in> set hkdf_algos" by blast
  note u = hkdf_size_facts [OF a]
  have less: "l < of_nat (sha_size algo) \<longleftrightarrow> unat l < sha_size algo" by (simp add: word_less_nat_alt u(1))
  define s where "s = (if salt = None \<or> salt_len = 0 then the (noxtls_secure_zero (Some Z) (sha_size algo)) else the salt)"
  define n where "n = (if salt = None \<or> salt_len = 0 then of_nat (sha_size algo) else salt_len)"
  have used: "take (unat n) s = (case salt of None \<Rightarrow> replicate (sha_size algo) 0
      | Some s \<Rightarrow> if salt_len = 0 then replicate (sha_size algo) 0 else take (unat salt_len) s)" "unat n \<le> length s"
    using assms(1) zero_prefix [of "sha_size algo" Z] hmac_sizes(5) [OF hkdf_hmac_algos [OF a]] assms(3)
    by (auto simp: s_def n_def u(1) split: option.splits)
  have run: "noxtls_hkdf_extract stack Z algo salt salt_len ikm ikm_len prk prk_len =
      (if unat l < sha_size algo then (NOXTLS_RETURN_FAILED, prk, Some (of_nat (sha_size algo)))
       else noxtls_hmac_compute stack algo (Some s) n ikm ikm_len prk prk_len)"
    using some a u(1,2) by (auto simp: noxtls_hkdf_extract_def hkdf_size Let_def less s_def n_def noxtls_secure_zero_def)
  have data: "\<forall>d. ikm = Some d \<longrightarrow> unat ikm_len \<le> length d" by (rule assms(2))
  show ?thesis
    using run hmac_compute_keyed(2) [OF hkdf_hmac_algos [OF a] used(2) data, of l m stack] assms(4) some a
    by (simp add: used(1))
qed

theorem hkdf_extract_cases_witness:
  "noxtls_hkdf_extract zero_hmac_ctx (replicate 64 9) NOXTLS_HASH_SHA1 None 5 (Some [1, 2, 3]) 3 (Some (replicate 20 0)) (Some 20) =
     (NOXTLS_RETURN_SUCCESS, Some (rfc_hmac fips_sha1 64 (replicate 20 0) [1, 2, 3]), Some 20)"
  using hkdf_extract_cases [of None 5 "Some [1, 2, 3]" 3 "replicate 64 9" "Some (replicate 20 0)" "Some 20" zero_hmac_ctx NOXTLS_HASH_SHA1]
  by (simp add: hkdf_algos_def hmac_blocks sha_sizes)

end
