(* ===== verification/Pbkdf2.thy ===== *)
theory Pbkdf2
  imports Hkdf
begin

text \<open>
  PBKDF2 of \<open>kdf/noxtls_pbkdf.c\<close>: one HMAC context is keyed with the password and reset for every call of the
  pseudorandom function. The reference is RFC 8018, section 5.2.
\<close>

section \<open>Definitions\<close>

definition noxtls_pbkdf2_prf_size :: "u32 \<Rightarrow> u32" where
  "noxtls_pbkdf2_prf_size hash_algo =
     (if hash_algo = NOXTLS_HASH_SHA1 then 20 else if hash_algo = NOXTLS_HASH_SHA_256 then 32
      else if hash_algo = NOXTLS_HASH_SHA_384 then 48 else if hash_algo = NOXTLS_HASH_SHA_512 then 64 else 0)"

definition noxtls_pbkdf2_unusable_algorithm :: "u32 \<Rightarrow> noxtls_return_t" where
  "noxtls_pbkdf2_unusable_algorithm hash_algo =
     (if hash_algo = NOXTLS_HASH_SHA1 \<or> hash_algo = NOXTLS_HASH_SHA_256 \<or>
         hash_algo = NOXTLS_HASH_SHA_384 \<or> hash_algo = NOXTLS_HASH_SHA_512
      then NOXTLS_RETURN_NOT_SUPPORTED else NOXTLS_RETURN_INVALID_ALGORITHM)"

definition noxtls_pbkdf2_prf ::
    "noxtls_hmac_context_t option \<Rightarrow> bytes option \<Rightarrow> u32 \<Rightarrow> bytes option \<Rightarrow> u32 \<Rightarrow> bytes \<Rightarrow> u32 \<Rightarrow>
     noxtls_return_t \<times> noxtls_hmac_context_t option \<times> bytes" where
  "noxtls_pbkdf2_prf hmac part1 part1_len part2 part2_len out out_len =
     (let (rc, hmac) = noxtls_hmac_reset hmac;
          (rc, hmac) = (if rc = NOXTLS_RETURN_SUCCESS \<and> part1_len > 0 then noxtls_hmac_update hmac part1 part1_len else (rc, hmac));
          (rc, hmac) = (if rc = NOXTLS_RETURN_SUCCESS \<and> part2_len > 0 then noxtls_hmac_update hmac part2 part2_len else (rc, hmac));
          (rc, hmac, out', mac_len) = (if rc = NOXTLS_RETURN_SUCCESS then noxtls_hmac_final hmac (Some out) (Some out_len)
                                       else (rc, hmac, Some out, Some out_len));
          rc = (if rc = NOXTLS_RETURN_SUCCESS \<and> the mac_len \<noteq> out_len then NOXTLS_RETURN_FAILED else rc);
          out' = (if rc \<noteq> NOXTLS_RETURN_SUCCESS then noxtls_secure_zero out' (unat out_len) else out')
      in (rc, hmac, the out'))"

text \<open>The turns of the iteration loop, \<open>n\<close> of them still to go.\<close>

definition pbkdf2_xor :: "bytes \<Rightarrow> bytes \<Rightarrow> nat \<Rightarrow> bytes" where
  "pbkdf2_xor t_block u_block n = foldl (\<lambda>t i. t[i := t ! i XOR u_block ! i]) t_block [0..<n]"

fun pbkdf2_iterate ::
    "nat \<Rightarrow> noxtls_hmac_context_t option \<Rightarrow> u32 \<Rightarrow> bytes \<Rightarrow> bytes \<Rightarrow> noxtls_return_t \<times> noxtls_hmac_context_t option \<times> bytes \<times> bytes" where
  "pbkdf2_iterate 0 hmac h_len u_block t_block = (NOXTLS_RETURN_SUCCESS, hmac, u_block, t_block)"
| "pbkdf2_iterate (Suc n) hmac h_len u_block t_block =
     (case noxtls_pbkdf2_prf hmac (Some u_block) h_len None 0 u_block h_len of
        (rc, hmac, u_block) \<Rightarrow>
          if rc \<noteq> NOXTLS_RETURN_SUCCESS then (rc, hmac, u_block, t_block)
          else pbkdf2_iterate n hmac h_len u_block (pbkdf2_xor t_block u_block (unat h_len)))"

definition pbkdf2_block_index :: "u32 \<Rightarrow> bytes" where
  "pbkdf2_block_index block = [ucast (drop_bit 24 block AND 0xFF), ucast (drop_bit 16 block AND 0xFF),
     ucast (drop_bit 8 block AND 0xFF), ucast (block AND 0xFF)]"

definition pbkdf2_block ::
    "noxtls_hmac_context_t option \<Rightarrow> u32 \<Rightarrow> bytes option \<Rightarrow> u32 \<Rightarrow> u32 \<Rightarrow> u32 \<Rightarrow> bytes \<Rightarrow> bytes \<Rightarrow>
     noxtls_return_t \<times> noxtls_hmac_context_t option \<times> bytes \<times> bytes" where
  "pbkdf2_block hmac h_len salt salt_len iterations block u_block t_block =
     (case noxtls_pbkdf2_prf hmac salt salt_len (Some (pbkdf2_block_index block)) 4 u_block h_len of
        (rc, hmac, u_block) \<Rightarrow>
          if rc \<noteq> NOXTLS_RETURN_SUCCESS then (rc, hmac, u_block, t_block)
          else pbkdf2_iterate (unat iterations - 1) hmac h_len u_block (put_at 0 (take (unat h_len) u_block) t_block))"

text \<open>The loop over the blocks; a size of zero, which the caller has excluded, ends it as well.\<close>

function pbkdf2_blocks ::
    "noxtls_hmac_context_t option \<Rightarrow> u32 \<Rightarrow> bytes option \<Rightarrow> u32 \<Rightarrow> u32 \<Rightarrow> u32 \<Rightarrow> u32 \<Rightarrow> u32 \<Rightarrow> bytes \<Rightarrow> bytes \<Rightarrow> bytes \<Rightarrow>
     noxtls_return_t \<times> noxtls_hmac_context_t option \<times> bytes" where
  "pbkdf2_blocks hmac h_len salt salt_len iterations dk_len offset block u_block t_block dk =
     (if h_len = 0 \<or> \<not> offset < dk_len then (NOXTLS_RETURN_SUCCESS, hmac, dk)
      else case pbkdf2_block hmac h_len salt salt_len iterations block u_block t_block of
        (rc, hmac, u_block, t_block) \<Rightarrow>
          if rc \<noteq> NOXTLS_RETURN_SUCCESS then (rc, hmac, dk)
          else
            let copy_len = (if dk_len - offset < h_len then dk_len - offset else h_len)
            in pbkdf2_blocks hmac h_len salt salt_len iterations dk_len (offset + copy_len) (block + 1) u_block t_block
                 (put_at (unat offset) (take (unat copy_len) t_block) dk))"
  by pat_completeness auto
termination
proof (relation "measure (\<lambda>(_, _, _, _, _, dk_len, offset, _). unat (dk_len - offset))", goal_cases)
  case (2 hmac h_len salt salt_len iterations dk_len offset)
  then show ?case using chunk_progress [of h_len offset dk_len]
    by (cases "dk_len - offset < h_len") (simp_all add: chunk_len_def)
qed simp

declare pbkdf2_blocks.simps [simp del]

text \<open>The HMAC context and the blocks U and T live on the stack; their old content is a parameter.\<close>

definition noxtls_pbkdf2_hmac ::
    "noxtls_hmac_context_t \<Rightarrow> bytes \<Rightarrow> bytes \<Rightarrow> u32 \<Rightarrow> bytes option \<Rightarrow> u32 \<Rightarrow> bytes option \<Rightarrow> u32 \<Rightarrow> u32 \<Rightarrow> bytes option \<Rightarrow> u32 \<Rightarrow>
     noxtls_return_t \<times> bytes option" where
  "noxtls_pbkdf2_hmac stack u_block t_block hash_algo password password_len salt salt_len iterations dk dk_len =
     (if dk = None \<or> password = None \<and> password_len > 0 \<or> salt = None \<and> salt_len > 0 then (NOXTLS_RETURN_NULL, dk)
      else
        let h_len = noxtls_pbkdf2_prf_size hash_algo in
        if h_len = 0 then (noxtls_pbkdf2_unusable_algorithm hash_algo, noxtls_secure_zero dk (unat dk_len))
        else if iterations < 1 \<or> dk_len = 0 then (NOXTLS_RETURN_INVALID_PARAM, noxtls_secure_zero dk (unat dk_len))
        else
          let key = (if password_len = 0 then Some [0] else password);
              (rc, hmac) = noxtls_hmac_init (Some stack) hash_algo key password_len;
              (rc, hmac, dk) = (if rc = NOXTLS_RETURN_SUCCESS
                                then pbkdf2_blocks hmac h_len salt salt_len iterations dk_len 0 1 u_block t_block (the dk)
                                else (rc, hmac, the dk))
          in if rc \<noteq> NOXTLS_RETURN_SUCCESS then (rc, noxtls_secure_zero (Some dk) (unat dk_len)) else (rc, Some dk))"

section \<open>Reference\<close>

definition xor_all :: "bytes \<Rightarrow> bytes list \<Rightarrow> bytes" where
  "xor_all = foldl (map2 (XOR))"

text \<open>T_i is the exclusive or of U_1 to U_c, where U_1 is the function of the salt and the index, and each next U that of its predecessor.\<close>

definition rfc_pbkdf2_F :: "(bytes \<Rightarrow> bytes) \<Rightarrow> bytes \<Rightarrow> nat \<Rightarrow> nat \<Rightarrow> bytes" where
  "rfc_pbkdf2_F prf S c i =
     (let U1 = prf (S @ be32_bytes (of_nat i)) in xor_all U1 (map (\<lambda>j. (prf ^^ j) U1) [1..<c]))"

definition rfc_pbkdf2 :: "(bytes \<Rightarrow> bytes) \<Rightarrow> nat \<Rightarrow> bytes \<Rightarrow> nat \<Rightarrow> nat \<Rightarrow> bytes" where
  "rfc_pbkdf2 prf h_len S c L = take L (concat (map (rfc_pbkdf2_F prf S c) [1..<Suc ((L + h_len - 1) div h_len)]))"

section \<open>The blocks\<close>

lemma block_index_bytes: "pbkdf2_block_index i = be32_bytes i"
proof -
  have "(ucast (w AND 0xFF) :: u8) = ucast w" for w :: u32
    by (rule bit_word_eqI) (auto simp: bit_ucast_iff bit_and_iff mask_eq_exp_minus_1 [symmetric, of 8, simplified] bit_mask_iff)
  then show ?thesis by (simp add: pbkdf2_block_index_def be32_bytes_def)
qed

lemma pbkdf2_xor_value:
  "n \<le> length t \<Longrightarrow> n \<le> length u \<Longrightarrow> pbkdf2_xor t u n = map2 (XOR) (take n t) (take n u) @ drop n t"
proof (induction n)
  case (Suc n)
  have "pbkdf2_xor t u (Suc n) = (pbkdf2_xor t u n)[n := pbkdf2_xor t u n ! n XOR u ! n]" by (simp add: pbkdf2_xor_def)
  also have "\<dots> = (map2 (XOR) (take n t) (take n u) @ drop n t)[n := t ! n XOR u ! n]"
    using Suc by (simp add: nth_append)
  also have "\<dots> = map2 (XOR) (take (Suc n) t) (take (Suc n) u) @ drop (Suc n) t"
    using Suc.prems by (simp add: list_update_append Cons_nth_drop_Suc [symmetric] take_Suc_conv_app_nth)
  finally show ?case .
qed (simp add: pbkdf2_xor_def)

lemma xor_all_length: "\<forall>x\<in>set xs. length x = length t \<Longrightarrow> length (xor_all t xs) = length t"
proof -
  have "\<forall>x\<in>set xs. length x = n \<Longrightarrow> length t = n \<Longrightarrow> length (foldl (map2 (XOR)) t xs) = n" for n and t :: bytes and xs
    by (induction xs arbitrary: t) simp_all
  then show "\<forall>x\<in>set xs. length x = length t \<Longrightarrow> ?thesis" by (simp add: xor_all_def)
qed

context keyed_hash
begin

lemma prf_value:
  assumes key: "hmac_keyed holds block_size algo k c" and u: "length u = 64"
    and p1: "case part1 of None \<Rightarrow> n1 = 0 \<and> d1 = [] | Some d \<Rightarrow> unat n1 \<le> length d \<and> d1 = take (unat n1) d"
    and p2: "case part2 of None \<Rightarrow> n2 = 0 \<and> d2 = [] | Some d \<Rightarrow> unat n2 \<le> length d \<and> d2 = take (unat n2) d"
  shows "\<exists>c' z. noxtls_pbkdf2_prf (Some c) part1 n1 part2 n2 u (of_nat out_size) =
      (NOXTLS_RETURN_SUCCESS, Some c', rfc_hmac_pads digest_of k (d1 @ d2) @ z) \<and>
    hmac_keyed holds block_size algo k c' \<and> length (rfc_hmac_pads digest_of k (d1 @ d2) @ z) = 64"
proof -
  obtain c0 where c0: "noxtls_hmac_reset (Some c) = (NOXTLS_RETURN_SUCCESS, Some c0)" "hmac_accepts holds block_size algo k c0 []"
    using reset_accepts [OF key] by blast
  obtain c1 where c1: "(if n1 > 0 then noxtls_hmac_update (Some c0) part1 n1 else (NOXTLS_RETURN_SUCCESS, Some c0)) = (NOXTLS_RETURN_SUCCESS, Some c1)"
    "hmac_accepts holds block_size algo k c1 d1"
    using optional_update [OF c0(2) p1] by auto
  obtain c2 where c2: "(if n2 > 0 then noxtls_hmac_update (Some c1) part2 n2 else (NOXTLS_RETURN_SUCCESS, Some c1)) = (NOXTLS_RETURN_SUCCESS, Some c2)"
    "hmac_accepts holds block_size algo k c2 (d1 @ d2)"
    using optional_update [OF c1(2) p2] by blast
  have "length d1 < 2 ^ 32" "length d2 < 2 ^ 32"
    using p1 p2 unsigned_less [where 'a = nat and w = n1] unsigned_less [where 'a = nat and w = n2] by (auto split: option.splits)
  then have "length (d1 @ d2) < 2 ^ 60" by simp
  moreover have o: "out_size \<le> length u" using u sizes by simp
  ultimately obtain c3 where c3: "noxtls_hmac_final (Some c2) (Some u) (Some (of_nat out_size)) =
      (NOXTLS_RETURN_SUCCESS, Some c3, Some (rfc_hmac_pads digest_of k (d1 @ d2) @ drop out_size u), Some (of_nat out_size))"
    "hmac_keyed holds block_size algo k c3"
    using final_value [OF c2(2)] by blast
  have "noxtls_pbkdf2_prf (Some c) part1 n1 part2 n2 u (of_nat out_size) =
      (NOXTLS_RETURN_SUCCESS, Some c3, rfc_hmac_pads digest_of k (d1 @ d2) @ drop out_size u)"
    using c0(1) c1(1) c2(1) c3(1) by (simp add: noxtls_pbkdf2_prf_def Let_def)
  then show ?thesis using c3(2) o u by (auto simp: pads_length)
qed

lemma iterate_value:
  assumes "hmac_keyed holds block_size algo k c" "length (v @ z) = 64" "length v = out_size" "length t = 64"
  shows "\<exists>c' u. pbkdf2_iterate n (Some c) (of_nat out_size) (v @ z) t =
      (NOXTLS_RETURN_SUCCESS, Some c', u,
       xor_all (take out_size t) (map (\<lambda>j. (rfc_hmac_pads digest_of k ^^ j) v) [1..<Suc n]) @ drop out_size t) \<and>
    hmac_keyed holds block_size algo k c' \<and> length u = 64"
  using assms
proof (induction n arbitrary: c v z t)
  case (Suc n)
  let ?pad_mac = "rfc_hmac_pads digest_of k"
  have sz: "unat (of_nat out_size :: u32) = out_size" using size_words(2) unfolding algo_sizes .
  have o: "out_size \<le> 64" using sizes by simp
  obtain c' z' where c': "noxtls_pbkdf2_prf (Some c) (Some (v @ z)) (of_nat out_size) None 0 (v @ z) (of_nat out_size) =
      (NOXTLS_RETURN_SUCCESS, Some c', ?pad_mac v @ z')" "hmac_keyed holds block_size algo k c'" "length (?pad_mac v @ z') = 64"
    using prf_value [where ?part1.0 = "Some (v @ z)" and ?n1.0 = "of_nat out_size" and ?d1.0 = v and ?part2.0 = None and ?n2.0 = 0 and ?d2.0 = "[]",
        OF Suc.prems(1,2)] Suc.prems(3) sz by auto
  let ?x = "map2 (XOR) (take out_size t) (?pad_mac v)" and ?t = "pbkdf2_xor t (?pad_mac v @ z') out_size"
  have t: "?t = ?x @ drop out_size t"
    using pbkdf2_xor_value [of out_size t "?pad_mac v @ z'"] Suc.prems(4) o by (simp add: pads_length)
  have x: "length ?x = out_size" using Suc.prems(4) o by (simp add: pads_length)
  have "length ?t = 64" unfolding t using x Suc.prems(4) o by simp
  from Suc.IH [OF c'(2,3) pads_length this] obtain c'' u where
    "pbkdf2_iterate n (Some c') (of_nat out_size) (?pad_mac v @ z') ?t =
      (NOXTLS_RETURN_SUCCESS, Some c'', u, xor_all ?x (map (\<lambda>j. (?pad_mac ^^ j) (?pad_mac v)) [1..<Suc n]) @ drop out_size t)"
    "hmac_keyed holds block_size algo k c''" "length u = 64"
    unfolding t using x by auto
  moreover have "map (\<lambda>j. (?pad_mac ^^ j) v) [1..<Suc (Suc n)] = ?pad_mac v # map (\<lambda>j. (?pad_mac ^^ j) (?pad_mac v)) [1..<Suc n]"
  proof -
    have "[1..<Suc (Suc n)] = 1 # map Suc [1..<Suc n]" by (simp add: map_Suc_upt upt_conv_Cons del: upt_Suc)
    then show ?thesis by (simp add: comp_def funpow_swap1 del: upt_Suc)
  qed
  ultimately show ?case using c'(1) by (simp add: sz xor_all_def del: upt_Suc)
qed (simp add: xor_all_def)

lemma pbkdf2_block_value:
  assumes "hmac_keyed holds block_size algo k c" "length u = 64" "length t = 64" "iterations \<noteq> 0"
    "case salt of None \<Rightarrow> salt_len = 0 \<and> S = [] | Some d \<Rightarrow> unat salt_len \<le> length d \<and> S = take (unat salt_len) d"
  shows "\<exists>c' u'. pbkdf2_block (Some c) (of_nat out_size) salt salt_len iterations (of_nat i) u t =
      (NOXTLS_RETURN_SUCCESS, Some c', u', rfc_pbkdf2_F (rfc_hmac_pads digest_of k) S (unat iterations) i @ drop out_size t) \<and>
    hmac_keyed holds block_size algo k c' \<and> length u' = 64"
proof -
  let ?U1 = "rfc_hmac_pads digest_of k (S @ be32_bytes (of_nat i))"
  have sz: "unat (of_nat out_size :: u32) = out_size" using size_words(2) unfolding algo_sizes .
  have o: "out_size \<le> 64" using sizes by simp
  have p2: "case Some (be32_bytes (of_nat i)) of None \<Rightarrow> (4 :: u32) = 0 \<and> be32_bytes (of_nat i) = []
      | Some d \<Rightarrow> unat (4 :: u32) \<le> length d \<and> be32_bytes (of_nat i) = take (unat (4 :: u32)) d"
    by simp
  obtain c1 z where c1: "noxtls_pbkdf2_prf (Some c) salt salt_len (Some (be32_bytes (of_nat i))) 4 u (of_nat out_size) =
      (NOXTLS_RETURN_SUCCESS, Some c1, ?U1 @ z)" "hmac_keyed holds block_size algo k c1" "length (?U1 @ z) = 64"
    using prf_value [OF assms(1,2,5) p2] by blast
  let ?t = "put_at 0 (take out_size (?U1 @ z)) t"
  have t: "?t = ?U1 @ drop out_size t" using o assms(3) by (simp add: put_at_def pads_length)
  have "length ?t = 64" unfolding t using o assms(3) by (simp add: pads_length)
  from iterate_value [OF c1(2,3) pads_length this, of "unat iterations - 1"] obtain c2 u' where
    "pbkdf2_iterate (unat iterations - 1) (Some c1) (of_nat out_size) (?U1 @ z) ?t =
      (NOXTLS_RETURN_SUCCESS, Some c2, u', rfc_pbkdf2_F (rfc_hmac_pads digest_of k) S (unat iterations) i @ drop out_size t)"
    "hmac_keyed holds block_size algo k c2" "length u' = 64"
    unfolding t using assms(4) by (auto simp: pads_length rfc_pbkdf2_F_def Let_def unat_gt_0 Suc_pred)
  then show ?thesis using c1(1) by (simp add: pbkdf2_block_def block_index_bytes sz)
qed

lemma pbkdf2_F_length: "length (rfc_pbkdf2_F (rfc_hmac_pads digest_of k) S c i) = out_size"
proof -
  have "length ((rfc_hmac_pads digest_of k ^^ j) U) = length U" if "length U = out_size" for j U
    using that by (induction j) (simp_all add: pads_length)
  then show ?thesis by (simp add: rfc_pbkdf2_F_def Let_def xor_all_length pads_length)
qed

lemma pbkdf2_blocks_value:
  fixes dk_len :: u32 and k
  assumes it: "iterations \<noteq> 0"
    and salt: "case salt of None \<Rightarrow> salt_len = 0 \<and> S = [] | Some d \<Rightarrow> unat salt_len \<le> length d \<and> S = take (unat salt_len) d"
  defines "F \<equiv> rfc_pbkdf2_F (rfc_hmac_pads digest_of k) S (unat iterations)" and "L \<equiv> unat dk_len"
  assumes "off = min (j * out_size) L" "L \<le> length dk" "length u = 64" "length t = 64" "hmac_keyed holds block_size algo k c" "L \<le> M"
  shows "\<exists>c'. pbkdf2_blocks (Some c) (of_nat out_size) salt salt_len iterations dk_len (of_nat off) (of_nat (Suc j)) u t dk =
    (NOXTLS_RETURN_SUCCESS, c', take off dk @ take (L - off) (concat (map F [Suc j..<Suc M])) @ drop L dk)"
  using assms(5-9)
proof (induction "L - off" arbitrary: off j dk u t c rule: less_induct)
  case less
  have sz: "unat (of_nat out_size :: u32) = out_size" "(of_nat out_size :: u32) \<noteq> 0" using size_words(2,4) unfolding algo_sizes by simp_all
  show ?case
  proof (cases "off < L")
    case False
    then have "off = L" using less.prems(1) by simp
    moreover have "of_nat L = dk_len" by (simp add: L_def)
    ultimately show ?thesis using False by (subst pbkdf2_blocks.simps) simp
  next
    case True
    note st = chunk_step [OF less.prems(1) [unfolded L_def] True [unfolded L_def] sz(1) sizes(2), folded L_def]
    have o: "out_size \<le> 64" using sizes by simp
    let ?t = "F (Suc j) @ drop out_size t"
    have lF: "length (F (Suc j)) = out_size" unfolding F_def by (rule pbkdf2_F_length)
    then have lt: "length ?t = 64" using less.prems(4) o by simp
    obtain c' u' where c': "pbkdf2_block (Some c) (of_nat out_size) salt salt_len iterations (of_nat (Suc j)) u t =
        (NOXTLS_RETURN_SUCCESS, Some c', u', ?t)" "hmac_keyed holds block_size algo k c'" "length u' = 64"
      using pbkdf2_block_value [OF less.prems(5,3,4) it salt, of "Suc j"] unfolding F_def by blast
    define cl where "cl = min (L - off) out_size"
    let ?dk = "put_at off (take cl (F (Suc j))) dk"
    note w = chunk_write [OF True less.prems(2) lF cl_def]
    have cl: "cl \<le> out_size" by (simp add: cl_def)
    have step: "pbkdf2_blocks (Some c) (of_nat out_size) salt salt_len iterations dk_len (of_nat off) (of_nat (Suc j)) u t dk =
        pbkdf2_blocks (Some c') (of_nat out_size) salt salt_len iterations dk_len (of_nat (off + cl)) (of_nat (Suc (Suc j))) u' ?t ?dk"
      using st(1-4) c'(1) sz(2)
      by (subst pbkdf2_blocks.simps) (simp add: chunk_len_def [symmetric] cl_def [symmetric] cl lF Let_def add.commute)
    obtain c'' where "pbkdf2_blocks (Some c') (of_nat out_size) salt salt_len iterations dk_len (of_nat (off + cl)) (of_nat (Suc (Suc j))) u' ?t ?dk =
        (NOXTLS_RETURN_SUCCESS, c'', take (off + cl) ?dk @ take (L - (off + cl)) (concat (map F [Suc (Suc j)..<Suc M])) @ drop L ?dk)"
      using less.hyps [of "off + cl" "Suc j" ?dk u' ?t c'] st(5,6) w(1) less.prems(2) lt c'(2,3) unfolding cl_def [symmetric] by auto
    moreover have "[Suc j..<Suc M] = Suc j # [Suc (Suc j)..<Suc M]"
    proof -
      have "j * 1 \<le> j * out_size" using sizes(2) by (intro mult_le_mono2) simp
      then have "j \<le> off" unfolding st(7) by simp
      then have "j < M" using True assms(10) by simp
      then show ?thesis by (simp add: upt_conv_Cons del: upt_Suc)
    qed
    ultimately show ?thesis unfolding step w(2) by (auto simp del: upt_Suc)
  qed
qed

end

lemma pbkdf2_size: "noxtls_pbkdf2_prf_size algo = (if algo \<in> set hkdf_algos then of_nat (sha_size algo) else 0)"
  by (auto simp: hkdf_algos_def noxtls_pbkdf2_prf_size_def sha_size_def hash_algos)

lemma pbkdf2_unusable: "algo \<notin> set hkdf_algos \<Longrightarrow> noxtls_pbkdf2_unusable_algorithm algo = NOXTLS_RETURN_INVALID_ALGORITHM"
  by (simp add: hkdf_algos_def noxtls_pbkdf2_unusable_algorithm_def)

text \<open>The work after the checks.\<close>

lemma pbkdf2_run:
  fixes dk_len :: u32
  assumes a: "algo \<in> set hkdf_algos" and key: "unat key_len \<le> length key" and it: "iterations \<noteq> 0"
    and salt: "case salt of None \<Rightarrow> salt_len = 0 \<and> S = [] | Some d \<Rightarrow> unat salt_len \<le> length d \<and> S = take (unat salt_len) d"
    and L: "unat dk_len \<le> length dk" and ut: "length u = 64" "length t = 64"
  shows "\<exists>c c'. noxtls_hmac_init (Some stack) algo (Some key) key_len = (NOXTLS_RETURN_SUCCESS, Some c) \<and>
    pbkdf2_blocks (Some c) (of_nat (sha_size algo)) salt salt_len iterations dk_len 0 1 u t dk = (NOXTLS_RETURN_SUCCESS, c',
      rfc_pbkdf2 (rfc_hmac (sha_reference algo) (hmac_block algo) (take (unat key_len) key)) (sha_size algo) S (unat iterations) (unat dk_len) @
      drop (unat dk_len) dk)"
proof -
  note kh = hmac_keyed_hash [OF hkdf_hmac_algos [OF a]]
  let ?k = "rfc_hmac_key (sha_reference algo) (hmac_block algo) (take (unat key_len) key)"
  let ?n = "sha_size algo" and ?F = "rfc_pbkdf2_F (rfc_hmac_pads (sha_reference algo) ?k) S (unat iterations)"
  have n: "0 < ?n" by (rule hmac_sizes(4) [OF hkdf_hmac_algos [OF a]])
  obtain c where c: "noxtls_hmac_init (Some stack) algo (Some key) key_len = (NOXTLS_RETURN_SUCCESS, Some c)"
    "hmac_accepts (sha_holds algo) (hmac_block algo) algo ?k c []"
    using keyed_hash.init_accepts [OF kh key] by blast
  then have kd: "hmac_keyed (sha_holds algo) (hmac_block algo) algo ?k c" by (simp add: hmac_accepts_def)
  obtain c' where "pbkdf2_blocks (Some c) (of_nat ?n) salt salt_len iterations dk_len 0 1 u t dk =
      (NOXTLS_RETURN_SUCCESS, c', take (unat dk_len) (concat (map ?F [1..<Suc (unat dk_len)])) @ drop (unat dk_len) dk)"
    using keyed_hash.pbkdf2_blocks_value [OF kh it salt, where off = 0 and j = 0 and dk = dk and u = u and t = t and c = c and k = ?k
        and dk_len = dk_len and M = "unat dk_len"] L ut kd by auto
  moreover have "take (unat dk_len) (concat (map ?F [1..<Suc (unat dk_len)])) =
      rfc_pbkdf2 (rfc_hmac (sha_reference algo) (hmac_block algo) (take (unat key_len) key)) ?n S (unat iterations) (unat dk_len)"
    using expand_more [of ?n ?F "unat dk_len" "unat dk_len"] keyed_hash.pbkdf2_F_length [OF kh] n
    unfolding rfc_pbkdf2_def rfc_hmac_def [abs_def] by simp
  ultimately show ?thesis using c(1) by auto
qed

section \<open>Property\<close>



end
