(* ===== verification/Dtls_Cookie.thy ===== *)
theory Dtls_Cookie
  imports Hmac_Correct Dtls_Init
begin

text \<open>
  The DTLS cookie exchange of \<open>tls/noxtls_dtls_common.c\<close>: issuing a cookie for a ClientHello and the current peer
  identity, changing the identity, and verifying a cookie. The HMAC context and the digest live on the
  stack of the issuing function.
\<close>

section \<open>Definitions\<close>

definition noxtls_dtls_generate_cookie ::
    "noxtls_hmac_context_t \<Rightarrow> bytes \<Rightarrow> dtls_context option \<Rightarrow> bytes option \<Rightarrow> u32 \<Rightarrow> bytes option \<Rightarrow> u32 option \<Rightarrow>
     noxtls_return_t \<times> dtls_context option \<times> bytes option \<times> u32 option" where
  "noxtls_dtls_generate_cookie stack dig0 ctx client_hello client_hello_len cookie_out cookie_out_len =
     (if ctx = None \<or> client_hello = None \<or> cookie_out = None \<or> cookie_out_len = None
      then (NOXTLS_RETURN_NULL, ctx, cookie_out, cookie_out_len)
      else
        let c = the ctx in
        if the cookie_out_len < 32 then (NOXTLS_RETURN_INVALID_PARAM, ctx, cookie_out, cookie_out_len)
        else if cookie_secret_valid c = 0 then (NOXTLS_RETURN_FAILED, ctx, cookie_out, cookie_out_len)
        else
          let (rc, hmac) = noxtls_hmac_init (Some stack) NOXTLS_HASH_SHA_256 (Some (cookie_secret c)) 32;
              (rc, hmac) = (if rc = NOXTLS_RETURN_SUCCESS then noxtls_hmac_update hmac (Some [peer_identity_len c]) 1 else (rc, hmac));
              (rc, hmac) = (if rc = NOXTLS_RETURN_SUCCESS \<and> peer_identity_len c > 0
                            then noxtls_hmac_update hmac (Some (peer_identity c)) (ucast (peer_identity_len c)) else (rc, hmac));
              (rc, hmac) = (if rc = NOXTLS_RETURN_SUCCESS then noxtls_hmac_update hmac client_hello client_hello_len else (rc, hmac));
              (rc, hmac, dig, digest_len) = (if rc = NOXTLS_RETURN_SUCCESS then noxtls_hmac_final hmac (Some dig0) (Some 32)
                                             else (rc, hmac, Some dig0, Some 32))
          in if rc \<noteq> NOXTLS_RETURN_SUCCESS \<or> digest_len \<noteq> Some 32 then (NOXTLS_RETURN_FAILED, ctx, cookie_out, cookie_out_len)
             else
               let out = noxtls_copy_u8 cookie_out 32 dig 32;
                   c = c\<lparr>cookie := the (noxtls_copy_u8 (Some (cookie c)) 32 dig 32), cookie_len := 32\<rparr>;
                   c = (if peer_identity_len c > 0
                        then c\<lparr>cookie_identity := the (noxtls_copy_u8 (Some (cookie_identity c)) 32 (Some (peer_identity c)) (unat (peer_identity_len c)))\<rparr>
                        else c);
                   c = c\<lparr>cookie_identity_len := peer_identity_len c\<rparr>
               in (NOXTLS_RETURN_SUCCESS, Some c, out, Some 32))"

definition noxtls_dtls_set_peer_identity ::
    "dtls_context option \<Rightarrow> bytes option \<Rightarrow> u32 \<Rightarrow> noxtls_return_t \<times> dtls_context option" where
  "noxtls_dtls_set_peer_identity ctx identity identity_len =
     (if ctx = None \<or> identity = None \<and> identity_len > 0 then (NOXTLS_RETURN_NULL, ctx)
      else if identity_len > 32 then (NOXTLS_RETURN_INVALID_PARAM, ctx)
      else
        let c = the ctx;
            c = c\<lparr>peer_identity := the (noxtls_secure_zero (Some (peer_identity c)) 32)\<rparr>;
            c = (if identity_len > 0
                 then c\<lparr>peer_identity := the (noxtls_copy_u8 (Some (peer_identity c)) 32 identity (unat identity_len))\<rparr> else c)
        in (NOXTLS_RETURN_SUCCESS, Some (c\<lparr>peer_identity_len := ucast identity_len\<rparr>)))"

definition noxtls_dtls_verify_cookie :: "dtls_context option \<Rightarrow> bytes option \<Rightarrow> u32 \<Rightarrow> noxtls_return_t" where
  "noxtls_dtls_verify_cookie ctx cookie_in cookie_in_len =
     (case (ctx, cookie_in) of
        (Some c, Some ck) \<Rightarrow>
          if cookie_in_len \<noteq> cookie_len c \<or> cookie_len c = 0 then NOXTLS_RETURN_FAILED
          else if peer_identity_len c \<noteq> cookie_identity_len c \<or>
             peer_identity_len c > 0 \<and>
             noxtls_ct_memcmp (Some (peer_identity c)) (Some (cookie_identity c)) (unat (peer_identity_len c)) \<noteq> 0
            then NOXTLS_RETURN_FAILED
          else if noxtls_secret_memcmp (Some ck) (Some (cookie c)) (unat cookie_in_len) \<noteq> 0 then NOXTLS_RETURN_FAILED
          else NOXTLS_RETURN_SUCCESS
      | _ \<Rightarrow> NOXTLS_RETURN_NULL)"

section \<open>What the calls do\<close>

text \<open>The cookie fields of a context have their sizes.\<close>

definition cookie_wf :: "dtls_context \<Rightarrow> bool" where
  "cookie_wf c \<longleftrightarrow> length (cookie_secret c) = 32 \<and> length (peer_identity c) = 32 \<and> length (cookie c) = 32 \<and>
     length (cookie_identity c) = 32 \<and> peer_identity_len c \<le> 32"

definition identity_of :: "dtls_context \<Rightarrow> bytes" where
  "identity_of c = take (unat (peer_identity_len c)) (peer_identity c)"

definition issued_cookie :: "dtls_context \<Rightarrow> bytes \<Rightarrow> bytes" where
  "issued_cookie c hello = rfc_hmac fips_sha256 64 (cookie_secret c) (peer_identity_len c # identity_of c @ hello)"

lemma cookie_copy:
  "n \<le> length s \<Longrightarrow> n \<le> length d \<Longrightarrow> n \<le> cap \<Longrightarrow> noxtls_copy_u8 (Some d) cap (Some s) n = Some (take n s @ drop n d)"
proof -
  assume l: "n \<le> length s" "n \<le> length d" "n \<le> cap"
  have "map ((!) s) [0..<n] = take n s" using l(1) by (intro nth_equalityI) simp_all
  then show ?thesis
    using put_run [of 0 n d "(!) s"] l by (cases "n = 0") (auto simp: noxtls_copy_u8_def put_at_def)
qed

lemma zero_room: "length p = 32 \<Longrightarrow> noxtls_secure_zero (Some p) 32 = Some (replicate 32 0)"
  by (rule secure_zero_all) simp

lemma hmac_keeps_size: "length (rfc_hmac fips_sha256 64 K m) = 32"
  by (simp add: rfc_hmac_def rfc_hmac_pads_def digest_lengths)

lemma identity_length: "cookie_wf c \<Longrightarrow> length (identity_of c) = unat (peer_identity_len c)" "cookie_wf c \<Longrightarrow> unat (peer_identity_len c) \<le> 32"
  by (simp_all add: cookie_wf_def identity_of_def word_le_nat_alt)

text \<open>The HMAC of a cookie: the secret keys it, the length byte, the identity and the ClientHello go in.\<close>

lemma cookie_hmac:
  assumes "cookie_wf c" "unat hello_len \<le> length hello" "length dig0 = 32"
  shows "\<exists>h0 h1 h2 h3 h4. noxtls_hmac_init (Some stack) NOXTLS_HASH_SHA_256 (Some (cookie_secret c)) 32 = (NOXTLS_RETURN_SUCCESS, Some h0) \<and>
    noxtls_hmac_update (Some h0) (Some [peer_identity_len c]) 1 = (NOXTLS_RETURN_SUCCESS, Some h1) \<and>
    (if peer_identity_len c > 0 then noxtls_hmac_update (Some h1) (Some (peer_identity c)) (ucast (peer_identity_len c))
     else (NOXTLS_RETURN_SUCCESS, Some h1)) = (NOXTLS_RETURN_SUCCESS, Some h2) \<and>
    noxtls_hmac_update (Some h2) (Some hello) hello_len = (NOXTLS_RETURN_SUCCESS, Some h3) \<and>
    noxtls_hmac_final (Some h3) (Some dig0) (Some 32) =
      (NOXTLS_RETURN_SUCCESS, Some h4, Some (issued_cookie c (take (unat hello_len) hello)), Some 32)"
proof -
  have w: "length (cookie_secret c) = 32" "length (peer_identity c) = 32" using assms(1) by (simp_all add: cookie_wf_def)
  note il = identity_length(2) [OF assms(1)]
  let ?k = "rfc_hmac_key fips_sha256 64 (cookie_secret c)"
  let ?acc = "hmac_accepts (sha_holds NOXTLS_HASH_SHA_256) 64 NOXTLS_HASH_SHA_256 ?k"
  note laws = sha256_hmac.init_accepts sha256_hmac.update_accepts sha256_hmac.final_value
  note laws = laws [unfolded hmac_blocks sha_sizes]
  obtain h0 where h0: "noxtls_hmac_init (Some stack) NOXTLS_HASH_SHA_256 (Some (cookie_secret c)) 32 = (NOXTLS_RETURN_SUCCESS, Some h0)" "?acc h0 []"
    using laws(1) [of 32 "cookie_secret c" stack] w(1) by auto
  obtain h1 where h1: "noxtls_hmac_update (Some h0) (Some [peer_identity_len c]) 1 = (NOXTLS_RETURN_SUCCESS, Some h1)" "?acc h1 [peer_identity_len c]"
    using laws(2) [OF h0(2), of 1 "[peer_identity_len c]"] by auto
  obtain h2 where h2: "(if peer_identity_len c > 0 then noxtls_hmac_update (Some h1) (Some (peer_identity c)) (ucast (peer_identity_len c))
      else (NOXTLS_RETURN_SUCCESS, Some h1)) = (NOXTLS_RETURN_SUCCESS, Some h2)" "?acc h2 (peer_identity_len c # identity_of c)"
  proof (cases "peer_identity_len c > 0")
    case True
    have "unat (ucast (peer_identity_len c) :: u32) = unat (peer_identity_len c)" by (simp add: unat_ucast_up)
    then show ?thesis
      using laws(2) [OF h1(2), of "ucast (peer_identity_len c)" "peer_identity c"] il w(2) True that by (auto simp: identity_of_def)
  next
    case False
    then have "identity_of c = []" by (simp add: identity_of_def word_gt_0)
    then show ?thesis using that [of h1] h1(2) False by simp
  qed
  obtain h3 where h3: "noxtls_hmac_update (Some h2) (Some hello) hello_len = (NOXTLS_RETURN_SUCCESS, Some h3)"
    "?acc h3 ((peer_identity_len c # identity_of c) @ take (unat hello_len) hello)"
    using laws(2) [OF h2(2) assms(2)] by blast
  have "length ((peer_identity_len c # identity_of c) @ take (unat hello_len) hello) < 2 ^ 60"
    using identity_length [OF assms(1)] unsigned_less [where 'a = nat and w = hello_len] by (simp add: min_def)
  from laws(3) [OF h3(2) this, of dig0 32] assms(3) h0(1) h1(1) h2(1) h3(1) show ?thesis
    unfolding issued_cookie_def rfc_hmac_def by auto
qed

lemma generate_cookie_value:
  assumes "cookie_wf c" "unat hello_len \<le> length hello" "length dig0 = 32" "32 \<le> unat out_len" "unat out_len \<le> length out"
    "cookie_secret_valid c \<noteq> 0"
  defines "ck \<equiv> issued_cookie c (take (unat hello_len) hello)"
  shows "noxtls_dtls_generate_cookie stack dig0 (Some c) (Some hello) hello_len (Some out) (Some out_len) =
    (NOXTLS_RETURN_SUCCESS,
     Some (c\<lparr>cookie := ck, cookie_len := 32,
             cookie_identity := identity_of c @ drop (unat (peer_identity_len c)) (cookie_identity c),
             cookie_identity_len := peer_identity_len c\<rparr>),
     Some (ck @ drop 32 out), Some 32)"
proof -
  have w: "length (cookie c) = 32" "length (peer_identity c) = 32" "length (cookie_identity c) = 32"
    using assms(1) by (simp_all add: cookie_wf_def)
  note il = identity_length(2) [OF assms(1)]
  have lck: "length ck = 32" by (simp add: ck_def issued_cookie_def hmac_keeps_size)
  have cp: "noxtls_copy_u8 (Some out) 32 (Some ck) 32 = Some (ck @ drop 32 out)"
    "noxtls_copy_u8 (Some (cookie c)) 32 (Some ck) 32 = Some ck"
    "noxtls_copy_u8 (Some (cookie_identity c)) 32 (Some (peer_identity c)) (unat (peer_identity_len c)) =
       Some (identity_of c @ drop (unat (peer_identity_len c)) (cookie_identity c))"
    using assms(4,5) w il lck by (simp_all add: cookie_copy identity_of_def)
  have len: "\<not> out_len < 32" using assms(4) by (simp add: word_less_nat_alt)
  have empty: "identity_of c @ drop (unat (peer_identity_len c)) (cookie_identity c) = cookie_identity c" if "\<not> peer_identity_len c > 0"
    using that by (simp add: identity_of_def word_gt_0)
  from cookie_hmac [OF assms(1-3), of stack] show ?thesis
    using len assms(6) cp empty unfolding ck_def [symmetric]
    by (auto simp: noxtls_dtls_generate_cookie_def Let_def split: if_splits)
qed

lemma set_identity_value:
  assumes "cookie_wf c" "unat id_len \<le> length ident" "id_len \<le> 32"
  shows "\<exists>p. noxtls_dtls_set_peer_identity (Some c) (Some ident) id_len =
      (NOXTLS_RETURN_SUCCESS, Some (c\<lparr>peer_identity := p, peer_identity_len := ucast id_len\<rparr>)) \<and>
    length p = 32 \<and> take (unat id_len) p = take (unat id_len) ident \<and> unat (ucast id_len :: u8) = unat id_len"
proof -
  have l: "unat id_len \<le> 32" using assms(3) by (simp add: word_le_nat_alt)
  define p where "p = (if id_len > 0 then take (unat id_len) ident @ drop (unat id_len) (replicate 32 0) else replicate 32 0)"
  have z: "noxtls_secure_zero (Some (peer_identity c)) 32 = Some (replicate 32 0)"
    using assms(1) by (intro zero_room) (simp add: cookie_wf_def)
  have cp: "noxtls_copy_u8 (Some (replicate 32 0)) 32 (Some ident) (unat id_len) = Some (take (unat id_len) ident @ drop (unat id_len) (replicate 32 0))"
    using assms(2) l by (intro cookie_copy) simp_all
  have "noxtls_dtls_set_peer_identity (Some c) (Some ident) id_len =
      (NOXTLS_RETURN_SUCCESS, Some (c\<lparr>peer_identity := p, peer_identity_len := ucast id_len\<rparr>))"
    using leD [OF assms(3)] z cp unfolding noxtls_dtls_set_peer_identity_def p_def by simp
  moreover have "length p = 32" using assms(2) l by (simp add: p_def)
  moreover have "take (unat id_len) p = take (unat id_len) ident" using assms(2) by (simp add: p_def word_gt_0)
  moreover have "unat (ucast id_len :: u8) = unat id_len" using l by (simp add: unsigned_ucast_eq take_bit_nat_eq_self)
  ultimately show ?thesis by blast
qed

section \<open>Properties\<close>

text \<open>
  C38. The cookie is bound to the peer. After a cookie is issued for a ClientHello, and whatever identity is set
  for the peer afterwards, the server accepts a cookie exactly when the identity is the one the cookie was issued to and
  the cookie is, byte for byte, the HMAC-SHA-256 under the secret of the identity's length, the identity and the
  ClientHello.
\<close>

theorem cookie_bound_to_peer:
  assumes "cookie_wf c" "cookie_secret_valid c \<noteq> 0" "unat hello_len \<le> length hello" "length dig0 = 32"
    and "32 \<le> unat out_len" "unat out_len \<le> length out"
    and "unat id_len \<le> length ident" "id_len \<le> 32" "unat ck_len \<le> length ck"
  shows "\<exists>c' c''. noxtls_dtls_generate_cookie stack dig0 (Some c) (Some hello) hello_len (Some out) (Some out_len) =
      (NOXTLS_RETURN_SUCCESS, Some c', Some (issued_cookie c (take (unat hello_len) hello) @ drop 32 out), Some 32) \<and>
    noxtls_dtls_set_peer_identity (Some c') (Some ident) id_len = (NOXTLS_RETURN_SUCCESS, Some c'') \<and>
    (noxtls_dtls_verify_cookie (Some c'') (Some ck) ck_len = NOXTLS_RETURN_SUCCESS \<longleftrightarrow>
       take (unat id_len) ident = identity_of c \<and> take (unat ck_len) ck = issued_cookie c (take (unat hello_len) hello))"
proof -
  let ?ck = "issued_cookie c (take (unat hello_len) hello)"
  let ?id = "identity_of c @ drop (unat (peer_identity_len c)) (cookie_identity c)"
  let ?c = "c\<lparr>cookie := ?ck, cookie_len := 32, cookie_identity := ?id, cookie_identity_len := peer_identity_len c\<rparr>"
  note gen = generate_cookie_value [OF assms(1,3,4,5,6,2), of stack]
  note il = identity_length [OF assms(1)]
  have lck: "length ?ck = 32" by (simp add: issued_cookie_def hmac_keeps_size)
  have lid: "length ?id = 32" using assms(1) il by (simp add: cookie_wf_def)
  have "cookie_wf ?c" using assms(1) lck lid by (simp add: cookie_wf_def)
  then obtain p where p: "noxtls_dtls_set_peer_identity (Some ?c) (Some ident) id_len =
      (NOXTLS_RETURN_SUCCESS, Some (?c\<lparr>peer_identity := p, peer_identity_len := ucast id_len\<rparr>))"
    "length p = 32" "take (unat id_len) p = take (unat id_len) ident" "unat (ucast id_len :: u8) = unat id_len"
    using set_identity_value [OF _ assms(7,8)] by blast
  let ?v = "?c\<lparr>peer_identity := p, peer_identity_len := ucast id_len\<rparr>"
  have idl: "unat id_len \<le> 32" using assms(8) by (simp add: word_le_nat_alt)
  have same: "ucast id_len = peer_identity_len c \<longleftrightarrow> unat id_len = unat (peer_identity_len c)"
    unfolding word_unat_eq_iff p(4) ..
  have cmp: "noxtls_ct_memcmp (Some p) (Some ?id) (unat id_len) = 0 \<longleftrightarrow> take (unat id_len) ident = identity_of c"
    if "unat id_len = unat (peer_identity_len c)"
    using ct_memcmp_zero [of "unat id_len" p ?id] p(2,3) lid idl il(1) that by simp
  have ckc: "noxtls_secret_memcmp (Some ck) (Some ?ck) 32 = 0 \<longleftrightarrow> take 32 ck = ?ck" if "32 \<le> length ck"
    using ct_memcmp_zero [of 32 ck ?ck] lck that by (simp add: noxtls_secret_memcmp_def)
  have "noxtls_dtls_verify_cookie (Some ?v) (Some ck) ck_len = NOXTLS_RETURN_SUCCESS \<longleftrightarrow>
      ck_len = 32 \<and> unat id_len = unat (peer_identity_len c) \<and>
      (ucast id_len = (0 :: u8) \<or> take (unat id_len) ident = identity_of c) \<and> take 32 ck = ?ck"
    using ckc cmp same assms(9) p(4) by (auto simp: noxtls_dtls_verify_cookie_def word_gt_0)
  also have "\<dots> \<longleftrightarrow> take (unat id_len) ident = identity_of c \<and> take (unat ck_len) ck = ?ck"
  proof -
    have a: "unat id_len = unat (peer_identity_len c)" if "take (unat id_len) ident = identity_of c"
      using arg_cong [OF that, of length] il(1) assms(7) by simp
    have b: "ck_len = 32" if "take (unat ck_len) ck = ?ck"
      using arg_cong [OF that, of length] lck assms(9) by (simp add: word_unat_eq_iff)
    have e: "take (unat id_len) ident = identity_of c" if "ucast id_len = (0 :: u8)" "unat id_len = unat (peer_identity_len c)"
    proof -
      have "unat id_len = 0" using p(4) that(1) by simp
      then show ?thesis using that(2) by (simp add: identity_of_def)
    qed
    have u: "take (unat ck_len) ck = take 32 ck" if "ck_len = 32" using that by simp
    show ?thesis by (rule iffI) (metis e u, metis a b u)
  qed
  finally show ?thesis using gen p(1) by blast
qed

text \<open>A fresh server with the identity of a peer: another identity does not get its cookie accepted.\<close>

definition cookie_server :: dtls_context where
  "cookie_server = (fresh_endpoint TLS_ROLE_SERVER 0xFEFD)\<lparr>peer_identity := replicate 32 5, peer_identity_len := 4\<rparr>"

theorem cookie_bound_to_peer_witness:
  "\<exists>c' c'' ck. noxtls_dtls_generate_cookie zero_hmac_ctx (replicate 32 0) (Some cookie_server) (Some [1, 2, 3]) 3 (Some (replicate 32 0)) (Some 32) =
      (NOXTLS_RETURN_SUCCESS, Some c', Some ck, Some 32) \<and>
    noxtls_dtls_set_peer_identity (Some c') (Some [5, 5, 5, 9]) 4 = (NOXTLS_RETURN_SUCCESS, Some c'') \<and>
    noxtls_dtls_verify_cookie (Some c'') (Some ck) 32 \<noteq> NOXTLS_RETURN_SUCCESS"
proof -
  have four: "replicate 4 x = [x, x, x, x]" for x :: u8 by (simp add: numeral_eq_Suc)
  have "cookie_wf cookie_server" "cookie_secret_valid cookie_server \<noteq> 0" "identity_of cookie_server = [5, 5, 5, 5]"
    by (simp_all add: cookie_server_def cookie_wf_def identity_of_def endpoint_defs four)
  then show ?thesis
    using cookie_bound_to_peer [of cookie_server 3 "[1, 2, 3]" "replicate 32 0" 32 "replicate 32 0" 4 "[5, 5, 5, 9]" 32
      "issued_cookie cookie_server [1, 2, 3]" zero_hmac_ctx]
    by (simp add: issued_cookie_def hmac_keeps_size) blast
qed

end
