(* ===== verification/Tls_Prf.thy ===== *)
theory Tls_Prf
  imports Hkdf
begin

text \<open>
  The pseudorandom functions of TLS 1.0 to 1.2 in \<open>tls/noxtls_tls_kdf.c\<close>: P_hash streams label and seed into one HMAC
  context keyed once, for TLS 1.2 with the digest of the cipher suite, for TLS 1.0 and 1.1 with MD5 and SHA-1 over the two
  halves of the secret. The references are RFC 5246 and RFC 2246, section 5.
\<close>

section \<open>Definitions\<close>

definition NOXTLS_HASH_SHA3_224 :: u32 where "NOXTLS_HASH_SHA3_224 = 9"
definition NOXTLS_HASH_SHA3_256 :: u32 where "NOXTLS_HASH_SHA3_256 = 10"
definition NOXTLS_HASH_SHA3_384 :: u32 where "NOXTLS_HASH_SHA3_384 = 11"
definition NOXTLS_HASH_SHA3_512 :: u32 where "NOXTLS_HASH_SHA3_512 = 12"

lemmas sha3_algos = NOXTLS_HASH_SHA3_224_def NOXTLS_HASH_SHA3_256_def NOXTLS_HASH_SHA3_384_def NOXTLS_HASH_SHA3_512_def

definition get_hash_output_size :: "u32 \<Rightarrow> u32" where
  "get_hash_output_size hash_algo =
     (if hash_algo = NOXTLS_HASH_MD5 then 16 else if hash_algo = NOXTLS_HASH_SHA1 then 20
      else if hash_algo = NOXTLS_HASH_SHA_224 then 28 else if hash_algo = NOXTLS_HASH_SHA_256 then 32
      else if hash_algo = NOXTLS_HASH_SHA_384 then 48 else if hash_algo = NOXTLS_HASH_SHA_512 then 64
      else if hash_algo = NOXTLS_HASH_SHA_512_224 then 28 else if hash_algo = NOXTLS_HASH_SHA_512_256 then 32
      else if hash_algo = NOXTLS_HASH_SHA3_224 then 28 else if hash_algo = NOXTLS_HASH_SHA3_256 then 32
      else if hash_algo = NOXTLS_HASH_SHA3_384 then 48 else if hash_algo = NOXTLS_HASH_SHA3_512 then 64 else 0)"

text \<open>The steps of P_hash: label and seed go in, the HMAC comes out, the next A.\<close>

definition p_hash_feed ::
    "noxtls_return_t \<Rightarrow> noxtls_hmac_context_t option \<Rightarrow> bytes option \<Rightarrow> u32 \<Rightarrow> bytes option \<Rightarrow> u32 \<Rightarrow>
     noxtls_return_t \<times> noxtls_hmac_context_t option" where
  "p_hash_feed rc hmac label label_len seed seed_len =
     (let (rc, hmac) = (if rc = NOXTLS_RETURN_SUCCESS \<and> label_len > 0 then noxtls_hmac_update hmac label label_len else (rc, hmac))
      in if rc = NOXTLS_RETURN_SUCCESS \<and> seed_len > 0 then noxtls_hmac_update hmac seed seed_len else (rc, hmac))"

definition p_hash_final ::
    "noxtls_return_t \<Rightarrow> noxtls_hmac_context_t option \<Rightarrow> bytes \<Rightarrow> u32 \<Rightarrow> noxtls_return_t \<times> noxtls_hmac_context_t option \<times> bytes" where
  "p_hash_final rc hmac buf hash_len =
     (if rc = NOXTLS_RETURN_SUCCESS then
        (case noxtls_hmac_final hmac (Some buf) (Some hash_len) of (rc, hmac, buf, tmp_len) \<Rightarrow> (rc, hmac, the buf))
      else (rc, hmac, buf))"

definition p_hash_restart ::
    "noxtls_hmac_context_t option \<Rightarrow> bytes \<Rightarrow> u32 \<Rightarrow> noxtls_return_t \<times> noxtls_hmac_context_t option" where
  "p_hash_restart hmac A hash_len =
     (case noxtls_hmac_reset hmac of
        (rc, hmac) \<Rightarrow> if rc = NOXTLS_RETURN_SUCCESS then noxtls_hmac_update hmac (Some A) hash_len else (rc, hmac))"

definition p_hash_write :: "u8 \<Rightarrow> bytes \<Rightarrow> nat \<Rightarrow> bytes \<Rightarrow> nat \<Rightarrow> bytes" where
  "p_hash_write xor_into out produced chunk copy_len =
     (if xor_into \<noteq> 0 then foldl (\<lambda>out i. out[produced + i := out ! (produced + i) XOR chunk ! i]) out [0..<copy_len]
      else put_at produced (take copy_len chunk) out)"

text \<open>The loop; a digest size of zero, which the caller has excluded, ends it as well.\<close>

function p_hash_loop ::
    "noxtls_hmac_context_t option \<Rightarrow> bytes \<Rightarrow> u32 \<Rightarrow> bytes option \<Rightarrow> u32 \<Rightarrow> bytes option \<Rightarrow> u32 \<Rightarrow> bytes \<Rightarrow> u32 \<Rightarrow> bytes \<Rightarrow> u32 \<Rightarrow> u8 \<Rightarrow>
     noxtls_return_t \<times> bytes" where
  "p_hash_loop hmac A hash_len label label_len seed seed_len chunk produced out out_len xor_into =
     (if hash_len = 0 \<or> \<not> produced < out_len then (NOXTLS_RETURN_SUCCESS, out)
      else
        let (rc, hmac) = p_hash_restart hmac A hash_len;
            (rc, hmac) = p_hash_feed rc hmac label label_len seed seed_len;
            (rc, hmac, chunk) = p_hash_final rc hmac chunk hash_len
        in if rc \<noteq> NOXTLS_RETURN_SUCCESS then (rc, out)
           else
             let copy_len = (if out_len - produced < hash_len then out_len - produced else hash_len);
                 out = p_hash_write xor_into out (unat produced) chunk (unat copy_len);
                 (rc, hmac, A) = (if produced + copy_len < out_len then
                      (case p_hash_restart hmac A hash_len of (rc, hmac) \<Rightarrow> p_hash_final rc hmac A hash_len)
                    else (rc, hmac, A))
             in if rc \<noteq> NOXTLS_RETURN_SUCCESS then (rc, out)
                else p_hash_loop hmac A hash_len label label_len seed seed_len chunk (produced + copy_len) out out_len xor_into)"
  by pat_completeness auto
termination
proof (relation "measure (\<lambda>(_, _, hash_len, _, _, _, _, _, produced, _, out_len, _). unat (out_len - produced))", goal_cases)
  case (2 hmac A hash_len label label_len seed seed_len chunk produced out out_len)
  then show ?case using chunk_progress [of hash_len produced out_len]
    by (cases "out_len - produced < hash_len") (simp_all add: chunk_len_def)
qed simp

declare p_hash_loop.simps [simp del]

text \<open>The HMAC context and the blocks A and chunk live on the stack; their old content is a parameter.\<close>

definition p_hash ::
    "noxtls_hmac_context_t \<Rightarrow> bytes \<Rightarrow> bytes \<Rightarrow> u32 \<Rightarrow> bytes option \<Rightarrow> u32 \<Rightarrow> bytes option \<Rightarrow> u32 \<Rightarrow> bytes option \<Rightarrow> u32 \<Rightarrow>
     bytes option \<Rightarrow> u32 \<Rightarrow> u8 \<Rightarrow> noxtls_return_t \<times> bytes option" where
  "p_hash stack A chunk hash_algo secret secret_len label label_len seed seed_len out out_len xor_into =
     (let hash_len = get_hash_output_size hash_algo in
      if secret = None \<or> seed = None \<or> out = None \<or> label = None \<and> label_len \<noteq> 0 then (NOXTLS_RETURN_NULL, out)
      else if hash_len = 0 \<or> hash_len > 64 then (NOXTLS_RETURN_INVALID_ALGORITHM, out)
      else
        let (rc, hmac) = noxtls_hmac_init (Some stack) hash_algo secret secret_len;
            (rc, hmac) = p_hash_feed rc hmac label label_len seed seed_len;
            (rc, hmac, A) = p_hash_final rc hmac A hash_len;
            (rc, out) = (if rc = NOXTLS_RETURN_SUCCESS
                         then p_hash_loop hmac A hash_len label label_len seed seed_len chunk 0 (the out) out_len xor_into
                         else (rc, the out))
        in if rc \<noteq> NOXTLS_RETURN_SUCCESS then (NOXTLS_RETURN_FAILED, noxtls_secure_zero (Some out) (unat out_len))
           else (NOXTLS_RETURN_SUCCESS, Some out))"

definition tls12_prf ::
    "noxtls_hmac_context_t \<Rightarrow> bytes \<Rightarrow> bytes \<Rightarrow> bytes option \<Rightarrow> u32 \<Rightarrow> bytes option \<Rightarrow> u32 \<Rightarrow> bytes option \<Rightarrow> u32 \<Rightarrow>
     bytes option \<Rightarrow> u32 \<Rightarrow> u32 \<Rightarrow> noxtls_return_t \<times> bytes option" where
  "tls12_prf stack A chunk secret secret_len label label_len seed seed_len out out_len hash_algo =
     (if secret = None \<or> label = None \<or> seed = None \<or> out = None then (NOXTLS_RETURN_NULL, out)
      else p_hash stack A chunk hash_algo secret secret_len label label_len seed seed_len out out_len 0)"

definition tls10_prf ::
    "noxtls_hmac_context_t \<Rightarrow> bytes \<Rightarrow> bytes \<Rightarrow> bytes option \<Rightarrow> u32 \<Rightarrow> bytes option \<Rightarrow> u32 \<Rightarrow> bytes option \<Rightarrow> u32 \<Rightarrow>
     bytes option \<Rightarrow> u32 \<Rightarrow> noxtls_return_t \<times> bytes option" where
  "tls10_prf stack A chunk secret secret_len label label_len seed seed_len out out_len =
     (if secret = None \<or> label = None \<or> seed = None \<or> out = None then (NOXTLS_RETURN_NULL, out)
      else if secret_len = 0 then (NOXTLS_RETURN_INVALID_PARAM, out)
      else
        let half_len = (secret_len + 1) div 2;
            s1 = secret;
            s2 = Some (drop (unat (secret_len - half_len)) (the secret));
            (rc, out) = p_hash stack A chunk NOXTLS_HASH_MD5 s1 half_len label label_len seed seed_len out out_len 0;
            (rc, out) = (if rc = NOXTLS_RETURN_SUCCESS
                         then p_hash stack A chunk NOXTLS_HASH_SHA1 s2 half_len label label_len seed seed_len out out_len 1
                         else (rc, out))
        in if rc \<noteq> NOXTLS_RETURN_SUCCESS then (NOXTLS_RETURN_FAILED, noxtls_secure_zero out (unat out_len))
           else (NOXTLS_RETURN_SUCCESS, out))"

section \<open>Reference\<close>

fun rfc_A :: "(bytes \<Rightarrow> bytes) \<Rightarrow> bytes \<Rightarrow> nat \<Rightarrow> bytes" where
  "rfc_A mac seed 0 = seed"
| "rfc_A mac seed (Suc i) = mac (rfc_A mac seed i)"

definition rfc_p_hash :: "(bytes \<Rightarrow> bytes) \<Rightarrow> nat \<Rightarrow> bytes \<Rightarrow> nat \<Rightarrow> bytes" where
  "rfc_p_hash mac hash_len seed L =
     take L (concat (map (\<lambda>i. mac (rfc_A mac seed i @ seed)) [1..<Suc ((L + hash_len - 1) div hash_len)]))"

text \<open>The two halves of a secret share its middle byte when its length is odd.\<close>

definition rfc_tls10_prf :: "bytes \<Rightarrow> bytes \<Rightarrow> nat \<Rightarrow> bytes" where
  "rfc_tls10_prf secret seed L =
     (let half = (length secret + 1) div 2; S1 = take half secret; S2 = drop (length secret - half) secret
      in xor_bytes (rfc_p_hash (rfc_hmac rfc_md5 64 S1) 16 seed L) (rfc_p_hash (rfc_hmac fips_sha1 64 S2) 20 seed L))"

section \<open>Writing and mixing\<close>

definition mix :: "u8 \<Rightarrow> bytes \<Rightarrow> bytes \<Rightarrow> bytes" where
  "mix xor_into old new = (if xor_into \<noteq> 0 then xor_bytes old new else new)"

lemma mix_length: "length old = length new \<Longrightarrow> length (mix x old new) = length new"
  by (simp add: mix_def)

lemma mix_append: "length a = length b \<Longrightarrow> mix x (a @ a') (b @ b') = mix x a b @ mix x a' b'"
  by (simp add: mix_def xor_bytes_def)

lemma xor_run:
  "off + n \<le> length out \<Longrightarrow> n \<le> length chunk \<Longrightarrow>
   foldl (\<lambda>out i. out[off + i := out ! (off + i) XOR chunk ! i]) out [0..<n] =
   put_at off (xor_bytes (take n (drop off out)) (take n chunk)) out"
proof (induction n)
  case (Suc n)
  let ?x = "xor_bytes (take n (drop off out)) (take n chunk)"
  have "take (Suc n) (drop off out) = take n (drop off out) @ [out ! (off + n)]" "take (Suc n) chunk = take n chunk @ [chunk ! n]"
    using Suc.prems by (simp_all add: take_Suc_conv_app_nth)
  then have x: "xor_bytes (take (Suc n) (drop off out)) (take (Suc n) chunk) = ?x @ [out ! (off + n) XOR chunk ! n]"
    using Suc.prems by (simp add: xor_bytes_def)
  have l: "length ?x = n" using Suc.prems by simp
  have "drop (off + n) out = out ! (off + n) # drop (off + Suc n) out" using Suc.prems by (simp add: Cons_nth_drop_Suc)
  then have "(put_at off ?x out)[off + n := put_at off ?x out ! (off + n) XOR chunk ! n] =
      put_at off (?x @ [out ! (off + n) XOR chunk ! n]) out"
    using Suc.prems l by (simp add: put_at_def nth_append list_update_append)
  then show ?case using Suc by (simp add: x)
qed simp

lemma p_hash_write_value:
  "off + cl \<le> length out \<Longrightarrow> cl \<le> length chunk \<Longrightarrow>
   p_hash_write x out off chunk cl = put_at off (mix x (take cl (drop off out)) (take cl chunk)) out"
  by (simp add: p_hash_write_def mix_def xor_run)

lemma mix_chunk:
  fixes x :: u8
  assumes "off < L" "L \<le> length out" "length T = n" "cl = min (L - off) n"
  defines "out' \<equiv> put_at off (mix x (take cl (drop off out)) (take cl T)) out"
  shows "length out' = length out"
    "take (off + cl) out' @ mix x (take (L - (off + cl)) (drop (off + cl) out')) (take (L - (off + cl)) rest) @ drop L out' =
     take off out @ mix x (take (L - off) (drop off out)) (take (L - off) (T @ rest)) @ drop L out"
proof -
  let ?y = "mix x (take cl (drop off out)) (take cl T)"
  have le: "off + cl \<le> L" "length ?y = cl" "cl \<le> L - off" using assms(1-4) by (simp_all add: mix_length)
  then show "length out' = length out" using assms(2) by (simp add: out'_def)
  have "take (off + cl) out' = take off out @ ?y" "drop (off + cl) out' = drop (off + cl) out" "drop L out' = drop L out"
    using le assms(2) by (simp_all add: out'_def put_at_def)
  moreover have "take (L - off) (T @ rest) = take cl T @ take (L - (off + cl)) rest"
    using assms(3,4) by (auto simp: min_def)
  moreover have "take (L - off) (drop off out) = take cl (drop off out) @ take (L - (off + cl)) (drop (off + cl) out)"
  proof -
    have "L - off = cl + (L - (off + cl))" using le by simp
    then show ?thesis by (metis take_add drop_drop add.commute)
  qed
  moreover have "length (take cl (drop off out)) = length (take cl T)"
  proof -
    have "cl \<le> length out - off" using le(3) assms(2) by simp
    moreover have "cl \<le> length T" by (simp add: assms(3,4))
    ultimately show ?thesis by simp
  qed
  ultimately show "take (off + cl) out' @ mix x (take (L - (off + cl)) (drop (off + cl) out')) (take (L - (off + cl)) rest) @ drop L out' =
     take off out @ mix x (take (L - off) (drop off out)) (take (L - off) (T @ rest)) @ drop L out"
    by (simp add: mix_append)
qed

section \<open>P_hash\<close>

context keyed_hash
begin

lemma p_hash_feed_accepts:
  assumes "hmac_accepts holds block_size algo k c m"
    and "case label of None \<Rightarrow> label_len = 0 \<and> l = [] | Some d \<Rightarrow> unat label_len \<le> length d \<and> l = take (unat label_len) d"
    and "unat seed_len \<le> length seed"
  shows "\<exists>c'. p_hash_feed NOXTLS_RETURN_SUCCESS (Some c) label label_len (Some seed) seed_len = (NOXTLS_RETURN_SUCCESS, Some c') \<and>
    hmac_accepts holds block_size algo k c' (m @ l @ take (unat seed_len) seed)"
proof -
  obtain c1 where c1: "(if label_len > 0 then noxtls_hmac_update (Some c) label label_len else (NOXTLS_RETURN_SUCCESS, Some c)) = (NOXTLS_RETURN_SUCCESS, Some c1)"
    "hmac_accepts holds block_size algo k c1 (m @ l)"
    using optional_update [OF assms(1,2)] by blast
  obtain c2 where "(if seed_len > 0 then noxtls_hmac_update (Some c1) (Some seed) seed_len else (NOXTLS_RETURN_SUCCESS, Some c1)) = (NOXTLS_RETURN_SUCCESS, Some c2)"
    "hmac_accepts holds block_size algo k c2 ((m @ l) @ take (unat seed_len) seed)"
    using optional_update [where p = "Some seed" and n = seed_len and d = "take (unat seed_len) seed", OF c1(2)] assms(3) by auto
  then show ?thesis using c1(1) by (simp add: p_hash_feed_def)
qed

lemma p_hash_restart_accepts:
  assumes "hmac_keyed holds block_size algo k c" "out_size \<le> length A"
  shows "\<exists>c'. p_hash_restart (Some c) A (of_nat out_size) = (NOXTLS_RETURN_SUCCESS, Some c') \<and>
    hmac_accepts holds block_size algo k c' (take out_size A)"
proof -
  have sz: "unat (of_nat out_size :: u32) = out_size" using size_words(2) unfolding algo_sizes .
  obtain c1 where c1: "noxtls_hmac_reset (Some c) = (NOXTLS_RETURN_SUCCESS, Some c1)" "hmac_accepts holds block_size algo k c1 []"
    using reset_accepts [OF assms(1)] by blast
  from update_accepts [OF c1(2), of "of_nat out_size" A] assms(2) sz c1(1) show ?thesis by (auto simp: p_hash_restart_def)
qed

lemma p_hash_final_value:
  assumes "hmac_accepts holds block_size algo k c m" "length m < 2 ^ 60" "length buf = 64"
  shows "\<exists>c' z. p_hash_final NOXTLS_RETURN_SUCCESS (Some c) buf (of_nat out_size) =
      (NOXTLS_RETURN_SUCCESS, Some c', rfc_hmac_pads digest_of k m @ z) \<and>
    hmac_keyed holds block_size algo k c' \<and> length (rfc_hmac_pads digest_of k m @ z) = 64"
proof -
  have o: "out_size \<le> length buf" using assms(3) sizes by simp
  from final_value [OF assms(1,2) o order_refl] o assms(3) show ?thesis by (auto simp: p_hash_final_def pads_length)
qed

lemma p_hash_loop_value:
  fixes out_len :: u32 and k and x :: u8
  assumes label: "case label of None \<Rightarrow> label_len = 0 \<and> l = [] | Some d \<Rightarrow> unat label_len \<le> length d \<and> l = take (unat label_len) d"
    and seed: "unat seed_len \<le> length seed"
  defines "mac \<equiv> rfc_hmac_pads digest_of k" and "s \<equiv> l @ take (unat seed_len) seed" and "L \<equiv> unat out_len"
  assumes "off = min (j * out_size) L" "L \<le> length out" "length A = 64" "length chunk = 64" "hmac_keyed holds block_size algo k c"
    "off < L \<Longrightarrow> take out_size A = rfc_A mac s (Suc j)" "L \<le> M"
  shows "p_hash_loop (Some c) A (of_nat out_size) label label_len (Some seed) seed_len chunk (of_nat off) out out_len x =
    (NOXTLS_RETURN_SUCCESS,
     take off out @ mix x (take (L - off) (drop off out)) (take (L - off) (concat (map (\<lambda>i. mac (rfc_A mac s i @ s)) [Suc j..<Suc M]))) @ drop L out)"
  using assms(6-11)
proof (induction "L - off" arbitrary: off j out A chunk c rule: less_induct)
  case less
  let ?F = "\<lambda>i. mac (rfc_A mac s i @ s)"
  have sz: "unat (of_nat out_size :: u32) = out_size" "(of_nat out_size :: u32) \<noteq> 0" using size_words(2,4) unfolding algo_sizes by simp_all
  show ?case
  proof (cases "off < L")
    case False
    then have "off = L" using less.prems(1) by simp
    moreover have "of_nat L = out_len" by (simp add: L_def)
    ultimately show ?thesis using False by (subst p_hash_loop.simps) (simp add: mix_def)
  next
    case True
    note st = chunk_step [OF less.prems(1) [unfolded L_def] True [unfolded L_def] sz(1) sizes(2), folded L_def]
    note A = less.prems(6) [OF True]
    have oA: "out_size \<le> length A" using less.prems(3) sizes by simp
    have s32: "length s < 2 ^ 33"
    proof -
      have "length l < 2 ^ 32" using label unsigned_less [where 'a = nat and w = label_len] by (auto split: option.splits)
      then show ?thesis using unsigned_less [where 'a = nat and w = seed_len] by (simp add: s_def min_def)
    qed
    have lm: "length (mac y) = out_size" for y by (simp add: mac_def pads_length)
    obtain c1 where c1: "p_hash_restart (Some c) A (of_nat out_size) = (NOXTLS_RETURN_SUCCESS, Some c1)"
      "hmac_accepts holds block_size algo k c1 (rfc_A mac s (Suc j))"
      using p_hash_restart_accepts [OF less.prems(5) oA] A by metis
    obtain c2 where c2: "p_hash_feed NOXTLS_RETURN_SUCCESS (Some c1) label label_len (Some seed) seed_len = (NOXTLS_RETURN_SUCCESS, Some c2)"
      "hmac_accepts holds block_size algo k c2 (rfc_A mac s (Suc j) @ s)"
      using p_hash_feed_accepts [OF c1(2) label seed] unfolding s_def by auto
    have "length (rfc_A mac s (Suc j) @ s) < 2 ^ 60" using s32 sizes(3) by (simp add: lm)
    then obtain c3 z where c3: "p_hash_final NOXTLS_RETURN_SUCCESS (Some c2) chunk (of_nat out_size) = (NOXTLS_RETURN_SUCCESS, Some c3, ?F (Suc j) @ z)"
      "hmac_keyed holds block_size algo k c3" "length (?F (Suc j) @ z) = 64"
      using p_hash_final_value [OF c2(2) _ less.prems(4)] unfolding mac_def by blast
    define cl where "cl = min (L - off) out_size"
    have cl: "cl \<le> out_size" "off + cl \<le> length out" using True less.prems(2) by (simp_all add: cl_def)
    define out' where "out' = put_at off (mix x (take cl (drop off out)) (take cl (?F (Suc j)))) out"
    have w: "p_hash_write x out off (?F (Suc j) @ z) cl = out'"
      using p_hash_write_value [of off cl out "?F (Suc j) @ z" x] cl lm by (simp add: out'_def)
    note mx = mix_chunk [OF True less.prems(2) lm [of "rfc_A mac s (Suc j) @ s"] cl_def, of x, folded out'_def]
    have "\<exists>c4 A'. (if of_nat off + of_nat cl < out_len then
          (case p_hash_restart (Some c3) A (of_nat out_size) of (rc, hmac) \<Rightarrow> p_hash_final rc hmac A (of_nat out_size))
        else (NOXTLS_RETURN_SUCCESS, Some c3, A)) = (NOXTLS_RETURN_SUCCESS, Some c4, A') \<and>
      hmac_keyed holds block_size algo k c4 \<and> length A' = 64 \<and> (off + cl < L \<longrightarrow> take out_size A' = rfc_A mac s (Suc (Suc j)))"
    proof (cases "of_nat off + of_nat cl < out_len")
      case more: True
      obtain c5 where c5: "p_hash_restart (Some c3) A (of_nat out_size) = (NOXTLS_RETURN_SUCCESS, Some c5)"
        "hmac_accepts holds block_size algo k c5 (rfc_A mac s (Suc j))"
        using p_hash_restart_accepts [OF c3(2) oA] A by metis
      have "length (rfc_A mac s (Suc j)) < 2 ^ 60" using sizes(3) by (simp add: lm)
      from p_hash_final_value [OF c5(2) this less.prems(3)] c5(1) more lm show ?thesis unfolding mac_def [symmetric] by auto
    next
      case False
      have "unat (of_nat off + of_nat cl :: u32) = off + cl"
      proof -
        have "off + cl < 2 ^ 32" using True unsigned_less [where 'a = nat and w = out_len] by (simp add: cl_def L_def)
        then have "unat (of_nat (off + cl) :: u32) = off + cl" by (simp only: unat_of_nat) simp
        then show ?thesis by simp
      qed
      then have "\<not> off + cl < L" using False by (simp add: word_less_nat_alt L_def)
      then show ?thesis using False c3(2) less.prems(3) by auto
    qed
    then obtain c4 A' where c4: "(if of_nat off + of_nat cl < out_len then
          (case p_hash_restart (Some c3) A (of_nat out_size) of (rc, hmac) \<Rightarrow> p_hash_final rc hmac A (of_nat out_size))
        else (NOXTLS_RETURN_SUCCESS, Some c3, A)) = (NOXTLS_RETURN_SUCCESS, Some c4, A')"
      "hmac_keyed holds block_size algo k c4" "length A' = 64" "off + cl < L \<Longrightarrow> take out_size A' = rfc_A mac s (Suc (Suc j))" by blast
    have cw: "chunk_len out_len (of_nat off) (of_nat out_size) = of_nat cl" using st(4) by (simp add: cl_def)
    have ucl: "unat (of_nat cl :: u32) = cl" using st(3) by (simp add: cl_def)
    have step: "p_hash_loop (Some c) A (of_nat out_size) label label_len (Some seed) seed_len chunk (of_nat off) out out_len x =
        p_hash_loop (Some c4) A' (of_nat out_size) label label_len (Some seed) seed_len (?F (Suc j) @ z) (of_nat (off + cl)) out' out_len x"
      using sz(2) st(1)
      by (subst p_hash_loop.simps)
        (simp only: chunk_len_def [symmetric] cw c1(1) c2(1) c3(1) st(2) ucl w c4(1) Let_def prod.case of_nat_add, simp)
    have first: "[Suc j..<Suc M] = Suc j # [Suc (Suc j)..<Suc M]"
    proof -
      have "j * 1 \<le> j * out_size" using sizes(2) by (intro mult_le_mono2) simp
      then have "j \<le> off" unfolding st(7) by simp
      then have "j < M" using True assms(12) by simp
      then show ?thesis by (simp add: upt_conv_Cons del: upt_Suc)
    qed
    have "off + cl = min (Suc j * out_size) L" "L - (off + cl) < L - off" using st(5,6) by (simp_all add: cl_def)
    moreover have "L \<le> length out'" using mx(1) less.prems(2) by simp
    ultimately have rec: "p_hash_loop (Some c4) A' (of_nat out_size) label label_len (Some seed) seed_len (?F (Suc j) @ z) (of_nat (off + cl)) out' out_len x =
        (NOXTLS_RETURN_SUCCESS, take (off + cl) out' @ mix x (take (L - (off + cl)) (drop (off + cl) out'))
           (take (L - (off + cl)) (concat (map ?F [Suc (Suc j)..<Suc M]))) @ drop L out')"
      using less.hyps c4(2-4) c3(3) by blast
    show ?thesis unfolding step rec mx(2) first list.map concat.simps ..
  qed
qed

end

lemma hmac_hash_size: "algo \<in> set hmac_algos \<Longrightarrow> get_hash_output_size algo = of_nat (sha_size algo)"
  by (auto simp: hmac_algos_def get_hash_output_size_def sha_size_def hash_algos)

lemma hash_size_bound: "get_hash_output_size algo \<le> 64"
  by (simp add: get_hash_output_size_def)

lemma hmac_size_word: "algo \<in> set hmac_algos \<Longrightarrow> (of_nat (sha_size algo) :: u32) \<noteq> 0"
  by (auto simp: hmac_algos_def sha_sizes)

lemma rfc_p_hash_length:
  assumes "\<And>m. length (mac m) = n" "0 < n"
  shows "length (rfc_p_hash mac n s L) = L"
proof -
  have "length (concat (map (\<lambda>i. mac (rfc_A mac s i @ s)) [1..<Suc k])) = n * k" for k using assms(1) by (induction k) simp_all
  moreover have "L + n - 1 < n * Suc ((L + n - 1) div n)" using assms(2) dividend_less_times_div by simp
  then have "L \<le> n * ((L + n - 1) div n)" by simp
  ultimately show ?thesis by (simp add: rfc_p_hash_def del: upt_Suc)
qed

text \<open>P_hash on a digest of HMAC.\<close>

lemma p_hash_run:
  fixes out_len :: u32
  assumes a: "algo \<in> set hmac_algos" and secret: "unat secret_len \<le> length secret"
    and label: "case label of None \<Rightarrow> label_len = 0 \<and> l = [] | Some d \<Rightarrow> unat label_len \<le> length d \<and> l = take (unat label_len) d"
    and seed: "unat seed_len \<le> length seed" and out: "unat out_len \<le> length out" and st: "length A = 64" "length chunk = 64"
  defines "P \<equiv> rfc_p_hash (rfc_hmac (sha_reference algo) (hmac_block algo) (take (unat secret_len) secret)) (sha_size algo)
    (l @ take (unat seed_len) seed) (unat out_len)"
  shows "p_hash stack A chunk algo (Some secret) secret_len label label_len (Some seed) seed_len (Some out) out_len x =
    (NOXTLS_RETURN_SUCCESS, Some (mix x (take (unat out_len) out) P @ drop (unat out_len) out))"
proof -
  note kh = hmac_keyed_hash [OF a]
  let ?k = "rfc_hmac_key (sha_reference algo) (hmac_block algo) (take (unat secret_len) secret)"
  let ?n = "sha_size algo" and ?mac = "rfc_hmac_pads (sha_reference algo) ?k" and ?s = "l @ take (unat seed_len) seed" and ?L = "unat out_len"
  have n: "0 < ?n" by (rule hmac_sizes(4) [OF a])
  obtain c where c: "noxtls_hmac_init (Some stack) algo (Some secret) secret_len = (NOXTLS_RETURN_SUCCESS, Some c)"
    "hmac_accepts (sha_holds algo) (hmac_block algo) algo ?k c []"
    using keyed_hash.init_accepts [OF kh secret] by blast
  obtain c1 where c1: "p_hash_feed NOXTLS_RETURN_SUCCESS (Some c) label label_len (Some seed) seed_len = (NOXTLS_RETURN_SUCCESS, Some c1)"
    "hmac_accepts (sha_holds algo) (hmac_block algo) algo ?k c1 ?s"
    using keyed_hash.p_hash_feed_accepts [OF kh c(2) label seed] by auto
  have "length l < 2 ^ 32" using label unsigned_less [where 'a = nat and w = label_len] by (auto split: option.splits)
  then have "length ?s < 2 ^ 60" using unsigned_less [where 'a = nat and w = seed_len] by (simp add: min_def)
  then obtain c2 z where c2: "p_hash_final NOXTLS_RETURN_SUCCESS (Some c1) A (of_nat ?n) = (NOXTLS_RETURN_SUCCESS, Some c2, ?mac ?s @ z)"
    "hmac_keyed (sha_holds algo) (hmac_block algo) algo ?k c2" "length (?mac ?s @ z) = 64"
    using keyed_hash.p_hash_final_value [OF kh c1(2) _ st(1)] by blast
  have "take ?n (?mac ?s @ z) = rfc_A ?mac ?s (Suc 0)" using keyed_hash.pads_length [OF kh, of ?k ?s] by simp
  then have "p_hash_loop (Some c2) (?mac ?s @ z) (of_nat ?n) label label_len (Some seed) seed_len chunk 0 out out_len x =
      (NOXTLS_RETURN_SUCCESS,
       mix x (take ?L out) (take ?L (concat (map (\<lambda>i. ?mac (rfc_A ?mac ?s i @ ?s)) [1..<Suc ?L]))) @ drop ?L out)"
    using keyed_hash.p_hash_loop_value [OF kh label seed, where off = 0 and j = 0 and out = out and A = "?mac ?s @ z" and chunk = chunk
        and c = c2 and k = ?k and out_len = out_len and x = x and M = ?L] out st(2) c2(2,3) by (simp del: upt_Suc)
  moreover have "take ?L (concat (map (\<lambda>i. ?mac (rfc_A ?mac ?s i @ ?s)) [1..<Suc ?L])) = P"
    using expand_more [of ?n "\<lambda>i. ?mac (rfc_A ?mac ?s i @ ?s)" ?L ?L] keyed_hash.pads_length [OF kh] n
    unfolding P_def rfc_p_hash_def rfc_hmac_def [abs_def] by simp
  ultimately show ?thesis
    using c(1) c1(1) c2(1) hmac_hash_size [OF a] hmac_size_word [OF a] leD [OF hash_size_bound [of algo]] label
    by (auto simp: p_hash_def Let_def split: option.splits)
qed

lemma p_hash_unsupported:
  assumes "algo \<notin> set hmac_algos" "label = None \<Longrightarrow> label_len = 0" "unat out_len \<le> length out"
  shows "p_hash stack A chunk algo (Some secret) secret_len label label_len (Some seed) seed_len (Some out) out_len x =
    (if get_hash_output_size algo = 0 then (NOXTLS_RETURN_INVALID_ALGORITHM, Some out)
     else (NOXTLS_RETURN_FAILED, Some (replicate (unat out_len) 0 @ drop (unat out_len) out)))"
  using assms hmac_unsupported [OF assms(1)] leD [OF hash_size_bound [of algo]] zero_prefix_drop [OF assms(3)]
  by (auto simp: p_hash_def Let_def p_hash_feed_def p_hash_final_def)

section \<open>Properties\<close>

text \<open>
  C12. The TLS 1.2 pseudorandom function, on every branch. A missing buffer and an unknown digest are refused and leave the output
  alone; a digest without HMAC in the build fails with the output zeroed; otherwise the output is exactly P_hash of
  RFC 5246 over the secret, the label and the seed, for every output length, and nothing behind it is written.
\<close>

theorem tls12_prf_cases:
  assumes "\<forall>s. secret = Some s \<longrightarrow> unat secret_len \<le> length s" "\<forall>l. label = Some l \<longrightarrow> unat label_len \<le> length l"
    and "\<forall>d. seed = Some d \<longrightarrow> unat seed_len \<le> length d" "\<forall>z. out = Some z \<longrightarrow> unat out_len \<le> length z"
    and "length A = 64" "length chunk = 64"
  shows "tls12_prf stack A chunk secret secret_len label label_len seed seed_len out out_len algo =
    (case (secret, label, seed, out) of
       (Some s, Some l, Some d, Some z) \<Rightarrow>
         if algo \<in> set hmac_algos
         then (NOXTLS_RETURN_SUCCESS,
           Some (rfc_p_hash (rfc_hmac (sha_reference algo) (hmac_block algo) (take (unat secret_len) s)) (sha_size algo)
                   (take (unat label_len) l @ take (unat seed_len) d) (unat out_len) @ drop (unat out_len) z))
         else if get_hash_output_size algo = 0 then (NOXTLS_RETURN_INVALID_ALGORITHM, out)
         else (NOXTLS_RETURN_FAILED, Some (replicate (unat out_len) 0 @ drop (unat out_len) z))
     | _ \<Rightarrow> (NOXTLS_RETURN_NULL, out))"
proof (cases "\<exists>s l d z. secret = Some s \<and> label = Some l \<and> seed = Some d \<and> out = Some z")
  case False
  then show ?thesis by (cases secret; cases label; cases seed; cases out) (simp_all add: tls12_prf_def)
next
  case True
  then obtain s l d z where some: "secret = Some s" "label = Some l" "seed = Some d" "out = Some z" by blast
  show ?thesis
  proof (cases "algo \<in> set hmac_algos")
    case True
    have "unat secret_len \<le> length s" "unat seed_len \<le> length d" "unat out_len \<le> length z"
      "case Some l of None \<Rightarrow> label_len = 0 \<and> take (unat label_len) l = []
       | Some d \<Rightarrow> unat label_len \<le> length d \<and> take (unat label_len) l = take (unat label_len) d"
      using assms some by simp_all
    from p_hash_run [OF True this(1,4,2,3) assms(5,6), of stack 0] show ?thesis using True some by (simp add: tls12_prf_def mix_def)
  next
    case False
    then show ?thesis using p_hash_unsupported [OF False, of label label_len out_len z] assms(4) some by (simp add: tls12_prf_def)
  qed
qed

theorem tls12_prf_cases_witness:
  "tls12_prf zero_hmac_ctx (replicate 64 1) (replicate 64 2) (Some [1, 2, 3]) 3 (Some [107]) 1 (Some [9, 8]) 2 (Some (replicate 101 0)) 100 NOXTLS_HASH_SHA_384 =
     (NOXTLS_RETURN_SUCCESS, Some (rfc_p_hash (rfc_hmac (fips_sha512_family sha384_h0 48) 128 [1, 2, 3]) 48 [107, 9, 8] 100 @ [0]))"
  using tls12_prf_cases [of "Some [1, 2, 3]" 3 "Some [107]" 1 "Some [9, 8]" 2 "Some (replicate 101 0)" 100 "replicate 64 1" "replicate 64 2" zero_hmac_ctx NOXTLS_HASH_SHA_384]
  by (simp add: hmac_algos_def hmac_blocks sha_sizes)

text \<open>
  C40. The TLS 1.0 and 1.1 pseudorandom function is that of RFC 2246: the output is the exclusive or of P_MD5 over the first and
  P_SHA1 over the second half of the secret, which overlap in a byte when its length is odd; an empty secret is refused.
\<close>

theorem tls10_prf_correct:
  assumes "unat secret_len \<le> length s" "secret_len \<noteq> 0xFFFFFFFF" "unat label_len \<le> length l" "unat seed_len \<le> length d"
    and "unat out_len \<le> length z" "length A = 64" "length chunk = 64"
  shows "tls10_prf stack A chunk (Some s) secret_len (Some l) label_len (Some d) seed_len (Some z) out_len =
    (if secret_len = 0 then (NOXTLS_RETURN_INVALID_PARAM, Some z)
     else (NOXTLS_RETURN_SUCCESS,
       Some (rfc_tls10_prf (take (unat secret_len) s) (take (unat label_len) l @ take (unat seed_len) d) (unat out_len) @
             drop (unat out_len) z)))"
proof (cases "secret_len = 0")
  case True
  then show ?thesis by (simp add: tls10_prf_def)
next
  case False
  define half where "half = (secret_len + 1) div 2"
  have "unat secret_len \<noteq> unat (0xFFFFFFFF :: u32)" using assms(2) word_unat_eq_iff by blast
  then have "unat secret_len + 1 < 2 ^ 32" using unsigned_less [where 'a = nat and w = secret_len] by simp
  then have s1: "unat (secret_len + 1) = unat secret_len + 1" by (simp add: unat_add_small)
  have h: "unat half = (unat secret_len + 1) div 2" by (simp add: half_def unat_div s1)
  have pos: "unat secret_len \<noteq> 0" using False by (simp add: word_unat_eq_iff)
  then have le: "unat half \<le> unat secret_len" unfolding h by simp
  have sub: "unat (secret_len - half) = unat secret_len - unat half" using le by (intro unat_sub_le) (simp add: word_le_nat_alt)
  let ?seed = "take (unat label_len) l @ take (unat seed_len) d"
  have label: "case Some l of None \<Rightarrow> label_len = 0 \<and> take (unat label_len) l = []
      | Some d \<Rightarrow> unat label_len \<le> length d \<and> take (unat label_len) l = take (unat label_len) d"
    using assms(3) by simp
  have algos: "NOXTLS_HASH_MD5 \<in> set hmac_algos" "NOXTLS_HASH_SHA1 \<in> set hmac_algos" by (simp_all add: hmac_algos_def)
  let ?P1 = "rfc_p_hash (rfc_hmac rfc_md5 64 (take (unat half) s)) 16 ?seed (unat out_len)"
  let ?S2 = "drop (unat secret_len - unat half) s"
  have r1: "p_hash stack A chunk NOXTLS_HASH_MD5 (Some s) half (Some l) label_len (Some d) seed_len (Some z) out_len 0 =
      (NOXTLS_RETURN_SUCCESS, Some (?P1 @ drop (unat out_len) z))"
    using p_hash_run [OF algos(1) _ label assms(4,5,6,7), of half s stack 0] le assms(1) by (simp add: mix_def hmac_blocks sha_sizes)
  have l1: "length ?P1 = unat out_len" by (rule rfc_p_hash_length) (simp_all add: rfc_hmac_def rfc_hmac_pads_def digest_lengths)
  have "unat half \<le> length ?S2" using le assms(1) by simp
  then have r2: "p_hash stack A chunk NOXTLS_HASH_SHA1 (Some ?S2) half (Some l) label_len (Some d) seed_len (Some (?P1 @ drop (unat out_len) z)) out_len 1 =
      (NOXTLS_RETURN_SUCCESS, Some (xor_bytes ?P1 (rfc_p_hash (rfc_hmac fips_sha1 64 (take (unat half) ?S2)) 20 ?seed (unat out_len)) @ drop (unat out_len) z))"
    using p_hash_run [OF algos(2) _ label assms(4) _ assms(6,7), of half ?S2 out_len "?P1 @ drop (unat out_len) z" stack 1] l1
    by (simp add: mix_def hmac_blocks sha_sizes)
  have l0: "length (take (unat secret_len) s) = unat secret_len" using assms(1) by simp
  have "take (unat half) (take (unat secret_len) s) = take (unat half) s"
    "drop (unat secret_len - unat half) (take (unat secret_len) s) = take (unat half) ?S2"
    using le by (simp_all add: min_def drop_take)
  then have "rfc_tls10_prf (take (unat secret_len) s) ?seed (unat out_len) =
      xor_bytes ?P1 (rfc_p_hash (rfc_hmac fips_sha1 64 (take (unat half) ?S2)) 20 ?seed (unat out_len))"
    unfolding rfc_tls10_prf_def Let_def l0 h [symmetric] by (simp only:)
  then show ?thesis using False r1 r2 by (simp add: tls10_prf_def Let_def half_def [symmetric] sub)
qed

theorem tls10_prf_correct_witness:
  "tls10_prf zero_hmac_ctx (replicate 64 1) (replicate 64 2) (Some [1, 2, 3]) 3 (Some [107]) 1 (Some [9, 8]) 2 (Some (replicate 49 0)) 48 =
     (NOXTLS_RETURN_SUCCESS, Some (xor_bytes (rfc_p_hash (rfc_hmac rfc_md5 64 [1, 2]) 16 [107, 9, 8] 48) (rfc_p_hash (rfc_hmac fips_sha1 64 [2, 3]) 20 [107, 9, 8] 48) @ [0]))"
  using tls10_prf_correct [of 3 "[1, 2, 3]" 1 "[107]" 2 "[9, 8]" 48 "replicate 49 0" "replicate 64 1" "replicate 64 2" zero_hmac_ctx]
  by (simp add: rfc_tls10_prf_def)

end
