(* ===== verification/Digest_Verify.thy ===== *)
theory Digest_Verify
  imports Sha_Api
begin

text \<open>
  The one-shot verification functions of MD5, SHA-1, SHA-224, SHA-256 and SHA-512: they hash the data in a context on the
  stack and compare the digest with the expected one in constant time.
\<close>

section \<open>The three calls on a context of the stack\<close>

context digest
begin

lemma one_shot:
  assumes "sha_wf x" "unat len \<le> length d" "out_size \<le> length out"
  shows "\<exists>x1 x2 x3. init x = (NOXTLS_RETURN_SUCCESS, x1) \<and> update x1 (Some d) len = (NOXTLS_RETURN_SUCCESS, x2) \<and>
    finish x2 (Some out) = (NOXTLS_RETURN_SUCCESS, x3, Some (digest_of (take (unat len) d) @ drop out_size out))"
proof -
  obtain x1 where x1: "init x = (NOXTLS_RETURN_SUCCESS, x1)" "holds x1 []" using init_holds [OF assms(1)] by blast
  obtain x2 where x2: "update x1 (Some d) len = (NOXTLS_RETURN_SUCCESS, x2)" "holds x2 (take (unat len) d)"
    using update_holds [OF x1(2) assms(2)] by auto
  have "length (take (unat len) d) < 2 ^ 61" using unsigned_less [where 'a = nat and w = len] by (simp add: min_less_iff_disj)
  then obtain x3 where "finish x2 (Some out) = (NOXTLS_RETURN_SUCCESS, x3, Some (digest_of (take (unat len) d) @ drop out_size out))"
    using finish_digest [OF x2(2) _ assms(3)] by blast
  then show ?thesis using x1(1) x2(1) by blast
qed

end

lemma calls_keep_context:
  "on_sha f x = (NOXTLS_RETURN_SUCCESS, y) \<Longrightarrow> snd (f (Some x)) \<noteq> None \<Longrightarrow> f (Some x) = (NOXTLS_RETURN_SUCCESS, Some y)"
  "on_sha512 g x = (NOXTLS_RETURN_SUCCESS, y) \<Longrightarrow> snd (g (Some (sha512_ctx x))) \<noteq> None \<Longrightarrow>
     g (Some (sha512_ctx x)) = (NOXTLS_RETURN_SUCCESS, Some (sha512_ctx y))"
  "on_sha_out h x out = (NOXTLS_RETURN_SUCCESS, y, z) \<Longrightarrow> \<exists>c. h (Some x) out = (NOXTLS_RETURN_SUCCESS, c, z)"
  "on_sha512_out k x out = (NOXTLS_RETURN_SUCCESS, y, z) \<Longrightarrow> \<exists>c. k (Some (sha512_ctx x)) out = (NOXTLS_RETURN_SUCCESS, c, z)"
  by (auto simp: on_defs split: prod.splits)

lemma contexts_stay:
  "snd (noxtls_sha256_init (Some x) algo) \<noteq> None" "snd (noxtls_sha256_update (Some x) data len) \<noteq> None"
  "snd (noxtls_sha1_init (Some x) algo) \<noteq> None" "snd (noxtls_sha1_update (Some x) data len) \<noteq> None"
  "snd (noxtls_md5_init (Some x)) \<noteq> None" "snd (noxtls_md5_update (Some x) data len) \<noteq> None"
  "snd (noxtls_sha512_init (Some c) algo) \<noteq> None" "snd (noxtls_sha512_update (Some c) data len) \<noteq> None"
  by (simp_all add: noxtls_sha256_init_def noxtls_sha256_update_def noxtls_sha1_init_def noxtls_sha1_update_def noxtls_md5_init_def
      noxtls_md5_update_def noxtls_sha512_init_def noxtls_sha512_update_def Let_def split: prod.splits)

lemma expected_matches:
  "n \<le> length h \<Longrightarrow> n \<le> length e \<Longrightarrow> noxtls_ct_equal (Some h) (Some e) n = (if take n e = take n h then 1 else 0)"
  "noxtls_ct_equal (Some h) None n = 0"
  using ct_memcmp_zero [of n h e] by (auto simp: noxtls_ct_equal_def noxtls_ct_memcmp_def)

text \<open>What a verification function is to do.\<close>

definition verifies :: "(bytes option \<Rightarrow> noxtls_return_t) \<Rightarrow> nat \<Rightarrow> bytes \<Rightarrow> bool" where
  "verifies f n h \<longleftrightarrow>
     (\<forall>e. n \<le> length e \<longrightarrow> f (Some e) = (if take n e = h then NOXTLS_RETURN_SUCCESS else NOXTLS_RETURN_FAILED)) \<and>
     f None \<noteq> NOXTLS_RETURN_SUCCESS"

lemmas keeps =
  calls_keep_context(1) [where f = "\<lambda>x. noxtls_sha256_init x algo" for algo, OF _ contexts_stay(1)]
  calls_keep_context(1) [where f = "\<lambda>x. noxtls_sha256_update x data len" for data len, OF _ contexts_stay(2)]
  calls_keep_context(1) [where f = "\<lambda>x. noxtls_sha1_init x algo" for algo, OF _ contexts_stay(3)]
  calls_keep_context(1) [where f = "\<lambda>x. noxtls_sha1_update x data len" for data len, OF _ contexts_stay(4)]
  calls_keep_context(1) [where f = noxtls_md5_init, OF _ contexts_stay(5)]
  calls_keep_context(1) [where f = "\<lambda>x. noxtls_md5_update x data len" for data len, OF _ contexts_stay(6)]
  calls_keep_context(2) [where g = "\<lambda>c. noxtls_sha512_init c algo" for algo, OF _ contexts_stay(7)]
  calls_keep_context(2) [where g = "\<lambda>c. noxtls_sha512_update c data len" for data len, OF _ contexts_stay(8)]
  calls_keep_context(3,4)

lemma sha256_verifies:
  assumes "sha_wf x" "unat len \<le> length d"
  shows "verifies (noxtls_sha256_verify x (Some d) len) 32 (fips_sha256 (take (unat len) d))"
    "verifies (noxtls_sha224_verify x (Some d) len) 28 (fips_sha224 (take (unat len) d))"
proof -
  show "verifies (noxtls_sha256_verify x (Some d) len) 32 (fips_sha256 (take (unat len) d))"
    using sha256_digest.one_shot [OF assms, of "replicate 32 0"]
    by (auto simp: verifies_def noxtls_sha256_verify_def expected_matches digest_lengths sha512_digest.digest_size dest!: keeps)
  show "verifies (noxtls_sha224_verify x (Some d) len) 28 (fips_sha224 (take (unat len) d))"
    using sha224_digest.one_shot [OF assms, of "replicate 32 0"]
    by (auto simp: verifies_def noxtls_sha224_verify_def expected_matches digest_lengths sha512_digest.digest_size dest!: keeps)
qed

lemma sha1_verifies:
  assumes "sha_wf x" "unat len \<le> length d"
  shows "verifies (noxtls_sha1_verify x (Some d) len) 20 (fips_sha1 (take (unat len) d))"
  using sha1_digest.one_shot [OF assms, of "replicate 20 0"]
  by (auto simp: verifies_def noxtls_sha1_verify_def expected_matches digest_lengths sha512_digest.digest_size dest!: keeps)

lemma md5_verifies:
  assumes "sha_wf x" "unat len \<le> length d"
  shows "verifies (noxtls_md5_verify x (Some d) len) 16 (rfc_md5 (take (unat len) d))"
  using md5_digest.one_shot [OF assms, of "replicate 16 0"]
  by (auto simp: verifies_def noxtls_md5_verify_def expected_matches digest_lengths sha512_digest.digest_size dest!: keeps)

lemma sha512_verifies:
  assumes "sha_wf x" "unat len \<le> length d"
  shows "verifies (noxtls_sha512_verify (sha512_ctx x) (Some d) len) 64 (fips_sha512_family sha512_h0 64 (take (unat len) d))"
  using sha512_digest.one_shot [OF assms, of "replicate 64 0"]
  by (auto simp: verifies_def noxtls_sha512_verify_def expected_matches digest_lengths sha512_digest.digest_size dest!: keeps)

section \<open>Property\<close>

text \<open>
  Digest verification. Whatever the stack held, each verification function succeeds exactly when the expected buffer starts
  with the standard digest of the data, fails otherwise, and never succeeds without an expected digest.
\<close>

theorem digest_verify_exact:
  assumes "sha_wf x" "unat len \<le> length d"
  defines "m \<equiv> take (unat len) d"
  shows "verifies (noxtls_sha256_verify x (Some d) len) 32 (fips_sha256 m) \<and>
    verifies (noxtls_sha224_verify x (Some d) len) 28 (fips_sha224 m) \<and>
    verifies (noxtls_sha512_verify (sha512_ctx x) (Some d) len) 64 (fips_sha512_family sha512_h0 64 m) \<and>
    verifies (noxtls_sha1_verify x (Some d) len) 20 (fips_sha1 m) \<and>
    verifies (noxtls_md5_verify x (Some d) len) 16 (rfc_md5 m)"
  unfolding m_def using sha256_verifies [OF assms(1,2)] sha512_verifies [OF assms(1,2)] sha1_verifies [OF assms(1,2)] md5_verifies [OF assms(1,2)]
  by blast

theorem digest_verify_exact_witness:
  "noxtls_sha1_verify zero_sha_ctx (Some [1, 2, 3]) 2 (Some (fips_sha1 [1, 2] @ [0])) = NOXTLS_RETURN_SUCCESS \<and>
    noxtls_sha256_verify zero_sha_ctx (Some [1, 2, 3]) 2 (Some (map (\<lambda>b. b + 1) (fips_sha256 [1, 2]))) = NOXTLS_RETURN_FAILED"
proof -
  have "map (\<lambda>b. b + 1) l \<noteq> l" if "length l = 32" for l :: bytes using that by (cases l) auto
  then show ?thesis using digest_verify_exact [of zero_sha_ctx 2 "[1, 2, 3]"]
    by (simp add: zero_wf verifies_def digest_lengths)
qed

end
