(* ===== verification/Tls_Kdf.thy ===== *)
theory Tls_Kdf
  imports Tls_Prf Digest_Verify
begin

text \<open>
  HKDF-Expand-Label and Derive-Secret of \<open>tls/noxtls_tls_kdf.c\<close>, for TLS 1.3 (RFC 8446, section 7.1) and DTLS 1.3 (RFC
  9147, section 5.9), over the HKDF and the digests of the library. The HkdfLabel structure goes into
  HKDF-Expand as five parts; the transcript hash is computed in a context on the stack.
\<close>

section \<open>Definitions\<close>

definition hkdf_expand_label_with_prefix ::
    "noxtls_hmac_context_t \<Rightarrow> bytes \<Rightarrow> u32 \<Rightarrow> bytes \<Rightarrow> bytes option \<Rightarrow> u32 \<Rightarrow> bytes option \<Rightarrow> u32 \<Rightarrow> bytes option \<Rightarrow> u32 \<Rightarrow>
     bytes option \<Rightarrow> u32 \<Rightarrow> noxtls_return_t \<times> bytes option" where
  "hkdf_expand_label_with_prefix stack T hash_algo prefix secret secret_len label label_len ctxt ctxt_len out out_len =
     (let prefix_len = of_nat (the (noxtls_u8_strlen prefix)) :: u32 in
      if secret = None \<or> label = None \<or> out = None \<or> prefix_len > 255 \<or>
         label_len > 255 - prefix_len \<or> ctxt_len > 255 \<or> out_len > 0xFFFF then (NOXTLS_RETURN_INVALID_PARAM, out)
      else
        let full_label_len = prefix_len + label_len in
        if ctxt = None \<and> ctxt_len \<noteq> 0 then (NOXTLS_RETURN_INVALID_PARAM, out)
        else
          let head = [ucast (drop_bit 8 out_len AND 0xFF), ucast (out_len AND 0xFF), ucast full_label_len];
              ctx_len_byte = ucast ctxt_len;
              parts = [\<lparr>part_data = Some head, part_len = 3\<rparr>, \<lparr>part_data = Some prefix, part_len = prefix_len\<rparr>,
                       \<lparr>part_data = label, part_len = label_len\<rparr>, \<lparr>part_data = Some [ctx_len_byte], part_len = 1\<rparr>,
                       \<lparr>part_data = ctxt, part_len = ctxt_len\<rparr>]
          in noxtls_hkdf_expand_parts stack T hash_algo secret secret_len (Some parts) 5 out out_len)"

definition tls13_prefix :: bytes where "tls13_prefix = [0x74, 0x6C, 0x73, 0x31, 0x33, 0x20, 0]"
definition dtls13_prefix :: bytes where "dtls13_prefix = [0x64, 0x74, 0x6C, 0x73, 0x31, 0x33, 0]"

definition tls13_hkdf_expand_label ::
    "noxtls_hmac_context_t \<Rightarrow> bytes \<Rightarrow> u32 \<Rightarrow> bytes option \<Rightarrow> u32 \<Rightarrow> bytes option \<Rightarrow> u32 \<Rightarrow> bytes option \<Rightarrow> u32 \<Rightarrow>
     bytes option \<Rightarrow> u32 \<Rightarrow> noxtls_return_t \<times> bytes option" where
  "tls13_hkdf_expand_label stack T hash_algo secret secret_len label label_len ctxt ctxt_len out out_len =
     hkdf_expand_label_with_prefix stack T hash_algo tls13_prefix secret secret_len label label_len ctxt ctxt_len out out_len"

definition dtls13_hkdf_expand_label ::
    "noxtls_hmac_context_t \<Rightarrow> bytes \<Rightarrow> u32 \<Rightarrow> bytes option \<Rightarrow> u32 \<Rightarrow> bytes option \<Rightarrow> u32 \<Rightarrow> bytes option \<Rightarrow> u32 \<Rightarrow>
     bytes option \<Rightarrow> u32 \<Rightarrow> noxtls_return_t \<times> bytes option" where
  "dtls13_hkdf_expand_label stack T hash_algo secret secret_len label label_len ctxt ctxt_len out out_len =
     hkdf_expand_label_with_prefix stack T hash_algo dtls13_prefix secret secret_len label label_len ctxt ctxt_len out out_len"

text \<open>The transcript hash; the digest context \<open>x\<close> lives on the stack.\<close>

definition hash_message_sha256 :: "noxtls_sha_ctx_t \<Rightarrow> bytes option \<Rightarrow> u32 \<Rightarrow> bytes option \<Rightarrow> u32 \<Rightarrow> noxtls_return_t \<times> bytes option" where
  "hash_message_sha256 x messages messages_len out_digest out_len =
     (if out_len < 32 then (NOXTLS_RETURN_INVALID_PARAM, out_digest)
      else case noxtls_sha256_init (Some x) NOXTLS_HASH_SHA_256 of
        (rc, ctx) \<Rightarrow>
          if rc \<noteq> NOXTLS_RETURN_SUCCESS then (NOXTLS_RETURN_FAILED, out_digest)
          else case (if messages \<noteq> None \<and> messages_len > 0 then noxtls_sha256_update ctx messages messages_len
                     else (NOXTLS_RETURN_SUCCESS, ctx)) of
            (rc, ctx) \<Rightarrow>
              if rc \<noteq> NOXTLS_RETURN_SUCCESS then (NOXTLS_RETURN_FAILED, out_digest)
              else case noxtls_sha256_finish ctx out_digest of (rc, ctx, out_digest) \<Rightarrow> (rc, out_digest))"

definition hash_message_sha512 ::
    "noxtls_sha512_ctx_t \<Rightarrow> u32 \<Rightarrow> bytes option \<Rightarrow> u32 \<Rightarrow> bytes option \<Rightarrow> u32 \<Rightarrow> noxtls_return_t \<times> bytes option" where
  "hash_message_sha512 x hash_algo messages messages_len out_digest out_len =
     (let need = (if hash_algo = NOXTLS_HASH_SHA_384 then 48 else 64) in
      if out_len < need then (NOXTLS_RETURN_INVALID_PARAM, out_digest)
      else case noxtls_sha512_init (Some x) hash_algo of
        (rc, ctx) \<Rightarrow>
          if rc \<noteq> NOXTLS_RETURN_SUCCESS then (NOXTLS_RETURN_FAILED, out_digest)
          else case (if messages \<noteq> None \<and> messages_len > 0 then noxtls_sha512_update ctx messages messages_len
                     else (NOXTLS_RETURN_SUCCESS, ctx)) of
            (rc, ctx) \<Rightarrow>
              if rc \<noteq> NOXTLS_RETURN_SUCCESS then (NOXTLS_RETURN_FAILED, out_digest)
              else case noxtls_sha512_finish ctx out_digest of (rc, ctx, out_digest) \<Rightarrow> (rc, out_digest))"

definition hash_message_sha1 :: "noxtls_sha_ctx_t \<Rightarrow> bytes option \<Rightarrow> u32 \<Rightarrow> bytes option \<Rightarrow> u32 \<Rightarrow> noxtls_return_t \<times> bytes option" where
  "hash_message_sha1 x messages messages_len out_digest out_len =
     (if out_len < 20 then (NOXTLS_RETURN_INVALID_PARAM, out_digest)
      else case noxtls_sha1_init (Some x) NOXTLS_HASH_SHA1 of
        (rc, ctx) \<Rightarrow>
          if rc \<noteq> NOXTLS_RETURN_SUCCESS then (NOXTLS_RETURN_FAILED, out_digest)
          else case (if messages \<noteq> None \<and> messages_len > 0 then noxtls_sha1_update ctx messages messages_len
                     else (NOXTLS_RETURN_SUCCESS, ctx)) of
            (rc, ctx) \<Rightarrow>
              if rc \<noteq> NOXTLS_RETURN_SUCCESS then (NOXTLS_RETURN_FAILED, out_digest)
              else case noxtls_sha1_finish ctx out_digest of (rc, ctx, out_digest) \<Rightarrow> (rc, out_digest))"

definition hash_message :: "noxtls_sha_ctx_t \<Rightarrow> u32 \<Rightarrow> bytes option \<Rightarrow> u32 \<Rightarrow> bytes option \<Rightarrow> u32 \<Rightarrow> noxtls_return_t \<times> bytes option" where
  "hash_message x hash_algo messages messages_len out_digest out_len =
     (if messages = None \<or> out_digest = None then (NOXTLS_RETURN_NULL, out_digest)
      else if hash_algo = NOXTLS_HASH_SHA_256 then hash_message_sha256 x messages messages_len out_digest out_len
      else if hash_algo = NOXTLS_HASH_SHA_384 \<or> hash_algo = NOXTLS_HASH_SHA_512
        then hash_message_sha512 (sha512_ctx x) hash_algo messages messages_len out_digest out_len
      else if hash_algo = NOXTLS_HASH_SHA1 then hash_message_sha1 x messages messages_len out_digest out_len
      else (NOXTLS_RETURN_INVALID_ALGORITHM, out_digest))"

definition hash_empty_message :: "noxtls_sha_ctx_t \<Rightarrow> u32 \<Rightarrow> bytes option \<Rightarrow> u32 \<Rightarrow> noxtls_return_t \<times> bytes option" where
  "hash_empty_message x hash_algo out_digest out_len =
     (if out_digest = None then (NOXTLS_RETURN_NULL, out_digest)
      else if hash_algo = NOXTLS_HASH_SHA_256 then hash_message_sha256 x None 0 out_digest out_len
      else if hash_algo = NOXTLS_HASH_SHA_384 \<or> hash_algo = NOXTLS_HASH_SHA_512
        then hash_message_sha512 (sha512_ctx x) hash_algo None 0 out_digest out_len
      else if hash_algo = NOXTLS_HASH_SHA1 then hash_message_sha1 x None 0 out_digest out_len
      else (NOXTLS_RETURN_INVALID_ALGORITHM, out_digest))"

text \<open>The stack: the HMAC context, the block T of HKDF, the digest context and the transcript hash.\<close>

definition tls13_derive_secret ::
    "noxtls_hmac_context_t \<Rightarrow> bytes \<Rightarrow> noxtls_sha_ctx_t \<Rightarrow> bytes \<Rightarrow> u32 \<Rightarrow> bytes option \<Rightarrow> u32 \<Rightarrow> bytes option \<Rightarrow> u32 \<Rightarrow>
     bytes option \<Rightarrow> u32 \<Rightarrow> bytes option \<Rightarrow> u32 \<Rightarrow> noxtls_return_t \<times> bytes option" where
  "tls13_derive_secret stack T x transcript_hash hash_algo secret secret_len label label_len messages messages_len out out_len =
     (let hash_len = get_hash_output_size hash_algo in
      if secret = None \<or> label = None \<or> out = None then (NOXTLS_RETURN_NULL, out)
      else if hash_len = 0 \<or> hash_len > 64 then (NOXTLS_RETURN_INVALID_ALGORITHM, out)
      else if out_len < hash_len then (NOXTLS_RETURN_INVALID_PARAM, out)
      else case (if messages \<noteq> None \<and> messages_len > 0 then hash_message x hash_algo messages messages_len (Some transcript_hash) 64
                 else hash_empty_message x hash_algo (Some transcript_hash) 64) of
        (rc, transcript_hash) \<Rightarrow>
          if rc \<noteq> NOXTLS_RETURN_SUCCESS then (rc, out)
          else tls13_hkdf_expand_label stack T hash_algo secret secret_len label label_len transcript_hash hash_len out hash_len)"

definition dtls13_derive_secret ::
    "noxtls_hmac_context_t \<Rightarrow> bytes \<Rightarrow> noxtls_sha_ctx_t \<Rightarrow> bytes \<Rightarrow> u32 \<Rightarrow> bytes option \<Rightarrow> u32 \<Rightarrow> bytes option \<Rightarrow> u32 \<Rightarrow>
     bytes option \<Rightarrow> u32 \<Rightarrow> bytes option \<Rightarrow> u32 \<Rightarrow> noxtls_return_t \<times> bytes option" where
  "dtls13_derive_secret stack T x transcript_hash hash_algo secret secret_len label label_len messages messages_len out out_len =
     (let hash_len = get_hash_output_size hash_algo in
      if secret = None \<or> label = None \<or> out = None then (NOXTLS_RETURN_NULL, out)
      else if hash_len = 0 \<or> hash_len > 64 then (NOXTLS_RETURN_INVALID_ALGORITHM, out)
      else if out_len < hash_len then (NOXTLS_RETURN_INVALID_PARAM, out)
      else case (if messages \<noteq> None \<and> messages_len > 0 then hash_message x hash_algo messages messages_len (Some transcript_hash) 64
                 else hash_empty_message x hash_algo (Some transcript_hash) 64) of
        (rc, transcript_hash) \<Rightarrow>
          if rc \<noteq> NOXTLS_RETURN_SUCCESS then (rc, out)
          else dtls13_hkdf_expand_label stack T hash_algo secret secret_len label label_len transcript_hash hash_len out hash_len)"

section \<open>Reference\<close>

text \<open>RFC 8446, section 7.1: the label is prefixed with the protocol, and both it and the context carry their length in a byte.\<close>

definition rfc_hkdf_label :: "bytes \<Rightarrow> bytes \<Rightarrow> bytes \<Rightarrow> nat \<Rightarrow> bytes" where
  "rfc_hkdf_label prefix label ctxt L =
     [of_nat (L div 256), of_nat L] @ [of_nat (length (prefix @ label))] @ prefix @ label @ [of_nat (length ctxt)] @ ctxt"

definition rfc_expand_label :: "(bytes \<Rightarrow> bytes) \<Rightarrow> nat \<Rightarrow> bytes \<Rightarrow> bytes \<Rightarrow> bytes \<Rightarrow> nat \<Rightarrow> bytes" where
  "rfc_expand_label mac hash_len prefix label ctxt L = rfc_hkdf_expand mac hash_len (rfc_hkdf_label prefix label ctxt L) L"

definition rfc_derive_secret :: "(bytes \<Rightarrow> bytes) \<Rightarrow> nat \<Rightarrow> nat \<Rightarrow> bytes \<Rightarrow> bytes \<Rightarrow> bytes \<Rightarrow> bytes \<Rightarrow> bytes" where
  "rfc_derive_secret hash block_size hash_len prefix secret label messages =
     rfc_expand_label (rfc_hmac hash block_size secret) hash_len prefix label (hash messages) hash_len"

section \<open>Expand-Label\<close>

lemma prefix_strlen: "length p = 6 \<Longrightarrow> 0 \<notin> set p \<Longrightarrow> noxtls_u8_strlen (p @ [0]) = Some 6"
proof -
  have "0 \<notin> set q \<Longrightarrow> noxtls_u8_strlen (q @ [0]) = Some (length q)" for q by (induction q) auto
  then show "length p = 6 \<Longrightarrow> 0 \<notin> set p \<Longrightarrow> ?thesis" by simp
qed

lemma low_byte: "ucast (w AND 0xFF) = (ucast w :: u8)" for w :: u32
  by (rule bit_word_eqI) (auto simp: bit_ucast_iff bit_and_iff mask_eq_exp_minus_1 [symmetric, of 8, simplified] bit_mask_iff)

lemma length_bytes:
  "(ucast (drop_bit 8 w AND 0xFF) :: u8) = of_nat (unat w div 256)" "(ucast (w AND 0xFF) :: u8) = of_nat (unat w)" for w :: u32
proof -
  have c: "(ucast v :: u8) = of_nat (unat v)" for v :: u32 by (simp add: unsigned_ucast_eq)
  have "unat (drop_bit 8 w) = unat w div 256" unfolding unat_drop_bit_eq by (simp add: drop_bit_eq_div)
  then show "(ucast (drop_bit 8 w AND 0xFF) :: u8) = of_nat (unat w div 256)" "(ucast (w AND 0xFF) :: u8) = of_nat (unat w)"
    using c [of "drop_bit 8 w"] c [of w] by (simp_all only: low_byte)
qed

text \<open>The call with a prefix of six characters.\<close>

lemma expand_label_value:
  assumes p: "length p = 6" "0 \<notin> set p"
    and some: "secret = Some s" "label = Some l" "out = Some z"
    and lens: "unat secret_len \<le> length s" "unat label_len \<le> length l" "\<forall>d. ctxt = Some d \<longrightarrow> unat ctxt_len \<le> length d"
      "unat out_len \<le> length z" "length T = 64"
  shows "hkdf_expand_label_with_prefix stack T algo (p @ [0]) secret secret_len label label_len ctxt ctxt_len out out_len =
    (if 249 < unat label_len \<or> 255 < unat ctxt_len \<or> 65535 < unat out_len \<or> ctxt = None \<and> ctxt_len \<noteq> 0
       then (NOXTLS_RETURN_INVALID_PARAM, out)
     else if algo \<notin> set hkdf_algos then (NOXTLS_RETURN_INVALID_ALGORITHM, out)
     else if 255 * sha_size algo < unat out_len then (NOXTLS_RETURN_INVALID_PARAM, out)
     else (NOXTLS_RETURN_SUCCESS,
       Some (rfc_expand_label (rfc_hmac (sha_reference algo) (hmac_block algo) (take (unat secret_len) s)) (sha_size algo)
               p (take (unat label_len) l) (case ctxt of None \<Rightarrow> [] | Some d \<Rightarrow> take (unat ctxt_len) d) (unat out_len) @
             drop (unat out_len) z)))"
proof -
  have words: "label_len > 249 \<longleftrightarrow> 249 < unat label_len" "ctxt_len > 255 \<longleftrightarrow> 255 < unat ctxt_len" "out_len > 0xFFFF \<longleftrightarrow> 65535 < unat out_len"
    by (simp_all add: word_less_nat_alt)
  show ?thesis
  proof (cases "249 < unat label_len \<or> 255 < unat ctxt_len \<or> 65535 < unat out_len \<or> ctxt = None \<and> ctxt_len \<noteq> 0")
    case True
    then show ?thesis using some by (auto simp: hkdf_expand_label_with_prefix_def prefix_strlen [OF p] words)
  next
    case False
    let ?head = "[ucast (drop_bit 8 out_len AND 0xFF), ucast (out_len AND 0xFF), ucast (6 + label_len)] :: bytes"
    define ps where "ps = [\<lparr>part_data = Some ?head, part_len = 3\<rparr>, \<lparr>part_data = Some (p @ [0]), part_len = 6\<rparr>,
      \<lparr>part_data = label, part_len = label_len\<rparr>, \<lparr>part_data = Some [ucast ctxt_len], part_len = 1\<rparr>, \<lparr>part_data = ctxt, part_len = ctxt_len\<rparr>]"
    let ?c = "case ctxt of None \<Rightarrow> [] | Some d \<Rightarrow> take (unat ctxt_len) d"
    have call: "hkdf_expand_label_with_prefix stack T algo (p @ [0]) secret secret_len label label_len ctxt ctxt_len out out_len =
        noxtls_hkdf_expand_parts stack T algo secret secret_len (Some ps) 5 out out_len"
      using False some by (auto simp: hkdf_expand_label_with_prefix_def prefix_strlen [OF p] words ps_def Let_def)
    have "unat (6 + label_len) = 6 + unat label_len" using False by (simp add: unat_add_small)
    then have full: "(ucast (6 + label_len) :: u8) = of_nat (6 + unat label_len)" by (metis length_bytes(2) low_byte)
    have lc: "length ?c = unat ctxt_len" using False lens(3) by (auto split: option.splits)
    have cb: "(ucast ctxt_len :: u8) = of_nat (unat ctxt_len)" by (metis length_bytes(2) low_byte)
    have info: "info_of ps = rfc_hkdf_label p (take (unat label_len) l) ?c (unat out_len)"
      using p(1) lens(2) some(2) full lc cb length_bytes [of out_len]
      by (cases ctxt) (simp_all add: info_of_def ps_def rfc_hkdf_label_def del: of_nat_add)
    have ok: "list_all part_ok ps" using some lens False p(1) by (auto simp: ps_def part_ok_def split: option.splits)
    have short: "length (info_of ps) < 2 ^ 59"
      unfolding info using False lc p(1) lens(2) by (simp add: rfc_hkdf_label_def)
    have tk: "ps = take (unat (5 :: u32)) (case Some ps of None \<Rightarrow> [] | Some l \<Rightarrow> l)" by (simp add: ps_def)
    have dat: "\<forall>q\<in>set ps. \<forall>d. part_data q = Some d \<longrightarrow> unat (part_len q) \<le> length d"
      using ok by (fastforce simp: list_all_iff part_ok_def)
    have "\<forall>p. secret = Some p \<longrightarrow> unat secret_len \<le> length p" "\<forall>q. out = Some q \<longrightarrow> unat out_len \<le> length q" using some lens by simp_all
    from hkdf_expand_value [OF this lens(5) tk dat short, of stack algo] show ?thesis
      using False some ok unfolding call info by (auto simp: rfc_expand_label_def)
  qed
qed

section \<open>The transcript hash\<close>

definition data_of :: "bytes option \<Rightarrow> u32 \<Rightarrow> bytes" where
  "data_of p n = (case p of None \<Rightarrow> [] | Some d \<Rightarrow> take (unat n) d)"

context digest
begin

lemma optional_one_shot:
  assumes "sha_wf x" "\<forall>d. p = Some d \<longrightarrow> unat n \<le> length d" "out_size \<le> length out"
  shows "\<exists>x1 x2 x3. init x = (NOXTLS_RETURN_SUCCESS, x1) \<and>
    (if p \<noteq> None \<and> n > 0 then update x1 p n else (NOXTLS_RETURN_SUCCESS, x1)) = (NOXTLS_RETURN_SUCCESS, x2) \<and>
    finish x2 (Some out) = (NOXTLS_RETURN_SUCCESS, x3, Some (digest_of (data_of p n) @ drop out_size out))"
proof (cases "p \<noteq> None \<and> n > 0")
  case True
  then obtain d where d: "p = Some d" by blast
  then show ?thesis using one_shot [OF assms(1) _ assms(3), of n d] True assms(2) by (auto simp: data_of_def)
next
  case False
  then have m: "data_of p n = []" by (auto simp: data_of_def word_gt_0 split: option.splits)
  obtain x1 where x1: "init x = (NOXTLS_RETURN_SUCCESS, x1)" "holds x1 []" using init_holds [OF assms(1)] by blast
  then show ?thesis using finish_digest [OF x1(2) _ assms(3)] False m by auto
qed

end

lemma hash_messages:
  assumes "sha_wf x" "\<forall>d. p = Some d \<longrightarrow> unat n \<le> length d" "length th = 64"
  shows "hash_message_sha256 x p n (Some th) 64 = (NOXTLS_RETURN_SUCCESS, Some (fips_sha256 (data_of p n) @ drop 32 th))"
    "hash_message_sha1 x p n (Some th) 64 = (NOXTLS_RETURN_SUCCESS, Some (fips_sha1 (data_of p n) @ drop 20 th))"
    "hash_message_sha512 (sha512_ctx x) NOXTLS_HASH_SHA_384 p n (Some th) 64 =
       (NOXTLS_RETURN_SUCCESS, Some (fips_sha512_family sha384_h0 48 (data_of p n) @ drop 48 th))"
    "hash_message_sha512 (sha512_ctx x) NOXTLS_HASH_SHA_512 p n (Some th) 64 =
       (NOXTLS_RETURN_SUCCESS, Some (fips_sha512_family sha512_h0 64 (data_of p n)))"
proof -
  have t: "length th = 64" by (rule assms(3))
  show "hash_message_sha256 x p n (Some th) 64 = (NOXTLS_RETURN_SUCCESS, Some (fips_sha256 (data_of p n) @ drop 32 th))"
    using sha256_digest.optional_one_shot [OF assms(1,2), of th] t
    by (auto simp: hash_message_sha256_def split: if_splits dest!: keeps)
  show "hash_message_sha1 x p n (Some th) 64 = (NOXTLS_RETURN_SUCCESS, Some (fips_sha1 (data_of p n) @ drop 20 th))"
    using sha1_digest.optional_one_shot [OF assms(1,2), of th] t
    by (auto simp: hash_message_sha1_def split: if_splits dest!: keeps)
  show "hash_message_sha512 (sha512_ctx x) NOXTLS_HASH_SHA_384 p n (Some th) 64 =
       (NOXTLS_RETURN_SUCCESS, Some (fips_sha512_family sha384_h0 48 (data_of p n) @ drop 48 th))"
    using sha384_digest.optional_one_shot [OF assms(1,2), of th] t
    by (auto simp: hash_message_sha512_def split: if_splits dest!: keeps)
  show "hash_message_sha512 (sha512_ctx x) NOXTLS_HASH_SHA_512 p n (Some th) 64 =
       (NOXTLS_RETURN_SUCCESS, Some (fips_sha512_family sha512_h0 64 (data_of p n)))"
    using sha512_digest.optional_one_shot [OF assms(1,2), of th] t
    by (auto simp: hash_message_sha512_def hash_algos split: if_splits dest!: keeps)
qed

definition transcript ::
    "noxtls_sha_ctx_t \<Rightarrow> u32 \<Rightarrow> bytes option \<Rightarrow> u32 \<Rightarrow> bytes \<Rightarrow> noxtls_return_t \<times> bytes option" where
  "transcript x algo p n th =
     (if p \<noteq> None \<and> n > 0 then hash_message x algo p n (Some th) 64 else hash_empty_message x algo (Some th) 64)"

lemma suite_digests_differ:
  "NOXTLS_HASH_SHA1 \<noteq> NOXTLS_HASH_SHA_256" "NOXTLS_HASH_SHA1 \<noteq> NOXTLS_HASH_SHA_384" "NOXTLS_HASH_SHA1 \<noteq> NOXTLS_HASH_SHA_512"
  "NOXTLS_HASH_SHA_256 \<noteq> NOXTLS_HASH_SHA_384" "NOXTLS_HASH_SHA_256 \<noteq> NOXTLS_HASH_SHA_512" "NOXTLS_HASH_SHA_384 \<noteq> NOXTLS_HASH_SHA_512"
  by (simp_all add: hash_algos)

lemma transcript_value:
  assumes "sha_wf x" "\<forall>d. p = Some d \<longrightarrow> unat n \<le> length d" "length th = 64"
  shows "transcript x algo p n th =
    (if algo \<in> set hkdf_algos then (NOXTLS_RETURN_SUCCESS, Some (sha_reference algo (data_of p n) @ drop (sha_size algo) th))
     else (NOXTLS_RETURN_INVALID_ALGORITHM, Some th))"
proof -
  define q where "q = (if p \<noteq> None \<and> n > 0 then p else None)"
  define k where "k = (if p \<noteq> None \<and> n > 0 then n else 0)"
  have q: "\<forall>d. q = Some d \<longrightarrow> unat k \<le> length d" "data_of q k = data_of p n"
    using assms(2) by (auto simp: q_def k_def data_of_def word_gt_0 split: option.splits)
  have t: "transcript x algo p n th =
      (if algo = NOXTLS_HASH_SHA_256 then hash_message_sha256 x q k (Some th) 64
       else if algo = NOXTLS_HASH_SHA_384 \<or> algo = NOXTLS_HASH_SHA_512 then hash_message_sha512 (sha512_ctx x) algo q k (Some th) 64
       else if algo = NOXTLS_HASH_SHA1 then hash_message_sha1 x q k (Some th) 64
       else (NOXTLS_RETURN_INVALID_ALGORITHM, Some th))"
    by (auto simp: transcript_def q_def k_def hash_message_def hash_empty_message_def)
  show ?thesis
    unfolding t using hash_messages [OF assms(1) q(1) assms(3)] assms(3)
    by (auto simp: q(2) hkdf_algos_def sha_sizes suite_digests_differ suite_digests_differ [symmetric])
qed

lemma derive_secrets:
  "tls13_derive_secret stack T x th algo secret secret_len label label_len messages messages_len out out_len =
     (let hash_len = get_hash_output_size algo in
      if secret = None \<or> label = None \<or> out = None then (NOXTLS_RETURN_NULL, out)
      else if hash_len = 0 \<or> hash_len > 64 then (NOXTLS_RETURN_INVALID_ALGORITHM, out)
      else if out_len < hash_len then (NOXTLS_RETURN_INVALID_PARAM, out)
      else case transcript x algo messages messages_len th of
        (rc, th) \<Rightarrow> if rc \<noteq> NOXTLS_RETURN_SUCCESS then (rc, out)
          else tls13_hkdf_expand_label stack T algo secret secret_len label label_len th hash_len out hash_len)"
  "dtls13_derive_secret stack T x th algo secret secret_len label label_len messages messages_len out out_len =
     (let hash_len = get_hash_output_size algo in
      if secret = None \<or> label = None \<or> out = None then (NOXTLS_RETURN_NULL, out)
      else if hash_len = 0 \<or> hash_len > 64 then (NOXTLS_RETURN_INVALID_ALGORITHM, out)
      else if out_len < hash_len then (NOXTLS_RETURN_INVALID_PARAM, out)
      else case transcript x algo messages messages_len th of
        (rc, th) \<Rightarrow> if rc \<noteq> NOXTLS_RETURN_SUCCESS then (rc, out)
          else dtls13_hkdf_expand_label stack T algo secret secret_len label label_len th hash_len out hash_len)"
  unfolding tls13_derive_secret_def dtls13_derive_secret_def transcript_def by (rule refl)+

section \<open>Properties\<close>

text \<open>
  The protocols: the prefix, and the functions for TLS 1.3 and for DTLS 1.3.
\<close>

definition ascii :: "string \<Rightarrow> bytes" where
  "ascii = map of_char"

lemma prefixes:
  "tls13_prefix = ascii ''tls13 '' @ [0]" "length (ascii ''tls13 '') = 6" "0 \<notin> set (ascii ''tls13 '')"
  "dtls13_prefix = ascii ''dtls13'' @ [0]" "length (ascii ''dtls13'') = 6" "0 \<notin> set (ascii ''dtls13'')"
  by (simp_all add: ascii_def tls13_prefix_def dtls13_prefix_def of_char_def)

text \<open>
  C37. HKDF-Expand-Label, on every branch, for TLS 1.3 and DTLS 1.3. A missing buffer, a label of more than 249 bytes (which with the
  prefix would not fit its length byte), a context of more than 255 and an output of more than 65535 bytes or 255 blocks, and
  an unsupported digest, are refused and leave the output alone; otherwise the output is the HKDF-Expand of RFC 8446's
  HkdfLabel with the protocol's prefix, for every label and context up to these limits.
\<close>

theorem expand_label_cases:
  assumes "(f, p) \<in> {(tls13_hkdf_expand_label, ascii ''tls13 ''), (dtls13_hkdf_expand_label, ascii ''dtls13'')}"
    and "\<forall>s. secret = Some s \<longrightarrow> unat secret_len \<le> length s" "\<forall>l. label = Some l \<longrightarrow> unat label_len \<le> length l"
    and "\<forall>d. ctxt = Some d \<longrightarrow> unat ctxt_len \<le> length d" "\<forall>z. out = Some z \<longrightarrow> unat out_len \<le> length z" "length T = 64"
  shows "f stack T algo secret secret_len label label_len ctxt ctxt_len out out_len =
    (case (secret, label, out) of
       (Some s, Some l, Some z) \<Rightarrow>
         if 249 < unat label_len \<or> 255 < unat ctxt_len \<or> 65535 < unat out_len \<or> ctxt = None \<and> ctxt_len \<noteq> 0
           then (NOXTLS_RETURN_INVALID_PARAM, out)
         else if algo \<notin> set hkdf_algos then (NOXTLS_RETURN_INVALID_ALGORITHM, out)
         else if 255 * sha_size algo < unat out_len then (NOXTLS_RETURN_INVALID_PARAM, out)
         else (NOXTLS_RETURN_SUCCESS,
           Some (rfc_expand_label (rfc_hmac (sha_reference algo) (hmac_block algo) (take (unat secret_len) s)) (sha_size algo)
                   p (take (unat label_len) l) (data_of ctxt ctxt_len) (unat out_len) @ drop (unat out_len) z))
     | _ \<Rightarrow> (NOXTLS_RETURN_INVALID_PARAM, out))"
proof -
  have f: "f stack T algo secret secret_len label label_len ctxt ctxt_len out out_len =
      hkdf_expand_label_with_prefix stack T algo (p @ [0]) secret secret_len label label_len ctxt ctxt_len out out_len"
    and p: "length p = 6" "0 \<notin> set p"
    using assms(1) prefixes by (auto simp: tls13_hkdf_expand_label_def dtls13_hkdf_expand_label_def)
  show ?thesis
  proof (cases "\<exists>s l z. secret = Some s \<and> label = Some l \<and> out = Some z")
    case False
    then show ?thesis unfolding f by (cases secret; cases label; cases out) (simp_all add: hkdf_expand_label_with_prefix_def Let_def)
  next
    case True
    then obtain s l z where "secret = Some s" "label = Some l" "out = Some z" by blast
    then show ?thesis unfolding f using expand_label_value [OF p, of secret s label l out z] assms(2-6) by (simp add: data_of_def)
  qed
qed

theorem expand_label_cases_witness:
  "dtls13_hkdf_expand_label zero_hmac_ctx (replicate 64 0) NOXTLS_HASH_SHA_256 (Some (replicate 32 1)) 32 (Some (ascii ''sn'')) 2 None 0
     (Some (replicate 17 0)) 16 =
   (NOXTLS_RETURN_SUCCESS, Some (rfc_expand_label (rfc_hmac fips_sha256 64 (replicate 32 1)) 32 (ascii ''dtls13'') (ascii ''sn'') [] 16 @ [0]))"
  using expand_label_cases [of dtls13_hkdf_expand_label "ascii ''dtls13''" "Some (replicate 32 1)" 32 "Some (ascii ''sn'')" 2 None 0
    "Some (replicate 17 0)" 16 "replicate 64 0" zero_hmac_ctx NOXTLS_HASH_SHA_256]
  by (simp add: hkdf_algos_def hmac_blocks sha_sizes data_of_def ascii_def)

text \<open>
  C18. Derive-Secret, on every branch, for TLS 1.3 and DTLS 1.3: over the digest of the messages (of the empty string when there are
  none), computed in the library's own digest, it writes exactly one digest of output, the Expand-Label of RFC 8446, whatever
  was on the stack; every refusal leaves the output alone.
\<close>

theorem derive_secret_cases:
  assumes "(f, p) \<in> {(tls13_derive_secret, ascii ''tls13 ''), (dtls13_derive_secret, ascii ''dtls13'')}"
    and "\<forall>s. secret = Some s \<longrightarrow> unat secret_len \<le> length s" "\<forall>l. label = Some l \<longrightarrow> unat label_len \<le> length l"
    and "\<forall>d. messages = Some d \<longrightarrow> unat messages_len \<le> length d" "\<forall>z. out = Some z \<longrightarrow> unat out_len \<le> length z"
    and "length T = 64" "length th = 64" "sha_wf x"
  shows "f stack T x th algo secret secret_len label label_len messages messages_len out out_len =
    (case (secret, label, out) of
       (Some s, Some l, Some z) \<Rightarrow>
         if get_hash_output_size algo = 0 then (NOXTLS_RETURN_INVALID_ALGORITHM, out)
         else if out_len < get_hash_output_size algo then (NOXTLS_RETURN_INVALID_PARAM, out)
         else if algo \<notin> set hkdf_algos then (NOXTLS_RETURN_INVALID_ALGORITHM, out)
         else if 249 < unat label_len then (NOXTLS_RETURN_INVALID_PARAM, out)
         else (NOXTLS_RETURN_SUCCESS,
           Some (rfc_derive_secret (sha_reference algo) (hmac_block algo) (sha_size algo) p (take (unat secret_len) s)
                   (take (unat label_len) l) (data_of messages messages_len) @ drop (sha_size algo) z))
     | _ \<Rightarrow> (NOXTLS_RETURN_NULL, out))"
proof (cases "\<exists>s l z. secret = Some s \<and> label = Some l \<and> out = Some z")
  case False
  then show ?thesis using assms(1)
    by (cases secret; cases label; cases out) (auto simp: tls13_derive_secret_def dtls13_derive_secret_def Let_def)
next
  case True
  then obtain s l z where some: "secret = Some s" "label = Some l" "out = Some z" by blast
  let ?h = "get_hash_output_size algo" and ?m = "data_of messages messages_len"
  have p: "length p = 6" "0 \<notin> set p" using assms(1) prefixes by auto
  have f: "f stack T x th algo secret secret_len label label_len messages messages_len out out_len =
      (if ?h = 0 then (NOXTLS_RETURN_INVALID_ALGORITHM, out) else if out_len < ?h then (NOXTLS_RETURN_INVALID_PARAM, out)
       else case transcript x algo messages messages_len th of
         (rc, th) \<Rightarrow> if rc \<noteq> NOXTLS_RETURN_SUCCESS then (rc, out)
           else hkdf_expand_label_with_prefix stack T algo (p @ [0]) secret secret_len label label_len th ?h out ?h)"
    using assms(1) prefixes some leD [OF hash_size_bound [of algo]]
    by (auto simp: derive_secrets tls13_hkdf_expand_label_def dtls13_hkdf_expand_label_def Let_def split: prod.split)
  note tr = transcript_value [OF assms(8,4,7), of algo]
  show ?thesis
  proof (cases "algo \<in> set hkdf_algos")
    case False
    then show ?thesis unfolding f tr using some by simp
  next
    case True
    note h = hmac_hash_size [OF hkdf_hmac_algos [OF True]] hkdf_size_facts(1,2) [OF True]
    have sz: "sha_size algo \<le> 64" "0 < sha_size algo" using hmac_sizes(4,5) [OF hkdf_hmac_algos [OF True]] by simp_all
    have lr: "length (sha_reference algo ?m) = sha_size algo" by (rule sha_reference_length [OF hmac_sha_algos [OF hkdf_hmac_algos [OF True]]])
    show ?thesis
    proof (cases "out_len < ?h")
      case short: True
      then show ?thesis unfolding f using some h by simp
    next
      case False
      then have "sha_size algo \<le> unat out_len" using h by (simp add: word_less_nat_alt)
      then have zl: "sha_size algo \<le> length z" using assms(5) some(3) by simp
      have "hkdf_expand_label_with_prefix stack T algo (p @ [0]) secret secret_len label label_len
          (Some (sha_reference algo ?m @ drop (sha_size algo) th)) ?h out ?h =
        (if 249 < unat label_len then (NOXTLS_RETURN_INVALID_PARAM, out)
         else (NOXTLS_RETURN_SUCCESS,
           Some (rfc_derive_secret (sha_reference algo) (hmac_block algo) (sha_size algo) p (take (unat secret_len) s)
                   (take (unat label_len) l) ?m @ drop (sha_size algo) z)))"
        using expand_label_value [OF p some, of secret_len label_len "Some (sha_reference algo ?m @ drop (sha_size algo) th)" ?h ?h T stack algo]
          assms(2,3,6) some True zl h sz lr by (simp add: rfc_derive_secret_def)
      then show ?thesis unfolding f tr using False True some h by simp
    qed
  qed
qed

theorem derive_secret_cases_witness:
  "tls13_derive_secret zero_hmac_ctx (replicate 64 0) zero_sha_ctx (replicate 64 0) NOXTLS_HASH_SHA_256 (Some (replicate 32 1)) 32
     (Some (ascii ''derived'')) 7 None 0 (Some (replicate 33 0)) 33 =
   (NOXTLS_RETURN_SUCCESS, Some (rfc_derive_secret fips_sha256 64 32 (ascii ''tls13 '') (replicate 32 1) (ascii ''derived'') [] @ [0]))"
proof -
  have size: "get_hash_output_size NOXTLS_HASH_SHA_256 = 32" by (simp add: get_hash_output_size_def hash_algos)
  show ?thesis
    using derive_secret_cases [of tls13_derive_secret "ascii ''tls13 ''" "Some (replicate 32 1)" 32 "Some (ascii ''derived'')" 7 None 0
      "Some (replicate 33 0)" 33 "replicate 64 0" "replicate 64 0" zero_sha_ctx zero_hmac_ctx NOXTLS_HASH_SHA_256]
    by (simp add: hkdf_algos_def hmac_blocks sha_sizes data_of_def ascii_def zero_wf size)
qed

end
