(* ===== verification/Spec2Isabelle.thy ===== *)
theory Spec2Isabelle
  imports Dtls_Replay Dtls_Reassembly_Budget Dtls_Amplification Dtls_End_To_End Ct_Memory Aes_Table Aes_Stream_Correct Bn_Inverse Pbkdf2 Dtls_Cookie Tls_Kdf
begin

text \<open>
  NoxTLS: verification development. (Header to follow.)
\<close>

end
